(* ===== verification/Prelude.thy ===== *)
theory Prelude
  imports Complex_Main "HOL-Library.Signed_Division" "HOL-Library.Log_Nat"
    "HOL-Library.Multiset" "HOL-Library.Word"
begin

text \<open>
  Shared ground of the development: the C arithmetic the generator relies on (division and
  remainder that truncate towards zero, 32-bit stores into an \<open>int\<close>), decimal conversions of
  the \<open>printf\<close> family (\<open>%d\<close>, \<open>%0nd\<close>), C strings as character lists, and the list lemmas that
  several components use.  A C \<open>long\<close> is a HOL \<open>int\<close>: the program is modelled for an LP64
  target (64-bit \<open>long\<close>, 32-bit \<open>int\<close>), and the bounds lemmas of the components show that the
  values stay far inside that range; where the width is observable the conversion is written out.
\<close>

named_theorems cdiv_simps \<open>C division and remainder on non-negative operands\<close>
named_theorems fmt_simps \<open>lengths and values of formatted numbers\<close>

subsection \<open>C arithmetic\<close>

text \<open>C's \<open>/\<close> and \<open>%\<close> truncate towards zero: \<open>sdiv\<close> and \<open>smod\<close> of the library.  On
  non-negative operands they are \<open>div\<close> and \<open>mod\<close>.\<close>

lemma sdiv_nonneg [cdiv_simps]: "0 \<le> a \<Longrightarrow> 0 \<le> b \<Longrightarrow> a sdiv b = a div b" for a b :: int
  by (auto simp: signed_divide_int_def sgn_if)

lemma smod_nonneg [cdiv_simps]: "0 \<le> a \<Longrightarrow> 0 \<le> b \<Longrightarrow> a smod b = a mod b" for a b :: int
  by (auto simp: signed_modulo_int_def sgn_if)

lemma sdiv_eq_divmod: "b * (a sdiv b) + a smod b = a" for a b :: int
  by (rule mult_sdiv_smod_eq)

text \<open>The value a 32-bit two's complement \<open>int\<close> holds after an assignment from a \<open>long\<close>.\<close>

definition c_int :: "int \<Rightarrow> int" where
  "c_int x = sint (word_of_int x :: 32 word)"

lemma c_int_id: "- (2 ^ 31) \<le> x \<Longrightarrow> x < 2 ^ 31 \<Longrightarrow> c_int x = x"
  unfolding c_int_def by (simp add: sint_sbintrunc' signed_take_bit_int_eq_self)

lemma c_int_bounds: "- (2 ^ 31) \<le> c_int x" "c_int x < 2 ^ 31"
  using sint_ge [of "word_of_int x :: 32 word"] sint_lt [of "word_of_int x :: 32 word"]
  by (simp_all add: c_int_def)

subsection \<open>Decimal conversions\<close>

definition digit_char :: "nat \<Rightarrow> char" where
  "digit_char d = char_of (48 + d)"

definition char_digit :: "char \<Rightarrow> nat" where
  "char_digit c = of_char c - 48"

definition is_digit :: "char \<Rightarrow> bool" where
  "is_digit c = (48 \<le> (of_char c :: nat) \<and> (of_char c :: nat) \<le> 57)"

fun dec :: "nat \<Rightarrow> string" where
  "dec n = (if n < 10 then [digit_char n] else dec (n div 10) @ [digit_char (n mod 10)])"

declare dec.simps [simp del]

text \<open>\<open>%d\<close> and \<open>%ld\<close>.\<close>

definition fmt_d :: "int \<Rightarrow> string" where
  "fmt_d n = (if n < 0 then CHR ''-'' # dec (nat (- n)) else dec (nat n))"

definition pad_left :: "nat \<Rightarrow> char \<Rightarrow> string \<Rightarrow> string" where
  "pad_left w c s = replicate (w - length s) c @ s"

definition pad_right :: "nat \<Rightarrow> char \<Rightarrow> string \<Rightarrow> string" where
  "pad_right w c s = s @ replicate (w - length s) c"

text \<open>\<open>%0wd\<close>: zero padding goes between the sign and the digits.\<close>

definition fmt_0d :: "nat \<Rightarrow> int \<Rightarrow> string" where
  "fmt_0d w n = (if n < 0 then CHR ''-'' # pad_left (w - 1) CHR ''0'' (dec (nat (- n)))
                 else pad_left w CHR ''0'' (dec (nat n)))"

text \<open>\<open>%wd\<close>: padded on the left with blanks.\<close>

definition fmt_wd :: "nat \<Rightarrow> int \<Rightarrow> string" where
  "fmt_wd w n = pad_left w CHR '' '' (fmt_d n)"

text \<open>The value of a digit string, most significant digit first.\<close>

definition undec :: "string \<Rightarrow> nat" where
  "undec s = foldl (\<lambda>a c. 10 * a + char_digit c) 0 s"

lemma char_digit_digit_char [simp]: "d < 10 \<Longrightarrow> char_digit (digit_char d) = d"
  by (simp add: char_digit_def digit_char_def)

lemma is_digit_digit_char [simp]: "d < 10 \<Longrightarrow> is_digit (digit_char d)"
  by (simp add: is_digit_def digit_char_def)

lemma char_digit_0 [simp]: "char_digit CHR ''0'' = 0"
  by (simp add: char_digit_def)

lemma is_digit_0 [simp]: "is_digit CHR ''0''"
  by (simp add: is_digit_def)

lemma digit_chars [fmt_simps]:
  "digit_char 0 = CHR ''0''" "digit_char 1 = CHR ''1''" "digit_char (Suc 0) = CHR ''1''"
  "digit_char 2 = CHR ''2''" "digit_char 3 = CHR ''3''" "digit_char 4 = CHR ''4''"
  "digit_char 5 = CHR ''5''" "digit_char 6 = CHR ''6''" "digit_char 7 = CHR ''7''"
  "digit_char 8 = CHR ''8''" "digit_char 9 = CHR ''9''"
  unfolding digit_char_def by code_simp+

lemma undec_Nil [simp]: "undec [] = 0"
  by (simp add: undec_def)

lemma undec_snoc [simp]: "undec (s @ [c]) = 10 * undec s + char_digit c"
  by (simp add: undec_def)

lemma undec_append: "undec (s @ t) = undec s * 10 ^ length t + undec t"
proof (induction t rule: rev_induct)
  case Nil
  then show ?case by simp
next
  case (snoc c t)
  have "undec (s @ t @ [c]) = 10 * undec (s @ t) + char_digit c"
    by (simp flip: append_assoc)
  with snoc show ?case by (simp add: algebra_simps)
qed

lemma undec_zeros [simp]: "undec (replicate n CHR ''0'' @ s) = undec s"
proof (induction n)
  case (Suc n)
  have "undec (replicate (Suc n) CHR ''0'' @ s) = undec ([CHR ''0''] @ (replicate n CHR ''0'' @ s))"
    by simp
  also have "\<dots> = undec (replicate n CHR ''0'' @ s)"
    unfolding undec_append by (simp add: undec_def)
  finally show ?case using Suc by simp
qed simp

lemma undec_dec [simp, fmt_simps]: "undec (dec n) = n"
proof (induction n rule: dec.induct)
  case (1 n)
  show ?case
  proof (cases "n < 10")
    case True
    then show ?thesis by (subst dec.simps) (simp add: undec_def)
  next
    case False
    with "1.IH" show ?thesis by (subst dec.simps) simp
  qed
qed

lemma dec_digits: "\<forall>c \<in> set (dec n). is_digit c"
proof (induction n rule: dec.induct)
  case (1 n)
  then show ?case by (subst dec.simps) auto
qed

lemma dec_nonempty [simp]: "dec n \<noteq> []"
  by (subst dec.simps) simp

lemma length_dec_pos: "0 < length (dec n)"
  by simp

text \<open>A number below \<open>10 ^ k\<close> has at most \<open>k\<close> digits.\<close>

lemma length_dec_le: "n < 10 ^ k \<Longrightarrow> 0 < k \<Longrightarrow> length (dec n) \<le> k"
proof (induction n arbitrary: k rule: dec.induct)
  case (1 n)
  show ?case
  proof (cases "n < 10")
    case True
    with "1.prems" show ?thesis by (subst dec.simps) simp
  next
    case False
    with "1.prems"(1) have "k \<noteq> 1" by auto
    with "1.prems"(2) obtain j where k: "k = Suc j" and j: "0 < j"
      by (cases k) auto
    from "1.prems" k have "n div 10 < 10 ^ j"
      by (simp add: div_less_iff_less_mult mult.commute)
    with "1.IH" False j have "length (dec (n div 10)) \<le> j" by simp
    with False k show ?thesis by (subst dec.simps) simp
  qed
qed

lemma length_pad_left [simp, fmt_simps]: "length (pad_left w c s) = max w (length s)"
  by (simp add: pad_left_def)

lemma length_pad_right [simp, fmt_simps]: "length (pad_right w c s) = max w (length s)"
  by (simp add: pad_right_def)

lemma undec_pad_left [simp, fmt_simps]: "undec (pad_left w CHR ''0'' s) = undec s"
  by (simp add: pad_left_def)

lemma length_fmt_0d [fmt_simps]:
  "0 \<le> n \<Longrightarrow> n < 10 ^ w \<Longrightarrow> 0 < w \<Longrightarrow> length (fmt_0d w n) = w"
  using length_dec_le [of "nat n" w] by (simp add: fmt_0d_def max_def nat_less_iff)

lemma undec_fmt_0d [fmt_simps]: "0 \<le> n \<Longrightarrow> undec (fmt_0d w n) = nat n"
  by (simp add: fmt_0d_def)

lemma undec_fmt_d [fmt_simps]: "0 \<le> n \<Longrightarrow> undec (fmt_d n) = nat n"
  by (simp add: fmt_d_def)

lemma length_fmt_d_le: "0 \<le> n \<Longrightarrow> n < 10 ^ k \<Longrightarrow> 0 < k \<Longrightarrow> length (fmt_d n) \<le> k"
  using length_dec_le [of "nat n" k] by (simp add: fmt_d_def nat_less_iff)

lemma fmt_0d_digits: "0 \<le> n \<Longrightarrow> \<forall>c \<in> set (fmt_0d w n). is_digit c"
  using dec_digits [of "nat n"] by (auto simp: fmt_0d_def pad_left_def)

subsection \<open>Lists\<close>

text \<open>An in-place exchange of two array cells permutes the array.\<close>

lemma mset_swap_update:
  "i < length xs \<Longrightarrow> j < length xs \<Longrightarrow> mset (xs[i := xs ! j, j := xs ! i]) = mset xs"
  by (rule mset_swap)

text \<open>A rotation that keeps its position inside an array: \<open>source \<ge> c\<close> is taken back by \<open>c\<close>.\<close>

lemma list_update_nth_other: "i \<noteq> j \<Longrightarrow> xs[i := x] ! j = xs ! j"
  by simp

lemma foldl_invariant:
  assumes "P a" and "\<And>a x. P a \<Longrightarrow> x \<in> set xs \<Longrightarrow> P (f a x)"
  shows "P (foldl f a xs)"
  using assms by (induction xs arbitrary: a) auto

end
