(* ===== verification/Lcg.thy ===== *)
theory Lcg
  imports Prelude
begin

text \<open>
  The random number generator of \<open>rnd.c\<close>/\<open>rnd.h\<close>: \<open>NextRand\<close>, Park and Miller's minimal
  standard generator, with Schrage's overflow-free evaluation.  Shown here: the evaluation
  computes \<open>nA * s mod nM\<close>, its intermediate values fit a 32-bit \<open>long\<close>, and, as the comment in
  the source claims, the generator runs through every number of \<open>1..nM-1\<close> before it repeats.
\<close>

definition nA :: int where "nA = 16807"
definition nM :: int where "nM = 2147483647"
definition nQ :: int where "nQ = 127773"
definition nR :: int where "nR = 2836"

lemmas lcg_consts = nA_def nM_def nQ_def nR_def

definition NextRand :: "int \<Rightarrow> int" where
  "NextRand nSeed =
     (let nU = nSeed sdiv nQ;
          nV = nSeed - nQ * nU;
          nSeed' = nA * nV - nU * nR
      in if nSeed' < 0 then nSeed' + nM else nSeed')"

text \<open>The seeds the generator keeps: \<open>1..nM-1\<close>.\<close>

definition seed_ok :: "int \<Rightarrow> bool" where
  "seed_ok s \<longleftrightarrow> 1 \<le> s \<and> s < nM"

subsection \<open>Schrage's evaluation\<close>

lemma schrage_parts:
  assumes "0 \<le> s" "s < nM"
  shows "s sdiv nQ = s div nQ" and "s - nQ * (s sdiv nQ) = s mod nQ"
    and "0 \<le> s div nQ" and "s div nQ \<le> nA" and "0 \<le> s mod nQ" and "s mod nQ < nQ"
proof -
  show d: "s sdiv nQ = s div nQ" using assms by (simp add: sdiv_nonneg nQ_def)
  show "s - nQ * (s sdiv nQ) = s mod nQ" unfolding d by (simp add: minus_mult_div_eq_mod)
  have "s div nQ \<le> (nM - 1) div nQ" using assms by (intro zdiv_mono1) (simp_all add: lcg_consts)
  then show "s div nQ \<le> nA" by (simp add: lcg_consts)
  show "0 \<le> s div nQ" using assms by (simp add: nQ_def pos_imp_zdiv_nonneg_iff)
  show "0 \<le> s mod nQ" "s mod nQ < nQ" by (simp_all add: nQ_def)
qed

lemma NextRand_mod:
  assumes "0 \<le> s" "s < nM"
  shows "NextRand s = nA * s mod nM"
proof -
  note p = schrage_parts [OF assms]
  define u where "u = s div nQ"
  define v where "v = s mod nQ"
  define t where "t = nA * v - u * nR"
  have s: "s = nQ * u + v" by (simp add: u_def v_def)
  have b: "0 \<le> u" "u \<le> 16807" "0 \<le> v" "v < 127773"
    using p by (simp_all add: u_def v_def lcg_consts)
  have nr: "NextRand s = (if t < 0 then t + nM else t)"
    unfolding NextRand_def by (simp add: p(1) minus_mult_div_eq_mod t_def u_def v_def Let_def)
  have "nA * s = t + u * nM" unfolding s t_def by (simp add: lcg_consts algebra_simps)
  then have mod: "nA * s mod nM = t mod nM" by simp
  have t: "- nM < t" "t < nM" using b by (simp_all add: t_def lcg_consts)
  show ?thesis
  proof (cases "t < 0")
    case True
    then have "(t + nM) mod nM = t + nM" using t by (intro mod_pos_pos_trivial) simp_all
    with True mod nr show ?thesis by simp
  next
    case False
    with t mod nr show ?thesis by (simp add: mod_pos_pos_trivial)
  qed
qed

subsection \<open>Modular powers of the multiplier\<close>

text \<open>Square and multiply on binary numerals, to evaluate modular powers in the kernel.\<close>

fun pow_mod :: "int \<Rightarrow> num \<Rightarrow> int" where
  "pow_mod b num.One = b mod nM"
| "pow_mod b (num.Bit0 n) = (let r = pow_mod b n in r * r mod nM)"
| "pow_mod b (num.Bit1 n) = (let r = pow_mod b n in (r * r mod nM) * b mod nM)"

lemma pow_mod: "pow_mod b n = b ^ numeral n mod nM"
proof (induction n)
  case (Bit0 n)
  then show ?case by (simp add: Let_def numeral_Bit0 power_add mod_simps)
next
  case (Bit1 n)
  have "b ^ numeral (num.Bit1 n) = b ^ numeral n * b ^ numeral n * b"
    by (simp only: numeral_Bit1 power_add power_one_right)
  then show ?case
    by (simp only: pow_mod.simps Let_def Bit1.IH) (simp only: mod_simps)
qed simp

text \<open>The order of the multiplier, kept folded in the proofs.\<close>

definition period :: nat where "period = 2147483646"

lemma power_order: "nA ^ period mod nM = 1"
  unfolding period_def pow_mod [symmetric] by (simp add: lcg_consts Let_def)

lemma power_not_one_large:
  "nA ^ 1073741823 mod nM \<noteq> 1" "nA ^ 715827882 mod nM \<noteq> 1" "nA ^ 306783378 mod nM \<noteq> 1"
  unfolding pow_mod [symmetric] by (simp_all add: lcg_consts Let_def)

lemma power_not_one_small:
  "nA ^ 195225786 mod nM \<noteq> 1" "nA ^ 69273666 mod nM \<noteq> 1" "nA ^ 14221746 mod nM \<noteq> 1" "nA ^ 6487866 mod nM \<noteq> 1"
  unfolding pow_mod [symmetric] by (simp_all add: lcg_consts Let_def)

lemmas power_not_one = power_not_one_large power_not_one_small

lemma coprime_nA_nM: "coprime nA nM"
proof (rule coprimeI)
  fix c :: int
  assume "c dvd nA" "c dvd nM"
  then have "c dvd nA * 1407677000 - nM * 11017" by (intro dvd_diff dvd_mult2)
  then show "is_unit c" by (simp add: lcg_consts)
qed

lemma cancel_nA_power:
  assumes "nA ^ i * x mod nM = nA ^ i * y mod nM"
  shows "x mod nM = y mod nM"
proof -
  have "coprime nM (nA ^ i)" using coprime_nA_nM by (simp add: coprime_commute)
  moreover have "nM dvd nA ^ i * (x - y)"
    using assms by (simp add: mod_eq_dvd_iff right_diff_distrib)
  ultimately have "nM dvd x - y" by (simp add: coprime_dvd_mult_right_iff)
  then show ?thesis by (simp add: mod_eq_dvd_iff)
qed

subsection \<open>The multiplier has order \<open>nM - 1\<close>\<close>

lemma power_mod_mult:
  assumes "nA ^ d mod nM = 1"
  shows "nA ^ (d * c) mod nM = 1"
proof -
  have "nA ^ (d * c) mod nM = (nA ^ d mod nM) ^ c mod nM"
    by (simp add: power_mult power_mod)
  then show ?thesis using assms by (simp add: nM_def)
qed

text \<open>A number that shares no factor with the primes of \<open>nM - 1\<close> and divides it is 1.\<close>

lemma coprime_small_prime:
  fixes c :: nat
  assumes "\<not> p dvd c" and "filter (\<lambda>k. k dvd p) [1..<Suc p] = [1, p]" and "0 < p"
  shows "coprime c p"
proof (rule coprimeI)
  fix g assume g: "g dvd c" "g dvd p"
  then have "g \<in> set (filter (\<lambda>k. k dvd p) [1..<Suc p])"
    using assms(3) dvd_imp_le [of g p] by (auto intro: Suc_leI gr0I)
  with assms(2) have "g = 1 \<or> g = p" by simp
  with g assms(1) show "is_unit g" by auto
qed

lemma large_primes:
  "filter (\<lambda>k. k dvd 151) [1..<Suc 151] = [1, 151 :: nat]" "filter (\<lambda>k. k dvd 331) [1..<Suc 331] = [1, 331 :: nat]"
  by code_simp+

lemma order_prime_divides:
  fixes c :: nat
  assumes "c dvd 2147483646" "c \<noteq> 1"
  shows "2 dvd c \<or> 3 dvd c \<or> 7 dvd c \<or> 11 dvd c \<or> 31 dvd c \<or> 151 dvd c \<or> 331 dvd c"
proof (rule ccontr)
  assume "\<not> ?thesis"
  then have "coprime c 2" "coprime c 3" "coprime c 7" "coprime c 11" "coprime c 31"
    "coprime c 151" "coprime c 331"
    by (auto intro!: coprime_small_prime large_primes) (code_simp+)
  then have "coprime c (2 * 3 * 3 * 7 * 11 * 31 * 151 * 331)"
    by (simp only: coprime_mult_right_iff simp_thms)
  then have "coprime c 2147483646" by simp
  with assms have "is_unit c" by (metis coprime_absorb_left)
  with assms(2) show False by simp
qed

lemma order_factor:
  assumes d: "nA ^ d mod nM = 1" and c: "d * c = period"
  shows "c = 1"
proof (rule ccontr)
  assume "c \<noteq> 1"
  have cd: "c dvd 2147483646" using c by (metis dvd_triv_right period_def)
  have step: "nA ^ k mod nM = 1" if "p dvd c" "p * k = period" "0 < p" for p k
  proof -
    from that(1) obtain e where "c = p * e" ..
    with c that(2) have "p * k = p * (d * e)" by (simp add: mult.left_commute)
    with that(3) have "k = d * e" by simp
    then show ?thesis using power_mod_mult [OF d] by simp
  qed
  note bad = step [of 2 1073741823] step [of 3 715827882] step [of 7 306783378]
    step [of 11 195225786] step [of 31 69273666] step [of 151 14221746] step [of 331 6487866]
  from order_prime_divides [OF cd \<open>c \<noteq> 1\<close>] bad power_not_one show False
    by (auto simp: period_def)
qed

lemma order_minimal:
  assumes "0 < k" "nA ^ k mod nM = 1"
  shows "period \<le> k"
proof -
  define d where "d = (LEAST k. 0 < k \<and> nA ^ k mod nM = 1)"
  have d: "0 < d" "nA ^ d mod nM = 1"
    using LeastI [of "\<lambda>k. 0 < k \<and> nA ^ k mod nM = 1", OF conjI [OF assms]]
    unfolding d_def by blast+
  have least: "d \<le> j" if "0 < j" "nA ^ j mod nM = 1" for j
    unfolding d_def by (rule Least_le) (simp add: that)
  define q r where "q = period div d" and "r = period mod d"
  have qr: "period = d * q + r" by (simp add: q_def r_def)
  have "nA ^ period mod nM = (nA ^ (d * q) mod nM) * nA ^ r mod nM"
    by (subst qr) (simp only: power_add mod_mult_left_eq)
  then have r: "nA ^ r mod nM = 1" unfolding power_order power_mod_mult [OF d(2)] by simp
  have "r < d" using d(1) by (simp add: r_def)
  with least [OF _ r] have "r = 0" by (cases "r = 0") auto
  with qr have dq: "d * q = period" by simp
  then have "d = period" using order_factor [OF d(2) dq] by simp
  with least [OF assms] show ?thesis by simp
qed

subsection \<open>Powers of the multiplier reach every seed\<close>

lemma nA_power_range: "nA ^ k mod nM \<in> {1..nM - 1}"
proof -
  have "nA ^ k mod nM \<noteq> 0"
  proof
    assume "nA ^ k mod nM = 0"
    then have "nM dvd nA ^ k * 1" by (simp add: dvd_eq_mod_eq_0)
    moreover have "coprime nM (nA ^ k)" using coprime_nA_nM by (simp add: coprime_commute)
    ultimately have "nM dvd 1" by (simp only: coprime_dvd_mult_right_iff)
    then show False by (simp add: nM_def)
  qed
  moreover have "0 \<le> nA ^ k mod nM" "nA ^ k mod nM < nM" by (simp_all add: nM_def)
  ultimately show ?thesis by simp
qed

lemma nA_power_inj: "inj_on (\<lambda>k. nA ^ k mod nM) {0..<period}"
proof (rule linorder_inj_onI')
  fix i j :: nat
  assume ij: "i \<in> {0..<period}" "j \<in> {0..<period}" "i < j"
  show "nA ^ i mod nM \<noteq> nA ^ j mod nM"
  proof
    assume "nA ^ i mod nM = nA ^ j mod nM"
    moreover have "nA ^ j = nA ^ i * nA ^ (j - i)"
      using ij(3) by (simp only: power_add [symmetric]) simp
    ultimately have "nA ^ i * nA ^ (j - i) mod nM = nA ^ i * 1 mod nM" by simp
    from cancel_nA_power [OF this] have "nA ^ (j - i) mod nM = 1" by (simp add: nM_def)
    with order_minimal [of "j - i"] ij show False by simp
  qed
qed

lemma nA_power_surj: "(\<lambda>k. nA ^ k mod nM) ` {0..<period} = {1..nM - 1}"
proof (rule card_subset_eq)
  show "card ((\<lambda>k. nA ^ k mod nM) ` {0..<period}) = card {1..nM - 1}"
    by (simp only: card_image [OF nA_power_inj]) (simp add: period_def nM_def)
qed (use nA_power_range in auto)

lemma seed_is_power: "seed_ok s \<Longrightarrow> \<exists>k < period. s = nA ^ k mod nM"
  using nA_power_surj by (fastforce simp: seed_ok_def set_eq_iff image_iff)

lemma seed_ok_power: "seed_ok (nA ^ k mod nM)"
  using nA_power_range [of k] by (simp add: seed_ok_def)

text \<open>So the modulus has no common factor with any seed: products of seeds are seeds.\<close>

lemma seed_mult_ok:
  assumes "seed_ok a" "seed_ok b"
  shows "seed_ok (a * b mod nM)"
proof -
  obtain i j where "a = nA ^ i mod nM" "b = nA ^ j mod nM"
    using assms seed_is_power by blast
  then have "a * b mod nM = nA ^ (i + j) mod nM" by (simp add: mod_simps power_add)
  then show ?thesis using seed_ok_power by simp
qed

subsection \<open>The sequence of seeds\<close>

lemma NextRand_ok: "seed_ok s \<Longrightarrow> seed_ok (NextRand s)"
  using seed_mult_ok [of nA s] NextRand_mod [of s] by (simp add: seed_ok_def lcg_consts)

lemma NextRand_iter_ok: "seed_ok s \<Longrightarrow> seed_ok ((NextRand ^^ k) s)"
  by (induction k) (simp_all add: NextRand_ok)

lemma NextRand_iter: "seed_ok s \<Longrightarrow> (NextRand ^^ k) s = nA ^ k * s mod nM"
proof (induction k)
  case 0
  then show ?case by (simp add: seed_ok_def)
next
  case (Suc k)
  have "(NextRand ^^ Suc k) s = nA * ((NextRand ^^ k) s) mod nM"
    using NextRand_iter_ok [OF Suc.prems, of k] by (simp add: NextRand_mod seed_ok_def)
  also have "\<dots> = nA ^ Suc k * s mod nM"
    unfolding Suc.IH [OF Suc.prems] by (simp add: mod_simps mult.assoc)
  finally show ?case .
qed

lemma NextRand_period: "seed_ok s \<Longrightarrow> (NextRand ^^ period) s = s"
proof -
  assume s: "seed_ok s"
  have "nA ^ period * s mod nM = (nA ^ period mod nM) * s mod nM"
    by (simp only: mod_mult_left_eq)
  also have "\<dots> = s" using s unfolding power_order by (simp add: seed_ok_def)
  finally show ?thesis using NextRand_iter [OF s] by simp
qed

lemma NextRand_reaches:
  assumes "seed_ok s" "seed_ok t"
  shows "\<exists>k < period. (NextRand ^^ k) s = t"
proof -
  obtain i j where ij: "i < period" "j < period" "s = nA ^ i mod nM" "t = nA ^ j mod nM"
    using assms seed_is_power by meson
  define k where "k = (if i \<le> j then j - i else j + period - i)"
  have k: "k < period" using ij by (auto simp: k_def)
  have "(NextRand ^^ k) s = nA ^ k * (nA ^ i mod nM) mod nM"
    using NextRand_iter [OF assms(1)] ij by simp
  also have "\<dots> = nA ^ (k + i) mod nM" by (simp add: mod_simps power_add)
  also have "\<dots> = t"
  proof (cases "i \<le> j")
    case False
    then have "k + i = period + j" using ij by (simp add: k_def)
    then have "nA ^ (k + i) mod nM = (nA ^ period mod nM) * nA ^ j mod nM"
      by (simp only: power_add mod_mult_left_eq)
    then show ?thesis unfolding power_order using ij by simp
  qed (use ij in \<open>simp add: k_def\<close>)
  finally show ?thesis using k by blast
qed

lemma NextRand_cycle:
  assumes "seed_ok s"
  shows "bij_betw (\<lambda>k. (NextRand ^^ k) s) {0..<period} {1..nM - 1}"
proof -
  let ?f = "\<lambda>k. (NextRand ^^ k) s"
  have sub: "?f ` {0..<period} \<subseteq> {1..nM - 1}"
    using NextRand_iter_ok [OF assms] by (force simp: seed_ok_def)
  have sup: "{1..nM - 1} \<subseteq> ?f ` {0..<period}"
  proof
    fix t assume "t \<in> {1..nM - 1}"
    then have "seed_ok t" by (simp add: seed_ok_def)
    from NextRand_reaches [OF assms this] show "t \<in> ?f ` {0..<period}" by auto
  qed
  from sub sup have im: "?f ` {0..<period} = {1..nM - 1}" by blast
  have "inj_on ?f {0..<period}"
    by (rule eq_card_imp_inj_on) (simp, simp only: im, simp add: period_def nM_def)
  with im show ?thesis by (simp add: bij_betw_def)
qed

lemma NextRand_returns_late:
  assumes "seed_ok s" "0 < k" "k < period"
  shows "(NextRand ^^ k) s \<noteq> s"
proof
  assume "(NextRand ^^ k) s = s"
  then have "(NextRand ^^ k) s = (NextRand ^^ 0) s" by simp
  moreover have "inj_on (\<lambda>k. (NextRand ^^ k) s) {0..<period}" using NextRand_cycle [OF assms(1)] by (simp add: bij_betw_def)
  ultimately show False using assms(2,3) by (auto dest: inj_onD [where x = k and y = 0])
qed

subsection \<open>What the comments of \<open>NextRand\<close> claim\<close>

text \<open>
  C2: for every seed in \<open>1..nM-1\<close>, \<open>NextRand\<close> returns \<open>(nSeed * nA) mod nM\<close>, again a seed in
  that range, and no product of Schrage's evaluation nor their difference leaves the range
  \<open>-(nM-1)..nM-1\<close>, so that the computation does not overflow a 32-bit \<open>long\<close> either.
\<close>

theorem NextRand_correct:
  assumes "seed_ok s"
  shows "NextRand s = nA * s mod nM \<and> seed_ok (NextRand s) \<and>
    \<bar>nA * (s - nQ * (s sdiv nQ))\<bar> < nM \<and> \<bar>(s sdiv nQ) * nR\<bar> < nM \<and>
    \<bar>nA * (s - nQ * (s sdiv nQ)) - (s sdiv nQ) * nR\<bar> < nM"
proof -
  have s: "0 \<le> s" "s < nM" using assms by (simp_all add: seed_ok_def)
  note p = schrage_parts [OF s]
  have "0 \<le> s mod nQ" "s mod nQ < 127773" "0 \<le> s div nQ" "s div nQ \<le> 16807"
    using p by (simp_all add: lcg_consts)
  then have "\<bar>nA * (s mod nQ)\<bar> < nM" "\<bar>(s div nQ) * nR\<bar> < nM"
    "\<bar>nA * (s mod nQ) - (s div nQ) * nR\<bar> < nM"
    by (simp_all add: nA_def nM_def nR_def)
  then show ?thesis
    using NextRand_mod [OF s] NextRand_ok [OF assms] unfolding p(1) minus_mult_div_eq_mod by blast
qed

theorem NextRand_correct_witness:
  "seed_ok 46831694 \<and> NextRand 46831694 = nA * 46831694 mod nM"
  using NextRand_correct [of 46831694] by (simp add: seed_ok_def nM_def)

text \<open>
  C18: started from any seed in \<open>1..nM-1\<close>, the generator runs through every number of that range
  exactly once in \<open>nM - 1\<close> steps and is then back at the seed: it has full period.
\<close>

theorem NextRand_full_period:
  assumes "seed_ok s"
  shows "bij_betw (\<lambda>k. (NextRand ^^ k) s) {0..<nat (nM - 1)} {1..nM - 1} \<and>
    (NextRand ^^ nat (nM - 1)) s = s"
proof -
  have "nat (nM - 1) = period" by (simp add: nM_def period_def)
  then show ?thesis using NextRand_cycle [OF assms] NextRand_period [OF assms] by simp
qed

theorem NextRand_full_period_witness:
  "seed_ok 1 \<and> (NextRand ^^ nat (nM - 1)) 1 = 1"
  using NextRand_full_period [of 1] by (simp add: seed_ok_def nM_def)

end
