(* ===== verification/IEEE_Double.thy ===== *)
theory IEEE_Double
  imports Prelude
begin

text \<open>
  The double-precision arithmetic of \<open>rnd.c\<close> and \<open>speed_seed.c\<close>.  A double is the rational
  number it denotes; each operation is the exact rational operation followed by rounding to a
  53-bit significand, ties to even, as IEEE 754 prescribes and the C sources assume.  The
  exponent range (and so overflow, subnormals, infinities and NaN) is not represented: every
  value the program computes lies between \<open>2 powi (- 53)\<close> and \<open>2 ^ 64\<close>, well inside it.

  Two facts carry all uses: a relative error bound of half a unit in the last place
  (\<open>dround_error\<close>), and exactness on numbers with at most 53 significant bits
  (\<open>dround_dyadic\<close>).
\<close>

definition ilog2 :: "rat \<Rightarrow> int" where
  "ilog2 x = (case quotient_of x of (p, q) \<Rightarrow>
     let k = bitlen p - bitlen q in if 2 powi k \<le> x then k else k - 1)"

definition rne :: "rat \<Rightarrow> int" where
  "rne x = (let f = \<lfloor>x\<rfloor>; d = x - of_int f in
     if d < 1 / 2 then f else if 1 / 2 < d then f + 1 else if even f then f else f + 1)"

definition dround :: "rat \<Rightarrow> rat" where
  "dround x = (if x = 0 then 0
     else let e = ilog2 \<bar>x\<bar> - 52 in of_int (rne (x / 2 powi e)) * 2 powi e)"

definition dmul :: "rat \<Rightarrow> rat \<Rightarrow> rat" where "dmul x y = dround (x * y)"

definition ddiv :: "rat \<Rightarrow> rat \<Rightarrow> rat" where "ddiv x y = dround (x / y)"

definition dadd :: "rat \<Rightarrow> rat \<Rightarrow> rat" where "dadd x y = dround (x + y)"

definition dsub :: "rat \<Rightarrow> rat \<Rightarrow> rat" where "dsub x y = dround (x - y)"

text \<open>\<open>(double) n\<close> for a \<open>long\<close>, \<open>(long) x\<close> for a double (truncation), \<open>floor\<close>.\<close>

definition d_of_long :: "int \<Rightarrow> rat" where "d_of_long n = dround (of_int n)"

definition long_of_d :: "rat \<Rightarrow> int" where
  "long_of_d x = (if 0 \<le> x then \<lfloor>x\<rfloor> else \<lceil>x\<rceil>)"

definition dfloor :: "rat \<Rightarrow> rat" where "dfloor x = of_int \<lfloor>x\<rfloor>"

subsection \<open>Exponent\<close>

lemma powi_of_int: "0 \<le> k \<Longrightarrow> (2::rat) powi k = of_int (2 ^ nat k)"
  by (simp add: power_int_def)

lemma powi_less_iff: "(2::rat) powi a < 2 powi b \<Longrightarrow> a < b"
  using power_int_increasing [of b a "2::rat"] by (auto simp: not_less [symmetric])

lemma ilog2_bounds:
  assumes "0 < x"
  shows "2 powi (ilog2 x) \<le> x" and "x < 2 powi (ilog2 x + 1)"
proof -
  obtain p q where pq: "quotient_of x = (p, q)" by (cases "quotient_of x")
  have q: "0 < q" using quotient_of_denom_pos [OF pq] .
  have x: "x = of_int p / of_int q" using quotient_of_div [OF pq] .
  have p: "0 < p" using assms x q by (simp add: zero_less_divide_iff)
  define k where "k = bitlen p - bitlen q"
  have bp: "2 ^ nat (bitlen p - 1) \<le> p" "p < 2 ^ nat (bitlen p)"
    and bq: "2 ^ nat (bitlen q - 1) \<le> q" "q < 2 ^ nat (bitlen q)"
    using bitlen_bounds [OF p] bitlen_bounds [OF q] by auto
  have pos: "0 < bitlen p" "0 < bitlen q"
    using p q bitlen_nonneg [of p] bitlen_nonneg [of q] bitlen_eq_zero_iff [of p]
      bitlen_eq_zero_iff [of q] by linarith+
  have kp: "0 \<le> bitlen p - 1" "0 \<le> bitlen p" "0 \<le> bitlen q - 1" "0 \<le> bitlen q"
    using pos by simp_all
  have rp: "(2::rat) powi (bitlen p - 1) \<le> of_int p" "of_int p < (2::rat) powi (bitlen p)"
    using bp kp by (simp_all only: powi_of_int of_int_le_iff of_int_less_iff)
  have rq: "(2::rat) powi (bitlen q - 1) \<le> of_int q" "of_int q < (2::rat) powi (bitlen q)"
    using bq kp by (simp_all only: powi_of_int of_int_le_iff of_int_less_iff)
  have "x < 2 powi (bitlen p) / 2 powi (bitlen q - 1)"
    unfolding x using rp rq q p by (intro frac_less) (auto intro: less_imp_le)
  also have "\<dots> = 2 powi (k + 1)"
    unfolding k_def by (simp flip: power_int_diff add: algebra_simps)
  finally have hi: "x < 2 powi (k + 1)" .
  have "2 powi (k - 1) = (2::rat) powi (bitlen p - 1) / 2 powi (bitlen q)"
    unfolding k_def by (simp flip: power_int_diff add: algebra_simps)
  also have "\<dots> \<le> x"
    unfolding x using rp rq q p by (intro frac_le) (auto intro: less_imp_le)
  finally have lo: "2 powi (k - 1) \<le> x" .
  have il: "ilog2 x = (if 2 powi k \<le> x then k else k - 1)"
    unfolding ilog2_def by (simp add: pq k_def Let_def)
  show "2 powi (ilog2 x) \<le> x" "x < 2 powi (ilog2 x + 1)"
    using hi lo by (simp_all add: il)
qed

subsection \<open>Rounding to the nearest integer\<close>

lemma rne_int [simp]: "rne (of_int n) = n"
  by (simp add: rne_def)

lemma rne_error: "\<bar>of_int (rne x) - x\<bar> \<le> 1 / 2"
proof -
  have "of_int \<lfloor>x\<rfloor> \<le> x" and "x < of_int \<lfloor>x\<rfloor> + 1"
    using floor_correct [of x] by simp_all
  then show ?thesis
    unfolding rne_def Let_def by (auto simp: abs_le_iff)
qed

subsection \<open>Rounding to 53 bits\<close>

lemma dround_0 [simp]: "dround 0 = 0"
  by (simp add: dround_def)

lemma dround_error: "\<bar>dround x - x\<bar> \<le> \<bar>x\<bar> / 2 ^ 53"
proof (cases "x = 0")
  case False
  define e where "e = ilog2 \<bar>x\<bar> - 52"
  have e: "(2::rat) powi e * 2 ^ 52 \<le> \<bar>x\<bar>"
  proof -
    have "(2::rat) powi e * 2 ^ 52 = 2 powi (ilog2 \<bar>x\<bar>)"
      unfolding e_def by (simp flip: power_int_add [where m = 52, simplified] add: power_int_diff)
    also have "\<dots> \<le> \<bar>x\<bar>" using ilog2_bounds(1) [of "\<bar>x\<bar>"] False by simp
    finally show ?thesis .
  qed
  have "dround x - x = (of_int (rne (x / 2 powi e)) - x / 2 powi e) * 2 powi e"
    using False by (simp add: dround_def e_def Let_def algebra_simps)
  then have "\<bar>dround x - x\<bar> \<le> 1 / 2 * 2 powi e"
    using rne_error [of "x / 2 powi e"] by (simp add: abs_mult mult_right_mono)
  also have "\<dots> \<le> \<bar>x\<bar> / 2 ^ 53" using e by (simp add: field_simps)
  finally show ?thesis .
qed simp

text \<open>A number with at most 53 significant bits is represented exactly.\<close>

lemma dround_dyadic:
  assumes "\<bar>n\<bar> < 2 ^ 53"
  shows "dround (of_int n * 2 powi k) = of_int n * 2 powi k"
proof (cases "n = 0")
  case False
  define x where "x = of_int n * (2::rat) powi k"
  define e where "e = ilog2 \<bar>x\<bar> - 52"
  have x: "0 < \<bar>x\<bar>" using False by (simp add: x_def)
  have "(2::rat) powi (ilog2 \<bar>x\<bar>) \<le> \<bar>x\<bar>" using ilog2_bounds(1) [OF x] .
  also have "\<bar>x\<bar> = of_int \<bar>n\<bar> * 2 powi k" by (simp add: x_def abs_mult)
  also have "\<dots> < 2 ^ 53 * 2 powi k"
  proof (rule mult_strict_right_mono)
    show "rat_of_int \<bar>n\<bar> < 2 ^ 53"
      using assms by (metis of_int_less_iff of_int_numeral of_int_power)
  qed simp
  also have "\<dots> = 2 powi (53 + k)" by (simp add: power_int_add)
  finally have "ilog2 \<bar>x\<bar> < 53 + k" by (rule powi_less_iff)
  then have "e \<le> k" by (simp add: e_def)
  moreover have "x / 2 powi e = of_int n * 2 powi (k - e)"
    by (simp add: x_def power_int_diff)
  ultimately have "x / 2 powi e = of_int (n * 2 ^ nat (k - e))"
    by (simp add: powi_of_int)
  then have "of_int (rne (x / 2 powi e)) = x / 2 powi e" by (metis rne_int)
  then show ?thesis
    using x by (simp add: dround_def e_def Let_def flip: x_def)
qed simp

lemma dround_int: "\<bar>n\<bar> < 2 ^ 53 \<Longrightarrow> dround (of_int n) = of_int n"
  using dround_dyadic [of n 0] by simp

lemma d_of_long_exact: "\<bar>n\<bar> < 2 ^ 53 \<Longrightarrow> d_of_long n = of_int n"
  by (simp add: d_of_long_def dround_int)

lemma dmul_int: "\<bar>m * n\<bar> < 2 ^ 53 \<Longrightarrow> dmul (of_int m) (of_int n) = of_int (m * n)"
  using dround_int [of "m * n"] by (simp add: dmul_def)

lemma dsub_int: "\<bar>m - n\<bar> < 2 ^ 53 \<Longrightarrow> dsub (of_int m) (of_int n) = of_int (m - n)"
  using dround_int [of "m - n"] by (simp add: dsub_def)

lemma dround_nonneg: "0 \<le> x \<Longrightarrow> 0 \<le> dround x"
proof -
  assume x: "0 \<le> x"
  have "x / 2 ^ 53 \<le> x" using x by simp
  moreover have "\<bar>dround x - x\<bar> \<le> x / 2 ^ 53" using dround_error [of x] x by simp
  ultimately show ?thesis by linarith
qed

lemma dround_upper: "0 \<le> x \<Longrightarrow> dround x \<le> x * (1 + 1 / 2 ^ 53)"
proof -
  assume "0 \<le> x"
  then have "dround x - x \<le> x / 2 ^ 53"
    using dround_error [of x] by linarith
  then show ?thesis by (simp add: distrib_left)
qed

lemma long_of_d_int [simp]: "long_of_d (of_int n) = n"
  by (simp add: long_of_d_def)

end
