(* ===== verification/Mod_Mult.thy ===== *)
theory Mod_Mult
  imports Lcg IEEE_Double
begin

text \<open>
  The jump-ahead of \<open>speed_seed.c\<close>: \<open>NthElement\<close> moves a seed by any number of generator steps
  in a logarithmic number of modular multiplications.  Two versions are in the source: the one
  compiled when \<open>SUPPORT_64BITS\<close> is set (\<open>NthElement_64\<close> here), and the one the Linux and
  Macintosh configurations use, built on \<open>RND_seed\<close> and on \<open>RND_ModMult\<close>, a multiplication modulo
  the Mersenne prime \<open>2 ^ 31 - 1\<close> in double precision and unsigned words.

  The locale \<open>modular_powers\<close> states what a multiplier must promise and derives that both loops
  compute modular powers; it is interpreted on \<open>RND_ModMult\<close> and on the plain product.
\<close>

unbundle bit_operations_syntax

definition Multiplier :: int where "Multiplier = 16807"
definition Modulus :: int where "Modulus = 2147483647"

subsection \<open>\<open>RND_ModMult\<close>\<close>

definition dTwoPowPlus31 :: rat where "dTwoPowPlus31 = 2147483648"
definition dTwoPowMinus31 :: rat where "dTwoPowMinus31 = ddiv 1 2147483648"
definition dTwoPowPlus15 :: rat where "dTwoPowPlus15 = 32768"
definition dTwoPowMinus15 :: rat where "dTwoPowMinus15 = ddiv 1 32768"
definition nLowMask :: int where "nLowMask = 0xFFFF"
definition ulBit31 :: "64 word" where "ulBit31 = push_bit 31 1"

text \<open>\<open>(URND) x\<close>: a non-negative double becomes an unsigned \<open>long\<close>.\<close>

definition urnd_of_d :: "rat \<Rightarrow> 64 word" where
  "urnd_of_d x = word_of_int (long_of_d x)"

text \<open>The last part of \<open>RND_ModMult\<close>: \<open>ulP * 2 ^ 31 + ulQ\<close> is folded into 31 bits.\<close>

definition fold31 :: "64 word \<Rightarrow> 64 word \<Rightarrow> int" where
  "fold31 ulP ulQ =
     (let (ulQ, ulP) = (if ulQ AND ulBit31 \<noteq> 0 then (ulQ - ulBit31, ulP + 1) else (ulQ, ulP));
          ulResult = ulP + ulQ;
          ulResult = (if ulResult AND ulBit31 \<noteq> 0 then ulResult - ulBit31 + 1 else ulResult)
      in sint ulResult)"

definition RND_ModMult :: "int \<Rightarrow> int \<Rightarrow> int" where
  "RND_ModMult a b =
     (let nL = b AND nLowMask;
          nH = drop_bit 16 (b - nL);
          dAH = dmul (d_of_long a) (d_of_long nH);
          dAL = dmul (d_of_long a) (d_of_long nL);
          dX = dfloor (dmul dAH dTwoPowMinus15);
          dY = dsub dAH (dmul dX dTwoPowPlus15);
          dZ = dfloor (dmul dAL dTwoPowMinus31);
          dW = dsub dAL (dmul dZ dTwoPowPlus31);
          ulQ = urnd_of_d dW + push_bit 16 (urnd_of_d dY);
          ulP = urnd_of_d dX + urnd_of_d dZ
      in fold31 ulP ulQ)"

subsection \<open>\<open>RND_seed\<close> and \<open>NthElement\<close>\<close>

definition TopMask :: int where "TopMask = 0x40000000"

text \<open>\<open>while (Mask > Order) Mask >>= 1\<close>: for a negative \<open>Order\<close> the loop does not end.\<close>

partial_function (option) shrink_mask :: "int \<Rightarrow> int \<Rightarrow> int option" where
  "shrink_mask Order Mask = (if Mask > Order then shrink_mask Order (drop_bit 1 Mask) else Some Mask)"

text \<open>\<open>while (Mask > 0)\<close>: one squaring per bit, one multiplication per bit that is set.\<close>

function power_loop :: "(int \<Rightarrow> int \<Rightarrow> int) \<Rightarrow> int \<Rightarrow> int \<Rightarrow> int \<Rightarrow> int" where
  "power_loop mul Order Mask Result =
     (if Mask > 0
      then power_loop mul Order (drop_bit 1 Mask)
             (if Mask AND Order \<noteq> 0 then mul (mul Result Result) Multiplier else mul Result Result)
      else Result)"
  by pat_completeness auto
termination
  by (relation "measure (\<lambda>(_, _, Mask, _). nat Mask)") (auto simp: drop_bit_eq_div)

declare power_loop.simps [simp del]

definition RND_seed :: "int \<Rightarrow> int option" where
  "RND_seed Order =
     (let Order = (if Order < 0 then Modulus - 1 + Order else Order)
      in map_option (\<lambda>Mask. power_loop RND_ModMult Order Mask 1) (shrink_mask Order TopMask))"

text \<open>\<open>NthElement(Shift, &seed)\<close>: the new seed, \<open>None\<close> when \<open>RND_seed\<close> does not return.  The
  range checks only write a message to \<open>stderr\<close> (\<open>F_FatalError\<close> does not stop the program).\<close>

definition NthElement :: "int \<Rightarrow> int \<Rightarrow> int option" where
  "NthElement Shift seed = map_option (\<lambda>Power. RND_ModMult seed Power) (RND_seed Shift)"

text \<open>The version for compilers with a 64-bit integer type.\<close>

function nth_loop :: "int \<Rightarrow> int \<Rightarrow> int \<Rightarrow> int" where
  "nth_loop N Mult Z =
     (if N > 0
      then nth_loop (N sdiv 2) ((Mult * Mult) smod Modulus)
             (if N smod 2 \<noteq> 0 then (Mult * Z) smod Modulus else Z)
      else Z)"
  by pat_completeness auto
termination
  by (relation "measure (\<lambda>(N, _, _). nat N)") (auto simp: cdiv_simps)

declare nth_loop.simps [simp del]

definition NthElement_64 :: "int \<Rightarrow> int \<Rightarrow> int" where
  "NthElement_64 N StartSeed = nth_loop N Multiplier StartSeed"

subsection \<open>\<open>RND_ModMult\<close> multiplies modulo \<open>2 ^ 31 - 1\<close>\<close>

text \<open>The integer computation behind the doubles: with \<open>b = h * 2 ^ 16 + l\<close> the product is
  \<open>P * 2 ^ 31 + Q\<close>, which is congruent to \<open>P + Q\<close>.\<close>

lemma dmul_scale_down:
  assumes "0 \<le> n" "n < 2 ^ 53"
  shows "dfloor (dmul (of_int n) dTwoPowMinus15) = of_int (n div 2 ^ 15)"
    and "dfloor (dmul (of_int n) dTwoPowMinus31) = of_int (n div 2 ^ 31)"
proof -
  have c: "dTwoPowMinus15 = 2 powi (- 15)" "dTwoPowMinus31 = 2 powi (- 31)"
    using dround_dyadic [of 1 "- 15"] dround_dyadic [of 1 "- 31"]
    by (simp_all add: dTwoPowMinus15_def dTwoPowMinus31_def ddiv_def power_int_minus_divide)
  have e: "dmul (of_int n) (2 powi k) = of_int n * 2 powi k" for k
    using dround_dyadic [of n k] assms by (simp add: dmul_def)
  have f: "\<lfloor>of_int n * (2::rat) powi (- 15)\<rfloor> = n div 2 ^ 15"
    "\<lfloor>of_int n * (2::rat) powi (- 31)\<rfloor> = n div 2 ^ 31"
    using floor_divide_of_int_eq [of n "2 ^ 15", where 'a = rat]
      floor_divide_of_int_eq [of n "2 ^ 31", where 'a = rat]
    by (simp_all add: power_int_minus_divide)
  show "dfloor (dmul (of_int n) dTwoPowMinus15) = of_int (n div 2 ^ 15)"
    "dfloor (dmul (of_int n) dTwoPowMinus31) = of_int (n div 2 ^ 31)"
    by (simp_all only: c e dfloor_def f)
qed

lemma dsub_mod:
  assumes "0 \<le> n" "n < 2 ^ 53"
  shows "dsub (of_int n) (dmul (of_int (n div 2 ^ 15)) dTwoPowPlus15) = of_int (n mod 2 ^ 15)"
    and "dsub (of_int n) (dmul (of_int (n div 2 ^ 31)) dTwoPowPlus31) = of_int (n mod 2 ^ 31)"
proof -
  have a: "\<bar>n div 2 ^ k * 2 ^ k\<bar> < 2 ^ 53 \<and> \<bar>n - n div 2 ^ k * 2 ^ k\<bar> < 2 ^ 53" for k
  proof -
    have "0 \<le> n mod 2 ^ k" "0 \<le> n div 2 ^ k * 2 ^ k"
      using assms(1) by (simp_all add: pos_imp_zdiv_nonneg_iff)
    then show ?thesis using assms div_mult_mod_eq [of n "2 ^ k"] by linarith
  qed
  show "dsub (of_int n) (dmul (of_int (n div 2 ^ 15)) dTwoPowPlus15) = of_int (n mod 2 ^ 15)"
    using dmul_int [of "n div 2 ^ 15" "2 ^ 15"] dsub_int [of n "n div 2 ^ 15 * 2 ^ 15"] a [of 15]
    by (simp add: dTwoPowPlus15_def minus_div_mult_eq_mod)
  show "dsub (of_int n) (dmul (of_int (n div 2 ^ 31)) dTwoPowPlus31) = of_int (n mod 2 ^ 31)"
    using dmul_int [of "n div 2 ^ 31" "2 ^ 31"] dsub_int [of n "n div 2 ^ 31 * 2 ^ 31"] a [of 31]
    by (simp add: dTwoPowPlus31_def minus_div_mult_eq_mod)
qed

lemma ulBit31_exp: "ulBit31 = 2 ^ 31"
  by (simp add: ulBit31_def push_bit_eq_mult)

lemma ulBit31_test:
  assumes "0 \<le> x" "x < 2 ^ 32"
  shows "(word_of_int x :: 64 word) AND ulBit31 = 0 \<longleftrightarrow> x < 2 ^ 31"
proof -
  have "(word_of_int x :: 64 word) AND ulBit31 = 0 \<longleftrightarrow> \<not> bit x 31"
    unfolding ulBit31_exp and_exp_eq_0_iff_not_bit by (simp add: bit_word_of_int_iff)
  also have "\<dots> \<longleftrightarrow> x < 2 ^ 31"
  proof (cases "x < 2 ^ 31")
    case True
    then show ?thesis using assms(1) by (simp add: bit_iff_odd div_pos_pos_trivial)
  next
    case False
    then have "(x - 2 ^ 31 + 1 * 2 ^ 31) div 2 ^ 31 = 1"
      using assms by (subst div_mult_self1) (simp_all add: div_pos_pos_trivial)
    with False show ?thesis by (simp add: bit_iff_odd)
  qed
  finally show ?thesis .
qed

lemma urnd_of_d_int: "urnd_of_d (of_int n) = word_of_int n"
  by (simp add: urnd_of_d_def)

lemma split_shift: "x * 2 ^ 16 = x div 2 ^ 15 * 2 ^ 31 + x mod 2 ^ 15 * 2 ^ 16" for x :: int
proof -
  have "x * 2 ^ 16 = (x div 2 ^ 15 * 2 ^ 15 + x mod 2 ^ 15) * 2 ^ 16"
    by (simp only: div_mult_mod_eq)
  also have "\<dots> = x div 2 ^ 15 * 2 ^ 31 + x mod 2 ^ 15 * 2 ^ 16"
    by (simp only: distrib_right mult.assoc power_add [symmetric]) simp
  finally show ?thesis .
qed

lemma fold31_word:
  fixes p q :: int
  assumes q: "0 \<le> q" "q < 2 ^ 32"
  defines "p' \<equiv> (if q < 2 ^ 31 then p else p + 1)"
    and "q' \<equiv> (if q < 2 ^ 31 then q else q - 2 ^ 31)"
  assumes p: "0 \<le> p'" "p' < 2 ^ 31"
  shows "fold31 (word_of_int p) (word_of_int q)
    = (if p' + q' < 2 ^ 31 then p' + q' else p' + q' - 2 ^ 31 + 1)"
proof -
  have q': "0 \<le> q'" "q' < 2 ^ 31" using q by (simp_all add: q'_def)
  have w: "(if word_of_int q AND ulBit31 \<noteq> 0 then (word_of_int q - ulBit31, word_of_int p + 1)
      else (word_of_int q, word_of_int p)) = (word_of_int q', word_of_int p')"
    using ulBit31_test [OF q] by (simp add: p'_def q'_def ulBit31_exp)
  have r: "sint (word_of_int r :: 64 word) = r" if "0 \<le> r" "r < 2 ^ 32" for r
    using that by (simp add: sint_sbintrunc' signed_take_bit_int_eq_self)
  have "fold31 (word_of_int p) (word_of_int q) =
      sint (word_of_int (if p' + q' < 2 ^ 31 then p' + q' else p' + q' - 2 ^ 31 + 1) :: 64 word)"
    unfolding fold31_def w using ulBit31_test [of "p' + q'"] p q'
    by (simp add: Let_def ulBit31_exp)
  also have "\<dots> = (if p' + q' < 2 ^ 31 then p' + q' else p' + q' - 2 ^ 31 + 1)"
    using p q' by (intro r) (simp_all split: if_splits)
  finally show ?thesis .
qed

text \<open>The double-precision part computes \<open>P\<close> and \<open>Q\<close> exactly.\<close>

lemma RND_ModMult_words:
  assumes a: "0 \<le> a" "a < 2 ^ 31" and b: "0 \<le> b" "b < 2 ^ 31"
  defines "h \<equiv> b div 2 ^ 16" and "l \<equiv> b mod 2 ^ 16"
  shows "RND_ModMult a b = fold31 (word_of_int (a * h div 2 ^ 15 + a * l div 2 ^ 31))
      (word_of_int (a * l mod 2 ^ 31 + a * h mod 2 ^ 15 * 2 ^ 16))"
proof -
  have hl: "0 \<le> h" "h < 2 ^ 15" "0 \<le> l" "l < 2 ^ 16"
    using b by (simp_all add: h_def l_def pos_imp_zdiv_nonneg_iff div_less_iff_less_mult)
  have ah: "0 \<le> a * h" "a * h < 2 ^ 53"
    using a hl mult_strict_mono' [of a "2 ^ 31" h "2 ^ 15"] by simp_all
  have al: "0 \<le> a * l" "a * l < 2 ^ 53"
    using a hl mult_strict_mono' [of a "2 ^ 31" l "2 ^ 16"] by simp_all
  have nl: "b AND nLowMask = l"
    using take_bit_eq_mask [of 16 b] by (simp add: l_def nLowMask_def take_bit_eq_mod mask_numeral)
  have nh: "drop_bit 16 (b - l) = h"
    by (simp add: drop_bit_eq_div h_def l_def minus_mod_eq_mult_div)
  have d: "d_of_long a = of_int a" "d_of_long h = of_int h" "d_of_long l = of_int l"
    using a hl by (simp_all add: d_of_long_exact)
  have m: "dmul (of_int a) (of_int h) = of_int (a * h)" "dmul (of_int a) (of_int l) = of_int (a * l)"
    using ah al by (simp_all only: dmul_int abs_of_nonneg)
  show ?thesis
    unfolding RND_ModMult_def Let_def nl nh d m
      dmul_scale_down [OF ah] dmul_scale_down [OF al] dsub_mod [OF ah] dsub_mod [OF al]
      urnd_of_d_int push_bit_eq_mult
    by simp
qed

lemma RND_ModMult_mod:
  assumes "seed_ok a" "seed_ok b"
  shows "RND_ModMult a b = a * b mod nM"
proof -
  define h l where "h = b div 2 ^ 16" and "l = b mod 2 ^ 16"
  define p q where "p = a * h div 2 ^ 15 + a * l div 2 ^ 31"
    and "q = a * l mod 2 ^ 31 + a * h mod 2 ^ 15 * 2 ^ 16"
  define p' q' where "p' = (if q < 2 ^ 31 then p else p + 1)"
    and "q' = (if q < 2 ^ 31 then q else q - 2 ^ 31)"
  have ab: "1 \<le> a" "a < 2 ^ 31 - 1" "1 \<le> b" "b < 2 ^ 31 - 1"
    using assms by (simp_all add: seed_ok_def nM_def)
  have bhl: "b = h * 2 ^ 16 + l" by (simp add: h_def l_def)
  have "0 \<le> a * l mod 2 ^ 31" "a * l mod 2 ^ 31 < 2 ^ 31" "0 \<le> a * h mod 2 ^ 15"
    "a * h mod 2 ^ 15 < 2 ^ 15" by simp_all
  then have q: "0 \<le> q" "q < 2 ^ 32" by (simp_all add: q_def)
  have "a * l = (a * l div 2 ^ 31) * 2 ^ 31 + a * l mod 2 ^ 31" by simp
  with split_shift [of "a * h"] have pq: "a * b = p * 2 ^ 31 + q"
    unfolding p_def q_def bhl distrib_left distrib_right mult.assoc [symmetric] by linarith
  then have pq': "a * b = p' * 2 ^ 31 + q'" by (simp add: p'_def q'_def)
  have q': "0 \<le> q'" "q' < 2 ^ 31" using q by (simp_all add: q'_def)
  have "a * b < (2 ^ 31 - 1) * 2 ^ 31" using ab by (intro mult_strict_mono') simp_all
  moreover have "0 < a * b" using ab by simp
  ultimately have p': "0 \<le> p'" "p' < 2 ^ 31 - 1" using pq' q' by simp_all
  define r where "r = (if p' + q' < 2 ^ 31 then p' + q' else p' + q' - 2 ^ 31 + 1)"
  have "RND_ModMult a b = fold31 (word_of_int p) (word_of_int q)"
    unfolding p_def q_def h_def l_def by (rule RND_ModMult_words) (use ab in simp_all)
  also have "\<dots> = r"
    unfolding r_def p'_def q'_def
    by (rule fold31_word [OF q]; fold p'_def) (use p' in simp_all)
  finally have "RND_ModMult a b = r" .
  moreover have "r = a * b mod nM"
  proof -
    have "a * b = r + nM * (if p' + q' < 2 ^ 31 then p' else p' + 1)"
      unfolding pq' r_def by (simp add: nM_def algebra_simps)
    then have mod: "a * b mod nM = r mod nM" by (metis mod_mult_self2)
    have "0 \<le> r" "r \<le> nM" using p' q' by (auto simp: r_def nM_def)
    moreover have "r \<noteq> nM" using seed_mult_ok [OF assms] mod by (auto simp: seed_ok_def)
    ultimately show ?thesis using mod by (simp add: mod_pos_pos_trivial)
  qed
  ultimately show ?thesis by simp
qed

subsection \<open>Any multiplier modulo \<open>nM\<close>: square and multiply\<close>

locale modular_powers =
  fixes mul :: "int \<Rightarrow> int \<Rightarrow> int"
  assumes mul_mod: "seed_ok a \<Longrightarrow> seed_ok b \<Longrightarrow> mul a b = a * b mod nM"
begin

lemma mul_ok: "seed_ok a \<Longrightarrow> seed_ok b \<Longrightarrow> seed_ok (mul a b)"
  by (simp add: mul_mod seed_mult_ok)

lemma mul_powers: "mul (nA ^ i mod nM) (nA ^ j mod nM) = nA ^ (i + j) mod nM"
  by (simp add: mul_mod seed_ok_power mod_simps power_add)

lemma mul_Multiplier: "mul (nA ^ i mod nM) Multiplier = nA ^ (i + 1) mod nM"
proof -
  have "Multiplier = nA ^ 1 mod nM" by (simp add: Multiplier_def nA_def nM_def)
  then show ?thesis using mul_powers [of i 1] by argo
qed

text \<open>With the mask at bit \<open>k\<close> the result is the power for the bits above \<open>k\<close>.\<close>

lemma power_loop_step:
  "power_loop mul (int n) (2 ^ k) (nA ^ (n div 2 ^ Suc k) mod nM) =
   power_loop mul (int n) (drop_bit 1 (2 ^ k)) (nA ^ (n div 2 ^ k) mod nM)"
proof -
  have bit: "(2 ^ k AND int n = 0) = even (n div 2 ^ k)"
    by (simp only: and_exp_eq_0_iff_not_bit and.commute [of "2 ^ k"] bit_of_nat_iff_bit) (simp add: bit_iff_odd)
  have h: "m = m div 2 + m div 2 + (if even m then 0 else 1)" for m :: nat by presburger
  have "n div 2 ^ Suc k = n div 2 ^ k div 2"
    using div_mult2_eq [of n "2 ^ k" 2] by (simp only: power_Suc mult.commute [of 2])
  then have "n div 2 ^ k = n div 2 ^ Suc k + n div 2 ^ Suc k
      + (if even (n div 2 ^ k) then 0 else 1)" using h [of "n div 2 ^ k"] by argo
  then have "nA ^ (n div 2 ^ k) mod nM =
      (if 2 ^ k AND int n \<noteq> 0
       then mul (mul (nA ^ (n div 2 ^ Suc k) mod nM) (nA ^ (n div 2 ^ Suc k) mod nM)) Multiplier
       else mul (nA ^ (n div 2 ^ Suc k) mod nM) (nA ^ (n div 2 ^ Suc k) mod nM))"
    unfolding mul_powers mul_Multiplier bit by (cases "even (n div 2 ^ k)") simp_all
  then show ?thesis by (subst power_loop.simps) simp
qed

lemma power_loop_powers:
  "power_loop mul (int n) (2 ^ k) (nA ^ (n div 2 ^ Suc k) mod nM) = nA ^ n mod nM"
proof (induction k)
  case 0
  show ?case unfolding power_loop_step by (simp add: power_loop.simps)
next
  case (Suc k)
  show ?case unfolding power_loop_step using Suc.IH by (simp add: drop_bit_eq_div)
qed

lemma power_loop_0: "power_loop mul n 0 r = r"
  by (simp add: power_loop.simps)

end

interpretation mersenne: modular_powers RND_ModMult
  by unfold_locales (rule RND_ModMult_mod)

interpretation product: modular_powers "\<lambda>a b. (a * b) smod Modulus"
  by unfold_locales (simp add: smod_nonneg seed_ok_def Modulus_def nM_def)

subsection \<open>\<open>RND_seed\<close>: the mask loop ends at the highest bit of the order\<close>

lemma shrink_mask_zero: "shrink_mask 0 (2 ^ k) = Some 0"
proof (induction k)
  case 0
  show ?case by (simp add: shrink_mask.simps [of 0 1] shrink_mask.simps [of 0 0])
next
  case (Suc k)
  then show ?case by (subst shrink_mask.simps) (simp add: drop_bit_eq_div)
qed

lemma shrink_mask_top:
  "0 < n \<Longrightarrow> n < 2 ^ Suc k \<Longrightarrow> \<exists>j. shrink_mask (int n) (2 ^ k) = Some (2 ^ j) \<and> n < 2 ^ Suc j"
proof (induction k)
  case 0
  then show ?case by (intro exI [of _ 0]) (simp add: shrink_mask.simps)
next
  case (Suc k)
  show ?case
  proof (cases "2 ^ Suc k > int n")
    case True
    then have "shrink_mask (int n) (2 ^ Suc k) = shrink_mask (int n) (2 ^ k)"
      by (subst shrink_mask.simps) (simp add: drop_bit_eq_div)
    moreover from True have "n < 2 ^ Suc k"
      by (metis of_nat_less_iff of_nat_numeral of_nat_power)
    ultimately show ?thesis using Suc by simp
  next
    case False
    then have "shrink_mask (int n) (2 ^ Suc k) = Some (2 ^ Suc k)" by (subst shrink_mask.simps) simp
    with Suc.prems(2) show ?thesis by blast
  qed
qed

lemma shrink_mask_negative:
  assumes "shrink_mask Order m = Some r"
  shows "0 \<le> Order \<or> m < 0"
  using assms
proof (rule shrink_mask.raw_induct [where P = "\<lambda>Order m r. 0 \<le> Order \<or> m < 0", rotated])
  fix f :: "int \<Rightarrow> int \<Rightarrow> int option" and Order m r
  assume IH: "\<And>Order m r. f Order m = Some r \<Longrightarrow> 0 \<le> Order \<or> m < 0"
    and r: "(if m > Order then f Order (drop_bit 1 m) else Some m) = Some r"
  show "0 \<le> Order \<or> m < 0"
    using r IH [of Order "drop_bit 1 m" r] by (auto split: if_splits)
qed

lemma RND_seed_power: "n < 2 ^ 31 \<Longrightarrow> RND_seed (int n) = Some (nA ^ n mod nM)"
proof (cases "n = 0")
  case True
  have "shrink_mask 0 TopMask = Some 0" using shrink_mask_zero [of 30] by (simp add: TopMask_def)
  with True show ?thesis by (simp add: RND_seed_def mersenne.power_loop_0 nM_def)
next
  case False
  moreover assume "n < 2 ^ 31"
  moreover have "TopMask = 2 ^ 30" by (simp add: TopMask_def)
  ultimately obtain j where j: "shrink_mask (int n) TopMask = Some (2 ^ j)" "n < 2 ^ Suc j"
    using shrink_mask_top [of n 30] by auto
  have "power_loop RND_ModMult (int n) (2 ^ j) 1 = nA ^ n mod nM"
    using mersenne.power_loop_powers [of n j] div_less [OF j(2)] by (simp add: nM_def)
  with j(1) show ?thesis by (simp add: RND_seed_def)
qed

text \<open>Only the 31 low bits of the order count: a shift of \<open>2 ^ 31\<close> or more loses the rest.\<close>

lemma bit_mod_power: "bit (n mod 2 ^ m) i \<longleftrightarrow> i < m \<and> bit n i" for n :: nat
  using bit_take_bit_iff [of m n i] by (simp only: take_bit_eq_mod)

lemma power_loop_low_bits:
  "k \<le> K \<Longrightarrow> power_loop mul (int n) (2 ^ k) r = power_loop mul (int (n mod 2 ^ Suc K)) (2 ^ k) r"
proof (induction k arbitrary: r)
  case 0
  have "(2 ^ 0 AND int n = 0) = (2 ^ 0 AND int (n mod 2 ^ Suc K) = 0)"
    by (simp only: and_exp_eq_0_iff_not_bit and.commute [of "2 ^ 0"] bit_of_nat_iff_bit
        bit_mod_power) simp
  then show ?case by (subst (1 2) power_loop.simps) (simp add: power_loop.simps [of _ _ 0])
next
  case (Suc k)
  have "(2 ^ Suc k AND int n = 0) = (2 ^ Suc k AND int (n mod 2 ^ Suc K) = 0)"
    using Suc.prems
    by (simp only: and_exp_eq_0_iff_not_bit and.commute [of "2 ^ Suc k"] bit_of_nat_iff_bit
        bit_mod_power) simp
  moreover have "drop_bit 1 (2 ^ Suc k) = (2 ^ k :: int)" by (simp add: drop_bit_eq_div)
  ultimately show ?case using Suc.IH Suc.prems by (subst (1 2) power_loop.simps) simp
qed

lemma RND_seed_low_bits: "RND_seed (int n) = Some (nA ^ (n mod 2 ^ 31) mod nM)"
proof (cases "n < 2 ^ 31")
  case True
  then show ?thesis using RND_seed_power by simp
next
  case False
  have top: "TopMask = 2 ^ 30" by (simp add: TopMask_def)
  have "\<not> TopMask > int n" using False by (simp add: TopMask_def)
  then have "shrink_mask (int n) TopMask = Some TopMask" by (subst shrink_mask.simps) simp
  then have "RND_seed (int n) = Some (power_loop RND_ModMult (int n) (2 ^ 30) 1)"
    by (simp add: RND_seed_def top)
  also have "power_loop RND_ModMult (int n) (2 ^ 30) 1 =
      power_loop RND_ModMult (int (n mod 2 ^ Suc 30)) (2 ^ 30) 1"
    by (rule power_loop_low_bits) simp
  also have "\<dots> = nA ^ (n mod 2 ^ Suc 30) mod nM"
    using mersenne.power_loop_powers [of "n mod 2 ^ Suc 30" 30] by (simp add: nM_def)
  finally show ?thesis by simp
qed

lemma RND_seed_negative:
  "0 < n \<Longrightarrow> n \<le> period \<Longrightarrow> RND_seed (- int n) = Some (nA ^ (period - n) mod nM)"
proof -
  assume n: "0 < n" "n \<le> period"
  then have "Modulus - 1 + - int n = int (period - n)"
    by (simp add: Modulus_def period_def of_nat_diff)
  then have "RND_seed (- int n) = RND_seed (int (period - n))"
    using n(1) by (simp add: RND_seed_def)
  moreover have "period - n < 2 ^ 31" by (simp add: period_def)
  ultimately show ?thesis using RND_seed_power by simp
qed

lemma NthElement_power:
  assumes "RND_seed z = Some (nA ^ n mod nM)" and s: "seed_ok s"
  shows "NthElement z s = Some ((NextRand ^^ n) s)"
proof -
  have "RND_ModMult s (nA ^ n mod nM) = nA ^ n * s mod nM"
    by (simp add: RND_ModMult_mod s seed_ok_power mod_simps mult.commute)
  then show ?thesis by (simp add: NthElement_def assms(1) NextRand_iter [OF s])
qed

lemma NthElement_forward:
  "seed_ok s \<Longrightarrow> n < 2 ^ 31 \<Longrightarrow> NthElement (int n) s = Some ((NextRand ^^ n) s)"
  by (rule NthElement_power [OF RND_seed_power])

lemma NthElement_low_bits:
  "seed_ok s \<Longrightarrow> NthElement (int n) s = Some ((NextRand ^^ (n mod 2 ^ 31)) s)"
  by (rule NthElement_power [OF RND_seed_low_bits])

lemma NthElement_backward:
  "seed_ok s \<Longrightarrow> 0 < n \<Longrightarrow> n \<le> period \<Longrightarrow>
   NthElement (- int n) s = Some ((NextRand ^^ (period - n)) s)"
  by (rule NthElement_power [OF RND_seed_negative])

lemma NthElement_undo:
  assumes "seed_ok s" "n \<le> period"
  shows "NthElement (- int n) ((NextRand ^^ n) s) = Some s"
proof (cases "n = 0")
  case True
  then show ?thesis using NthElement_forward [OF assms(1), of 0] by simp
next
  case False
  have "(NextRand ^^ (period - n)) ((NextRand ^^ n) s) = (NextRand ^^ period) s"
    using assms(2) funpow_add [of "period - n" n NextRand] by (simp add: comp_def)
  then show ?thesis
    using False NthElement_backward [OF NextRand_iter_ok [OF assms(1)], of n n] assms
    by (simp add: NextRand_period)
qed

lemma NthElement_diverges: "Shift < 1 - Modulus \<Longrightarrow> NthElement Shift s = None"
proof -
  assume "Shift < 1 - Modulus"
  then have neg: "Shift < 0" "Modulus - 1 + Shift < 0" by (simp_all add: Modulus_def)
  then have "shrink_mask (Modulus - 1 + Shift) TopMask = None"
    using shrink_mask_negative [of "Modulus - 1 + Shift" TopMask]
    by (cases "shrink_mask (Modulus - 1 + Shift) TopMask") (auto simp: TopMask_def)
  with neg show ?thesis by (simp add: NthElement_def RND_seed_def)
qed

subsection \<open>The 64-bit version\<close>

lemma Modulus_nM: "Modulus = nM"
  by (simp add: Modulus_def nM_def)

lemma nth_loop_power:
  assumes "seed_ok s"
  shows "nth_loop (int n) (nA ^ i mod nM) s = nA ^ (i * n) * s mod nM"
  using assms
proof (induction n arbitrary: i s rule: less_induct)
  case (less n)
  show ?case
  proof (cases "n = 0")
    case True
    then show ?thesis using less.prems by (simp add: nth_loop.simps seed_ok_def)
  next
    case False
    define t where "t = (if odd n then nA ^ i * s mod nM else s)"
    have ok: "seed_ok t"
      using less.prems seed_mult_ok [OF seed_ok_power less.prems, of i]
      by (simp add: t_def mod_simps)
    have sq: "(nA ^ i mod nM) * (nA ^ i mod nM) smod Modulus = nA ^ (2 * i) mod nM"
      using seed_ok_power [of i] by (simp add: smod_nonneg Modulus_nM seed_ok_def nM_def
          mod_simps mult_2 power_add)
    have st: "(if int n smod 2 \<noteq> 0 then (nA ^ i mod nM) * s smod Modulus else s) = t"
      using less.prems seed_ok_power [of i]
      by (simp add: smod_nonneg Modulus_nM seed_ok_def t_def mod_simps even_iff_mod_2_eq_zero
          nM_def) presburger
    have "nth_loop (int n) (nA ^ i mod nM) s = nth_loop (int (n div 2)) (nA ^ (2 * i) mod nM) t"
      using False by (subst nth_loop.simps) (simp only: sq st, simp add: sdiv_nonneg zdiv_int)
    also have "\<dots> = nA ^ (2 * i * (n div 2)) * t mod nM"
      using False by (intro less.IH ok) simp
    also have "\<dots> = nA ^ (i * n) * s mod nM"
    proof (cases "odd n")
      case True
      then have "2 * i * (n div 2) + i = i * n"
        by (metis add.commute mult.assoc mult.commute mult_Suc_right odd_two_times_div_two_succ
            Suc_eq_plus1)
      then show ?thesis
        using True by (simp add: t_def mod_simps flip: mult.assoc power_add)
    qed (simp add: t_def mult.assoc mult.left_commute)
    finally show ?thesis .
  qed
qed

lemma NthElement_64_steps:
  assumes "seed_ok s"
  shows "NthElement_64 (int n) s = (NextRand ^^ n) s"
proof -
  have "Multiplier = nA ^ 1 mod nM" by (simp add: Multiplier_def nA_def nM_def)
  then show ?thesis
    using nth_loop_power [OF assms, of n 1] NextRand_iter [OF assms, of n]
    unfolding NthElement_64_def by simp
qed

subsection \<open>Jumping ahead and back\<close>

text \<open>
  C14: on seeds, \<open>RND_ModMult\<close>, computed in double precision and unsigned words, is exact
  multiplication modulo \<open>2 ^ 31 - 1\<close>, and its result is a seed again.
\<close>

theorem RND_ModMult_exact:
  assumes "seed_ok a" "seed_ok b"
  shows "RND_ModMult a b = a * b mod (2 ^ 31 - 1) \<and> seed_ok (RND_ModMult a b)"
proof -
  have "nM = 2 ^ 31 - 1" by (simp add: nM_def)
  then show ?thesis using RND_ModMult_mod [OF assms] mersenne.mul_ok [OF assms] by simp
qed

theorem RND_ModMult_exact_witness:
  "seed_ok 1841581359 \<and> seed_ok 2147483646 \<and>
   RND_ModMult 1841581359 2147483646 = 1841581359 * 2147483646 mod (2 ^ 31 - 1)"
  using RND_ModMult_exact [of 1841581359 2147483646] by (simp add: seed_ok_def nM_def)

text \<open>
  C3: \<open>NthElement(n, &seed)\<close> returns and leaves the seed that \<open>n\<close> calls of \<open>NextRand\<close> leave, for
  every shift below \<open>2 ^ 31\<close>; a negative shift of at most the period undoes that many calls.
\<close>

theorem NthElement_jumps:
  assumes "seed_ok s"
  shows "(\<forall>n < 2 ^ 31. NthElement (int n) s = Some ((NextRand ^^ n) s)) \<and>
    (\<forall>n \<le> nat (nM - 1). NthElement (- int n) ((NextRand ^^ n) s) = Some s)"
proof -
  have "nat (nM - 1) = period" by (simp add: nM_def period_def)
  then show ?thesis using NthElement_forward [OF assms] NthElement_undo [OF assms] by simp
qed

theorem NthElement_jumps_witness:
  "seed_ok 1 \<and> NthElement (int 3) 1 = Some ((NextRand ^^ 3) 1) \<and>
   NthElement (- int 3) ((NextRand ^^ 3) 1) = Some 1"
proof -
  have ok: "seed_ok 1" by (simp add: seed_ok_def nM_def)
  show ?thesis
    using ok NthElement_jumps [OF ok, THEN conjunct1, rule_format, of 3]
      NthElement_jumps [OF ok, THEN conjunct2, rule_format, of 3]
    by (simp add: nM_def)
qed

text \<open>
  C30: the two versions of \<open>NthElement\<close>, for compilers with and without a 64-bit integer type,
  leave the same seed.
\<close>

theorem NthElement_versions_agree:
  assumes "seed_ok s" "0 \<le> N" "N < 2 ^ 31"
  shows "NthElement N s = Some (NthElement_64 N s)"
proof -
  from assms(2) obtain n where n: "N = int n" using nonneg_int_cases by blast
  with assms(3) have "n < 2 ^ 31" by simp
  then show ?thesis
    unfolding n using NthElement_forward [OF assms(1)] NthElement_64_steps [OF assms(1)] by simp
qed

theorem NthElement_versions_agree_witness:
  "seed_ok 209208115 \<and> NthElement 7 209208115 = Some (NthElement_64 7 209208115)"
  using NthElement_versions_agree [of 209208115 7] by (simp add: seed_ok_def nM_def)

end
