(* ===== verification/Dss.thy ===== *)
theory Dss
  imports Prelude
begin

text \<open>
  The configuration and the data types of \<open>dss.h\<close>, \<open>shared.h\<close> and \<open>dsstypes.h\<close>, in the branch the
  build selects (\<open>WORKLOAD = SSBM\<close>, no \<open>SUPPORT_64BITS\<close>): table identifiers, random
  streams, column limits, and the structs as records.  A macro that is a number is a definition
  the simplifier unfolds.
\<close>

subsection \<open>Table identifiers (\<open>dss.h\<close>)\<close>

text \<open>The star schema's date table has the number of the order table of TPC-H.\<close>

definition NONE :: int where [simp]: "NONE = - 1"
definition PART :: int where [simp]: "PART = 0"
definition PSUPP :: int where [simp]: "PSUPP = 1"
definition SUPP :: int where [simp]: "SUPP = 2"
definition CUST :: int where [simp]: "CUST = 3"
definition ORDER :: int where [simp]: "ORDER = 4"
definition DATE :: int where [simp]: "DATE = 4"
definition LINE :: int where [simp]: "LINE = 5"
definition ORDER_LINE :: int where [simp]: "ORDER_LINE = 6"
definition PART_PSUPP :: int where [simp]: "PART_PSUPP = 7"
definition NATION :: int where [simp]: "NATION = 8"
definition REGION :: int where [simp]: "REGION = 9"

subsection \<open>Random streams (\<open>dss.h\<close>, \<open>shared.h\<close>)\<close>

definition P_MFG_SD :: int where [simp]: "P_MFG_SD = 0"
definition P_BRND_SD :: int where [simp]: "P_BRND_SD = 1"
definition P_TYPE_SD :: int where [simp]: "P_TYPE_SD = 2"
definition P_SIZE_SD :: int where [simp]: "P_SIZE_SD = 3"
definition P_CNTR_SD :: int where [simp]: "P_CNTR_SD = 4"
definition P_CMNT_SD :: int where [simp]: "P_CMNT_SD = 6"
definition PS_QTY_SD :: int where [simp]: "PS_QTY_SD = 7"
definition PS_SCST_SD :: int where [simp]: "PS_SCST_SD = 8"
definition PS_CMNT_SD :: int where [simp]: "PS_CMNT_SD = 9"
definition O_SUPP_SD :: int where [simp]: "O_SUPP_SD = 10"
definition O_CLRK_SD :: int where [simp]: "O_CLRK_SD = 11"
definition O_CMNT_SD :: int where [simp]: "O_CMNT_SD = 12"
definition O_ODATE_SD :: int where [simp]: "O_ODATE_SD = 13"
definition L_QTY_SD :: int where [simp]: "L_QTY_SD = 14"
definition L_DCNT_SD :: int where [simp]: "L_DCNT_SD = 15"
definition L_TAX_SD :: int where [simp]: "L_TAX_SD = 16"
definition L_SMODE_SD :: int where [simp]: "L_SMODE_SD = 18"
definition L_PKEY_SD :: int where [simp]: "L_PKEY_SD = 19"
definition L_SKEY_SD :: int where [simp]: "L_SKEY_SD = 20"
definition L_CDTE_SD :: int where [simp]: "L_CDTE_SD = 22"
definition L_RFLG_SD :: int where [simp]: "L_RFLG_SD = 24"
definition L_CMNT_SD :: int where [simp]: "L_CMNT_SD = 25"
definition C_ADDR_SD :: int where [simp]: "C_ADDR_SD = 26"
definition C_NTRG_SD :: int where [simp]: "C_NTRG_SD = 27"
definition C_PHNE_SD :: int where [simp]: "C_PHNE_SD = 28"
definition C_ABAL_SD :: int where [simp]: "C_ABAL_SD = 29"
definition C_MSEG_SD :: int where [simp]: "C_MSEG_SD = 30"
definition C_CMNT_SD :: int where [simp]: "C_CMNT_SD = 31"
definition S_ADDR_SD :: int where [simp]: "S_ADDR_SD = 32"
definition S_NTRG_SD :: int where [simp]: "S_NTRG_SD = 33"
definition S_PHNE_SD :: int where [simp]: "S_PHNE_SD = 34"
definition S_ABAL_SD :: int where [simp]: "S_ABAL_SD = 35"
definition S_CMNT_SD :: int where [simp]: "S_CMNT_SD = 36"
definition P_NAME_SD :: int where [simp]: "P_NAME_SD = 37"
definition O_PRIO_SD :: int where [simp]: "O_PRIO_SD = 38"
definition O_CKEY_SD :: int where [simp]: "O_CKEY_SD = 40"
definition O_LCNT_SD :: int where [simp]: "O_LCNT_SD = 43"
definition BBB_JNK_SD :: int where [simp]: "BBB_JNK_SD = 44"
definition BBB_TYPE_SD :: int where [simp]: "BBB_TYPE_SD = 45"
definition BBB_CMNT_SD :: int where [simp]: "BBB_CMNT_SD = 46"
definition BBB_OFFSET_SD :: int where [simp]: "BBB_OFFSET_SD = 47"
definition P_CAT_SD :: int where [simp]: "P_CAT_SD = 97"
definition MAX_STREAM :: int where [simp]: "MAX_STREAM = 47"

subsection \<open>Column limits and lengths (\<open>dss.h\<close>, \<open>shared.h\<close>, the \<open>SSBM\<close> branch)\<close>

definition P_NAME_SCL :: int where [simp]: "P_NAME_SCL = 3"
definition P_MFG_MIN :: int where [simp]: "P_MFG_MIN = 1"
definition P_MFG_MAX :: int where [simp]: "P_MFG_MAX = 5"
definition P_CAT_MIN :: int where [simp]: "P_CAT_MIN = 1"
definition P_CAT_MAX :: int where [simp]: "P_CAT_MAX = 5"
definition P_BRND_MIN :: int where [simp]: "P_BRND_MIN = 1"
definition P_BRND_MAX :: int where [simp]: "P_BRND_MAX = 40"
definition P_SIZE_MIN :: int where [simp]: "P_SIZE_MIN = 1"
definition P_SIZE_MAX :: int where [simp]: "P_SIZE_MAX = 50"
definition O_CKEY_MIN :: int where [simp]: "O_CKEY_MIN = 1"
definition O_CLRK_SCL :: int where [simp]: "O_CLRK_SCL = 1000"
definition O_LCNT_MIN :: int where [simp]: "O_LCNT_MIN = 1"
definition O_LCNT_MAX :: int where [simp]: "O_LCNT_MAX = 7"
definition L_QTY_MIN :: int where [simp]: "L_QTY_MIN = 1"
definition L_QTY_MAX :: int where [simp]: "L_QTY_MAX = 50"
definition L_TAX_MIN :: int where [simp]: "L_TAX_MIN = 0"
definition L_TAX_MAX :: int where [simp]: "L_TAX_MAX = 8"
definition L_DCNT_MIN :: int where [simp]: "L_DCNT_MIN = 0"
definition L_DCNT_MAX :: int where [simp]: "L_DCNT_MAX = 10"
definition L_PKEY_MIN :: int where [simp]: "L_PKEY_MIN = 1"
definition L_SKEY_MIN :: int where [simp]: "L_SKEY_MIN = 1"
definition L_SDTE_MAX :: int where [simp]: "L_SDTE_MAX = 121"
definition L_CDTE_MIN :: int where [simp]: "L_CDTE_MIN = 30"
definition L_CDTE_MAX :: int where [simp]: "L_CDTE_MAX = 90"
definition L_RDTE_MAX :: int where [simp]: "L_RDTE_MAX = 30"
definition SUPP_PER_PART :: int where [simp]: "SUPP_PER_PART = 4"
definition CUST_MORTALITY :: int where [simp]: "CUST_MORTALITY = 3"
definition NATIONS_MAX :: int where [simp]: "NATIONS_MAX = 90"
definition STARTDATE :: int where [simp]: "STARTDATE = 92001"
definition TOTDATE :: int where [simp]: "TOTDATE = 2557"
definition PENNIES :: int where [simp]: "PENNIES = 100"
definition UPD_PCT :: int where [simp]: "UPD_PCT = 10"
definition ORDERS_PER_CUST :: int where [simp]: "ORDERS_PER_CUST = 10"
definition RNG_PER_SENT :: int where [simp]: "RNG_PER_SENT = 27"
definition MAX_LONG :: int where [simp]: "MAX_LONG = 0x7FFFFFFF"
definition SPARSE_BITS :: int where [simp]: "SPARSE_BITS = 2"
definition SPARSE_KEEP :: int where [simp]: "SPARSE_KEEP = 3"
definition MAX_32B_SCALE :: int where [simp]: "MAX_32B_SCALE = 1000"
definition C_ADDR_LEN :: int where [simp]: "C_ADDR_LEN = 15"
definition S_ADDR_LEN :: int where [simp]: "S_ADDR_LEN = 15"
definition CITY_FIX :: int where [simp]: "CITY_FIX = 10"
definition T_START_DAY :: int where [simp]: "T_START_DAY = 3"
definition D_STARTDATE :: int where [simp]: "D_STARTDATE = 694245661"
definition O_OPRIO_LEN :: int where [simp]: "O_OPRIO_LEN = 8"

definition O_ODATE_MIN :: int where [simp]: "O_ODATE_MIN = STARTDATE"
definition O_ODATE_MAX :: int where [simp]:
  "O_ODATE_MAX = STARTDATE + TOTDATE - (L_SDTE_MAX + L_RDTE_MAX) - 1"

definition LEAP :: "int \<Rightarrow> int" where
  "LEAP y = (if y smod 4 = 0 \<and> y smod 100 \<noteq> 0 then 1 else 0)"

definition c_MAX :: "int \<Rightarrow> int \<Rightarrow> int" where "c_MAX a b = (if a > b then a else b)"

definition c_MIN :: "int \<Rightarrow> int \<Rightarrow> int" where "c_MIN a b = (if a < b then a else b)"

subsection \<open>Structs\<close>

record set_member =
  weight :: int
  sm_text :: string

record distribution =
  dcount :: int
  dmax :: int
  dlist :: "set_member list"
  dpermute :: "int list option"

record seed_t =
  sd_table :: int
  sd_value :: int
  sd_usage :: int
  sd_boundary :: int

text \<open>A \<open>tdef\<close> without its function pointers: the loader, verifier and seed routines of a table are
  selected by its number.\<close>

record tdef =
  td_name :: string
  td_comment :: string
  td_base :: int
  td_child :: int
  td_vtotal :: int

text \<open>A \<open>DSS_HUGE *\<close> without 64-bit support points to two \<open>long\<close>s, low and high part.\<close>

type_synonym dss_huge = "int \<times> int"

record customer_t =
  c_custkey :: int
  c_name :: string
  c_address :: string
  c_alen :: int
  c_city :: string
  c_nation_name :: string
  c_region_name :: string
  c_phone :: string
  c_mktsegment :: string

record supplier_t =
  s_suppkey :: int
  s_name :: string
  s_address :: string
  s_alen :: int
  s_city :: string
  s_nation_name :: string
  s_region_name :: string
  s_phone :: string

record part_t =
  p_partkey :: int
  p_name :: string
  p_mfgr :: string
  p_category :: string
  p_brand :: string
  p_color :: string
  p_clen :: int
  p_type :: string
  p_tlen :: int
  p_size :: int
  p_container :: string

record lineorder_t =
  l_okey :: dss_huge
  l_linenumber :: int
  l_custkey :: int
  l_partkey :: int
  l_suppkey :: int
  l_orderdate :: string
  l_opriority :: string
  l_ship_priority :: int
  l_quantity :: int
  l_extended_price :: int
  l_order_totalprice :: int
  l_discount :: int
  l_revenue :: int
  l_supp_cost :: int
  l_tax :: int
  l_commit_date :: string
  l_shipmode :: string

record order_t =
  o_okey :: dss_huge
  o_custkey :: int
  o_totalprice :: int
  o_odate :: string
  o_opriority :: string
  o_spriority :: int
  o_lines :: int
  o_lineorders :: "lineorder_t list"

record date_t =
  d_datekey :: int
  d_date :: string
  d_dayofweek :: string
  d_month :: string
  d_year :: int
  d_yearmonthnum :: int
  d_yearmonth :: string
  d_daynuminweek :: int
  d_daynuminmonth :: int
  d_daynuminyear :: int
  d_monthnuminyear :: int
  d_weeknuminyear :: int
  d_sellingseason :: string
  d_slen :: int
  d_lastdayinweekfl :: string
  d_lastdayinmonthfl :: string
  d_holidayfl :: string
  d_weekdayfl :: string

record dss_time_t =
  t_timekey :: int
  t_alpha :: string
  t_year :: int
  t_month :: int
  t_week :: int
  t_day :: int

record season =
  se_name :: string
  start_day :: int
  start_month :: int
  end_day :: int
  end_month :: int

record holiday =
  ho_name :: string
  ho_month :: int
  ho_day :: int

text \<open>The distributions the star schema's generators read, loaded by \<open>load_dists\<close>.\<close>

record dists =
  nations :: distribution
  regions :: distribution
  o_priority_set :: distribution
  l_smode_set :: distribution
  c_mseg_set :: distribution
  colors :: distribution
  p_types_set :: distribution
  p_cntr_set :: distribution

end
