(* ===== verification/Bcd2.thy ===== *)
theory Bcd2
  imports Dss
begin

text \<open>
  \<open>bcd2.c\<close>: fourteen decimal digits in two \<open>long\<close>s, seven nibbles each, with addition, subtraction,
  multiplication, division, remainder and comparison by a binary number.  The generator uses it for
  order keys at large scales.  The locale \<open>digit_store\<close> states what reading and writing one digit must
  promise; it is interpreted on \<open>GET_DIGIT\<close> and \<open>SET_DIGIT\<close>, and the arithmetic is proved from it:
  addition, multiplication and division are exact (modulo \<open>10 ^ 14\<close>), subtraction is not.
\<close>

unbundle bit_operations_syntax

definition DIGITS_PER_LONG :: nat where [simp]: "DIGITS_PER_LONG = 7"

text \<open>\<open>GET_DIGIT\<close> and \<open>SET_DIGIT\<close>; the pair is low and high part.\<close>

definition GET_DIGIT :: "nat \<Rightarrow> dss_huge \<Rightarrow> int" where
  "GET_DIGIT num = (\<lambda>(low, high).
     if num \<ge> DIGITS_PER_LONG
     then drop_bit ((num - DIGITS_PER_LONG) * 4) (high AND push_bit (4 * (num - DIGITS_PER_LONG)) 0xF)
     else drop_bit (num * 4) (low AND push_bit (4 * num) 0xF))"

definition SET_DIGIT :: "int \<Rightarrow> nat \<Rightarrow> dss_huge \<Rightarrow> dss_huge" where
  "SET_DIGIT v num = (\<lambda>(low, high).
     if num \<ge> DIGITS_PER_LONG
     then (low, (high AND (0xFFFFFFF XOR push_bit (4 * (num - DIGITS_PER_LONG)) 0xF))
                OR push_bit (4 * (num - DIGITS_PER_LONG)) v)
     else ((low AND (0xFFFFFFF XOR push_bit (4 * num) 0xF)) OR push_bit (4 * num) v, high))"

text \<open>\<open>bin_bcd2\<close>: the digits of \<open>%014ld\<close>, shifted in from the left.\<close>

definition bin_bcd2 :: "int \<Rightarrow> dss_huge" where
  "bin_bcd2 binary = fst (foldl (\<lambda>((low, high), cnt) current.
       let d = int (of_char current) - 48
       in (if cnt < int DIGITS_PER_LONG then (push_bit 4 low OR d, high) else (low, push_bit 4 high OR d),
           cnt - 1))
     ((0, 0), 13 :: int) (fmt_0d 14 binary))"

fun bcd2_bin_loop :: "nat \<Rightarrow> int \<Rightarrow> int \<Rightarrow> int \<Rightarrow> int" where
  "bcd2_bin_loop 0 Mask bcd dest = dest"
| "bcd2_bin_loop (Suc cnt) Mask bcd dest =
     bcd2_bin_loop cnt (drop_bit 4 Mask) bcd (dest * 10 + drop_bit (4 * cnt) (bcd AND Mask))"

text \<open>\<open>while (mask)\<close>: the mask \<open>0xF000000\<close> is shifted out in seven rounds, the counter is \<open>cnt - 1\<close>.\<close>

definition bcd2_bin :: "int \<Rightarrow> int" where
  "bcd2_bin bcd = bcd2_bin_loop DIGITS_PER_LONG 0xF000000 bcd 0"

definition add_step :: "dss_huge \<Rightarrow> dss_huge \<times> int \<Rightarrow> nat \<Rightarrow> dss_huge \<times> int" where
  "add_step tmp = (\<lambda>(bcd, carry) digit.
     let res = GET_DIGIT digit bcd + GET_DIGIT digit tmp + carry
     in (SET_DIGIT (res smod 10) digit bcd, res sdiv 10))"

definition bcd2_add :: "dss_huge \<Rightarrow> int \<Rightarrow> dss_huge \<times> int" where
  "bcd2_add bcd addend = foldl (add_step (bin_bcd2 addend)) (bcd, 0) [0..<14]"

definition sub_step :: "dss_huge \<Rightarrow> dss_huge \<times> int \<Rightarrow> nat \<Rightarrow> dss_huge \<times> int" where
  "sub_step tmp = (\<lambda>(bcd, carry) digit.
     let res = GET_DIGIT digit bcd - GET_DIGIT digit tmp - carry;
         (res, carry) = (if res < 0 then (res + 10, 1) else (res, carry))
     in (SET_DIGIT res digit bcd, carry))"

definition bcd2_sub :: "dss_huge \<Rightarrow> int \<Rightarrow> dss_huge \<times> int" where
  "bcd2_sub bcd subend = foldl (sub_step (bin_bcd2 subend)) (bcd, 0) [0..<14]"

definition mul_step :: "dss_huge \<Rightarrow> nat \<Rightarrow> int \<Rightarrow> dss_huge \<times> int \<Rightarrow> nat \<Rightarrow> dss_huge \<times> int" where
  "mul_step tmp ldigit m1 = (\<lambda>(bcd, carry) udigit.
     let m2 = GET_DIGIT udigit tmp;
         res = m1 * m2 + carry;
         res = (if udigit + ldigit < 14 then res + GET_DIGIT (udigit + ldigit) bcd else res);
         carry = res sdiv 10;
         res = res smod 10
     in (if udigit + ldigit < 14 then SET_DIGIT res (udigit + ldigit) bcd else bcd, carry))"

definition mul_row :: "dss_huge \<Rightarrow> dss_huge \<Rightarrow> dss_huge \<times> int \<Rightarrow> nat \<Rightarrow> dss_huge \<times> int" where
  "mul_row tmp m = (\<lambda>(bcd, _) ldigit.
     foldl (mul_step tmp ldigit (GET_DIGIT ldigit m)) (bcd, 0) [0..<14])"

definition bcd2_mul :: "dss_huge \<Rightarrow> int \<Rightarrow> dss_huge \<times> int" where
  "bcd2_mul bcd multiplier = foldl (mul_row bcd (bin_bcd2 multiplier)) ((0, 0), 0) [0..<14]"

definition div_step :: "dss_huge \<Rightarrow> int \<Rightarrow> dss_huge \<times> int \<Rightarrow> nat \<Rightarrow> dss_huge \<times> int" where
  "div_step tmp divisor = (\<lambda>(bcd, carry) digit.
     let d1 = GET_DIGIT digit tmp + 10 * carry
     in (SET_DIGIT (d1 sdiv divisor) digit bcd, d1 smod divisor))"

definition bcd2_div :: "dss_huge \<Rightarrow> int \<Rightarrow> dss_huge \<times> int" where
  "bcd2_div bcd divisor = foldl (div_step bcd divisor) ((0, 0), 0) (rev [0..<14])"

text \<open>\<open>bcd2_mod\<close> compares BCD words with a binary number; the loop need not end.\<close>

partial_function (option) bcd2_mod :: "dss_huge \<Rightarrow> int \<Rightarrow> int option" where
  "bcd2_mod bcd mdl =
     (if snd bcd \<noteq> 0 \<or> fst bcd > mdl then bcd2_mod (fst (bcd2_sub bcd mdl)) mdl
      else Some (fst bcd))"

definition bcd2_cmp :: "dss_huge \<Rightarrow> int \<Rightarrow> int" where
  "bcd2_cmp = (\<lambda>(low1, high1) comp.
     if bcd2_bin high1 > 214 then 1 else bcd2_bin low1 - comp)"

subsection \<open>A store of decimal digits\<close>

locale digit_store =
  fixes get :: "nat \<Rightarrow> 's \<Rightarrow> int" and put :: "int \<Rightarrow> nat \<Rightarrow> 's \<Rightarrow> 's"
    and ok :: "'s \<Rightarrow> bool" and N :: nat
  assumes get_range: "ok s \<Longrightarrow> i < N \<Longrightarrow> 0 \<le> get i s \<and> get i s \<le> 9"
    and put_ok: "ok s \<Longrightarrow> i < N \<Longrightarrow> 0 \<le> v \<Longrightarrow> v \<le> 9 \<Longrightarrow> ok (put v i s)"
    and get_put: "ok s \<Longrightarrow> i < N \<Longrightarrow> j < N \<Longrightarrow> 0 \<le> v \<Longrightarrow> v \<le> 9 \<Longrightarrow>
      get j (put v i s) = (if i = j then v else get j s)"
begin

text \<open>The number in the lowest \<open>k\<close> digits.\<close>

definition part :: "nat \<Rightarrow> 's \<Rightarrow> int" where
  "part k s = (\<Sum>i < k. get i s * 10 ^ i)"

lemma part_0 [simp]: "part 0 s = 0"
  by (simp add: part_def)

lemma part_Suc: "part (Suc k) s = part k s + get k s * 10 ^ k"
  by (simp add: part_def)

lemma part_range: "ok s \<Longrightarrow> k \<le> N \<Longrightarrow> 0 \<le> part k s \<and> part k s < 10 ^ k"
proof (induction k)
  case (Suc k)
  have "0 \<le> get k s" "get k s \<le> 9" using get_range [OF Suc.prems(1), of k] Suc.prems(2) by simp_all
  then have "0 \<le> get k s * 10 ^ k" "get k s * 10 ^ k \<le> 9 * 10 ^ k" by (simp_all add: mult_right_mono)
  moreover have "0 \<le> part k s" "part k s < 10 ^ k" using Suc by simp_all
  ultimately show ?case unfolding part_Suc power_Suc by linarith
qed simp

lemma part_cong: "(\<And>i. i < k \<Longrightarrow> get i s = get i t) \<Longrightarrow> part k s = part k t"
  by (simp add: part_def)

lemma part_put:
  assumes "ok s" "i < N" "k \<le> N" "0 \<le> v" "v \<le> 9"
  shows "part k (put v i s) = part k s + (if i < k then (v - get i s) * 10 ^ i else 0)"
  using assms(3)
proof (induction k)
  case (Suc k)
  have "get k (put v i s) = (if i = k then v else get k s)" using Suc.prems assms by (intro get_put) simp_all
  then show ?case
    using Suc by (cases "i = k") (auto simp: part_Suc algebra_simps less_Suc_eq)
qed simp

lemma part_mono: "ok s \<Longrightarrow> j \<le> k \<Longrightarrow> k \<le> N \<Longrightarrow> part j s = part k s mod 10 ^ j"
proof (induction k)
  case (Suc k)
  show ?case
  proof (cases "j = Suc k")
    case True
    then show ?thesis using part_range [of s "Suc k"] Suc.prems by simp
  next
    case False
    then have "j \<le> k" using Suc.prems by simp
    then have "(10::int) ^ j dvd get k s * 10 ^ k" by (simp add: le_imp_power_dvd)
    then have "part (Suc k) s mod 10 ^ j = part k s mod 10 ^ j"
      by (simp add: part_Suc mod_add_eq [symmetric, of "part k s" "get k s * 10 ^ k"] dvd_imp_mod_0)
    then show ?thesis using Suc.IH Suc.prems \<open>j \<le> k\<close> by simp
  qed
qed simp

lemma part_div: 
  assumes s: "ok s" and k: "k < N"
  shows "part N s div 10 ^ k = 10 * (part N s div 10 ^ Suc k) + get k s"
proof -
  let ?P = "part N s" and ?b = "10 ^ k :: int"
  have "?P mod 10 ^ Suc k = part (Suc k) s" using part_mono [OF s, of "Suc k" N] k by simp
  moreover have "?P mod 10 ^ Suc k = ?b * (?P div ?b mod 10) + ?P mod ?b"
    using zmod_zmult2_eq [of 10 ?P ?b] by (simp add: mult.commute)
  moreover have "?P mod ?b = part k s" using part_mono [OF s, of k N] k by simp
  ultimately have "?b * (?P div ?b mod 10) = ?b * get k s" by (simp add: part_Suc mult.commute)
  then have "?P div ?b mod 10 = get k s" by simp
  moreover have "?P div 10 ^ Suc k = ?P div ?b div 10"
    using zdiv_zmult2_eq [of 10 ?P ?b] by (simp add: mult.commute)
  ultimately show ?thesis using mult_div_mod_eq [of 10 "?P div ?b"] by simp
qed

end

subsection \<open>Nibbles\<close>

lemma nibble_get: "drop_bit (i * 4) (x AND push_bit (4 * i) 0xF) = take_bit 4 (drop_bit (4 * i) x)" for x :: int
proof -
  have F: "(0xF :: int) = mask 4" by (simp add: mask_numeral)
  show ?thesis unfolding F by (intro bit_eqI) (auto simp: bit_simps mult.commute)
qed

lemma nibble_set:
  fixes x v :: int
  assumes "i < 7" "j < 7" "0 \<le> v" "v < 16"
  shows "take_bit 4 (drop_bit (4 * j) ((x AND (0xFFFFFFF XOR push_bit (4 * i) 0xF)) OR push_bit (4 * i) v))
    = (if i = j then v else take_bit 4 (drop_bit (4 * j) x))"
proof -
  have F: "(0xF :: int) = mask 4" "(0xFFFFFFF :: int) = mask 28" by (simp_all add: mask_numeral)
  have v: "v = take_bit 4 v" using assms(3,4) by (simp add: take_bit_int_eq_self)
  show ?thesis
  proof (cases "i = j")
    case True
    then show ?thesis
      unfolding F by (subst (2) v, intro bit_eqI) (use assms in \<open>auto simp: bit_simps\<close>)
  next
    case False
    then have "4 * i + 4 \<le> 4 * j \<or> 4 * j + 4 \<le> 4 * i" by auto
    then show ?thesis
      unfolding F by (subst v, intro bit_eqI) (use assms False in \<open>auto simp: bit_simps\<close>)
  qed
qed

definition nib :: "nat \<Rightarrow> int \<Rightarrow> int" where
  "nib i x = take_bit 4 (drop_bit (4 * i) x)"

lemma nib_range: "0 \<le> nib i x" "nib i x < 16"
  using take_bit_int_less_exp [of 4 "drop_bit (4 * i) x"] by (simp_all add: nib_def)

lemma GET_DIGIT_nib: "GET_DIGIT i (low, high) = (if i < 7 then nib i low else nib (i - 7) high)"
  unfolding GET_DIGIT_def prod.case nibble_get nib_def by simp

lemma nib_zero [simp]: "nib i 0 = 0"
  by (simp add: nib_def)

definition bcd_ok :: "dss_huge \<Rightarrow> bool" where
  "bcd_ok = (\<lambda>(low, high). take_bit 28 low = low \<and> take_bit 28 high = high \<and>
     (\<forall>i < 7. nib i low \<le> 9 \<and> nib i high \<le> 9))"

text \<open>Writing a nibble of one word.\<close>

definition set_nib :: "int \<Rightarrow> nat \<Rightarrow> int \<Rightarrow> int" where
  "set_nib v i x = (x AND (0xFFFFFFF XOR push_bit (4 * i) 0xF)) OR push_bit (4 * i) v"

lemma SET_DIGIT_nib:
  "SET_DIGIT v i (low, high) = (if i < 7 then (set_nib v i low, high) else (low, set_nib v (i - 7) high))"
  by (simp add: SET_DIGIT_def set_nib_def)

lemma nib_set_nib:
  "i < 7 \<Longrightarrow> j < 7 \<Longrightarrow> 0 \<le> v \<Longrightarrow> v \<le> 9 \<Longrightarrow> nib j (set_nib v i x) = (if i = j then v else nib j x)"
  unfolding nib_def set_nib_def by (rule nibble_set) simp_all

lemma set_nib_28:
  assumes "i < 7" "0 \<le> v" "v \<le> 9"
  shows "take_bit 28 (set_nib v i x) = set_nib v i x"
proof -
  have F: "(0xF :: int) = mask 4" "(0xFFFFFFF :: int) = mask 28" by (simp_all add: mask_numeral)
  have v: "v = take_bit 4 v" using assms(2,3) by (simp add: take_bit_int_eq_self)
  show ?thesis
    unfolding set_nib_def F by (subst (1 2) v, intro bit_eqI) (use assms(1) in \<open>auto simp: bit_simps\<close>)
qed

interpretation bcd: digit_store GET_DIGIT SET_DIGIT bcd_ok 14
proof
  fix s :: dss_huge and i :: nat
  assume "bcd_ok s" "i < 14"
  then show "0 \<le> GET_DIGIT i s \<and> GET_DIGIT i s \<le> 9"
    by (cases s) (auto simp: bcd_ok_def GET_DIGIT_nib nib_range)
next
  fix s :: dss_huge and i :: nat and v :: int
  assume "bcd_ok s" "i < 14" "0 \<le> v" "v \<le> 9"
  then show "bcd_ok (SET_DIGIT v i s)"
    by (cases s) (auto simp: bcd_ok_def SET_DIGIT_nib nib_set_nib set_nib_28)
next
  fix s :: dss_huge and i j :: nat and v :: int
  assume "bcd_ok s" "i < 14" "j < 14" "0 \<le> v" "v \<le> 9"
  then show "GET_DIGIT j (SET_DIGIT v i s) = (if i = j then v else GET_DIGIT j s)"
    by (cases s) (auto simp: SET_DIGIT_nib GET_DIGIT_nib nib_set_nib)
qed

text \<open>The number a pair of words stands for.\<close>

definition bcd_num :: "dss_huge \<Rightarrow> int" where
  "bcd_num s = bcd.part 14 s"

lemma bcd_num_range: "bcd_ok s \<Longrightarrow> 0 \<le> bcd_num s \<and> bcd_num s < 10 ^ 14"
  unfolding bcd_num_def by (rule bcd.part_range) simp_all

lemma zero_ok: "bcd_ok (0, 0)" "GET_DIGIT i (0, 0) = 0" "bcd.part k (0, 0) = 0"
proof -
  show "bcd_ok (0, 0)" by (simp add: bcd_ok_def)
  show g: "GET_DIGIT i (0, 0) = 0" for i by (simp add: GET_DIGIT_nib)
  show "bcd.part k (0, 0) = 0" by (simp add: bcd.part_def g)
qed

lemma bcd_num_words:
  "bcd_num (low, high) = (\<Sum>i < 7. nib i low * 10 ^ i) + 10 ^ 7 * (\<Sum>i < 7. nib i high * 10 ^ i)"
  by (simp add: bcd_num_def bcd.part_def GET_DIGIT_nib lessThan_nat_numeral)

lemma bcd2_bin_nib: "bcd2_bin x = (\<Sum>i < 7. nib i x * 10 ^ i)"
proof -
  have n: "drop_bit (4 * i) (x AND push_bit (4 * i) 0xF) = nib i x" for i
    using nibble_get [of i x] by (simp add: nib_def mult.commute)
  show ?thesis
    using n [of 0] n [of 1] n [of 2] n [of 3] n [of 4] n [of 5] n [of 6]
    by (simp add: bcd2_bin_def numeral_nat lessThan_Suc push_bit_eq_mult drop_bit_eq_div)
qed

subsection \<open>\<open>bin_bcd2\<close> and \<open>bcd2_bin\<close>\<close>

definition enc16 :: "int list \<Rightarrow> int" where
  "enc16 ds = foldl (\<lambda>x d. 16 * x + d) 0 ds"

definition digits_ok :: "int list \<Rightarrow> bool" where
  "digits_ok ds \<longleftrightarrow> (\<forall>d \<in> set ds. 0 \<le> d \<and> d \<le> 9)"

lemma enc16_snoc: "enc16 (ds @ [d]) = 16 * enc16 ds + d"
  by (simp add: enc16_def)

lemma nib_enc16_snoc:
  assumes "0 \<le> d" "d \<le> 9"
  shows "nib 0 (16 * x + d) = d" "nib (Suc i) (16 * x + d) = nib i x"
proof -
  show "nib 0 (16 * x + d) = d" using assms by (simp add: nib_def take_bit_eq_mod)
  have "drop_bit (4 + 4 * i) (16 * x + d) = drop_bit (4 * i) (drop_bit 4 (16 * x + d))"
    by (simp add: drop_bit_drop_bit add.commute)
  also have "drop_bit 4 (16 * x + d) = x" using assms by (simp add: drop_bit_eq_div)
  finally show "nib (Suc i) (16 * x + d) = nib i x" by (simp add: nib_def)
qed

lemma enc16_props:
  "digits_ok ds \<Longrightarrow> (\<Sum>i < length ds. nib i (enc16 ds) * 10 ^ i) = foldl (\<lambda>a d. 10 * a + d) 0 ds \<and>
     (\<forall>i. nib i (enc16 ds) \<le> 9) \<and> 0 \<le> enc16 ds \<and> enc16 ds < 16 ^ length ds"
proof (induction ds rule: rev_induct)
  case Nil
  then show ?case by (simp add: enc16_def nib_def)
next
  case (snoc d ds)
  have d: "0 \<le> d" "d \<le> 9" and ds: "digits_ok ds" using snoc.prems by (simp_all add: digits_ok_def)
  note IH = snoc.IH [OF ds]
  have "(\<Sum>i < Suc (length ds). nib i (enc16 (ds @ [d])) * 10 ^ i) =
      d + 10 * (\<Sum>i < length ds. nib i (enc16 ds) * 10 ^ i)"
    unfolding sum.lessThan_Suc_shift enc16_snoc nib_enc16_snoc [OF d]
    by (simp add: sum_distrib_left algebra_simps)
  moreover have "nib i (enc16 (ds @ [d])) \<le> 9" for i
    using IH d by (cases i) (simp_all add: enc16_snoc nib_enc16_snoc)
  moreover have "0 \<le> enc16 (ds @ [d])" "enc16 (ds @ [d]) < 16 ^ length (ds @ [d])"
    using IH d by (simp_all add: enc16_snoc)
  ultimately show ?case using IH by simp
qed

text \<open>Shifting a digit in from the right is \<open>16 * x + d\<close>.\<close>

lemma shift_in: "0 \<le> d \<Longrightarrow> d \<le> 9 \<Longrightarrow> push_bit 4 x OR d = 16 * x + d" for x d :: int
proof -
  assume d: "0 \<le> d" "d \<le> 9"
  have "d = take_bit 4 d" using d by (simp add: take_bit_int_eq_self)
  then have small: "n < 4" if "bit d n" for n using that by (metis bit_take_bit_iff)
  have "push_bit 4 x + d = push_bit 4 x OR d"
    by (rule disjunctive_add) (auto simp: bit_simps dest: small)
  then show ?thesis by (simp add: push_bit_eq_mult mult.commute)
qed

lemma shift_fold_high:
  "length cs \<le> n \<Longrightarrow> 6 + n \<le> 13 \<Longrightarrow> digits_ok (map (\<lambda>c. int (of_char c) - 48) cs) \<Longrightarrow>
   foldl (\<lambda>((low, high), cnt) current. let d = int (of_char current) - 48
       in (if cnt < 7 then (push_bit 4 low OR d, high) else (low, push_bit 4 high OR d), cnt - 1))
     ((low, high), 6 + int n) cs =
   ((low, foldl (\<lambda>x d. 16 * x + d) high (map (\<lambda>c. int (of_char c) - 48) cs)), 6 + int n - int (length cs))"
proof (induction cs arbitrary: high n)
  case (Cons c cs)
  then obtain m where n: "n = Suc m" by (cases n) auto
  have d: "0 \<le> int (of_char c) - 48" "int (of_char c) - 48 \<le> 9" and cs: "digits_ok (map (\<lambda>c. int (of_char c) - 48) cs)"
    using Cons.prems(3) by (simp_all add: digits_ok_def)
  have "6 + int n - 1 = 6 + int m" by (simp add: n)
  with Cons.IH [of m "16 * high + (int (of_char c) - 48)"] Cons.prems cs shift_in [OF d, of high] n
  show ?case by (simp add: Let_def)
qed simp

lemma shift_fold_low:
  "cnt < 7 \<Longrightarrow> digits_ok (map (\<lambda>c. int (of_char c) - 48) cs) \<Longrightarrow>
   foldl (\<lambda>((low, high), cnt) current. let d = int (of_char current) - 48
       in (if cnt < 7 then (push_bit 4 low OR d, high) else (low, push_bit 4 high OR d), cnt - 1))
     ((low, high), cnt) cs =
   ((foldl (\<lambda>x d. 16 * x + d) low (map (\<lambda>c. int (of_char c) - 48) cs), high), cnt - int (length cs))" for cnt :: int
proof (induction cs arbitrary: low cnt)
  case (Cons c cs)
  have d: "0 \<le> int (of_char c) - 48" "int (of_char c) - 48 \<le> 9" and cs: "digits_ok (map (\<lambda>c. int (of_char c) - 48) cs)"
    using Cons.prems(2) by (simp_all add: digits_ok_def)
  with Cons.IH [of "cnt - 1" "16 * low + (int (of_char c) - 48)"] Cons.prems(1) shift_in [OF d, of low]
  show ?case by (simp add: Let_def)
qed simp

lemma digit_codes:
  "\<forall>c \<in> set s. is_digit c \<Longrightarrow> digits_ok (map (\<lambda>c. int (of_char c) - 48) s) \<and>
     foldl (\<lambda>a d. 10 * a + d) (int b) (map (\<lambda>c. int (of_char c) - 48) s) =
       int (foldl (\<lambda>a c. 10 * a + char_digit c) b s)"
proof (induction s arbitrary: b)
  case (Cons c s)
  have "int (char_digit c) = int (of_char c) - 48" "48 \<le> (of_char c :: nat)" "(of_char c :: nat) \<le> 57"
    using Cons.prems by (simp_all add: is_digit_def char_digit_def)
  moreover from this(1) have "10 * int b + (int (of_char c) - 48) = int (10 * b + char_digit c)" by simp
  ultimately show ?case
    using Cons.IH [of "10 * b + char_digit c"] Cons.prems by (simp add: digits_ok_def)
qed (simp add: digits_ok_def)

lemma bin_bcd2_num:
  assumes "0 \<le> a" "a < 10 ^ 14"
  shows "bcd_ok (bin_bcd2 a)" and "bcd_num (bin_bcd2 a) = a"
proof -
  define s where "s = fmt_0d 14 a"
  define s1 s2 where "s1 = take 7 s" and "s2 = drop 7 s"
  let ?m = "map (\<lambda>c. int (of_char c) - 48)"
  have len: "length s = 14" unfolding s_def using assms by (intro length_fmt_0d) simp_all
  then have l: "length s1 = 7" "length s2 = 7" "s = s1 @ s2" by (simp_all add: s1_def s2_def)
  have dig: "\<forall>c \<in> set s. is_digit c" unfolding s_def by (rule fmt_0d_digits [OF assms(1)])
  have d1: "\<forall>c \<in> set s1. is_digit c" and d2: "\<forall>c \<in> set s2. is_digit c" using dig l(3) by auto
  note k1 = digit_codes [OF d1, of 0] and k2 = digit_codes [OF d2, of 0]
  have b: "bin_bcd2 a = (enc16 (?m s2), enc16 (?m s1))"
    unfolding bin_bcd2_def s_def [symmetric] l(3) foldl_append
    using shift_fold_high [of s1 7 0 0] shift_fold_low [of 6 s2 0 "enc16 (?m s1)"] k1 k2 l
    by (simp add: enc16_def)
  note e1 = enc16_props [OF conjunct1 [OF k1]] and e2 = enc16_props [OF conjunct1 [OF k2]]
  show "bcd_ok (bin_bcd2 a)"
    using e1 e2 l by (simp add: b bcd_ok_def take_bit_int_eq_self)
  have "bcd_num (bin_bcd2 a) = int (undec s2) + 10 ^ 7 * int (undec s1)"
    using e1 e2 k1 k2 l by (simp add: b bcd_num_words undec_def)
  also have "\<dots> = int (undec s)" unfolding l(3) undec_append l(2) by simp
  also have "\<dots> = a" unfolding s_def using undec_fmt_0d [OF assms(1)] assms(1) by simp
  finally show "bcd_num (bin_bcd2 a) = a" .
qed

subsection \<open>Addition\<close>

lemma digit_carry: "r mod 10 * 10 ^ k + r div 10 * 10 ^ Suc k = r * 10 ^ k" for r :: int
proof -
  have "r * 10 ^ k = (r div 10 * 10 + r mod 10) * 10 ^ k" by simp
  then show ?thesis by (simp only: distrib_right power_Suc mult.assoc add.commute)
qed

lemma add_loop:
  assumes "bcd_ok s" "bcd_ok t" "k \<le> 14" "foldl (add_step t) (s, 0) [0..<k] = (s', carry)"
  shows "bcd_ok s' \<and> 0 \<le> carry \<and> carry \<le> 1 \<and> (\<forall>j < 14. k \<le> j \<longrightarrow> GET_DIGIT j s' = GET_DIGIT j s) \<and>
    bcd.part k s' + carry * 10 ^ k = bcd.part k s + bcd.part k t"
  using assms(3,4)
proof (induction k arbitrary: s' carry)
  case 0
  then show ?case using assms(1) by simp
next
  case (Suc k)
  obtain s1 c1 where 1: "foldl (add_step t) (s, 0) [0..<k] = (s1, c1)" by fastforce
  have k: "k \<le> 14" "k < 14" using Suc.prems(1) by simp_all
  note IH = Suc.IH [OF k(1) 1]
  define r where "r = GET_DIGIT k s1 + GET_DIGIT k t + c1"
  have "GET_DIGIT k s1 = GET_DIGIT k s" using IH k by simp
  moreover have "0 \<le> GET_DIGIT k s" "GET_DIGIT k s \<le> 9" "0 \<le> GET_DIGIT k t" "GET_DIGIT k t \<le> 9"
    using bcd.get_range [OF assms(1) k(2)] bcd.get_range [OF assms(2) k(2)] by simp_all
  ultimately have r: "0 \<le> r" "r \<le> 19" "r = GET_DIGIT k s + GET_DIGIT k t + c1"
    using IH by (simp_all add: r_def)
  have step: "s' = SET_DIGIT (r mod 10) k s1" "carry = r div 10"
    using Suc.prems(2) 1 r by (simp_all add: add_step_def Let_def sdiv_nonneg smod_nonneg flip: r_def)
  have m: "0 \<le> r mod 10" "r mod 10 \<le> 9" by simp_all
  have "bcd.part (Suc k) s' = bcd.part k s1 + (r mod 10) * 10 ^ k"
    using bcd.part_put [of s1 k k] bcd.get_put [of s1 k k] IH k m by (simp add: bcd.part_Suc step)
  moreover have "r mod 10 * 10 ^ k + r div 10 * 10 ^ Suc k = r * 10 ^ k" by (rule digit_carry)
  ultimately have "bcd.part (Suc k) s' + carry * 10 ^ Suc k = bcd.part (Suc k) s + bcd.part (Suc k) t"
    using IH by (simp add: bcd.part_Suc step(2) r(3) algebra_simps)
  then show ?case
    using IH k m r(1,2) bcd.put_ok [of s1 k] bcd.get_put [of s1 k] by (auto simp: step)
qed

lemma bcd2_add_correct:
  assumes "bcd_ok s" "0 \<le> a" "a < 10 ^ 14" "bcd2_add s a = (s', carry)"
  shows "bcd_ok s'" "bcd_num s' + carry * 10 ^ 14 = bcd_num s + a" "0 \<le> carry" "carry \<le> 1"
  using add_loop [OF assms(1) bin_bcd2_num(1) [OF assms(2,3)] order_refl] bin_bcd2_num(2) [OF assms(2,3)] assms(4)
  by (simp_all add: bcd2_add_def bcd_num_def)

subsection \<open>Division\<close>

lemma div_loop:
  assumes "bcd_ok t" "0 < d" "k \<le> 14"
  shows "\<exists>s' carry. foldl (div_step t d) ((0, 0), 0) (rev [14 - k..<14]) = (s', carry) \<and> bcd_ok s' \<and>
    bcd_num s' = bcd_num t div 10 ^ (14 - k) div d * 10 ^ (14 - k) \<and> carry = bcd_num t div 10 ^ (14 - k) mod d \<and>
    (\<forall>j < 14 - k. GET_DIGIT j s' = 0)"
  using assms(3)
proof (induction k)
  case 0
  have "bcd_num t div 10 ^ 14 = 0" using bcd_num_range [OF assms(1)] by simp
  then show ?case by (simp add: zero_ok bcd_num_def)
next
  case (Suc k)
  define j where "j = 14 - Suc k"
  have j: "j < 14" "14 - k = Suc j" using Suc.prems by (simp_all add: j_def)
  obtain s1 c1 where 1: "foldl (div_step t d) ((0, 0), 0) (rev [Suc j..<14]) = (s1, c1)" "bcd_ok s1"
    "bcd_num s1 = bcd_num t div 10 ^ Suc j div d * 10 ^ Suc j" "c1 = bcd_num t div 10 ^ Suc j mod d"
    "\<forall>i < Suc j. GET_DIGIT i s1 = 0" using Suc j(2) by auto
  define H where "H = bcd_num t div 10 ^ Suc j"
  define r where "r = GET_DIGIT j t + 10 * c1"
  have g: "0 \<le> GET_DIGIT j t" "GET_DIGIT j t \<le> 9" using bcd.get_range [OF assms(1) j(1)] by simp_all
  have c1: "0 \<le> c1" "c1 < d" "c1 = H mod d" using 1(4) assms(2) by (simp_all add: H_def)
  have hd: "bcd_num t div 10 ^ j = 10 * H + GET_DIGIT j t"
    unfolding H_def bcd_num_def by (rule bcd.part_div [OF assms(1) j(1)])
  have e: "bcd_num t div 10 ^ j = r + 10 * (H div d) * d"
  proof -
    have "10 * H = 10 * (H div d * d + H mod d)" by simp
    then show ?thesis unfolding hd r_def c1(3) by (simp only: distrib_left mult.assoc add.commute)
  qed
  have r: "0 \<le> r" "r < 10 * d" using g c1 by (simp_all add: r_def)
  have q: "bcd_num t div 10 ^ j div d = 10 * (H div d) + r div d" "bcd_num t div 10 ^ j mod d = r mod d"
    unfolding e using assms(2) by simp_all
  have "r div d < 10"
  proof (rule ccontr)
    assume "\<not> r div d < 10"
    then have "10 * d \<le> r div d * d" using assms(2) by (intro mult_right_mono) simp_all
    moreover have "r div d * d \<le> r" using div_mult_mod_eq [of r d] pos_mod_sign [OF assms(2), of r] by linarith
    ultimately show False using r(2) by linarith
  qed
  then have rd: "0 \<le> r div d" "r div d \<le> 9" using r(1) assms(2) by (simp_all add: pos_imp_zdiv_nonneg_iff)
  have up: "rev [j..<14] = rev [Suc j..<14] @ [j]" using j(1) by (simp add: upt_conv_Cons)
  have step: "foldl (div_step t d) ((0, 0), 0) (rev [j..<14]) = (SET_DIGIT (r div d) j s1, r mod d)"
    unfolding up foldl_append 1(1) using r(1) assms(2)
    by (simp add: div_step_def Let_def sdiv_nonneg smod_nonneg flip: r_def)
  have "bcd_num (SET_DIGIT (r div d) j s1) = bcd_num s1 + (r div d) * 10 ^ j"
    using bcd.part_put [OF 1(2) j(1) order_refl rd] 1(5) j(1) by (simp add: bcd_num_def)
  also have "\<dots> = bcd_num t div 10 ^ j div d * 10 ^ j"
    unfolding 1(3) q H_def [symmetric] by (simp add: algebra_simps)
  finally have num: "bcd_num (SET_DIGIT (r div d) j s1) = bcd_num t div 10 ^ j div d * 10 ^ j" .
  have "\<forall>i < j. GET_DIGIT i (SET_DIGIT (r div d) j s1) = 0"
    using bcd.get_put [OF 1(2) j(1) _ rd] 1(5) j(1) by simp
  then show ?case
    unfolding j_def [symmetric] step using num bcd.put_ok [OF 1(2) j(1) rd] q(2) by metis
qed

lemma bcd2_div_correct:
  assumes "bcd_ok s" "0 < d" "bcd2_div s d = (s', carry)"
  shows "bcd_ok s'" "bcd_num s' = bcd_num s div d" "carry = bcd_num s mod d"
  using div_loop [OF assms(1,2) order_refl] assms(3) by (auto simp: bcd2_div_def)

subsection \<open>Multiplication\<close>

lemma mul_inner:
  assumes "bcd_ok s" "bcd_ok t" "0 \<le> m1" "m1 \<le> 9" "l + k \<le> 14"
    and "foldl (mul_step t l m1) (s, 0) [0..<k] = (s', carry)"
  shows "bcd_ok s' \<and> 0 \<le> carry \<and> carry \<le> 9 \<and> (\<forall>j < 14. l + k \<le> j \<longrightarrow> GET_DIGIT j s' = GET_DIGIT j s) \<and>
    bcd.part (l + k) s' + carry * 10 ^ (l + k) = bcd.part (l + k) s + m1 * 10 ^ l * bcd.part k t"
  using assms(5,6)
proof (induction k arbitrary: s' carry)
  case 0
  then show ?case using assms(1) by simp
next
  case (Suc k)
  obtain s1 c1 where 1: "foldl (mul_step t l m1) (s, 0) [0..<k] = (s1, c1)" by fastforce
  define p where "p = l + k"
  have k: "l + k \<le> 14" "k < 14" "p < 14" "k + l = p" "l + Suc k = Suc p" using Suc.prems(1) by (simp_all add: p_def)
  note IH = Suc.IH [OF k(1) 1, folded p_def]
  define r where "r = m1 * GET_DIGIT k t + c1 + GET_DIGIT p s1"
  have g: "0 \<le> GET_DIGIT k t" "GET_DIGIT k t \<le> 9" "0 \<le> GET_DIGIT p s" "GET_DIGIT p s \<le> 9" "GET_DIGIT p s1 = GET_DIGIT p s"
    using bcd.get_range [OF assms(1) k(3)] bcd.get_range [OF assms(2) k(2)] IH k(3) by simp_all
  have "m1 * GET_DIGIT k t \<le> 9 * 9" using assms(3,4) g by (intro mult_mono) simp_all
  moreover have "0 \<le> m1 * GET_DIGIT k t" using assms(3) g by simp
  ultimately have r: "0 \<le> r" "r \<le> 99" using IH g by (simp_all add: r_def)
  have step: "s' = SET_DIGIT (r mod 10) p s1" "carry = r div 10"
    using Suc.prems(2) 1 r(1) k(3,4)
    by (simp_all add: mul_step_def Let_def sdiv_nonneg smod_nonneg flip: r_def)
  have m: "0 \<le> r mod 10" "r mod 10 \<le> 9" by simp_all
  have "bcd.part (Suc p) s' = bcd.part p s1 + (r mod 10) * 10 ^ p"
    using bcd.part_put [of s1 p p] bcd.get_put [of s1 p p] IH k m by (simp add: bcd.part_Suc step)
  then have "bcd.part (Suc p) s' + carry * 10 ^ Suc p = bcd.part p s1 + r * 10 ^ p"
    unfolding step(2) using digit_carry [of r p] by simp
  also have "\<dots> = bcd.part (Suc p) s + m1 * 10 ^ l * bcd.part (Suc k) t"
    using IH g(5) by (simp add: bcd.part_Suc r_def p_def power_add algebra_simps)
  finally show ?case
    unfolding k(5) using IH k m r(1,2) bcd.put_ok [of s1 p] bcd.get_put [of s1 p] by (auto simp: step)
qed

text \<open>Past the fourteenth digit the row only moves the carry.\<close>

lemma mul_step_overflow: "14 \<le> l + k \<Longrightarrow> fst (foldl (mul_step t l m1) (s, c) [k..<k + n]) = s"
proof (induction n)
  case (Suc n)
  obtain s1 c1 where 1: "foldl (mul_step t l m1) (s, c) [k..<k + n] = (s1, c1)" by fastforce
  then show ?case using Suc by (simp add: mul_step_def Let_def)
qed simp

lemma mul_row_num:
  assumes "bcd_ok s" "bcd_ok t" "bcd_ok m" "l < 14"
  shows "bcd_ok (fst (mul_row t m (s, c) l))"
    and "bcd_num (fst (mul_row t m (s, c) l)) = (bcd_num s + GET_DIGIT l m * 10 ^ l * bcd_num t) mod 10 ^ 14"
proof -
  define k where "k = 14 - l"
  have k: "l + k = 14" "k \<le> 14" using assms(4) by (simp_all add: k_def)
  let ?m = "GET_DIGIT l m"
  have m: "0 \<le> ?m" "?m \<le> 9" using bcd.get_range [OF assms(3,4)] by simp_all
  obtain s1 c1 where 1: "foldl (mul_step t l ?m) (s, 0) [0..<k] = (s1, c1)" by fastforce
  note I = mul_inner [OF assms(1,2) m eq_imp_le [OF k(1)] 1, unfolded k(1), folded bcd_num_def]
  have "[0..<14] = [0..<k] @ [k..<k + (14 - k)]" using k(2) upt_add_eq_append [of 0 k "14 - k"] by simp
  then have r: "fst (mul_row t m (s, c) l) = s1"
    using mul_step_overflow [of l k t ?m s1 c1 "14 - k"] k(1)
    by (simp only: mul_row_def prod.case foldl_append 1 order_refl)
  show "bcd_ok (fst (mul_row t m (s, c) l))" using I r by simp
  have low: "bcd.part k t = bcd_num t mod 10 ^ k" unfolding bcd_num_def by (rule bcd.part_mono [OF assms(2) k(2)]) simp
  have "10 ^ l * (bcd_num t mod 10 ^ k) = 10 ^ l * bcd_num t mod 10 ^ 14"
    using mult_mod_right [of "10 ^ l" "bcd_num t" "10 ^ k"] k(1) by (simp flip: power_add)
  then have "?m * 10 ^ l * bcd.part k t mod 10 ^ 14 = ?m * 10 ^ l * bcd_num t mod 10 ^ 14"
    unfolding low mult.assoc by (metis mod_mult_right_eq)
  moreover have "bcd_num s1 = bcd_num s1 mod 10 ^ 14" using bcd_num_range [of s1] I by simp
  moreover have "bcd_num s1 mod 10 ^ 14 = (bcd_num s + ?m * 10 ^ l * bcd.part k t) mod 10 ^ 14"
  proof -
    have "(bcd_num s1 + c1 * 10 ^ 14) mod 10 ^ 14 = (bcd_num s + ?m * 10 ^ l * bcd.part k t) mod 10 ^ 14"
      using I by presburger
    then show ?thesis by (simp only: mod_mult_self1)
  qed
  moreover have "(bcd_num s + ?m * 10 ^ l * bcd.part k t) mod 10 ^ 14 = (bcd_num s + ?m * 10 ^ l * bcd_num t) mod 10 ^ 14"
    using calculation(1) by (rule mod_add_cong [OF refl])
  ultimately show "bcd_num (fst (mul_row t m (s, c) l)) = (bcd_num s + ?m * 10 ^ l * bcd_num t) mod 10 ^ 14"
    unfolding r by argo
qed

lemma mul_loop:
  assumes "bcd_ok t" "bcd_ok m" "l \<le> 14"
  shows "bcd_ok (fst (foldl (mul_row t m) ((0, 0), 0) [0..<l])) \<and>
    bcd_num (fst (foldl (mul_row t m) ((0, 0), 0) [0..<l])) = (bcd.part l m * bcd_num t) mod 10 ^ 14"
  using assms(3)
proof (induction l)
  case 0
  then show ?case by (simp add: zero_ok bcd_num_def)
next
  case (Suc l)
  obtain s1 c1 where 1: "foldl (mul_row t m) ((0, 0), 0) [0..<l] = (s1, c1)" by fastforce
  have l: "l < 14" using Suc.prems by simp
  have s1: "bcd_ok s1" "bcd_num s1 = (bcd.part l m * bcd_num t) mod 10 ^ 14" using Suc 1 by simp_all
  have "(bcd_num s1 + GET_DIGIT l m * 10 ^ l * bcd_num t) mod 10 ^ 14 = (bcd.part (Suc l) m * bcd_num t) mod 10 ^ 14"
    unfolding s1(2) mod_add_left_eq bcd.part_Suc by (simp add: distrib_right)
  then show ?case using mul_row_num [OF s1(1) assms(1,2) l, of c1] by (simp add: 1)
qed

lemma bcd2_mul_correct:
  assumes "bcd_ok s" "0 \<le> a" "a < 10 ^ 14"
  shows "bcd_ok (fst (bcd2_mul s a))" "bcd_num (fst (bcd2_mul s a)) = bcd_num s * a mod 10 ^ 14"
  using mul_loop [OF assms(1) bin_bcd2_num(1) [OF assms(2,3)] order_refl] bin_bcd2_num(2) [OF assms(2,3)]
  by (simp_all add: bcd2_mul_def bcd_num_def mult.commute)

subsection \<open>The operations as arithmetic\<close>

text \<open>
  \<open>bin_bcd2\<close> and \<open>bcd2_bin\<close> round trip: every number below \<open>10 ^ 14\<close> is encoded in well-formed BCD
  words that stand for it, and decoding the two words gives its seven low and its remaining digits.
\<close>

theorem bcd2_roundtrip:
  assumes "0 \<le> a" "a < 10 ^ 14"
  shows "bcd_ok (bin_bcd2 a) \<and> bcd_num (bin_bcd2 a) = a \<and>
    bcd2_bin (fst (bin_bcd2 a)) = a mod 10 ^ 7 \<and> bcd2_bin (snd (bin_bcd2 a)) = a div 10 ^ 7"
proof -
  obtain low high where lh: "bin_bcd2 a = (low, high)" by fastforce
  note ok = bin_bcd2_num [OF assms]
  have "a = bcd2_bin low + 10 ^ 7 * bcd2_bin high"
    using ok(2) by (simp add: lh bcd_num_words bcd2_bin_nib)
  moreover have "0 \<le> bcd2_bin low" "bcd2_bin low < 10 ^ 7"
  proof -
    have "bcd2_bin low = bcd.part 7 (low, high)" by (simp add: bcd2_bin_nib bcd.part_def GET_DIGIT_nib)
    then show "0 \<le> bcd2_bin low" "bcd2_bin low < 10 ^ 7"
      using bcd.part_range [of "(low, high)" 7] ok(1) by (simp_all add: lh)
  qed
  ultimately have "bcd2_bin low = a mod 10 ^ 7" "bcd2_bin high = a div 10 ^ 7"
    by (simp_all add: div_pos_pos_trivial mod_pos_pos_trivial)
  then show ?thesis using ok by (simp add: lh)
qed

theorem bcd2_roundtrip_witness:
  "bcd_ok (bin_bcd2 12345678901) \<and> bcd2_bin (fst (bin_bcd2 12345678901)) = 5678901 \<and>
   bcd2_bin (snd (bin_bcd2 12345678901)) = 1234"
  using bcd2_roundtrip [of 12345678901] by simp

text \<open>
  C33: on well-formed words \<open>bcd2_add\<close> is addition with carry out, \<open>bcd2_mul\<close> multiplication modulo
  \<open>10 ^ 14\<close> and \<open>bcd2_div\<close> division, whose carry is the remainder; each leaves well-formed words.
\<close>

theorem bcd2_arithmetic:
  assumes "bcd_ok s" "0 \<le> a" "a < 10 ^ 14" "0 < d"
  shows "bcd_ok (fst (bcd2_add s a)) \<and>
      bcd_num (fst (bcd2_add s a)) + snd (bcd2_add s a) * 10 ^ 14 = bcd_num s + a \<and>
    bcd_ok (fst (bcd2_mul s a)) \<and> bcd_num (fst (bcd2_mul s a)) = bcd_num s * a mod 10 ^ 14 \<and>
    bcd_ok (fst (bcd2_div s d)) \<and> bcd_num (fst (bcd2_div s d)) = bcd_num s div d \<and>
      snd (bcd2_div s d) = bcd_num s mod d"
  using bcd2_add_correct [OF assms(1-3) prod.collapse [symmetric]] bcd2_mul_correct [OF assms(1-3)]
    bcd2_div_correct [OF assms(1,4) prod.collapse [symmetric]] by blast

theorem bcd2_arithmetic_witness:
  "bcd_ok (0, 0) \<and> bcd_num (fst (bcd2_mul (0, 0) 4)) = bcd_num (0, 0) * 4 mod 10 ^ 14"
proof -
  have "bcd_ok (0, 0)" by (simp add: bcd_ok_def)
  with bcd2_arithmetic [of "(0, 0)" 4 8] show ?thesis by simp
qed

text \<open>
  \<open>bcd2_sub\<close> does not subtract: the borrow is never taken back, so that 100 minus 1 leaves
  99999999999099 (every higher digit is decremented as well); and \<open>bcd2_cmp\<close> calls 10000005 equal
  to 5, because high parts up to 214 are ignored.
\<close>

theorem bcd2_sub_cmp_wrong:
  "bcd_num (bin_bcd2 100) = 100 \<and> bcd_num (fst (bcd2_sub (bin_bcd2 100) 1)) = 99999999999099 \<and>
   bcd_num (5, 1) = 10000005 \<and> bcd2_cmp (5, 1) 5 = 0"
proof -
  have s: "bcd2_sub (bin_bcd2 100) 1 = ((161058969, 161061273), 1)" by code_simp
  have c: "bcd2_cmp (5, 1) 5 = 0" by code_simp
  note num = bcd_num_words nib_def take_bit_eq_mod drop_bit_eq_div lessThan_nat_numeral
  have "bcd_num (161058969, 161061273) = 99999999999099" "bcd_num (5, 1) = 10000005" by (simp_all add: num)
  moreover have "bcd_num (bin_bcd2 100) = 100" by (rule bin_bcd2_num) simp_all
  ultimately show ?thesis using s c by simp
qed

end
