(* ===== verification/Rnd.thy ===== *)
theory Rnd
  imports Dss Mod_Mult
begin

text \<open>
  The random streams of \<open>rnd.c\<close> and \<open>rnd.h\<close>: the \<open>Seed\<close> table, \<open>UnifInt\<close>, \<open>UnifReal\<close>,
  \<open>dss_random\<close> and the per-row bookkeeping \<open>row_start\<close>/\<open>row_stop\<close>.  The state is the \<open>Seed\<close> table
  and the list of out-of-range stream numbers whose \<open>usage\<close> field \<open>dss_random\<close> has incremented
  outside the table (an undefined write in C; the table itself is modelled as unharmed by it).

  The relation \<open>moves\<close> accounts for draws: which streams advanced by how many steps, and how many
  of them were recorded as used.  It composes, and it is what the row padding is proved from.
\<close>

record rng =
  Seed :: "seed_t list"
  stray :: "int list"

subsection \<open>The operations\<close>

definition dM :: rat where "dM = 2147483647"

definition upd_seed :: "nat \<Rightarrow> (seed_t \<Rightarrow> seed_t) \<Rightarrow> rng \<Rightarrow> rng" where
  "upd_seed i f s = s\<lparr>Seed := (Seed s)[i := f (Seed s ! i)]\<rparr>"

text \<open>\<open>if (nStream < 0 || nStream > MAX_STREAM) nStream = 0\<close>\<close>

definition clip_stream :: "int \<Rightarrow> nat" where
  "clip_stream nStream = (if nStream < 0 \<or> nStream > MAX_STREAM then 0 else nat nStream)"

definition UnifInt :: "int \<Rightarrow> int \<Rightarrow> int \<Rightarrow> rng \<Rightarrow> int \<times> rng" where
  "UnifInt nLow nHigh nStream s =
     (let k = clip_stream nStream;
          (nLow, nHigh) = (if nLow > nHigh then (nHigh, nLow) else (nLow, nHigh));
          dRange = d_of_long (nHigh - nLow + 1);
          s = upd_seed k (\<lambda>e. e\<lparr>sd_value := NextRand (sd_value e)\<rparr>) s;
          nTemp = long_of_d (dmul (ddiv (d_of_long (sd_value (Seed s ! k))) dM) dRange)
      in (nLow + nTemp, s))"

definition UnifReal :: "rat \<Rightarrow> rat \<Rightarrow> int \<Rightarrow> rng \<Rightarrow> rat \<times> rng" where
  "UnifReal dLow dHigh nStream s =
     (let k = clip_stream nStream
      in if dLow = dHigh then (dLow, s)
         else let (dLow, dHigh) = (if dLow > dHigh then (dHigh, dLow) else (dLow, dHigh));
                  s = upd_seed k (\<lambda>e. e\<lparr>sd_value := NextRand (sd_value e)\<rparr>) s;
                  dTemp = dmul (ddiv (d_of_long (sd_value (Seed s ! k))) dM) (dsub dHigh dLow)
              in (dadd dLow dTemp, s))"

definition use_stream :: "int \<Rightarrow> rng \<Rightarrow> rng" where
  "use_stream stream s =
     (if 0 \<le> stream \<and> stream < int (length (Seed s))
      then upd_seed (nat stream) (\<lambda>e. e\<lparr>sd_usage := sd_usage e + 1\<rparr>) s
      else s\<lparr>stray := stream # stray s\<rparr>)"

definition dss_random :: "int \<Rightarrow> int \<Rightarrow> int \<Rightarrow> rng \<Rightarrow> int \<times> rng" where
  "dss_random lower upper stream s =
     (let (tgt, s) = UnifInt lower upper stream s in (tgt, use_stream stream s))"

definition row_start :: "int \<Rightarrow> rng \<Rightarrow> rng" where
  "row_start t s = s\<lparr>Seed := map (\<lambda>e. e\<lparr>sd_usage := 0\<rparr>) (Seed s)\<rparr>"

text \<open>One iteration of the loop of \<open>row_stop\<close>; \<open>None\<close> when \<open>NthElement\<close> does not return.\<close>

definition stop_seed :: "bool \<Rightarrow> int \<Rightarrow> int \<Rightarrow> seed_t \<Rightarrow> seed_t option" where
  "stop_seed set_seeds t child e =
     (if sd_table e = t \<or> sd_table e = child
      then if set_seeds \<and> sd_usage e > sd_boundary e
           then Some (e\<lparr>sd_boundary := sd_usage e\<rparr>)
           else map_option (\<lambda>v. e\<lparr>sd_value := v\<rparr>)
                  (NthElement (sd_boundary e - sd_usage e) (sd_value e))
      else Some e)"

fun map_seeds :: "('a \<Rightarrow> 'b option) \<Rightarrow> 'a list \<Rightarrow> 'b list option" where
  "map_seeds f [] = Some []"
| "map_seeds f (x # xs) =
     (case f x of None \<Rightarrow> None
      | Some y \<Rightarrow> (case map_seeds f xs of None \<Rightarrow> None | Some ys \<Rightarrow> Some (y # ys)))"

definition row_stop :: "bool \<Rightarrow> tdef list \<Rightarrow> int \<Rightarrow> rng \<Rightarrow> rng option" where
  "row_stop set_seeds tdefs t s =
     (let t = (if t = ORDER_LINE then ORDER else t);
          t = (if t = PART_PSUPP then PART else t)
      in map_option (\<lambda>es. s\<lparr>Seed := es\<rparr>)
           (map_seeds (stop_seed set_seeds t (td_child (tdefs ! nat t))) (Seed s)))"

text \<open>\<open>printf("%d:\\t%ld\\n", i, Seed[i].value)\<close> for the streams of a table.\<close>

definition dump_seeds :: "int \<Rightarrow> rng \<Rightarrow> string" where
  "dump_seeds tbl s = concat (map
     (\<lambda>(i, e). if sd_table e = tbl
               then fmt_d (int i) @ '':'' @ [CHR 0x09] @ fmt_d (sd_value e) @ [CHR 0x0A] else [])
     (enumerate 0 (Seed s)))"

subsection \<open>The initial \<open>Seed\<close> table\<close>

definition mk_seed :: "int \<Rightarrow> int \<Rightarrow> int \<Rightarrow> int \<Rightarrow> seed_t" where
  "mk_seed t v u b = \<lparr>sd_table = t, sd_value = v, sd_usage = u, sd_boundary = b\<rparr>"

definition Seed_init :: "seed_t list" where
  "Seed_init =
    [mk_seed PART 1 0 1,
     mk_seed PART 46831694 0 1,
     mk_seed PART 1841581359 0 1,
     mk_seed PART 1193163244 0 1,
     mk_seed PART 727633698 0 1,
     mk_seed NONE 933588178 0 1,
     mk_seed PART 804159733 0 (RNG_PER_SENT * 3),
     mk_seed PSUPP 1671059989 0 SUPP_PER_PART,
     mk_seed PSUPP 1051288424 0 SUPP_PER_PART,
     mk_seed PSUPP 1961692154 0 (SUPP_PER_PART * RNG_PER_SENT * 20),
     mk_seed ORDER 1227283347 0 1,
     mk_seed ORDER 1171034773 0 1,
     mk_seed ORDER 276090261 0 (RNG_PER_SENT * 8),
     mk_seed ORDER 1066728069 0 1,
     mk_seed LINE 209208115 0 O_LCNT_MAX,
     mk_seed LINE 554590007 0 O_LCNT_MAX,
     mk_seed LINE 721958466 0 O_LCNT_MAX,
     mk_seed LINE 1371272478 0 O_LCNT_MAX,
     mk_seed LINE 675466456 0 O_LCNT_MAX,
     mk_seed LINE 1808217256 0 O_LCNT_MAX,
     mk_seed LINE 2095021727 0 O_LCNT_MAX,
     mk_seed LINE 1769349045 0 O_LCNT_MAX,
     mk_seed LINE 904914315 0 O_LCNT_MAX,
     mk_seed LINE 373135028 0 O_LCNT_MAX,
     mk_seed LINE 717419739 0 O_LCNT_MAX,
     mk_seed LINE 1095462486 0 (O_LCNT_MAX * RNG_PER_SENT * 5),
     mk_seed CUST 881155353 0 9,
     mk_seed CUST 1489529863 0 1,
     mk_seed CUST 1521138112 0 3,
     mk_seed CUST 298370230 0 1,
     mk_seed CUST 1140279430 0 1,
     mk_seed CUST 1335826707 0 (RNG_PER_SENT * 12),
     mk_seed SUPP 706178559 0 9,
     mk_seed SUPP 110356601 0 1,
     mk_seed SUPP 884434366 0 3,
     mk_seed SUPP 962338209 0 1,
     mk_seed SUPP 1341315363 0 (RNG_PER_SENT * 11),
     mk_seed PART 709314158 0 92,
     mk_seed ORDER 591449447 0 1,
     mk_seed LINE 431918286 0 1,
     mk_seed ORDER 851767375 0 1,
     mk_seed NATION 606179079 0 (RNG_PER_SENT * 16),
     mk_seed REGION 1500869201 0 (RNG_PER_SENT * 16),
     mk_seed ORDER 1434868289 0 1,
     mk_seed SUPP 263032577 0 1,
     mk_seed SUPP 753643799 0 1,
     mk_seed SUPP 202794285 0 1,
     mk_seed SUPP 715851524 0 1]"

definition rng_init :: rng where "rng_init = \<lparr>Seed = Seed_init, stray = []\<rparr>"

subsection \<open>Well-formed states\<close>

definition seeds_ok :: "seed_t list \<Rightarrow> bool" where
  "seeds_ok es \<longleftrightarrow> length es = nat MAX_STREAM + 1 \<and>
     (\<forall>e \<in> set es. seed_ok (sd_value e) \<and> 0 \<le> sd_usage e \<and> 0 \<le> sd_boundary e \<and> sd_boundary e < 2 ^ 31)"

definition rng_ok :: "rng \<Rightarrow> bool" where
  "rng_ok s \<longleftrightarrow> seeds_ok (Seed s)"

lemma rng_okD:
  assumes "rng_ok s"
  shows "length (Seed s) = 48"
    and "i < 48 \<Longrightarrow> seed_ok (sd_value (Seed s ! i))"
    and "i < 48 \<Longrightarrow> 0 \<le> sd_usage (Seed s ! i)"
    and "i < 48 \<Longrightarrow> 0 \<le> sd_boundary (Seed s ! i)"
    and "i < 48 \<Longrightarrow> sd_boundary (Seed s ! i) < 2 ^ 31"
  using assms by (auto simp: rng_ok_def seeds_ok_def)

lemma rng_okI:
  assumes "length (Seed s) = 48"
    and "\<And>i. i < 48 \<Longrightarrow> seed_ok (sd_value (Seed s ! i)) \<and> 0 \<le> sd_usage (Seed s ! i) \<and>
      0 \<le> sd_boundary (Seed s ! i) \<and> sd_boundary (Seed s ! i) < 2 ^ 31"
  shows "rng_ok s"
  using assms by (auto simp: rng_ok_def seeds_ok_def in_set_conv_nth)

lemma rng_init_ok: "rng_ok rng_init"
  by (simp add: rng_ok_def rng_init_def seeds_ok_def Seed_init_def mk_seed_def seed_ok_def nM_def)

lemma clip_stream_less: "clip_stream c < 48"
  by (auto simp: clip_stream_def nat_less_iff)

lemma clip_stream_in [simp]: "0 \<le> c \<Longrightarrow> c \<le> 47 \<Longrightarrow> clip_stream c = nat c"
  by (simp add: clip_stream_def)

lemma clip_stream_out [simp]: "47 < c \<Longrightarrow> clip_stream c = 0"
  by (simp add: clip_stream_def)

subsection \<open>\<open>UnifInt\<close> stays between its bounds\<close>

text \<open>The quotient by \<open>dM\<close> is below 1 by more than two rounding errors can make up for.\<close>

lemma unif_fraction:
  assumes v: "seed_ok v" and R: "0 < R" "R < 2 ^ 53"
  defines "x \<equiv> dmul (ddiv (d_of_long v) dM) (d_of_long R)"
  shows "0 \<le> x" and "x < of_int R"
proof -
  have v': "1 \<le> v" "v \<le> 2147483646" using v by (simp_all add: seed_ok_def nM_def)
  have d: "d_of_long v = of_int v" "d_of_long R = of_int R"
    using v' R by (simp_all add: d_of_long_exact)
  define q where "q = (of_int v / 2147483647 :: rat)"
  have "(of_int v :: rat) \<le> of_int 2147483646" using v'(2) by (simp only: of_int_le_iff)
  then have q: "0 \<le> q" "q \<le> 2147483646 / 2147483647"
    using v'(1) by (simp_all add: q_def divide_le_cancel)
  have R': "(0::rat) < of_int R" using R(1) by simp
  define y where "y = dround q"
  have y: "0 \<le> y" "y \<le> q * (1 + 1 / 2 ^ 53)"
    unfolding y_def using q(1) by (rule dround_nonneg, rule dround_upper)
  have x: "x = dround (y * of_int R)"
    by (simp only: x_def d ddiv_def dmul_def dM_def y_def q_def)
  show "0 \<le> x" unfolding x using y(1) R' by (intro dround_nonneg) simp
  have "y \<le> 2147483646 / 2147483647 * (1 + 1 / 2 ^ 53)"
    using y(2) mult_right_mono [OF q(2), of "1 + 1 / 2 ^ 53"] by simp
  then have "y * (1 + 1 / 2 ^ 53) \<le> (2147483646 / 2147483647 * (1 + 1 / 2 ^ 53)) * (1 + 1 / 2 ^ 53)"
    by (intro mult_right_mono) simp_all
  also have "\<dots> < 1" by simp
  finally have "y * (1 + 1 / 2 ^ 53) * of_int R < 1 * of_int R" using R' by (intro mult_strict_right_mono)
  moreover have "x \<le> y * of_int R * (1 + 1 / 2 ^ 53)"
    unfolding x using y(1) R' by (intro dround_upper) simp
  moreover have "y * of_int R * (1 + 1 / 2 ^ 53) = y * (1 + 1 / 2 ^ 53) * of_int R" by simp
  ultimately show "x < of_int R" by linarith
qed

text \<open>The value \<open>UnifInt\<close> computes from the advanced seed of its stream.\<close>

definition unif_value :: "int \<Rightarrow> int \<Rightarrow> int \<Rightarrow> int" where
  "unif_value lo hi v =
     (let (lo, hi) = (if lo > hi then (hi, lo) else (lo, hi))
      in lo + long_of_d (dmul (ddiv (d_of_long v) dM) (d_of_long (hi - lo + 1))))"

lemma unif_value_bounds:
  assumes "seed_ok v" "lo \<le> hi" "hi - lo < 2 ^ 53 - 1"
  shows "lo \<le> unif_value lo hi v" and "unif_value lo hi v \<le> hi"
proof -
  define x where "x = dmul (ddiv (d_of_long v) dM) (d_of_long (hi - lo + 1))"
  have x: "0 \<le> x" "x < of_int (hi - lo + 1)"
    unfolding x_def using unif_fraction [OF assms(1), of "hi - lo + 1"] assms(2,3) by simp_all
  have "unif_value lo hi v = lo + \<lfloor>x\<rfloor>"
    using assms(2) x(1) by (simp add: unif_value_def x_def long_of_d_def)
  moreover have "0 \<le> \<lfloor>x\<rfloor>" using x(1) by simp
  moreover have "\<lfloor>x\<rfloor> < hi - lo + 1" using x(2) by (simp only: floor_less_iff)
  ultimately show "lo \<le> unif_value lo hi v" "unif_value lo hi v \<le> hi" by linarith+
qed

lemma UnifInt_alt:
  assumes "rng_ok s"
  shows "UnifInt lo hi c s =
    (unif_value lo hi (NextRand (sd_value (Seed s ! clip_stream c))),
     upd_seed (clip_stream c) (\<lambda>e. e\<lparr>sd_value := NextRand (sd_value e)\<rparr>) s)"
  using rng_okD(1) [OF assms] clip_stream_less [of c]
  by (simp add: UnifInt_def unif_value_def upd_seed_def Let_def)

text \<open>\<open>dss_random\<close>: the value depends on the seed of its stream only.\<close>

lemma dss_random_value:
  "rng_ok s \<Longrightarrow> fst (dss_random lo hi c s) =
     unif_value lo hi (NextRand (sd_value (Seed s ! clip_stream c)))"
  by (simp add: dss_random_def UnifInt_alt)

lemma dss_random_bounds:
  assumes "rng_ok s" "lo \<le> hi" "hi - lo < 2 ^ 53 - 1"
  shows "lo \<le> fst (dss_random lo hi c s)" "fst (dss_random lo hi c s) \<le> hi"
  using unif_value_bounds [OF NextRand_ok [OF rng_okD(2) [OF assms(1) clip_stream_less]] assms(2,3)]
  by (simp_all add: dss_random_value [OF assms(1)])

subsection \<open>Accounting for draws\<close>

definition moves :: "(nat \<Rightarrow> nat) \<Rightarrow> (nat \<Rightarrow> nat) \<Rightarrow> rng \<Rightarrow> rng \<Rightarrow> bool" where
  "moves k u s t \<longleftrightarrow> length (Seed t) = length (Seed s) \<and>
     (\<forall>i < length (Seed s). Seed t ! i =
        (Seed s ! i)\<lparr>sd_value := (NextRand ^^ k i) (sd_value (Seed s ! i)),
                     sd_usage := sd_usage (Seed s ! i) + int (u i)\<rparr>)"

definition one_at :: "nat \<Rightarrow> nat \<Rightarrow> nat" where
  "one_at j i = (if i = j then 1 else 0)"

lemma moves_refl: "moves (\<lambda>_. 0) (\<lambda>_. 0) s s"
  by (simp add: moves_def)

lemma moves_trans:
  assumes "moves k u s t" "moves k' u' t r"
  shows "moves (\<lambda>i. k i + k' i) (\<lambda>i. u i + u' i) s r"
  using assms by (auto simp: moves_def funpow_add add.commute [of "k _"])

lemma moves_ok: "moves k u s t \<Longrightarrow> rng_ok s \<Longrightarrow> rng_ok t"
proof (rule rng_okI)
  assume m: "moves k u s t" and s: "rng_ok s"
  show "length (Seed t) = 48" using m rng_okD(1) [OF s] by (simp add: moves_def)
  fix i :: nat
  assume "i < 48"
  then show "seed_ok (sd_value (Seed t ! i)) \<and> 0 \<le> sd_usage (Seed t ! i) \<and>
      0 \<le> sd_boundary (Seed t ! i) \<and> sd_boundary (Seed t ! i) < 2 ^ 31"
    using m rng_okD [OF s] by (simp add: moves_def NextRand_iter_ok)
qed

lemma moves_value:
  "moves k u s t \<Longrightarrow> rng_ok s \<Longrightarrow> i < 48 \<Longrightarrow>
   sd_value (Seed t ! i) = (NextRand ^^ k i) (sd_value (Seed s ! i))"
  by (simp add: moves_def rng_okD)

lemma dss_random_moves:
  assumes "rng_ok s"
  shows "moves (one_at (clip_stream c))
    (if 0 \<le> c \<and> c \<le> 47 then one_at (nat c) else (\<lambda>_. 0)) s (snd (dss_random lo hi c s))"
  using rng_okD(1) [OF assms] clip_stream_less [of c]
  by (auto simp: moves_def dss_random_def UnifInt_alt [OF assms] use_stream_def upd_seed_def
      one_at_def nth_list_update)

lemma dss_random_moves_in:
  "rng_ok s \<Longrightarrow> 0 \<le> c \<Longrightarrow> c \<le> 47 \<Longrightarrow>
   moves (one_at (nat c)) (one_at (nat c)) s (snd (dss_random lo hi c s))"
  using dss_random_moves [of s c lo hi] by simp

lemma dss_random_moves_stray:
  "rng_ok s \<Longrightarrow> 47 < c \<Longrightarrow> moves (one_at 0) (\<lambda>_. 0) s (snd (dss_random lo hi c s))"
  using dss_random_moves [of s c lo hi] by simp

lemma dss_random_ok: "rng_ok s \<Longrightarrow> rng_ok (snd (dss_random lo hi c s))"
  by (rule moves_ok [OF dss_random_moves])

subsection \<open>Rows: \<open>row_start\<close>, draws, \<open>row_stop\<close>\<close>

text \<open>Tables and boundaries of the streams never change outside the seed-setting mode.\<close>

definition frame :: "rng \<Rightarrow> (int \<times> int) list" where
  "frame s = map (\<lambda>e. (sd_table e, sd_boundary e)) (Seed s)"

definition stream_table :: "nat \<Rightarrow> int" where
  "stream_table i = sd_table (Seed_init ! i)"

definition stream_boundary :: "nat \<Rightarrow> nat" where
  "stream_boundary i = nat (sd_boundary (Seed_init ! i))"

definition rng_inv :: "rng \<Rightarrow> bool" where
  "rng_inv s \<longleftrightarrow> rng_ok s \<and> frame s = frame rng_init"

abbreviation val :: "rng \<Rightarrow> nat \<Rightarrow> int" where
  "val s i \<equiv> sd_value (Seed s ! i)"

definition advanced :: "(nat \<Rightarrow> nat) \<Rightarrow> rng \<Rightarrow> rng \<Rightarrow> bool" where
  "advanced k s t \<longleftrightarrow> rng_inv t \<and> (\<forall>i < 48. val t i = (NextRand ^^ k i) (val s i))"

text \<open>What \<open>row_stop\<close> adds to the \<open>u\<close> recorded draws of stream \<open>i\<close> for table \<open>t\<close>, when the table
  has no child: the streams marked \<open>NONE\<close> are padded too, since \<open>NONE\<close> is also the child field.\<close>

definition pads :: "int \<Rightarrow> nat \<Rightarrow> bool" where
  "pads t i \<longleftrightarrow> stream_table i = t \<or> stream_table i = NONE"

definition pad :: "int \<Rightarrow> nat \<Rightarrow> nat \<Rightarrow> nat" where
  "pad t i u = (if pads t i then stream_boundary i - u else 0)"

lemma rng_init_inv: "rng_inv rng_init"
  by (simp add: rng_inv_def rng_init_ok)

lemma rng_inv_ok: "rng_inv s \<Longrightarrow> rng_ok s"
  by (simp add: rng_inv_def)

lemma frame_nth:
  assumes "rng_inv s" "i < 48"
  shows "sd_table (Seed s ! i) = stream_table i" "sd_boundary (Seed s ! i) = int (stream_boundary i)"
proof -
  have l: "length (Seed s) = 48" "length Seed_init = 48"
    using assms rng_okD(1) [OF rng_init_ok] by (simp_all add: rng_inv_def rng_okD(1) rng_init_def)
  have "frame s ! i = frame rng_init ! i" using assms by (simp add: rng_inv_def)
  then have e: "sd_table (Seed s ! i) = sd_table (Seed_init ! i)"
    "sd_boundary (Seed s ! i) = sd_boundary (Seed_init ! i)"
    using l assms(2) by (simp_all add: frame_def rng_init_def)
  show "sd_table (Seed s ! i) = stream_table i" using e by (simp add: stream_table_def)
  show "sd_boundary (Seed s ! i) = int (stream_boundary i)"
    using e rng_okD(4) [OF rng_init_ok assms(2)] by (simp add: stream_boundary_def rng_init_def)
qed

lemma moves_frame: "moves k u s t \<Longrightarrow> frame t = frame s"
  by (intro nth_equalityI) (simp_all add: moves_def frame_def)

lemma moves_inv: "moves k u s t \<Longrightarrow> rng_inv s \<Longrightarrow> rng_inv t"
  by (simp add: rng_inv_def moves_ok moves_frame)

lemma row_start_inv: "rng_inv s \<Longrightarrow> rng_inv (row_start t s)"
  by (auto simp: rng_inv_def rng_ok_def seeds_ok_def row_start_def frame_def comp_def)

lemma row_start_nth:
  "rng_inv s \<Longrightarrow> i < 48 \<Longrightarrow> Seed (row_start t s) ! i = (Seed s ! i)\<lparr>sd_usage := 0\<rparr>"
  by (simp add: row_start_def rng_inv_def rng_okD(1))

lemma map_seeds_Some:
  "(\<And>i. i < length xs \<Longrightarrow> f (xs ! i) = Some (g i)) \<Longrightarrow>
   map_seeds f xs = Some (map g [0..<length xs])"
proof (induction xs arbitrary: g)
  case (Cons x xs)
  have "map_seeds f xs = Some (map (\<lambda>i. g (Suc i)) [0..<length xs])"
    using Cons.prems [of "Suc _"] by (intro Cons.IH) simp
  moreover have "f x = Some (g 0)" using Cons.prems [of 0] by simp
  ultimately show ?case
    by (simp add: map_upt_Suc del: upt_Suc)
qed simp

lemma stop_seed_pad:
  assumes "seed_ok (sd_value e)" "sd_usage e \<le> sd_boundary e" "sd_boundary e - sd_usage e < 2 ^ 31"
  shows "stop_seed False t child e = Some (e\<lparr>sd_value :=
    (NextRand ^^ (if sd_table e = t \<or> sd_table e = child then nat (sd_boundary e - sd_usage e) else 0))
      (sd_value e)\<rparr>)"
proof -
  define n where "n = nat (sd_boundary e - sd_usage e)"
  have "sd_boundary e - sd_usage e = int n" "n < 2 ^ 31" using assms by (simp_all add: n_def)
  with NthElement_forward [OF assms(1), of n] show ?thesis by (simp add: stop_seed_def)
qed

lemma stop_seed_other:
  "sd_table e \<noteq> t \<Longrightarrow> sd_table e \<noteq> child \<Longrightarrow> stop_seed False t child e = Some e"
  by (simp add: stop_seed_def)

text \<open>The padding theorem: if the row drew at most the boundary from each stream of its table, then
  \<open>row_stop\<close> returns and tops every such stream up to its boundary.\<close>

lemma row_stop_advances:
  assumes inv: "rng_inv s" and m: "moves k u (row_start t s) s1"
    and t: "t \<noteq> ORDER_LINE" "t \<noteq> PART_PSUPP" and child: "td_child (tdefs ! nat t) = NONE"
    and b: "\<And>i. i < 48 \<Longrightarrow> pads t i \<Longrightarrow> u i \<le> stream_boundary i"
  shows "\<exists>s2. row_stop False tdefs t s1 = Some s2 \<and>
    advanced (\<lambda>i. k i + pad t i (u i)) s s2 \<and> stray s2 = stray s1"
proof -
  note inv0 = row_start_inv [OF inv, of t]
  note inv1 = moves_inv [OF m inv0]
  note ok0 = rng_inv_ok [OF inv0] and ok1 = rng_inv_ok [OF inv1]
  have l: "length (Seed s1) = 48" by (rule rng_okD(1) [OF ok1])
  have v: "val s1 i = (NextRand ^^ k i) (val s i)" "sd_usage (Seed s1 ! i) = int (u i)" if "i < 48" for i
    using m that rng_okD(1) [OF ok0] by (simp_all add: moves_def row_start_nth [OF inv that])
  define g where "g = (\<lambda>i. (Seed s1 ! i)\<lparr>sd_value := (NextRand ^^ pad t i (u i)) (val s1 i)\<rparr>)"
  have g: "stop_seed False t NONE (Seed s1 ! i) = Some (g i)" if i: "i < 48" for i
  proof (cases "pads t i")
    case True
    have "int (stream_boundary i) - int (u i) < 2 ^ 31"
      using rng_okD(5) [OF ok1 i] frame_nth [OF inv1 i] by simp
    with stop_seed_pad [of "Seed s1 ! i" t NONE] True b [OF i True] show ?thesis
      using rng_okD(2) [OF ok1 i]
      by (simp add: frame_nth [OF inv1 i] v(2) [OF i] g_def pad_def pads_def nat_diff_distrib)
  next
    case False
    then show ?thesis
      using stop_seed_other [of "Seed s1 ! i" t NONE]
      by (simp add: frame_nth [OF inv1 i] g_def pad_def pads_def)
  qed
  define s2 where "s2 = s1\<lparr>Seed := map g [0..<48]\<rparr>"
  have "map_seeds (stop_seed False t NONE) (Seed s1) = Some (map g [0..<48])"
    using map_seeds_Some [of "Seed s1" "stop_seed False t NONE" g] g l by simp
  then have r: "row_stop False tdefs t s1 = Some s2"
    using t child by (simp add: row_stop_def s2_def)
  have nth2: "Seed s2 ! i = g i" if "i < 48" for i using that by (simp add: s2_def)
  have "rng_ok s2"
  proof (rule rng_okI)
    fix i :: nat assume i: "i < 48"
    show "seed_ok (val s2 i) \<and> 0 \<le> sd_usage (Seed s2 ! i) \<and>
        0 \<le> sd_boundary (Seed s2 ! i) \<and> sd_boundary (Seed s2 ! i) < 2 ^ 31"
      using rng_okD [OF ok1] i unfolding nth2 [OF i] by (simp add: g_def NextRand_iter_ok)
  qed (simp add: s2_def)
  moreover have "frame s2 = frame s1"
    using l by (intro nth_equalityI) (simp_all add: frame_def s2_def g_def)
  ultimately have "rng_inv s2" using inv1 by (simp add: rng_inv_def)
  moreover have "val s2 i = (NextRand ^^ (k i + pad t i (u i))) (val s i)" if i: "i < 48" for i
    by (simp add: nth2 [OF i] g_def v(1) [OF i] funpow_add add.commute [of "k i"])
  ultimately show ?thesis using r by (auto simp: advanced_def s2_def)
qed

lemma advanced_trans:
  "advanced k s t \<Longrightarrow> advanced k' t r \<Longrightarrow> advanced (\<lambda>i. k i + k' i) s r"
  by (simp add: advanced_def funpow_add add.commute [of "k _"])

lemma advanced_refl: "rng_inv s \<Longrightarrow> advanced (\<lambda>_. 0) s s"
  by (simp add: advanced_def)

subsection \<open>States that agree on some streams\<close>

definition agree :: "nat set \<Rightarrow> rng \<Rightarrow> rng \<Rightarrow> bool" where
  "agree A s s' \<longleftrightarrow> rng_ok s \<and> rng_ok s' \<and> A \<subseteq> {..<48} \<and> (\<forall>i \<in> A. val s i = val s' i)"

lemma agree_moves:
  assumes "agree A s s'" "moves k u s t" "moves k' u' s' t'" "\<And>i. i \<in> A \<Longrightarrow> k i = k' i"
  shows "agree A t t'"
proof -
  have ok: "rng_ok s" "rng_ok s'" "A \<subseteq> {..<48}" using assms(1) by (simp_all add: agree_def)
  have "val t i = val t' i" if i: "i \<in> A" for i
  proof -
    have "i < 48" using ok(3) i by blast
    then show ?thesis
      using moves_value [OF assms(2) ok(1)] moves_value [OF assms(3) ok(2)] assms(1,4) i
      by (simp add: agree_def)
  qed
  then show ?thesis using ok moves_ok [OF assms(2)] moves_ok [OF assms(3)] by (simp add: agree_def)
qed

lemma dss_random_agree:
  assumes "agree A s s'"
  shows "agree A (snd (dss_random lo hi c s)) (snd (dss_random lo hi c s'))"
  using assms by (intro agree_moves [OF assms dss_random_moves dss_random_moves]) (simp_all add: agree_def)

lemma dss_random_same:
  "agree A s s' \<Longrightarrow> clip_stream c \<in> A \<Longrightarrow> fst (dss_random lo hi c s) = fst (dss_random lo hi c s')"
  by (simp add: dss_random_value agree_def)

end
