(* ===== verification/Speed_Seed.thy ===== *)
theory Speed_Seed
  imports Rnd "HOL-Library.Monad_Syntax"
begin

text \<open>
  The seed routines of \<open>speed_seed.c\<close> that skip rows without generating them (\<open>sd_part\<close>,
  \<open>sd_line\<close>, \<open>sd_order\<close>, \<open>sd_psupp\<close>, \<open>sd_cust\<close>, \<open>sd_supp\<close>, \<open>fake_a_rnd\<close>), with the number of
  steps each stream makes in them.  A routine is the list of its \<open>ADVANCE_STREAM\<close> calls in the
  order of the code; no call changes a boundary, so \<open>Seed[sd].boundary\<close> is read at the start.

  The locale \<open>row_generator\<close> is the contract of a table's generator (a row moves every stream by a
  fixed rate), \<open>seekable\<close> adds a seed routine: together they give that a chunk generated after
  skipping is the corresponding part of the whole table.
\<close>

subsection \<open>The seed routines\<close>

definition advance_stream :: "int \<Rightarrow> int \<Rightarrow> rng \<Rightarrow> rng option" where
  "advance_stream stream_id num_calls s =
     map_option (\<lambda>v. upd_seed (nat stream_id) (\<lambda>e. e\<lparr>sd_value := v\<rparr>) s)
       (NthElement num_calls (sd_value (Seed s ! nat stream_id)))"

fun advance_all :: "(int \<times> int) list \<Rightarrow> rng \<Rightarrow> rng option" where
  "advance_all [] s = Some s"
| "advance_all ((sd, n) # calls) s = do { s \<leftarrow> advance_stream sd n s; advance_all calls s }"

definition fake_v_str :: "rng \<Rightarrow> int \<Rightarrow> int \<Rightarrow> int \<times> int" where
  "fake_v_str s sd cnt = (sd, sd_boundary (Seed s ! nat sd) * cnt)"

definition fake_a_rnd :: "int \<Rightarrow> int \<Rightarrow> int \<Rightarrow> rng \<Rightarrow> rng option" where
  "fake_a_rnd mn mx column s =
     (let (len, s) = dss_random mn mx column s;
          itcount = (if len smod 5 = 0 then len sdiv 5 else len sdiv 5 + 1)
      in map_option (\<lambda>v. upd_seed (nat column) (\<lambda>e. e\<lparr>sd_usage := v\<rparr>) s)
           (NthElement itcount (sd_usage (Seed s ! nat column))))"

definition sd_part :: "int \<Rightarrow> int \<Rightarrow> rng \<Rightarrow> rng option" where
  "sd_part child skip_count s = advance_all
     (map (\<lambda>i. (i, skip_count)) [P_MFG_SD..P_CNTR_SD] @
      [fake_v_str s P_CMNT_SD skip_count, (P_NAME_SD, skip_count * 92)]) s"

definition sd_line :: "int \<Rightarrow> int \<Rightarrow> rng \<Rightarrow> rng option" where
  "sd_line child skip_count s = advance_all
     (concat (replicate (nat O_LCNT_MAX) (map (\<lambda>i. (i, skip_count)) [L_QTY_SD..L_RFLG_SD])) @
      [fake_v_str s L_CMNT_SD skip_count] @
      (if child = 1 then [(O_ODATE_SD, skip_count), (O_LCNT_SD, skip_count)] else [])) s"

definition sd_order :: "int \<Rightarrow> int \<Rightarrow> rng \<Rightarrow> rng option" where
  "sd_order child skip_count s = advance_all
     [(O_LCNT_SD, skip_count), (O_CKEY_SD, skip_count), fake_v_str s O_CMNT_SD skip_count,
      (O_SUPP_SD, skip_count), (O_CLRK_SD, skip_count), (O_PRIO_SD, skip_count),
      (O_ODATE_SD, skip_count)] s"

definition sd_psupp :: "int \<Rightarrow> int \<Rightarrow> rng \<Rightarrow> rng option" where
  "sd_psupp child skip_count s = advance_all
     (concat (replicate (nat SUPP_PER_PART) [(PS_QTY_SD, skip_count), (PS_SCST_SD, skip_count)]) @
      [fake_v_str s PS_CMNT_SD skip_count]) s"

definition sd_cust :: "int \<Rightarrow> int \<Rightarrow> rng \<Rightarrow> rng option" where
  "sd_cust child skip_count s = advance_all
     [fake_v_str s C_ADDR_SD skip_count, fake_v_str s C_CMNT_SD skip_count,
      (C_NTRG_SD, skip_count), (C_PHNE_SD, 3 * skip_count), (C_ABAL_SD, skip_count),
      (C_MSEG_SD, skip_count)] s"

definition sd_supp :: "int \<Rightarrow> int \<Rightarrow> rng \<Rightarrow> rng option" where
  "sd_supp child skip_count s = advance_all
     [(S_NTRG_SD, skip_count), (S_PHNE_SD, 3 * skip_count), (S_ABAL_SD, skip_count),
      fake_v_str s S_ADDR_SD skip_count, fake_v_str s S_CMNT_SD skip_count,
      (BBB_CMNT_SD, skip_count), (BBB_JNK_SD, skip_count), (BBB_OFFSET_SD, skip_count),
      (BBB_TYPE_SD, skip_count)] s"

subsection \<open>What a list of calls does\<close>

text \<open>The steps of stream \<open>i\<close> in a list of calls: \<open>NthElement\<close> keeps 31 bits of each count.\<close>

definition call_steps :: "(int \<times> int) list \<Rightarrow> nat \<Rightarrow> nat" where
  "call_steps calls i = (\<Sum>(sd, n) \<leftarrow> calls. if sd = int i then nat n mod 2 ^ 31 else 0)"

definition calls_ok :: "(int \<times> int) list \<Rightarrow> bool" where
  "calls_ok calls \<longleftrightarrow> (\<forall>(sd, n) \<in> set calls. 0 \<le> sd \<and> sd < 48 \<and> 0 \<le> n)"

lemma advance_stream_advances:
  assumes inv: "rng_inv s" and sd: "0 \<le> sd" "sd < 48" and n: "0 \<le> n"
  shows "\<exists>t. advance_stream sd n s = Some t \<and>
    advanced (\<lambda>i. if sd = int i then nat n mod 2 ^ 31 else 0) s t"
proof -
  note ok = rng_inv_ok [OF inv]
  define j where "j = nat sd"
  have j: "j < 48" "sd = int j" "j < length (Seed s)"
    using sd rng_okD(1) [OF ok] by (simp_all add: j_def)
  define v where "v = (NextRand ^^ (nat n mod 2 ^ 31)) (val s j)"
  define t where "t = upd_seed j (\<lambda>e. e\<lparr>sd_value := v\<rparr>) s"
  have "NthElement n (val s j) = Some v"
    using NthElement_low_bits [OF rng_okD(2) [OF ok j(1)], of "nat n"] n by (simp add: v_def)
  then have "advance_stream sd n s = Some t"
    by (simp add: advance_stream_def t_def j_def)
  moreover have "rng_ok t"
    using rng_okD [OF ok] j(1,3)
    by (intro rng_okI) (auto simp: t_def upd_seed_def nth_list_update v_def NextRand_iter_ok)
  moreover have "frame t = frame s"
    using j(3) by (simp add: frame_def t_def upd_seed_def map_update list_update_same_conv)
  ultimately show ?thesis
    using inv j rng_okD(1) [OF ok]
    by (auto simp: advanced_def rng_inv_def t_def upd_seed_def nth_list_update v_def)
qed

lemma advance_all_advances:
  "rng_inv s \<Longrightarrow> calls_ok calls \<Longrightarrow>
   \<exists>t. advance_all calls s = Some t \<and> advanced (call_steps calls) s t"
proof (induction calls arbitrary: s)
  case Nil
  then show ?case by (simp add: advanced_refl call_steps_def [abs_def])
next
  case (Cons call calls)
  obtain sd n where c: "call = (sd, n)" by fastforce
  with Cons.prems have "0 \<le> sd" "sd < 48" "0 \<le> n" "calls_ok calls" by (simp_all add: calls_ok_def)
  then obtain t where t: "advance_stream sd n s = Some t"
    "advanced (\<lambda>i. if sd = int i then nat n mod 2 ^ 31 else 0) s t"
    using advance_stream_advances [OF Cons.prems(1)] by blast
  from t(2) have "rng_inv t" by (simp add: advanced_def)
  with Cons.IH \<open>calls_ok calls\<close> obtain r where r: "advance_all calls t = Some r"
    "advanced (call_steps calls) t r" by blast
  have "call_steps (call # calls) = (\<lambda>i. (if sd = int i then nat n mod 2 ^ 31 else 0) + call_steps calls i)"
    by (simp add: c call_steps_def [abs_def])
  with advanced_trans [OF t(2) r(2)] t(1) r(1) show ?case by (auto simp: c)
qed

subsection \<open>Generators with a fixed rate per row\<close>

text \<open>The skeleton of the row loop of \<open>gen_tbl\<close>: the rows and the final state.\<close>

fun gen_rows :: "(int \<Rightarrow> rng \<Rightarrow> ('row \<times> rng) option) \<Rightarrow> tdef list \<Rightarrow> int \<Rightarrow> int \<Rightarrow> nat \<Rightarrow> rng \<Rightarrow>
    ('row list \<times> rng) option" where
  "gen_rows mk tdefs t i 0 s = Some ([], s)"
| "gen_rows mk tdefs t i (Suc n) s = do {
     (r, s) \<leftarrow> mk i (row_start t s);
     s \<leftarrow> row_stop False tdefs t s;
     (rs, s) \<leftarrow> gen_rows mk tdefs t (i + 1) n s;
     Some (r # rs, s) }"

locale row_generator =
  fixes mk :: "int \<Rightarrow> rng \<Rightarrow> ('row \<times> rng) option"
    and tdefs :: "tdef list" and t :: int and rate :: "nat \<Rightarrow> nat"
  assumes row_advances: "rng_inv s \<Longrightarrow> \<exists>r s1 s2. mk i (row_start t s) = Some (r, s1) \<and>
      row_stop False tdefs t s1 = Some s2 \<and> advanced rate s s2"
begin

text \<open>The loop returns \<open>n\<close> rows, and every stream has moved by \<open>n\<close> times its rate.\<close>

lemma gen_rows_advances:
  "rng_inv s \<Longrightarrow> \<exists>rs s'. gen_rows mk tdefs t i n s = Some (rs, s') \<and> length rs = n \<and>
     advanced (\<lambda>j. n * rate j) s s'"
proof (induction n arbitrary: i s)
  case 0
  then show ?case by (simp add: advanced_refl)
next
  case (Suc n)
  obtain r s1 s2 where r: "mk i (row_start t s) = Some (r, s1)" "row_stop False tdefs t s1 = Some s2"
    "advanced rate s s2" using row_advances [OF Suc.prems] by blast
  from r(3) have "rng_inv s2" by (simp add: advanced_def)
  with Suc.IH obtain rs s3 where rs: "gen_rows mk tdefs t (i + 1) n s2 = Some (rs, s3)"
    "length rs = n" "advanced (\<lambda>j. n * rate j) s2 s3" by blast
  then show ?case using r advanced_trans [OF r(3) rs(3)] by simp
qed

lemma gen_rows_append:
  assumes "rng_inv s"
  shows "gen_rows mk tdefs t i (n + m) s = do {
      (rs, s) \<leftarrow> gen_rows mk tdefs t i n s;
      (rs', s) \<leftarrow> gen_rows mk tdefs t (i + int n) m s;
      Some (rs @ rs', s) }"
  using assms
proof (induction n arbitrary: i s)
  case 0
  then show ?case by (auto split: Option.bind_split)
next
  case (Suc n)
  obtain r s1 s2 where r: "mk i (row_start t s) = Some (r, s1)" "row_stop False tdefs t s1 = Some s2"
    "advanced rate s s2" using row_advances [OF Suc.prems] by blast
  from r(3) have "rng_inv s2" by (simp add: advanced_def)
  with Suc.IH [of s2 "i + 1"] r(1,2) show ?case
    by (auto simp: add.assoc split: Option.bind_split)
qed

end

text \<open>A generator whose observable columns, \<open>view\<close>, depend on the streams in \<open>streams\<close> only, with a
  seed routine that moves these streams as the rows would.\<close>

locale seekable = row_generator mk tdefs t rate
  for mk :: "int \<Rightarrow> rng \<Rightarrow> ('row \<times> rng) option" and tdefs t rate +
  fixes streams :: "nat set" and view :: "'row \<Rightarrow> 'col" and skip :: "int \<Rightarrow> rng \<Rightarrow> rng option"
    and limit :: nat
  assumes streams_range: "i \<in> streams \<Longrightarrow> i < 48"
    and view_local: "rng_inv s \<Longrightarrow> rng_inv s' \<Longrightarrow> (\<And>i. i \<in> streams \<Longrightarrow> val s i = val s' i) \<Longrightarrow>
      map_option (view \<circ> fst) (mk j s) = map_option (view \<circ> fst) (mk j s')"
    and skip_advances: "rng_inv s \<Longrightarrow> n < limit \<Longrightarrow> \<exists>s'. skip (int n) s = Some s' \<and> rng_inv s' \<and>
      (\<forall>i \<in> streams. val s' i = (NextRand ^^ (n * rate i)) (val s i))"
begin

lemma gen_rows_view:
  "rng_inv s \<Longrightarrow> rng_inv s' \<Longrightarrow> (\<And>i. i \<in> streams \<Longrightarrow> val s i = val s' i) \<Longrightarrow>
   map_option (map view \<circ> fst) (gen_rows mk tdefs t j n s) =
   map_option (map view \<circ> fst) (gen_rows mk tdefs t j n s')"
proof (induction n arbitrary: j s s')
  case (Suc n)
  obtain r s1 s2 where r: "mk j (row_start t s) = Some (r, s1)" "row_stop False tdefs t s1 = Some s2"
    "advanced rate s s2" using row_advances [OF Suc.prems(1)] by blast
  obtain r' s1' s2' where r': "mk j (row_start t s') = Some (r', s1')"
    "row_stop False tdefs t s1' = Some s2'" "advanced rate s' s2'"
    using row_advances [OF Suc.prems(2)] by blast
  have same: "val (row_start t s) i = val (row_start t s') i" if "i \<in> streams" for i
    using Suc.prems that streams_range [OF that] by (simp add: row_start_nth)
  have v: "view r = view r'"
    using view_local [OF row_start_inv [OF Suc.prems(1)] row_start_inv [OF Suc.prems(2)] same, of j]
      r(1) r'(1) by simp
  have "rng_inv s2" "rng_inv s2'" "\<And>i. i \<in> streams \<Longrightarrow> val s2 i = val s2' i"
    using r(3) r'(3) Suc.prems(3) streams_range by (simp_all add: advanced_def)
  then have IH: "map_option (map view \<circ> fst) (gen_rows mk tdefs t (j + 1) n s2) =
      map_option (map view \<circ> fst) (gen_rows mk tdefs t (j + 1) n s2')" by (rule Suc.IH)
  obtain rs s3 where rs: "gen_rows mk tdefs t (j + 1) n s2 = Some (rs, s3)"
    using gen_rows_advances [OF \<open>rng_inv s2\<close>] by blast
  obtain rs' s3' where rs': "gen_rows mk tdefs t (j + 1) n s2' = Some (rs', s3')"
    using gen_rows_advances [OF \<open>rng_inv s2'\<close>] by blast
  show ?case using r r' v rs rs' IH by simp
qed simp

text \<open>Skipping \<open>n\<close> rows and generating \<open>m\<close> gives the rows \<open>n..n+m-1\<close> of the whole table.\<close>

lemma skip_then_generate:
  assumes inv: "rng_inv s" and n: "n < limit"
  shows "\<exists>s' whole chunk sw sc. skip (int n) s = Some s' \<and>
    gen_rows mk tdefs t i (n + m) s = Some (whole, sw) \<and>
    gen_rows mk tdefs t (i + int n) m s' = Some (chunk, sc) \<and>
    map view chunk = map view (drop n whole) \<and> length chunk = m"
proof -
  obtain s' where s': "skip (int n) s = Some s'" "rng_inv s'"
    "\<forall>i \<in> streams. val s' i = (NextRand ^^ (n * rate i)) (val s i)"
    using skip_advances [OF inv n] by blast
  obtain rs s1 where rs: "gen_rows mk tdefs t i n s = Some (rs, s1)" "length rs = n"
    "advanced (\<lambda>j. n * rate j) s s1" using gen_rows_advances [OF inv] by blast
  from rs(3) have inv1: "rng_inv s1" by (simp add: advanced_def)
  obtain rs' s2 where rs': "gen_rows mk tdefs t (i + int n) m s1 = Some (rs', s2)"
    using gen_rows_advances [OF inv1] by blast
  obtain ch sc where ch: "gen_rows mk tdefs t (i + int n) m s' = Some (ch, sc)" "length ch = m"
    using gen_rows_advances [OF s'(2)] by blast
  have "\<And>j. j \<in> streams \<Longrightarrow> val s' j = val s1 j"
    using s'(3) rs(3) streams_range by (simp add: advanced_def)
  from gen_rows_view [OF s'(2) inv1 this, of "i + int n" m] ch rs'
  have "map view ch = map view rs'" by simp
  then show ?thesis using s'(1) ch rs(1,2) rs' gen_rows_append [OF inv, of i n m] by simp
qed

end

end
