(* ===== verification/Permute.thy ===== *)
theory Permute
  imports Speed_Seed
begin

text \<open>
  \<open>permute.c\<close> and \<open>agg_str\<close> of \<open>bm_utils.c\<close>: a permutation drawn from a stream and read off one
  entry per call.  \<open>permute\<close> keeps the array and the read position in static variables, \<open>permute_dist\<close>
  the distribution; the array of a distribution is overwritten whenever \<open>permute\<close> is given it, so the
  model keeps it in the static state \<open>perm\<close> only.  Shown: the array is a permutation of the
  indices after every call, successive calls enumerate it, \<open>agg_str\<close> joins distinct members.
\<close>

record perm =
  source :: int
  pset :: "int list"
  pdist :: "distribution option"

definition permute_step :: "int \<Rightarrow> int \<Rightarrow> int list \<times> rng \<Rightarrow> nat \<Rightarrow> int list \<times> rng" where
  "permute_step c stream = (\<lambda>(a, s) i.
     let (source, s) = dss_random 0 (c - 1) stream s;
         temp = a ! nat source;
         a = a[nat source := a ! i];
         a = a[i := temp]
     in (a, s))"

text \<open>\<open>permute(a, c, s)\<close>: the argument is \<open>None\<close> for \<open>NULL\<close>; the result is the entry the returned
  pointer points to.\<close>

definition permute :: "int list option \<Rightarrow> int \<Rightarrow> int \<Rightarrow> perm \<Rightarrow> rng \<Rightarrow> int \<times> perm \<times> rng" where
  "permute a c stream p s =
     (let (p, s) = (case a of
             Some a \<Rightarrow>
               (let a = map int [0..<nat c] @ drop (nat c) a;
                    (a, s) = foldl (permute_step c stream) (a, s) [0..<nat c]
                in (p\<lparr>pset := a, source := (if c > 0 then 0 else source p)\<rparr>, s))
           | None \<Rightarrow> (p\<lparr>source := source p + 1\<rparr>, s));
          p = (if source p \<ge> c then p\<lparr>source := source p - c\<rparr> else p)
      in (pset p ! nat (source p), p, s))"

text \<open>\<open>None\<close>: \<open>INTERNAL_ERROR("Bad call to permute_dist")\<close>.\<close>

definition permute_dist :: "distribution option \<Rightarrow> int \<Rightarrow> perm \<Rightarrow> rng \<Rightarrow> (int \<times> perm \<times> rng) option" where
  "permute_dist d stream p s =
     (case d of
        Some d \<Rightarrow>
          (let a = (case dpermute d of None \<Rightarrow> map int [0..<nat (dcount d)] | Some a \<Rightarrow> a)
           in Some (permute (Some a) (dcount d) stream (p\<lparr>pdist := Some d\<rparr>) s))
      | None \<Rightarrow> (case pdist p of
          Some di \<Rightarrow> Some (permute None (dcount di) stream p s)
        | None \<Rightarrow> None))"

definition DIST_MEMBER :: "distribution \<Rightarrow> int \<Rightarrow> string option" where
  "DIST_MEMBER d i = (if 0 \<le> i \<and> i < int (length (dlist d)) then Some (sm_text (dlist d ! nat i)) else None)"

text \<open>The loop of \<open>agg_str\<close>, \<open>count - i\<close> iterations left.\<close>

fun agg_loop :: "nat \<Rightarrow> distribution \<Rightarrow> distribution option \<Rightarrow> int \<Rightarrow> string \<Rightarrow> perm \<Rightarrow> rng \<Rightarrow>
    (string \<times> perm \<times> rng) option" where
  "agg_loop 0 set0 d col dest p s = Some (dest, p, s)"
| "agg_loop (Suc n) set0 d col dest p s = do {
     (k, p, s) \<leftarrow> permute_dist d col p s;
     w \<leftarrow> DIST_MEMBER set0 k;
     agg_loop n set0 None col (dest @ w @ '' '') p s }"

definition agg_str :: "distribution \<Rightarrow> int \<Rightarrow> int \<Rightarrow> perm \<Rightarrow> rng \<Rightarrow> (string \<times> perm \<times> rng) option" where
  "agg_str set0 cnt col p s = do {
     (dest, p, s) \<leftarrow> agg_loop (nat cnt) set0 (Some set0) col '''' p s;
     Some (butlast dest, p, s) }"

subsection \<open>The array is a permutation\<close>

text \<open>The shuffled indices and the state after the draws.\<close>

definition shuffle :: "nat \<Rightarrow> int \<Rightarrow> rng \<Rightarrow> int list \<times> rng" where
  "shuffle c stream s = foldl (permute_step (int c) stream) (map int [0..<c], s) [0..<c]"

lemma permute_step_perm:
  assumes s: "rng_ok s" and c: "0 < c" "c < 2 ^ 31" "length a = c" and i: "i < c"
    and st: "0 \<le> stream" "stream \<le> 47"
  obtains a' s' where "permute_step (int c) stream (a, s) i = (a', s')" "mset a' = mset a"
    "rng_ok s'" "moves (one_at (nat stream)) (one_at (nat stream)) s s'"
proof -
  obtain k s' where k: "dss_random 0 (int c - 1) stream s = (k, s')" by fastforce
  have "0 \<le> k" "k \<le> int c - 1"
    using dss_random_bounds [OF s, of 0 "int c - 1" stream] c by (simp_all add: k)
  then have kc: "nat k < c" using c(1) by (simp add: nat_less_iff)
  show thesis
  proof
    show "permute_step (int c) stream (a, s) i = (a[nat k := a ! i, i := a ! nat k], s')"
      by (simp add: permute_step_def k)
    show "mset (a[nat k := a ! i, i := a ! nat k]) = mset a"
      using kc i c(3) by (simp add: mset_swap)
    show "rng_ok s'" using dss_random_ok [OF s, of 0 "int c - 1" stream] by (simp add: k)
    show "moves (one_at (nat stream)) (one_at (nat stream)) s s'"
      using dss_random_moves_in [OF s st, of 0 "int c - 1"] by (simp add: k)
  qed
qed

lemma shuffle_loop:
  assumes "0 < c" "c < 2 ^ 31" "0 \<le> stream" "stream \<le> 47"
  shows "rng_ok s \<Longrightarrow> length a = c \<Longrightarrow> \<forall>i \<in> set is. i < c \<Longrightarrow>
    \<exists>a' s'. foldl (permute_step (int c) stream) (a, s) is = (a', s') \<and> mset a' = mset a \<and>
      moves (\<lambda>i. length is * one_at (nat stream) i) (\<lambda>i. length is * one_at (nat stream) i) s s'"
proof (induction "is" arbitrary: a s)
  case Nil
  then show ?case by (simp add: moves_refl)
next
  case (Cons j js)
  have j: "j < c" using Cons.prems(3) by simp
  obtain a1 s1 where 1: "permute_step (int c) stream (a, s) j = (a1, s1)" "mset a1 = mset a"
    "rng_ok s1" "moves (one_at (nat stream)) (one_at (nat stream)) s s1"
    by (rule permute_step_perm [OF Cons.prems(1) assms(1,2) Cons.prems(2) j assms(3,4)])
  have "length a1 = c" using mset_eq_length [OF 1(2)] Cons.prems(2) by simp
  with Cons.IH [OF 1(3), of a1] Cons.prems(3) obtain a2 s2 where
    2: "foldl (permute_step (int c) stream) (a1, s1) js = (a2, s2)" "mset a2 = mset a1"
      "moves (\<lambda>i. length js * one_at (nat stream) i) (\<lambda>i. length js * one_at (nat stream) i) s1 s2"
    by (metis list.set_intros(2))
  show ?case using 1 2 moves_trans [OF 1(4) 2(3)] by auto
qed

lemma shuffle_perm:
  assumes "rng_ok s" "0 < c" "c < 2 ^ 31" "0 \<le> stream" "stream \<le> 47"
  shows "mset (fst (shuffle c stream s)) = mset (map int [0..<c])"
    and "moves (\<lambda>i. c * one_at (nat stream) i) (\<lambda>i. c * one_at (nat stream) i) s (snd (shuffle c stream s))"
  using shuffle_loop [OF assms(2,3,4,5,1), of "map int [0..<c]" "[0..<c]"]
  by (auto simp: shuffle_def)

lemma shuffle_props:
  assumes "rng_ok s" "0 < c" "c < 2 ^ 31" "0 \<le> stream" "stream \<le> 47"
  shows "length (fst (shuffle c stream s)) = c" "distinct (fst (shuffle c stream s))"
    "set (fst (shuffle c stream s)) = {0..<int c}"
proof -
  note m = shuffle_perm(1) [OF assms]
  show "length (fst (shuffle c stream s)) = c" using mset_eq_length [OF m] by simp
  have "distinct (map int [0..<c])" by (simp add: distinct_map)
  then show "distinct (fst (shuffle c stream s))" using mset_eq_imp_distinct_iff [OF m] by simp
  have "int ` {0..<c} = {0..<int c}" by (simp add: image_int_atLeastLessThan)
  then show "set (fst (shuffle c stream s)) = {0..<int c}"
    using mset_eq_setD [OF m] by (simp del: mset_map)
qed

lemma permute_first:
  assumes "0 < c" "length a = c"
  shows "permute (Some a) (int c) stream p s =
    (fst (shuffle c stream s) ! 0, p\<lparr>pset := fst (shuffle c stream s), source := 0\<rparr>, snd (shuffle c stream s))"
proof -
  obtain a' s' where "foldl (permute_step (int c) stream) (map int [0..<c], s) [0..<c] = (a', s')"
    by fastforce
  with assms show ?thesis by (simp add: permute_def shuffle_def)
qed

lemma permute_next:
  assumes "source p = int j" "j + 1 < c"
  shows "permute None (int c) stream p s = (pset p ! (j + 1), p\<lparr>source := int (j + 1)\<rparr>, s)"
proof -
  have "nat (int j + 1) = j + 1" by simp
  with assms show ?thesis by (simp add: permute_def Let_def)
qed

subsection \<open>\<open>agg_str\<close> joins distinct members\<close>

text \<open>A distribution whose array has \<open>count\<close> entries.\<close>

definition dist_sized :: "distribution \<Rightarrow> bool" where
  "dist_sized d \<longleftrightarrow> 0 < dcount d \<and> dcount d < 2 ^ 31 \<and> length (dlist d) = nat (dcount d) \<and> dpermute d = None"

definition member_words :: "distribution \<Rightarrow> int list \<Rightarrow> string list" where
  "member_words d ks = map (\<lambda>k. sm_text (dlist d ! nat k)) ks"

lemma agg_loop_rest:
  assumes "dist_sized d" "length a = nat (dcount d)" "set a \<subseteq> {0..<dcount d}"
  shows "pset p = a \<Longrightarrow> pdist p = Some d \<Longrightarrow> source p = int j \<Longrightarrow> j + n < length a \<Longrightarrow>
    agg_loop n d None col dest p s =
      Some (dest @ concat (map (\<lambda>w. w @ '' '') (member_words d (take n (drop (Suc j) a)))),
            p\<lparr>source := int (j + n)\<rparr>, s)"
proof (induction n arbitrary: j dest p)
  case (Suc n)
  have c: "dcount d = int (length a)" using assms by (simp add: dist_sized_def)
  have "a ! (j + 1) \<in> set a" using Suc.prems(4) by (intro nth_mem) simp
  with assms(3) have k: "a ! (j + 1) \<in> {0..<dcount d}" by blast
  have perm: "permute_dist None col p s = Some (a ! (j + 1), p\<lparr>source := int (j + 1)\<rparr>, s)"
    using permute_next [OF Suc.prems(3), of "length a" col s] Suc.prems
    by (simp add: permute_dist_def c)
  have mem: "DIST_MEMBER d (a ! (j + 1)) = Some (sm_text (dlist d ! nat (a ! (j + 1))))"
    using k assms(1) by (simp add: DIST_MEMBER_def dist_sized_def)
  have drop: "drop (Suc j) a = a ! (j + 1) # drop (Suc (Suc j)) a"
    using Suc.prems(4) by (simp add: Cons_nth_drop_Suc)
  show ?case
    using Suc.IH [of "p\<lparr>source := int (j + 1)\<rparr>" "j + 1"] Suc.prems perm mem
    by (simp add: drop member_words_def)
qed (simp add: member_words_def)

lemma agg_str_words:
  assumes d: "dist_sized d" and s: "rng_ok s" and st: "0 \<le> col" "col \<le> 47"
    and n: "0 < n" "n \<le> nat (dcount d)"
  defines "a \<equiv> fst (shuffle (nat (dcount d)) col s)"
  shows "\<exists>p'. agg_str d (int n) col p s =
    Some (butlast (concat (map (\<lambda>w. w @ '' '') (member_words d (take n a)))), p',
          snd (shuffle (nat (dcount d)) col s))"
proof -
  have c: "0 < nat (dcount d)" "nat (dcount d) < 2 ^ 31" "int (nat (dcount d)) = dcount d"
    using d by (auto simp: dist_sized_def nat_less_iff)
  note sh = shuffle_props [OF s c(1,2) st, folded a_def]
  obtain m where m: "n = Suc m" using n(1) by (cases n) auto
  have a: "a = a ! 0 # drop 1 a" using sh(1) c(1) by (cases a) simp_all
  have k: "a ! 0 \<in> {0..<dcount d}" using sh(3) c nth_mem [of 0 a] sh(1) by simp
  let ?p = "p\<lparr>pdist := Some d, pset := a, source := 0\<rparr>"
  let ?w = "\<lambda>k. sm_text (dlist d ! nat k)"
  have "permute_dist (Some d) col p s =
      Some (permute (Some (map int [0..<nat (dcount d)])) (int (nat (dcount d))) col (p\<lparr>pdist := Some d\<rparr>) s)"
    using d by (simp add: permute_dist_def c(3) dist_sized_def)
  also have "\<dots> = Some (a ! 0, ?p, snd (shuffle (nat (dcount d)) col s))"
    by (subst permute_first [OF c(1)]) (simp_all add: a_def)
  finally have first: "permute_dist (Some d) col p s = Some (a ! 0, ?p, snd (shuffle (nat (dcount d)) col s))" .
  have mem: "DIST_MEMBER d (a ! 0) = Some (?w (a ! 0))"
    using k d by (simp add: DIST_MEMBER_def dist_sized_def)
  have take: "member_words d (take n a) = ?w (a ! 0) # member_words d (take m (drop (Suc 0) a))"
    by (subst a) (simp add: m member_words_def)
  have "agg_loop m d None col (?w (a ! 0) @ '' '') ?p (snd (shuffle (nat (dcount d)) col s)) =
      Some ((?w (a ! 0) @ '' '') @ concat (map (\<lambda>w. w @ '' '') (member_words d (take m (drop (Suc 0) a)))),
        ?p\<lparr>source := int (0 + m)\<rparr>, snd (shuffle (nat (dcount d)) col s))"
    using sh n c by (intro agg_loop_rest [OF d]) (simp_all add: m)
  then show ?thesis
    unfolding agg_str_def nat_int m by (simp add: first mem take [unfolded m])
qed

end
