(* ===== verification/Bm_Utils.thy ===== *)
theory Bm_Utils
  imports Permute
begin

text \<open>
  The string generators of \<open>bm_utils.c\<close>: \<open>a_rnd\<close> (random alphanumeric strings), \<open>pick_str\<close> (a
  weighted choice from a distribution), \<open>e_str\<close>, and the case-insensitive comparisons.  Shown: the
  strings have the drawn length over the 64-character alphabet, the number of draws is what the row
  padding allows for, and \<open>pick_str\<close> picks the least entry whose cumulative weight reaches the draw.
\<close>

definition alpha_num :: string where
  "alpha_num = ''0123456789abcdefghijklmnopqrstuvwxyz ABCDEFGHIJKLMNOPQRSTUVWXYZ,''"

text \<open>The loop of \<open>a_rnd\<close> with \<open>n\<close> characters to go, at index \<open>i\<close>.\<close>

fun a_rnd_loop :: "nat \<Rightarrow> nat \<Rightarrow> int \<Rightarrow> int \<Rightarrow> rng \<Rightarrow> string \<times> rng" where
  "a_rnd_loop 0 i char_int column s = ([], s)"
| "a_rnd_loop (Suc n) i char_int column s =
     (let (char_int, s) = (if i mod 5 = 0 then dss_random 0 MAX_LONG column s else (char_int, s));
          c = alpha_num ! nat (char_int AND 63);
          (dest, s) = a_rnd_loop n (Suc i) (drop_bit 6 char_int) column s
      in (c # dest, s))"

definition a_rnd :: "int \<Rightarrow> int \<Rightarrow> int \<Rightarrow> rng \<Rightarrow> int \<times> string \<times> rng" where
  "a_rnd mn mx column s =
     (let (len, s) = dss_random mn mx column s;
          (dest, s) = a_rnd_loop (nat len) 0 0 column s
      in (c_int len, dest, s))"

text \<open>\<open>while (s->list[i].weight < j) i++\<close>; \<open>None\<close>: the loop runs off the list.\<close>

fun pick_index :: "set_member list \<Rightarrow> int \<Rightarrow> nat option" where
  "pick_index [] j = None"
| "pick_index (m # ms) j = (if weight m < j then map_option Suc (pick_index ms j) else Some 0)"

definition pick_str :: "distribution \<Rightarrow> int \<Rightarrow> rng \<Rightarrow> (nat \<times> string \<times> rng) option" where
  "pick_str d c s =
     (if 0 < dcount d \<and> dcount d \<le> int (length (dlist d))
      then let (j, s) = dss_random 1 (weight (dlist d ! nat (dcount d - 1))) c s
           in map_option (\<lambda>i. (i, sm_text (dlist d ! i), s)) (pick_index (dlist d) j)
      else None)"

text \<open>\<open>e_str\<close>: \<open>None\<close> when the embedded string would be written outside the noise.\<close>

definition e_str :: "distribution \<Rightarrow> int \<Rightarrow> int \<Rightarrow> int \<Rightarrow> rng \<Rightarrow> (string \<times> rng) option" where
  "e_str d mn mx stream s =
     (let (_, dest, s) = a_rnd mn mx stream s
      in do {
        (_, strtmp, s) \<leftarrow> pick_str d stream s;
        let len = int (length strtmp);
        let (loc, s) = dss_random 0 (int (length dest) - 1 - len) stream s;
        if 0 \<le> loc \<and> loc + len \<le> int (length dest)
        then Some (take (nat loc) dest @ strtmp @ drop (nat (loc + len)) dest, s)
        else None })"

text \<open>\<open>tolower\<close> of the C locale, on the code of a character.\<close>

definition tolower :: "char \<Rightarrow> nat" where
  "tolower c = (if 65 \<le> (of_char c :: nat) \<and> (of_char c :: nat) \<le> 90 then of_char c + 32 else of_char c)"

definition cmp_sign :: "nat \<Rightarrow> nat \<Rightarrow> int" where
  "cmp_sign a b = (if a < b then - 1 else 1)"

text \<open>A C string is the list of its characters; the terminating \<open>NUL\<close> compares as 0.\<close>

definition head_low :: "string \<Rightarrow> nat" where
  "head_low s = (case s of [] \<Rightarrow> 0 | c # _ \<Rightarrow> tolower c)"

fun dssncasecmp :: "string \<Rightarrow> string \<Rightarrow> nat \<Rightarrow> int" where
  "dssncasecmp s1 s2 0 = 0"
| "dssncasecmp s1 s2 (Suc n) =
     (if head_low s1 \<noteq> head_low s2 then cmp_sign (head_low s1) (head_low s2)
      else if s1 = [] then 0 else dssncasecmp (tl s1) (tl s2) n)"

fun dsscasecmp :: "string \<Rightarrow> string \<Rightarrow> int" where
  "dsscasecmp [] s2 = (if s2 = [] then 0 else cmp_sign 0 (head_low s2))"
| "dsscasecmp (c # s1) s2 =
     (if tolower c = head_low s2 then dsscasecmp s1 (tl s2) else cmp_sign (tolower c) (head_low s2))"

text \<open>\<open>V_STR(avg, sd, tgt)\<close>: the bounds are computed in double precision.\<close>

definition V_STR_LOW :: rat where "V_STR_LOW = dround (4 / 10)"
definition V_STR_HGH :: rat where "V_STR_HGH = dround (16 / 10)"

definition V_STR :: "int \<Rightarrow> int \<Rightarrow> rng \<Rightarrow> int \<times> string \<times> rng" where
  "V_STR avg sd s = a_rnd (long_of_d (dmul (d_of_long avg) V_STR_LOW))
     (long_of_d (dmul (d_of_long avg) V_STR_HGH)) sd s"

subsection \<open>\<open>a_rnd\<close>\<close>

lemma length_alpha_num: "length alpha_num = 64"
  by (simp add: alpha_num_def)

lemma alpha_index: "nat (x AND 63) < 64"
proof -
  have "x AND 63 = x mod 64" using take_bit_eq_mask [of 6 x] by (simp add: take_bit_eq_mod mask_numeral)
  then show ?thesis by (simp add: nat_less_iff)
qed

text \<open>Draws of the loop: one for every index divisible by five.\<close>

definition a_rnd_draws :: "nat \<Rightarrow> nat \<Rightarrow> nat" where
  "a_rnd_draws n i = (i + n + 4) div 5 - (i + 4) div 5"

lemma a_rnd_draws_simps:
  "a_rnd_draws 0 i = 0"
  "a_rnd_draws (Suc n) i = (if i mod 5 = 0 then 1 else 0) + a_rnd_draws n (Suc i)"
proof -
  show "a_rnd_draws 0 i = 0" by (simp add: a_rnd_draws_def)
  have a: "(Suc i + 4) div 5 = (i + 4) div 5 + (if i mod 5 = 0 then 1 else 0)" by presburger
  have b: "(Suc i + 4) div 5 \<le> (i + Suc n + 4) div 5" by (intro div_le_mono) simp
  show "a_rnd_draws (Suc n) i = (if i mod 5 = 0 then 1 else 0) + a_rnd_draws n (Suc i)"
    using a b by (simp add: a_rnd_draws_def)
qed

lemma a_rnd_loop_props:
  assumes "0 \<le> c" "c \<le> 47"
  shows "rng_ok s \<Longrightarrow> length (fst (a_rnd_loop n i x c s)) = n \<and>
    set (fst (a_rnd_loop n i x c s)) \<subseteq> set alpha_num \<and>
    moves (\<lambda>j. a_rnd_draws n i * one_at (nat c) j) (\<lambda>j. a_rnd_draws n i * one_at (nat c) j)
      s (snd (a_rnd_loop n i x c s))"
proof (induction n arbitrary: i x s)
  case 0
  then show ?case by (simp add: a_rnd_draws_simps moves_refl)
next
  case (Suc n)
  define d where "d = (if i mod 5 = 0 then 1 else 0 :: nat)"
  obtain y s1 where y: "(if i mod 5 = 0 then dss_random 0 MAX_LONG c s else (x, s)) = (y, s1)"
    by fastforce
  have m: "moves (\<lambda>j. d * one_at (nat c) j) (\<lambda>j. d * one_at (nat c) j) s s1"
    using y dss_random_moves_in [OF Suc.prems assms, of 0 MAX_LONG] moves_refl [of s]
    by (auto simp: d_def split: if_splits)
  obtain ds s2 where r: "a_rnd_loop n (Suc i) (drop_bit 6 y) c s1 = (ds, s2)" by fastforce
  note IH = Suc.IH [OF moves_ok [OF m Suc.prems], of "Suc i" "drop_bit 6 y", unfolded r fst_conv snd_conv]
  have "alpha_num ! nat (y AND 63) \<in> set alpha_num"
    using alpha_index by (intro nth_mem) (simp add: length_alpha_num)
  moreover have "a_rnd_loop (Suc n) i x c s = (alpha_num ! nat (y AND 63) # ds, s2)"
    by (simp only: a_rnd_loop.simps y r Let_def prod.case)
  moreover have "moves (\<lambda>j. a_rnd_draws (Suc n) i * one_at (nat c) j)
      (\<lambda>j. a_rnd_draws (Suc n) i * one_at (nat c) j) s s2"
    using moves_trans [OF m, of "\<lambda>j. a_rnd_draws n (Suc i) * one_at (nat c) j"] IH
    by (simp only: a_rnd_draws_simps(2) d_def add_mult_distrib)
  ultimately show ?case using IH by simp
qed

lemma a_rnd_loop_same:
  assumes "nat c \<in> A" "0 \<le> c" "c \<le> 47"
  shows "agree A s s' \<Longrightarrow> fst (a_rnd_loop n i x c s) = fst (a_rnd_loop n i x c s')"
proof (induction n arbitrary: i x s s')
  case (Suc n)
  have c: "clip_stream c \<in> A" using assms by simp
  obtain y t where y: "dss_random 0 MAX_LONG c s = (y, t)" by fastforce
  obtain y' t' where y': "dss_random 0 MAX_LONG c s' = (y', t')" by fastforce
  have "y' = y" "agree A t t'"
    using dss_random_same [OF Suc.prems c, of 0 MAX_LONG] dss_random_agree [OF Suc.prems, of 0 MAX_LONG c]
    unfolding y y' by simp_all
  then show ?case
    using Suc.IH [of t t' "Suc i" "drop_bit 6 y"] Suc.IH [OF Suc.prems, of "Suc i" "drop_bit 6 x"] y y'
    by (simp add: split_beta)
qed simp

lemma a_rnd_props:
  assumes s: "rng_ok s" and c: "0 \<le> c" "c \<le> 47" and b: "0 \<le> mn" "mn \<le> mx" "mx < 2 ^ 31"
  obtains len dest s' where "a_rnd mn mx c s = (len, dest, s')"
    "mn \<le> len" "len \<le> mx" "int (length dest) = len" "set dest \<subseteq> set alpha_num"
    "moves (\<lambda>j. (1 + (nat len + 4) div 5) * one_at (nat c) j)
       (\<lambda>j. (1 + (nat len + 4) div 5) * one_at (nat c) j) s s'"
proof -
  obtain len s1 where l: "dss_random mn mx c s = (len, s1)" by fastforce
  obtain dest s2 where d: "a_rnd_loop (nat len) 0 0 c s1 = (dest, s2)" by fastforce
  have len: "mn \<le> len" "len \<le> mx" using dss_random_bounds [OF s, of mn mx c] b by (simp_all add: l)
  have m1: "moves (one_at (nat c)) (one_at (nat c)) s s1"
    using dss_random_moves_in [OF s c, of mn mx] by (simp add: l)
  note p = a_rnd_loop_props [OF c moves_ok [OF m1 s], of "nat len" 0 0, unfolded d fst_conv snd_conv]
  have dr: "a_rnd_draws (nat len) 0 = (nat len + 4) div 5" by (simp add: a_rnd_draws_def)
  show thesis
  proof
    show "a_rnd mn mx c s = (len, dest, s2)"
      using len b by (simp add: a_rnd_def l d c_int_id)
    show "moves (\<lambda>j. (1 + (nat len + 4) div 5) * one_at (nat c) j)
       (\<lambda>j. (1 + (nat len + 4) div 5) * one_at (nat c) j) s s2"
      using moves_trans [OF m1] p by (simp add: dr)
  qed (use len b p in simp_all)
qed

lemma a_rnd_same:
  assumes "agree A s s'" "nat c \<in> A" "0 \<le> c" "c \<le> 47"
  shows "fst (a_rnd mn mx c s) = fst (a_rnd mn mx c s')"
    and "fst (snd (a_rnd mn mx c s)) = fst (snd (a_rnd mn mx c s'))"
proof -
  have c: "clip_stream c \<in> A" using assms by simp
  note e = dss_random_same [OF assms(1) c, of mn mx]
  note a = a_rnd_loop_same [OF assms(2-4) dss_random_agree [OF assms(1), of mn mx c]]
  show "fst (a_rnd mn mx c s) = fst (a_rnd mn mx c s')"
    "fst (snd (a_rnd mn mx c s)) = fst (snd (a_rnd mn mx c s'))"
    using e a [of "nat (fst (dss_random mn mx c s))" 0 0] by (simp_all add: a_rnd_def split_beta)
qed

text \<open>The address columns of the star schema: 6 to 24 characters.\<close>

lemma V_STR_15: "V_STR 15 sd s = a_rnd 6 24 sd s"
proof -
  have "long_of_d (dmul (d_of_long 15) V_STR_LOW) = 6" "long_of_d (dmul (d_of_long 15) V_STR_HGH) = 24"
    unfolding V_STR_LOW_def V_STR_HGH_def by code_simp+
  then show ?thesis by (simp add: V_STR_def)
qed

subsection \<open>\<open>pick_str\<close>\<close>

text \<open>A loaded distribution: the list has \<open>count\<close> entries and the last cumulative weight is positive.\<close>

definition dist_ok :: "distribution \<Rightarrow> bool" where
  "dist_ok d \<longleftrightarrow> 0 < dcount d \<and> dcount d = int (length (dlist d)) \<and>
     1 \<le> weight (last (dlist d)) \<and> weight (last (dlist d)) < 2 ^ 31"

lemma pick_index_least:
  "ms \<noteq> [] \<Longrightarrow> j \<le> weight (last ms) \<Longrightarrow>
   \<exists>i. pick_index ms j = Some i \<and> i < length ms \<and> j \<le> weight (ms ! i) \<and> (\<forall>k < i. weight (ms ! k) < j)"
proof (induction ms)
  case (Cons m ms)
  show ?case
  proof (cases "weight m < j")
    case True
    with Cons.prems have "ms \<noteq> []" "j \<le> weight (last ms)" by (auto split: if_splits)
    with Cons.IH obtain i where i: "pick_index ms j = Some i" "i < length ms" "j \<le> weight (ms ! i)"
      "\<forall>k < i. weight (ms ! k) < j" by blast
    then show ?thesis
      using True by (intro exI [of _ "Suc i"]) (auto simp: less_Suc_eq_0_disj)
  qed simp
qed simp

lemma pick_str_props:
  assumes s: "rng_ok s" and d: "dist_ok d" and c: "0 \<le> c" "c \<le> 47"
  obtains i s' where "pick_str d c s = Some (i, sm_text (dlist d ! i), s')" "i < length (dlist d)"
    "moves (one_at (nat c)) (one_at (nat c)) s s'"
    "\<exists>j. 1 \<le> j \<and> j \<le> weight (last (dlist d)) \<and> j \<le> weight (dlist d ! i) \<and>
      (\<forall>k < i. weight (dlist d ! k) < j)"
proof -
  have ne: "dlist d \<noteq> []" and n: "nat (dcount d - 1) = length (dlist d) - 1"
    using d by (auto simp: dist_ok_def)
  then have last: "dlist d ! nat (dcount d - 1) = last (dlist d)" by (simp add: last_conv_nth)
  obtain j s' where j: "dss_random 1 (weight (last (dlist d))) c s = (j, s')" by fastforce
  have jb: "1 \<le> j" "j \<le> weight (last (dlist d))"
    using dss_random_bounds [OF s, of 1 "weight (last (dlist d))" c] d by (simp_all add: j dist_ok_def)
  obtain i where i: "pick_index (dlist d) j = Some i" "i < length (dlist d)" "j \<le> weight (dlist d ! i)"
    "\<forall>k < i. weight (dlist d ! k) < j" using pick_index_least [OF ne jb(2)] by blast
  show thesis
  proof
    show "pick_str d c s = Some (i, sm_text (dlist d ! i), s')"
      unfolding pick_str_def last using d ne by (simp add: dist_ok_def j i(1))
    show "moves (one_at (nat c)) (one_at (nat c)) s s'"
      using dss_random_moves_in [OF s c, of 1 "weight (last (dlist d))"] by (simp add: j)
  qed (use i jb in blast)+
qed

lemma pick_str_same:
  assumes "agree A s s'" "nat c \<in> A" "0 \<le> c" "c \<le> 47"
  shows "map_option (\<lambda>(i, w, s). (i, w)) (pick_str d c s) = map_option (\<lambda>(i, w, s). (i, w)) (pick_str d c s')"
proof -
  have c: "clip_stream c \<in> A" using assms by simp
  show ?thesis
    using dss_random_same [OF assms(1) c, of 1 "weight (dlist d ! nat (dcount d - 1))"]
    by (simp add: pick_str_def split_beta option.map_comp comp_def)
qed

subsection \<open>Comparisons\<close>

text \<open>Equality up to the case of ASCII letters, on strings without \<open>NUL\<close>.\<close>

lemma tolower_pos: "c \<noteq> CHR 0x00 \<Longrightarrow> 0 < tolower c"
proof -
  assume "c \<noteq> CHR 0x00"
  then have "(of_char c :: nat) \<noteq> of_char CHR 0x00" by (simp only: of_char_eq_iff not_False_eq_True)
  then show ?thesis by (simp add: tolower_def)
qed

definition nul_free :: "string \<Rightarrow> bool" where
  "nul_free s \<longleftrightarrow> CHR 0x00 \<notin> set s"

lemma nul_free_simps [simp]: "nul_free []" "nul_free (c # s) \<longleftrightarrow> c \<noteq> CHR 0x00 \<and> nul_free s"
  by (auto simp: nul_free_def)

lemma head_low_simps [simp]: "head_low [] = 0" "head_low (c # s) = tolower c"
  by (simp_all add: head_low_def)

lemma head_low_differs: "nul_free (c # s) \<Longrightarrow> tolower c \<noteq> 0"
  using tolower_pos [of c] by simp

lemma cmp_sign_nonzero [simp]: "cmp_sign a b \<noteq> 0"
  by (simp add: cmp_sign_def)

lemma dsscasecmp_zero_iff:
  "nul_free a \<Longrightarrow> nul_free b \<Longrightarrow> dsscasecmp a b = 0 \<longleftrightarrow> map tolower a = map tolower b"
proof (induction a arbitrary: b)
  case Nil
  then show ?case by simp
next
  case (Cons c s1)
  note nz = head_low_differs [OF Cons.prems(1)]
  show ?case using Cons nz by (cases b) simp_all
qed

lemma dssncasecmp_zero_iff:
  "nul_free a \<Longrightarrow> nul_free b \<Longrightarrow> dssncasecmp a b n = 0 \<longleftrightarrow> map tolower (take n a) = map tolower (take n b)"
proof (induction n arbitrary: a b)
  case (Suc n)
  show ?case
  proof (cases a)
    case Nil
    show ?thesis
    proof (cases b)
      case (Cons d ds)
      then show ?thesis using Nil head_low_differs [of d ds] Suc.prems by simp
    qed (use Nil in simp)
  next
    case (Cons c cs)
    note nz = head_low_differs [OF Suc.prems(1) [unfolded Cons]]
    show ?thesis using Suc nz by (cases b) (simp_all add: Cons)
  qed
qed simp

end
