(* ===== verification/Calendar.thy ===== *)
theory Calendar
  imports Dss "HOL-Library.Monad_Syntax"
begin

text \<open>
  Dates: \<open>julian\<close>, \<open>unjulian\<close> and \<open>mk_ascdate\<close> of \<open>bm_utils.c\<close>, \<open>mk_time\<close> and the date table
  (\<open>mk_date\<close> with its helpers) of \<open>build.c\<close>.  The reference is the Gregorian calendar as a
  next-day function.  \<open>localtime\<close> is modelled by the broken-down time of the shifted second count;
  the offset of the time zone from UTC is a parameter, a function of the time.
\<close>

subsection \<open>\<open>julian\<close> and \<open>unjulian\<close>\<close>

definition unjulian :: "int \<Rightarrow> int" where
  "unjulian date =
     foldl (\<lambda>res i. res + (365 + LEAP i)) 0 [STARTDATE sdiv 1000..date sdiv 1000 - 1]
     + (date smod 1000 - 1)"

text \<open>The loop of \<open>julian\<close>; it need not end for an arbitrary \<open>result\<close>.\<close>

partial_function (option) julian_loop :: "int \<Rightarrow> int \<Rightarrow> int option" where
  "julian_loop offset result =
     (let yr = result sdiv 1000;
          yend = yr * 1000 + 365 + LEAP yr
      in if result + offset > yend
         then julian_loop (offset - (yend - result + 1)) (result + 1000)
         else Some (result + offset))"

definition julian :: "int \<Rightarrow> int option" where
  "julian date = julian_loop (date - STARTDATE) STARTDATE"

subsection \<open>\<open>mk_time\<close> and \<open>mk_ascdate\<close>\<close>

record month =
  mdes :: string
  mdays :: int
  dcnt :: int

definition mk_month :: "string \<Rightarrow> int \<Rightarrow> int \<Rightarrow> month" where
  "mk_month s d c = \<lparr>mdes = s, mdays = d, dcnt = c\<rparr>"

definition months :: "month list" where
  "months = [mk_month '''' 0 0, mk_month ''JAN'' 31 31, mk_month ''FEB'' 28 59, mk_month ''MAR'' 31 90,
     mk_month ''APR'' 30 120, mk_month ''MAY'' 31 151, mk_month ''JUN'' 30 181, mk_month ''JUL'' 31 212,
     mk_month ''AUG'' 31 243, mk_month ''SEP'' 30 273, mk_month ''OCT'' 31 304, mk_month ''NOV'' 30 334,
     mk_month ''DEC'' 31 365]"

definition LEAP_ADJ :: "int \<Rightarrow> int \<Rightarrow> int" where
  "LEAP_ADJ yr mnth = (if LEAP yr \<noteq> 0 \<and> mnth \<ge> 2 then 1 else 0)"

definition JDAY_BASE :: int where "JDAY_BASE = 8035"
definition JMNTH_BASE :: int where "JMNTH_BASE = - 70 * 12"

text \<open>\<open>while (d > months[m].dcnt + LEAP_ADJ(y, m)) m++\<close>; \<open>None\<close>: past the end of the table.\<close>

function month_loop :: "int \<Rightarrow> int \<Rightarrow> nat \<Rightarrow> nat option" where
  "month_loop y d m =
     (if m < length months
      then if d > dcnt (months ! m) + LEAP_ADJ y (int m) then month_loop y d (Suc m) else Some m
      else None)"
  by pat_completeness auto
termination by (relation "measure (\<lambda>(_, _, m). length months - m)") auto

declare month_loop.simps [simp del]

definition PR_DATE :: "int \<Rightarrow> int \<Rightarrow> int \<Rightarrow> string" where
  "PR_DATE yr mn dy = ''19'' @ fmt_0d 2 yr @ fmt_0d 2 mn @ fmt_0d 2 dy"

definition mk_time :: "int \<Rightarrow> dss_time_t option" where
  "mk_time index = do {
     j \<leftarrow> julian (index + STARTDATE - 1);
     let y = j sdiv 1000;
     let d = j smod 1000;
     m \<leftarrow> month_loop y d 0;
     if m = 0 then None
     else Some \<lparr>
       t_timekey = index + JDAY_BASE,
       t_alpha = PR_DATE y (int m)
         (d - dcnt (months ! (m - 1)) - (if LEAP y \<noteq> 0 \<and> m > 2 then 1 else 0)),
       t_year = 1900 + y,
       t_month = int m + 12 * y + JMNTH_BASE,
       t_week = (d + T_START_DAY - 1) sdiv 7 + 1,
       t_day = d - dcnt (months ! (m - 1)) - LEAP_ADJ y (int m - 1)\<rparr> }"

definition mk_ascdate :: "string list option" where
  "mk_ascdate = those (map (\<lambda>i. map_option t_alpha (mk_time (i + 1))) [0..TOTDATE - 1])"

subsection \<open>The date table\<close>

definition days_in_a_month :: "int list" where
  "days_in_a_month = [31, 28, 31, 30, 31, 30, 31, 31, 30, 31, 30, 31]"

definition days_in_a_month_l :: "int list" where
  "days_in_a_month_l = [31, 29, 31, 30, 31, 30, 31, 31, 30, 31, 30, 31]"

definition mk_season :: "string \<Rightarrow> int \<Rightarrow> int \<Rightarrow> int \<Rightarrow> int \<Rightarrow> season" where
  "mk_season n sd sm ed em =
     \<lparr>se_name = n, start_day = sd, start_month = sm, end_day = ed, end_month = em\<rparr>"

definition seasons :: "season list" where
  "seasons = [mk_season ''Christmas'' 1 11 31 12, mk_season ''Summer'' 1 5 31 8,
     mk_season ''Winter'' 1 1 31 3, mk_season ''Spring'' 1 4 30 4, mk_season ''Fall'' 1 9 31 10]"

definition mk_holiday :: "string \<Rightarrow> int \<Rightarrow> int \<Rightarrow> holiday" where
  "mk_holiday n m d = \<lparr>ho_name = n, ho_month = m, ho_day = d\<rparr>"

definition holidays :: "holiday list" where
  "holidays = [mk_holiday ''Christmas'' 12 24, mk_holiday ''New Years Day'' 1 1,
     mk_holiday ''holiday1'' 2 20, mk_holiday ''Easter Day'' 4 20, mk_holiday ''holiday2'' 5 20,
     mk_holiday ''holiday3'' 7 20, mk_holiday ''holiday4'' 8 20, mk_holiday ''holiday5'' 9 20,
     mk_holiday ''holiday6'' 10 20, mk_holiday ''holiday7'' 11 20]"

definition month_names :: "string list" where
  "month_names = [''January'', ''February'', ''March'', ''April'', ''May'', ''June'', ''July'',
     ''Augest'', ''September'', ''Octorber'', ''November'', ''December'']"

definition weekday_names :: "string list" where
  "weekday_names = [''Sunday'', ''Monday'', ''Tuesday'', ''Wednesday'', ''Thursday'', ''Friday'',
     ''Saturday'']"

definition is_last_day_in_month :: "int \<Rightarrow> int \<Rightarrow> int \<Rightarrow> int" where
  "is_last_day_in_month year mon day =
     (let days = (if LEAP year \<noteq> 0 then days_in_a_month_l else days_in_a_month)
      in if day = days ! nat (mon - 1) then 1 else 0)"

definition gen_season :: "int \<Rightarrow> int \<Rightarrow> string" where
  "gen_season mon day =
     (case find (\<lambda>s. mon \<ge> start_month s \<and> mon \<le> end_month s \<and> day \<ge> start_day s \<and> day \<le> end_day s) seasons
      of Some s \<Rightarrow> se_name s | None \<Rightarrow> '''')"

definition gen_holiday_fl :: "int \<Rightarrow> int \<Rightarrow> string" where
  "gen_holiday_fl mon day =
     (if find (\<lambda>h. ho_month h = mon \<and> ho_day h = day) holidays \<noteq> None then ''1'' else ''0'')"

text \<open>\<open>struct tm\<close>, the fields the program reads, and \<open>localtime\<close> for times from 1970 on: years and
  months are counted off from 1 January 1970, a Thursday.\<close>

record tm =
  tm_year :: int
  tm_mon :: int
  tm_mday :: int
  tm_wday :: int
  tm_yday :: int

definition greg_leap :: "nat \<Rightarrow> bool" where
  "greg_leap y \<longleftrightarrow> y mod 4 = 0 \<and> (y mod 100 \<noteq> 0 \<or> y mod 400 = 0)"

definition year_len :: "nat \<Rightarrow> nat" where
  "year_len y = (if greg_leap y then 366 else 365)"

definition month_len :: "nat \<Rightarrow> nat \<Rightarrow> nat" where
  "month_len y m = (if m = 2 then if greg_leap y then 29 else 28
     else if m = 4 \<or> m = 6 \<or> m = 9 \<or> m = 11 then 30 else 31)"

function split_year :: "nat \<Rightarrow> nat \<Rightarrow> nat \<times> nat" where
  "split_year y n = (if n < year_len y then (y, n) else split_year (Suc y) (n - year_len y))"
  by pat_completeness auto
termination by (relation "measure snd") (auto simp: year_len_def)

declare split_year.simps [simp del]

text \<open>Month and day of the \<open>n\<close>-th day of year \<open>y\<close> from month \<open>m\<close> on, counting from 0.\<close>

function split_month :: "nat \<Rightarrow> nat \<Rightarrow> nat \<Rightarrow> nat \<times> nat" where
  "split_month y m n =
     (if n < month_len y m \<or> 12 \<le> m then (m, Suc n) else split_month y (Suc m) (n - month_len y m))"
  by pat_completeness auto
termination by (relation "measure (\<lambda>(_, m, _). 12 - m)") auto

declare split_month.simps [simp del]

definition localtime :: "(int \<Rightarrow> int) \<Rightarrow> int \<Rightarrow> tm" where
  "localtime tzoff t =
     (let days = nat ((t + tzoff t) div 86400);
          (y, yd) = split_year 1970 days;
          (m, d) = split_month y 1 yd
      in \<lparr>tm_year = int y - 1900, tm_mon = int m - 1, tm_mday = int d,
          tm_wday = int ((days + 4) mod 7), tm_yday = int yd\<rparr>)"

definition mk_date :: "(int \<Rightarrow> int) \<Rightarrow> int \<Rightarrow> date_t" where
  "mk_date tzoff index =
     (let espan = (index - 1) * 60 * 60 * 24;
          numDateTime = D_STARTDATE + espan;
          lt = localtime tzoff numDateTime;
          dnw = (tm_wday lt + 1) smod 7 + 1;
          mny = tm_mon lt + 1;
          mname = month_names ! nat (mny - 1);
          yr = tm_year lt + 1900;
          dnm = tm_mday lt;
          dny = tm_yday lt + 1;
          season_name = gen_season mny dnm
      in \<lparr>d_datekey = yr * 10000 + mny * 100 + dnm,
          d_date = mname @ '' '' @ fmt_d dnm @ '', '' @ fmt_d yr,
          d_dayofweek = weekday_names ! nat (dnw - 1),
          d_month = mname,
          d_year = yr,
          d_yearmonthnum = yr * 100 + mny,
          d_yearmonth = take 3 mname @ fmt_d yr,
          d_daynuminweek = dnw,
          d_daynuminmonth = dnm,
          d_daynuminyear = dny,
          d_monthnuminyear = mny,
          d_weeknuminyear = dny sdiv 7 + 1,
          d_sellingseason = season_name,
          d_slen = int (length season_name),
          d_lastdayinweekfl = (if dnw = 7 then ''1'' else ''0''),
          d_lastdayinmonthfl = (if is_last_day_in_month yr mny dnm = 1 then ''0'' else ''1''),
          d_holidayfl = gen_holiday_fl mny dnm,
          d_weekdayfl = (if dnw \<noteq> 1 \<and> dnw \<noteq> 7 then ''1'' else ''0'')\<rparr>)"

subsection \<open>The reference calendar\<close>

definition next_day :: "nat \<times> nat \<times> nat \<Rightarrow> nat \<times> nat \<times> nat" where
  "next_day = (\<lambda>(y, m, d).
     if d < month_len y m then (y, m, Suc d) else if m < 12 then (y, Suc m, 1) else (Suc y, 1, 1))"

definition calendar :: "nat \<Rightarrow> nat \<times> nat \<times> nat" where
  "calendar n = (next_day ^^ n) (1992, 1, 1)"

definition valid_date :: "nat \<times> nat \<times> nat \<Rightarrow> bool" where
  "valid_date = (\<lambda>(y, m, d). 1 \<le> m \<and> m \<le> 12 \<and> 1 \<le> d \<and> d \<le> month_len y m)"

subsection \<open>Counting off years and months\<close>

lemma split_year_skip: "split_year y (year_len y + n) = split_year (Suc y) n"
  by (subst split_year.simps) simp

lemma split_year_skips: "split_year y ((\<Sum>k < j. year_len (y + k)) + n) = split_year (y + j) n"
proof (induction j arbitrary: n)
  case (Suc j)
  have "(\<Sum>k < Suc j. year_len (y + k)) + n = (\<Sum>k < j. year_len (y + k)) + (year_len (y + j) + n)" by simp
  then show ?case by (simp only: Suc.IH split_year_skip add_Suc_right)
qed simp

lemma split_year_range: "split_year y n = (y', yd) \<Longrightarrow> yd < year_len y' \<and> y \<le> y'"
proof (induction y n rule: split_year.induct)
  case (1 y n)
  show ?case
  proof (cases "n < year_len y")
    case False
    then show ?thesis using "1.IH" [OF False] "1.prems" by (subst (asm) split_year.simps) simp
  qed (use "1.prems" in \<open>simp add: split_year.simps\<close>)
qed

lemma split_year_Suc:
  "split_year y n = (y', yd) \<Longrightarrow>
   split_year y (Suc n) = (if Suc yd < year_len y' then (y', Suc yd) else (Suc y', 0))"
proof (induction y n rule: split_year.induct)
  case (1 y n)
  show ?case
  proof (cases "n < year_len y")
    case True
    then have "y' = y" "yd = n" using "1.prems" by (simp_all add: split_year.simps)
    moreover have "split_year (Suc y) 0 = (Suc y, 0)" by (simp add: split_year.simps year_len_def)
    ultimately show ?thesis
      using True split_year_skip [of y 0] by (cases "Suc n < year_len y") (simp_all add: split_year.simps [of y] Suc_lessI)
  next
    case False
    then have "split_year (Suc y) (n - year_len y) = (y', yd)"
      using "1.prems" by (simp add: split_year.simps [of y])
    from "1.IH" [OF False this] show ?thesis
      using False by (simp add: split_year.simps [of y "Suc n"] Suc_diff_le)
  qed
qed

text \<open>Months depend on the year through its leap day only: two tables of days suffice.\<close>

lemma split_month_leap: "greg_leap y = greg_leap y' \<Longrightarrow> split_month y m n = split_month y' m n"
proof (induction y m n rule: split_month.induct)
  case (1 y m n)
  have "month_len y m = month_len y' m" using "1.prems" by (simp add: month_len_def)
  then show ?case
    using "1.IH" "1.prems" by (subst (1 2) split_month.simps) simp
qed

lemma split_month_ends: "split_month y 1 0 = (1, 1)" "split_month y 1 (year_len y - 1) = (12, 31)"
proof -
  define y0 where "y0 = (if greg_leap y then 1992 else 1993 :: nat)"
  have g: "greg_leap y = greg_leap y0" by (simp add: y0_def greg_leap_def)
  have "year_len y = year_len y0" using g by (simp add: year_len_def)
  moreover have "split_month 1992 1 0 = (1, 1)" "split_month 1992 1 (year_len 1992 - 1) = (12, 31)"
    "split_month 1993 1 0 = (1, 1)" "split_month 1993 1 (year_len 1993 - 1) = (12, 31)"
    by (simp_all add: split_month.simps month_len_def year_len_def greg_leap_def)
  ultimately show "split_month y 1 0 = (1, 1)" "split_month y 1 (year_len y - 1) = (12, 31)"
    unfolding split_month_leap [OF g] by (simp_all add: y0_def)
qed

lemma split_month_Suc:
  "split_month y m n = (m', d) \<Longrightarrow>
   split_month y m (Suc n) = (if d < month_len y m' \<or> 12 \<le> m' then (m', Suc d) else (Suc m', 1))"
proof (induction y m n rule: split_month.induct)
  case (1 y m n)
  show ?case
  proof (cases "n < month_len y m \<or> 12 \<le> m")
    case True
    then have e: "m' = m" "d = Suc n" using "1.prems" by (simp_all add: split_month.simps [of y m n])
    have "split_month y (Suc m) 0 = (Suc m, 1)" by (simp add: split_month.simps month_len_def)
    moreover have "Suc n - month_len y m = 0" if "n < month_len y m" using that by simp
    ultimately show ?thesis
      using True unfolding e by (auto simp: split_month.simps [of y m "Suc n"])
  next
    case False
    then have "split_month y (Suc m) (n - month_len y m) = (m', d)"
      using "1.prems" by (simp add: split_month.simps [of y m n])
    from "1.IH" [OF False this] show ?thesis
      using False by (simp add: split_month.simps [of y m "Suc n"] Suc_diff_le)
  qed
qed

lemma split_month_range: "n < year_len y \<Longrightarrow> split_month y 1 n = (m, d) \<Longrightarrow>
  1 \<le> m \<and> m \<le> 12 \<and> 1 \<le> d \<and> d \<le> month_len y m"
proof -
  have gen: "1 \<le> m0 \<Longrightarrow> m0 \<le> 12 \<Longrightarrow> n0 < (\<Sum>k \<leftarrow> [m0..<13]. month_len y k) \<Longrightarrow>
    split_month y m0 n0 = (m, d) \<Longrightarrow> 1 \<le> m \<and> m \<le> 12 \<and> 1 \<le> d \<and> d \<le> month_len y m" for m0 n0
  proof (induction y m0 n0 rule: split_month.induct)
    case (1 y m0 n0)
    have u: "[m0..<13] = m0 # [Suc m0..<13]" using "1.prems"(2) by (simp add: upt_conv_Cons)
    show ?case
    proof (cases "n0 < month_len y m0 \<or> 12 \<le> m0")
      case True
      then have "m = m0" "d = Suc n0" using "1.prems"(4) by (simp_all add: split_month.simps [of y m0 n0])
      moreover have "n0 < month_len y m0" using True "1.prems"(2,3) by (auto simp: u)
      ultimately show ?thesis using "1.prems"(1,2) by simp
    next
      case False
      then have "split_month y (Suc m0) (n0 - month_len y m0) = (m, d)"
        using "1.prems"(4) by (simp add: split_month.simps [of y m0 n0])
      moreover have "n0 - month_len y m0 < (\<Sum>k \<leftarrow> [Suc m0..<13]. month_len y k)"
        using False "1.prems"(3) by (simp add: u less_diff_conv2)
      ultimately show ?thesis using "1.IH" [OF False] False by simp
    qed
  qed
  have sum: "(\<Sum>k \<leftarrow> [1..<13]. month_len y k) = year_len y"
    by (simp add: upt_rec month_len_def year_len_def)
  assume "n < year_len y" and md: "split_month y 1 n = (m, d)"
  then have "n < (\<Sum>k \<leftarrow> [1..<13]. month_len y k)" by (simp only: sum)
  then show ?thesis by (rule gen [OF _ _ _ md, rotated 2]) simp_all
qed

lemma calendar_split:
  "calendar n = (let (y, yd) = split_year 1992 n in (y, split_month y 1 yd))"
proof (induction n)
  case 0
  have "split_year 1992 0 = (1992, 0)" by (simp add: split_year.simps year_len_def)
  then show ?case by (simp only: calendar_def split_month_ends Let_def prod.case funpow_0)
next
  case (Suc n)
  obtain y yd where s: "split_year 1992 n = (y, yd)" by fastforce
  have r: "yd < year_len y" using split_year_range [OF s] by simp
  have c: "calendar (Suc n) = next_day (y, split_month y 1 yd)"
    using Suc s by (simp add: calendar_def)
  show ?case
  proof (cases "Suc yd < year_len y")
    case True
    obtain m d where md: "split_month y 1 yd = (m, d)" by fastforce
    have r1: "m \<le> 12" "d \<le> month_len y m" using split_month_range [OF r md] by simp_all
    have "m < 12 \<or> d < month_len y m"
    proof (rule ccontr)
      assume "\<not> ?thesis"
      with r1 have "split_month y 1 (Suc yd) = (12, 32)"
        using split_month_Suc [OF md] by (simp add: month_len_def)
      then show False using split_month_range [OF True] by (fastforce simp: month_len_def)
    qed
    then have "next_day (y, split_month y 1 yd) = (y, split_month y 1 (Suc yd))"
      unfolding split_month_Suc [OF md] unfolding md using r1 by (auto simp: next_day_def)
    then show ?thesis using c split_year_Suc [OF s] True by simp
  next
    case False
    then have "yd = year_len y - 1" using r by simp
    then have "split_month y 1 yd = (12, 31)" by (simp only: split_month_ends)
    then have "next_day (y, split_month y 1 yd) = (Suc y, 1, 1)" by (simp add: next_day_def month_len_def)
    then show ?thesis using c split_year_Suc [OF s] False split_month_ends(1) [of "Suc y"] by simp
  qed
qed

subsection \<open>\<open>mk_time\<close> follows the calendar\<close>

definition days_before :: "nat \<Rightarrow> nat \<Rightarrow> nat" where
  "days_before y m = (\<Sum>k \<leftarrow> [1..<m]. month_len y k)"

lemma days_before_Suc: "1 \<le> m \<Longrightarrow> days_before y (Suc m) = days_before y m + month_len y m"
  by (simp add: days_before_def)

lemma split_month_ordinal:
  "1 \<le> m0 \<Longrightarrow> split_month y m0 n = (m, d) \<Longrightarrow> n + days_before y m0 + 1 = days_before y m + d"
proof (induction y m0 n rule: split_month.induct)
  case (1 y m0 n)
  show ?case
  proof (cases "n < month_len y m0 \<or> 12 \<le> m0")
    case True
    then show ?thesis using "1.prems"(2) by (simp add: split_month.simps [of y m0 n])
  next
    case False
    then have "split_month y (Suc m0) (n - month_len y m0) = (m, d)"
      using "1.prems"(2) by (simp add: split_month.simps [of y m0 n])
    from "1.IH" [OF False _ this] show ?thesis
      using False "1.prems"(1) by (simp add: days_before_Suc)
  qed
qed

lemma split_year_before:
  "split_year y n = (y', yd) \<Longrightarrow> n < (\<Sum>k < j. year_len (y + k)) \<Longrightarrow> y' < y + j"
proof (induction j arbitrary: y n)
  case (Suc j)
  show ?case
  proof (cases "n < year_len y")
    case True
    then show ?thesis using Suc.prems(1) by (simp add: split_year.simps [of y])
  next
    case False
    then have "split_year (Suc y) (n - year_len y) = (y', yd)"
      using Suc.prems(1) by (simp add: split_year.simps [of y])
    moreover have "n - year_len y < (\<Sum>k < j. year_len (Suc y + k))"
      using Suc.prems(2) False by (simp add: sum.lessThan_Suc_shift del: sum.lessThan_Suc)
    ultimately show ?thesis using Suc.IH by fastforce
  qed
qed simp

text \<open>\<open>LEAP\<close> of a two-digit year agrees with the Gregorian rule up to 1999 (not for 2000).\<close>

lemma LEAP_greg:
  assumes "1 \<le> y" "y < 100"
  shows "LEAP (int y) = (if greg_leap (1900 + y) then 1 else 0)"
proof -
  have "(1900 + y) mod 4 = y mod 4" "(1900 + y) mod 100 = y mod 100"
    using mod_mult_self3 [of 475 4 y] mod_mult_self3 [of 19 100 y] by simp_all
  moreover have "y mod 100 = y" using assms by simp
  moreover have "int y smod 4 = int (y mod 4)" "int y smod 100 = int (y mod 100)"
    by (simp_all add: smod_nonneg zmod_int)
  ultimately show ?thesis using assms by (simp add: LEAP_def greg_leap_def)
qed

lemma julian_loop_split:
  "split_year Y n = (Y', yd) \<Longrightarrow> 1992 \<le> Y \<Longrightarrow> Y' < 2000 \<Longrightarrow>
   julian_loop (int n) (1000 * (int Y - 1900) + 1) = Some (1000 * (int Y' - 1900) + int yd + 1)"
proof (induction Y n rule: split_year.induct)
  case (1 Y n)
  define y where "y = Y - 1900"
  have YY: "Y < 2000" using split_year_range [OF "1.prems"(1)] "1.prems"(3) by simp
  have y: "int Y - 1900 = int y" "1 \<le> y" "y < 100" "1900 + y = Y"
    using "1.prems"(2) YY by (simp_all add: y_def)
  have sd: "(1000 * int y + 1) sdiv 1000 = int y" by (simp add: sdiv_nonneg)
  have yl: "365 + LEAP (int y) = int (year_len Y)" using LEAP_greg [OF y(2,3)] y(4) by (simp add: year_len_def)
  have step: "julian_loop (int n) (1000 * int y + 1) =
      (if int n \<ge> int (year_len Y) then julian_loop (int n - int (year_len Y)) (1000 * int y + 1 + 1000)
       else Some (1000 * int y + 1 + int n))"
    by (subst julian_loop.simps) (simp add: sd Let_def flip: yl)
  show ?case
  proof (cases "n < year_len Y")
    case True
    then show ?thesis using "1.prems"(1) step y(1) by (simp add: split_year.simps [of Y])
  next
    case False
    then have "split_year (Suc Y) (n - year_len Y) = (Y', yd)"
      using "1.prems"(1) by (simp add: split_year.simps [of Y])
    note IH = "1.IH" [OF False this le_SucI [OF "1.prems"(2)] "1.prems"(3)]
    have e: "1000 * int y + 1 + 1000 = 1000 * (int (Suc Y) - 1900) + 1"
      "int n - int (year_len Y) = int (n - year_len Y)" using y(1) False by simp_all
    have "julian_loop (int n) (1000 * int y + 1) = julian_loop (int n - int (year_len Y)) (1000 * int y + 1 + 1000)"
      using step False by simp
    then show ?thesis unfolding e IH y(1) .
  qed
qed

lemma month_loop_least:
  "k \<le> m \<Longrightarrow> m < 13 \<Longrightarrow> (\<And>j. k \<le> j \<Longrightarrow> j < m \<Longrightarrow> d > dcnt (months ! j) + LEAP_ADJ y (int j)) \<Longrightarrow>
   d \<le> dcnt (months ! m) + LEAP_ADJ y (int m) \<Longrightarrow> month_loop y d k = Some m"
proof (induction y d k rule: month_loop.induct)
  case (1 y d k)
  have l: "length months = 13" by (simp add: months_def)
  show ?case
  proof (cases "k = m")
    case True
    then show ?thesis using "1.prems" l by (subst month_loop.simps) simp
  next
    case False
    then have "d > dcnt (months ! k) + LEAP_ADJ y (int k)" "k < 13" using "1.prems" by simp_all
    then show ?thesis using "1.IH" "1.prems" False l by (subst month_loop.simps) simp
  qed
qed

text \<open>The cumulative day counts of the \<open>months\<close> table, leap day included.\<close>

lemma months_cumulative:
  assumes "1 \<le> y" "y < 100" "m \<le> 12"
  shows "dcnt (months ! m) + LEAP_ADJ (int y) (int m) = int (days_before (1900 + y) (Suc m))"
proof -
  have "m = 0 \<or> m = 1 \<or> m = 2 \<or> m = 3 \<or> m = 4 \<or> m = 5 \<or> m = 6 \<or> m = 7 \<or> m = 8 \<or> m = 9 \<or>
      m = 10 \<or> m = 11 \<or> m = 12" using assms(3) by presburger
  then show ?thesis
    by (elim disjE) (simp_all add: LEAP_greg [OF assms(1,2)] months_def mk_month_def LEAP_ADJ_def
        days_before_def month_len_def upt_rec)
qed

lemma days_before_mono: "m \<le> m' \<Longrightarrow> days_before y m \<le> days_before y m'"
proof (induction rule: dec_induct)
  case (step n)
  then show ?case by (cases "1 \<le> n") (simp_all add: days_before_Suc, simp add: days_before_def)
qed simp

lemma years_1992_1999: "(\<Sum>k < 8. year_len (1992 + k)) = 2922"
  by (simp add: lessThan_nat_numeral year_len_def greg_leap_def)

lemma mk_time_calendar:
  assumes "n < 2922" and c: "calendar n = (Y, m, d)"
  shows "\<exists>t. mk_time (int n + 1) = Some t \<and>
    t_alpha t = PR_DATE (int Y - 1900) (int m) (int d) \<and> t_year t = int Y \<and> t_day t = int d \<and>
    t_month t = int m + 12 * (int Y - 1970) \<and> t_timekey t = int n + 8036 \<and>
    1992 \<le> Y \<and> Y < 2000 \<and> 1 \<le> m \<and> m \<le> 12 \<and> 1 \<le> d \<and> d \<le> month_len Y m"
proof -
  obtain yd where s: "split_year 1992 n = (Y, yd)" and md: "split_month Y 1 yd = (m, d)"
    using c unfolding calendar_split by (auto simp: Let_def split: prod.splits)
  have r: "yd < year_len Y" "1992 \<le> Y" using split_year_range [OF s] by simp_all
  have Y: "Y < 2000" using split_year_before [OF s, of 8] assms(1) by (simp add: years_1992_1999)
  define y where "y = Y - 1900"
  have y: "int Y - 1900 = int y" "1 \<le> y" "y < 100" "1900 + y = Y" using r(2) Y by (simp_all add: y_def)
  have mr: "1 \<le> m" "m \<le> 12" "1 \<le> d" "d \<le> month_len Y m" using split_month_range [OF r(1) md] by simp_all
  define q where "q = int yd + 1"
  have q: "q = int (days_before Y m) + int d"
    using split_month_ordinal [OF order_refl md] by (simp add: q_def days_before_def)
  have "julian (int n + 1 + STARTDATE - 1) = Some (1000 * int y + q)"
    using julian_loop_split [OF s order_refl Y] y(1) by (simp add: julian_def q_def)
  moreover have "0 \<le> q" "q < 1000" using r(1) by (simp_all add: q_def year_len_def split: if_splits)
  then have "(1000 * int y + q) sdiv 1000 = int y" "(1000 * int y + q) smod 1000 = q"
    by (simp_all add: sdiv_nonneg smod_nonneg)
  moreover have "month_loop (int y) q 0 = Some m"
  proof (rule month_loop_least)
    fix j assume "j < m"
    then show "q > dcnt (months ! j) + LEAP_ADJ (int y) (int j)"
      using months_cumulative [OF y(2,3), of j] days_before_mono [of "Suc j" m Y] mr by (simp add: q y(4))
  next
    show "q \<le> dcnt (months ! m) + LEAP_ADJ (int y) (int m)"
      using months_cumulative [OF y(2,3) mr(2)] mr by (simp add: q y(4) days_before_Suc)
  qed (use mr in simp_all)
  moreover have "q - dcnt (months ! (m - 1)) - LEAP_ADJ (int y) (int m - 1) = int d"
  proof -
    have "m - 1 \<le> 12" "int (m - 1) = int m - 1" "Suc (m - 1) = m" using mr by simp_all
    then show ?thesis using months_cumulative [OF y(2,3), of "m - 1"] unfolding q y(4) by simp
  qed
  moreover have "(if LEAP (int y) \<noteq> 0 \<and> m > 2 then 1 else 0) = LEAP_ADJ (int y) (int m - 1)"
    by (auto simp: LEAP_ADJ_def)
  ultimately show ?thesis
    using mr r(2) Y y(1) by (auto simp: mk_time_def JDAY_BASE_def JMNTH_BASE_def Let_def)
qed

subsection \<open>\<open>unjulian\<close> inverts \<open>julian\<close>\<close>

definition year_days :: "int \<Rightarrow> int" where
  "year_days y = foldl (\<lambda>res i. res + (365 + LEAP i)) 0 [92..y - 1]"

definition julian_ok :: "int \<Rightarrow> bool" where
  "julian_ok j \<longleftrightarrow> 92 \<le> j div 1000 \<and> 1 \<le> j mod 1000 \<and> j mod 1000 \<le> 365 + LEAP (j div 1000)"

lemma LEAP_01: "LEAP y = 0 \<or> LEAP y = 1"
  by (simp add: LEAP_def)

lemma year_days_step: "92 \<le> y \<Longrightarrow> year_days (y + 1) = year_days y + (365 + LEAP y)"
  by (simp add: year_days_def upto_rec2)

lemma year_days_mono:
  assumes "92 \<le> y"
  shows "year_days y + int n * 365 \<le> year_days (y + int n)"
proof (induction n)
  case (Suc n)
  have "year_days (y + int (Suc n)) = year_days (y + int n) + (365 + LEAP (y + int n))"
    using year_days_step [of "y + int n"] assms by (simp only: of_nat_Suc add.assoc add.commute [of 1])
  then show ?case using Suc LEAP_01 [of "y + int n"] by auto
qed simp

lemma unjulian_year_days: "0 \<le> j \<Longrightarrow> unjulian j = year_days (j div 1000) + (j mod 1000 - 1)"
  by (simp add: unjulian_def year_days_def sdiv_nonneg smod_nonneg)

lemma julian_loop_total:
  "92 \<le> y \<Longrightarrow> 0 \<le> offset \<Longrightarrow>
   \<exists>j. julian_loop offset (1000 * y + 1) = Some j \<and> julian_ok j \<and> unjulian j = year_days y + offset"
proof (induction "nat offset" arbitrary: offset y rule: less_induct)
  case less
  define len where "len = 365 + LEAP y"
  have len: "0 < len" "len \<le> 366" using LEAP_01 [of y] by (auto simp: len_def)
  have sd: "(1000 * y + 1) sdiv 1000 = y" using less.prems(1) by (simp add: sdiv_nonneg)
  have e: "y * 1000 + 365 + LEAP y = 1000 * y + len" by (simp add: len_def)
  have e': "offset - (1000 * y + len - (1000 * y + 1) + 1) = offset - len" by simp
  have e'': "1000 * y + 1 + 1000 = 1000 * (y + 1) + 1" by simp
  have t: "(1000 * y + 1 + offset > 1000 * y + len) = (offset \<ge> len)" by linarith
  have step: "julian_loop offset (1000 * y + 1) =
      (if offset \<ge> len then julian_loop (offset - len) (1000 * (y + 1) + 1) else Some (1000 * y + 1 + offset))"
    by (subst julian_loop.simps) (simp only: sd Let_def e e' e'' t)
  show ?case
  proof (cases "offset \<ge> len")
    case True
    then have "nat (offset - len) < nat offset" using len(1) less.prems(2) by simp
    then have "\<exists>j. julian_loop (offset - len) (1000 * (y + 1) + 1) = Some j \<and> julian_ok j \<and>
        unjulian j = year_days (y + 1) + (offset - len)"
      using less.prems(1) True by (intro less.hyps) simp_all
    then show ?thesis
      unfolding step using True year_days_step [OF less.prems(1)] by (simp add: len_def)
  next
    case False
    define j where "j = 1000 * y + (offset + 1)"
    have b: "0 \<le> offset + 1" "offset + 1 < 1000" using False len less.prems(2) by simp_all
    have m: "j div 1000 = y" "j mod 1000 = offset + 1"
      unfolding j_def using div_mult_self4 [of 1000 y "offset + 1"] mod_mult_self4 [of 1000 y "offset + 1"] b
      by (simp_all add: div_pos_pos_trivial mod_pos_pos_trivial)
    have "0 \<le> j" using b less.prems(1) by (simp add: j_def)
    from unjulian_year_days [OF this] have "unjulian j = year_days y + offset" by (simp add: m)
    moreover have "julian_ok j" using m False less.prems by (simp add: julian_ok_def len_def)
    moreover have "julian_loop offset (1000 * y + 1) = Some j" using step False by (simp add: j_def)
    ultimately show ?thesis by blast
  qed
qed

lemma unjulian_less:
  assumes "julian_ok i" "julian_ok j" "i div 1000 < j div 1000"
  shows "unjulian i < unjulian j"
proof -
  define k where "k = nat (j div 1000 - (i div 1000 + 1))"
  have "year_days (i div 1000 + 1) \<le> year_days (j div 1000)"
    using year_days_mono [of "i div 1000 + 1" k] assms by (simp add: k_def julian_ok_def)
  moreover have nn: "0 \<le> i" "0 \<le> j" using assms by (auto simp: julian_ok_def pos_imp_zdiv_nonneg_iff [symmetric])
  ultimately show ?thesis
    using year_days_step [of "i div 1000"] assms
    unfolding unjulian_year_days [OF nn(1)] unjulian_year_days [OF nn(2)] julian_ok_def by linarith
qed

lemma unjulian_inj:
  assumes "julian_ok i" "julian_ok j" "unjulian i = unjulian j"
  shows "i = j"
proof -
  have eq: "i div 1000 = j div 1000"
    using unjulian_less [OF assms(1,2)] unjulian_less [OF assms(2,1)] assms(3) by fastforce
  have nn: "0 \<le> i" "0 \<le> j"
    using assms(1,2) by (auto simp: julian_ok_def pos_imp_zdiv_nonneg_iff [symmetric])
  then have "i mod 1000 = j mod 1000"
    using assms(3) eq unjulian_year_days [OF nn(1)] unjulian_year_days [OF nn(2)] by simp
  with eq show ?thesis by (metis div_mult_mod_eq)
qed

text \<open>
  C26: \<open>julian\<close> and \<open>unjulian\<close> are inverse to each other between day offsets and Julian dates
  \<open>yyddd\<close>: for every day count \<open>n\<close> from \<open>STARTDATE\<close> on \<open>julian\<close> ends with a date whose day of the year
  exists, and \<open>unjulian\<close> of it is \<open>n\<close>; and \<open>julian\<close> of the offset of any such date is that date.
\<close>

theorem julian_unjulian:
  shows "(\<forall>n \<ge> 0. \<exists>j. julian (STARTDATE + n) = Some j \<and> julian_ok j \<and> unjulian j = n) \<and>
    (\<forall>j. julian_ok j \<longrightarrow> julian (STARTDATE + unjulian j) = Some j)"
proof (intro conjI allI impI)
  have total: "\<exists>j. julian (STARTDATE + n) = Some j \<and> julian_ok j \<and> unjulian j = n" if "0 \<le> n" for n
    using julian_loop_total [of 92 n] that by (simp add: julian_def year_days_def)
  fix n :: int assume "0 \<le> n"
  then show "\<exists>j. julian (STARTDATE + n) = Some j \<and> julian_ok j \<and> unjulian j = n" by (rule total)
next
  fix j assume j: "julian_ok j"
  have nn: "0 \<le> j" using j by (auto simp: julian_ok_def pos_imp_zdiv_nonneg_iff [symmetric])
  have "0 \<le> year_days (j div 1000)"
    using year_days_mono [of 92 "nat (j div 1000 - 92)"] j by (simp add: julian_ok_def year_days_def)
  then have "0 \<le> unjulian j" using unjulian_year_days [OF nn] j by (simp add: julian_ok_def)
  then obtain j' where "julian (STARTDATE + unjulian j) = Some j'" "julian_ok j'" "unjulian j' = unjulian j"
    using julian_loop_total [of 92 "unjulian j"] by (auto simp: julian_def year_days_def)
  with unjulian_inj [OF _ j] show "julian (STARTDATE + unjulian j) = Some j" by simp
qed

theorem julian_unjulian_witness:
  "0 \<le> (366 :: int) \<and> julian_ok 95168 \<and>
   (\<exists>j. julian (STARTDATE + 366) = Some j \<and> julian_ok j \<and> unjulian j = 366) \<and>
   julian (STARTDATE + unjulian 95168) = Some 95168"
proof -
  have "julian_ok 95168" by (simp add: julian_ok_def LEAP_def)
  then show ?thesis
    using julian_unjulian [THEN conjunct1, rule_format, of 366]
      julian_unjulian [THEN conjunct2, rule_format, of 95168] by simp
qed

subsection \<open>The date strings and the date table\<close>

definition date_key :: "nat \<times> nat \<times> nat \<Rightarrow> nat" where
  "date_key = (\<lambda>(y, m, d). y * 10000 + m * 100 + d)"

text \<open>The time zones in which the row times, about six in the morning UTC, fall on the same day.\<close>

definition tz_ok :: "(int \<Rightarrow> int) \<Rightarrow> bool" where
  "tz_ok tzoff \<longleftrightarrow> (\<forall>t. - 21661 \<le> tzoff t \<and> tzoff t < 64739)"

lemma dec_step: "0 < n \<Longrightarrow> d < 10 \<Longrightarrow> dec (n * 10 + d) = dec n @ [digit_char d]"
  by (subst dec.simps) simp

lemma fmt_02: "d < 100 \<Longrightarrow> fmt_0d 2 (int d) = [digit_char (d div 10), digit_char (d mod 10)]"
proof (cases "d < 10")
  case True
  then show ?thesis by (simp add: fmt_0d_def pad_left_def dec.simps numeral_2_eq_2 digit_chars)
next
  case False
  assume "d < 100"
  with False have "dec d = [digit_char (d div 10), digit_char (d mod 10)]"
    by (subst dec.simps) (simp add: dec.simps [of "d div 10"] less_mult_imp_div_less)
  then show ?thesis by (simp add: fmt_0d_def pad_left_def)
qed

lemma dec_two: "0 < n \<Longrightarrow> d < 100 \<Longrightarrow> dec (n * 100 + d) = dec n @ fmt_0d 2 (int d)"
proof -
  assume n: "0 < n" and d: "d < 100"
  have e: "n * 100 + d = (n * 10 + d div 10) * 10 + d mod 10" by simp
  have "dec (n * 100 + d) = dec (n * 10 + d div 10) @ [digit_char (d mod 10)]"
    unfolding e using n by (intro dec_step) simp_all
  also have "dec (n * 10 + d div 10) = dec n @ [digit_char (d div 10)]"
    using dec_step [OF n, of "d div 10"] d by simp
  finally show ?thesis by (simp add: fmt_02 [OF d])
qed

lemma month_len_le: "month_len y m \<le> 31"
  by (simp add: month_len_def)

lemma PR_DATE_key:
  assumes "1900 \<le> Y" "Y < 2000" "m < 100" "d < 100"
  shows "PR_DATE (int Y - 1900) (int m) (int d) = fmt_d (int (date_key (Y, m, d)))"
proof -
  define y where "y = Y - 1900"
  have y: "int Y - 1900 = int y" "y < 100" "Y = 19 * 100 + y" using assms(1,2) by (simp_all add: y_def)
  have "dec 19 = ''19''" by code_simp
  then have "dec Y = ''19'' @ fmt_0d 2 (int y)" unfolding y(3) using dec_two [of 19 y] y(2) by simp
  moreover have "date_key (Y, m, d) = (Y * 100 + m) * 100 + d" by (simp add: date_key_def)
  then have "dec (date_key (Y, m, d)) = dec Y @ fmt_0d 2 (int m) @ fmt_0d 2 (int d)"
    using dec_two [of "Y * 100 + m" d] dec_two [of Y m] assms by simp
  ultimately show ?thesis by (simp add: PR_DATE_def fmt_d_def y(1))
qed

lemma calendar_valid: "valid_date (calendar n)"
proof -
  obtain y yd where s: "split_year 1992 n = (y, yd)" by fastforce
  obtain m d where md: "split_month y 1 yd = (m, d)" by fastforce
  have "yd < year_len y" using split_year_range [OF s] by simp
  from split_month_range [OF this md] show ?thesis
    unfolding calendar_split s by (simp add: md valid_date_def del: One_nat_def)
qed

lemma next_day_key: "valid_date x \<Longrightarrow> date_key x < date_key (next_day x)"
proof -
  obtain y m d where x: "x = (y, m, d)" by (metis prod_cases3)
  assume "valid_date x"
  then have "m \<le> 12" "1 \<le> m" "d \<le> 31" using month_len_le [of y m] by (simp_all add: valid_date_def x)
  then show ?thesis by (simp add: x next_day_def date_key_def)
qed

lemma calendar_key_mono: "i < j \<Longrightarrow> date_key (calendar i) < date_key (calendar j)"
proof (induction j)
  case (Suc j)
  have "date_key (calendar j) < date_key (calendar (Suc j))"
    using next_day_key [OF calendar_valid [of j]] by (simp add: calendar_def)
  then show ?case using Suc by (cases "i = j") auto
qed simp

lemma those_map_Some: "(\<And>x. x \<in> set xs \<Longrightarrow> f x = Some (g x)) \<Longrightarrow> those (map f xs) = Some (map g xs)"
  by (induction xs) auto

lemma upto_int: "[0..int n - 1] = map int [0..<n]"
proof (induction n)
  case (Suc n)
  then show ?case using upto_rec2 [of 0 "int n"] by simp
qed simp

lemma mk_ascdate_calendar:
  "mk_ascdate = Some (map (\<lambda>n. fmt_d (int (date_key (calendar n)))) [0..<2557])"
proof -
  have t: "map_option t_alpha (mk_time (int n + 1)) = Some (fmt_d (int (date_key (calendar n))))"
    if n: "n < 2557" for n
  proof -
    obtain Y m d where c: "calendar n = (Y, m, d)" by (metis prod_cases3)
    obtain tt where tt: "mk_time (int n + 1) = Some tt" "t_alpha tt = PR_DATE (int Y - 1900) (int m) (int d)"
      "1992 \<le> Y" "Y < 2000" "m \<le> 12" "d \<le> month_len Y m"
      using mk_time_calendar [OF less_trans [OF n] c] by auto
    then show ?thesis using PR_DATE_key [of Y m d] month_len_le [of Y m] by (simp add: c)
  qed
  have u: "[0..TOTDATE - 1] = map int [0..<2557]" using upto_int [of 2557] by (simp del: upt_rec_numeral)
  show ?thesis unfolding mk_ascdate_def u map_map comp_def by (rule those_map_Some) (simp add: t)
qed

lemma localtime_calendar:
  assumes "tz_ok tzoff" and c: "calendar n = (Y, m, d)"
  shows "\<exists>yd. split_year 1992 n = (Y, yd) \<and> split_month Y 1 yd = (m, d) \<and>
    localtime tzoff (D_STARTDATE + int n * 86400) =
      \<lparr>tm_year = int Y - 1900, tm_mon = int m - 1, tm_mday = int d,
       tm_wday = int ((n + 3) mod 7), tm_yday = int yd\<rparr>"
proof -
  obtain yd where s: "split_year 1992 n = (Y, yd)" and md: "split_month Y 1 yd = (m, d)"
    using c unfolding calendar_split by (auto simp: Let_def split: prod.splits)
  define off where "off = tzoff (D_STARTDATE + int n * 86400)"
  have off: "0 \<le> 21661 + off" "21661 + off < 86400" using assms(1) [unfolded tz_ok_def, rule_format, of "D_STARTDATE + int n * 86400"] unfolding off_def by linarith+
  have "D_STARTDATE + int n * 86400 + off = (21661 + off) + int (8035 + n) * 86400" by simp
  then have "(D_STARTDATE + int n * 86400 + off) div 86400 = int (8035 + n)"
    using off by (simp only: div_mult_self3 div_pos_pos_trivial) simp
  then have days: "nat ((D_STARTDATE + int n * 86400 + off) div 86400) = 8035 + n" by simp
  have "(\<Sum>k < 22. year_len (1970 + k)) = 8035"
    by (simp add: lessThan_nat_numeral year_len_def greg_leap_def)
  then have "split_year 1970 (8035 + n) = (Y, yd)" using split_year_skips [of 1970 22 n] s by simp
  moreover have "(8035 + n + 4) mod 7 = (n + 3) mod 7" using mod_mult_self3 [of 1148 7 "n + 3"] by (simp add: add.commute)
  ultimately show ?thesis
    unfolding localtime_def off_def [symmetric] days using s md by (simp add: Let_def)
qed

lemma mk_date_calendar:
  assumes "tz_ok tzoff" and c: "calendar n = (Y, m, d)"
  defines "r \<equiv> mk_date tzoff (int n + 1)"
  shows "d_datekey r = int (date_key (Y, m, d))" "d_year r = int Y" "d_monthnuminyear r = int m"
    "d_daynuminmonth r = int d" "d_daynuminyear r = int (days_before Y m) + int d"
    "d_dayofweek r = weekday_names ! ((n + 4) mod 7)"
    "d_lastdayinmonthfl r = (if is_last_day_in_month (int Y) (int m) (int d) = 1 then ''0'' else ''1'')"
    "d_sellingseason r = gen_season (int m) (int d)" "d_month r = month_names ! (m - 1)"
proof -
  obtain yd where yd: "split_month Y 1 yd = (m, d)" and lt: "localtime tzoff (D_STARTDATE + int n * 86400) =
      \<lparr>tm_year = int Y - 1900, tm_mon = int m - 1, tm_mday = int d,
       tm_wday = int ((n + 3) mod 7), tm_yday = int yd\<rparr>"
    using localtime_calendar [OF assms(1) c] by blast
  have e: "D_STARTDATE + (int n + 1 - 1) * 60 * 60 * 24 = D_STARTDATE + int n * 86400" by simp
  have w: "(int ((n + 3) mod 7) + 1) smod 7 = int ((n + 4) mod 7)"
    by (simp add: smod_nonneg zmod_int mod_simps add.commute)
  have ord: "int yd + 1 = int (days_before Y m) + int d"
    using split_month_ordinal [OF order_refl yd] by (simp add: days_before_def)
  have m1: "1 \<le> m" using calendar_valid [of n] by (simp add: c valid_date_def)
  then have mi: "nat (int m - 1) = m - 1" by simp
  note def = r_def mk_date_def e lt Let_def
  show "d_datekey r = int (date_key (Y, m, d))" "d_year r = int Y" "d_monthnuminyear r = int m"
    "d_daynuminmonth r = int d" "d_daynuminyear r = int (days_before Y m) + int d"
    unfolding def by (simp_all add: date_key_def ord)
  show "d_dayofweek r = weekday_names ! ((n + 4) mod 7)"
    "d_lastdayinmonthfl r = (if is_last_day_in_month (int Y) (int m) (int d) = 1 then ''0'' else ''1'')"
    "d_sellingseason r = gen_season (int m) (int d)" "d_month r = month_names ! (m - 1)"
    unfolding def by (simp_all add: w mi)
qed

subsection \<open>What the date columns hold\<close>

text \<open>
  C27: \<open>mk_ascdate\<close> returns the 2557 date strings \<open>yyyymmdd\<close> of the Gregorian days from 1 January 1992
  to 31 December 1998, in order.
\<close>

theorem asc_date_calendar:
  "\<exists>dates. mk_ascdate = Some dates \<and> length dates = 2557 \<and>
     (\<forall>n < 2557. dates ! n = fmt_d (int (date_key (calendar n))))"
  by (rule exI [of _ "map (\<lambda>n. fmt_d (int (date_key (calendar n)))) [0..<2557]"])
    (simp add: mk_ascdate_calendar del: upt_rec_numeral)

theorem asc_date_calendar_witness:
  "\<exists>dates. mk_ascdate = Some dates \<and> dates ! 59 = ''19920229''"
proof -
  have "calendar 59 = (1992, 2, 29)"
    by (simp add: calendar_split split_year.simps split_month.simps year_len_def month_len_def greg_leap_def)
  then have k: "int (date_key (calendar 59)) = 19920229" by (simp add: date_key_def)
  have f: "fmt_d 19920229 = ''19920229''" by (simp add: fmt_d_def dec.simps digit_chars)
  obtain dates where dates: "mk_ascdate = Some dates"
    "\<forall>n < 2557. dates ! n = fmt_d (int (date_key (calendar n)))" using asc_date_calendar by blast
  have "dates ! 59 = fmt_d (int (date_key (calendar 59)))" by (rule dates(2) [rule_format]) simp
  with dates(1) show ?thesis unfolding k f by blast
qed

text \<open>
  C25: in every time zone where the row times fall on their UTC day, row \<open>n + 1\<close> of the date table holds
  day \<open>n\<close> of the Gregorian calendar from 1 January 1992 (key \<open>yyyymmdd\<close>, year, month, day of month,
  day of year), and the keys increase strictly, so that they are distinct.
\<close>

theorem date_rows_calendar:
  assumes "tz_ok tzoff"
  shows "(case calendar n of (Y, m, d) \<Rightarrow>
      d_datekey (mk_date tzoff (int n + 1)) = int (date_key (Y, m, d)) \<and>
      d_year (mk_date tzoff (int n + 1)) = int Y \<and>
      d_monthnuminyear (mk_date tzoff (int n + 1)) = int m \<and>
      d_daynuminmonth (mk_date tzoff (int n + 1)) = int d \<and>
      d_daynuminyear (mk_date tzoff (int n + 1)) = int (days_before Y m + d) \<and>
      valid_date (Y, m, d)) \<and>
    d_datekey (mk_date tzoff (int n + 1)) < d_datekey (mk_date tzoff (int (n + k + 1) + 1))"
proof -
  obtain Y m d where c: "calendar n = (Y, m, d)" by (metis prod_cases3)
  obtain Y' m' d' where c': "calendar (n + k + 1) = (Y', m', d')" by (metis prod_cases3)
  note r = mk_date_calendar [OF assms c] and r' = mk_date_calendar(1) [OF assms c']
  have "int (date_key (Y, m, d)) < int (date_key (Y', m', d'))"
    using calendar_key_mono [of n "n + k + 1"] c c' by simp
  then have "d_datekey (mk_date tzoff (int n + 1)) < d_datekey (mk_date tzoff (int (n + k + 1) + 1))"
    unfolding r(1) r' .
  then show ?thesis using r(1-5) calendar_valid [of n] by (simp add: c)
qed

theorem date_rows_calendar_witness:
  "tz_ok (\<lambda>_. 3600) \<and>
   d_datekey (mk_date (\<lambda>_. 3600) (int 365 + 1)) < d_datekey (mk_date (\<lambda>_. 3600) (int (365 + 0 + 1) + 1))"
proof -
  have "tz_ok (\<lambda>_. 3600)" by (simp add: tz_ok_def)
  with date_rows_calendar [OF this, of 365 0] show ?thesis by blast
qed

lemma date_key_string:
  assumes "tz_ok tzoff" "mk_ascdate = Some dates" "n < 2556"
  shows "dates ! n = fmt_d (d_datekey (mk_date tzoff (int n + 1)))"
proof -
  obtain Y m d where c: "calendar n = (Y, m, d)" by (metis prod_cases3)
  have "dates = map (\<lambda>n. fmt_d (int (date_key (calendar n)))) [0..<2557]"
    using assms(2) unfolding mk_ascdate_calendar by (simp only: option.inject)
  then have "dates ! n = fmt_d (int (date_key (calendar n)))"
    using assms(3) by (simp only: nth_map length_upt nth_upt) simp
  then show ?thesis by (simp only: c mk_date_calendar(1) [OF assms(1) c])
qed

text \<open>
  The date strings that \<open>mk_order\<close> copies are keys of the date table: string \<open>n\<close> is the printed
  \<open>datekey\<close> of row \<open>n + 1\<close>, for each of the 2556 rows the driver generates.
\<close>

theorem date_strings_are_keys:
  assumes "tz_ok tzoff" "mk_ascdate = Some dates" "n < 2556"
  shows "dates ! n = fmt_d (d_datekey (mk_date tzoff (int n + 1)))"
  by (rule date_key_string [OF assms])

theorem date_strings_are_keys_witness:
  "tz_ok (\<lambda>_. 0) \<and> (\<exists>dates. mk_ascdate = Some dates \<and>
     dates ! 2555 = fmt_d (d_datekey (mk_date (\<lambda>_. 0) (int 2555 + 1))))"
proof -
  have tz: "tz_ok (\<lambda>_. 0)" by (simp add: tz_ok_def)
  obtain dates where dates: "mk_ascdate = Some dates" using mk_ascdate_calendar by blast
  have "dates ! 2555 = fmt_d (d_datekey (mk_date (\<lambda>_. 0) (int 2555 + 1)))"
    by (rule date_strings_are_keys [OF tz dates]) simp
  with tz dates show ?thesis by blast
qed

lemma LEAP_full_year:
  assumes "1992 \<le> Y" "Y < 2000"
  shows "LEAP (int Y) = (if greg_leap Y then 1 else 0)"
proof -
  have "int Y smod 4 = int (Y mod 4)" "int Y smod 100 = int (Y mod 100)"
    by (simp_all add: smod_nonneg zmod_int)
  moreover have "Y mod 100 = Y - 1900"
    using assms mod_mult_self3 [of 19 100 "Y - 1900"] by simp
  ultimately show ?thesis using assms by (simp add: LEAP_def greg_leap_def)
qed

lemma is_last_day_month_len:
  assumes "1992 \<le> Y" "Y < 2000" "1 \<le> m" "m \<le> 12"
  shows "is_last_day_in_month (int Y) (int m) (int d) = (if d = month_len Y m then 1 else 0)"
proof -
  have "m = 1 \<or> m = 2 \<or> m = 3 \<or> m = 4 \<or> m = 5 \<or> m = 6 \<or> m = 7 \<or> m = 8 \<or> m = 9 \<or>
      m = 10 \<or> m = 11 \<or> m = 12" using assms(3,4) by presburger
  then show ?thesis
    by (elim disjE) (simp_all add: is_last_day_in_month_def LEAP_full_year [OF assms(1,2)] month_len_def
        days_in_a_month_def days_in_a_month_l_def)
qed

text \<open>
  C39: two columns of the date table are off.  Day \<open>n\<close> from Wednesday, 1 January 1992, is weekday
  \<open>(n + 3) mod 7\<close> counting from Sunday, which is also what \<open>localtime\<close> says; the row gets the name of
  the following day.  And the flag for the last day of a month is \<open>0\<close> on exactly the last day.
\<close>

theorem date_flags_off:
  assumes "tz_ok tzoff" "n < 2556" "calendar n = (Y, m, d)"
  shows "tm_wday (localtime tzoff (D_STARTDATE + int n * 86400)) = int ((n + 3) mod 7) \<and>
    d_dayofweek (mk_date tzoff (int n + 1)) = weekday_names ! ((n + 4) mod 7) \<and>
    (d_lastdayinmonthfl (mk_date tzoff (int n + 1)) = ''0'' \<longleftrightarrow> d = month_len Y m)"
proof -
  have "n < 2922" using assms(2) by simp
  from mk_time_calendar [OF this assms(3)] have "1992 \<le> Y" "Y < 2000" "1 \<le> m" "m \<le> 12" by auto
  then show ?thesis
    using mk_date_calendar(6,7) [OF assms(1,3)] localtime_calendar [OF assms(1,3)]
    by (auto simp: is_last_day_month_len)
qed

theorem date_flags_off_witness:
  "tz_ok (\<lambda>_. 0) \<and> calendar 0 = (1992, 1, 1) \<and>
   d_dayofweek (mk_date (\<lambda>_. 0) (int 0 + 1)) = ''Thursday''"
proof -
  have "tz_ok (\<lambda>_. 0)" "calendar 0 = (1992, 1, 1)" by (simp_all add: tz_ok_def calendar_def)
  with date_flags_off [of "\<lambda>_. 0" 0 1992 1 1] show ?thesis by (simp add: weekday_names_def)
qed

end
