(* ===== verification/Sparse.thy ===== *)
theory Sparse
  imports Bcd2
begin

text \<open>
  Sparse order keys: \<open>mk_sparse\<close>, \<open>ez_sparse\<close> and \<open>hd_sparse\<close> of \<open>build.c\<close> and the macro \<open>MK_SPARSE\<close> of
  \<open>dss.h\<close>.  A key keeps the three low bits of the order index and leaves room for a two-bit update
  sequence number above them.  \<open>ez_sparse\<close> and \<open>MK_SPARSE\<close> agree and are injective; \<open>hd_sparse\<close>, which
  computes in BCD, takes the low bits from the wrong place, and keys collide.
\<close>

unbundle bit_operations_syntax

definition MK_SPARSE :: "int \<Rightarrow> int \<Rightarrow> int" where
  "MK_SPARSE key seq = push_bit 3 (push_bit 2 (drop_bit 3 key) OR (seq AND 0x0003)) OR (key AND 0x0007)"

definition ez_sparse :: "int \<Rightarrow> int \<Rightarrow> dss_huge" where
  "ez_sparse i seq =
     (let low_bits = i AND (push_bit (nat SPARSE_KEEP) 1 - 1);
          ok = drop_bit (nat SPARSE_KEEP) i;
          ok = push_bit (nat SPARSE_BITS) ok;
          ok = ok + seq;
          ok = push_bit (nat SPARSE_KEEP) ok;
          ok = ok + low_bits
      in (ok, 0))"

definition hd_sparse :: "int \<Rightarrow> int \<Rightarrow> dss_huge" where
  "hd_sparse i seq =
     (let low_mask = push_bit (nat SPARSE_KEEP) 1 - 1;
          base = bin_bcd2 i;
          res = base;
          res = fst (bcd2_div res (push_bit (nat SPARSE_KEEP) 1));
          res = fst (bcd2_mul res (push_bit (nat SPARSE_BITS) 1));
          res = fst (bcd2_add res seq);
          res = fst (bcd2_mul res (push_bit (nat SPARSE_KEEP) 1));
          res = fst (bcd2_add res (fst base AND low_mask))
      in (bcd2_bin (fst res), bcd2_bin (snd res)))"

definition mk_sparse :: "int \<Rightarrow> int \<Rightarrow> int \<Rightarrow> dss_huge" where
  "mk_sparse scale i seq = (if scale < MAX_32B_SCALE then ez_sparse i seq else hd_sparse i seq)"

text \<open>The key as a number, before the sequence number is put in.\<close>

definition sparse_key :: "int \<Rightarrow> int \<Rightarrow> int" where
  "sparse_key i seq = i div 8 * 32 + seq * 8 + i mod 8"

lemma and_7: "i AND 7 = i mod 8" for i :: int
  using take_bit_eq_mask [of 3 i] by (simp add: take_bit_eq_mod mask_numeral)

lemma and_3: "i AND 3 = i mod 4" for i :: int
  using take_bit_eq_mask [of 2 i] by (simp add: take_bit_eq_mod mask_numeral)

lemma ez_sparse_key: "ez_sparse i seq = (sparse_key i seq, 0)"
  by (simp add: ez_sparse_def sparse_key_def Let_def push_bit_eq_mult drop_bit_eq_div and_7 algebra_simps)

lemma or_disjoint: "0 \<le> b \<Longrightarrow> b < 2 ^ n \<Longrightarrow> push_bit n a OR b = a * 2 ^ n + b" for a b :: int
proof -
  assume b: "0 \<le> b" "b < 2 ^ n"
  then have "b = take_bit n b" by (simp add: take_bit_int_eq_self)
  then have small: "k < n" if "bit b k" for k using that by (metis bit_take_bit_iff)
  have "push_bit n a + b = push_bit n a OR b"
    by (rule disjunctive_add) (auto simp: bit_simps dest: small)
  then show ?thesis by (simp add: push_bit_eq_mult)
qed

lemma MK_SPARSE_key: "MK_SPARSE i seq = sparse_key i (seq mod 4)"
proof -
  have "push_bit 2 (drop_bit 3 i) OR (seq AND 3) = i div 8 * 4 + seq mod 4"
    using or_disjoint [of "seq mod 4" 2 "drop_bit 3 i"] by (simp add: and_3 drop_bit_eq_div)
  then show ?thesis
    using or_disjoint [of "i mod 8" 3 "i div 8 * 4 + seq mod 4"]
    by (simp add: MK_SPARSE_def sparse_key_def and_7)
qed

lemma sparse_key_parts:
  assumes "0 \<le> seq" "seq < 4"
  shows "sparse_key i seq div 32 = i div 8" "sparse_key i seq div 8 mod 4 = seq" "sparse_key i seq mod 8 = i mod 8"
proof -
  define q r where "q = i div 8" and "r = i mod 8"
  have r: "0 \<le> r" "r < 8" by (simp_all add: r_def)
  have e: "sparse_key i seq = (q * 4 + seq) * 8 + r" by (simp add: sparse_key_def q_def r_def)
  have e': "sparse_key i seq = q * 32 + (seq * 8 + r)" by (simp add: sparse_key_def q_def r_def)
  have "(seq * 8 + r) div 32 = 0" using r assms by (intro div_pos_pos_trivial) simp_all
  then show "sparse_key i seq div 32 = i div 8" unfolding e' q_def [symmetric] by (subst div_mult_self3) simp_all
  have "r div 8 = 0" using r by (intro div_pos_pos_trivial) simp_all
  then have "sparse_key i seq div 8 = q * 4 + seq" unfolding e by (subst div_mult_self3) simp_all
  then show "sparse_key i seq div 8 mod 4 = seq"
    using assms by (simp only: mod_mult_self3 mod_pos_pos_trivial)
  show "sparse_key i seq mod 8 = i mod 8"
    unfolding e mod_mult_self3 r_def [symmetric] using r by (simp only: mod_pos_pos_trivial)
qed

lemma sparse_key_inj:
  assumes "0 \<le> seq" "seq < 4" "0 \<le> seq'" "seq' < 4" "sparse_key i seq = sparse_key i' seq'"
  shows "i = i' \<and> seq = seq'"
proof -
  note p = sparse_key_parts [OF assms(1,2), of i] and p' = sparse_key_parts [OF assms(3,4), of i']
  have d: "i div 8 = i' div 8" unfolding p(1) [symmetric] p'(1) [symmetric] assms(5) ..
  have m: "i mod 8 = i' mod 8" unfolding p(3) [symmetric] p'(3) [symmetric] assms(5) ..
  have "seq = seq'" using p(2) p'(2) unfolding assms(5) by (rule box_equals [OF refl])
  moreover have "i = i'" using div_mult_mod_eq [of i 8] div_mult_mod_eq [of i' 8] unfolding d m by simp
  ultimately show ?thesis by simp
qed

subsection \<open>The BCD version\<close>

lemma bin_bcd2_low_bits:
  assumes "0 \<le> i" "i < 10 ^ 14"
  shows "fst (bin_bcd2 i) AND 7 = i mod 10 mod 8"
proof -
  obtain low high where lh: "bin_bcd2 i = (low, high)" by fastforce
  note ok = bin_bcd2_num [OF assms]
  have "nib 0 low = bcd.part 1 (low, high)" by (simp add: bcd.part_def GET_DIGIT_nib)
  also have "\<dots> = bcd.part 14 (low, high) mod 10 ^ 1" using ok(1) by (intro bcd.part_mono) (simp_all add: lh)
  also have "\<dots> = i mod 10" using ok(2) by (simp add: lh bcd_num_def)
  finally have n: "low mod 16 = i mod 10" by (simp add: nib_def take_bit_eq_mod)
  have "low AND 7 = low mod 16 mod 8" by (simp add: and_7 mod_mod_cancel)
  then show ?thesis by (simp add: lh n)
qed

lemma bcd_words:
  assumes "bcd_ok s"
  shows "bcd2_bin (fst s) + 10 ^ 7 * bcd2_bin (snd s) = bcd_num s"
    "0 \<le> bcd2_bin (fst s)" "bcd2_bin (fst s) < 10 ^ 7"
proof -
  obtain low high where lh: "s = (low, high)" by fastforce
  show "bcd2_bin (fst s) + 10 ^ 7 * bcd2_bin (snd s) = bcd_num s"
    by (simp add: lh bcd_num_words bcd2_bin_nib)
  have "bcd2_bin low = bcd.part 7 (low, high)" by (simp add: bcd2_bin_nib bcd.part_def GET_DIGIT_nib)
  then show "0 \<le> bcd2_bin (fst s)" "bcd2_bin (fst s) < 10 ^ 7"
    using bcd.part_range [of "(low, high)" 7] assms by (simp_all add: lh)
qed

lemma bcd2_add_small:
  assumes "bcd_ok s" "0 \<le> a" "bcd_num s + a < 10 ^ 14"
  shows "bcd_ok (fst (bcd2_add s a))" "bcd_num (fst (bcd2_add s a)) = bcd_num s + a"
proof -
  have "a < 10 ^ 14" using assms bcd_num_range [OF assms(1)] by linarith
  note c = bcd2_add_correct [OF assms(1,2) this prod.collapse [symmetric]]
  show "bcd_ok (fst (bcd2_add s a))" by (rule c(1))
  have "0 \<le> bcd_num (fst (bcd2_add s a))" using bcd_num_range [OF c(1)] by simp
  then have "snd (bcd2_add s a) = 0" using c(2-4) assms(3) by simp
  then show "bcd_num (fst (bcd2_add s a)) = bcd_num s + a" using c(2) by simp
qed

lemma bcd2_mul_small:
  assumes "bcd_ok s" "0 \<le> a" "a < 10 ^ 14" "bcd_num s * a < 10 ^ 14"
  shows "bcd_ok (fst (bcd2_mul s a))" "bcd_num (fst (bcd2_mul s a)) = bcd_num s * a"
  using bcd2_mul_correct [OF assms(1-3)] bcd_num_range [OF assms(1)] assms(2,4)
  by (simp_all add: mod_pos_pos_trivial)

lemma hd_sparse_value:
  assumes "0 \<le> i" "i < 10 ^ 12" "0 \<le> seq" "seq < 4"
  shows "fst (hd_sparse i seq) + 10 ^ 7 * snd (hd_sparse i seq) = i div 8 * 32 + seq * 8 + i mod 10 mod 8 \<and>
    0 \<le> fst (hd_sparse i seq) \<and> fst (hd_sparse i seq) < 10 ^ 7"
proof -
  define b where "b = bin_bcd2 i"
  have b: "bcd_ok b" "bcd_num b = i" "fst b AND 7 = i mod 10 mod 8"
    unfolding b_def using bin_bcd2_num [of i] bin_bcd2_low_bits [of i] assms by simp_all
  define r1 where "r1 = fst (bcd2_div b 8)"
  have r1: "bcd_ok r1" "bcd_num r1 = i div 8"
    using bcd2_div_correct [OF b(1), of 8 r1 "snd (bcd2_div b 8)"] b(2) by (simp_all add: r1_def)
  have i8: "0 \<le> i div 8" "i div 8 * 8 \<le> i"
    using assms(1) div_mult_mod_eq [of i 8] pos_mod_sign [of 8 i] by (simp_all add: pos_imp_zdiv_nonneg_iff)
  have i9: "i div 8 * 4 + seq < 10 ^ 13" using i8 assms by simp
  define r2 where "r2 = fst (bcd2_mul r1 4)"
  have r2: "bcd_ok r2" "bcd_num r2 = i div 8 * 4"
    unfolding r2_def using bcd2_mul_small [OF r1(1), of 4] i8 i9 assms(3) by (simp_all add: r1(2))
  define r3 where "r3 = fst (bcd2_add r2 seq)"
  have r3: "bcd_ok r3" "bcd_num r3 = i div 8 * 4 + seq"
    unfolding r3_def using bcd2_add_small [OF r2(1) assms(3)] i9 by (simp_all add: r2(2))
  define r4 where "r4 = fst (bcd2_mul r3 8)"
  have r4: "bcd_ok r4" "bcd_num r4 = (i div 8 * 4 + seq) * 8"
    unfolding r4_def using bcd2_mul_small [OF r3(1), of 8] i9 by (simp_all add: r3(2))
  define low where "low = i mod 10 mod 8"
  have low: "0 \<le> low" "low < 8" by (simp_all add: low_def)
  define r5 where "r5 = fst (bcd2_add r4 low)"
  have r5: "bcd_ok r5" "bcd_num r5 = (i div 8 * 4 + seq) * 8 + low"
    unfolding r5_def using bcd2_add_small [OF r4(1) low(1)] i9 low(2) by (simp_all add: r4(2))
  have "hd_sparse i seq = (bcd2_bin (fst r5), bcd2_bin (snd r5))"
    by (simp add: hd_sparse_def Let_def b(3) flip: b_def r1_def r2_def r3_def r4_def low_def r5_def)
  then show ?thesis using bcd_words [OF r5(1)] r5(2) by (simp add: low_def)
qed

subsection \<open>Distinct keys, and keys that collide\<close>

text \<open>
  C28: below scale 1000 order keys are those of the macro \<open>MK_SPARSE\<close>, and different orders or different
  update sequence numbers (of two bits) get different keys.
\<close>

theorem mk_sparse_distinct:
  assumes "scale < 1000" "0 \<le> seq" "seq < 4" "0 \<le> seq'" "seq' < 4"
  shows "mk_sparse scale i seq = (MK_SPARSE i seq, 0) \<and>
    (mk_sparse scale i seq = mk_sparse scale i' seq' \<longleftrightarrow> i = i' \<and> seq = seq')"
  using assms sparse_key_inj [OF assms(2-5)] by (auto simp: mk_sparse_def ez_sparse_key MK_SPARSE_key)

theorem mk_sparse_distinct_witness:
  "mk_sparse 1 9 0 = (MK_SPARSE 9 0, 0) \<and> mk_sparse 1 9 0 \<noteq> mk_sparse 1 9 1"
proof
  note h = mk_sparse_distinct [of 1 0 1 9 9]
  show "mk_sparse 1 9 0 = (MK_SPARSE 9 0, 0)" by (rule h [THEN conjunct1]) simp_all
  have "mk_sparse 1 9 0 = mk_sparse 1 9 1 \<longleftrightarrow> (9 :: int) = 9 \<and> (0 :: int) = 1"
    by (rule h [THEN conjunct2]) simp_all
  then show "mk_sparse 1 9 0 \<noteq> mk_sparse 1 9 1" by simp
qed

text \<open>
  C40: from scale 1000 on, where \<open>hd_sparse\<close> is used, the low bits of a key come from the last decimal
  digit of the order index instead of the index: the key is \<open>(i div 8) * 32 + seq * 8 + (i mod 10) mod 8\<close>,
  and the orders 8 and 10 get the same key.
\<close>

theorem hd_sparse_collides:
  assumes "1000 \<le> scale" "0 \<le> i" "i < 10 ^ 12" "0 \<le> seq" "seq < 4"
  shows "fst (mk_sparse scale i seq) + 10 ^ 7 * snd (mk_sparse scale i seq) =
      i div 8 * 32 + seq * 8 + i mod 10 mod 8 \<and>
    mk_sparse scale 8 seq = mk_sparse scale 10 seq"
proof -
  have m: "mk_sparse scale j seq = hd_sparse j seq" for j using assms(1) by (simp add: mk_sparse_def)
  note v = hd_sparse_value [OF assms(2-5)]
  have "fst (hd_sparse 8 seq) + 10 ^ 7 * snd (hd_sparse 8 seq) = 32 + seq * 8"
    "0 \<le> fst (hd_sparse 8 seq)" "fst (hd_sparse 8 seq) < 10 ^ 7"
    using hd_sparse_value [of 8 seq] assms(4,5) by simp_all
  moreover have "fst (hd_sparse 10 seq) + 10 ^ 7 * snd (hd_sparse 10 seq) = 32 + seq * 8"
    "0 \<le> fst (hd_sparse 10 seq)" "fst (hd_sparse 10 seq) < 10 ^ 7"
    using hd_sparse_value [of 10 seq] assms(4,5) by simp_all
  ultimately have s: "snd (hd_sparse 8 seq) = snd (hd_sparse 10 seq)"
    and f: "fst (hd_sparse 8 seq) + 10 ^ 7 * snd (hd_sparse 8 seq) =
      fst (hd_sparse 10 seq) + 10 ^ 7 * snd (hd_sparse 10 seq)" by simp_all
  then have "hd_sparse 8 seq = hd_sparse 10 seq" by (simp add: prod_eq_iff)
  then show ?thesis unfolding m using v by blast
qed

theorem hd_sparse_collides_witness:
  "mk_sparse 1000 8 0 = mk_sparse 1000 10 0 \<and>
   fst (mk_sparse 1000 8 0) + 10 ^ 7 * snd (mk_sparse 1000 8 0) = 32"
proof
  note h = hd_sparse_collides [of 1000 8 0]
  show "mk_sparse 1000 8 0 = mk_sparse 1000 10 0" by (rule h [THEN conjunct2]) simp_all
  have "fst (mk_sparse 1000 8 0) + 10 ^ 7 * snd (mk_sparse 1000 8 0) = 8 div 8 * 32 + 0 * 8 + 8 mod 10 mod 8"
    by (rule h [THEN conjunct1]) simp_all
  then show "fst (mk_sparse 1000 8 0) + 10 ^ 7 * snd (mk_sparse 1000 8 0) = 32" by simp
qed

end
