(* ===== verification/Build.thy ===== *)
theory Build
  imports Bm_Utils Calendar Sparse
begin

text \<open>
  The row builders of \<open>build.c\<close> for the star schema: customers, suppliers, parts, and orders with
  their lines.  A builder takes the row number and the random state and returns the row; it is
  \<open>None\<close> where the code would read outside an array or not return.  What it reads of the globals
  (distributions, scale, refresh percentage, base row counts, date strings) is the record \<open>benv\<close>.

  For every table: the columns are in their documented ranges, and a row moves each random stream by
  a fixed number of steps, whatever is drawn (the interpretations of \<open>row_generator\<close>).
\<close>

record benv =
  be_dists :: dists
  be_scale :: int
  be_refresh :: int
  be_tdefs :: "tdef list"
  asc_date :: "string list"

subsection \<open>Helpers\<close>

definition rpb_routine :: "int \<Rightarrow> int" where
  "rpb_routine p =
     (let price = 90000;
          price = price + (p sdiv 10) smod 20001;
          price = price + (p smod 1000) * 100
      in price)"

definition gen_phone :: "int \<Rightarrow> int \<Rightarrow> rng \<Rightarrow> string \<times> rng" where
  "gen_phone ind seed s =
     (let (acode, s) = dss_random 100 999 seed s;
          (exchg, s) = dss_random 100 999 seed s;
          (number, s) = dss_random 1000 9999 seed s
      in (fmt_0d 2 (10 + ind smod NATIONS_MAX) @ ''-'' @ fmt_0d 3 acode @ ''-'' @ fmt_0d 3 exchg
          @ ''-'' @ fmt_0d 4 number, s))"

definition gen_category :: "int \<Rightarrow> rng \<Rightarrow> string \<times> rng" where
  "gen_category seed s =
     (let (num1, s) = dss_random 1 5 seed s;
          (num2, s) = dss_random 1 5 seed s
      in (''MFGR'' @ fmt_0d 1 num1 @ fmt_0d 1 num2, s))"

text \<open>\<open>RANDOM(randomPick, 0, 9, 98)\<close>: the stream number is out of range.\<close>

definition gen_city :: "string \<Rightarrow> rng \<Rightarrow> string \<times> rng" where
  "gen_city nationName s =
     (let (randomPick, s) = dss_random 0 9 98 s
      in (take (nat CITY_FIX - 1) (pad_right (nat CITY_FIX - 1) CHR '' '' nationName)
          @ take 1 (fmt_d randomPick), s))"

text \<open>\<open>gen_color\<close> cuts the first word off; \<open>None\<close>: there is no blank to stop at.\<close>

definition gen_color :: "string \<Rightarrow> (string \<times> string) option" where
  "gen_color src =
     (if CHR '' '' \<in> set src
      then Some (takeWhile (\<lambda>c. c \<noteq> CHR '' '') src, tl (dropWhile (\<lambda>c. c \<noteq> CHR '' '') src))
      else None)"

text \<open>\<open>d.list[i]\<close>\<close>

definition dist_entry :: "distribution \<Rightarrow> int \<Rightarrow> set_member option" where
  "dist_entry d i = (if 0 \<le> i \<and> i < int (length (dlist d)) then Some (dlist d ! nat i) else None)"

definition date_entry :: "string list \<Rightarrow> int \<Rightarrow> string option" where
  "date_entry dates i = (if 0 \<le> i \<and> i < int (length dates) then Some (dates ! nat i) else None)"

subsection \<open>\<open>mk_cust\<close>, \<open>mk_supp\<close>, \<open>mk_part\<close>\<close>

definition mk_cust :: "benv \<Rightarrow> int \<Rightarrow> rng \<Rightarrow> (customer_t \<times> rng) option" where
  "mk_cust e n_cust s = do {
     let (alen, address, s) = V_STR C_ADDR_LEN C_ADDR_SD s;
     let (i, s) = dss_random 0 (dcount (nations (be_dists e)) - 1) C_NTRG_SD s;
     n \<leftarrow> dist_entry (nations (be_dists e)) i;
     r \<leftarrow> dist_entry (regions (be_dists e)) (weight n);
     let (city, s) = gen_city (sm_text n) s;
     let (phone, s) = gen_phone i C_PHNE_SD s;
     (_, seg, s) \<leftarrow> pick_str (c_mseg_set (be_dists e)) C_MSEG_SD s;
     Some (\<lparr>c_custkey = n_cust, c_name = ''Customer#'' @ fmt_0d 9 (c_int n_cust), c_address = address,
            c_alen = alen, c_city = city, c_nation_name = sm_text n, c_region_name = sm_text r,
            c_phone = phone, c_mktsegment = seg\<rparr>, s) }"

definition mk_supp :: "benv \<Rightarrow> int \<Rightarrow> rng \<Rightarrow> (supplier_t \<times> rng) option" where
  "mk_supp e index s = do {
     let (alen, address, s) = V_STR S_ADDR_LEN S_ADDR_SD s;
     let (i, s) = dss_random 0 (dcount (nations (be_dists e)) - 1) S_NTRG_SD s;
     n \<leftarrow> dist_entry (nations (be_dists e)) i;
     r \<leftarrow> dist_entry (regions (be_dists e)) (weight n);
     let (city, s) = gen_city (sm_text n) s;
     let (phone, s) = gen_phone i C_PHNE_SD s;
     Some (\<lparr>s_suppkey = index, s_name = ''Supplier#'' @ fmt_0d 9 index, s_address = address,
            s_alen = alen, s_city = city, s_nation_name = sm_text n, s_region_name = sm_text r,
            s_phone = phone\<rparr>, s) }"

text \<open>The static state of \<open>permute\<close> is rebuilt by the first call of each \<open>agg_str\<close>, so that a part
  does not depend on what earlier parts left there.\<close>

definition perm_init :: perm where
  "perm_init = \<lparr>source = 0, pset = [], pdist = None\<rparr>"

definition mk_part :: "benv \<Rightarrow> int \<Rightarrow> rng \<Rightarrow> (part_t \<times> rng) option" where
  "mk_part e index s = do {
     (name, _, s) \<leftarrow> agg_str (colors (be_dists e)) P_NAME_SCL P_NAME_SD perm_init s;
     (color, name) \<leftarrow> gen_color name;
     let (mfgr, s) = dss_random P_MFG_MIN P_MFG_MAX P_MFG_SD s;
     let mfgr_s = ''MFGR#'' @ fmt_d mfgr;
     let (cat, s) = dss_random P_CAT_MIN P_CAT_MAX P_CAT_SD s;
     let cat_s = mfgr_s @ fmt_d cat;
     let (brnd, s) = dss_random P_BRND_MIN P_BRND_MAX P_BRND_SD s;
     (ti, typ, s) \<leftarrow> pick_str (p_types_set (be_dists e)) P_TYPE_SD s;
     let (siz, s) = dss_random P_SIZE_MIN P_SIZE_MAX P_SIZE_SD s;
     (_, cntr, s) \<leftarrow> pick_str (p_cntr_set (be_dists e)) P_CNTR_SD s;
     Some (\<lparr>p_partkey = index, p_name = name, p_mfgr = mfgr_s, p_category = cat_s,
            p_brand = cat_s @ fmt_d brnd, p_color = color, p_clen = int (length color), p_type = typ,
            p_tlen = int (length (sm_text (dlist (p_types_set (be_dists e)) ! ti))), p_size = siz,
            p_container = cntr\<rparr>, s) }"

subsection \<open>\<open>mk_order\<close>\<close>

definition O_CKEY_MAX :: "benv \<Rightarrow> int" where
  "O_CKEY_MAX e = td_base (be_tdefs e ! nat CUST) * be_scale e"

definition L_SKEY_MAX :: "benv \<Rightarrow> int" where
  "L_SKEY_MAX e = td_base (be_tdefs e ! nat SUPP) * be_scale e"

text \<open>\<open>floor(log((double) scale))\<close> for scales from 1 to 1000: the smallest integers above
  \<open>e\<close>, \<open>e^2\<close>, ..., \<open>e^6\<close> are the thresholds.\<close>

definition floor_log :: "int \<Rightarrow> int" where
  "floor_log scale = int (length (filter (\<lambda>t. t \<le> scale) [3, 8, 21, 55, 149, 404]))"

definition L_PKEY_MAX :: "benv \<Rightarrow> int" where
  "L_PKEY_MAX e = td_base (be_tdefs e ! nat PART) * (floor_log (be_scale e) + 1)"

text \<open>Customers whose key is divisible by 3 get no orders: the key is moved up and down.\<close>

partial_function (option) mortality_loop :: "int \<Rightarrow> int \<Rightarrow> int \<Rightarrow> int option" where
  "mortality_loop ckey_max custkey delta =
     (if custkey smod CUST_MORTALITY = 0
      then mortality_loop ckey_max (c_MIN (custkey + delta) ckey_max) (delta * - 1)
      else Some custkey)"

text \<open>The line's \<open>opriority\<close> array has 11 bytes and is followed by \<open>ship_priority\<close>: a longer string
  spills into it and is cut off there by the following store of 0.\<close>

definition line_opriority :: "string \<Rightarrow> string" where
  "line_opriority prio = take 11 prio"

definition mk_line :: "benv \<Rightarrow> dss_huge \<Rightarrow> int \<Rightarrow> int \<Rightarrow> string \<Rightarrow> string \<Rightarrow> int \<Rightarrow> int \<Rightarrow> rng \<Rightarrow>
    (lineorder_t \<times> int \<times> rng) option" where
  "mk_line e okey custkey tmp_date odate opriority spriority lcnt s = do {
     let (partkey, s) = dss_random L_PKEY_MIN (L_PKEY_MAX e) L_PKEY_SD s;
     let (suppkey, s) = dss_random L_SKEY_MIN (L_SKEY_MAX e) L_SKEY_SD s;
     let (quantity, s) = dss_random L_QTY_MIN L_QTY_MAX L_QTY_SD s;
     let (discount, s) = dss_random L_DCNT_MIN L_DCNT_MAX L_DCNT_SD s;
     let (tax, s) = dss_random L_TAX_MIN L_TAX_MAX L_TAX_SD s;
     let (c_date, s) = dss_random L_CDTE_MIN L_CDTE_MAX L_CDTE_SD s;
     let c_date = c_date + tmp_date;
     commit \<leftarrow> date_entry (asc_date e) (c_date - STARTDATE);
     (_, mode, s) \<leftarrow> pick_str (l_smode_set (be_dists e)) L_SMODE_SD s;
     let rprice = rpb_routine partkey;
     let ext = rprice * quantity;
     Some (\<lparr>l_okey = okey, l_linenumber = lcnt + 1, l_custkey = custkey, l_partkey = partkey,
            l_suppkey = suppkey, l_orderdate = odate, l_opriority = line_opriority opriority,
            l_ship_priority = spriority, l_quantity = quantity, l_extended_price = ext,
            l_order_totalprice = 0, l_discount = discount,
            l_revenue = ext * (100 - discount) sdiv PENNIES, l_supp_cost = 6 * rprice sdiv 10,
            l_tax = tax, l_commit_date = commit, l_shipmode = mode\<rparr>,
           ((ext * (100 - discount)) sdiv PENNIES) * (100 + tax) sdiv PENNIES, s) }"

text \<open>The loop over the lines: \<open>n\<close> to go, \<open>lcnt\<close> done; \<open>totalprice\<close> is an \<open>int\<close>.\<close>

fun mk_lines :: "nat \<Rightarrow> benv \<Rightarrow> dss_huge \<Rightarrow> int \<Rightarrow> int \<Rightarrow> string \<Rightarrow> string \<Rightarrow> int \<Rightarrow> int \<Rightarrow> int \<Rightarrow> rng \<Rightarrow>
    (lineorder_t list \<times> int \<times> rng) option" where
  "mk_lines 0 e okey custkey tmp_date odate opriority spriority lcnt totalprice s =
     Some ([], totalprice, s)"
| "mk_lines (Suc n) e okey custkey tmp_date odate opriority spriority lcnt totalprice s = do {
     (l, amount, s) \<leftarrow> mk_line e okey custkey tmp_date odate opriority spriority lcnt s;
     (ls, totalprice, s) \<leftarrow> mk_lines n e okey custkey tmp_date odate opriority spriority (lcnt + 1)
        (c_int (totalprice + amount)) s;
     Some (l # ls, totalprice, s) }"

definition order_seq :: "int \<Rightarrow> int \<Rightarrow> int" where
  "order_seq refresh upd_num = (if upd_num = 0 then 0 else 1 + upd_num sdiv (10000 sdiv refresh))"

definition mk_order :: "benv \<Rightarrow> int \<Rightarrow> int \<Rightarrow> rng \<Rightarrow> (order_t \<times> rng) option" where
  "mk_order e upd_num index s = do {
     let (tmp_date, s) = dss_random O_ODATE_MIN O_ODATE_MAX O_ODATE_SD s;
     odate \<leftarrow> date_entry (asc_date e) (tmp_date - STARTDATE);
     let okey = mk_sparse (be_scale e) index (order_seq (be_refresh e) upd_num);
     let (custkey, s) = dss_random O_CKEY_MIN (O_CKEY_MAX e) O_CKEY_SD s;
     custkey \<leftarrow> mortality_loop (O_CKEY_MAX e) custkey 1;
     (_, opriority, s) \<leftarrow> pick_str (o_priority_set (be_dists e)) O_PRIO_SD s;
     let (clk_num, s) = dss_random 1 (c_MAX (be_scale e * O_CLRK_SCL) O_CLRK_SCL) O_CLRK_SD s;
     let (lines, s) = dss_random O_LCNT_MIN O_LCNT_MAX O_LCNT_SD s;
     (ls, totalprice, s) \<leftarrow> mk_lines (nat lines) e okey custkey tmp_date odate opriority 0 0 0 s;
     Some (\<lparr>o_okey = okey, o_custkey = custkey, o_totalprice = totalprice, o_odate = odate,
            o_opriority = opriority, o_spriority = 0, o_lines = lines,
            o_lineorders = map (\<lambda>l. l\<lparr>l_order_totalprice := totalprice\<rparr>) ls\<rparr>, s) }"

subsection \<open>What the builders rely on\<close>

text \<open>The globals after start-up: the distributions are loaded, the table definitions are those of the
  star schema, the scale factor is at most the maximum of 1000.\<close>

definition nations_ok :: "dists \<Rightarrow> bool" where
  "nations_ok D \<longleftrightarrow> 0 < dcount (nations D) \<and> dcount (nations D) < 2 ^ 31 \<and>
     dcount (nations D) = int (length (dlist (nations D))) \<and>
     (\<forall>n \<in> set (dlist (nations D)). 0 \<le> weight n \<and> weight n < int (length (dlist (regions D))))"

definition dists_ok :: "dists \<Rightarrow> bool" where
  "dists_ok D \<longleftrightarrow> nations_ok D \<and> dist_ok (o_priority_set D) \<and> dist_ok (l_smode_set D) \<and>
     dist_ok (c_mseg_set D) \<and> dist_ok (p_types_set D) \<and> dist_ok (p_cntr_set D) \<and>
     dist_sized (colors D) \<and> 3 \<le> dcount (colors D) \<and> dcount (colors D) \<le> 92 \<and>
     (\<forall>m \<in> set (dlist (colors D)). CHR '' '' \<notin> set (sm_text m))"

definition tdefs_ok :: "tdef list \<Rightarrow> bool" where
  "tdefs_ok ts \<longleftrightarrow> length ts = 10 \<and> td_base (ts ! 0) = 200000 \<and> td_base (ts ! 2) = 2000 \<and>
     td_base (ts ! 3) = 30000 \<and>
     (\<forall>i \<in> {0, 2, 3, 4, 5}. td_child (ts ! i) = NONE)"

definition benv_ok :: "benv \<Rightarrow> bool" where
  "benv_ok e \<longleftrightarrow> dists_ok (be_dists e) \<and> tdefs_ok (be_tdefs e) \<and> 1 \<le> be_scale e \<and> be_scale e \<le> 1000 \<and>
     length (asc_date e) = 2557"

lemma nations_bound:
  assumes "benv_ok e"
  shows "0 \<le> dcount (nations (be_dists e)) - 1" "dcount (nations (be_dists e)) - 1 - 0 < 2 ^ 53 - 1"
proof -
  have "0 < dcount (nations (be_dists e))" "dcount (nations (be_dists e)) < 2 ^ 31"
    using assms by (auto simp: benv_ok_def dists_ok_def nations_ok_def)
  then show "0 \<le> dcount (nations (be_dists e)) - 1" "dcount (nations (be_dists e)) - 1 - 0 < 2 ^ 53 - 1"
    by simp_all
qed

subsection \<open>Rates\<close>

text \<open>Every padded stream moves by its boundary; of the others, \<open>v\<close> says how many recorded draws a row
  makes, and \<open>x\<close> how many unrecorded ones.\<close>

definition row_rate :: "int \<Rightarrow> (nat \<Rightarrow> nat) \<Rightarrow> (nat \<Rightarrow> nat) \<Rightarrow> nat \<Rightarrow> nat" where
  "row_rate t v x i = x i + (if pads t i then stream_boundary i else v i)"

lemma advanced_cong: "advanced k s t \<Longrightarrow> (\<And>i. i < 48 \<Longrightarrow> k i = k' i) \<Longrightarrow> advanced k' s t"
  by (simp add: advanced_def)

lemma row_advances_rate:
  assumes "rng_inv s" "moves k u (row_start t s) s1" "t \<noteq> ORDER_LINE" "t \<noteq> PART_PSUPP"
    "td_child (tdefs ! nat t) = NONE"
    and k: "\<And>i. i < 48 \<Longrightarrow> k i = u i + x i"
    and b: "\<And>i. i < 48 \<Longrightarrow> pads t i \<Longrightarrow> u i \<le> stream_boundary i"
    and v: "\<And>i. i < 48 \<Longrightarrow> \<not> pads t i \<Longrightarrow> u i = v i"
  shows "\<exists>s2. row_stop False tdefs t s1 = Some s2 \<and> advanced (row_rate t v x) s s2"
proof -
  obtain s2 where s2: "row_stop False tdefs t s1 = Some s2" "advanced (\<lambda>i. k i + pad t i (u i)) s s2"
    using row_stop_advances [OF assms(1-5) b] by blast
  have "k i + pad t i (u i) = row_rate t v x i" if "i < 48" for i
    using k [OF that] b [OF that] v [OF that] by (simp add: row_rate_def pad_def)
  with s2 advanced_cong show ?thesis by blast
qed

text \<open>A draw from a stream in range, with all that is known of it.\<close>

lemma draw:
  assumes "rng_ok s" "0 \<le> c" "c \<le> 47" "lo \<le> hi" "hi - lo < 2 ^ 53 - 1"
  obtains x s' where "dss_random lo hi c s = (x, s')" "lo \<le> x" "x \<le> hi" "rng_ok s'"
    "moves (one_at (nat c)) (one_at (nat c)) s s'"
  using dss_random_bounds [OF assms(1,4,5), of c] dss_random_moves_in [OF assms(1-3), of lo hi]
    dss_random_ok [OF assms(1), of lo hi c] by (cases "dss_random lo hi c s") simp

lemma draw_stray:
  assumes "rng_ok s" "47 < c" "lo \<le> hi" "hi - lo < 2 ^ 53 - 1"
  obtains x s' where "dss_random lo hi c s = (x, s')" "lo \<le> x" "x \<le> hi" "rng_ok s'"
    "moves (one_at 0) (\<lambda>_. 0) s s'"
  using dss_random_bounds [OF assms(1,3,4), of c] dss_random_moves_stray [OF assms(1,2), of lo hi]
    dss_random_ok [OF assms(1), of lo hi c] by (cases "dss_random lo hi c s") simp

lemma pick:
  assumes "rng_ok s" "dist_ok d" "0 \<le> c" "c \<le> 47"
  obtains i s' where "pick_str d c s = Some (i, sm_text (dlist d ! i), s')" "i < length (dlist d)"
    "moves (one_at (nat c)) (one_at (nat c)) s s'" "rng_ok s'"
  by (rule pick_str_props [OF assms]) (metis moves_ok assms(1) that)

lemma gen_city_props:
  assumes "rng_ok s"
  obtains city s' where "gen_city n s = (city, s')" "length city = 10" "rng_ok s'"
    "moves (one_at 0) (\<lambda>_. 0) s s'" "\<exists>d. 0 \<le> d \<and> d \<le> 9 \<and>
      city = take 9 (pad_right 9 CHR '' '' n) @ fmt_d d"
proof -
  obtain d s' where d: "dss_random 0 9 98 s = (d, s')" "0 \<le> d" "d \<le> 9" "rng_ok s'" "moves (one_at 0) (\<lambda>_. 0) s s'"
    using draw_stray [OF assms, of 98 0 9] by auto
  have "length (fmt_d d) = 1" using d(2,3) by (simp add: fmt_d_def dec.simps)
  then have c: "gen_city n s = (take 9 (pad_right 9 CHR '' '' n) @ fmt_d d, s')" "length (fmt_d d) = 1"
    using d(1) by (simp_all add: gen_city_def)
  show thesis by (rule that [OF c(1) _ d(4,5)]) (use c(2) d(2,3) in auto)
qed

text \<open>A phone number: two digits for the nation, then three random groups.\<close>

definition phone_ok :: "int \<Rightarrow> string \<Rightarrow> bool" where
  "phone_ok i ph \<longleftrightarrow> (\<exists>a b n. 100 \<le> a \<and> a \<le> 999 \<and> 100 \<le> b \<and> b \<le> 999 \<and> 1000 \<le> n \<and> n \<le> 9999 \<and>
     ph = fmt_0d 2 (10 + i smod NATIONS_MAX) @ ''-'' @ fmt_0d 3 a @ ''-'' @ fmt_0d 3 b @ ''-'' @ fmt_0d 4 n)"

lemma gen_phone_props:
  assumes s: "rng_ok s" and c: "0 \<le> c" "c \<le> 47" and i: "0 \<le> i"
  obtains ph s' where "gen_phone i c s = (ph, s')" "length ph = 15" "rng_ok s'"
    "moves (\<lambda>j. 3 * one_at (nat c) j) (\<lambda>j. 3 * one_at (nat c) j) s s'" "phone_ok i ph"
proof -
  obtain a s1 where a: "dss_random 100 999 c s = (a, s1)" "100 \<le> a" "a \<le> 999" "rng_ok s1"
    "moves (one_at (nat c)) (one_at (nat c)) s s1" using draw [OF s c, of 100 999] by auto
  obtain b s2 where b: "dss_random 100 999 c s1 = (b, s2)" "100 \<le> b" "b \<le> 999" "rng_ok s2"
    "moves (one_at (nat c)) (one_at (nat c)) s1 s2" using draw [OF a(4) c, of 100 999] by auto
  obtain n s3 where n: "dss_random 1000 9999 c s2 = (n, s3)" "1000 \<le> n" "n \<le> 9999" "rng_ok s3"
    "moves (one_at (nat c)) (one_at (nat c)) s2 s3" using draw [OF b(4) c, of 1000 9999] by auto
  have cc: "0 \<le> 10 + i smod 90" "10 + i smod 90 < 100" using i by (simp_all add: smod_nonneg)
  have "length (fmt_0d 2 (10 + i smod 90)) = 2" "length (fmt_0d 3 a) = 3" "length (fmt_0d 3 b) = 3"
    "length (fmt_0d 4 n) = 4"
    using cc a b n by (simp_all add: length_fmt_0d)
  moreover have "moves (\<lambda>j. 3 * one_at (nat c) j) (\<lambda>j. 3 * one_at (nat c) j) s s3"
    using moves_trans [OF moves_trans [OF a(5) b(5)] n(5)] by (simp add: numeral_3_eq_3 add.assoc)
  moreover have "phone_ok i (fmt_0d 2 (10 + i smod NATIONS_MAX) @ ''-'' @ fmt_0d 3 a @ ''-'' @ fmt_0d 3 b @ ''-'' @ fmt_0d 4 n)"
    unfolding phone_ok_def using a(2,3) b(2,3) n(2,3) by blast
  ultimately show thesis using that a(1) b(1) n by (simp add: gen_phone_def)
qed

lemma nation_entry:
  assumes "nations_ok D" "0 \<le> i" "i \<le> dcount (nations D) - 1"
  obtains n r where "dist_entry (nations D) i = Some n" "dist_entry (regions D) (weight n) = Some r"
    "n \<in> set (dlist (nations D))" "r \<in> set (dlist (regions D))"
proof -
  have i: "nat i < length (dlist (nations D))" using assms by (auto simp: nations_ok_def nat_less_iff)
  define n where "n = dlist (nations D) ! nat i"
  have n: "n \<in> set (dlist (nations D))" using i by (simp add: n_def)
  then have w: "0 \<le> weight n" "weight n < int (length (dlist (regions D)))"
    using assms(1) by (auto simp: nations_ok_def)
  have "dist_entry (nations D) i = Some n"
    using assms by (simp add: dist_entry_def n_def nations_ok_def)
  moreover have "dist_entry (regions D) (weight n) = Some (dlist (regions D) ! nat (weight n))"
    using w by (simp add: dist_entry_def)
  moreover have "dlist (regions D) ! nat (weight n) \<in> set (dlist (regions D))"
    using w by (intro nth_mem) (simp add: nat_less_iff)
  ultimately show thesis using that n by blast
qed

subsection \<open>Customers\<close>

lemma stream_facts:
  "stream_table 0 = PART" "stream_table 1 = PART" "stream_table 2 = PART" "stream_table 3 = PART"
  "stream_table 4 = PART" "stream_table 5 = NONE" "stream_table 11 = ORDER" "stream_table 13 = ORDER"
  "stream_table 14 = LINE" "stream_table 15 = LINE" "stream_table 16 = LINE" "stream_table 18 = LINE"
  "stream_table 19 = LINE" "stream_table 20 = LINE" "stream_table 22 = LINE" "stream_table 26 = CUST"
  "stream_table 27 = CUST" "stream_table 28 = CUST" "stream_table 30 = CUST" "stream_table 32 = SUPP"
  "stream_table 33 = SUPP" "stream_table 37 = PART" "stream_table 38 = ORDER" "stream_table 40 = ORDER"
  "stream_table 43 = ORDER"
  "stream_boundary 0 = 1" "stream_boundary 1 = 1" "stream_boundary 2 = 1" "stream_boundary 3 = 1"
  "stream_boundary 4 = 1" "stream_boundary 14 = 7" "stream_boundary 15 = 7" "stream_boundary 16 = 7"
  "stream_boundary 18 = 7" "stream_boundary 19 = 7" "stream_boundary 20 = 7" "stream_boundary 22 = 7"
  "stream_boundary 26 = 9" "stream_boundary 27 = 1" "stream_boundary 28 = 3" "stream_boundary 30 = 1"
  "stream_boundary 32 = 9" "stream_boundary 33 = 1" "stream_boundary 37 = 92"
  unfolding stream_table_def stream_boundary_def Seed_init_def mk_seed_def by simp_all

lemma addr_draws: "6 \<le> len \<Longrightarrow> len \<le> 24 \<Longrightarrow> 1 + (nat len + 4) div 5 \<le> 9"
proof -
  assume "6 \<le> len" "len \<le> 24"
  then have "(nat len + 4) div 5 \<le> (24 + 4) div 5" by (intro div_le_mono) simp
  then show ?thesis by simp
qed

text \<open>Nation, region, city and phone belong together: the region is that of the nation, the city is the
  nation padded or cut to nine characters and a digit, the phone starts with the nation's number.\<close>

definition place_ok :: "benv \<Rightarrow> string \<Rightarrow> string \<Rightarrow> string \<Rightarrow> string \<Rightarrow> bool" where
  "place_ok e city nation region phone \<longleftrightarrow> (\<exists>i na r d. 0 \<le> i \<and> i < dcount (nations (be_dists e)) \<and>
     dist_entry (nations (be_dists e)) i = Some na \<and> dist_entry (regions (be_dists e)) (weight na) = Some r \<and>
     nation = sm_text na \<and> region = sm_text r \<and> 0 \<le> d \<and> d \<le> 9 \<and>
     city = take 9 (pad_right 9 CHR '' '' nation) @ fmt_d d \<and> phone_ok i phone)"

lemma place_okI:
  assumes "0 \<le> i" "i \<le> dcount (nations (be_dists e)) - 1" "dist_entry (nations (be_dists e)) i = Some na"
    "dist_entry (regions (be_dists e)) (weight na) = Some r"
    "\<exists>d. 0 \<le> d \<and> d \<le> 9 \<and> ci = take 9 (pad_right 9 CHR '' '' (sm_text na)) @ fmt_d d" "phone_ok i ph"
  shows "place_ok e ci (sm_text na) (sm_text r) ph"
proof -
  obtain d where "0 \<le> d" "d \<le> 9" "ci = take 9 (pad_right 9 CHR '' '' (sm_text na)) @ fmt_d d" using assms(5) by blast
  then show ?thesis
    unfolding place_ok_def using assms by (intro exI [of _ i] exI [of _ na] exI [of _ r] exI [of _ d]) simp
qed

definition cust_ok :: "benv \<Rightarrow> int \<Rightarrow> customer_t \<Rightarrow> bool" where
  "cust_ok e n c \<longleftrightarrow> c_custkey c = n \<and> c_name c = ''Customer#'' @ fmt_0d 9 (c_int n) \<and>
     6 \<le> length (c_address c) \<and> length (c_address c) \<le> 24 \<and> set (c_address c) \<subseteq> set alpha_num \<and>
     c_alen c = int (length (c_address c)) \<and> length (c_city c) = 10 \<and> length (c_phone c) = 15 \<and>
     place_ok e (c_city c) (c_nation_name c) (c_region_name c) (c_phone c) \<and>
     c_mktsegment c \<in> sm_text ` set (dlist (c_mseg_set (be_dists e)))"

lemma mk_cust_total:
  assumes s: "rng_ok s" and e: "benv_ok e"
  obtains c s' a where "mk_cust e n s = Some (c, s')" "cust_ok e n c" "a \<le> 9"
    "moves (\<lambda>i. a * one_at 26 i + one_at 27 i + one_at 0 i + 3 * one_at 28 i + one_at 30 i)
       (\<lambda>i. a * one_at 26 i + one_at 27 i + 3 * one_at 28 i + one_at 30 i) s s'"
proof -
  note D = e [unfolded benv_ok_def dists_ok_def]
  have mseg: "dist_ok (c_mseg_set (be_dists e))" using D by simp
  obtain len ad s1 where 1: "a_rnd 6 24 26 s = (len, ad, s1)" "6 \<le> len" "len \<le> 24" "int (length ad) = len"
    "set ad \<subseteq> set alpha_num" "moves (\<lambda>j. (1 + (nat len + 4) div 5) * one_at 26 j)
      (\<lambda>j. (1 + (nat len + 4) div 5) * one_at 26 j) s s1"
    using a_rnd_props [OF s, of 26 6 24] by auto
  note ok1 = moves_ok [OF 1(6) s]
  note nb = nations_bound [OF e]
  obtain i s2 where 2: "dss_random 0 (dcount (nations (be_dists e)) - 1) 27 s1 = (i, s2)" "0 \<le> i"
    "i \<le> dcount (nations (be_dists e)) - 1" "rng_ok s2" "moves (one_at 27) (one_at 27) s1 s2"
    using draw [OF ok1 _ _ nb, of 27] by auto
  obtain na r where nr: "dist_entry (nations (be_dists e)) i = Some na"
    "dist_entry (regions (be_dists e)) (weight na) = Some r"
    "na \<in> set (dlist (nations (be_dists e)))" "r \<in> set (dlist (regions (be_dists e)))"
    using nation_entry [OF _ 2(2,3)] D by blast
  obtain ci s3 where 3: "gen_city (sm_text na) s2 = (ci, s3)" "length ci = 10" "rng_ok s3"
    "moves (one_at 0) (\<lambda>_. 0) s2 s3" "\<exists>d. 0 \<le> d \<and> d \<le> 9 \<and> ci = take 9 (pad_right 9 CHR '' '' (sm_text na)) @ fmt_d d"
    using gen_city_props [OF 2(4)] by blast
  obtain ph s4 where 4: "gen_phone i 28 s3 = (ph, s4)" "length ph = 15" "rng_ok s4"
    "moves (\<lambda>j. 3 * one_at 28 j) (\<lambda>j. 3 * one_at 28 j) s3 s4" "phone_ok i ph"
    using gen_phone_props [OF 3(3) _ _ 2(2), of 28] by auto
  obtain k s5 where 5: "pick_str (c_mseg_set (be_dists e)) 30 s4 =
      Some (k, sm_text (dlist (c_mseg_set (be_dists e)) ! k), s5)" "k < length (dlist (c_mseg_set (be_dists e)))"
    "moves (one_at 30) (one_at 30) s4 s5"
    by (rule pick [OF 4(3) mseg, of 30, simplified])
  note place = place_okI [OF 2(2,3) nr(1,2) 3(5) 4(5)]
  show thesis
  proof
    show "mk_cust e n s = Some (\<lparr>c_custkey = n, c_name = ''Customer#'' @ fmt_0d 9 (c_int n), c_address = ad,
        c_alen = len, c_city = ci, c_nation_name = sm_text na, c_region_name = sm_text r,
        c_phone = ph, c_mktsegment = sm_text (dlist (c_mseg_set (be_dists e)) ! k)\<rparr>, s5)"
      by (simp add: mk_cust_def V_STR_15 1(1) 2(1) nr 3(1) 4(1) 5(1))
    show "1 + (nat len + 4) div 5 \<le> 9" by (rule addr_draws [OF 1(2,3)])
    show "moves (\<lambda>i. (1 + (nat len + 4) div 5) * one_at 26 i + one_at 27 i + one_at 0 i + 3 * one_at 28 i + one_at 30 i)
       (\<lambda>i. (1 + (nat len + 4) div 5) * one_at 26 i + one_at 27 i + 3 * one_at 28 i + one_at 30 i) s s5"
      using moves_trans [OF moves_trans [OF moves_trans [OF moves_trans [OF 1(6) 2(5)] 3(4)] 4(4)] 5(3)] by simp
  qed (use 1 3 4 5 place in \<open>auto simp: cust_ok_def\<close>)
qed

abbreviation cust_rate :: "nat \<Rightarrow> nat" where
  "cust_rate \<equiv> row_rate CUST (\<lambda>_. 0) (one_at 0)"

lemma one_at_simps: "one_at i i = 1" "i \<noteq> j \<Longrightarrow> one_at i j = 0"
  by (simp_all add: one_at_def)

lemma tdefs_child: "benv_ok e \<Longrightarrow> t \<in> {0, 2, 3, 4, 5} \<Longrightarrow> td_child (be_tdefs e ! nat t) = NONE"
  by (auto simp: benv_ok_def tdefs_ok_def)

lemma cust_row_advances:
  assumes "rng_inv s" "benv_ok e"
  shows "\<exists>r s1 s2. mk_cust e n (row_start CUST s) = Some (r, s1) \<and>
    row_stop False (be_tdefs e) CUST s1 = Some s2 \<and> advanced cust_rate s s2 \<and> cust_ok e n r"
proof -
  obtain c s1 a where c: "mk_cust e n (row_start CUST s) = Some (c, s1)" "cust_ok e n c" "a \<le> 9"
    "moves (\<lambda>i. a * one_at 26 i + one_at 27 i + one_at 0 i + 3 * one_at 28 i + one_at 30 i)
       (\<lambda>i. a * one_at 26 i + one_at 27 i + 3 * one_at 28 i + one_at 30 i) (row_start CUST s) s1"
    by (rule mk_cust_total [OF rng_inv_ok [OF row_start_inv [OF assms(1)]] assms(2)])
  have "\<exists>s2. row_stop False (be_tdefs e) CUST s1 = Some s2 \<and> advanced cust_rate s s2"
  proof (rule row_advances_rate [OF assms(1) c(4)])
    show "td_child (be_tdefs e ! nat CUST) = NONE" using tdefs_child [OF assms(2), of CUST] by simp
    fix i :: nat
    show "a * one_at 26 i + one_at 27 i + 3 * one_at 28 i + one_at 30 i \<le> stream_boundary i" if "pads CUST i"
      using c(3) by (auto simp: one_at_def stream_facts)
    show "a * one_at 26 i + one_at 27 i + 3 * one_at 28 i + one_at 30 i = 0" if "\<not> pads CUST i"
      using that by (auto simp: one_at_def pads_def stream_facts)
  qed simp_all
  with c(1,2) show ?thesis by blast
qed

subsection \<open>Suppliers\<close>

definition supp_ok :: "benv \<Rightarrow> int \<Rightarrow> supplier_t \<Rightarrow> bool" where
  "supp_ok e n c \<longleftrightarrow> s_suppkey c = n \<and> s_name c = ''Supplier#'' @ fmt_0d 9 n \<and>
     6 \<le> length (s_address c) \<and> length (s_address c) \<le> 24 \<and> set (s_address c) \<subseteq> set alpha_num \<and>
     s_alen c = int (length (s_address c)) \<and> length (s_city c) = 10 \<and> length (s_phone c) = 15 \<and>
     place_ok e (s_city c) (s_nation_name c) (s_region_name c) (s_phone c)"

lemma mk_supp_total:
  assumes s: "rng_ok s" and e: "benv_ok e"
  obtains c s' a where "mk_supp e n s = Some (c, s')" "supp_ok e n c" "a \<le> 9"
    "moves (\<lambda>i. a * one_at 32 i + one_at 33 i + one_at 0 i + 3 * one_at 28 i)
       (\<lambda>i. a * one_at 32 i + one_at 33 i + 3 * one_at 28 i) s s'"
proof -
  note D = e [unfolded benv_ok_def dists_ok_def] and nb = nations_bound [OF e]
  obtain len ad s1 where 1: "a_rnd 6 24 32 s = (len, ad, s1)" "6 \<le> len" "len \<le> 24" "int (length ad) = len"
    "set ad \<subseteq> set alpha_num" "moves (\<lambda>j. (1 + (nat len + 4) div 5) * one_at 32 j)
      (\<lambda>j. (1 + (nat len + 4) div 5) * one_at 32 j) s s1"
    using a_rnd_props [OF s, of 32 6 24] by auto
  note ok1 = moves_ok [OF 1(6) s]
  obtain i s2 where 2: "dss_random 0 (dcount (nations (be_dists e)) - 1) 33 s1 = (i, s2)" "0 \<le> i"
    "i \<le> dcount (nations (be_dists e)) - 1" "rng_ok s2" "moves (one_at 33) (one_at 33) s1 s2"
    using draw [OF ok1 _ _ nb, of 33] by auto
  obtain na r where nr: "dist_entry (nations (be_dists e)) i = Some na"
    "dist_entry (regions (be_dists e)) (weight na) = Some r"
    "na \<in> set (dlist (nations (be_dists e)))" "r \<in> set (dlist (regions (be_dists e)))"
    using nation_entry [OF _ 2(2,3)] D by blast
  obtain ci s3 where 3: "gen_city (sm_text na) s2 = (ci, s3)" "length ci = 10" "rng_ok s3"
    "moves (one_at 0) (\<lambda>_. 0) s2 s3" "\<exists>d. 0 \<le> d \<and> d \<le> 9 \<and> ci = take 9 (pad_right 9 CHR '' '' (sm_text na)) @ fmt_d d"
    using gen_city_props [OF 2(4)] by blast
  obtain ph s4 where 4: "gen_phone i 28 s3 = (ph, s4)" "length ph = 15" "rng_ok s4"
    "moves (\<lambda>j. 3 * one_at 28 j) (\<lambda>j. 3 * one_at 28 j) s3 s4" "phone_ok i ph"
    using gen_phone_props [OF 3(3) _ _ 2(2), of 28] by auto
  note place = place_okI [OF 2(2,3) nr(1,2) 3(5) 4(5)]
  show thesis
  proof
    show "mk_supp e n s = Some (\<lparr>s_suppkey = n, s_name = ''Supplier#'' @ fmt_0d 9 n, s_address = ad,
        s_alen = len, s_city = ci, s_nation_name = sm_text na, s_region_name = sm_text r, s_phone = ph\<rparr>, s4)"
      by (simp add: mk_supp_def V_STR_15 1(1) 2(1) nr 3(1) 4(1))
    show "1 + (nat len + 4) div 5 \<le> 9" by (rule addr_draws [OF 1(2,3)])
    show "moves (\<lambda>i. (1 + (nat len + 4) div 5) * one_at 32 i + one_at 33 i + one_at 0 i + 3 * one_at 28 i)
       (\<lambda>i. (1 + (nat len + 4) div 5) * one_at 32 i + one_at 33 i + 3 * one_at 28 i) s s4"
      using moves_trans [OF moves_trans [OF moves_trans [OF 1(6) 2(5)] 3(4)] 4(4)] by simp
  qed (use 1 3 4 place in \<open>auto simp: supp_ok_def\<close>)
qed

abbreviation supp_rate :: "nat \<Rightarrow> nat" where
  "supp_rate \<equiv> row_rate SUPP (\<lambda>i. 3 * one_at 28 i) (one_at 0)"

lemma supp_row_advances:
  assumes "rng_inv s" "benv_ok e"
  shows "\<exists>r s1 s2. mk_supp e n (row_start SUPP s) = Some (r, s1) \<and>
    row_stop False (be_tdefs e) SUPP s1 = Some s2 \<and> advanced supp_rate s s2 \<and> supp_ok e n r"
proof -
  obtain c s1 a where c: "mk_supp e n (row_start SUPP s) = Some (c, s1)" "supp_ok e n c" "a \<le> 9"
    "moves (\<lambda>i. a * one_at 32 i + one_at 33 i + one_at 0 i + 3 * one_at 28 i)
       (\<lambda>i. a * one_at 32 i + one_at 33 i + 3 * one_at 28 i) (row_start SUPP s) s1"
    by (rule mk_supp_total [OF rng_inv_ok [OF row_start_inv [OF assms(1)]] assms(2)])
  have "\<exists>s2. row_stop False (be_tdefs e) SUPP s1 = Some s2 \<and> advanced supp_rate s s2"
  proof (rule row_advances_rate [OF assms(1) c(4)])
    show "td_child (be_tdefs e ! nat SUPP) = NONE" using tdefs_child [OF assms(2), of SUPP] by simp
    fix i :: nat
    show "a * one_at 32 i + one_at 33 i + 3 * one_at 28 i \<le> stream_boundary i" if "pads SUPP i"
      using c(3) by (auto simp: one_at_def stream_facts)
    show "a * one_at 32 i + one_at 33 i + 3 * one_at 28 i = 3 * one_at 28 i" if "\<not> pads SUPP i"
      using that by (auto simp: one_at_def pads_def stream_facts)
  qed simp_all
  with c(1,2) show ?thesis by blast
qed

subsection \<open>Parts\<close>

text \<open>The name and the color of a part: three different colors of the list.\<close>

definition part_colors :: "benv \<Rightarrow> part_t \<Rightarrow> bool" where
  "part_colors e p \<longleftrightarrow> (\<exists>i j k. distinct [i, j, k] \<and>
     {i, j, k} \<subseteq> {..<length (dlist (colors (be_dists e)))} \<and>
     p_color p = sm_text (dlist (colors (be_dists e)) ! i) \<and>
     p_name p = sm_text (dlist (colors (be_dists e)) ! j) @ '' '' @ sm_text (dlist (colors (be_dists e)) ! k))"

definition part_ok :: "benv \<Rightarrow> int \<Rightarrow> part_t \<Rightarrow> bool" where
  "part_ok e n p \<longleftrightarrow> p_partkey p = n \<and> part_colors e p \<and> p_clen p = int (length (p_color p)) \<and>
     (\<exists>m c b. 1 \<le> m \<and> m \<le> 5 \<and> 1 \<le> c \<and> c \<le> 5 \<and> 1 \<le> b \<and> b \<le> 40 \<and> p_mfgr p = ''MFGR#'' @ fmt_d m \<and>
       p_category p = p_mfgr p @ fmt_d c \<and> p_brand p = p_category p @ fmt_d b) \<and>
     p_type p \<in> sm_text ` set (dlist (p_types_set (be_dists e))) \<and> p_tlen p = int (length (p_type p)) \<and>
     1 \<le> p_size p \<and> p_size p \<le> 50 \<and> p_container p \<in> sm_text ` set (dlist (p_cntr_set (be_dists e)))"

lemma agg_three:
  assumes d: "dist_sized d" "3 \<le> dcount d" and s: "rng_ok s" and c: "0 \<le> col" "col \<le> 47"
  obtains i j k s' where "\<And>p. \<exists>p'. agg_str d 3 col p s = Some (sm_text (dlist d ! i) @ '' '' @ sm_text (dlist d ! j)
      @ '' '' @ sm_text (dlist d ! k), p', s')"
    "distinct [i, j, k]" "{i, j, k} \<subseteq> {..<length (dlist d)}"
    "moves (\<lambda>x. nat (dcount d) * one_at (nat col) x) (\<lambda>x. nat (dcount d) * one_at (nat col) x) s s'"
proof -
  define a where "a = fst (shuffle (nat (dcount d)) col s)"
  have n: "0 < nat (dcount d)" "nat (dcount d) < 2 ^ 31" using d by (auto simp: dist_sized_def nat_less_iff)
  note sh = shuffle_props [OF s n c, folded a_def]
  have "3 \<le> length a" using d(2) sh(1) by simp
  then obtain x y z r where a: "a = x # y # z # r" by (auto simp: numeral_3_eq_3 Suc_le_length_iff)
  have "{x, y, z} \<subseteq> set a" by (simp add: a)
  then have r: "{x, y, z} \<subseteq> {0..<dcount d}" using d(2) unfolding sh(3) by simp
  have l: "length (dlist d) = nat (dcount d)" using d(1) by (simp add: dist_sized_def)
  have agg: "\<exists>p'. agg_str d 3 col p s = Some (sm_text (dlist d ! nat x) @ '' '' @ sm_text (dlist d ! nat y)
      @ '' '' @ sm_text (dlist d ! nat z), p', snd (shuffle (nat (dcount d)) col s))" for p
    using agg_str_words [OF d(1) s c, of 3 p] d(2)
    by (simp add: a_def [symmetric] a member_words_def butlast_append)
  show thesis
  proof (rule that [OF agg])
    show "distinct [nat x, nat y, nat z]" using sh(2) r by (auto simp: a)
    show "{nat x, nat y, nat z} \<subseteq> {..<length (dlist d)}" using r l by (auto simp: nat_less_iff)
    show "moves (\<lambda>x. nat (dcount d) * one_at (nat col) x) (\<lambda>x. nat (dcount d) * one_at (nat col) x) s
      (snd (shuffle (nat (dcount d)) col s))" by (rule shuffle_perm(2) [OF s n c])
  qed
qed

lemma gen_color_words:
  "CHR '' '' \<notin> set w \<Longrightarrow> gen_color (w @ '' '' @ r) = Some (w, r)"
proof -
  assume "CHR '' '' \<notin> set w"
  then have "takeWhile (\<lambda>c. c \<noteq> CHR '' '') (w @ '' '' @ r) = w \<and> dropWhile (\<lambda>c. c \<noteq> CHR '' '') (w @ '' '' @ r) = '' '' @ r"
    by (induction w) auto
  then show ?thesis by (simp add: gen_color_def)
qed

lemma mk_part_total:
  assumes s: "rng_ok s" and e: "benv_ok e"
  obtains p s' a where "mk_part e n s = Some (p, s')" "part_ok e n p" "a \<le> 92"
    "moves (\<lambda>i. a * one_at 37 i + one_at 0 i + one_at 0 i + one_at 1 i + one_at 2 i + one_at 3 i + one_at 4 i)
       (\<lambda>i. a * one_at 37 i + one_at 0 i + one_at 1 i + one_at 2 i + one_at 3 i + one_at 4 i) s s'"
proof -
  let ?C = "colors (be_dists e)" and ?T = "p_types_set (be_dists e)" and ?K = "p_cntr_set (be_dists e)"
  note D = e [unfolded benv_ok_def dists_ok_def]
  have C: "dist_sized ?C" "3 \<le> dcount ?C" "dcount ?C \<le> 92" "\<forall>m \<in> set (dlist ?C). CHR '' '' \<notin> set (sm_text m)"
    and TK: "dist_ok ?T" "dist_ok ?K" using D by simp_all
  obtain i j k s1 where 1: "\<And>p. \<exists>p'. agg_str ?C 3 37 p s = Some (sm_text (dlist ?C ! i) @ '' '' @ sm_text (dlist ?C ! j)
      @ '' '' @ sm_text (dlist ?C ! k), p', s1)" "distinct [i, j, k]" "{i, j, k} \<subseteq> {..<length (dlist ?C)}"
    "moves (\<lambda>x. nat (dcount ?C) * one_at 37 x) (\<lambda>x. nat (dcount ?C) * one_at 37 x) s s1"
    by (rule agg_three [OF C(1,2) s, of 37]) (simp, simp, rule that, assumption+, simp)
  note ok1 = moves_ok [OF 1(4) s]
  obtain p' where p': "agg_str ?C 3 37 perm_init s = Some (sm_text (dlist ?C ! i) @ '' '' @ sm_text (dlist ?C ! j)
      @ '' '' @ sm_text (dlist ?C ! k), p', s1)" using 1(1) by blast
  have "CHR '' '' \<notin> set (sm_text (dlist ?C ! i))" using C(4) 1(3) by simp
  then have col: "gen_color (sm_text (dlist ?C ! i) @ '' '' @ sm_text (dlist ?C ! j) @ '' '' @ sm_text (dlist ?C ! k)) =
      Some (sm_text (dlist ?C ! i), sm_text (dlist ?C ! j) @ '' '' @ sm_text (dlist ?C ! k))"
    by (rule gen_color_words)
  obtain m s2 where 2: "dss_random 1 5 0 s1 = (m, s2)" "1 \<le> m" "m \<le> 5" "rng_ok s2" "moves (one_at 0) (one_at 0) s1 s2"
    by (rule draw [OF ok1, of 0 1 5, simplified])
  obtain c s3 where 3: "dss_random 1 5 97 s2 = (c, s3)" "1 \<le> c" "c \<le> 5" "rng_ok s3" "moves (one_at 0) (\<lambda>_. 0) s2 s3"
    by (rule draw_stray [OF 2(4), of 97 1 5, simplified])
  obtain b s4 where 4: "dss_random 1 40 1 s3 = (b, s4)" "1 \<le> b" "b \<le> 40" "rng_ok s4" "moves (one_at 1) (one_at 1) s3 s4"
    by (rule draw [OF 3(4), of 1 1 40, simplified]) (simp add: that)
  obtain ti s5 where 5: "pick_str ?T 2 s4 = Some (ti, sm_text (dlist ?T ! ti), s5)" "ti < length (dlist ?T)"
    "moves (one_at 2) (one_at 2) s4 s5" "rng_ok s5"
    by (rule pick [OF 4(4) TK(1), of 2, simplified])
  obtain z s6 where 6: "dss_random 1 50 3 s5 = (z, s6)" "1 \<le> z" "z \<le> 50" "rng_ok s6" "moves (one_at 3) (one_at 3) s5 s6"
    by (rule draw [OF 5(4), of 3 1 50, simplified])
  obtain ki s7 where 7: "pick_str ?K 4 s6 = Some (ki, sm_text (dlist ?K ! ki), s7)" "ki < length (dlist ?K)"
    "moves (one_at 4) (one_at 4) s6 s7" "rng_ok s7"
    by (rule pick [OF 6(4) TK(2), of 4, simplified])
  define p where "p = \<lparr>p_partkey = n, p_name = sm_text (dlist ?C ! j) @ '' '' @ sm_text (dlist ?C ! k),
      p_mfgr = ''MFGR#'' @ fmt_d m, p_category = (''MFGR#'' @ fmt_d m) @ fmt_d c,
      p_brand = ((''MFGR#'' @ fmt_d m) @ fmt_d c) @ fmt_d b, p_color = sm_text (dlist ?C ! i),
      p_clen = int (length (sm_text (dlist ?C ! i))), p_type = sm_text (dlist ?T ! ti),
      p_tlen = int (length (sm_text (dlist ?T ! ti))), p_size = z, p_container = sm_text (dlist ?K ! ki)\<rparr>"
  show thesis
  proof
    show "mk_part e n s = Some (p, s7)"
      by (simp add: mk_part_def p' col [simplified] 2(1) 3(1) 4(1) 5(1) 6(1) 7(1) p_def)
    have "part_colors e p" unfolding part_colors_def using 1(2,3) by (intro exI [of _ i] exI [of _ j] exI [of _ k]) (simp add: p_def)
    moreover have "\<exists>m c b. 1 \<le> m \<and> m \<le> 5 \<and> 1 \<le> c \<and> c \<le> 5 \<and> 1 \<le> b \<and> b \<le> 40 \<and> p_mfgr p = ''MFGR#'' @ fmt_d m \<and>
       p_category p = p_mfgr p @ fmt_d c \<and> p_brand p = p_category p @ fmt_d b"
      using 2(2,3) 3(2,3) 4(2,3) by (intro exI [of _ m] exI [of _ c] exI [of _ b]) (simp add: p_def)
    ultimately show "part_ok e n p" using 5(2) 6(2,3) 7(2) by (auto simp: part_ok_def p_def)
    show "nat (dcount ?C) \<le> 92" using C(3) by simp
    show "moves (\<lambda>i. nat (dcount ?C) * one_at 37 i + one_at 0 i + one_at 0 i + one_at 1 i + one_at 2 i + one_at 3 i + one_at 4 i)
       (\<lambda>i. nat (dcount ?C) * one_at 37 i + one_at 0 i + one_at 1 i + one_at 2 i + one_at 3 i + one_at 4 i) s s7"
      using moves_trans [OF moves_trans [OF moves_trans [OF moves_trans [OF moves_trans [OF moves_trans [OF 1(4) 2(5)] 3(5)]
        4(5)] 5(3)] 6(5)] 7(3)] by simp
  qed
qed

abbreviation part_rate :: "nat \<Rightarrow> nat" where
  "part_rate \<equiv> row_rate PART (\<lambda>_. 0) (one_at 0)"

lemma part_row_advances:
  assumes "rng_inv s" "benv_ok e"
  shows "\<exists>r s1 s2. mk_part e n (row_start PART s) = Some (r, s1) \<and>
    row_stop False (be_tdefs e) PART s1 = Some s2 \<and> advanced part_rate s s2 \<and> part_ok e n r"
proof -
  obtain c s1 a where c: "mk_part e n (row_start PART s) = Some (c, s1)" "part_ok e n c" "a \<le> 92"
    "moves (\<lambda>i. a * one_at 37 i + one_at 0 i + one_at 0 i + one_at 1 i + one_at 2 i + one_at 3 i + one_at 4 i)
       (\<lambda>i. a * one_at 37 i + one_at 0 i + one_at 1 i + one_at 2 i + one_at 3 i + one_at 4 i) (row_start PART s) s1"
    by (rule mk_part_total [OF rng_inv_ok [OF row_start_inv [OF assms(1)]] assms(2)])
  have "\<exists>s2. row_stop False (be_tdefs e) PART s1 = Some s2 \<and> advanced part_rate s s2"
  proof (rule row_advances_rate [OF assms(1) c(4)])
    show "td_child (be_tdefs e ! nat PART) = NONE" using tdefs_child [OF assms(2), of PART] by simp
    fix i :: nat
    show "a * one_at 37 i + one_at 0 i + one_at 1 i + one_at 2 i + one_at 3 i + one_at 4 i \<le> stream_boundary i" if "pads PART i"
      using c(3) by (auto simp: one_at_def stream_facts simp del: One_nat_def)
    show "a * one_at 37 i + one_at 0 i + one_at 1 i + one_at 2 i + one_at 3 i + one_at 4 i = 0" if "\<not> pads PART i"
      using that by (cases "i = 0") (auto simp: one_at_def pads_def stream_facts simp del: One_nat_def)
  qed simp_all
  with c(1,2) show ?thesis by blast
qed

subsection \<open>Orders and their lines\<close>

text \<open>The mortality loop ends after at most two rounds, inside the key range and off the multiples of 3.\<close>

lemma mortality_ends:
  assumes "1 \<le> k" "k \<le> m"
  obtains k' where "mortality_loop m k 1 = Some k'" "1 \<le> k'" "k' \<le> m" "k' mod 3 \<noteq> 0"
proof (cases "k mod 3 = 0")
  case False
  then have "mortality_loop m k 1 = Some k" using assms by (subst mortality_loop.simps) (simp add: smod_nonneg)
  then show thesis using that assms False by blast
next
  case True
  then have k: "3 \<le> k" using assms(1) by (cases "k = 1 \<or> k = 2") auto
  have up: "(k + 1) mod 3 \<noteq> 0" and down: "(k - 1) mod 3 \<noteq> 0" using True by presburger+
  have 1: "mortality_loop m k 1 = mortality_loop m (c_MIN (k + 1) m) (- 1)"
    using True assms by (subst mortality_loop.simps) (simp add: smod_nonneg)
  show thesis
  proof (cases "k + 1 \<le> m")
    case True
    then have "c_MIN (k + 1) m = k + 1" by (simp add: c_MIN_def)
    then have "mortality_loop m k 1 = Some (k + 1)"
      unfolding 1 using up k by (subst mortality_loop.simps) (simp add: smod_nonneg)
    then show thesis using that True up k by simp
  next
    case False
    then have m: "c_MIN (k + 1) m = k" "c_MIN (k - 1) m = k - 1" using assms(2) by (simp_all add: c_MIN_def)
    have "mortality_loop m k (- 1) = mortality_loop m (k - 1) 1"
      using True m(2) k by (subst mortality_loop.simps) (simp add: smod_nonneg)
    also have "\<dots> = Some (k - 1)" using down k by (subst mortality_loop.simps) (simp add: smod_nonneg)
    finally show thesis using that [of "k - 1"] 1 m(1) down k assms(2) by simp
  qed
qed

text \<open>A line of an order: keys in the ranges of the other tables, prices from the part key.\<close>

definition line_ok :: "benv \<Rightarrow> lineorder_t \<Rightarrow> bool" where
  "line_ok e l \<longleftrightarrow> 1 \<le> l_partkey l \<and> l_partkey l \<le> L_PKEY_MAX e \<and> 1 \<le> l_suppkey l \<and> l_suppkey l \<le> L_SKEY_MAX e \<and>
     1 \<le> l_quantity l \<and> l_quantity l \<le> 50 \<and> 0 \<le> l_discount l \<and> l_discount l \<le> 10 \<and>
     0 \<le> l_tax l \<and> l_tax l \<le> 8 \<and> l_extended_price l = rpb_routine (l_partkey l) * l_quantity l \<and>
     l_revenue l = l_extended_price l * (100 - l_discount l) div 100 \<and>
     l_supp_cost l = 6 * rpb_routine (l_partkey l) div 10 \<and> l_ship_priority l = 0 \<and>
     l_commit_date l \<in> set (take 2496 (asc_date e)) \<and>
     l_shipmode l \<in> sm_text ` set (dlist (l_smode_set (be_dists e)))"

lemma rpb_bounds: "0 \<le> p \<Longrightarrow> 90000 \<le> rpb_routine p \<and> rpb_routine p \<le> 209900"
proof -
  assume "0 \<le> p"
  then have "rpb_routine p = 90000 + (p div 10) mod 20001 + p mod 1000 * 100"
    by (simp add: rpb_routine_def sdiv_nonneg smod_nonneg pos_imp_zdiv_nonneg_iff)
  moreover have "0 \<le> p div 10 mod 20001" "p div 10 mod 20001 \<le> 20000" "0 \<le> p mod 1000" "p mod 1000 \<le> 999" by simp_all
  ultimately show ?thesis by simp
qed

text \<open>The amount a line adds to the total: at most fifty pieces of the dearest part with full tax.\<close>

definition line_amount :: "lineorder_t \<Rightarrow> int" where
  "line_amount l = l_extended_price l * (100 - l_discount l) div 100 * (100 + l_tax l) div 100"

lemma line_amount_bounds:
  assumes "line_ok e l"
  shows "0 \<le> line_amount l" "line_amount l \<le> 11334600"
proof -
  let ?p = "rpb_routine (l_partkey l)"
  have l: "1 \<le> l_quantity l" "l_quantity l \<le> 50" "0 \<le> l_discount l" "l_discount l \<le> 10" "0 \<le> l_tax l" "l_tax l \<le> 8"
    "l_extended_price l = ?p * l_quantity l" and p: "90000 \<le> ?p" "?p \<le> 209900"
    using assms rpb_bounds [of "l_partkey l"] by (simp_all add: line_ok_def)
  have x: "0 \<le> l_extended_price l" "l_extended_price l \<le> 209900 * 50"
    unfolding l(7) using l p by (simp, intro mult_mono) simp_all
  define y where "y = l_extended_price l * (100 - l_discount l) div 100"
  have "l_extended_price l * (100 - l_discount l) \<le> 209900 * 50 * 100" using x l by (intro mult_mono) simp_all
  then have "y \<le> 209900 * 50 * 100 div 100" unfolding y_def by (rule zdiv_mono1) simp
  moreover have "0 \<le> y" using x l by (simp add: y_def pos_imp_zdiv_nonneg_iff)
  ultimately have y: "0 \<le> y" "y \<le> 10495000" by simp_all
  have "y * (100 + l_tax l) \<le> 10495000 * 108" using y l by (intro mult_mono) simp_all
  then have "y * (100 + l_tax l) div 100 \<le> 10495000 * 108 div 100" by (rule zdiv_mono1) simp
  then show "line_amount l \<le> 11334600" by (simp add: line_amount_def y_def [symmetric])
  show "0 \<le> line_amount l"
    unfolding line_amount_def y_def [symmetric] using y(1) l(5) by (simp add: pos_imp_zdiv_nonneg_iff)
qed

lemma key_limits:
  assumes "benv_ok e"
  shows "200000 \<le> L_PKEY_MAX e" "L_PKEY_MAX e \<le> 1400000" "2000 \<le> L_SKEY_MAX e" "L_SKEY_MAX e \<le> 2000000"
    "30000 \<le> O_CKEY_MAX e" "O_CKEY_MAX e \<le> 30000000"
proof -
  have b: "td_base (be_tdefs e ! 0) = 200000" "td_base (be_tdefs e ! 2) = 2000" "td_base (be_tdefs e ! 3) = 30000"
    "1 \<le> be_scale e" "be_scale e \<le> 1000" using assms by (simp_all add: benv_ok_def tdefs_ok_def)
  have "0 \<le> floor_log (be_scale e)" "floor_log (be_scale e) \<le> 6" by (simp_all add: floor_log_def)
  then show "200000 \<le> L_PKEY_MAX e" "L_PKEY_MAX e \<le> 1400000" "2000 \<le> L_SKEY_MAX e" "L_SKEY_MAX e \<le> 2000000"
    "30000 \<le> O_CKEY_MAX e" "O_CKEY_MAX e \<le> 30000000"
    using b by (simp_all add: L_PKEY_MAX_def L_SKEY_MAX_def O_CKEY_MAX_def)
qed

definition line_draws :: "nat \<Rightarrow> nat" where
  "line_draws i = one_at 19 i + one_at 20 i + one_at 14 i + one_at 15 i + one_at 16 i + one_at 22 i + one_at 18 i"

lemma date_entry_take:
  assumes "0 \<le> i" "i < k" "k \<le> int (length ds)"
  shows "\<exists>d. date_entry ds i = Some d \<and> d = ds ! nat i \<and> d \<in> set (take (nat k) ds)"
proof -
  have "nat i < nat k" "nat i < length (take (nat k) ds)" using assms by auto
  then have "ds ! nat i \<in> set (take (nat k) ds)" by (metis nth_mem nth_take)
  then show ?thesis using assms by (simp add: date_entry_def)
qed

lemma mk_line_total:
  assumes s: "rng_ok s" and e: "benv_ok e" and t: "STARTDATE \<le> td" "td \<le> STARTDATE + 2405"
  obtains l s' where "mk_line e ok ck td od op 0 n s = Some (l, line_amount l, s')" "line_ok e l"
    "l_okey l = ok" "l_linenumber l = n + 1" "l_custkey l = ck" "l_orderdate l = od" "l_opriority l = take 11 op"
    "moves line_draws line_draws s s'"
proof -
  let ?M = "l_smode_set (be_dists e)"
  note K = key_limits [OF e]
  have M: "dist_ok ?M" and ascl: "length (asc_date e) = 2557" using e by (simp_all add: benv_ok_def dists_ok_def)
  obtain pk s1 where 1: "dss_random 1 (L_PKEY_MAX e) 19 s = (pk, s1)" "1 \<le> pk" "pk \<le> L_PKEY_MAX e" "rng_ok s1"
    "moves (one_at 19) (one_at 19) s s1" using draw [OF s, of 19 1 "L_PKEY_MAX e"] K by auto
  obtain sk s2 where 2: "dss_random 1 (L_SKEY_MAX e) 20 s1 = (sk, s2)" "1 \<le> sk" "sk \<le> L_SKEY_MAX e" "rng_ok s2"
    "moves (one_at 20) (one_at 20) s1 s2" using draw [OF 1(4), of 20 1 "L_SKEY_MAX e"] K by auto
  obtain q s3 where 3: "dss_random 1 50 14 s2 = (q, s3)" "1 \<le> q" "q \<le> 50" "rng_ok s3" "moves (one_at 14) (one_at 14) s2 s3"
    by (rule draw [OF 2(4), of 14 1 50, simplified])
  obtain d s4 where 4: "dss_random 0 10 15 s3 = (d, s4)" "0 \<le> d" "d \<le> 10" "rng_ok s4" "moves (one_at 15) (one_at 15) s3 s4"
    by (rule draw [OF 3(4), of 15 0 10, simplified])
  obtain x s5 where 5: "dss_random 0 8 16 s4 = (x, s5)" "0 \<le> x" "x \<le> 8" "rng_ok s5" "moves (one_at 16) (one_at 16) s4 s5"
    by (rule draw [OF 4(4), of 16 0 8, simplified])
  obtain c s6 where 6: "dss_random 30 90 22 s5 = (c, s6)" "30 \<le> c" "c \<le> 90" "rng_ok s6" "moves (one_at 22) (one_at 22) s5 s6"
    by (rule draw [OF 5(4), of 22 30 90, simplified])
  obtain cd where cd: "date_entry (asc_date e) (c + td - STARTDATE) = Some cd" "cd \<in> set (take 2496 (asc_date e))"
    using date_entry_take [of "c + td - STARTDATE" 2496 "asc_date e"] t 6 ascl by auto
  obtain k s7 where 7: "pick_str ?M 18 s6 = Some (k, sm_text (dlist ?M ! k), s7)" "k < length (dlist ?M)"
    "moves (one_at 18) (one_at 18) s6 s7" "rng_ok s7"
    by (rule pick [OF 6(4) M, of 18, simplified])
  define l where "l = \<lparr>l_okey = ok, l_linenumber = n + 1, l_custkey = ck, l_partkey = pk, l_suppkey = sk,
    l_orderdate = od, l_opriority = line_opriority op, l_ship_priority = 0, l_quantity = q,
    l_extended_price = rpb_routine pk * q, l_order_totalprice = 0, l_discount = d,
    l_revenue = rpb_routine pk * q * (100 - d) sdiv PENNIES, l_supp_cost = 6 * rpb_routine pk sdiv 10, l_tax = x,
    l_commit_date = cd, l_shipmode = sm_text (dlist ?M ! k)\<rparr>"
  have rp: "0 \<le> rpb_routine pk" using rpb_bounds [of pk] 1(2) by simp
  have x0: "0 \<le> rpb_routine pk * q * (100 - d)" using rp 3(2) 4(3) by simp
  have sd: "rpb_routine pk * q * (100 - d) sdiv 100 = rpb_routine pk * q * (100 - d) div 100"
    "6 * rpb_routine pk sdiv 10 = 6 * rpb_routine pk div 10" using x0 rp by (simp_all add: sdiv_nonneg)
  have am: "(rpb_routine pk * q * (100 - d)) sdiv 100 * (100 + x) sdiv 100 = line_amount l"
    unfolding sd using x0 5(2) by (simp add: line_amount_def l_def sdiv_nonneg pos_imp_zdiv_nonneg_iff)
  show thesis
  proof
    show "mk_line e ok ck td od op 0 n s = Some (l, line_amount l, s7)"
      unfolding am [symmetric]
      by (simp add: mk_line_def 1(1) 2(1) 3(1) 4(1) 5(1) 6(1) cd(1) [simplified] 7(1) l_def Let_def)
    show "line_ok e l" using 1 2 3 4 5 7(2) cd(2) sd by (simp add: line_ok_def l_def)
    show "moves line_draws line_draws s s7"
      using moves_trans [OF moves_trans [OF moves_trans [OF moves_trans [OF moves_trans [OF moves_trans [OF 1(5) 2(5)] 3(5)]
        4(5)] 5(5)] 6(5)] 7(3)] by (simp add: line_draws_def [abs_def])
  qed (simp_all add: l_def line_opriority_def)
qed

lemma mk_lines_total:
  assumes e: "benv_ok e" and t: "STARTDATE \<le> td" "td \<le> STARTDATE + 2405"
  shows "rng_ok s \<Longrightarrow> 0 \<le> tp \<Longrightarrow> tp + int k * 11334600 < 2 ^ 31 \<Longrightarrow>
    \<exists>ls s'. mk_lines k e ok ck td od op 0 n tp s = Some (ls, tp + sum_list (map line_amount ls), s') \<and> length ls = k \<and>
      (\<forall>l \<in> set ls. line_ok e l \<and> l_okey l = ok \<and> l_custkey l = ck \<and> l_orderdate l = od \<and> l_opriority l = take 11 op) \<and>
      map l_linenumber ls = map (\<lambda>i. n + 1 + int i) [0..<k] \<and>
      moves (\<lambda>i. k * line_draws i) (\<lambda>i. k * line_draws i) s s'"
proof (induction k arbitrary: n tp s)
  case 0
  then show ?case by (simp add: moves_refl)
next
  case (Suc k)
  obtain l s1 where l: "mk_line e ok ck td od op 0 n s = Some (l, line_amount l, s1)" "line_ok e l"
    "l_okey l = ok" "l_linenumber l = n + 1" "l_custkey l = ck" "l_orderdate l = od" "l_opriority l = take 11 op"
    "moves line_draws line_draws s s1" by (rule mk_line_total [OF Suc.prems(1) e t])
  have a: "0 \<le> line_amount l" "line_amount l \<le> 11334600" using line_amount_bounds [OF l(2)] by simp_all
  define tp' where "tp' = tp + line_amount l"
  have tp': "0 \<le> tp'" "tp' + int k * 11334600 < 2 ^ 31" "c_int (tp + line_amount l) = tp'"
    using a Suc.prems(2,3) by (simp_all add: tp'_def c_int_id)
  from Suc.IH [OF moves_ok [OF l(8) Suc.prems(1)] tp'(1,2), of "n + 1"] obtain ls s2 where
    ls: "mk_lines k e ok ck td od op 0 (n + 1) tp' s1 = Some (ls, tp' + sum_list (map line_amount ls), s2)" "length ls = k"
      "\<forall>l \<in> set ls. line_ok e l \<and> l_okey l = ok \<and> l_custkey l = ck \<and> l_orderdate l = od \<and> l_opriority l = take 11 op"
      "map l_linenumber ls = map (\<lambda>i. n + 1 + 1 + int i) [0..<k]"
      "moves (\<lambda>i. k * line_draws i) (\<lambda>i. k * line_draws i) s1 s2" by blast
  have num: "map l_linenumber (l # ls) = map (\<lambda>i. n + 1 + int i) [0..<Suc k]"
    using ls(4) l(4) by (simp add: map_upt_Suc add.assoc del: upt_Suc)
  have "mk_lines (Suc k) e ok ck td od op 0 n tp s = Some (l # ls, tp + sum_list (map line_amount (l # ls)), s2)"
    by (simp add: l(1) tp'(3) ls(1)) (simp add: tp'_def)
  moreover have "moves (\<lambda>i. Suc k * line_draws i) (\<lambda>i. Suc k * line_draws i) s s2"
    using moves_trans [OF l(8) ls(5)] by simp
  ultimately show ?case using num ls(2,3) l by (intro exI [of _ "l # ls"] exI [of _ s2]) simp
qed

text \<open>An order and its lines: one to seven lines, numbered from 1, with the order's key, customer, date
  and (truncated) priority, and the total of their amounts, which does not overflow the \<open>int\<close>.\<close>

definition order_ok :: "benv \<Rightarrow> int \<Rightarrow> int \<Rightarrow> order_t \<Rightarrow> bool" where
  "order_ok e upd n ord \<longleftrightarrow> o_okey ord = mk_sparse (be_scale e) n (order_seq (be_refresh e) upd) \<and>
     1 \<le> o_custkey ord \<and> o_custkey ord \<le> O_CKEY_MAX e \<and> o_custkey ord mod 3 \<noteq> 0 \<and>
     o_odate ord \<in> set (take 2406 (asc_date e)) \<and>
     o_opriority ord \<in> sm_text ` set (dlist (o_priority_set (be_dists e))) \<and>
     1 \<le> o_lines ord \<and> o_lines ord \<le> 7 \<and> int (length (o_lineorders ord)) = o_lines ord \<and>
     (\<forall>l \<in> set (o_lineorders ord). line_ok e l \<and> l_okey l = o_okey ord \<and> l_custkey l = o_custkey ord \<and>
       l_orderdate l = o_odate ord \<and> l_opriority l = take 11 (o_opriority ord) \<and>
       l_order_totalprice l = o_totalprice ord) \<and>
     map l_linenumber (o_lineorders ord) = map (\<lambda>i. 1 + int i) [0..<length (o_lineorders ord)] \<and>
     o_totalprice ord = sum_list (map line_amount (o_lineorders ord)) \<and>
     0 \<le> o_totalprice ord \<and> o_totalprice ord < 2 ^ 31"

definition order_draws :: "nat \<Rightarrow> nat" where
  "order_draws i = one_at 13 i + one_at 40 i + one_at 38 i + one_at 11 i + one_at 43 i"

lemma line_ok_total [simp]:
  "line_ok e (l\<lparr>l_order_totalprice := t\<rparr>) = line_ok e l" "line_amount (l\<lparr>l_order_totalprice := t\<rparr>) = line_amount l"
  by (simp_all add: line_ok_def line_amount_def)

lemma mk_order_total:
  assumes s: "rng_ok s" and e: "benv_ok e"
  obtains ord s' a where "mk_order e upd n s = Some (ord, s')" "order_ok e upd n ord" "a \<le> 7"
    "moves (\<lambda>i. order_draws i + a * line_draws i) (\<lambda>i. order_draws i + a * line_draws i) s s'"
proof -
  let ?P = "o_priority_set (be_dists e)"
  note K = key_limits [OF e]
  have P: "dist_ok ?P" and ascl: "length (asc_date e) = 2557" and sc: "1 \<le> be_scale e" "be_scale e \<le> 1000"
    using e by (simp_all add: benv_ok_def dists_ok_def)
  obtain td s1 where 1: "dss_random O_ODATE_MIN O_ODATE_MAX 13 s = (td, s1)" "STARTDATE \<le> td" "td \<le> STARTDATE + 2405"
    "rng_ok s1" "moves (one_at 13) (one_at 13) s s1"
    using draw [OF s, of 13 O_ODATE_MIN O_ODATE_MAX] by auto
  obtain od where od: "date_entry (asc_date e) (td - STARTDATE) = Some od" "od \<in> set (take 2406 (asc_date e))"
    using date_entry_take [of "td - STARTDATE" 2406 "asc_date e"] 1 ascl by auto
  obtain ck0 s2 where 2: "dss_random 1 (O_CKEY_MAX e) 40 s1 = (ck0, s2)" "1 \<le> ck0" "ck0 \<le> O_CKEY_MAX e" "rng_ok s2"
    "moves (one_at 40) (one_at 40) s1 s2" using draw [OF 1(4), of 40 1 "O_CKEY_MAX e"] K by auto
  obtain ck where ck: "mortality_loop (O_CKEY_MAX e) ck0 1 = Some ck" "1 \<le> ck" "ck \<le> O_CKEY_MAX e" "ck mod 3 \<noteq> 0"
    by (rule mortality_ends [OF 2(2,3)])
  obtain k s3 where 3: "pick_str ?P 38 s2 = Some (k, sm_text (dlist ?P ! k), s3)" "k < length (dlist ?P)"
    "moves (one_at 38) (one_at 38) s2 s3" "rng_ok s3" by (rule pick [OF 2(4) P, of 38, simplified])
  have cb: "1 \<le> c_MAX (be_scale e * 1000) 1000" "c_MAX (be_scale e * 1000) 1000 - 1 < 2 ^ 53 - 1"
    using sc by (simp_all add: c_MAX_def)
  obtain cl s4 where 4: "dss_random 1 (c_MAX (be_scale e * 1000) 1000) 11 s3 = (cl, s4)" "rng_ok s4"
    "moves (one_at 11) (one_at 11) s3 s4"
    by (rule draw [OF 3(4) _ _ cb, of 11, simplified]) (rule that)
  obtain ln s5 where 5: "dss_random 1 7 43 s4 = (ln, s5)" "1 \<le> ln" "ln \<le> 7" "rng_ok s5" "moves (one_at 43) (one_at 43) s4 s5"
    by (rule draw [OF 4(2), of 43 1 7, simplified])
  let ?ok = "mk_sparse (be_scale e) n (order_seq (be_refresh e) upd)"
  have tb: "0 + int (nat ln) * 11334600 < 2 ^ 31" using 5(2,3) by simp
  obtain ls s6 where 6: "mk_lines (nat ln) e ?ok ck td od (sm_text (dlist ?P ! k)) 0 0 0 s5 =
      Some (ls, 0 + sum_list (map line_amount ls), s6)" "length ls = nat ln"
    "\<forall>l \<in> set ls. line_ok e l \<and> l_okey l = ?ok \<and> l_custkey l = ck \<and> l_orderdate l = od \<and>
       l_opriority l = take 11 (sm_text (dlist ?P ! k))"
    "map l_linenumber ls = map (\<lambda>i. 0 + 1 + int i) [0..<nat ln]"
    "moves (\<lambda>i. nat ln * line_draws i) (\<lambda>i. nat ln * line_draws i) s5 s6"
    using mk_lines_total [OF e 1(2,3) 5(4) order_refl tb, of ?ok ck od "sm_text (dlist ?P ! k)" 0] by blast
  let ?T = "sum_list (map line_amount ls)"
  have T: "0 \<le> ?T" "?T \<le> int (length ls) * 11334600"
  proof -
    have "\<forall>x \<in> set (map line_amount ls). 0 \<le> x \<and> x \<le> 11334600" using 6(3) line_amount_bounds by auto
    then show "0 \<le> ?T" "?T \<le> int (length ls) * 11334600" by (induction ls) (auto simp: algebra_simps)
  qed
  define ord where "ord = \<lparr>o_okey = ?ok, o_custkey = ck, o_totalprice = ?T, o_odate = od,
     o_opriority = sm_text (dlist ?P ! k), o_spriority = 0, o_lines = ln,
     o_lineorders = map (\<lambda>l. l\<lparr>l_order_totalprice := ?T\<rparr>) ls\<rparr>"
  show thesis
  proof
    show "mk_order e upd n s = Some (ord, s6)"
      using 1(1) by (simp add: mk_order_def od(1) [simplified] 2(1) ck(1) 3(1) 4(1) 5(1) 6(1) [simplified] ord_def Let_def)
    show "order_ok e upd n ord"
      using ck od(2) 3(2) 5(2,3) 6(2-4) T by (simp add: order_ok_def ord_def comp_def del: upt_Suc)
    show "nat ln \<le> 7" using 5(3) by simp
    show "moves (\<lambda>i. order_draws i + nat ln * line_draws i) (\<lambda>i. order_draws i + nat ln * line_draws i) s s6"
      using moves_trans [OF moves_trans [OF moves_trans [OF moves_trans [OF moves_trans [OF 1(5) 2(5)] 3(3)] 4(3)] 5(5)] 6(5)]
      by (simp add: order_draws_def [abs_def])
  qed
qed

abbreviation line_rate :: "nat \<Rightarrow> nat" where
  "line_rate \<equiv> row_rate LINE order_draws (\<lambda>_. 0)"

lemma order_row_advances:
  assumes "rng_inv s" "benv_ok e"
  shows "\<exists>r s1 s2. mk_order e upd n (row_start LINE s) = Some (r, s1) \<and>
    row_stop False (be_tdefs e) LINE s1 = Some s2 \<and> advanced line_rate s s2 \<and> order_ok e upd n r"
proof -
  obtain c s1 a where c: "mk_order e upd n (row_start LINE s) = Some (c, s1)" "order_ok e upd n c" "a \<le> 7"
    "moves (\<lambda>i. order_draws i + a * line_draws i) (\<lambda>i. order_draws i + a * line_draws i) (row_start LINE s) s1"
    by (rule mk_order_total [OF rng_inv_ok [OF row_start_inv [OF assms(1)]] assms(2)])
  have "\<exists>s2. row_stop False (be_tdefs e) LINE s1 = Some s2 \<and> advanced line_rate s s2"
  proof (rule row_advances_rate [OF assms(1) c(4)])
    show "td_child (be_tdefs e ! nat LINE) = NONE" using tdefs_child [OF assms(2), of LINE] by simp
    fix i :: nat
    show "order_draws i + a * line_draws i \<le> stream_boundary i" if "pads LINE i"
      using c(3) that by (auto simp: order_draws_def line_draws_def one_at_def stream_facts pads_def)
    show "order_draws i + a * line_draws i = order_draws i" if "\<not> pads LINE i"
      using that by (auto simp: line_draws_def one_at_def pads_def stream_facts)
  qed simp_all
  with c(1,2) show ?thesis by blast
qed

end
