(* ===== verification/Seek.thy ===== *)
theory Seek
  imports Build
begin

text \<open>
  Chunks of a table: the builders of \<open>Build\<close> as instances of the generator contract, and the seed
  routines of \<open>speed_seed.c\<close> as their way to skip rows.  For each table it is stated which columns a
  chunk generated after skipping shares with the whole table: the columns drawn from streams that
  the seed routine moves as the rows do.
\<close>

subsection \<open>Two runs side by side\<close>

lemma pair_draw:
  assumes "agree A s s'" "clip_stream c \<in> A"
  obtains x t t' where "dss_random lo hi c s = (x, t)" "dss_random lo hi c s' = (x, t')" "agree A t t'"
  using dss_random_same [OF assms, of lo hi] dss_random_agree [OF assms(1), of lo hi c]
  by (cases "dss_random lo hi c s"; cases "dss_random lo hi c s'") simp

lemma pair_draw_any:
  assumes "agree A s s'"
  obtains x x' t t' where "dss_random lo hi c s = (x, t)" "dss_random lo hi c s' = (x', t')" "agree A t t'"
  using dss_random_agree [OF assms(1), of lo hi c]
  by (cases "dss_random lo hi c s"; cases "dss_random lo hi c s'") simp

lemma agree_ok: "agree A s s' \<Longrightarrow> rng_ok s" "agree A s s' \<Longrightarrow> rng_ok s'"
  by (simp_all add: agree_def)

lemma pair_a_rnd:
  assumes g: "agree A s s'" and c: "nat c \<in> A" "0 \<le> c" "c \<le> 47" and b: "0 \<le> mn" "mn \<le> mx" "mx < 2 ^ 31"
  obtains len d t t' where "a_rnd mn mx c s = (len, d, t)" "a_rnd mn mx c s' = (len, d, t')" "agree A t t'"
proof -
  obtain len d t where 1: "a_rnd mn mx c s = (len, d, t)"
    "moves (\<lambda>j. (1 + (nat len + 4) div 5) * one_at (nat c) j) (\<lambda>j. (1 + (nat len + 4) div 5) * one_at (nat c) j) s t"
    by (rule a_rnd_props [OF agree_ok(1) [OF g] c(2,3) b])
  obtain len' d' t' where 2: "a_rnd mn mx c s' = (len', d', t')"
    "moves (\<lambda>j. (1 + (nat len' + 4) div 5) * one_at (nat c) j) (\<lambda>j. (1 + (nat len' + 4) div 5) * one_at (nat c) j) s' t'"
    by (rule a_rnd_props [OF agree_ok(2) [OF g] c(2,3) b])
  have "len' = len" "d' = d" using a_rnd_same [OF g c, of mn mx] by (simp_all add: 1(1) 2(1))
  then show thesis using that [OF 1(1)] 2 agree_moves [OF g 1(2) 2(2)] by simp
qed

lemma pair_pick:
  assumes g: "agree A s s'" and d: "dist_ok d" and c: "nat c \<in> A" "0 \<le> c" "c \<le> 47"
  obtains k t t' where "pick_str d c s = Some (k, sm_text (dlist d ! k), t)"
    "pick_str d c s' = Some (k, sm_text (dlist d ! k), t')" "agree A t t'"
proof -
  obtain k t where 1: "pick_str d c s = Some (k, sm_text (dlist d ! k), t)" "moves (one_at (nat c)) (one_at (nat c)) s t"
    by (rule pick [OF agree_ok(1) [OF g] d c(2,3)])
  obtain k' t' where 2: "pick_str d c s' = Some (k', sm_text (dlist d ! k'), t')" "moves (one_at (nat c)) (one_at (nat c)) s' t'"
    by (rule pick [OF agree_ok(2) [OF g] d c(2,3)])
  have "k' = k" using pick_str_same [OF g c, of d] by (simp add: 1(1) 2(1))
  then show thesis using that [OF 1(1)] 2(1) agree_moves [OF g 1(2) 2(2)] by simp
qed

lemma pair_pick_any:
  assumes g: "agree A s s'" and d: "dist_ok d" and c: "0 \<le> c" "c \<le> 47"
  obtains k k' t t' where "pick_str d c s = Some (k, sm_text (dlist d ! k), t)"
    "pick_str d c s' = Some (k', sm_text (dlist d ! k'), t')" "agree A t t'"
proof -
  obtain k t where 1: "pick_str d c s = Some (k, sm_text (dlist d ! k), t)" "moves (one_at (nat c)) (one_at (nat c)) s t"
    by (rule pick [OF agree_ok(1) [OF g] d c])
  obtain k' t' where 2: "pick_str d c s' = Some (k', sm_text (dlist d ! k'), t')" "moves (one_at (nat c)) (one_at (nat c)) s' t'"
    by (rule pick [OF agree_ok(2) [OF g] d c])
  show thesis by (rule that [OF 1(1) 2(1) agree_moves [OF g 1(2) 2(2) refl]])
qed

lemma pair_phone:
  assumes g: "agree A s s'" and c: "clip_stream c \<in> A"
  obtains ph t t' where "gen_phone i c s = (ph, t)" "gen_phone i c s' = (ph, t')" "agree A t t'"
proof -
  obtain a t1 t1' where 1: "dss_random 100 999 c s = (a, t1)" "dss_random 100 999 c s' = (a, t1')" "agree A t1 t1'"
    by (rule pair_draw [OF g c])
  obtain b t2 t2' where 2: "dss_random 100 999 c t1 = (b, t2)" "dss_random 100 999 c t1' = (b, t2')" "agree A t2 t2'"
    by (rule pair_draw [OF 1(3) c])
  obtain n t3 t3' where 3: "dss_random 1000 9999 c t2 = (n, t3)" "dss_random 1000 9999 c t2' = (n, t3')" "agree A t3 t3'"
    by (rule pair_draw [OF 2(3) c])
  show thesis by (rule that [OF _ _ 3(3)]) (simp_all add: gen_phone_def 1 2 3)
qed

lemma pair_phone_any:
  assumes g: "agree A s s'"
  obtains ph ph' t t' where "gen_phone i c s = (ph, t)" "gen_phone i c s' = (ph', t')" "agree A t t'"
proof -
  obtain a a' t1 t1' where 1: "dss_random 100 999 c s = (a, t1)" "dss_random 100 999 c s' = (a', t1')" "agree A t1 t1'"
    by (rule pair_draw_any [OF g])
  obtain b b' t2 t2' where 2: "dss_random 100 999 c t1 = (b, t2)" "dss_random 100 999 c t1' = (b', t2')" "agree A t2 t2'"
    by (rule pair_draw_any [OF 1(3)])
  obtain n n' t3 t3' where 3: "dss_random 1000 9999 c t2 = (n, t3)" "dss_random 1000 9999 c t2' = (n', t3')" "agree A t3 t3'"
    by (rule pair_draw_any [OF 2(3)])
  show thesis by (rule that [OF _ _ 3(3)]) (simp_all add: gen_phone_def 1 2 3)
qed

lemma pair_city:
  assumes g: "agree A s s'"
  obtains ci ci' t t' where "gen_city n s = (ci, t)" "gen_city n s' = (ci', t')" "agree A t t'"
proof -
  obtain a a' t t' where 1: "dss_random 0 9 98 s = (a, t)" "dss_random 0 9 98 s' = (a', t')" "agree A t t'"
    by (rule pair_draw_any [OF g])
  show thesis by (rule that [OF _ _ 1(3)]) (simp_all add: gen_city_def 1)
qed

lemma seekableI:
  assumes "row_generator mk tdefs t rate"
    and "\<And>s s' j. agree A s s' \<Longrightarrow> map_option (view \<circ> fst) (mk j s) = map_option (view \<circ> fst) (mk j s')"
    and "\<And>s n. rng_inv s \<Longrightarrow> n < limit \<Longrightarrow> \<exists>s'. skip (int n) s = Some s' \<and> rng_inv s' \<and>
      (\<forall>i \<in> A. val s' i = (NextRand ^^ (n * rate i)) (val s i))"
    and "\<And>i. i \<in> A \<Longrightarrow> i < 48"
  shows "seekable mk tdefs t rate A view skip limit"
proof (rule seekable.intro [OF assms(1)])
  show "seekable_axioms mk rate A view skip limit"
  proof
    fix s s' :: rng and j :: int
    assume "rng_inv s" "rng_inv s'" "\<And>i. i \<in> A \<Longrightarrow> val s i = val s' i"
    then show "map_option (view \<circ> fst) (mk j s) = map_option (view \<circ> fst) (mk j s')"
      using assms(4) by (intro assms(2)) (auto simp: agree_def rng_inv_ok)
  qed (use assms(3,4) in auto)
qed

subsection \<open>Customers: every column but the city\<close>

definition cust_view :: "customer_t \<Rightarrow> customer_t" where
  "cust_view c = c\<lparr>c_city := []\<rparr>"

lemma cust_view_local:
  assumes e: "benv_ok e" and g: "agree {26, 27, 28, 30} s s'"
  shows "map_option (cust_view \<circ> fst) (mk_cust e n s) = map_option (cust_view \<circ> fst) (mk_cust e n s')"
proof -
  note D = e [unfolded benv_ok_def dists_ok_def] and nb = nations_bound [OF e]
  have mseg: "dist_ok (c_mseg_set (be_dists e))" using D by simp
  let ?A = "{26, 27, 28, 30} :: nat set"
  obtain len ad t1 t1' where 1: "a_rnd 6 24 26 s = (len, ad, t1)" "a_rnd 6 24 26 s' = (len, ad, t1')" "agree ?A t1 t1'"
    by (rule pair_a_rnd [OF g, of 26 6 24]) simp_all
  obtain i t2 t2' where 2: "dss_random 0 (dcount (nations (be_dists e)) - 1) 27 t1 = (i, t2)"
    "dss_random 0 (dcount (nations (be_dists e)) - 1) 27 t1' = (i, t2')" "agree ?A t2 t2'"
    by (rule pair_draw [OF 1(3), of 27]) simp_all
  have i: "0 \<le> i" "i \<le> dcount (nations (be_dists e)) - 1"
    using dss_random_bounds [OF agree_ok(1) [OF 1(3)] nb, of 27] by (simp_all add: 2(1))
  obtain na r where nr: "dist_entry (nations (be_dists e)) i = Some na" "dist_entry (regions (be_dists e)) (weight na) = Some r"
    using nation_entry [OF _ i] D by blast
  obtain ci ci' t3 t3' where 3: "gen_city (sm_text na) t2 = (ci, t3)" "gen_city (sm_text na) t2' = (ci', t3')" "agree ?A t3 t3'"
    by (rule pair_city [OF 2(3)])
  obtain ph t4 t4' where 4: "gen_phone i 28 t3 = (ph, t4)" "gen_phone i 28 t3' = (ph, t4')" "agree ?A t4 t4'"
    by (rule pair_phone [OF 3(3), of 28]) simp_all
  obtain k t5 t5' where 5: "pick_str (c_mseg_set (be_dists e)) 30 t4 = Some (k, sm_text (dlist (c_mseg_set (be_dists e)) ! k), t5)"
    "pick_str (c_mseg_set (be_dists e)) 30 t4' = Some (k, sm_text (dlist (c_mseg_set (be_dists e)) ! k), t5')"
    by (rule pair_pick [OF 4(3) mseg, of 30]) simp_all
  show ?thesis by (simp add: mk_cust_def V_STR_15 1 2 nr 3 4 5 cust_view_def)
qed

text \<open>The seed routine of a table, on the streams it is meant for.\<close>

lemma fake_v_str_calls:
  "rng_inv s \<Longrightarrow> 0 \<le> sd \<Longrightarrow> sd < 48 \<Longrightarrow> fake_v_str s sd n = (sd, int (stream_boundary (nat sd)) * n)"
  using frame_nth(2) [of s "nat sd"] by (simp add: fake_v_str_def nat_less_iff)

lemma seed_routine:
  assumes "rng_inv s" "r = advance_all calls s" "calls_ok calls"
    and "\<And>i. i \<in> A \<Longrightarrow> i < 48 \<and> call_steps calls i = n * rate i"
  shows "\<exists>s'. r = Some s' \<and> rng_inv s' \<and> (\<forall>i \<in> A. val s' i = (NextRand ^^ (n * rate i)) (val s i))"
proof -
  obtain t where t: "advance_all calls s = Some t" "advanced (call_steps calls) s t"
    using advance_all_advances [OF assms(1,3)] by blast
  have "val t i = (NextRand ^^ (n * rate i)) (val s i)" if "i \<in> A" for i
    using t(2) assms(4) [OF that] unfolding advanced_def by metis
  then show ?thesis using t assms(2) by (auto simp: advanced_def)
qed

lemma sd_cust_skips:
  assumes "rng_inv s" "n < 238609294"
  shows "\<exists>s'. sd_cust 0 (int n) s = Some s' \<and> rng_inv s' \<and>
    (\<forall>i \<in> {26, 27, 28, 30}. val s' i = (NextRand ^^ (n * cust_rate i)) (val s i))"
proof (rule seed_routine [OF assms(1)])
  show "sd_cust 0 (int n) s = advance_all [(26, 9 * int n), (31, int (stream_boundary 31) * int n), (27, int n),
      (28, 3 * int n), (29, int n), (30, int n)] s"
    by (simp add: sd_cust_def fake_v_str_calls [OF assms(1)] stream_facts del: advance_all.simps)
  fix i :: nat
  assume "i \<in> {26, 27, 28, 30}"
  then show "i < 48 \<and> call_steps [(26, 9 * int n), (31, int (stream_boundary 31) * int n), (27, int n),
      (28, 3 * int n), (29, int n), (30, int n)] i = n * cust_rate i"
    using assms(2) by (auto simp: call_steps_def row_rate_def pads_def stream_facts one_at_def nat_mult_distrib)
qed (simp add: calls_ok_def)

lemma cust_generator: "benv_ok e \<Longrightarrow> row_generator (mk_cust e) (be_tdefs e) CUST cust_rate"
  by unfold_locales (use cust_row_advances in blast)

lemma cust_seekable:
  assumes "benv_ok e"
  shows "seekable (mk_cust e) (be_tdefs e) CUST cust_rate {26, 27, 28, 30} cust_view (sd_cust 0) 238609294"
  by (rule seekableI [OF cust_generator [OF assms] cust_view_local [OF assms] sd_cust_skips]) auto

subsection \<open>Suppliers: every column but the city and the phone\<close>

text \<open>\<open>mk_supp\<close> draws the phone from the customers' stream, which \<open>sd_supp\<close> does not move.\<close>

definition supp_view :: "supplier_t \<Rightarrow> supplier_t" where
  "supp_view c = c\<lparr>s_city := [], s_phone := []\<rparr>"

lemma supp_view_local:
  assumes e: "benv_ok e" and g: "agree {32, 33} s s'"
  shows "map_option (supp_view \<circ> fst) (mk_supp e n s) = map_option (supp_view \<circ> fst) (mk_supp e n s')"
proof -
  note D = e [unfolded benv_ok_def dists_ok_def] and nb = nations_bound [OF e]
  let ?A = "{32, 33} :: nat set"
  obtain len ad t1 t1' where 1: "a_rnd 6 24 32 s = (len, ad, t1)" "a_rnd 6 24 32 s' = (len, ad, t1')" "agree ?A t1 t1'"
    by (rule pair_a_rnd [OF g, of 32 6 24]) simp_all
  obtain i t2 t2' where 2: "dss_random 0 (dcount (nations (be_dists e)) - 1) 33 t1 = (i, t2)"
    "dss_random 0 (dcount (nations (be_dists e)) - 1) 33 t1' = (i, t2')" "agree ?A t2 t2'"
    by (rule pair_draw [OF 1(3), of 33]) simp_all
  have i: "0 \<le> i" "i \<le> dcount (nations (be_dists e)) - 1"
    using dss_random_bounds [OF agree_ok(1) [OF 1(3)] nb, of 33] by (simp_all add: 2(1))
  obtain na r where nr: "dist_entry (nations (be_dists e)) i = Some na" "dist_entry (regions (be_dists e)) (weight na) = Some r"
    using nation_entry [OF _ i] D by blast
  obtain ci ci' t3 t3' where 3: "gen_city (sm_text na) t2 = (ci, t3)" "gen_city (sm_text na) t2' = (ci', t3')" "agree ?A t3 t3'"
    by (rule pair_city [OF 2(3)])
  obtain ph ph' t4 t4' where 4: "gen_phone i 28 t3 = (ph, t4)" "gen_phone i 28 t3' = (ph', t4')" "agree ?A t4 t4'"
    by (rule pair_phone_any [OF 3(3)])
  show ?thesis by (simp add: mk_supp_def V_STR_15 1 2 nr 3 4 supp_view_def)
qed

lemma sd_supp_skips:
  assumes "rng_inv s" "n < 238609294"
  shows "\<exists>s'. sd_supp 0 (int n) s = Some s' \<and> rng_inv s' \<and>
    (\<forall>i \<in> {32, 33}. val s' i = (NextRand ^^ (n * supp_rate i)) (val s i))"
proof -
  let ?calls = "[(33, int n), (34, 3 * int n), (35, int n), (32, 9 * int n), (36, int (stream_boundary 36) * int n),
      (46, int n), (44, int n), (47, int n), (45, int n)]"
  have 1: "sd_supp 0 (int n) s = advance_all ?calls s"
    by (simp add: sd_supp_def fake_v_str_calls [OF assms(1)] stream_facts del: advance_all.simps)
  have 2: "calls_ok ?calls" by (simp add: calls_ok_def)
  have "call_steps ?calls 32 = nat (9 * int n) mod 2 ^ 31" "call_steps ?calls 33 = nat (int n) mod 2 ^ 31"
    by (simp_all add: call_steps_def)
  then have 3: "call_steps ?calls 32 = 9 * n" "call_steps ?calls 33 = n"
    using assms(2) by (simp_all add: nat_mult_distrib)
  have 4: "supp_rate 32 = 9" "supp_rate 33 = 1"
    by (simp_all add: row_rate_def pads_def stream_facts one_at_def)
  show ?thesis
    by (rule seed_routine [OF assms(1) 1 2]) (use 3 4 in auto)
qed

lemma supp_generator: "benv_ok e \<Longrightarrow> row_generator (mk_supp e) (be_tdefs e) SUPP supp_rate"
  by unfold_locales (use supp_row_advances in blast)

lemma supp_seekable:
  assumes "benv_ok e"
  shows "seekable (mk_supp e) (be_tdefs e) SUPP supp_rate {32, 33} supp_view (sd_supp 0) 238609294"
  by (rule seekableI [OF supp_generator [OF assms] supp_view_local [OF assms] sd_supp_skips]) auto

subsection \<open>Parts: every column but manufacturer, category and brand\<close>

text \<open>The category is drawn from the stray stream, which moves the manufacturers' one.\<close>

lemma pair_step:
  assumes "agree A s s'" "clip_stream c \<in> A"
  obtains b t t' where "permute_step n c (a, s) i = (b, t)" "permute_step n c (a, s') i = (b, t')" "agree A t t'"
proof -
  obtain x t t' where "dss_random 0 (n - 1) c s = (x, t)" "dss_random 0 (n - 1) c s' = (x, t')" "agree A t t'"
    by (rule pair_draw [OF assms])
  then show thesis using that by (simp add: permute_step_def)
qed

lemma pair_fold:
  assumes c: "clip_stream c \<in> A"
  shows "agree A s s' \<Longrightarrow> \<exists>b t t'. foldl (permute_step n c) (a, s) is = (b, t) \<and>
    foldl (permute_step n c) (a, s') is = (b, t') \<and> agree A t t'"
proof (induction "is" arbitrary: a s s')
  case (Cons i ks)
  obtain b t t' where "permute_step n c (a, s) i = (b, t)" "permute_step n c (a, s') i = (b, t')" "agree A t t'"
    by (rule pair_step [OF Cons.prems c])
  then show ?case using Cons.IH by simp
qed simp

lemma pair_agg:
  assumes g: "agree A s s'" and d: "dist_sized d" "3 \<le> dcount d" and c: "clip_stream c \<in> A" "0 \<le> c" "c \<le> 47"
  obtains w p1 p2 t t' where "agg_str d 3 c p s = Some (w, p1, t)" "agg_str d 3 c p s' = Some (w, p2, t')" "agree A t t'"
proof -
  obtain b t t' where f: "foldl (permute_step (int (nat (dcount d))) c) (map int [0..<nat (dcount d)], s) [0..<nat (dcount d)] = (b, t)"
    "foldl (permute_step (int (nat (dcount d))) c) (map int [0..<nat (dcount d)], s') [0..<nat (dcount d)] = (b, t')"
    "agree A t t'" using pair_fold [OF c(1) g] by blast
  have n: "0 < (3 :: nat)" "3 \<le> nat (dcount d)" using d(2) by simp_all
  have three: "int 3 = 3" by simp
  obtain p1 where p1: "agg_str d 3 c p s = Some (butlast (concat (map (\<lambda>w. w @ '' '') (member_words d (take 3 b)))), p1, t)"
    using agg_str_words [OF d(1) agree_ok(1) [OF g] c(2,3) n, of p] unfolding shuffle_def f(1) three by auto
  obtain p2 where p2: "agg_str d 3 c p s' = Some (butlast (concat (map (\<lambda>w. w @ '' '') (member_words d (take 3 b)))), p2, t')"
    using agg_str_words [OF d(1) agree_ok(2) [OF g] c(2,3) n, of p] unfolding shuffle_def f(2) three by auto
  show thesis by (rule that [OF p1 p2 f(3)])
qed

definition part_view :: "part_t \<Rightarrow> part_t" where
  "part_view p = p\<lparr>p_mfgr := [], p_category := [], p_brand := []\<rparr>"

lemma part_view_local:
  assumes e: "benv_ok e" and g: "agree {1, 2, 3, 4, 37} s s'"
  shows "map_option (part_view \<circ> fst) (mk_part e n s) = map_option (part_view \<circ> fst) (mk_part e n s')"
proof -
  let ?C = "colors (be_dists e)" and ?T = "p_types_set (be_dists e)" and ?K = "p_cntr_set (be_dists e)"
  let ?A = "{1, 2, 3, 4, 37} :: nat set"
  have C: "dist_sized ?C" "3 \<le> dcount ?C" and TK: "dist_ok ?T" "dist_ok ?K"
    using e by (simp_all add: benv_ok_def dists_ok_def)
  obtain w p1 p2 t1 t1' where 1: "agg_str ?C 3 37 perm_init s = Some (w, p1, t1)"
    "agg_str ?C 3 37 perm_init s' = Some (w, p2, t1')" "agree ?A t1 t1'"
    by (rule pair_agg [OF g C, of 37]) simp_all
  obtain m m' t2 t2' where 2: "dss_random 1 5 0 t1 = (m, t2)" "dss_random 1 5 0 t1' = (m', t2')" "agree ?A t2 t2'"
    by (rule pair_draw_any [OF 1(3)])
  obtain c c' t3 t3' where 3: "dss_random 1 5 97 t2 = (c, t3)" "dss_random 1 5 97 t2' = (c', t3')" "agree ?A t3 t3'"
    by (rule pair_draw_any [OF 2(3)])
  obtain b b' t4 t4' where 4: "dss_random 1 40 1 t3 = (b, t4)" "dss_random 1 40 1 t3' = (b', t4')" "agree ?A t4 t4'"
    by (rule pair_draw_any [OF 3(3)])
  obtain ti t5 t5' where 5: "pick_str ?T 2 t4 = Some (ti, sm_text (dlist ?T ! ti), t5)"
    "pick_str ?T 2 t4' = Some (ti, sm_text (dlist ?T ! ti), t5')" "agree ?A t5 t5'"
    by (rule pair_pick [OF 4(3) TK(1), of 2]) simp_all
  obtain z t6 t6' where 6: "dss_random 1 50 3 t5 = (z, t6)" "dss_random 1 50 3 t5' = (z, t6')" "agree ?A t6 t6'"
    by (rule pair_draw [OF 5(3), of 3]) simp_all
  obtain ki t7 t7' where 7: "pick_str ?K 4 t6 = Some (ki, sm_text (dlist ?K ! ki), t7)"
    "pick_str ?K 4 t6' = Some (ki, sm_text (dlist ?K ! ki), t7')" "agree ?A t7 t7'"
    by (rule pair_pick [OF 6(3) TK(2), of 4]) simp_all
  show ?thesis
    by (cases "gen_color w") (simp_all add: mk_part_def 1 2 3 4 5 6 7 part_view_def split: prod.splits)
qed

lemma sd_part_skips:
  assumes "rng_inv s" "n < 23342213"
  shows "\<exists>s'. sd_part 0 (int n) s = Some s' \<and> rng_inv s' \<and>
    (\<forall>i \<in> {1, 2, 3, 4, 37}. val s' i = (NextRand ^^ (n * part_rate i)) (val s i))"
proof -
  let ?calls = "[(0, int n), (1, int n), (2, int n), (3, int n), (4, int n),
      (6, int (stream_boundary 6) * int n), (37, int n * 92)]"
  have up: "[0..4] = [0, 1, 2, 3, 4 :: int]" by (simp add: upto.simps)
  have 1: "sd_part 0 (int n) s = advance_all ?calls s"
    by (simp add: sd_part_def fake_v_str_calls [OF assms(1)] up del: advance_all.simps)
  have 2: "calls_ok ?calls" by (simp add: calls_ok_def)
  have "call_steps ?calls 37 = nat (int n * 92) mod 2 ^ 31" "call_steps ?calls 1 = nat (int n) mod 2 ^ 31"
    "call_steps ?calls 2 = nat (int n) mod 2 ^ 31" "call_steps ?calls 3 = nat (int n) mod 2 ^ 31"
    "call_steps ?calls 4 = nat (int n) mod 2 ^ 31"
    by (simp_all add: call_steps_def)
  then have 3: "call_steps ?calls 37 = n * 92" "call_steps ?calls 1 = n" "call_steps ?calls 2 = n" "call_steps ?calls 3 = n"
    "call_steps ?calls 4 = n"
    using assms(2) by (simp_all add: nat_mult_distrib)
  have 4: "part_rate 37 = 92" "part_rate 1 = 1" "part_rate 2 = 1" "part_rate 3 = 1" "part_rate 4 = 1"
    by (simp_all add: row_rate_def pads_def stream_facts one_at_def del: One_nat_def)
  show ?thesis
    by (rule seed_routine [OF assms(1) 1 2]) (use 3 4 in \<open>auto simp del: One_nat_def\<close>)
qed

lemma part_generator: "benv_ok e \<Longrightarrow> row_generator (mk_part e) (be_tdefs e) PART part_rate"
  by unfold_locales (use part_row_advances in blast)

lemma part_seekable:
  assumes "benv_ok e"
  shows "seekable (mk_part e) (be_tdefs e) PART part_rate {1, 2, 3, 4, 37} part_view (sd_part 0) 23342213"
  by (rule seekableI [OF part_generator [OF assms] part_view_local [OF assms] sd_part_skips]) auto

subsection \<open>Orders and lines: every column but the customer and the priority\<close>

text \<open>\<open>sd_line\<close> moves the lines' streams and, of the orders', those of the date and the line count; the
  streams of the customer key, the priority and the clerk are not moved.\<close>

definition line_view :: "lineorder_t \<Rightarrow> lineorder_t" where
  "line_view l = l\<lparr>l_custkey := 0, l_opriority := []\<rparr>"

definition order_view :: "order_t \<Rightarrow> order_t" where
  "order_view ord = ord\<lparr>o_custkey := 0, o_opriority := [], o_lineorders := map line_view (o_lineorders ord)\<rparr>"

lemma pair_line:
  assumes g: "agree A s s'" and A: "{14, 15, 16, 18, 19, 20, 22} \<subseteq> A" and e: "benv_ok e"
  shows "(\<exists>l l' x t t'. mk_line e okey ck td od op sp n s = Some (l, x, t) \<and>
      mk_line e okey ck' td od op' sp n s' = Some (l', x, t') \<and> line_view l = line_view l' \<and> agree A t t') \<or>
    mk_line e okey ck td od op sp n s = None \<and> mk_line e okey ck' td od op' sp n s' = None"
proof -
  let ?M = "l_smode_set (be_dists e)"
  have M: "dist_ok ?M" using e by (simp add: benv_ok_def dists_ok_def)
  have c: "clip_stream 19 \<in> A" "clip_stream 20 \<in> A" "clip_stream 14 \<in> A" "clip_stream 15 \<in> A" "clip_stream 16 \<in> A"
    "clip_stream 22 \<in> A" "nat 18 \<in> A" using A by (simp_all add: clip_stream_def)
  obtain pk t1 t1' where 1: "dss_random 1 (L_PKEY_MAX e) 19 s = (pk, t1)" "dss_random 1 (L_PKEY_MAX e) 19 s' = (pk, t1')"
    "agree A t1 t1'" by (rule pair_draw [OF g c(1)])
  obtain sk t2 t2' where 2: "dss_random 1 (L_SKEY_MAX e) 20 t1 = (sk, t2)" "dss_random 1 (L_SKEY_MAX e) 20 t1' = (sk, t2')"
    "agree A t2 t2'" by (rule pair_draw [OF 1(3) c(2)])
  obtain q t3 t3' where 3: "dss_random 1 50 14 t2 = (q, t3)" "dss_random 1 50 14 t2' = (q, t3')" "agree A t3 t3'"
    by (rule pair_draw [OF 2(3) c(3)])
  obtain d t4 t4' where 4: "dss_random 0 10 15 t3 = (d, t4)" "dss_random 0 10 15 t3' = (d, t4')" "agree A t4 t4'"
    by (rule pair_draw [OF 3(3) c(4)])
  obtain x t5 t5' where 5: "dss_random 0 8 16 t4 = (x, t5)" "dss_random 0 8 16 t4' = (x, t5')" "agree A t5 t5'"
    by (rule pair_draw [OF 4(3) c(5)])
  obtain cd t6 t6' where 6: "dss_random 30 90 22 t5 = (cd, t6)" "dss_random 30 90 22 t5' = (cd, t6')" "agree A t6 t6'"
    by (rule pair_draw [OF 5(3) c(6)])
  obtain k t7 t7' where 7: "pick_str ?M 18 t6 = Some (k, sm_text (dlist ?M ! k), t7)"
    "pick_str ?M 18 t6' = Some (k, sm_text (dlist ?M ! k), t7')" "agree A t7 t7'"
    by (rule pair_pick [OF 6(3) M c(7)]) simp_all
  show ?thesis
    by (cases "date_entry (asc_date e) (cd + td - STARTDATE)")
      (simp_all add: mk_line_def 1 2 3 4 5 6 7 line_view_def Let_def)
qed

lemma pair_lines:
  assumes A: "{14, 15, 16, 18, 19, 20, 22} \<subseteq> A" and e: "benv_ok e"
  shows "agree A s s' \<Longrightarrow>
    map_option (\<lambda>(ls, x, _). (map line_view ls, x)) (mk_lines k e okey ck td od op sp n tp s) =
    map_option (\<lambda>(ls, x, _). (map line_view ls, x)) (mk_lines k e okey ck' td od op' sp n tp s')"
proof (induction k arbitrary: n tp s s')
  case (Suc k)
  consider l l' x t t' where "mk_line e okey ck td od op sp n s = Some (l, x, t)"
      "mk_line e okey ck' td od op' sp n s' = Some (l', x, t')" "line_view l = line_view l'" "agree A t t'"
    | "mk_line e okey ck td od op sp n s = None" "mk_line e okey ck' td od op' sp n s' = None"
    using pair_line [OF Suc.prems A e, of okey ck td od op sp n ck' op'] by (elim disjE exE conjE)
  then show ?case
  proof cases
    case 1
    show ?thesis using 1 Suc.IH [OF 1(4), of "n + 1" "c_int (tp + x)"]
      by (cases "mk_lines k e okey ck td od op sp (n + 1) (c_int (tp + x)) t";
          cases "mk_lines k e okey ck' td od op' sp (n + 1) (c_int (tp + x)) t'") auto
  qed simp
qed simp

abbreviation line_streams :: "nat set" where
  "line_streams \<equiv> {13, 43, 14, 15, 16, 18, 19, 20, 22}"

lemma line_view_total: "map line_view ls = map line_view ls' \<Longrightarrow>
    map (\<lambda>l. line_view (l\<lparr>l_order_totalprice := x\<rparr>)) ls = map (\<lambda>l. line_view (l\<lparr>l_order_totalprice := x\<rparr>)) ls'"
proof -
  have "line_view (l\<lparr>l_order_totalprice := x\<rparr>) = (line_view l)\<lparr>l_order_totalprice := x\<rparr>" for l
    by (simp add: line_view_def)
  moreover assume "map line_view ls = map line_view ls'"
  then have "map (\<lambda>l. l\<lparr>l_order_totalprice := x\<rparr>) (map line_view ls) = map (\<lambda>l. l\<lparr>l_order_totalprice := x\<rparr>) (map line_view ls')"
    by simp
  ultimately show ?thesis by (simp add: comp_def)
qed

lemma pair_ckey:
  assumes g: "agree A s s'" and e: "benv_ok e"
  obtains ck0 ck0' ck ck' t t' where "dss_random 1 (O_CKEY_MAX e) 40 s = (ck0, t)" "dss_random 1 (O_CKEY_MAX e) 40 s' = (ck0', t')"
    "mortality_loop (O_CKEY_MAX e) ck0 1 = Some ck" "mortality_loop (O_CKEY_MAX e) ck0' 1 = Some ck'" "agree A t t'"
proof -
  note K = key_limits [OF e]
  have b: "1 \<le> O_CKEY_MAX e" "O_CKEY_MAX e - 1 < 2 ^ 53 - 1" using K by simp_all
  obtain x x' t t' where 1: "dss_random 1 (O_CKEY_MAX e) 40 s = (x, t)" "dss_random 1 (O_CKEY_MAX e) 40 s' = (x', t')" "agree A t t'"
    by (rule pair_draw_any [OF g])
  have x: "1 \<le> x" "x \<le> O_CKEY_MAX e" using dss_random_bounds [OF agree_ok(1) [OF g] b, of 40] by (simp_all add: 1(1))
  have x': "1 \<le> x'" "x' \<le> O_CKEY_MAX e" using dss_random_bounds [OF agree_ok(2) [OF g] b, of 40] by (simp_all add: 1(2))
  obtain ck where "mortality_loop (O_CKEY_MAX e) x 1 = Some ck" by (rule mortality_ends [OF x])
  moreover obtain ck' where "mortality_loop (O_CKEY_MAX e) x' 1 = Some ck'" by (rule mortality_ends [OF x'])
  ultimately show thesis using that 1 by blast
qed

lemma order_view_local:
  assumes e: "benv_ok e" and g: "agree line_streams s s'"
  shows "map_option (order_view \<circ> fst) (mk_order e upd n s) = map_option (order_view \<circ> fst) (mk_order e upd n s')"
proof -
  let ?P = "o_priority_set (be_dists e)"
  have P: "dist_ok ?P" using e by (simp add: benv_ok_def dists_ok_def)
  obtain td t1 t1' where 1: "dss_random O_ODATE_MIN O_ODATE_MAX 13 s = (td, t1)" "dss_random O_ODATE_MIN O_ODATE_MAX 13 s' = (td, t1')"
    "agree line_streams t1 t1'" by (rule pair_draw [OF g, of 13]) (simp_all add: clip_stream_def)
  obtain c0 c0' ck ck' t2 t2' where 2: "dss_random 1 (O_CKEY_MAX e) 40 t1 = (c0, t2)" "dss_random 1 (O_CKEY_MAX e) 40 t1' = (c0', t2')"
    "mortality_loop (O_CKEY_MAX e) c0 1 = Some ck" "mortality_loop (O_CKEY_MAX e) c0' 1 = Some ck'" "agree line_streams t2 t2'"
    by (rule pair_ckey [OF 1(3) e])
  obtain k k' t3 t3' where 3: "pick_str ?P 38 t2 = Some (k, sm_text (dlist ?P ! k), t3)"
    "pick_str ?P 38 t2' = Some (k', sm_text (dlist ?P ! k'), t3')" "agree line_streams t3 t3'"
    by (rule pair_pick_any [OF 2(5) P, of 38]) simp_all
  obtain cl cl' t4 t4' where 4: "dss_random 1 (c_MAX (be_scale e * 1000) 1000) 11 t3 = (cl, t4)"
    "dss_random 1 (c_MAX (be_scale e * 1000) 1000) 11 t3' = (cl', t4')" "agree line_streams t4 t4'"
    by (rule pair_draw_any [OF 3(3)])
  obtain ln t5 t5' where 5: "dss_random 1 7 43 t4 = (ln, t5)" "dss_random 1 7 43 t4' = (ln, t5')" "agree line_streams t5 t5'"
    by (rule pair_draw [OF 4(3), of 43]) (simp_all add: clip_stream_def)
  let ?ok = "mk_sparse (be_scale e) n (order_seq (be_refresh e) upd)"
  show ?thesis
  proof (cases "date_entry (asc_date e) (td - STARTDATE)")
    case None
    then show ?thesis using 1 by (simp add: mk_order_def)
  next
    case (Some od)
    note L = pair_lines [OF _ e 5(3), of "nat ln" ?ok ck td od "sm_text (dlist ?P ! k)" 0 0 0 ck' "sm_text (dlist ?P ! k')"]
    show ?thesis
      using 1 Some L
      by (cases "mk_lines (nat ln) e ?ok ck td od (sm_text (dlist ?P ! k)) 0 0 0 t5";
          cases "mk_lines (nat ln) e ?ok ck' td od (sm_text (dlist ?P ! k')) 0 0 0 t5'")
        (auto simp: mk_order_def 2 3 4 5 order_view_def Let_def comp_def intro: line_view_total)
  qed
qed

lemma call_steps_append: "call_steps (xs @ ys) i = call_steps xs i + call_steps ys i"
  by (simp add: call_steps_def)

lemma call_steps_rounds: "call_steps (concat (replicate k xs)) i = k * call_steps xs i"
  by (induction k) (simp_all add: call_steps_append, simp add: call_steps_def)

lemma sd_line_skips:
  assumes "rng_inv s" "n < 2 ^ 31"
  shows "\<exists>s'. sd_line 1 (int n) s = Some s' \<and> rng_inv s' \<and>
    (\<forall>i \<in> line_streams. val s' i = (NextRand ^^ (n * line_rate i)) (val s i))"
proof -
  let ?round = "map (\<lambda>i. (i, int n)) [14, 15, 16, 17, 18, 19, 20, 21, 22, 23, 24]"
  let ?rest = "[(25, int (stream_boundary 25) * int n), (13, int n), (43, int n)]"
  let ?calls = "concat (replicate 7 ?round) @ ?rest"
  have up: "[14..24] = [14, 15, 16, 17, 18, 19, 20, 21, 22, 23, 24 :: int]" by (simp add: upto.simps)
  have 1: "sd_line 1 (int n) s = advance_all ?calls s"
    by (simp add: sd_line_def fake_v_str_calls [OF assms(1)] up del: advance_all.simps)
  have 2: "calls_ok ?calls" by (simp add: calls_ok_def)
  have "call_steps ?round i = (if i \<in> {14..24} then n else 0)" for i
    using assms(2) by (simp add: call_steps_def) (auto, presburger)
  then have 3: "call_steps ?calls i = (if i \<in> {14..24} then 7 * n else 0) + call_steps ?rest i" for i
    by (simp only: call_steps_append call_steps_rounds) simp
  have 4: "call_steps ?rest i = (if i = 13 \<or> i = 43 then n else 0)" if "i \<noteq> 25" for i
    using assms(2) that by (simp add: call_steps_def)
  have "i < 48 \<and> call_steps ?calls i = n * line_rate i" if "i \<in> line_streams" for i
    using that unfolding 3
    by (auto simp: 4 row_rate_def pads_def stream_facts order_draws_def one_at_def)
  then show ?thesis by (rule seed_routine [OF assms(1) 1 2])
qed

lemma order_generator: "benv_ok e \<Longrightarrow> row_generator (mk_order e upd) (be_tdefs e) LINE line_rate"
  by unfold_locales (use order_row_advances in blast)

lemma order_seekable:
  assumes "benv_ok e"
  shows "seekable (mk_order e upd) (be_tdefs e) LINE line_rate line_streams order_view (sd_line 1) (2 ^ 31)"
  by (rule seekableI [OF order_generator [OF assms] order_view_local [OF assms] sd_line_skips]) auto

end
