(* ===== verification/Dist_File.thy ===== *)
theory Dist_File
  imports Bm_Utils
begin

text \<open>
  Reading the distributions: \<open>env_config\<close> and \<open>read_dist\<close> of \<open>bm_utils.c\<close> and \<open>load_dists\<close> of
  \<open>driver.c\<close>.  The environment is a map of variables, the file system a map from paths to
  contents.  A distribution is filled in place, so its list is an array of cells of which some are not
  yet initialised; every way the code can go wrong is an error value.

  Shown: a section that lists what its count announces is read back entry by entry with cumulative
  weights, whatever precedes and follows it; what the count check at the end of the file does and does
  not catch; a blank line before the section is dereferenced as a null pointer.
\<close>

datatype read_error = OpenFailed | NullDeref | ListOverflow | MallocFailed | ReadError | BufferOverflow

text \<open>The structure \<open>read_dist\<close> fills: \<open>None\<close> cells are allocated and not initialised.\<close>

record dist_target =
  t_count :: int
  t_max :: int
  t_list :: "set_member option list option"
  t_permute :: "int list option"

text \<open>A global \<open>distribution\<close> before the program fills it.\<close>

definition target_init :: dist_target where
  "target_init = \<lparr>t_count = 0, t_max = 0, t_list = None, t_permute = None\<rparr>"

subsection \<open>The library calls\<close>

text \<open>\<open>fgets(line, n + 1, fp)\<close> on the rest of the file: a line with its newline, or \<open>n\<close> characters.\<close>

fun fgets :: "nat \<Rightarrow> string \<Rightarrow> string \<times> string" where
  "fgets 0 cs = ([], cs)"
| "fgets (Suc n) [] = ([], [])"
| "fgets (Suc n) (c # cs) =
     (if c = CHR 0x0A then ([c], cs) else let (l, r) = fgets n cs in (c # l, r))"

text \<open>The line after the two \<open>strchr\<close> cuts, as a C string.\<close>

definition cut_line :: "string \<Rightarrow> string" where
  "cut_line l = takeWhile (\<lambda>c. c \<notin> {CHR 0x00, CHR 0x0A, CHR ''#''}) l"

definition delim :: "char \<Rightarrow> bool" where
  "delim c \<longleftrightarrow> c \<in> {CHR 0x0A, CHR 0x09, CHR '' ''}"

text \<open>\<open>strtok\<close> with these delimiters: the token, if there is one, and what a further call starts from.\<close>

definition strtok :: "string \<Rightarrow> string option \<times> string" where
  "strtok l =
     (let r = dropWhile delim l
      in if r = [] then (None, []) else (Some (takeWhile (\<lambda>c. \<not> delim c) r), tl (dropWhile (\<lambda>c. \<not> delim c) r)))"

definition isspace :: "char \<Rightarrow> bool" where
  "isspace c \<longleftrightarrow> c \<in> {CHR 0x09, CHR 0x0A, CHR 0x0B, CHR 0x0C, CHR 0x0D, CHR '' ''}"

text \<open>The number a \<open>%ld\<close> conversion reads: blanks, a sign, at least one digit.\<close>

definition scan_ld :: "string \<Rightarrow> int option" where
  "scan_ld s =
     (let s = dropWhile isspace s;
          (neg, s) = (case s of
              c # r \<Rightarrow> if c = CHR ''-'' then (True, r) else if c = CHR ''+'' then (False, r) else (False, s)
            | [] \<Rightarrow> (False, s));
          ds = takeWhile is_digit s
      in if ds = [] then None else Some (if neg then - int (undec ds) else int (undec ds)))"

text \<open>\<open>sscanf(line, "%[^|]|%ld", token, &weight) == 2\<close>\<close>

definition scan_entry :: "string \<Rightarrow> (string \<times> int) option" where
  "scan_entry l =
     (let token = takeWhile (\<lambda>c. c \<noteq> CHR ''|'') l
      in if token = [] then None
         else case dropWhile (\<lambda>c. c \<noteq> CHR ''|'') l of
                [] \<Rightarrow> None
              | _ # r \<Rightarrow> map_option (\<lambda>w. (token, w)) (scan_ld r))"

subsection \<open>\<open>read_dist\<close>\<close>

definition env_config :: "(string \<Rightarrow> string option) \<Rightarrow> string \<Rightarrow> string \<Rightarrow> string" where
  "env_config getenv var dflt = (case getenv var of Some evar \<Rightarrow> evar | None \<Rightarrow> dflt)"

text \<open>One line outside a section: \<open>Inr b\<close> tells whether the named section begins.\<close>

definition section_starts :: "string \<Rightarrow> string \<Rightarrow> read_error + bool" where
  "section_starts name line =
     (case strtok line of
        (None, _) \<Rightarrow> Inl NullDeref
      | (Some w, rest) \<Rightarrow>
          if dsscasecmp w ''BEGIN'' \<noteq> 0 then Inr False
          else (case strtok rest of
                  (None, _) \<Rightarrow> Inl NullDeref
                | (Some v, _) \<Rightarrow> Inr (dsscasecmp v name = 0)))"

text \<open>The \<open>count\<close> line: the array is allocated; sizes no allocation can have are refused.\<close>

definition set_count :: "int \<Rightarrow> dist_target \<Rightarrow> read_error + dist_target" where
  "set_count w t =
     (if w < 0 \<or> 2 ^ 59 \<le> w then Inl MallocFailed
      else Inr (t\<lparr>t_count := c_int w, t_max := 0, t_list := Some (replicate (nat w) None)\<rparr>))"

text \<open>An entry goes to cell \<open>count\<close> with the weight accumulated so far, an \<open>int\<close>.\<close>

definition add_entry :: "string \<Rightarrow> int \<Rightarrow> nat \<Rightarrow> dist_target \<Rightarrow> read_error + dist_target" where
  "add_entry token w cnt t =
     (case t_list t of
        None \<Rightarrow> Inl NullDeref
      | Some l \<Rightarrow>
          if cnt < length l
          then let m = c_int (t_max t + w)
               in Inr (t\<lparr>t_max := m, t_list := Some (l[cnt := Some \<lparr>weight = m, sm_text = token\<rparr>])\<rparr>)
          else Inl ListOverflow)"

text \<open>The loop over the file; \<open>count\<close> entries have been read.\<close>

lemma fgets_consumes: "cs \<noteq> [] \<Longrightarrow> length (snd (fgets (Suc n) cs)) < length cs"
proof -
  have le: "length (snd (fgets n cs)) \<le> length cs" for n cs
    by (induction n cs rule: fgets.induct) (auto split: prod.splits)
  assume "cs \<noteq> []"
  then obtain c r where "cs = c # r" by (cases cs) auto
  then show ?thesis using le [of n r] by (cases "fgets n r") (simp add: less_Suc_eq_le)
qed

function read_loop :: "string \<Rightarrow> bool \<Rightarrow> nat \<Rightarrow> dist_target \<Rightarrow> string \<Rightarrow> read_error + dist_target" where
  "read_loop name name_set cnt t cs =
     (if cs = [] then
        (if int cnt \<noteq> t_count t then Inl ReadError else Inr (t\<lparr>t_permute := None\<rparr>))
      else
        let line = cut_line (fst (fgets 255 cs)); cs = snd (fgets 255 cs)
        in if line = [] then read_loop name name_set cnt t cs
           else if \<not> name_set then
             (case section_starts name line of
                Inl e \<Rightarrow> Inl e
              | Inr b \<Rightarrow> read_loop name b cnt t cs)
           else if dssncasecmp line ''END'' 3 = 0 then Inr t
           else (case scan_entry line of
                   None \<Rightarrow> read_loop name True cnt t cs
                 | Some (token, w) \<Rightarrow>
                     if dsscasecmp token ''count'' = 0 then
                       (case set_count w t of
                          Inl e \<Rightarrow> Inl e
                        | Inr t \<Rightarrow> read_loop name True cnt t cs)
                     else
                       (case add_entry token w cnt t of
                          Inl e \<Rightarrow> Inl e
                        | Inr t \<Rightarrow> read_loop name True (cnt + 1) t cs)))"
  by pat_completeness auto
termination
  by (relation "measure (\<lambda>(_, _, _, _, cs). length cs)")
    (use fgets_consumes [of _ 254] in \<open>simp_all add: numeral_eq_Suc\<close>)

declare read_loop.simps [simp del]

text \<open>\<open>read_dist(path, name, target)\<close>: the file is the one given with \<open>-b\<close> or the named one in the
  configuration directory.\<close>

definition read_dist :: "(string \<Rightarrow> string option) \<Rightarrow> (string \<Rightarrow> string option) \<Rightarrow> string option \<Rightarrow> string \<Rightarrow> string \<Rightarrow>
    dist_target \<Rightarrow> read_error + dist_target" where
  "read_dist getenv files d_path path name t =
     (let file = (case d_path of None \<Rightarrow> env_config getenv ''DSS_CONFIG'' ''.'' @ ''/'' @ path | Some p \<Rightarrow> p)
      in if d_path = None \<and> 256 \<le> length file then Inl BufferOverflow
         else case files file of
                None \<Rightarrow> Inl OpenFailed
              | Some cs \<Rightarrow> read_loop name False 0 t cs)"

text \<open>\<open>load_dists\<close>: the names in the order of the calls; the first error ends the program.\<close>

definition dist_names :: "string list" where
  "dist_names = [''p_cntr'', ''colors'', ''p_types'', ''nations'', ''regions'', ''o_oprio'', ''instruct'',
     ''smode'', ''category'', ''rflag'', ''msegmnt'', ''nouns'', ''verbs'', ''adjectives'', ''adverbs'',
     ''auxillaries'', ''terminators'', ''articles'', ''prepositions'', ''grammar'', ''np'', ''vp'']"

fun load_all :: "(string \<Rightarrow> string option) \<Rightarrow> (string \<Rightarrow> string option) \<Rightarrow> string option \<Rightarrow> string list \<Rightarrow>
    read_error + (string \<times> dist_target) list" where
  "load_all getenv files d_path [] = Inr []"
| "load_all getenv files d_path (n # ns) =
     (case read_dist getenv files d_path (env_config getenv ''DSS_DIST'' ''dists.dss'') n target_init of
        Inl e \<Rightarrow> Inl e
      | Inr t \<Rightarrow> map_sum id (\<lambda>r. (n, t) # r) (load_all getenv files d_path ns))"

definition load_dists :: "(string \<Rightarrow> string option) \<Rightarrow> (string \<Rightarrow> string option) \<Rightarrow> string option \<Rightarrow>
    read_error + (string \<times> dist_target) list" where
  "load_dists getenv files d_path = load_all getenv files d_path dist_names"

text \<open>A completely filled target as the \<open>distribution\<close> the generators use.\<close>

definition dist_of :: "dist_target \<Rightarrow> distribution option" where
  "dist_of t = (case t_list t of
      None \<Rightarrow> None
    | Some l \<Rightarrow> if None \<in> set l then None
        else Some \<lparr>dcount = t_count t, dmax = t_max t, dlist = map the l, dpermute = t_permute t\<rparr>)"

subsection \<open>Lines\<close>

definition text_line :: "string \<Rightarrow> bool" where
  "text_line l \<longleftrightarrow> CHR 0x0A \<notin> set l \<and> length l < 255"

lemma fgets_line: "CHR 0x0A \<notin> set l \<Longrightarrow> length l < n \<Longrightarrow> fgets n (l @ CHR 0x0A # r) = (l @ [CHR 0x0A], r)"
proof (induction l arbitrary: n)
  case Nil
  then show ?case by (cases n) simp_all
next
  case (Cons c l)
  then show ?case by (cases n) auto
qed

lemma read_loop_line:
  assumes "text_line l"
  shows "read_loop name b c t (l @ CHR 0x0A # r) =
    (if cut_line l = [] then read_loop name b c t r
     else if \<not> b then
       (case section_starts name (cut_line l) of Inl e \<Rightarrow> Inl e | Inr b \<Rightarrow> read_loop name b c t r)
     else if dssncasecmp (cut_line l) ''END'' 3 = 0 then Inr t
     else (case scan_entry (cut_line l) of
             None \<Rightarrow> read_loop name True c t r
           | Some (token, w) \<Rightarrow>
               if dsscasecmp token ''count'' = 0
               then (case set_count w t of Inl e \<Rightarrow> Inl e | Inr t \<Rightarrow> read_loop name True c t r)
               else (case add_entry token w c t of Inl e \<Rightarrow> Inl e | Inr t \<Rightarrow> read_loop name True (c + 1) t r)))"
proof -
  have f: "fgets 255 (l @ CHR 0x0A # r) = (l @ [CHR 0x0A], r)"
    using assms by (intro fgets_line) (simp_all add: text_line_def)
  have c: "cut_line (l @ [CHR 0x0A]) = cut_line l"
    by (induction l) (simp_all add: cut_line_def)
  show ?thesis by (subst read_loop.simps) (simp add: f c)
qed

text \<open>A text without special characters is left as it is.\<close>

definition plain :: "string \<Rightarrow> bool" where
  "plain s \<longleftrightarrow> set s \<inter> {CHR 0x00, CHR 0x0A, CHR ''#''} = {}"

lemma cut_plain: "plain l \<Longrightarrow> cut_line l = l"
  by (simp add: cut_line_def plain_def takeWhile_eq_all_conv disjoint_iff)

lemma plain_append [simp]: "plain (s @ t) \<longleftrightarrow> plain s \<and> plain t"
  by (auto simp: plain_def)

lemma plain_nul_free: "plain s \<Longrightarrow> nul_free s"
  by (auto simp: plain_def nul_free_def)

lemma plain_line: "plain l \<Longrightarrow> CHR 0x0A \<notin> set l"
  by (auto simp: plain_def)

subsection \<open>Numbers\<close>

lemma digit_plain: "is_digit c \<Longrightarrow> c \<notin> {CHR 0x00, CHR 0x0A, CHR ''#'', CHR ''|'', CHR ''-'', CHR ''+''} \<and> \<not> isspace c"
  by (auto simp: is_digit_def isspace_def)

lemma dec_takeWhile: "takeWhile is_digit (dec n) = dec n"
  using dec_digits [of n] by (simp add: takeWhile_eq_all_conv)

lemma dec_split: obtains c r where "dec n = c # r" "is_digit c"
  using dec_digits [of n] dec_nonempty [of n] by (cases "dec n") auto

lemma scan_ld_fmt [simp]: "scan_ld (fmt_d w) = Some w"
proof -
  obtain c r where c: "dec (nat \<bar>w\<bar>) = c # r" "is_digit c" by (rule dec_split)
  have c': "w < 0 \<Longrightarrow> dec (nat (- w)) = c # r" "\<not> w < 0 \<Longrightarrow> dec (nat w) = c # r" using c(1) by simp_all
  note p = digit_plain [OF c(2)]
  have "is_digit CHR ''-'' = False" "isspace CHR ''-'' = False" by (simp_all add: is_digit_def isspace_def)
  then show ?thesis
    using p undec_dec [of "nat \<bar>w\<bar>"] dec_takeWhile [of "nat \<bar>w\<bar>"]
    by (cases "w < 0") (auto simp: scan_ld_def fmt_d_def Let_def c(1) c')
qed

lemma fmt_d_plain: "plain (fmt_d w)"
  using dec_digits digit_plain by (fastforce simp: plain_def fmt_d_def)

lemma length_fmt_int: "\<bar>w\<bar> < 10 ^ 10 \<Longrightarrow> length (fmt_d w) \<le> 11"
  using length_dec_le [of "nat \<bar>w\<bar>" 10] by (auto simp: fmt_d_def nat_less_iff)

lemma scan_entry_line:
  assumes "tok \<noteq> []" "CHR ''|'' \<notin> set tok"
  shows "scan_entry (tok @ CHR ''|'' # fmt_d w) = Some (tok, w)"
proof -
  have "takeWhile (\<lambda>c. c \<noteq> CHR ''|'') (tok @ CHR ''|'' # fmt_d w) = tok"
    "dropWhile (\<lambda>c. c \<noteq> CHR ''|'') (tok @ CHR ''|'' # fmt_d w) = CHR ''|'' # fmt_d w"
    using assms(2) by (induction tok) auto
  then show ?thesis using assms(1) by (simp add: scan_entry_def)
qed

subsection \<open>Sections\<close>

text \<open>The text of a section with announced count \<open>n\<close>, and the entries with cumulative weights.\<close>

definition entry_text :: "string \<times> int \<Rightarrow> string" where
  "entry_text e = fst e @ CHR ''|'' # fmt_d (snd e) @ [CHR 0x0A]"

definition section_text :: "string \<Rightarrow> int \<Rightarrow> (string \<times> int) list \<Rightarrow> string" where
  "section_text name n es = ''BEGIN '' @ name @ [CHR 0x0A] @ ''COUNT|'' @ fmt_d n @ [CHR 0x0A] @
     concat (map entry_text es) @ ''END '' @ name @ [CHR 0x0A]"

fun cumulate :: "int \<Rightarrow> (string \<times> int) list \<Rightarrow> set_member list" where
  "cumulate m [] = []"
| "cumulate m ((tok, w) # es) = \<lparr>weight = m + w, sm_text = tok\<rparr> # cumulate (m + w) es"

text \<open>Entries the format can carry: a name without special characters that is neither \<open>count\<close> nor
  starts with \<open>end\<close>, and cumulative weights that fit an \<open>int\<close>.\<close>

definition entry_ok :: "string \<times> int \<Rightarrow> bool" where
  "entry_ok e \<longleftrightarrow> fst e \<noteq> [] \<and> plain (fst e) \<and> CHR ''|'' \<notin> set (fst e) \<and> length (fst e) \<le> 200 \<and>
     dsscasecmp (fst e) ''count'' \<noteq> 0 \<and> dssncasecmp (fst e) ''END'' 3 \<noteq> 0 \<and> \<bar>snd e\<bar> < 10 ^ 10"

definition name_ok :: "string \<Rightarrow> bool" where
  "name_ok n \<longleftrightarrow> n \<noteq> [] \<and> plain n \<and> length n \<le> 200 \<and> (\<forall>c \<in> set n. \<not> delim c)"

definition fits :: "int \<Rightarrow> (string \<times> int) list \<Rightarrow> bool" where
  "fits m es \<longleftrightarrow> (\<forall>x \<in> set (cumulate m es). - (2 ^ 31) \<le> weight x \<and> weight x < 2 ^ 31)"

lemma length_cumulate [simp]: "length (cumulate m es) = length es"
  by (induction m es rule: cumulate.induct) simp_all

lemma end_entry:
  assumes "nul_free tok" "dssncasecmp tok ''END'' 3 \<noteq> 0" "nul_free r"
  shows "dssncasecmp (tok @ CHR ''|'' # r) ''END'' 3 \<noteq> 0"
proof
  assume "dssncasecmp (tok @ CHR ''|'' # r) ''END'' 3 = 0"
  then have e: "map tolower (take 3 (tok @ CHR ''|'' # r)) = map tolower ''END''"
    using assms by (subst (asm) dssncasecmp_zero_iff) (auto simp: nul_free_def)
  have "tolower CHR ''|'' \<notin> set (map tolower ''END'')" by (simp add: tolower_def)
  then have "CHR ''|'' \<notin> set (take 3 (tok @ CHR ''|'' # r))" unfolding e [symmetric] by auto
  then have "3 \<le> length tok" by (cases "length tok < 3") (auto simp: take_append take_Cons' split: if_splits)
  then have "dssncasecmp tok ''END'' 3 = 0" using e assms(1) by (subst dssncasecmp_zero_iff) (auto simp: nul_free_def)
  with assms(2) show False by simp
qed

lemma read_entry:
  assumes "entry_ok (tok, w)"
  shows "read_loop name True c t (entry_text (tok, w) @ r) =
    (case add_entry tok w c t of Inl e \<Rightarrow> Inl e | Inr t \<Rightarrow> read_loop name True (c + 1) t r)"
proof -
  let ?l = "tok @ CHR ''|'' # fmt_d w"
  have tok: "tok \<noteq> []" "plain tok" "CHR ''|'' \<notin> set tok" "length tok \<le> 200" "dsscasecmp tok ''count'' \<noteq> 0"
    "dssncasecmp tok ''END'' 3 \<noteq> 0" "\<bar>w\<bar> < 10 ^ 10" using assms by (simp_all add: entry_ok_def)
  have p: "plain ?l" using tok(2) fmt_d_plain [of w] by (simp add: plain_def)
  have l: "text_line ?l" using plain_line [OF p] tok(4) length_fmt_int [OF tok(7)] by (simp add: text_line_def)
  have "read_loop name True c t (?l @ CHR 0x0A # r) =
      (case add_entry tok w c t of Inl e \<Rightarrow> Inl e | Inr t \<Rightarrow> read_loop name True (c + 1) t r)"
    using tok(5) end_entry [OF plain_nul_free [OF tok(2)] tok(6) plain_nul_free [OF fmt_d_plain]]
    unfolding read_loop_line [OF l] cut_plain [OF p] by (simp add: scan_entry_line [OF tok(1,3)])
  then show ?thesis by (simp add: entry_text_def)
qed

text \<open>The entries of a section, with \<open>j\<close> free cells left in the array.\<close>

lemma read_entries:
  assumes "list_all entry_ok es"
  shows "fits m es \<Longrightarrow> t_list t = Some (done @ replicate j None) \<Longrightarrow> length done = c \<Longrightarrow> t_max t = m \<Longrightarrow>
    read_loop name True c t (concat (map entry_text es) @ r) =
    (if length es \<le> j
     then read_loop name True (c + length es) (t\<lparr>t_max := m + sum_list (map snd es),
       t_list := Some (done @ map Some (cumulate m es) @ replicate (j - length es) None)\<rparr>) r
     else Inl ListOverflow)"
  using assms
proof (induction es arbitrary: m t "done" j c)
  case Nil
  then have "t\<lparr>t_max := m, t_list := Some (done @ replicate j None)\<rparr> = t" by simp
  then show ?case by simp
next
  case (Cons e es)
  obtain tok w where e: "e = (tok, w)" by fastforce
  have ok: "entry_ok (tok, w)" and fit: "c_int (m + w) = m + w" "fits (m + w) es"
    using Cons.prems by (simp_all add: e fits_def c_int_id)
  have step: "read_loop name True c t (concat (map entry_text (e # es)) @ r) =
      (case add_entry tok w c t of Inl x \<Rightarrow> Inl x
       | Inr t \<Rightarrow> read_loop name True (c + 1) t (concat (map entry_text es) @ r))"
    using read_entry [OF ok] by (simp add: e)
  show ?case
  proof (cases j)
    case 0
    then show ?thesis unfolding step using Cons.prems by (simp add: add_entry_def)
  next
    case (Suc i)
    let ?t = "t\<lparr>t_max := m + w, t_list := Some ((done @ [Some \<lparr>weight = m + w, sm_text = tok\<rparr>]) @ replicate i None)\<rparr>"
    have "add_entry tok w c t = Inr ?t"
      using Cons.prems Suc fit(1) by (simp add: add_entry_def list_update_append Let_def)
    then show ?thesis
      unfolding step using Cons.IH [of "m + w" ?t "done @ [Some \<lparr>weight = m + w, sm_text = tok\<rparr>]" i "c + 1"] Cons.prems Suc fit
      by (simp add: e add.assoc)
  qed
qed

text \<open>Lines before the section: comments, and lines whose first words do not begin the section.\<close>

definition skipped :: "string \<Rightarrow> string \<Rightarrow> bool" where
  "skipped name l \<longleftrightarrow> text_line l \<and> (cut_line l = [] \<or> section_starts name (cut_line l) = Inr False)"

lemma read_skipped:
  "list_all (skipped name) ls \<Longrightarrow>
   read_loop name False c t (concat (map (\<lambda>l. l @ [CHR 0x0A]) ls) @ r) = read_loop name False c t r"
proof (induction ls)
  case (Cons l ls)
  then have "text_line l" "cut_line l = [] \<or> section_starts name (cut_line l) = Inr False"
    by (simp_all add: skipped_def)
  with Cons show ?case by (auto simp: read_loop_line)
qed simp

lemma strtok_parts:
  assumes "\<forall>c \<in> set w. \<not> delim c" "delim d"
  shows "takeWhile (\<lambda>c. \<not> delim c) (w @ d # r) = w" "dropWhile (\<lambda>c. \<not> delim c) (w @ d # r) = d # r"
    "takeWhile (\<lambda>c. \<not> delim c) w = w" "dropWhile (\<lambda>c. \<not> delim c) w = []"
  using assms by (induction w) auto

lemma strtok_word:
  assumes "w \<noteq> []" "\<forall>c \<in> set w. \<not> delim c" "delim d"
  shows "strtok (w @ d # r) = (Some w, r)" "strtok w = (Some w, [])"
proof -
  have "\<not> delim (hd w)" using assms(1,2) by simp
  then have "dropWhile delim (w @ d # r) = w @ d # r" "dropWhile delim w = w" using assms(1) by (cases w; simp)+
  moreover have "takeWhile (\<lambda>c. \<not> delim c) (w @ d # r) = w" "tl (dropWhile (\<lambda>c. \<not> delim c) (w @ d # r)) = r"
    "takeWhile (\<lambda>c. \<not> delim c) w = w" "tl (dropWhile (\<lambda>c. \<not> delim c) w) = []"
    by (simp_all only: strtok_parts [OF assms(2,3)] list.sel)
  ultimately show "strtok (w @ d # r) = (Some w, r)" "strtok w = (Some w, [])"
    unfolding strtok_def Let_def using assms(1) by (simp_all only: append_is_Nil_conv list.distinct if_False) simp_all
qed

lemma casecmp_refl: "nul_free a \<Longrightarrow> dsscasecmp a a = 0"
  by (simp add: dsscasecmp_zero_iff)

lemma begin_line:
  assumes "name_ok name"
  shows "section_starts name (''BEGIN '' @ name) = Inr True"
proof -
  have n: "name \<noteq> []" "plain name" "\<forall>c \<in> set name. \<not> delim c" using assms by (simp_all add: name_ok_def)
  have "strtok (''BEGIN'' @ CHR '' '' # name) = (Some ''BEGIN'', name)"
    by (rule strtok_word(1)) (simp_all add: delim_def)
  moreover have "strtok name = (Some name, [])" using strtok_word(2) [OF n(1,3), of "CHR '' ''"] by (simp add: delim_def)
  moreover have "dsscasecmp ''BEGIN'' ''BEGIN'' = 0" by (rule casecmp_refl) (simp add: nul_free_def)
  ultimately show ?thesis
    using casecmp_refl [OF plain_nul_free [OF n(2)]] by (simp add: section_starts_def del: dsscasecmp.simps)
qed

text \<open>The cells of the target after a section that announces \<open>n\<close> entries and lists \<open>es\<close>.\<close>

definition filled :: "int \<Rightarrow> (string \<times> int) list \<Rightarrow> dist_target" where
  "filled n es = \<lparr>t_count = n, t_max = sum_list (map snd es),
     t_list = Some (map Some (cumulate 0 es) @ replicate (nat n - length es) None), t_permute = None\<rparr>"

lemma read_head:
  assumes "name_ok name" "0 \<le> n" "n < 2 ^ 31"
  shows "read_loop name False 0 target_init (''BEGIN '' @ name @ [CHR 0x0A] @ ''COUNT|'' @ fmt_d n @ [CHR 0x0A] @ r) =
    read_loop name True 0 (filled n []) r"
proof -
  let ?b = "''BEGIN '' @ name" and ?c = "''COUNT'' @ CHR ''|'' # fmt_d n"
  have n: "plain name" "length name \<le> 200" using assms(1) by (simp_all add: name_ok_def)
  have b: "plain ?b" using n(1) by (simp add: plain_def)
  have c: "plain ?c" using fmt_d_plain [of n] by (simp add: plain_def)
  have bl: "text_line ?b" using plain_line [OF b] n(2) by (simp add: text_line_def)
  have cl: "text_line ?c" using plain_line [OF c] length_fmt_int [of n] assms(2,3) by (simp add: text_line_def)
  have count: "dsscasecmp ''COUNT'' ''count'' = 0" by (subst dsscasecmp_zero_iff) (simp_all add: tolower_def)
  have no_end: "dssncasecmp ?c ''END'' 3 \<noteq> 0" by (simp add: numeral_3_eq_3 tolower_def)
  have "read_loop name False 0 target_init (?b @ CHR 0x0A # ?c @ CHR 0x0A # r) =
      read_loop name True 0 target_init (?c @ CHR 0x0A # r)"
    unfolding read_loop_line [OF bl] cut_plain [OF b] by (simp add: begin_line [OF assms(1), simplified])
  also have "\<dots> = read_loop name True 0 (filled n []) r"
    unfolding read_loop_line [OF cl] cut_plain [OF c] scan_entry_line [of "''COUNT''" n, simplified]
    using assms(2,3) no_end count
    by (simp add: scan_entry_line [of "''COUNT''" n, simplified] set_count_def c_int_id target_init_def filled_def
        del: dsscasecmp.simps dssncasecmp.simps)
  finally show ?thesis by simp
qed

lemma read_section:
  assumes "name_ok name" "0 \<le> n" "n < 2 ^ 31" "list_all entry_ok es" "fits 0 es"
  shows "read_loop name False 0 target_init (section_text name n es @ r) =
    (if int (length es) \<le> n then Inr (filled n es) else Inl ListOverflow)"
proof -
  let ?e = "''END '' @ name"
  have n: "plain name" "length name \<le> 200" using assms(1) by (simp_all add: name_ok_def)
  have e: "plain ?e" using n(1) by (simp add: plain_def)
  have el: "text_line ?e" using plain_line [OF e] n(2) by (simp add: text_line_def)
  have is_end: "dssncasecmp ?e ''END'' 3 = 0" by (simp add: numeral_3_eq_3)
  have last: "read_loop name True c t (?e @ CHR 0x0A # r) = Inr t" for c t
    unfolding read_loop_line [OF el] cut_plain [OF e] using is_end by (simp del: dssncasecmp.simps)
  have "read_loop name False 0 target_init (section_text name n es @ r) =
      read_loop name True 0 (filled n []) (concat (map entry_text es) @ ?e @ CHR 0x0A # r)"
    using read_head [OF assms(1-3)] by (simp add: section_text_def)
  also have "\<dots> = (if int (length es) \<le> n then Inr (filled n es) else Inl ListOverflow)"
    using read_entries [OF assms(4,5), of "filled n []" "[]" "nat n" 0 name "?e @ CHR 0x0A # r"] assms(2)
    by (auto simp: filled_def last [simplified] nat_le_iff le_nat_iff)
  finally show ?thesis .
qed

lemma dist_of_filled:
  assumes "int (length es) \<le> n"
  shows "dist_of (filled n es) =
    (if int (length es) = n then Some \<lparr>dcount = n, dmax = sum_list (map snd es), dlist = cumulate 0 es, dpermute = None\<rparr>
     else None)"
proof -
  have "None \<in> set (map Some (cumulate 0 es) @ replicate (nat n - length es) None) \<longleftrightarrow> int (length es) \<noteq> n"
    using assms by auto
  then show ?thesis using assms by (auto simp: dist_of_def filled_def comp_def)
qed

lemma read_file:
  assumes "name_ok name" "list_all (skipped name) ls" "list_all entry_ok es" "fits 0 es" "0 \<le> n" "n < 2 ^ 31"
    "files p = Some (concat (map (\<lambda>l. l @ [CHR 0x0A]) ls) @ section_text name n es @ rest)"
  shows "read_dist getenv files (Some p) path name target_init =
    (if int (length es) \<le> n then Inr (filled n es) else Inl ListOverflow)"
  using read_skipped [OF assms(2)] read_section [OF assms(1,5,6,3,4)] assms(7) by (simp add: read_dist_def)

definition flag_entries :: "(string \<times> int) list" where
  "flag_entries = [(''R'', 1), (''A'', 2)]"

lemma flag_section: "name_ok ''rflag''" "list_all entry_ok flag_entries" "fits 0 flag_entries"
  by (simp_all add: name_ok_def plain_def delim_def entry_ok_def tolower_def numeral_3_eq_3 flag_entries_def fits_def)

text \<open>
  C31: a distribution written as a section of the file, after lines that do not begin it and before
  anything, is read back by \<open>read_dist\<close>: all entries in order, with their cumulative weights.
\<close>

theorem read_dist_roundtrip:
  assumes "name_ok name" "list_all (skipped name) ls" "list_all entry_ok es" "fits 0 es" "length es < 2 ^ 31"
    and "files p = Some (concat (map (\<lambda>l. l @ [CHR 0x0A]) ls) @ section_text name (int (length es)) es @ rest)"
  shows "\<exists>t. read_dist getenv files (Some p) path name target_init = Inr t \<and>
    dist_of t = Some \<lparr>dcount = int (length es), dmax = sum_list (map snd es), dlist = cumulate 0 es, dpermute = None\<rparr>"
proof -
  have "int (length es) < 2 ^ 31" using assms(5) by simp
  from read_file [where files = files and p = p, OF assms(1-4) _ this assms(6)] show ?thesis by (simp add: dist_of_filled)
qed

theorem read_dist_roundtrip_witness:
  "\<exists>t. read_dist (\<lambda>_. None) (\<lambda>_. Some (concat (map (\<lambda>l. l @ [CHR 0x0A]) [''# flags'', ''begin smode'']) @
      section_text ''rflag'' (int (length flag_entries)) flag_entries @ ''x''))
      (Some ''dists.dss'') ''dists.dss'' ''rflag'' target_init = Inr t \<and>
    dist_of t = Some \<lparr>dcount = int (length flag_entries), dmax = sum_list (map snd flag_entries),
      dlist = cumulate 0 flag_entries, dpermute = None\<rparr>"
proof (rule read_dist_roundtrip)
  show "list_all (skipped ''rflag'') [''# flags'', ''begin smode'']"
    by (simp add: skipped_def text_line_def cut_line_def section_starts_def strtok_def delim_def Let_def tolower_def)
qed (rule flag_section refl | simp add: flag_entries_def)+

text \<open>
  What the count of a section guards.  A section with fewer entries than announced is accepted, and
  leaves cells that are not initialised, so that the target holds no complete distribution; one with
  more entries writes past the array.  And a line of blanks before the section is taken for a line with
  a first word: a null pointer is dereferenced.
\<close>

theorem read_dist_count_unchecked:
  assumes "name_ok name" "list_all (skipped name) ls" "list_all entry_ok es" "fits 0 es" "0 \<le> n" "n < 2 ^ 31"
    and "files p = Some (concat (map (\<lambda>l. l @ [CHR 0x0A]) ls) @ section_text name n es @ rest)"
    and "files q = Some (concat (map (\<lambda>l. l @ [CHR 0x0A]) ls) @ CHR '' '' # CHR 0x0A # rest)"
  shows "(int (length es) < n \<longrightarrow> (\<exists>t. read_dist getenv files (Some p) path name target_init = Inr t \<and> dist_of t = None)) \<and>
    (n < int (length es) \<longrightarrow> read_dist getenv files (Some p) path name target_init = Inl ListOverflow) \<and>
    read_dist getenv files (Some q) path name target_init = Inl NullDeref"
proof -
  have l: "text_line '' ''" by (simp add: text_line_def)
  have c: "cut_line '' '' = '' ''" "strtok '' '' = (None, [])" by (simp_all add: cut_line_def strtok_def delim_def)
  have "read_loop name False 0 target_init ('' '' @ CHR 0x0A # rest) = Inl NullDeref"
    unfolding read_loop_line [OF l] c by (simp add: section_starts_def c(2))
  then have "read_dist getenv files (Some q) path name target_init = Inl NullDeref"
    using read_skipped [OF assms(2)] assms(8) by (simp add: read_dist_def)
  then show ?thesis using read_file [where files = files and p = p, OF assms(1-7)] by (simp add: dist_of_filled)
qed

theorem read_dist_count_unchecked_witness:
  "read_dist (\<lambda>_. None) (\<lambda>p. Some (concat (map (\<lambda>l. l @ [CHR 0x0A]) [''# flags'']) @
      (if p = ''q'' then CHR '' '' # CHR 0x0A # ''x'' else section_text ''rflag'' 1 flag_entries @ ''x'')))
      (Some ''p'') ''dists.dss'' ''rflag'' target_init = Inl ListOverflow"
proof -
  let ?files = "\<lambda>p. Some (concat (map (\<lambda>l. l @ [CHR 0x0A]) [''# flags'']) @
      (if p = ''q'' then CHR '' '' # CHR 0x0A # ''x'' else section_text ''rflag'' 1 flag_entries @ ''x''))"
  have s: "list_all (skipped ''rflag'') [''# flags'']" by (simp add: skipped_def text_line_def cut_line_def)
  have "1 < int (length flag_entries)" by (simp add: flag_entries_def)
  then show ?thesis
    using read_dist_count_unchecked [where files = ?files and p = "''p''" and q = "''q''", OF flag_section(1) s flag_section(2,3), of 1 "''x''"]
    by simp
qed

end
