(* ===== verification/Ssb_Env.thy ===== *)
theory Ssb_Env
  imports Seek Dist_File
begin

text \<open>
  The generator as it is shipped: the sections of \<open>dists.dss\<close> that the star schema uses, the table
  definitions of \<open>driver.c\<close>, the date strings, and the environment of the builders made of
  them.  Shown: every section can be carried by the file format, so that \<open>read_dist\<close> reads it; the environment
  satisfies what the builders rely on, at every scale factor from 1 to 1000; hence the builders are
  instances of the generator contracts, and the table-level theorems hold of the program.
\<close>

subsection \<open>\<open>dists.dss\<close>\<close>

definition p_cntr_entries :: "(string \<times> int) list" where
  "p_cntr_entries =
    [(''SM CASE'', 1), (''SM BOX'', 1), (''SM BAG'', 1), (''SM JAR'', 1), (''SM PACK'', 1),
     (''SM PKG'', 1), (''SM CAN'', 1), (''SM DRUM'', 1), (''LG CASE'', 1), (''LG BOX'', 1),
     (''LG BAG'', 1), (''LG JAR'', 1), (''LG PACK'', 1), (''LG PKG'', 1), (''LG CAN'', 1),
     (''LG DRUM'', 1), (''MED CASE'', 1), (''MED BOX'', 1), (''MED BAG'', 1), (''MED JAR'', 1),
     (''MED PACK'', 1), (''MED PKG'', 1), (''MED CAN'', 1), (''MED DRUM'', 1),
     (''JUMBO CASE'', 1), (''JUMBO BOX'', 1), (''JUMBO BAG'', 1), (''JUMBO JAR'', 1),
     (''JUMBO PACK'', 1), (''JUMBO PKG'', 1), (''JUMBO CAN'', 1), (''JUMBO DRUM'', 1),
     (''WRAP CASE'', 1), (''WRAP BOX'', 1), (''WRAP BAG'', 1), (''WRAP JAR'', 1),
     (''WRAP PACK'', 1), (''WRAP PKG'', 1), (''WRAP CAN'', 1), (''WRAP DRUM'', 1)]"

definition colors_entries :: "(string \<times> int) list" where
  "colors_entries =
    [(''almond'', 1), (''antique'', 1), (''aquamarine'', 1), (''azure'', 1), (''beige'', 1),
     (''bisque'', 1), (''black'', 1), (''blanched'', 1), (''blue'', 1), (''blush'', 1),
     (''brown'', 1), (''burlywood'', 1), (''burnished'', 1), (''chartreuse'', 1),
     (''chiffon'', 1), (''chocolate'', 1), (''coral'', 1), (''cornflower'', 1), (''cornsilk'', 1),
     (''cream'', 1), (''cyan'', 1), (''dark'', 1), (''deep'', 1), (''dim'', 1), (''dodger'', 1),
     (''drab'', 1), (''firebrick'', 1), (''floral'', 1), (''forest'', 1), (''frosted'', 1),
     (''gainsboro'', 1), (''ghost'', 1), (''goldenrod'', 1), (''green'', 1), (''grey'', 1),
     (''honeydew'', 1), (''hot'', 1), (''indian'', 1), (''ivory'', 1), (''khaki'', 1),
     (''lace'', 1), (''lavender'', 1), (''lawn'', 1), (''lemon'', 1), (''light'', 1),
     (''lime'', 1), (''linen'', 1), (''magenta'', 1), (''maroon'', 1), (''medium'', 1),
     (''metallic'', 1), (''midnight'', 1), (''mint'', 1), (''misty'', 1), (''moccasin'', 1),
     (''navajo'', 1), (''navy'', 1), (''olive'', 1), (''orange'', 1), (''orchid'', 1),
     (''pale'', 1), (''papaya'', 1), (''peach'', 1), (''peru'', 1), (''pink'', 1), (''plum'', 1),
     (''powder'', 1), (''puff'', 1), (''purple'', 1), (''red'', 1), (''rose'', 1), (''rosy'', 1),
     (''royal'', 1), (''saddle'', 1), (''salmon'', 1), (''sandy'', 1), (''seashell'', 1),
     (''sienna'', 1), (''sky'', 1), (''slate'', 1), (''smoke'', 1), (''snow'', 1),
     (''spring'', 1), (''steel'', 1), (''tan'', 1), (''thistle'', 1), (''tomato'', 1),
     (''turquoise'', 1), (''violet'', 1), (''wheat'', 1), (''white'', 1), (''yellow'', 1)]"

definition p_types_entries :: "(string \<times> int) list" where
  "p_types_entries =
    [(''STANDARD ANODIZED TIN'', 1), (''STANDARD ANODIZED NICKEL'', 1),
     (''STANDARD ANODIZED BRASS'', 1), (''STANDARD ANODIZED STEEL'', 1),
     (''STANDARD ANODIZED COPPER'', 1), (''STANDARD BURNISHED TIN'', 1),
     (''STANDARD BURNISHED NICKEL'', 1), (''STANDARD BURNISHED BRASS'', 1),
     (''STANDARD BURNISHED STEEL'', 1), (''STANDARD BURNISHED COPPER'', 1),
     (''STANDARD PLATED TIN'', 1), (''STANDARD PLATED NICKEL'', 1),
     (''STANDARD PLATED BRASS'', 1), (''STANDARD PLATED STEEL'', 1),
     (''STANDARD PLATED COPPER'', 1), (''STANDARD POLISHED TIN'', 1),
     (''STANDARD POLISHED NICKEL'', 1), (''STANDARD POLISHED BRASS'', 1),
     (''STANDARD POLISHED STEEL'', 1), (''STANDARD POLISHED COPPER'', 1),
     (''STANDARD BRUSHED TIN'', 1), (''STANDARD BRUSHED NICKEL'', 1),
     (''STANDARD BRUSHED BRASS'', 1), (''STANDARD BRUSHED STEEL'', 1),
     (''STANDARD BRUSHED COPPER'', 1), (''SMALL ANODIZED TIN'', 1),
     (''SMALL ANODIZED NICKEL'', 1), (''SMALL ANODIZED BRASS'', 1), (''SMALL ANODIZED STEEL'', 1),
     (''SMALL ANODIZED COPPER'', 1), (''SMALL BURNISHED TIN'', 1),
     (''SMALL BURNISHED NICKEL'', 1), (''SMALL BURNISHED BRASS'', 1),
     (''SMALL BURNISHED STEEL'', 1), (''SMALL BURNISHED COPPER'', 1), (''SMALL PLATED TIN'', 1),
     (''SMALL PLATED NICKEL'', 1), (''SMALL PLATED BRASS'', 1), (''SMALL PLATED STEEL'', 1),
     (''SMALL PLATED COPPER'', 1), (''SMALL POLISHED TIN'', 1), (''SMALL POLISHED NICKEL'', 1),
     (''SMALL POLISHED BRASS'', 1), (''SMALL POLISHED STEEL'', 1), (''SMALL POLISHED COPPER'', 1),
     (''SMALL BRUSHED TIN'', 1), (''SMALL BRUSHED NICKEL'', 1), (''SMALL BRUSHED BRASS'', 1),
     (''SMALL BRUSHED STEEL'', 1), (''SMALL BRUSHED COPPER'', 1), (''MEDIUM ANODIZED TIN'', 1),
     (''MEDIUM ANODIZED NICKEL'', 1), (''MEDIUM ANODIZED BRASS'', 1),
     (''MEDIUM ANODIZED STEEL'', 1), (''MEDIUM ANODIZED COPPER'', 1),
     (''MEDIUM BURNISHED TIN'', 1), (''MEDIUM BURNISHED NICKEL'', 1),
     (''MEDIUM BURNISHED BRASS'', 1), (''MEDIUM BURNISHED STEEL'', 1),
     (''MEDIUM BURNISHED COPPER'', 1), (''MEDIUM PLATED TIN'', 1), (''MEDIUM PLATED NICKEL'', 1),
     (''MEDIUM PLATED BRASS'', 1), (''MEDIUM PLATED STEEL'', 1), (''MEDIUM PLATED COPPER'', 1),
     (''MEDIUM POLISHED TIN'', 1), (''MEDIUM POLISHED NICKEL'', 1),
     (''MEDIUM POLISHED BRASS'', 1), (''MEDIUM POLISHED STEEL'', 1),
     (''MEDIUM POLISHED COPPER'', 1), (''MEDIUM BRUSHED TIN'', 1), (''MEDIUM BRUSHED NICKEL'', 1),
     (''MEDIUM BRUSHED BRASS'', 1), (''MEDIUM BRUSHED STEEL'', 1), (''MEDIUM BRUSHED COPPER'', 1),
     (''LARGE ANODIZED TIN'', 1), (''LARGE ANODIZED NICKEL'', 1), (''LARGE ANODIZED BRASS'', 1),
     (''LARGE ANODIZED STEEL'', 1), (''LARGE ANODIZED COPPER'', 1), (''LARGE BURNISHED TIN'', 1),
     (''LARGE BURNISHED NICKEL'', 1), (''LARGE BURNISHED BRASS'', 1),
     (''LARGE BURNISHED STEEL'', 1), (''LARGE BURNISHED COPPER'', 1), (''LARGE PLATED TIN'', 1),
     (''LARGE PLATED NICKEL'', 1), (''LARGE PLATED BRASS'', 1), (''LARGE PLATED STEEL'', 1),
     (''LARGE PLATED COPPER'', 1), (''LARGE POLISHED TIN'', 1), (''LARGE POLISHED NICKEL'', 1),
     (''LARGE POLISHED BRASS'', 1), (''LARGE POLISHED STEEL'', 1), (''LARGE POLISHED COPPER'', 1),
     (''LARGE BRUSHED TIN'', 1), (''LARGE BRUSHED NICKEL'', 1), (''LARGE BRUSHED BRASS'', 1),
     (''LARGE BRUSHED STEEL'', 1), (''LARGE BRUSHED COPPER'', 1), (''ECONOMY ANODIZED TIN'', 1),
     (''ECONOMY ANODIZED NICKEL'', 1), (''ECONOMY ANODIZED BRASS'', 1),
     (''ECONOMY ANODIZED STEEL'', 1), (''ECONOMY ANODIZED COPPER'', 1),
     (''ECONOMY BURNISHED TIN'', 1), (''ECONOMY BURNISHED NICKEL'', 1),
     (''ECONOMY BURNISHED BRASS'', 1), (''ECONOMY BURNISHED STEEL'', 1),
     (''ECONOMY BURNISHED COPPER'', 1), (''ECONOMY PLATED TIN'', 1),
     (''ECONOMY PLATED NICKEL'', 1), (''ECONOMY PLATED BRASS'', 1), (''ECONOMY PLATED STEEL'', 1),
     (''ECONOMY PLATED COPPER'', 1), (''ECONOMY POLISHED TIN'', 1),
     (''ECONOMY POLISHED NICKEL'', 1), (''ECONOMY POLISHED BRASS'', 1),
     (''ECONOMY POLISHED STEEL'', 1), (''ECONOMY POLISHED COPPER'', 1),
     (''ECONOMY BRUSHED TIN'', 1), (''ECONOMY BRUSHED NICKEL'', 1),
     (''ECONOMY BRUSHED BRASS'', 1), (''ECONOMY BRUSHED STEEL'', 1),
     (''ECONOMY BRUSHED COPPER'', 1), (''PROMO ANODIZED TIN'', 1), (''PROMO ANODIZED NICKEL'', 1),
     (''PROMO ANODIZED BRASS'', 1), (''PROMO ANODIZED STEEL'', 1), (''PROMO ANODIZED COPPER'', 1),
     (''PROMO BURNISHED TIN'', 1), (''PROMO BURNISHED NICKEL'', 1),
     (''PROMO BURNISHED BRASS'', 1), (''PROMO BURNISHED STEEL'', 1),
     (''PROMO BURNISHED COPPER'', 1), (''PROMO PLATED TIN'', 1), (''PROMO PLATED NICKEL'', 1),
     (''PROMO PLATED BRASS'', 1), (''PROMO PLATED STEEL'', 1), (''PROMO PLATED COPPER'', 1),
     (''PROMO POLISHED TIN'', 1), (''PROMO POLISHED NICKEL'', 1), (''PROMO POLISHED BRASS'', 1),
     (''PROMO POLISHED STEEL'', 1), (''PROMO POLISHED COPPER'', 1), (''PROMO BRUSHED TIN'', 1),
     (''PROMO BRUSHED NICKEL'', 1), (''PROMO BRUSHED BRASS'', 1), (''PROMO BRUSHED STEEL'', 1),
     (''PROMO BRUSHED COPPER'', 1)]"

definition nations_entries :: "(string \<times> int) list" where
  "nations_entries =
    [(''ALGERIA'', 0), (''ARGENTINA'', 1), (''BRAZIL'', 0), (''CANADA'', 0), (''EGYPT'', 3),
     (''ETHIOPIA'', - 4), (''FRANCE'', 3), (''GERMANY'', 0), (''INDIA'', - 1), (''INDONESIA'', 0),
     (''IRAN'', 2), (''IRAQ'', 0), (''JAPAN'', - 2), (''JORDAN'', 2), (''KENYA'', - 4),
     (''MOROCCO'', 0), (''MOZAMBIQUE'', 0), (''PERU'', 1), (''CHINA'', 1), (''ROMANIA'', 1),
     (''SAUDI ARABIA'', 1), (''VIETNAM'', - 2), (''RUSSIA'', 1), (''UNITED KINGDOM'', 0),
     (''UNITED STATES'', - 2)]"

definition regions_entries :: "(string \<times> int) list" where
  "regions_entries =
    [(''AFRICA'', 1), (''AMERICA'', 1), (''ASIA'', 1), (''EUROPE'', 1), (''MIDDLE EAST'', 1)]"

definition o_oprio_entries :: "(string \<times> int) list" where
  "o_oprio_entries =
    [(''1-URGENT'', 1), (''2-HIGH'', 1), (''3-MEDIUM'', 1), (''4-NOT SPECIFIED'', 1),
     (''5-LOW'', 1)]"

definition smode_entries :: "(string \<times> int) list" where
  "smode_entries =
    [(''REG AIR'', 1), (''AIR'', 1), (''RAIL'', 1), (''TRUCK'', 1), (''MAIL'', 1), (''FOB'', 1),
     (''SHIP'', 1)]"

definition msegmnt_entries :: "(string \<times> int) list" where
  "msegmnt_entries =
    [(''AUTOMOBILE'', 1), (''BUILDING'', 1), (''FURNITURE'', 1), (''HOUSEHOLD'', 1),
     (''MACHINERY'', 1)]"

definition entries_dist :: "(string \<times> int) list \<Rightarrow> distribution" where
  "entries_dist es = \<lparr>dcount = int (length es), dmax = sum_list (map snd es), dlist = cumulate 0 es, dpermute = None\<rparr>"

definition ssb_dists :: dists where
  "ssb_dists = \<lparr>nations = entries_dist nations_entries, regions = entries_dist regions_entries,
     o_priority_set = entries_dist o_oprio_entries, l_smode_set = entries_dist smode_entries,
     c_mseg_set = entries_dist msegmnt_entries, colors = entries_dist colors_entries,
     p_types_set = entries_dist p_types_entries, p_cntr_set = entries_dist p_cntr_entries\<rparr>"

subsection \<open>The table definitions\<close>

definition mk_tdef :: "string \<Rightarrow> string \<Rightarrow> int \<Rightarrow> int \<Rightarrow> tdef" where
  "mk_tdef n c b ch = \<lparr>td_name = n, td_comment = c, td_base = b, td_child = ch, td_vtotal = 0\<rparr>"

text \<open>The unused slots are all zero; only the slot of \<open>PSUPP\<close> precedes a used one.\<close>

definition ssb_tdefs :: "tdef list" where
  "ssb_tdefs =
    [mk_tdef ''part.tbl'' ''part table'' 200000 NONE,
     mk_tdef [] [] 0 0,
     mk_tdef ''supplier.tbl'' ''suppliers table'' 2000 NONE,
     mk_tdef ''customer.tbl'' ''customers table'' 30000 NONE,
     mk_tdef ''date.tbl'' ''date table'' 2556 NONE,
     mk_tdef ''lineorder.tbl'' ''lineorder table'' 150000 NONE,
     mk_tdef [] [] 0 0, mk_tdef [] [] 0 0, mk_tdef [] [] 0 0, mk_tdef [] [] 0 0]"

subsection \<open>The environment of the builders\<close>

definition ssb_env :: "int \<Rightarrow> int \<Rightarrow> benv" where
  "ssb_env scale refresh = \<lparr>be_dists = ssb_dists, be_scale = scale, be_refresh = refresh,
     be_tdefs = ssb_tdefs, asc_date = the mk_ascdate\<rparr>"

lemma colors_ok: "list_all entry_ok colors_entries"
  by code_simp

lemma p_types_ok: "list_all entry_ok p_types_entries"
  by code_simp

lemma small_sections_ok:
  "list_all entry_ok p_cntr_entries" "list_all entry_ok nations_entries" "list_all entry_ok regions_entries"
  "list_all entry_ok o_oprio_entries" "list_all entry_ok smode_entries" "list_all entry_ok msegmnt_entries"
  by code_simp+

lemmas sections_ok = small_sections_ok colors_ok p_types_ok

lemma cumulate_Nil_iff: "cumulate m es = [] \<longleftrightarrow> es = []"
  by (metis length_0_conv length_cumulate)

lemma weight_last: "es \<noteq> [] \<Longrightarrow> weight (last (cumulate m es)) = m + sum_list (map snd es)"
proof (induction m es rule: cumulate.induct)
  case (2 m tok w es)
  then show ?case by (cases es) (simp_all add: add.assoc cumulate_Nil_iff)
qed simp

lemma entries_dist_ok: "1 \<le> sum_list (map snd es) \<Longrightarrow> sum_list (map snd es) < 2 ^ 31 \<Longrightarrow> dist_ok (entries_dist es)"
  by (cases "es = []") (simp_all add: dist_ok_def entries_dist_def weight_last)

lemma cumulate_texts: "sm_text ` set (cumulate m es) = fst ` set es"
  by (induction m es rule: cumulate.induct) simp_all

lemma ssb_dists_ok: "dists_ok ssb_dists"
  unfolding dists_ok_def
proof (intro conjI)
  show "nations_ok ssb_dists"
    by (simp add: nations_ok_def ssb_dists_def entries_dist_def nations_entries_def regions_entries_def)
  show "dist_ok (o_priority_set ssb_dists)"
    by (simp add: ssb_dists_def) (rule entries_dist_ok; simp add: o_oprio_entries_def)
  show "dist_ok (l_smode_set ssb_dists)"
    by (simp add: ssb_dists_def) (rule entries_dist_ok; simp add: smode_entries_def)
  show "dist_ok (c_mseg_set ssb_dists)"
    by (simp add: ssb_dists_def) (rule entries_dist_ok; simp add: msegmnt_entries_def)
  show "dist_ok (p_types_set ssb_dists)"
    by (simp add: ssb_dists_def) (rule entries_dist_ok; simp add: p_types_entries_def)
  show "dist_ok (p_cntr_set ssb_dists)"
    by (simp add: ssb_dists_def) (rule entries_dist_ok; simp add: p_cntr_entries_def)
  show "dist_sized (colors ssb_dists)" "3 \<le> dcount (colors ssb_dists)" "dcount (colors ssb_dists) \<le> 92"
    by (simp_all add: ssb_dists_def dist_sized_def entries_dist_def colors_entries_def)
  have "\<forall>w \<in> fst ` set colors_entries. CHR '' '' \<notin> set w" by (simp add: colors_entries_def)
  then show "\<forall>m \<in> set (dlist (colors ssb_dists)). CHR '' '' \<notin> set (sm_text m)"
    unfolding cumulate_texts [of 0, symmetric] by (simp add: ssb_dists_def entries_dist_def)
qed

lemma ssb_tdefs_ok: "tdefs_ok ssb_tdefs"
  by (simp add: tdefs_ok_def ssb_tdefs_def mk_tdef_def)

lemma ssb_dates: "asc_date (ssb_env scale refresh) = map (\<lambda>n. fmt_d (int (date_key (calendar n)))) [0..<2557]"
  unfolding ssb_env_def mk_ascdate_calendar by (simp del: upt_rec_numeral)

lemma ssb_env_ok: "1 \<le> scale \<Longrightarrow> scale \<le> 1000 \<Longrightarrow> benv_ok (ssb_env scale refresh)"
  using ssb_dates [of scale refresh] ssb_dists_ok ssb_tdefs_ok
  by (simp add: benv_ok_def del: upt_rec_numeral) (simp add: ssb_env_def)

text \<open>The contracts of the generators hold of the shipped configuration at scale factor 1.\<close>

abbreviation ssb1 :: benv where "ssb1 \<equiv> ssb_env 1 0"

interpretation customers: seekable "mk_cust ssb1" "be_tdefs ssb1" CUST cust_rate "{26, 27, 28, 30}" cust_view "sd_cust 0" 238609294
  by (rule cust_seekable [OF ssb_env_ok]) simp_all

interpretation suppliers: seekable "mk_supp ssb1" "be_tdefs ssb1" SUPP supp_rate "{32, 33}" supp_view "sd_supp 0" 238609294
  by (rule supp_seekable [OF ssb_env_ok]) simp_all

interpretation parts: seekable "mk_part ssb1" "be_tdefs ssb1" PART part_rate "{1, 2, 3, 4, 37}" part_view "sd_part 0" 23342213
  by (rule part_seekable [OF ssb_env_ok]) simp_all

interpretation orders: seekable "mk_order ssb1 0" "be_tdefs ssb1" LINE line_rate line_streams order_view "sd_line 1" "2 ^ 31"
  by (rule order_seekable [OF ssb_env_ok]) simp_all

end
