(* ===== verification/Tables.thy ===== *)
theory Tables
  imports Ssb_Env
begin

text \<open>
  The tables as sequences of rows.  The locale \<open>table_generator\<close> adds to a row generator what holds of
  each of its rows; its lemma lifts this to whole tables.  For the four generated tables of the star
  schema: \<open>n\<close> rows are produced, every row is well-formed, every stream has moved by \<open>n\<close> times its rate;
  and the rows that a child process generates after skipping are those of the whole table, in all
  columns that are drawn from streams the seed routine moves.
\<close>

subsection \<open>From rows to tables\<close>

locale table_generator = row_generator mk tdefs t rate
  for mk :: "int \<Rightarrow> rng \<Rightarrow> ('row \<times> rng) option" and tdefs t rate +
  fixes row_ok :: "int \<Rightarrow> 'row \<Rightarrow> bool"
  assumes row_okI: "rng_inv s \<Longrightarrow> mk i (row_start t s) = Some (r, s1) \<Longrightarrow> row_ok i r"
begin

lemma gen_rows_ok:
  "rng_inv s \<Longrightarrow> \<exists>rs s'. gen_rows mk tdefs t i n s = Some (rs, s') \<and> length rs = n \<and>
     (\<forall>k < n. row_ok (i + int k) (rs ! k)) \<and> advanced (\<lambda>j. n * rate j) s s'"
proof (induction n arbitrary: i s)
  case 0
  then show ?case by (simp add: advanced_refl)
next
  case (Suc n)
  obtain r s1 s2 where r: "mk i (row_start t s) = Some (r, s1)" "row_stop False tdefs t s1 = Some s2"
    "advanced rate s s2" using row_advances [OF Suc.prems] by blast
  from r(3) have "rng_inv s2" by (simp add: advanced_def)
  with Suc.IH [of s2 "i + 1"] obtain rs s3 where rs: "gen_rows mk tdefs t (i + 1) n s2 = Some (rs, s3)"
    "length rs = n" "\<forall>k < n. row_ok (i + 1 + int k) (rs ! k)" "advanced (\<lambda>j. n * rate j) s2 s3" by blast
  have "row_ok (i + int k) ((r # rs) ! k)" if "k < Suc n" for k
    using row_okI [OF Suc.prems r(1)] rs(3) that by (cases k) (simp_all add: add.assoc)
  then show ?case using r rs advanced_trans [OF r(3) rs(4)] by simp
qed

end

lemma table_generatorI:
  assumes "row_generator mk tdefs t rate"
    and "\<And>s i. rng_inv s \<Longrightarrow> \<exists>r s1. mk i (row_start t s) = Some (r, s1) \<and> row_ok i r"
  shows "table_generator mk tdefs t rate row_ok"
proof (rule table_generator.intro [OF assms(1)], unfold_locales)
  fix s i r s1
  assume "rng_inv s" "mk i (row_start t s) = Some (r, s1)"
  then show "row_ok i r" using assms(2) [of s i] by auto
qed

lemma cust_table: "benv_ok e \<Longrightarrow> table_generator (mk_cust e) (be_tdefs e) CUST cust_rate (cust_ok e)"
  by (rule table_generatorI [OF cust_generator]) (use cust_row_advances in blast)+

lemma supp_table: "benv_ok e \<Longrightarrow> table_generator (mk_supp e) (be_tdefs e) SUPP supp_rate (supp_ok e)"
  by (rule table_generatorI [OF supp_generator]) (use supp_row_advances in blast)+

lemma part_table: "benv_ok e \<Longrightarrow> table_generator (mk_part e) (be_tdefs e) PART part_rate (part_ok e)"
  by (rule table_generatorI [OF part_generator]) (use part_row_advances in blast)+

lemma order_table: "benv_ok e \<Longrightarrow> table_generator (mk_order e upd) (be_tdefs e) LINE line_rate (order_ok e upd)"
  by (rule table_generatorI [OF order_generator]) (use order_row_advances in blast)+

interpretation customer_table: table_generator "mk_cust ssb1" "be_tdefs ssb1" CUST cust_rate "cust_ok ssb1"
  by (rule cust_table [OF ssb_env_ok]) simp_all

interpretation order_line_table: table_generator "mk_order ssb1 0" "be_tdefs ssb1" LINE line_rate "order_ok ssb1 0"
  by (rule order_table [OF ssb_env_ok]) simp_all

subsection \<open>The tables\<close>

text \<open>
  C29: the customer table.  From any consistent state of the streams \<open>n\<close> rows are generated; row \<open>k\<close>
  carries the key \<open>i + k\<close> and the name built from it, an alphanumeric address of 6 to 24
  characters, a nation with its region, a city of ten characters that starts with the nation, a phone
  of fifteen characters and a market segment of the distribution; each stream moves by a fixed number
  of steps per row.
\<close>

theorem customer_rows:
  assumes "benv_ok e" "rng_inv s"
  shows "\<exists>rows s'. gen_rows (mk_cust e) (be_tdefs e) CUST i n s = Some (rows, s') \<and> length rows = n \<and>
    (\<forall>k < n. cust_ok e (i + int k) (rows ! k)) \<and> advanced (\<lambda>j. n * cust_rate j) s s'"
  by (rule table_generator.gen_rows_ok [OF cust_table [OF assms(1)] assms(2)])

theorem customer_rows_witness:
  "\<exists>rows s'. gen_rows (mk_cust ssb1) (be_tdefs ssb1) CUST 1 30000 rng_init = Some (rows, s') \<and> length rows = 30000 \<and>
    (\<forall>k < 30000. cust_ok ssb1 (1 + int k) (rows ! k)) \<and> advanced (\<lambda>j. 30000 * cust_rate j) rng_init s'"
  by (rule customer_rows [OF ssb_env_ok rng_init_inv]) simp_all

text \<open>
  The supplier table, as the customer table; the phone is drawn from the customers' stream.
\<close>

theorem supplier_rows:
  assumes "benv_ok e" "rng_inv s"
  shows "\<exists>rows s'. gen_rows (mk_supp e) (be_tdefs e) SUPP i n s = Some (rows, s') \<and> length rows = n \<and>
    (\<forall>k < n. supp_ok e (i + int k) (rows ! k)) \<and> advanced (\<lambda>j. n * supp_rate j) s s'"
  by (rule table_generator.gen_rows_ok [OF supp_table [OF assms(1)] assms(2)])

theorem supplier_rows_witness:
  "\<exists>rows s'. gen_rows (mk_supp ssb1) (be_tdefs ssb1) SUPP 1 2000 rng_init = Some (rows, s') \<and> length rows = 2000 \<and>
    (\<forall>k < 2000. supp_ok ssb1 (1 + int k) (rows ! k)) \<and> advanced (\<lambda>j. 2000 * supp_rate j) rng_init s'"
  by (rule supplier_rows [OF ssb_env_ok rng_init_inv]) simp_all

text \<open>
  The part table.  Name and color are three different colors of the distribution; manufacturer,
  category and brand extend each other with numbers 1..5, 1..5 and 1..40; type and container are of
  their distributions, the size is in 1..50.
\<close>

theorem part_rows:
  assumes "benv_ok e" "rng_inv s"
  shows "\<exists>rows s'. gen_rows (mk_part e) (be_tdefs e) PART i n s = Some (rows, s') \<and> length rows = n \<and>
    (\<forall>k < n. part_ok e (i + int k) (rows ! k)) \<and> advanced (\<lambda>j. n * part_rate j) s s'"
  by (rule table_generator.gen_rows_ok [OF part_table [OF assms(1)] assms(2)])

theorem part_rows_witness:
  "\<exists>rows s'. gen_rows (mk_part ssb1) (be_tdefs ssb1) PART 1 200000 rng_init = Some (rows, s') \<and> length rows = 200000 \<and>
    (\<forall>k < 200000. part_ok ssb1 (1 + int k) (rows ! k)) \<and> advanced (\<lambda>j. 200000 * part_rate j) rng_init s'"
  by (rule part_rows [OF ssb_env_ok rng_init_inv]) simp_all

text \<open>
  C11: the orders with their lines.  Every order has a sparse key, a customer whose key is not divisible
  by 3, a date of the first 2406 days, a priority of the distribution and 1 to 7 lines numbered from 1;
  each line repeats key, customer, date and priority, has a part, a supplier, quantity, discount, tax,
  commit date and ship mode in their ranges and the derived prices; the total price is the sum
  of the line amounts and does not overflow its \<open>int\<close>.
\<close>

theorem order_rows:
  assumes "benv_ok e" "rng_inv s"
  shows "\<exists>rows s'. gen_rows (mk_order e upd) (be_tdefs e) LINE i n s = Some (rows, s') \<and> length rows = n \<and>
    (\<forall>k < n. order_ok e upd (i + int k) (rows ! k)) \<and> advanced (\<lambda>j. n * line_rate j) s s'"
  by (rule table_generator.gen_rows_ok [OF order_table [OF assms(1)] assms(2)])

theorem order_rows_witness:
  "\<exists>rows s'. gen_rows (mk_order ssb1 0) (be_tdefs ssb1) LINE 1 1500000 rng_init = Some (rows, s') \<and> length rows = 1500000 \<and>
    (\<forall>k < 1500000. order_ok ssb1 0 (1 + int k) (rows ! k)) \<and> advanced (\<lambda>j. 1500000 * line_rate j) rng_init s'"
  by (rule order_rows [OF ssb_env_ok rng_init_inv]) simp_all

subsection \<open>Chunks\<close>

text \<open>
  A chunk of the customer table generated after \<open>sd_cust\<close> has skipped \<open>n\<close> rows is the part of the
  whole table from row \<open>n\<close> on, in every column but the city (whose digit comes from a stream number
  out of range, and so from a stream the seed routine does not move).
\<close>

theorem customer_chunk:
  assumes "benv_ok e" "rng_inv s" "n < 238609294"
  shows "\<exists>s' whole chunk sw sc. sd_cust 0 (int n) s = Some s' \<and>
    gen_rows (mk_cust e) (be_tdefs e) CUST i (n + m) s = Some (whole, sw) \<and>
    gen_rows (mk_cust e) (be_tdefs e) CUST (i + int n) m s' = Some (chunk, sc) \<and>
    map cust_view chunk = map cust_view (drop n whole) \<and> length chunk = m"
  by (rule seekable.skip_then_generate [OF cust_seekable [OF assms(1)] assms(2,3)])

theorem customer_chunk_witness:
  "\<exists>s' whole chunk sw sc. sd_cust 0 (int 10000) rng_init = Some s' \<and>
    gen_rows (mk_cust ssb1) (be_tdefs ssb1) CUST 1 (10000 + 20000) rng_init = Some (whole, sw) \<and>
    gen_rows (mk_cust ssb1) (be_tdefs ssb1) CUST (1 + int 10000) 20000 s' = Some (chunk, sc) \<and>
    map cust_view chunk = map cust_view (drop 10000 whole) \<and> length chunk = 20000"
  by (rule customer_chunk [OF ssb_env_ok rng_init_inv]) simp_all

text \<open>
  The same for suppliers, in every column but the city and the phone (\<open>mk_supp\<close> draws it from the
  customers' stream, \<open>sd_supp\<close> moves the suppliers' one).
\<close>

theorem supplier_chunk:
  assumes "benv_ok e" "rng_inv s" "n < 238609294"
  shows "\<exists>s' whole chunk sw sc. sd_supp 0 (int n) s = Some s' \<and>
    gen_rows (mk_supp e) (be_tdefs e) SUPP i (n + m) s = Some (whole, sw) \<and>
    gen_rows (mk_supp e) (be_tdefs e) SUPP (i + int n) m s' = Some (chunk, sc) \<and>
    map supp_view chunk = map supp_view (drop n whole) \<and> length chunk = m"
  by (rule seekable.skip_then_generate [OF supp_seekable [OF assms(1)] assms(2,3)])

theorem supplier_chunk_witness:
  "\<exists>s' whole chunk sw sc. sd_supp 0 (int 1000) rng_init = Some s' \<and>
    gen_rows (mk_supp ssb1) (be_tdefs ssb1) SUPP 1 (1000 + 1000) rng_init = Some (whole, sw) \<and>
    gen_rows (mk_supp ssb1) (be_tdefs ssb1) SUPP (1 + int 1000) 1000 s' = Some (chunk, sc) \<and>
    map supp_view chunk = map supp_view (drop 1000 whole) \<and> length chunk = 1000"
  by (rule supplier_chunk [OF ssb_env_ok rng_init_inv]) simp_all

text \<open>
  The same for parts, in every column but manufacturer, category and brand (the category draw has a
  stream number out of range and moves the manufacturers' stream a second time).
\<close>

theorem part_chunk:
  assumes "benv_ok e" "rng_inv s" "n < 23342213"
  shows "\<exists>s' whole chunk sw sc. sd_part 0 (int n) s = Some s' \<and>
    gen_rows (mk_part e) (be_tdefs e) PART i (n + m) s = Some (whole, sw) \<and>
    gen_rows (mk_part e) (be_tdefs e) PART (i + int n) m s' = Some (chunk, sc) \<and>
    map part_view chunk = map part_view (drop n whole) \<and> length chunk = m"
  by (rule seekable.skip_then_generate [OF part_seekable [OF assms(1)] assms(2,3)])

theorem part_chunk_witness:
  "\<exists>s' whole chunk sw sc. sd_part 0 (int 100000) rng_init = Some s' \<and>
    gen_rows (mk_part ssb1) (be_tdefs ssb1) PART 1 (100000 + 100000) rng_init = Some (whole, sw) \<and>
    gen_rows (mk_part ssb1) (be_tdefs ssb1) PART (1 + int 100000) 100000 s' = Some (chunk, sc) \<and>
    map part_view chunk = map part_view (drop 100000 whole) \<and> length chunk = 100000"
  by (rule part_chunk [OF ssb_env_ok rng_init_inv]) simp_all

text \<open>
  The same for orders and their lines, in every column but the customer and the priority (\<open>sd_line\<close>
  moves neither of their streams).
\<close>

theorem order_chunk:
  assumes "benv_ok e" "rng_inv s" "n < 2 ^ 31"
  shows "\<exists>s' whole chunk sw sc. sd_line 1 (int n) s = Some s' \<and>
    gen_rows (mk_order e upd) (be_tdefs e) LINE i (n + m) s = Some (whole, sw) \<and>
    gen_rows (mk_order e upd) (be_tdefs e) LINE (i + int n) m s' = Some (chunk, sc) \<and>
    map order_view chunk = map order_view (drop n whole) \<and> length chunk = m"
  by (rule seekable.skip_then_generate [OF order_seekable [OF assms(1)] assms(2,3)])

theorem order_chunk_witness:
  "\<exists>s' whole chunk sw sc. sd_line 1 (int 700000) rng_init = Some s' \<and>
    gen_rows (mk_order ssb1 0) (be_tdefs ssb1) LINE 1 (700000 + 800000) rng_init = Some (whole, sw) \<and>
    gen_rows (mk_order ssb1 0) (be_tdefs ssb1) LINE (1 + int 700000) 800000 s' = Some (chunk, sc) \<and>
    map order_view chunk = map order_view (drop 700000 whole) \<and> length chunk = 800000"
  by (rule order_chunk [OF ssb_env_ok rng_init_inv]) simp_all

end
