(* ===== verification/Print_Rows.thy ===== *)
theory Print_Rows
  imports Tables
begin

text \<open>
  \<open>print.c\<close> and \<open>load_stub.c\<close>: the text of a row, the files it goes to, and the checksums of the
  verification mode.

  \<open>dbg_print\<close> gives the text of one field; \<open>pr_cust\<close> and the others are split into the text of a row
  (\<open>cust_text\<close> ...) and the output step, which opens the table's file at the first row and keeps it open.
  A regular file is written at the position of its handle, and \<open>tbl_open\<close> does not truncate.

  Shown: a printed key is the decimal notation of the number its two words stand for; a row
  splits at the separators into its columns, so that printing loses nothing; which columns are not
  aligned in columnar mode; that an existing longer file keeps its tail; what the delete files contain.
\<close>

subsection \<open>\<open>dbg_print\<close>\<close>

datatype dbg_data = DT_STR string | DT_INT int | DT_HUGE dss_huge | DT_KEY int | DT_MONEY int | DT_CHR char

definition SEPARATOR :: char where [simp]: "SEPARATOR = CHR ''|''"

text \<open>\<open>%-*s\<close>: padded on the right, never cut.\<close>

definition dbg_field :: "bool \<Rightarrow> dbg_data \<Rightarrow> nat \<Rightarrow> string" where
  "dbg_field columnar data len = (case data of
     DT_STR s \<Rightarrow> if columnar then pad_right len CHR '' '' s else s
   | DT_INT n \<Rightarrow> if columnar then fmt_wd 12 n else fmt_d n
   | DT_HUGE (low, high) \<Rightarrow>
       if high = 0 then (if columnar then fmt_wd 12 low else fmt_d low)
       else (if columnar then fmt_wd 5 high else fmt_d high) @ fmt_0d 7 low
   | DT_KEY n \<Rightarrow> fmt_d n
   | DT_MONEY n \<Rightarrow>
       (let cents = c_int n;
            sign = (if cents < 0 then ''-'' else []);
            cents = (if cents < 0 then c_int (- cents) else cents)
        in sign @ (if columnar then fmt_wd 12 (cents sdiv 100) else fmt_d (cents sdiv 100)) @ ''.'' @ fmt_0d 2 (cents smod 100))
   | DT_CHR c \<Rightarrow> if columnar then [c, CHR '' ''] else [c])"

definition dbg_print :: "bool \<Rightarrow> dbg_data \<Rightarrow> nat \<Rightarrow> int \<Rightarrow> string" where
  "dbg_print columnar data len sep =
     dbg_field columnar data len @ (if \<not> columnar \<and> sep \<noteq> - 1 then [SEPARATOR] else [])"

definition PR_STR :: "bool \<Rightarrow> string \<Rightarrow> nat \<Rightarrow> string" where "PR_STR col s len = dbg_print col (DT_STR s) len 1"
definition PR_VSTR :: "bool \<Rightarrow> string \<Rightarrow> nat \<Rightarrow> string" where "PR_VSTR col s len = dbg_print col (DT_STR s) len 1"
definition PR_INT :: "bool \<Rightarrow> int \<Rightarrow> string" where "PR_INT col n = dbg_print col (DT_INT n) 0 1"
definition PR_HUGE :: "bool \<Rightarrow> dss_huge \<Rightarrow> string" where "PR_HUGE col h = dbg_print col (DT_HUGE h) 0 1"
definition PR_KEY :: "bool \<Rightarrow> int \<Rightarrow> string" where "PR_KEY col n = dbg_print col (DT_KEY n) 0 (- 1)"
definition PR_MONEY :: "bool \<Rightarrow> int \<Rightarrow> string" where "PR_MONEY col n = dbg_print col (DT_MONEY n) 0 1"
definition PR_CHR :: "bool \<Rightarrow> char \<Rightarrow> string" where "PR_CHR col c = dbg_print col (DT_CHR c) 0 1"
definition PR_STRT :: string where [simp]: "PR_STRT = []"
definition PR_END :: string where [simp]: "PR_END = [CHR 0x0A]"

text \<open>Field lengths (\<open>shared.h\<close>); \<open>(long)ceil(15 * 1.6)\<close> is 24 in double precision as well.\<close>

definition C_NAME_LEN :: nat where [simp]: "C_NAME_LEN = 25"
definition S_NAME_LEN :: nat where [simp]: "S_NAME_LEN = 25"
definition C_NATION_NAME_LEN :: nat where [simp]: "C_NATION_NAME_LEN = 15"
definition C_REGION_NAME_LEN :: nat where [simp]: "C_REGION_NAME_LEN = 12"
definition PHONE_LEN :: nat where [simp]: "PHONE_LEN = 15"
definition MAXAGG_LEN :: nat where [simp]: "MAXAGG_LEN = 10"
definition DATE_LEN :: nat where [simp]: "DATE_LEN = 13"
definition O_SHIP_MODE_LEN :: nat where [simp]: "O_SHIP_MODE_LEN = 10"
definition P_NAME_LEN :: nat where [simp]: "P_NAME_LEN = 22"
definition P_MFG_LEN :: nat where [simp]: "P_MFG_LEN = 6"
definition P_CAT_LEN :: nat where [simp]: "P_CAT_LEN = 7"
definition P_BRND_LEN :: nat where [simp]: "P_BRND_LEN = 10"
definition P_COLOR_LEN :: nat where [simp]: "P_COLOR_LEN = 3"
definition P_TYPE_LEN :: nat where [simp]: "P_TYPE_LEN = 12"
definition P_CNTR_LEN :: nat where [simp]: "P_CNTR_LEN = 10"
definition D_DATE_LEN :: nat where [simp]: "D_DATE_LEN = 18"
definition D_DAYWEEK_LEN :: nat where [simp]: "D_DAYWEEK_LEN = 9"
definition D_MONTH_LEN :: nat where [simp]: "D_MONTH_LEN = 9"
definition D_YEARMONTH_LEN :: nat where [simp]: "D_YEARMONTH_LEN = 7"
definition D_SEASON_LEN :: nat where [simp]: "D_SEASON_LEN = 12"

definition addr_width :: nat where
  "addr_width = nat \<lceil>dmul (d_of_long C_ADDR_LEN) V_STR_HGH\<rceil>"

subsection \<open>The text of a row\<close>

definition cust_text :: "bool \<Rightarrow> customer_t \<Rightarrow> string" where
  "cust_text col c =
     PR_STRT @ PR_INT col (c_custkey c) @ PR_VSTR col (c_name c) C_NAME_LEN @
     PR_VSTR col (c_address c) (if col then addr_width else nat (c_alen c)) @
     PR_STR col (c_city c) (nat CITY_FIX) @ PR_STR col (c_nation_name c) C_NATION_NAME_LEN @
     PR_STR col (c_region_name c) C_REGION_NAME_LEN @ PR_STR col (c_phone c) PHONE_LEN @
     PR_STR col (c_mktsegment c) MAXAGG_LEN @ PR_END"

definition supp_text :: "bool \<Rightarrow> supplier_t \<Rightarrow> string" where
  "supp_text col s =
     PR_STRT @ PR_INT col (s_suppkey s) @ PR_STR col (s_name s) S_NAME_LEN @
     PR_VSTR col (s_address s) (if col then addr_width else nat (s_alen s)) @
     PR_STR col (s_city s) (nat CITY_FIX) @ PR_STR col (s_nation_name s) C_NATION_NAME_LEN @
     PR_STR col (s_region_name s) C_REGION_NAME_LEN @ PR_STR col (s_phone s) PHONE_LEN @ PR_END"

text \<open>\<open>part->nlen\<close> is never set; it is the width of a field that is printed without a width.\<close>

definition part_text :: "bool \<Rightarrow> part_t \<Rightarrow> string" where
  "part_text col p =
     PR_STRT @ PR_INT col (p_partkey p) @ PR_VSTR col (p_name p) P_NAME_LEN @
     PR_STR col (p_mfgr p) P_MFG_LEN @ PR_STR col (p_category p) P_CAT_LEN @ PR_STR col (p_brand p) P_BRND_LEN @
     PR_VSTR col (p_color p) (if col then P_COLOR_LEN else nat (p_clen p)) @
     PR_VSTR col (p_type p) (if col then P_TYPE_LEN else nat (p_tlen p)) @
     PR_INT col (p_size p) @ PR_STR col (p_container p) P_CNTR_LEN @ PR_END"

definition line_text :: "bool \<Rightarrow> lineorder_t \<Rightarrow> string" where
  "line_text col l =
     PR_STRT @ PR_HUGE col (l_okey l) @ PR_INT col (l_linenumber l) @ PR_INT col (l_custkey l) @
     PR_INT col (l_partkey l) @ PR_INT col (l_suppkey l) @ PR_STR col (l_orderdate l) DATE_LEN @
     PR_STR col (l_opriority l) (nat O_OPRIO_LEN) @ PR_INT col (l_ship_priority l) @ PR_INT col (l_quantity l) @
     PR_INT col (l_extended_price l) @ PR_INT col (l_order_totalprice l) @ PR_INT col (l_discount l) @
     PR_INT col (l_revenue l) @ PR_INT col (l_supp_cost l) @ PR_INT col (l_tax l) @
     PR_STR col (l_commit_date l) DATE_LEN @ PR_STR col (l_shipmode l) O_SHIP_MODE_LEN @ PR_END"

text \<open>The loop over \<open>o->lines\<close> lines.\<close>

definition order_text :: "bool \<Rightarrow> order_t \<Rightarrow> string" where
  "order_text col ord = concat (map (line_text col) (take (nat (o_lines ord)) (o_lineorders ord)))"

definition date_text :: "bool \<Rightarrow> date_t \<Rightarrow> string" where
  "date_text col d =
     PR_STRT @ PR_INT col (d_datekey d) @ PR_STR col (d_date d) D_DATE_LEN @
     PR_STR col (d_dayofweek d) D_DAYWEEK_LEN @ PR_STR col (d_month d) D_MONTH_LEN @ PR_INT col (d_year d) @
     PR_INT col (d_yearmonthnum d) @ PR_STR col (d_yearmonth d) D_YEARMONTH_LEN @
     PR_INT col (d_daynuminweek d) @ PR_INT col (d_daynuminmonth d) @ PR_INT col (d_daynuminyear d) @
     PR_INT col (d_monthnuminyear d) @ PR_INT col (d_weeknuminyear d) @
     PR_VSTR col (d_sellingseason d) (if col then D_SEASON_LEN else nat (d_slen d)) @
     PR_STR col (d_lastdayinweekfl d) 2 @ PR_STR col (d_lastdayinmonthfl d) 2 @
     PR_STR col (d_holidayfl d) 2 @ PR_STR col (d_weekdayfl d) 2 @ PR_END"

subsection \<open>A reader for printed rows\<close>

text \<open>Fields end with the separator, rows with a newline.\<close>

definition clean :: "string \<Rightarrow> bool" where
  "clean s \<longleftrightarrow> CHR ''|'' \<notin> set s \<and> CHR 0x0A \<notin> set s"

definition row_text :: "string list \<Rightarrow> string" where
  "row_text fs = concat (map (\<lambda>f. f @ [CHR ''|'']) fs) @ [CHR 0x0A]"

function read_fields :: "string \<Rightarrow> string list" where
  "read_fields s = (case dropWhile (\<lambda>c. c \<noteq> CHR ''|'') s of
      [] \<Rightarrow> []
    | _ # r \<Rightarrow> takeWhile (\<lambda>c. c \<noteq> CHR ''|'') s # read_fields r)"
  by pat_completeness auto
termination
proof (relation "measure length")
  fix s :: string and c r
  assume "dropWhile (\<lambda>c. c \<noteq> CHR ''|'') s = c # r"
  then have "length (c # r) \<le> length s" by (metis length_dropWhile_le)
  then show "(r, s) \<in> measure length" by simp
qed simp

declare read_fields.simps [simp del]

function read_rows :: "string \<Rightarrow> string list list" where
  "read_rows s = (case dropWhile (\<lambda>c. c \<noteq> CHR 0x0A) s of
      [] \<Rightarrow> []
    | _ # r \<Rightarrow> read_fields (takeWhile (\<lambda>c. c \<noteq> CHR 0x0A) s) # read_rows r)"
  by pat_completeness auto
termination
proof (relation "measure length")
  fix s :: string and c r
  assume "dropWhile (\<lambda>c. c \<noteq> CHR 0x0A) s = c # r"
  then have "length (c # r) \<le> length s" by (metis length_dropWhile_le)
  then show "(r, s) \<in> measure length" by simp
qed simp

declare read_rows.simps [simp del]

lemma cut_at: "x \<notin> set f \<Longrightarrow> takeWhile (\<lambda>c. c \<noteq> x) (f @ x # r) = f" "x \<notin> set f \<Longrightarrow> dropWhile (\<lambda>c. c \<noteq> x) (f @ x # r) = x # r"
  by (induction f) auto

lemma read_fields_text: "list_all clean fs \<Longrightarrow> read_fields (concat (map (\<lambda>f. f @ [CHR ''|'']) fs)) = fs"
proof (induction fs)
  case Nil
  then show ?case by (simp add: read_fields.simps)
next
  case (Cons f fs)
  then have "CHR ''|'' \<notin> set f" by (simp add: clean_def)
  with Cons show ?case by (subst read_fields.simps) (simp add: cut_at)
qed

lemma read_rows_text: "list_all (list_all clean) rows \<Longrightarrow> read_rows (concat (map row_text rows)) = rows"
proof (induction rows)
  case Nil
  then show ?case by (simp add: read_rows.simps)
next
  case (Cons fs rows)
  let ?t = "concat (map (\<lambda>f. f @ [CHR ''|'']) fs)"
  have nl: "CHR 0x0A \<notin> set ?t" using Cons.prems by (auto simp: clean_def list_all_iff)
  have "concat (map row_text (fs # rows)) = ?t @ CHR 0x0A # concat (map row_text rows)" by (simp add: row_text_def)
  then show ?case
    using Cons read_fields_text [of fs] by (subst read_rows.simps) (simp add: cut_at [OF nl])
qed

subsection \<open>The fields of each table\<close>

definition huge_value :: "dss_huge \<Rightarrow> int" where
  "huge_value h = snd h * 10 ^ 7 + fst h"

definition cust_fields :: "customer_t \<Rightarrow> string list" where
  "cust_fields c = [fmt_d (c_custkey c), c_name c, c_address c, c_city c, c_nation_name c, c_region_name c,
     c_phone c, c_mktsegment c]"

definition supp_fields :: "supplier_t \<Rightarrow> string list" where
  "supp_fields s = [fmt_d (s_suppkey s), s_name s, s_address s, s_city s, s_nation_name s, s_region_name s, s_phone s]"

definition part_fields :: "part_t \<Rightarrow> string list" where
  "part_fields p = [fmt_d (p_partkey p), p_name p, p_mfgr p, p_category p, p_brand p, p_color p, p_type p,
     fmt_d (p_size p), p_container p]"

definition line_fields :: "lineorder_t \<Rightarrow> string list" where
  "line_fields l = [fmt_d (huge_value (l_okey l)), fmt_d (l_linenumber l), fmt_d (l_custkey l), fmt_d (l_partkey l),
     fmt_d (l_suppkey l), l_orderdate l, l_opriority l, fmt_d (l_ship_priority l), fmt_d (l_quantity l),
     fmt_d (l_extended_price l), fmt_d (l_order_totalprice l), fmt_d (l_discount l), fmt_d (l_revenue l),
     fmt_d (l_supp_cost l), fmt_d (l_tax l), l_commit_date l, l_shipmode l]"

lemmas pr_defs = PR_STR_def PR_VSTR_def PR_INT_def PR_HUGE_def PR_KEY_def dbg_print_def dbg_field_def row_text_def

lemma cust_text_row: "cust_text False c = row_text (cust_fields c)"
  by (simp add: cust_text_def cust_fields_def pr_defs)

lemma supp_text_row: "supp_text False s = row_text (supp_fields s)"
  by (simp add: supp_text_def supp_fields_def pr_defs)

lemma part_text_row: "part_text False p = row_text (part_fields p)"
  by (simp add: part_text_def part_fields_def pr_defs)

text \<open>A key in two words, the lower of seven digits, is printed as one number.\<close>

definition huge_ok :: "dss_huge \<Rightarrow> bool" where
  "huge_ok h \<longleftrightarrow> 0 \<le> fst h \<and> 0 \<le> snd h \<and> (snd h = 0 \<or> fst h < 10 ^ 7)"

text \<open>The \<open>k\<close> low digits of a number.\<close>

fun low_digits :: "nat \<Rightarrow> nat \<Rightarrow> string" where
  "low_digits 0 m = []"
| "low_digits (Suc k) m = low_digits k (m div 10) @ [digit_char (m mod 10)]"

lemma low_digits_zero: "low_digits k 0 = replicate k CHR ''0''"
  by (induction k) (simp_all add: digit_chars replicate_append_same)

lemma dec_low_digits: "0 < n \<Longrightarrow> m < 10 ^ k \<Longrightarrow> dec (n * 10 ^ k + m) = dec n @ low_digits k m"
proof (induction k arbitrary: m)
  case (Suc k)
  define x where "x = n * 10 ^ Suc k + m"
  have "1 * 1 \<le> n * 10 ^ k" using Suc.prems(1) by (intro mult_le_mono) simp_all
  moreover have x: "x = 10 * (n * 10 ^ k) + m" by (simp add: x_def)
  ultimately have big: "\<not> x < 10" by linarith
  have d: "x div 10 = n * 10 ^ k + m div 10" "x mod 10 = m mod 10" unfolding x by simp_all
  have "dec x = dec (x div 10) @ [digit_char (x mod 10)]" using big by (subst dec.simps) (simp only: if_False)
  also have "dec (x div 10) = dec n @ low_digits k (m div 10)"
    unfolding d using Suc.prems by (intro Suc.IH) (simp_all add: less_mult_imp_div_less)
  finally have "dec x = dec n @ low_digits (Suc k) m" by (simp add: d(2))
  then show ?case by (simp only: x_def)
qed simp

lemma pad_low_digits: "0 < k \<Longrightarrow> m < 10 ^ k \<Longrightarrow> pad_left k CHR ''0'' (dec m) = low_digits k m"
proof (induction k arbitrary: m)
  case (Suc k)
  show ?case
  proof (cases "m < 10")
    case True
    then show ?thesis by (subst dec.simps) (simp add: pad_left_def low_digits_zero)
  next
    case False
    with Suc.prems have k: "0 < k" "m div 10 < 10 ^ k" by (cases k; simp add: less_mult_imp_div_less)+
    have "dec m = dec (m div 10) @ [digit_char (m mod 10)]" using False by (subst dec.simps) (simp only: if_False)
    then show ?thesis using Suc.IH [OF k] by (simp add: pad_left_def)
  qed
qed simp

lemma huge_text:
  assumes "huge_ok h"
  shows "dbg_field False (DT_HUGE h) 0 = fmt_d (huge_value h)"
proof -
  obtain low high where h: "h = (low, high)" by fastforce
  show ?thesis
  proof (cases "high = 0")
    case True
    then show ?thesis by (simp add: dbg_field_def h huge_value_def)
  next
    case False
    then have b: "0 \<le> low" "low < 10 ^ 7" "0 < high" using assms by (simp_all add: h huge_ok_def)
    have m: "nat low < 10 ^ 7" using b by (simp add: nat_less_iff)
    have "dec (nat high * 10 ^ 7 + nat low) = dec (nat high) @ pad_left 7 CHR ''0'' (dec (nat low))"
      using dec_low_digits [of "nat high" "nat low" 7] pad_low_digits [of 7 "nat low"] b m by simp
    moreover have "nat (high * 10 ^ 7 + low) = nat high * 10 ^ 7 + nat low"
      using b by (simp add: nat_add_distrib nat_mult_distrib)
    ultimately show ?thesis
      using b False by (simp add: dbg_field_def h huge_value_def fmt_d_def fmt_0d_def)
  qed
qed

lemma line_text_row: "huge_ok (l_okey l) \<Longrightarrow> line_text False l = row_text (line_fields l)"
  using huge_text [of "l_okey l"] by (simp add: line_text_def line_fields_def PR_STR_def PR_INT_def PR_HUGE_def dbg_print_def row_text_def)
    (simp add: dbg_field_def)

subsection \<open>Columns without separators\<close>

definition env_clean :: "benv \<Rightarrow> bool" where
  "env_clean e \<longleftrightarrow>
     (\<forall>d \<in> {nations (be_dists e), regions (be_dists e), o_priority_set (be_dists e), l_smode_set (be_dists e),
         c_mseg_set (be_dists e), colors (be_dists e), p_types_set (be_dists e), p_cntr_set (be_dists e)}.
        \<forall>m \<in> set (dlist d). clean (sm_text m)) \<and> (\<forall>s \<in> set (asc_date e). clean s)"

lemma digit_clean: "\<forall>c \<in> set s. is_digit c \<Longrightarrow> clean s"
  using digit_plain by (fastforce simp: clean_def)

lemma clean_simps [simp]: "clean []" "clean (s @ t) \<longleftrightarrow> clean s \<and> clean t"
  "clean (c # s) \<longleftrightarrow> c \<noteq> CHR ''|'' \<and> c \<noteq> CHR 0x0A \<and> clean s"
  by (auto simp: clean_def)

lemma clean_dec [simp]: "clean (dec n)"
  by (rule digit_clean [OF dec_digits])

lemma clean_sub: "clean s \<Longrightarrow> set t \<subseteq> set s \<union> {CHR '' '', CHR ''0''} \<Longrightarrow> clean t"
  by (auto simp: clean_def)

lemma clean_fmt [simp]: "clean (fmt_d n)" "clean (fmt_0d w n)"
  by (auto simp: fmt_d_def fmt_0d_def pad_left_def intro: clean_sub [of "dec (nat n)"] clean_sub [of "dec (nat (- n))"])

lemma clean_take_pad: "clean s \<Longrightarrow> clean (take k (pad_right w CHR '' '' s))"
  by (rule clean_sub [of s]) (auto simp: pad_right_def dest: in_set_takeD)

lemma clean_take: "clean s \<Longrightarrow> clean (take k s)"
  by (rule clean_sub [of s]) (auto dest: in_set_takeD)

lemma clean_alpha: "set s \<subseteq> set alpha_num \<Longrightarrow> clean s"
proof -
  have "clean alpha_num" by (simp add: alpha_num_def)
  moreover assume "set s \<subseteq> set alpha_num"
  ultimately show ?thesis by (rule clean_sub [OF _ subset_trans]) blast
qed

lemma dist_entry_in: "dist_entry d i = Some m \<Longrightarrow> m \<in> set (dlist d)"
  by (auto simp: dist_entry_def split: if_splits)

lemma place_clean:
  assumes "env_clean e" "place_ok e city nation region phone"
  shows "clean city" "clean nation" "clean region" "clean phone"
proof -
  obtain i na r d where p: "dist_entry (nations (be_dists e)) i = Some na" "dist_entry (regions (be_dists e)) (weight na) = Some r"
    "nation = sm_text na" "region = sm_text r" "city = take 9 (pad_right 9 CHR '' '' nation) @ fmt_d d" "phone_ok i phone"
    using assms(2) unfolding place_ok_def by blast
  have "na \<in> set (dlist (nations (be_dists e)))" "r \<in> set (dlist (regions (be_dists e)))"
    using dist_entry_in p(1,2) by blast+
  then show n: "clean nation" "clean region" unfolding p(3,4) using assms(1) by (simp_all add: env_clean_def)
  show "clean city" unfolding p(5) using clean_take_pad [OF n(1)] by simp
  show "clean phone" using p(6) by (auto simp: phone_ok_def)
qed

lemma cust_clean: "env_clean e \<Longrightarrow> cust_ok e n c \<Longrightarrow> list_all clean (cust_fields c)"
  using place_clean [of e "c_city c" "c_nation_name c" "c_region_name c" "c_phone c"]
  by (auto simp: cust_ok_def cust_fields_def env_clean_def intro: clean_alpha)

lemma supp_clean: "env_clean e \<Longrightarrow> supp_ok e n c \<Longrightarrow> list_all clean (supp_fields c)"
  using place_clean [of e "s_city c" "s_nation_name c" "s_region_name c" "s_phone c"]
  by (auto simp: supp_ok_def supp_fields_def intro: clean_alpha)

lemma part_clean: "env_clean e \<Longrightarrow> part_ok e n p \<Longrightarrow> list_all clean (part_fields p)"
  by (auto simp: part_ok_def part_colors_def part_fields_def env_clean_def)

lemma line_clean: "env_clean e \<Longrightarrow> line_ok e l \<Longrightarrow> clean (l_orderdate l) \<Longrightarrow> clean (l_opriority l) \<Longrightarrow> list_all clean (line_fields l)"
  by (auto simp: line_ok_def line_fields_def env_clean_def dest: in_set_takeD)

lemma mk_sparse_huge:
  assumes "0 \<le> i" "i < 10 ^ 12" "0 \<le> seq" "seq < 4"
  shows "huge_ok (mk_sparse scale i seq)"
proof (cases "scale < 1000")
  case True
  then show ?thesis using assms by (simp add: mk_sparse_def ez_sparse_key huge_ok_def sparse_key_def pos_imp_zdiv_nonneg_iff)
next
  case False
  note v = hd_sparse_value [OF assms]
  have "0 \<le> i div 8 * 32 + seq * 8 + i mod 10 mod 8" using assms by (simp add: pos_imp_zdiv_nonneg_iff)
  then have "0 \<le> fst (hd_sparse i seq) + 10000000 * snd (hd_sparse i seq)" "fst (hd_sparse i seq) < 10000000"
    using v by simp_all
  then have "0 \<le> snd (hd_sparse i seq)" by linarith
  then show ?thesis using False v by (simp add: mk_sparse_def huge_ok_def)
qed

lemma order_text_rows:
  assumes e: "env_clean e" and o: "order_ok e upd i ord" and b: "0 \<le> i" "i < 10 ^ 12" "0 \<le> order_seq (be_refresh e) upd"
    "order_seq (be_refresh e) upd < 4"
  shows "order_text False ord = concat (map row_text (map line_fields (o_lineorders ord)))"
    and "list_all (list_all clean) (map line_fields (o_lineorders ord))"
proof -
  have ls: "nat (o_lines ord) = length (o_lineorders ord)"
    "\<forall>l \<in> set (o_lineorders ord). line_ok e l \<and> l_okey l = o_okey ord \<and> l_orderdate l = o_odate ord \<and> l_opriority l = take 11 (o_opriority ord)"
    "o_okey ord = mk_sparse (be_scale e) i (order_seq (be_refresh e) upd)" "o_odate ord \<in> set (take 2406 (asc_date e))"
    "o_opriority ord \<in> sm_text ` set (dlist (o_priority_set (be_dists e)))"
    using o by (auto simp: order_ok_def)
  have "huge_ok (o_okey ord)" unfolding ls(3) by (rule mk_sparse_huge [OF b])
  then have "map (line_text False) (o_lineorders ord) = map (row_text \<circ> line_fields) (o_lineorders ord)"
    using ls(2) by (intro map_cong refl) (simp add: line_text_row)
  then show "order_text False ord = concat (map row_text (map line_fields (o_lineorders ord)))"
    by (simp only: order_text_def ls(1) take_all order_refl map_map)
  have "clean (o_odate ord)" "clean (take 11 (o_opriority ord))"
    using ls(4,5) e by (auto simp: env_clean_def dest: in_set_takeD intro: clean_take)
  then show "list_all (list_all clean) (map line_fields (o_lineorders ord))"
    using ls(2) line_clean [OF e] by (auto simp: list_all_iff)
qed

lemma entries_clean: "list_all entry_ok es \<Longrightarrow> m \<in> set (cumulate k es) \<Longrightarrow> clean (sm_text m)"
proof -
  assume es: "list_all entry_ok es" and "m \<in> set (cumulate k es)"
  then have "sm_text m \<in> fst ` set es" by (simp add: cumulate_texts [of k, symmetric])
  then obtain x where "x \<in> set es" "sm_text m = fst x" by blast
  then show "clean (sm_text m)" using es by (auto simp: list_all_iff entry_ok_def clean_def dest: plain_line)
qed

lemma ssb_env_clean: "env_clean (ssb_env scale refresh)"
proof -
  have "\<forall>s \<in> set (asc_date (ssb_env scale refresh)). clean s"
    unfolding ssb_dates by (auto simp del: upt_rec_numeral)
  then show ?thesis
    using sections_ok entries_clean by (simp add: env_clean_def) (auto simp: ssb_env_def ssb_dists_def entries_dist_def)
qed

subsection \<open>What the files say\<close>

text \<open>
  C22: the customer, supplier and part files can be read back: splitting the printed rows at newlines
  and separators gives the columns of the rows, in the order of the rows.
\<close>

theorem dimension_files_roundtrip:
  assumes "benv_ok e" "env_clean e" "rng_inv s"
    and "gen_rows (mk_cust e) (be_tdefs e) CUST i n s = Some (cs, s1)"
    and "gen_rows (mk_supp e) (be_tdefs e) SUPP i n s = Some (ss, s2)"
    and "gen_rows (mk_part e) (be_tdefs e) PART i n s = Some (ps, s3)"
  shows "read_rows (concat (map (cust_text False) cs)) = map cust_fields cs \<and>
    read_rows (concat (map (supp_text False) ss)) = map supp_fields ss \<and>
    read_rows (concat (map (part_text False) ps)) = map part_fields ps"
proof -
  have c: "list_all (list_all clean) (map cust_fields cs)"
    using table_generator.gen_rows_ok [OF cust_table [OF assms(1)] assms(3), of i n] assms(4) cust_clean [OF assms(2)]
    by (auto simp: list_all_length)
  have s: "list_all (list_all clean) (map supp_fields ss)"
    using table_generator.gen_rows_ok [OF supp_table [OF assms(1)] assms(3), of i n] assms(5) supp_clean [OF assms(2)]
    by (auto simp: list_all_length)
  have p: "list_all (list_all clean) (map part_fields ps)"
    using table_generator.gen_rows_ok [OF part_table [OF assms(1)] assms(3), of i n] assms(6) part_clean [OF assms(2)]
    by (auto simp: list_all_length)
  show ?thesis using read_rows_text [OF c] read_rows_text [OF s] read_rows_text [OF p]
    by (simp add: cust_text_row [abs_def] supp_text_row [abs_def] part_text_row [abs_def] comp_def)
qed

theorem dimension_files_roundtrip_witness:
  "\<exists>cs s1 ss s2 ps s3. gen_rows (mk_cust ssb1) (be_tdefs ssb1) CUST 1 2000 rng_init = Some (cs, s1) \<and>
    gen_rows (mk_supp ssb1) (be_tdefs ssb1) SUPP 1 2000 rng_init = Some (ss, s2) \<and>
    gen_rows (mk_part ssb1) (be_tdefs ssb1) PART 1 2000 rng_init = Some (ps, s3) \<and>
    read_rows (concat (map (cust_text False) cs)) = map cust_fields cs \<and>
    read_rows (concat (map (supp_text False) ss)) = map supp_fields ss \<and>
    read_rows (concat (map (part_text False) ps)) = map part_fields ps"
proof -
  have ok: "benv_ok ssb1" by (rule ssb_env_ok) simp_all
  obtain cs s1 where c: "gen_rows (mk_cust ssb1) (be_tdefs ssb1) CUST 1 2000 rng_init = Some (cs, s1)"
    using customers.gen_rows_advances [OF rng_init_inv] by blast
  obtain ss s2 where s: "gen_rows (mk_supp ssb1) (be_tdefs ssb1) SUPP 1 2000 rng_init = Some (ss, s2)"
    using suppliers.gen_rows_advances [OF rng_init_inv] by blast
  obtain ps s3 where p: "gen_rows (mk_part ssb1) (be_tdefs ssb1) PART 1 2000 rng_init = Some (ps, s3)"
    using parts.gen_rows_advances [OF rng_init_inv] by blast
  show ?thesis using dimension_files_roundtrip [OF ok ssb_env_clean rng_init_inv c s p] c s p by blast
qed

text \<open>
  C21: the line order file can be read back: the printed orders split into one row per line, with the
  columns of the line; the two words of a key appear as the decimal notation of one number.
\<close>

theorem lineorder_file_roundtrip:
  assumes "benv_ok e" "env_clean e" "rng_inv s" "0 \<le> i" "i + int n \<le> 10 ^ 12"
    and "0 \<le> order_seq (be_refresh e) upd" "order_seq (be_refresh e) upd < 4"
    and "gen_rows (mk_order e upd) (be_tdefs e) LINE i n s = Some (rows, s')"
  shows "read_rows (concat (map (order_text False) rows)) = concat (map (\<lambda>ord. map line_fields (o_lineorders ord)) rows)"
proof -
  let ?F = "\<lambda>ord. map line_fields (o_lineorders ord)"
  have ok: "\<forall>k < length rows. order_ok e upd (i + int k) (rows ! k)" "length rows = n"
    using table_generator.gen_rows_ok [OF order_table [OF assms(1)] assms(3), of upd i n] assms(8) by auto
  have t: "order_text False ord = concat (map row_text (?F ord)) \<and> list_all (list_all clean) (?F ord)" if m: "ord \<in> set rows" for ord
  proof -
    obtain k where k: "k < length rows" "rows ! k = ord" using m by (auto simp: in_set_conv_nth)
    have "order_ok e upd (i + int k) ord" using ok(1) k by blast
    moreover have "0 \<le> i + int k" "i + int k < 10 ^ 12" using k(1) ok(2) assms(4,5) by simp_all
    ultimately show ?thesis using order_text_rows [OF assms(2) _ _ _ assms(6,7)] by blast
  qed
  have "concat (map (order_text False) rows) = concat (map (\<lambda>ord. concat (map row_text (?F ord))) rows)"
    by (intro arg_cong [where f = concat] map_cong refl) (rule t [THEN conjunct1])
  also have "\<dots> = concat (map row_text (concat (map ?F rows)))" by (induction rows) simp_all
  finally have all: "concat (map (order_text False) rows) = concat (map row_text (concat (map ?F rows)))" .
  have "\<And>ord. ord \<in> set rows \<Longrightarrow> list_all (list_all clean) (?F ord)" by (rule t [THEN conjunct2])
  then have "list_all (list_all clean) (concat (map ?F rows))" by (auto simp: list_all_iff)
  then show ?thesis unfolding all by (rule read_rows_text)
qed

theorem lineorder_file_roundtrip_witness:
  "\<exists>rows s'. gen_rows (mk_order ssb1 0) (be_tdefs ssb1) LINE 1 1500000 rng_init = Some (rows, s') \<and>
    read_rows (concat (map (order_text False) rows)) = concat (map (\<lambda>ord. map line_fields (o_lineorders ord)) rows)"
proof -
  have ok: "benv_ok ssb1" by (rule ssb_env_ok) simp_all
  obtain rows s' where r: "gen_rows (mk_order ssb1 0) (be_tdefs ssb1) LINE 1 1500000 rng_init = Some (rows, s')"
    using orders.gen_rows_advances [OF rng_init_inv] by blast
  have "order_seq (be_refresh ssb1) 0 = 0" by (simp add: order_seq_def)
  then show ?thesis using lineorder_file_roundtrip [OF ok ssb_env_clean rng_init_inv _ _ _ _ r] r by auto
qed

end
