(* ===== verification/Output.thy ===== *)
theory Output
  imports Print_Rows
begin

text \<open>
  Where rows go: \<open>tbl_open\<close> and \<open>yes_no\<close> of \<open>bm_utils.c\<close>, \<open>print_prep\<close>, the \<open>pr_\<close> routines with their static file
  pointers, \<open>pr_drange\<close> and the \<open>vrf_\<close> routines of \<open>print.c\<close>, the stubs of \<open>load_stub.c\<close>.

  The world holds the files, the lines waiting on standard input and the text written to standard
  output.  A run that exits, or does something C leaves undefined, is an \<open>abort\<close> value.  Buffering is left
  out: what is written through a handle is in the file at once.
\<close>

datatype abort = Exit int | Aborted | Crash

datatype node = Regular string | Fifo string

record world =
  nodes :: "string \<Rightarrow> node option"
  denied :: "string \<Rightarrow> bool"
  statfails :: "string \<Rightarrow> bool"
  stdin :: "string list"
  stdout :: string

record handle =
  h_path :: string
  h_pos :: nat

text \<open>The globals the output routines read.  \<open>stale_reg\<close> is what \<open>S_ISREG\<close> says of the
  \<open>stat\<close> buffer when the file does not exist and \<open>stat\<close> has not filled it; \<open>tpch\<close> is not a variable but the
  workload the program is compiled for.\<close>

record config =
  getenv :: "string \<Rightarrow> string option"
  force :: bool
  header :: bool
  columnar :: bool
  updates :: int
  insert_segments :: int
  delete_segments :: int
  gen_sql :: bool
  gen_rng :: bool
  refresh :: int
  stale_reg :: bool
  tpch :: bool

text \<open>Static variables of the output routines; \<open>noted\<close> are the stubs that have printed their note.  The last five are those
  of the tables only the workload TPC-H has; \<open>order_mode\<close> is the \<open>last_mode\<close> of \<open>pr_order\<close>.\<close>

record outs =
  wld :: world
  insert_orders_segment :: int
  insert_lineitem_segment :: int
  delete_segment :: int
  fp_cust :: "handle option"
  fp_supp :: "handle option"
  fp_part :: "handle option"
  fp_date :: "handle option"
  fp_line :: "handle option"
  last_mode :: int
  dfp :: "handle option"
  last_num :: int
  rows_per_segment :: int
  rows_this_segment :: int
  residual_rows :: int
  noted :: "string list"
  fp_order :: "handle option"
  order_mode :: int
  fp_psupp :: "handle option"
  fp_nation :: "handle option"
  fp_region :: "handle option"

definition outs_init :: "world \<Rightarrow> outs" where
  "outs_init wo = \<lparr>wld = wo, insert_orders_segment = 0, insert_lineitem_segment = 0, delete_segment = 0,
     fp_cust = None, fp_supp = None, fp_part = None, fp_date = None, fp_line = None, last_mode = 0, dfp = None,
     last_num = 0, rows_per_segment = 0, rows_this_segment = 0, residual_rows = 0, noted = [],
     fp_order = None, order_mode = 0, fp_psupp = None, fp_nation = None, fp_region = None\<rparr>"

subsection \<open>Files\<close>

definition overwrite :: "nat \<Rightarrow> string \<Rightarrow> string \<Rightarrow> string" where
  "overwrite pos t c = take pos c @ t @ drop (pos + length t) c"

definition fputs :: "string \<Rightarrow> handle \<Rightarrow> world \<Rightarrow> handle \<times> world" where
  "fputs t h wo = (case nodes wo (h_path h) of
      Some (Regular c) \<Rightarrow> (h\<lparr>h_pos := h_pos h + length t\<rparr>,
        wo\<lparr>nodes := (nodes wo)(h_path h \<mapsto> Regular (overwrite (h_pos h) t c))\<rparr>)
    | Some (Fifo c) \<Rightarrow> (h, wo\<lparr>nodes := (nodes wo)(h_path h \<mapsto> Fifo (c @ t))\<rparr>)
    | None \<Rightarrow> (h, wo))"

definition printf :: "string \<Rightarrow> world \<Rightarrow> world" where
  "printf t wo = wo\<lparr>stdout := stdout wo @ t\<rparr>"

text \<open>\<open>fopen(path, "w")\<close> creates or truncates; \<open>None\<close> is \<open>NULL\<close>.\<close>

definition fopen_w :: "string \<Rightarrow> world \<Rightarrow> handle option \<times> world" where
  "fopen_w path wo = (if denied wo path then (None, wo)
     else (Some \<lparr>h_path = path, h_pos = 0\<rparr>, wo\<lparr>nodes := (nodes wo)(path \<mapsto> (case nodes wo path of Some (Fifo c) \<Rightarrow> Fifo c | _ \<Rightarrow> Regular []))\<rparr>))"

text \<open>\<open>open(path, O_WRONLY | O_CREAT | O_LARGEFILE, 0644)\<close> and \<open>fdopen\<close>: nothing is truncated.\<close>

definition open_fd :: "string \<Rightarrow> world \<Rightarrow> handle option \<times> world" where
  "open_fd path wo = (if denied wo path then (None, wo)
     else (Some \<lparr>h_path = path, h_pos = 0\<rparr>,
           wo\<lparr>nodes := (nodes wo)(path \<mapsto> (case nodes wo path of Some n \<Rightarrow> n | None \<Rightarrow> Regular []))\<rparr>))"

text \<open>The question loop of \<open>yes_no\<close>; a reply longer than the buffer, and an end of input, are undefined.\<close>

fun yes_loop :: "string \<Rightarrow> string list \<Rightarrow> string \<Rightarrow> abort + (bool \<times> string list \<times> string)" where
  "yes_loop prompt [] out = Inl Crash"
| "yes_loop prompt (reply # ls) out =
     (let out = out @ prompt @ '' [Y/N]: ''
      in if 128 \<le> length reply then Inl Crash
         else case reply of
             c # _ \<Rightarrow> if c = CHR ''y'' \<or> c = CHR ''Y'' then Inr (True, ls, out)
               else if c = CHR ''n'' \<or> c = CHR ''N'' then Inr (False, ls, out)
               else yes_loop prompt ls (out @ ''Please answer 'yes' or 'no'.'' @ [CHR 0x0A])
           | [] \<Rightarrow> yes_loop prompt ls (out @ ''Please answer 'yes' or 'no'.'' @ [CHR 0x0A]))"

definition yes_no :: "string \<Rightarrow> world \<Rightarrow> abort + (bool \<times> world)" where
  "yes_no prompt wo = (case yes_loop prompt (stdin wo) (stdout wo) of
      Inl a \<Rightarrow> Inl a
    | Inr (b, ls, out) \<Rightarrow> Inr (b, wo\<lparr>stdin := ls, stdout := out\<rparr>))"

definition table_path :: "config \<Rightarrow> string \<Rightarrow> string" where
  "table_path cf name = (case name of
      c # _ \<Rightarrow> if c = CHR ''/'' then name else env_config (getenv cf) ''DSS_PATH'' ''.'' @ ''/'' @ name
    | [] \<Rightarrow> env_config (getenv cf) ''DSS_PATH'' ''.'' @ ''/'' @ name)"

text \<open>The header and load routines of \<open>load_stub.c\<close> print a note on their first call.\<close>

definition note_once :: "string \<Rightarrow> outs \<Rightarrow> outs" where
  "note_once t os = (if t \<in> set (noted os) then os else os\<lparr>noted := t # noted os, wld := printf (t @ [CHR 0x0A]) (wld os)\<rparr>)"

definition hd_cust :: "outs \<Rightarrow> outs" where
  "hd_cust = note_once ''No header has been defined for the customer table''"
definition hd_part :: "outs \<Rightarrow> outs" where
  "hd_part = note_once ''No header has been defined for the part table''"
definition hd_supp :: "outs \<Rightarrow> outs" where
  "hd_supp = note_once ''No header has been defined for the supplier table''"
definition hd_line :: "outs \<Rightarrow> outs" where
  "hd_line = note_once ''No header has been defined for the lineitem table''"

definition ld_cust :: "outs \<Rightarrow> outs" where
  "ld_cust = note_once ''No load routine has been defined for the customer table''"
definition ld_part :: "outs \<Rightarrow> outs" where
  "ld_part = note_once ''No load routine has been defined for the part table''"
definition ld_supp :: "outs \<Rightarrow> outs" where
  "ld_supp = note_once (''No load routine has been defined for the supplier table'' @ [CHR 0x0A])"
definition ld_line :: "outs \<Rightarrow> outs" where
  "ld_line = note_once ''No load routine has been defined for the line table''"
definition ld_date :: "outs \<Rightarrow> outs" where "ld_date os = os"

text \<open>The stubs of the tables only the workload TPC-H has; each call of a stub inside another counts as its own.\<close>

definition hd_order :: "outs \<Rightarrow> outs" where
  "hd_order = note_once ''No header has been defined for the order table''"
definition hd_psupp :: "outs \<Rightarrow> outs" where
  "hd_psupp = note_once ''No header has been defined for the part supplier table''"
definition hd_nation :: "outs \<Rightarrow> outs" where
  "hd_nation = note_once ''No header has been defined for the nation table''"
definition hd_region :: "outs \<Rightarrow> outs" where
  "hd_region = note_once ''No header has been defined for the region table''"
definition hd_order_line :: "outs \<Rightarrow> outs" where "hd_order_line os = hd_line (hd_order os)"
definition hd_part_psupp :: "outs \<Rightarrow> outs" where "hd_part_psupp os = hd_psupp (hd_part os)"

definition ld_order :: "outs \<Rightarrow> outs" where
  "ld_order = note_once ''No load routine has been defined for the order table''"
definition ld_psupp :: "outs \<Rightarrow> outs" where
  "ld_psupp = note_once (''No load routine has been defined for the psupp table'' @ [CHR 0x0A])"
definition ld_nation :: "outs \<Rightarrow> outs" where
  "ld_nation = note_once ''No load routine has been defined for the nation table''"
definition ld_region :: "outs \<Rightarrow> outs" where
  "ld_region = note_once ''No load routine has been defined for the region table''"
definition ld_order_line :: "outs \<Rightarrow> outs" where "ld_order_line os = ld_line (ld_order os)"
definition ld_part_psupp :: "outs \<Rightarrow> outs" where "ld_part_psupp os = ld_psupp (ld_part os)"

definition prep_direct :: "outs \<Rightarrow> int \<times> outs" where "prep_direct os = (0, os)"
definition close_direct :: "outs \<Rightarrow> int \<times> outs" where "close_direct os = (0, os)"

text \<open>The \<open>header\<close> member of a \<open>tdef\<close>; the date table has none.\<close>

definition header_of :: "int \<Rightarrow> outs \<Rightarrow> outs" where
  "header_of tbl = (if tbl = PART then hd_part else if tbl = SUPP then hd_supp else if tbl = CUST then hd_cust
     else if tbl = LINE then hd_line else id)"

definition tpch_header_of :: "int \<Rightarrow> outs \<Rightarrow> outs" where
  "tpch_header_of tbl = (if tbl = PART then hd_part else if tbl = PSUPP then hd_psupp else if tbl = SUPP then hd_supp
     else if tbl = CUST then hd_cust else if tbl = ORDER then hd_order else if tbl = LINE then hd_line
     else if tbl = ORDER_LINE then hd_order_line else if tbl = PART_PSUPP then hd_part_psupp
     else if tbl = NATION then hd_nation else if tbl = REGION then hd_region else id)"

text \<open>\<open>tbl_open(tbl, "w")\<close>\<close>

definition ask_overwrite :: "config \<Rightarrow> string \<Rightarrow> world \<Rightarrow> abort + world" where
  "ask_overwrite cf path wo =
     (let reg = (case nodes wo path of Some (Regular _) \<Rightarrow> True | Some _ \<Rightarrow> False | None \<Rightarrow> stale_reg cf)
      in if reg \<and> \<not> force cf then
           (case yes_no (''Do you want to overwrite '' @ path @ '' ?'') wo of
              Inl a \<Rightarrow> Inl a
            | Inr (b, wo) \<Rightarrow> if b then Inr wo else Inl (Exit 0))
         else Inr wo)"

definition tbl_open :: "config \<Rightarrow> tdef list \<Rightarrow> int \<Rightarrow> outs \<Rightarrow> abort + (handle \<times> outs)" where
  "tbl_open cf tdefs tbl os =
     (let path = table_path cf (td_name (tdefs ! nat tbl))
      in if 256 \<le> length path then Inl Crash
         else if statfails (wld os) path then Inl (Exit (- 1))
         else case ask_overwrite cf path (wld os) of
             Inl a \<Rightarrow> Inl a
           | Inr wo \<Rightarrow>
               (case open_fd path wo of
                  (None, _) \<Rightarrow> Inl (Exit 1)
                | (Some h, wo) \<Rightarrow>
                    (let os = os\<lparr>wld := wo\<rparr>;
                         os = (if header cf \<and> columnar cf then (if tpch cf then tpch_header_of tbl os else header_of tbl os) else os)
                     in Inr (h, os))))"

subsection \<open>\<open>print_prep\<close>\<close>

definition update_path :: "config \<Rightarrow> tdef list \<Rightarrow> int \<Rightarrow> int \<Rightarrow> outs \<Rightarrow> string \<times> outs" where
  "update_path cf tdefs table update os =
     (let dir = env_config (getenv cf) ''DSS_PATH'' ''.'' @ ''/''; name = td_name (tdefs ! nat table)
      in if update > 0 then
           (if insert_segments cf \<noteq> 0 then
              (let (seg, os) = (if name \<noteq> ''orders.tbl''
                   then (insert_orders_segment os + 1, os\<lparr>insert_orders_segment := insert_orders_segment os + 1\<rparr>)
                   else (insert_lineitem_segment os + 1, os\<lparr>insert_lineitem_segment := insert_lineitem_segment os + 1\<rparr>))
               in (dir @ name @ ''.u'' @ fmt_d (update smod 10000) @ ''.'' @ fmt_d seg, os))
            else (dir @ name @ ''.u'' @ fmt_d update, os))
         else
           (if delete_segments cf \<noteq> 0 then
              (let os = os\<lparr>delete_segment := delete_segment os + 1\<rparr>
               in (dir @ ''delete.u'' @ fmt_d ((- update) smod 10000) @ ''.'' @ fmt_d (delete_segment os), os))
            else (dir @ ''delete.'' @ fmt_d (- update), os)))"

definition print_prep :: "config \<Rightarrow> tdef list \<Rightarrow> int \<Rightarrow> int \<Rightarrow> outs \<Rightarrow> abort + (handle option \<times> outs)" where
  "print_prep cf tdefs table update os =
     (if updates cf \<noteq> 0 then
        (let (path, os) = update_path cf tdefs table update os
         in if 128 \<le> length path then Inl Crash
            else let (h, wo) = fopen_w path (wld os) in Inr (h, os\<lparr>wld := wo\<rparr>))
      else map_sum id (\<lambda>(h, os). (Some h, os)) (tbl_open cf tdefs table os))"

subsection \<open>The \<open>pr_\<close> routines\<close>

text \<open>Writing through a file pointer; \<open>NULL\<close> crashes.\<close>

definition put :: "string \<Rightarrow> handle option \<Rightarrow> world \<Rightarrow> abort + (handle option \<times> world)" where
  "put t fp wo = (case fp of None \<Rightarrow> Inl Crash | Some h \<Rightarrow> let (h, wo) = fputs t h wo in Inr (Some h, wo))"

text \<open>A table with a static file pointer that is opened at the first row.\<close>

definition pr_static :: "config \<Rightarrow> tdef list \<Rightarrow> int \<Rightarrow> int \<Rightarrow> (outs \<Rightarrow> handle option) \<Rightarrow>
    (handle option \<Rightarrow> outs \<Rightarrow> outs) \<Rightarrow> string \<Rightarrow> outs \<Rightarrow> abort + outs" where
  "pr_static cf tdefs table update rd wr t os =
     (case (if rd os = None then print_prep cf tdefs table update os else Inr (rd os, os)) of
        Inl a \<Rightarrow> Inl a
      | Inr (fp, os) \<Rightarrow> map_sum id (\<lambda>(fp, wo). wr fp (os\<lparr>wld := wo\<rparr>)) (put t fp (wld os)))"

definition pr_cust :: "config \<Rightarrow> tdef list \<Rightarrow> customer_t \<Rightarrow> outs \<Rightarrow> abort + outs" where
  "pr_cust cf tdefs c os =
     pr_static cf tdefs CUST 0 fp_cust (\<lambda>fp os. os\<lparr>fp_cust := fp\<rparr>) (cust_text (columnar cf) c) os"

definition pr_supp :: "config \<Rightarrow> tdef list \<Rightarrow> supplier_t \<Rightarrow> int \<Rightarrow> outs \<Rightarrow> abort + outs" where
  "pr_supp cf tdefs s mode os =
     pr_static cf tdefs SUPP mode fp_supp (\<lambda>fp os. os\<lparr>fp_supp := fp\<rparr>) (supp_text (columnar cf) s) os"

definition pr_part :: "config \<Rightarrow> tdef list \<Rightarrow> part_t \<Rightarrow> outs \<Rightarrow> abort + outs" where
  "pr_part cf tdefs p os =
     pr_static cf tdefs PART 0 fp_part (\<lambda>fp os. os\<lparr>fp_part := fp\<rparr>) (part_text (columnar cf) p) os"

definition pr_date :: "config \<Rightarrow> tdef list \<Rightarrow> date_t \<Rightarrow> outs \<Rightarrow> abort + outs" where
  "pr_date cf tdefs d os =
     pr_static cf tdefs DATE 0 fp_date (\<lambda>fp os. os\<lparr>fp_date := fp\<rparr>) (date_text (columnar cf) d) os"

text \<open>\<open>pr_line\<close> opens a new file when the update set changes.\<close>

definition pr_line :: "config \<Rightarrow> tdef list \<Rightarrow> order_t \<Rightarrow> int \<Rightarrow> outs \<Rightarrow> abort + outs" where
  "pr_line cf tdefs ord mode os =
     (case (if fp_line os = None \<or> mode \<noteq> last_mode os
            then map_sum id (\<lambda>(fp, os). (fp, os\<lparr>last_mode := mode\<rparr>)) (print_prep cf tdefs LINE mode os)
            else Inr (fp_line os, os)) of
        Inl a \<Rightarrow> Inl a
      | Inr (fp, os) \<Rightarrow>
          map_sum id (\<lambda>(fp, wo). os\<lparr>wld := wo, fp_line := fp\<rparr>) (put (order_text (columnar cf) ord) fp (wld os)))"

subsection \<open>\<open>pr_drange\<close>\<close>

text \<open>\<open>print_prep\<close> for the next delete file; \<open>Inr (Inl os)\<close> is the early \<open>return -1\<close>.\<close>

definition reopen :: "config \<Rightarrow> tdef list \<Rightarrow> int \<Rightarrow> int \<Rightarrow> int \<Rightarrow> outs \<Rightarrow> abort + (outs + outs)" where
  "reopen cf tdefs tbl num rows os =
     (case print_prep cf tdefs tbl (- num) os of
        Inl a \<Rightarrow> Inl a
      | Inr (None, os) \<Rightarrow> Inr (Inl (os\<lparr>dfp := None\<rparr>))
      | Inr (Some h, os) \<Rightarrow> Inr (Inr (os\<lparr>dfp := Some h, last_num := num, rows_this_segment := rows\<rparr>)))"

definition put_d :: "string \<Rightarrow> outs \<Rightarrow> abort + outs" where
  "put_d t os = map_sum id (\<lambda>(fp, wo). os\<lparr>dfp := fp, wld := wo\<rparr>) (put t (dfp os) (wld os))"

definition delete_stmts :: "tdef list \<Rightarrow> int \<Rightarrow> int \<Rightarrow> string" where
  "delete_stmts tdefs start last0 =
     ''delete from '' @ td_name (tdefs ! nat ORDER) @ '' where o_orderkey between '' @ fmt_d start @ '' and '' @ fmt_d last0 @ '';'' @ [CHR 0x0A] @
     ''delete from '' @ td_name (tdefs ! nat LINE) @ '' where l_orderkey between '' @ fmt_d start @ '' and '' @ fmt_d last0 @ '';'' @ [CHR 0x0A] @
     ''commit work;'' @ [CHR 0x0A]"

definition range_text :: "bool \<Rightarrow> int \<Rightarrow> int \<Rightarrow> string" where
  "range_text col start last0 = PR_STRT @ PR_INT col start @ PR_INT col last0 @ PR_END"

text \<open>The segment accounting before a key is printed.\<close>

definition next_segment :: "config \<Rightarrow> tdef list \<Rightarrow> int \<Rightarrow> int \<Rightarrow> int \<Rightarrow> outs \<Rightarrow> abort + (outs + outs)" where
  "next_segment cf tdefs tbl num cnt os =
     (if delete_segments cf = 0 then Inr (Inr os)
      else
        let os = (if rows_per_segment os = 0
                  then os\<lparr>rows_per_segment := cnt sdiv delete_segments cf + 1, residual_rows := cnt smod delete_segments cf\<rparr>
                  else os);
            os = os\<lparr>rows_this_segment := rows_this_segment os + 1\<rparr>
        in if (if delete_segment os \<le> residual_rows os then rows_this_segment os > rows_per_segment os
               else rows_this_segment os \<ge> rows_per_segment os)
           then reopen cf tdefs tbl num 1 os else Inr (Inr os))"

text \<open>The loop over the keys, \<open>n\<close> to go.\<close>

fun drange_loop :: "nat \<Rightarrow> config \<Rightarrow> tdef list \<Rightarrow> int \<Rightarrow> int \<Rightarrow> int \<Rightarrow> int \<Rightarrow> int \<Rightarrow> int \<Rightarrow> outs \<Rightarrow>
    abort + (outs + (int \<times> int \<times> outs))" where
  "drange_loop 0 cf tdefs tbl num seq child start last0 os = Inr (Inr (start, last0, os))"
| "drange_loop (Suc n) cf tdefs tbl num seq child start last0 os =
     (let new = MK_SPARSE child seq
      in if gen_rng cf \<and> new - last0 = 1
         then drange_loop n cf tdefs tbl num seq (c_int (child + 1)) start new os
         else case (if gen_sql cf then map_sum id Inr (put_d (delete_stmts tdefs start last0) os)
                    else if gen_rng cf then map_sum id Inr (put_d (range_text (columnar cf) start last0) os)
                    else case next_segment cf tdefs tbl num (int (Suc n)) os of
                        Inl a \<Rightarrow> Inl a
                      | Inr (Inl os) \<Rightarrow> Inr (Inl os)
                      | Inr (Inr os) \<Rightarrow> map_sum id Inr (put_d (PR_STRT @ PR_KEY (columnar cf) new @ PR_END) os)) of
             Inl a \<Rightarrow> Inl a
           | Inr (Inl os) \<Rightarrow> Inr (Inl os)
           | Inr (Inr os) \<Rightarrow> drange_loop n cf tdefs tbl num seq (c_int (child + 1)) new new os)"

definition pr_drange :: "config \<Rightarrow> tdef list \<Rightarrow> int \<Rightarrow> int \<Rightarrow> int \<Rightarrow> int \<Rightarrow> outs \<Rightarrow> abort + (int \<times> outs)" where
  "pr_drange cf tdefs tbl mn cnt num os =
     (case (if last_num os \<noteq> num then reopen cf tdefs tbl num 0 os else Inr (Inr os)) of
        Inl a \<Rightarrow> Inl a
      | Inr (Inl os) \<Rightarrow> Inr (- 1, os)
      | Inr (Inr os) \<Rightarrow>
          if refresh cf = 0 \<or> 10000 sdiv refresh cf = 0 then Inl Crash
          else let seq = (num - 1) sdiv (10000 sdiv refresh cf); start = MK_SPARSE mn seq
            in (case drange_loop (nat cnt) cf tdefs tbl num seq (c_int mn) start (start - 1) os of
                  Inl a \<Rightarrow> Inl a
                | Inr (Inl os) \<Rightarrow> Inr (- 1, os)
                | Inr (Inr (start, last0, os)) \<Rightarrow>
                    if gen_rng cf then map_sum id (\<lambda>os. (0, os)) (put_d (range_text (columnar cf) start last0) os)
                    else Inr (0, os)))"

subsection \<open>The checksums of the verification mode\<close>

text \<open>\<open>vtotal\<close> is an \<open>unsigned long\<close>; characters are signed.\<close>

definition vrf_add :: "int \<Rightarrow> int \<Rightarrow> tdef list \<Rightarrow> tdef list" where
  "vrf_add t x tdefs = tdefs[nat t := (tdefs ! nat t)\<lparr>td_vtotal := (td_vtotal (tdefs ! nat t) + x) mod 2 ^ 64\<rparr>]"

definition schar :: "char \<Rightarrow> int" where
  "schar c = (if (of_char c :: int) < 128 then of_char c else of_char c - 256)"

definition VRF_INT :: "int \<Rightarrow> int \<Rightarrow> tdef list \<Rightarrow> tdef list" where "VRF_INT t d tdefs = vrf_add t d tdefs"
definition VRF_STR :: "int \<Rightarrow> string \<Rightarrow> tdef list \<Rightarrow> tdef list" where
  "VRF_STR t d tdefs = foldl (\<lambda>tdefs c. vrf_add t (schar c) tdefs) tdefs d"
definition VRF_HUGE :: "int \<Rightarrow> dss_huge \<Rightarrow> tdef list \<Rightarrow> tdef list" where
  "VRF_HUGE t d tdefs = vrf_add t (fst d + snd d) tdefs"

definition vrf_cust :: "customer_t \<Rightarrow> tdef list \<Rightarrow> tdef list" where
  "vrf_cust c td =
     (let td = VRF_INT CUST (c_custkey c) td; td = VRF_STR CUST (c_name c) td; td = VRF_STR CUST (c_address c) td;
          td = VRF_STR CUST (c_city c) td; td = VRF_STR CUST (c_nation_name c) td;
          td = VRF_STR CUST (c_region_name c) td; td = VRF_STR CUST (c_phone c) td
      in VRF_STR CUST (c_mktsegment c) td)"

definition vrf_line1 :: "lineorder_t \<Rightarrow> tdef list \<Rightarrow> tdef list" where
  "vrf_line1 l td =
     (let td = VRF_HUGE LINE (l_okey l) td; td = VRF_INT LINE (l_linenumber l) td; td = VRF_INT LINE (l_custkey l) td;
          td = VRF_INT LINE (l_partkey l) td; td = VRF_INT LINE (l_suppkey l) td; td = VRF_STR LINE (l_orderdate l) td;
          td = VRF_STR LINE (l_opriority l) td; td = VRF_INT LINE (l_ship_priority l) td; td = VRF_INT LINE (l_quantity l) td;
          td = VRF_INT LINE (l_extended_price l) td; td = VRF_INT LINE (l_order_totalprice l) td;
          td = VRF_INT LINE (l_discount l) td; td = VRF_INT LINE (l_revenue l) td; td = VRF_INT LINE (l_supp_cost l) td;
          td = VRF_INT LINE (l_tax l) td; td = VRF_STR LINE (l_commit_date l) td
      in VRF_STR LINE (l_shipmode l) td)"

definition vrf_line :: "order_t \<Rightarrow> tdef list \<Rightarrow> tdef list" where
  "vrf_line ord td = foldl (\<lambda>td l. vrf_line1 l td) td (take (nat (o_lines ord)) (o_lineorders ord))"

definition vrf_part :: "part_t \<Rightarrow> tdef list \<Rightarrow> tdef list" where
  "vrf_part p td =
     (let td = VRF_INT PART (p_partkey p) td; td = VRF_STR PART (p_name p) td; td = VRF_STR PART (p_mfgr p) td;
          td = VRF_STR PART (p_brand p) td; td = VRF_STR PART (p_type p) td; td = VRF_INT PART (p_size p) td;
          td = VRF_STR PART (p_container p) td
      in VRF_STR PART (p_category p) td)"

text \<open>Most columns of a supplier are added to the customers' sum; \<open>nation_key\<close> and \<open>region_key\<close>
  are never set, and are arguments here.\<close>

definition vrf_supp :: "int \<Rightarrow> int \<Rightarrow> supplier_t \<Rightarrow> tdef list \<Rightarrow> tdef list" where
  "vrf_supp nation_key region_key s td =
     (let td = VRF_INT SUPP (s_suppkey s) td; td = VRF_STR SUPP (s_name s) td; td = VRF_STR CUST (s_address s) td;
          td = VRF_INT CUST nation_key td; td = VRF_STR CUST (s_nation_name s) td; td = VRF_INT CUST region_key td;
          td = VRF_STR CUST (s_region_name s) td
      in VRF_STR CUST (s_phone s) td)"

definition vrf_date :: "date_t \<Rightarrow> tdef list \<Rightarrow> tdef list" where
  "vrf_date d td =
     (let td = VRF_INT DATE (d_datekey d) td; td = VRF_STR DATE (d_date d) td; td = VRF_STR DATE (d_dayofweek d) td;
          td = VRF_STR DATE (d_month d) td; td = VRF_INT DATE (d_year d) td; td = VRF_INT DATE (d_yearmonthnum d) td;
          td = VRF_STR DATE (d_yearmonth d) td; td = VRF_INT DATE (d_daynuminweek d) td;
          td = VRF_INT DATE (d_daynuminmonth d) td; td = VRF_INT DATE (d_daynuminyear d) td;
          td = VRF_INT DATE (d_monthnuminyear d) td; td = VRF_INT DATE (d_weeknuminyear d) td;
          td = VRF_STR DATE (d_sellingseason d) td; td = VRF_STR DATE (d_lastdayinweekfl d) td;
          td = VRF_STR DATE (d_lastdayinmonthfl d) td
      in VRF_STR DATE (d_weekdayfl d) td)"

subsection \<open>A table's file\<close>

text \<open>Rows printed one after the other; the first abort ends the run.\<close>

fun pr_seq :: "('row \<Rightarrow> 'o \<Rightarrow> abort + 'o) \<Rightarrow> 'row list \<Rightarrow> 'o \<Rightarrow> abort + 'o" where
  "pr_seq f [] os = Inr os"
| "pr_seq f (r # rs) os = (case f r os of Inl a \<Rightarrow> Inl a | Inr os \<Rightarrow> pr_seq f rs os)"

definition file_at :: "string \<Rightarrow> outs \<Rightarrow> string" where
  "file_at path os = (case nodes (wld os) path of Some (Regular c) \<Rightarrow> c | _ \<Rightarrow> [])"

text \<open>The file can be opened without asking: it may be written, and it is absent or overwriting is forced.\<close>

definition can_open :: "config \<Rightarrow> string \<Rightarrow> outs \<Rightarrow> bool" where
  "can_open cf path os \<longleftrightarrow> updates cf = 0 \<and> \<not> (header cf \<and> columnar cf) \<and> length path < 256 \<and> \<not> denied (wld os) path \<and>
     \<not> statfails (wld os) path \<and> (case nodes (wld os) path of
        None \<Rightarrow> force cf \<or> \<not> stale_reg cf | Some (Regular _) \<Rightarrow> force cf | Some (Fifo _) \<Rightarrow> False)"

lemma overwrite_append: "overwrite 0 (s @ t) c = overwrite (length s) t (overwrite 0 s c)"
  by (simp add: overwrite_def add.commute)

lemma print_prep_opens:
  assumes "can_open cf path os" "path = table_path cf (td_name (tdefs ! nat t))"
  shows "print_prep cf tdefs t u os = Inr (Some \<lparr>h_path = path, h_pos = 0\<rparr>,
    os\<lparr>wld := wld os\<lparr>nodes := (nodes (wld os))(path \<mapsto> Regular (file_at path os))\<rparr>\<rparr>)"
proof -
  have "ask_overwrite cf path (wld os) = Inr (wld os)"
    using assms(1) by (auto simp: ask_overwrite_def can_open_def split: option.splits node.splits)
  moreover have "open_fd path (wld os) = (Some \<lparr>h_path = path, h_pos = 0\<rparr>,
      wld os\<lparr>nodes := (nodes (wld os))(path \<mapsto> Regular (file_at path os))\<rparr>)"
    using assms(1) by (auto simp: open_fd_def can_open_def file_at_def split: option.splits node.splits)
  ultimately show ?thesis
    using assms by (auto simp: print_prep_def tbl_open_def can_open_def Let_def)
qed

locale static_file =
  fixes rd :: "outs \<Rightarrow> handle option" and wr :: "handle option \<Rightarrow> outs \<Rightarrow> outs"
  assumes rd_wr: "rd (wr fp os) = fp" and wld_wr: "wld (wr fp os) = wld os"
    and wr_wr: "wr fp ((wr fp' os)\<lparr>wld := wo\<rparr>) = wr fp (os\<lparr>wld := wo\<rparr>)"
begin

text \<open>With the file open at the end of what has been printed, further rows follow it.\<close>

lemma pr_open:
  assumes "rd os = Some \<lparr>h_path = path, h_pos = length s\<rparr>" "nodes (wld os) path = Some (Regular (overwrite 0 s c))"
  shows "\<exists>os'. pr_static cf tdefs t u rd wr x os = Inr os' \<and>
    rd os' = Some \<lparr>h_path = path, h_pos = length (s @ x)\<rparr> \<and> nodes (wld os') path = Some (Regular (overwrite 0 (s @ x) c))"
  using assms by (simp add: pr_static_def put_def fputs_def rd_wr wld_wr overwrite_append)

lemma pr_seq_open:
  "rd os = Some \<lparr>h_path = path, h_pos = length s\<rparr> \<Longrightarrow> nodes (wld os) path = Some (Regular (overwrite 0 s c)) \<Longrightarrow>
   \<exists>os'. pr_seq (\<lambda>r. pr_static cf tdefs t u rd wr (f r)) rs os = Inr os' \<and>
    nodes (wld os') path = Some (Regular (overwrite 0 (s @ concat (map f rs)) c))"
proof (induction rs arbitrary: s os)
  case (Cons r rs)
  obtain os1 where 1: "pr_static cf tdefs t u rd wr (f r) os = Inr os1"
    "rd os1 = Some \<lparr>h_path = path, h_pos = length (s @ f r)\<rparr>" "nodes (wld os1) path = Some (Regular (overwrite 0 (s @ f r) c))"
    using pr_open [OF Cons.prems] by blast
  from Cons.IH [OF 1(2,3)] 1(1) show ?case by simp
qed simp

text \<open>The whole table, starting with the file closed.\<close>

lemma pr_table:
  assumes "rd os = None" "can_open cf path os" "path = table_path cf (td_name (tdefs ! nat t))" "rs \<noteq> []"
  shows "\<exists>os'. pr_seq (\<lambda>r. pr_static cf tdefs t u rd wr (f r)) rs os = Inr os' \<and>
    nodes (wld os') path = Some (Regular (overwrite 0 (concat (map f rs)) (file_at path os)))"
proof -
  let ?h = "Some \<lparr>h_path = path, h_pos = length ([] :: string)\<rparr>"
  let ?o = "os\<lparr>wld := wld os\<lparr>nodes := (nodes (wld os))(path \<mapsto> Regular (overwrite 0 [] (file_at path os)))\<rparr>\<rparr>"
  obtain r rs' where rs: "rs = r # rs'" using assms(4) by (cases rs) auto
  have "pr_static cf tdefs t u rd wr (f r) os = pr_static cf tdefs t u rd wr (f r) (wr ?h ?o)"
    using print_prep_opens [OF assms(2,3)] assms(1)
    by (simp add: pr_static_def rd_wr wld_wr wr_wr put_def overwrite_def)
  moreover have "rd (wr ?h ?o) = ?h" "nodes (wld (wr ?h ?o)) path = Some (Regular (overwrite 0 [] (file_at path os)))"
    by (simp_all add: rd_wr wld_wr)
  ultimately show ?thesis
    using pr_seq_open [of "wr ?h ?o" path "[]" "file_at path os" cf tdefs t u f rs] by (simp add: rs)
qed

end

interpretation cust_file: static_file fp_cust "\<lambda>fp os. os\<lparr>fp_cust := fp\<rparr>"
  by unfold_locales simp_all

interpretation supp_file: static_file fp_supp "\<lambda>fp os. os\<lparr>fp_supp := fp\<rparr>"
  by unfold_locales simp_all

interpretation part_file: static_file fp_part "\<lambda>fp os. os\<lparr>fp_part := fp\<rparr>"
  by unfold_locales simp_all

interpretation date_file: static_file fp_date "\<lambda>fp os. os\<lparr>fp_date := fp\<rparr>"
  by unfold_locales simp_all

text \<open>\<open>pr_line\<close> is such a table too: a file pointer of another update set counts as closed.\<close>

definition rd_line :: "int \<Rightarrow> outs \<Rightarrow> handle option" where
  "rd_line mode os = (if mode \<noteq> last_mode os then None else fp_line os)"

definition wr_line :: "int \<Rightarrow> handle option \<Rightarrow> outs \<Rightarrow> outs" where
  "wr_line mode fp os = os\<lparr>fp_line := fp, last_mode := mode\<rparr>"

interpretation line_file: static_file "rd_line mode" "wr_line mode" for mode
  by unfold_locales (simp_all add: rd_line_def wr_line_def)

lemma pr_line_static:
  "pr_line cf tdefs ord mode os =
     pr_static cf tdefs LINE mode (rd_line mode) (wr_line mode) (order_text (columnar cf) ord) os"
proof (cases "fp_line os = None \<or> mode \<noteq> last_mode os")
  case True
  then show ?thesis
    by (cases "print_prep cf tdefs LINE mode os")
      (auto simp: pr_line_def pr_static_def rd_line_def wr_line_def split: prod.splits intro!: arg_cong [where f = "\<lambda>f. map_sum id f _"] ext)
next
  case False
  then have "(\<lambda>(fp, wo). os\<lparr>wld := wo, fp_line := fp\<rparr>) = (\<lambda>(fp, wo). wr_line mode fp (os\<lparr>wld := wo\<rparr>))"
    by (auto simp: wr_line_def fun_eq_iff)
  with False show ?thesis by (auto simp: pr_line_def pr_static_def rd_line_def)
qed

lemma static_text:
  assumes "static_file rd wr" "rd os = None" "can_open cf (table_path cf (td_name (tdefs ! nat t))) os" "rs \<noteq> []"
  shows "\<exists>os'. pr_seq (\<lambda>r. pr_static cf tdefs t u rd wr (f r)) rs os = Inr os' \<and>
    file_at (table_path cf (td_name (tdefs ! nat t))) os' =
      concat (map f rs) @ drop (length (concat (map f rs))) (file_at (table_path cf (td_name (tdefs ! nat t))) os)"
  using static_file.pr_table [OF assms(1-3) refl assms(4), of u f] by (auto simp: file_at_def overwrite_def)

text \<open>A small run for the examples below: a customer file that exists, and is to be overwritten.\<close>

definition demo_config :: config where
  "demo_config = \<lparr>getenv = (\<lambda>_. None), force = True, header = False, columnar = False, updates = 0, insert_segments = 0,
     delete_segments = 0, gen_sql = False, gen_rng = False, refresh = 10, stale_reg = False, tpch = False\<rparr>"

definition demo_customer :: customer_t where
  "demo_customer = \<lparr>c_custkey = 7, c_name = ''Customer#000000007'', c_address = ''ab'', c_alen = 2, c_city = ''PERU     3'',
     c_nation_name = ''PERU'', c_region_name = ''AMERICA'', c_phone = ''27-100-200-3000'', c_mktsegment = ''BUILDING''\<rparr>"

definition demo_outs :: "string \<Rightarrow> outs" where
  "demo_outs c = outs_init \<lparr>nodes = [''./customer.tbl'' \<mapsto> Regular c], denied = (\<lambda>_. False), statfails = (\<lambda>_. False),
     stdin = [], stdout = []\<rparr>"

text \<open>
  The rows of the customer table end up in its file one after the other, and what an existing file
  held beyond their length stays there: \<open>tbl_open\<close> does not truncate, so that with \<open>-f\<close> a shorter table
  leaves rows of a longer one behind.
\<close>

theorem customer_file:
  assumes "can_open cf (table_path cf (td_name (tdefs ! nat CUST))) os" "rows \<noteq> []" "fp_cust os = None"
  shows "\<exists>os'. pr_seq (pr_cust cf tdefs) rows os = Inr os' \<and>
    file_at (table_path cf (td_name (tdefs ! nat CUST))) os' =
      concat (map (cust_text (columnar cf)) rows) @
      drop (length (concat (map (cust_text (columnar cf)) rows))) (file_at (table_path cf (td_name (tdefs ! nat CUST))) os)"
  using static_text [OF cust_file.static_file_axioms assms(3,1,2)] by (simp add: pr_cust_def [abs_def])

theorem customer_file_witness:
  "\<exists>os'. pr_seq (pr_cust demo_config ssb_tdefs) [demo_customer] (demo_outs (replicate 80 CHR ''x'')) = Inr os' \<and>
    file_at ''./customer.tbl'' os' = ''7|Customer#000000007|ab|PERU     3|PERU|AMERICA|27-100-200-3000|BUILDING|'' @ [CHR 0x0A] @ ''xxxxxx''"
proof -
  have p: "table_path demo_config (td_name (ssb_tdefs ! nat CUST)) = ''./customer.tbl''"
    by (simp add: table_path_def ssb_tdefs_def mk_tdef_def env_config_def demo_config_def)
  have t: "cust_text (columnar demo_config) demo_customer =
      ''7|Customer#000000007|ab|PERU     3|PERU|AMERICA|27-100-200-3000|BUILDING|'' @ [CHR 0x0A]"
    by (simp add: cust_text_def demo_config_def demo_customer_def pr_defs fmt_d_def dec.simps digit_chars)
  have o: "can_open demo_config ''./customer.tbl'' (demo_outs (replicate 80 CHR ''x''))" "fp_cust (demo_outs c) = None"
    "file_at ''./customer.tbl'' (demo_outs c) = c" for c
    by (simp_all add: can_open_def demo_config_def demo_outs_def outs_init_def file_at_def)
  have "drop 74 (replicate 80 CHR ''x'') = ''xxxxxx''" by (simp add: eval_nat_numeral)
  then show ?thesis
    using customer_file [of demo_config ssb_tdefs "demo_outs (replicate 80 CHR ''x'')" "[demo_customer]"] o
    unfolding p by (simp add: t)
qed

subsection \<open>The delete files\<close>

text \<open>What the loop of \<open>pr_drange\<close> writes when deletes are not split into segments, and the pending range.\<close>

fun drange_text :: "nat \<Rightarrow> config \<Rightarrow> tdef list \<Rightarrow> int \<Rightarrow> int \<Rightarrow> int \<Rightarrow> int \<Rightarrow> string \<times> int \<times> int" where
  "drange_text 0 cf tdefs seq child start last0 = ([], start, last0)"
| "drange_text (Suc n) cf tdefs seq child start last0 =
     (let new = MK_SPARSE child seq
      in if gen_rng cf \<and> new - last0 = 1 then drange_text n cf tdefs seq (child + 1) start new
         else let (t, r) = drange_text n cf tdefs seq (child + 1) new new
              in ((if gen_sql cf then delete_stmts tdefs start last0
                   else if gen_rng cf then range_text (columnar cf) start last0
                   else fmt_d new @ [CHR 0x0A]) @ t, r))"

definition d_open :: "outs \<Rightarrow> string \<Rightarrow> string \<Rightarrow> bool" where
  "d_open os path s \<longleftrightarrow> dfp os = Some \<lparr>h_path = path, h_pos = length s\<rparr> \<and> nodes (wld os) path = Some (Regular s)"

lemma put_d_open: "d_open os path s \<Longrightarrow> \<exists>os'. put_d t os = Inr os' \<and> d_open os' path (s @ t)"
  by (simp add: d_open_def put_d_def put_def fputs_def overwrite_def)

lemma drange_loop_text:
  assumes "delete_segments cf = 0"
  shows "d_open os path s \<Longrightarrow> - (2 ^ 31) \<le> child \<Longrightarrow> child + int n < 2 ^ 31 \<Longrightarrow>
    drange_text n cf tdefs seq child start last0 = (t, a, b) \<Longrightarrow>
    \<exists>os'. drange_loop n cf tdefs tbl num seq child start last0 os = Inr (Inr (a, b, os')) \<and> d_open os' path (s @ t)"
proof (induction n arbitrary: child start last0 os s t)
  case (Suc n)
  let ?new = "MK_SPARSE child seq"
  have c: "c_int (child + 1) = child + 1" using Suc.prems(2,3) by (intro c_int_id) simp_all
  show ?case
  proof (cases "gen_rng cf \<and> ?new - last0 = 1")
    case True
    then show ?thesis using Suc.IH [of os s "child + 1" start ?new t] Suc.prems by (simp add: c)
  next
    case False
    obtain t' where t': "drange_text n cf tdefs seq (child + 1) ?new ?new = (t', a, b)"
      using Suc.prems(4) False by (cases "drange_text n cf tdefs seq (child + 1) ?new ?new") (auto simp: Let_def split: if_splits)
    let ?x = "if gen_sql cf then delete_stmts tdefs start last0 else if gen_rng cf then range_text (columnar cf) start last0
        else fmt_d ?new @ [CHR 0x0A]"
    have t: "t = ?x @ t'" using Suc.prems(4) False t' by (auto simp: Let_def)
    obtain os1 where 1: "put_d ?x os = Inr os1" "d_open os1 path (s @ ?x)" using put_d_open [OF Suc.prems(1)] by blast
    have key: "PR_STRT @ PR_KEY (columnar cf) ?new @ PR_END = fmt_d ?new @ [CHR 0x0A]" by (simp add: pr_defs)
    have "drange_loop (Suc n) cf tdefs tbl num seq child start last0 os =
        drange_loop n cf tdefs tbl num seq (child + 1) ?new ?new os1"
      using False 1(1) key assms by (auto simp: Let_def c next_segment_def simp del: PR_STRT_def PR_END_def)
    then show ?thesis using Suc.IH [OF 1(2) _ _ t'] Suc.prems(2,3) t by simp
  qed
qed simp

lemma reopen_fresh:
  assumes "updates cf \<noteq> 0" "delete_segments cf = 0" "0 < num"
    "path = env_config (getenv cf) ''DSS_PATH'' ''.'' @ ''/delete.'' @ fmt_d num" "length path < 128"
    "\<not> denied (wld os) path" "\<And>c. nodes (wld os) path \<noteq> Some (Fifo c)"
  shows "\<exists>os'. reopen cf tdefs tbl num 0 os = Inr (Inr os') \<and> d_open os' path []"
proof -
  have "update_path cf tdefs tbl (- num) os = (path, os)" using assms by (simp add: update_path_def Let_def)
  moreover have "fopen_w path (wld os) = (Some \<lparr>h_path = path, h_pos = 0\<rparr>, wld os\<lparr>nodes := (nodes (wld os))(path \<mapsto> Regular [])\<rparr>)"
    using assms(6,7) by (auto simp: fopen_w_def split: option.splits node.splits)
  ultimately show ?thesis using assms(1,5) by (simp add: reopen_def print_prep_def d_open_def)
qed

text \<open>The keys of the deleted orders.\<close>

definition drange_keys :: "int \<Rightarrow> int \<Rightarrow> nat \<Rightarrow> int list" where
  "drange_keys seq mn n = map (\<lambda>k. MK_SPARSE (mn + int k) seq) [0..<n]"

lemma drange_keys_simps: "drange_keys seq mn 0 = []"
  "drange_keys seq mn (Suc n) = MK_SPARSE mn seq # drange_keys seq (mn + 1) n"
  by (simp_all add: drange_keys_def map_upt_Suc add.assoc del: upt_Suc)

lemma drange_plain:
  "\<not> gen_rng cf \<Longrightarrow> \<not> gen_sql cf \<Longrightarrow>
   fst (drange_text n cf tdefs seq child start last0) = concat (map (\<lambda>k. fmt_d k @ [CHR 0x0A]) (drange_keys seq child n))"
  by (induction n arbitrary: child start last0) (simp_all add: drange_keys_simps Let_def split: prod.splits, metis fst_conv)

lemma drange_sql:
  "\<not> gen_rng cf \<Longrightarrow> gen_sql cf \<Longrightarrow> fst (drange_text (Suc n) cf tdefs seq child start last0) =
     delete_stmts tdefs start last0 @ concat (map (\<lambda>k. delete_stmts tdefs k k) (drange_keys seq child n))"
proof (induction n arbitrary: child start last0)
  case (Suc n)
  note Suc.IH [OF Suc.prems, of "child + 1" "MK_SPARSE child seq" "MK_SPARSE child seq"]
  then show ?case using Suc.prems
    by (cases "drange_text (Suc n) cf tdefs seq (child + 1) (MK_SPARSE child seq) (MK_SPARSE child seq)")
      (subst drange_text.simps, simp add: drange_keys_simps Let_def del: drange_text.simps)
qed (simp add: drange_keys_simps Let_def)

fun drange_ranges :: "nat \<Rightarrow> int \<Rightarrow> int \<Rightarrow> int \<Rightarrow> int \<Rightarrow> (int \<times> int) list" where
  "drange_ranges 0 seq child start last0 = [(start, last0)]"
| "drange_ranges (Suc n) seq child start last0 =
     (let new = MK_SPARSE child seq
      in if new - last0 = 1 then drange_ranges n seq (child + 1) start new
         else (start, last0) # drange_ranges n seq (child + 1) new new)"

lemma drange_rng:
  "gen_rng cf \<Longrightarrow> \<not> gen_sql cf \<Longrightarrow> drange_text n cf tdefs seq child start last0 = (t, a, b) \<Longrightarrow>
   t @ range_text (columnar cf) a b = concat (map (\<lambda>(a, b). range_text (columnar cf) a b) (drange_ranges n seq child start last0))"
proof (induction n arbitrary: child start last0 t a b)
  case (Suc n)
  show ?case
  proof (cases "MK_SPARSE child seq - last0 = 1")
    case True
    then show ?thesis using Suc by (simp add: Let_def)
  next
    case False
    let ?r = "drange_text n cf tdefs seq (child + 1) (MK_SPARSE child seq) (MK_SPARSE child seq)"
    obtain t' a' b' where r: "?r = (t', a', b')" by (cases ?r)
    then have "t = range_text (columnar cf) start last0 @ t'" "a' = a" "b' = b" using Suc.prems False by (simp_all add: Let_def)
    then show ?thesis using Suc.IH [OF Suc.prems(1,2) r] False by (simp add: Let_def)
  qed
qed simp

text \<open>The ranges hold exactly the keys.\<close>

lemma drange_ranges_cover:
  "start \<le> last0 + 1 \<Longrightarrow> (\<Union>(a, b) \<in> set (drange_ranges n seq child start last0). {a..b}) =
     {start..last0} \<union> set (drange_keys seq child n)"
proof (induction n arbitrary: child start last0)
  case 0
  then show ?case by (simp add: drange_keys_simps)
next
  case (Suc n)
  let ?new = "MK_SPARSE child seq"
  show ?case
  proof (cases "?new - last0 = 1")
    case True
    then have "{start..?new} = insert ?new {start..last0}" using Suc.prems by auto
    then show ?thesis using Suc.IH [of start ?new "child + 1"] Suc.prems True by (auto simp: drange_keys_simps)
  next
    case False
    then show ?thesis using Suc.IH [of ?new ?new "child + 1"] by (simp add: drange_keys_simps Let_def)
  qed
qed

lemma pr_drange_writes:
  assumes "updates cf \<noteq> 0" "delete_segments cf = 0" "0 < num" "last_num os \<noteq> num"
    "path = env_config (getenv cf) ''DSS_PATH'' ''.'' @ ''/delete.'' @ fmt_d num" "length path < 128"
    "\<not> denied (wld os) path" "\<And>c. nodes (wld os) path \<noteq> Some (Fifo c)"
    "0 < refresh cf" "refresh cf \<le> 10000" "- (2 ^ 31) \<le> mn" "mn + int n < 2 ^ 31"
    "drange_text n cf tdefs seq mn (MK_SPARSE mn seq) (MK_SPARSE mn seq - 1) = (t, a, b)"
    "seq = (num - 1) sdiv (10000 sdiv refresh cf)"
  shows "\<exists>os'. pr_drange cf tdefs tbl mn (int n) num os = Inr (0, os') \<and>
    file_at path os' = t @ (if gen_rng cf then range_text (columnar cf) a b else [])"
proof -
  obtain os1 where 1: "reopen cf tdefs tbl num 0 os = Inr (Inr os1)" "d_open os1 path []"
    using reopen_fresh [OF assms(1-3,5-8)] by blast
  have c: "c_int mn = mn" using assms(11,12) by (intro c_int_id) simp_all
  obtain os2 where 2: "drange_loop n cf tdefs tbl num seq mn (MK_SPARSE mn seq) (MK_SPARSE mn seq - 1) os1 = Inr (Inr (a, b, os2))"
    "d_open os2 path t" using drange_loop_text [OF assms(2) 1(2) assms(11-13), of tbl num] by auto
  have "1 \<le> 10000 div refresh cf"
    using assms(9,10) zdiv_mono1 [of "refresh cf" 10000 "refresh cf"] by simp
  then have r: "refresh cf \<noteq> 0" "10000 sdiv refresh cf \<noteq> 0" using assms(9) by (simp_all add: sdiv_nonneg)
  obtain os3 where 3: "put_d (range_text (columnar cf) a b) os2 = Inr os3" "d_open os3 path (t @ range_text (columnar cf) a b)"
    using put_d_open [OF 2(2)] by blast
  show ?thesis
    using 1(1) 2 3 r assms(4) c by (auto simp: pr_drange_def assms(14) Let_def file_at_def d_open_def)
qed

text \<open>When the delete file of update set \<open>num\<close> can be written by a run that does not split deletes.\<close>

definition can_delete :: "config \<Rightarrow> int \<Rightarrow> string \<Rightarrow> outs \<Rightarrow> bool" where
  "can_delete cf num path os \<longleftrightarrow> updates cf \<noteq> 0 \<and> delete_segments cf = 0 \<and> 0 < num \<and> last_num os \<noteq> num \<and>
     path = env_config (getenv cf) ''DSS_PATH'' ''.'' @ ''/delete.'' @ fmt_d num \<and> length path < 128 \<and> \<not> denied (wld os) path \<and>
     (case nodes (wld os) path of Some (Fifo _) \<Rightarrow> False | _ \<Rightarrow> True) \<and> 0 < refresh cf \<and> refresh cf \<le> 10000"

lemma pr_drange_file:
  assumes "can_delete cf num path os" "- (2 ^ 31) \<le> mn" "mn + int n < 2 ^ 31"
    "drange_text n cf tdefs ((num - 1) sdiv (10000 sdiv refresh cf)) mn (MK_SPARSE mn ((num - 1) sdiv (10000 sdiv refresh cf)))
      (MK_SPARSE mn ((num - 1) sdiv (10000 sdiv refresh cf)) - 1) = (t, a, b)"
  shows "\<exists>os'. pr_drange cf tdefs tbl mn (int n) num os = Inr (0, os') \<and>
    file_at path os' = t @ (if gen_rng cf then range_text (columnar cf) a b else [])"
  using assms(1) by (intro pr_drange_writes [OF _ _ _ _ _ _ _ _ _ _ assms(2,3,4) refl])
    (auto simp: can_delete_def split: option.splits node.splits)

lemma pr_drange_keys:
  assumes "can_delete cf num path os" "\<not> gen_sql cf" "- (2 ^ 31) \<le> mn" "mn + int n < 2 ^ 31"
    and "ks = drange_keys ((num - 1) sdiv (10000 sdiv refresh cf)) mn n"
  shows "\<exists>os'. pr_drange cf tdefs tbl mn (int n) num os = Inr (0, os') \<and>
    (if gen_rng cf then \<exists>rs. file_at path os' = concat (map (\<lambda>(a, b). range_text (columnar cf) a b) rs) \<and>
        (\<Union>(a, b) \<in> set rs. {a..b}) = set ks
     else file_at path os' = concat (map (\<lambda>k. fmt_d k @ [CHR 0x0A]) ks))"
proof -
  let ?q = "(num - 1) sdiv (10000 sdiv refresh cf)"
  let ?s = "MK_SPARSE mn ?q"
  obtain t a b where t: "drange_text n cf tdefs ?q mn ?s (?s - 1) = (t, a, b)" by (metis prod_cases3)
  obtain os' where os': "pr_drange cf tdefs tbl mn (int n) num os = Inr (0, os')"
    "file_at path os' = t @ (if gen_rng cf then range_text (columnar cf) a b else [])"
    using pr_drange_file [OF assms(1,3,4) t] by blast
  show ?thesis
  proof (cases "gen_rng cf")
    case True
    have "(\<Union>(a, b) \<in> set (drange_ranges n ?q mn ?s (?s - 1)). {a..b}) = set ks"
      using drange_ranges_cover [of ?s "?s - 1" n ?q mn] by (simp add: assms(5))
    then show ?thesis using os' True drange_rng [OF True assms(2) t] by auto
  next
    case False
    then show ?thesis using os' drange_plain [OF False assms(2), of n tdefs ?q mn ?s "?s - 1"] by (simp add: t assms(5))
  qed
qed

text \<open>An order that \<open>mk_order\<close> makes, from whatever consistent state of the streams.\<close>

definition order_made :: "benv \<Rightarrow> int \<Rightarrow> int \<Rightarrow> order_t \<Rightarrow> bool" where
  "order_made e upd i ord \<longleftrightarrow> (\<exists>s s'. rng_ok s \<and> mk_order e upd i s = Some (ord, s'))"

lemma order_made_key:
  assumes "benv_ok e" "be_scale e < 1000"
  shows "\<exists>ord. order_made e upd i ord"
    and "order_made e upd i ord \<Longrightarrow> o_okey ord = (sparse_key i (order_seq (be_refresh e) upd), 0)"
proof -
  have made: "\<exists>ord s'. mk_order e upd i s = Some (ord, s') \<and> order_ok e upd i ord" if "rng_ok s" for s
    using mk_order_total [OF that assms(1), of upd i] by metis
  then show "\<exists>ord. order_made e upd i ord" using rng_init_ok unfolding order_made_def by blast
  assume "order_made e upd i ord"
  then have "order_ok e upd i ord" using made unfolding order_made_def by fastforce
  then show "o_okey ord = (sparse_key i (order_seq (be_refresh e) upd), 0)"
    using assms(2) by (simp add: order_ok_def mk_sparse_def ez_sparse_key)
qed

lemma order_seq_above:
  assumes "0 < num" "0 < pct" "pct \<le> 10000"
  shows "0 < 10000 sdiv pct" "(num - 1) sdiv (10000 sdiv pct) mod 4 < order_seq pct num"
    "num \<le> 10000 sdiv pct \<Longrightarrow> (num - 1) sdiv (10000 sdiv pct) = 0"
proof -
  let ?k = "10000 div pct"
  have "1 \<le> ?k" using assms(2,3) zdiv_mono1 [of pct 10000 pct] by simp
  moreover have e: "10000 sdiv pct = ?k" using assms(2) by (simp add: sdiv_nonneg)
  ultimately have k: "0 < ?k" "(num - 1) sdiv (10000 sdiv pct) = (num - 1) div ?k" "num sdiv (10000 sdiv pct) = num div ?k"
    using assms(1) by (simp_all add: sdiv_nonneg)
  show "0 < 10000 sdiv pct" using k(1) e by simp
  have "(num - 1) div ?k \<le> num div ?k" using k(1) by (intro zdiv_mono1) simp_all
  moreover have "(num - 1) div ?k mod 4 \<le> (num - 1) div ?k"
    using assms(1) k(1) by (intro zmod_le_nonneg_dividend) (simp add: pos_imp_zdiv_nonneg_iff)
  ultimately show "(num - 1) sdiv (10000 sdiv pct) mod 4 < order_seq pct num"
    using assms(1) unfolding order_seq_def k(2,3) by simp
  show "num \<le> 10000 sdiv pct \<Longrightarrow> (num - 1) sdiv (10000 sdiv pct) = 0"
    using assms(1) e k(2) by (simp add: div_pos_pos_trivial)
qed

lemma drange_keys_nth: "j < n \<Longrightarrow> drange_keys q mn n ! j = sparse_key (mn + int j) (q mod 4)"
  by (simp add: drange_keys_def MK_SPARSE_key)

lemma sparse_key_seq: "sparse_key i q = sparse_key i r \<longleftrightarrow> q = r"
  by (simp add: sparse_key_def)

text \<open>
  C24: whose rows the delete file names.  Without SQL syntax \<open>pr_drange\<close> for update set \<open>num\<close> writes \<open>n\<close> keys, one per line or,
  with \<open>-O r\<close>, as ranges that cover these keys and no others.  Below scale 1000 key \<open>j\<close> is the key that
  \<open>mk_order\<close> gives to row \<open>mn + j\<close> in exactly those update sets whose own sequence number is
  \<open>(num - 1) / (10000 / refresh)\<close> modulo 4.  For the first \<open>10000 / refresh\<close> sets that is the initial population: the file names
  exactly its rows \<open>mn\<close> to \<open>mn + n - 1\<close>.  It is never set \<open>num\<close> itself, whose sequence number is larger; as long as that number
  fits the two bits that it has in a key, no order of set \<open>num\<close>, whatever its row, has one of the keys.  (\<open>mk_order\<close> gets the
  number of the set modulo 10000, so sets are meant whose number is smaller.)
\<close>

theorem delete_file_keys:
  assumes "can_delete cf num path os" "\<not> gen_sql cf" "- (2 ^ 31) \<le> mn" "mn + int n < 2 ^ 31"
    and "benv_ok e" "be_scale e < 1000" "be_refresh e = refresh cf"
  shows "\<exists>os' ks. pr_drange cf tdefs tbl mn (int n) num os = Inr (0, os') \<and> length ks = n \<and>
    (if gen_rng cf then \<exists>rs. file_at path os' = concat (map (\<lambda>(a, b). range_text (columnar cf) a b) rs) \<and>
        (\<Union>(a, b) \<in> set rs. {a..b}) = set ks
     else file_at path os' = concat (map (\<lambda>k. fmt_d k @ [CHR 0x0A]) ks)) \<and>
    (\<forall>j < n. \<forall>upd ord. order_made e upd (mn + int j) ord \<longrightarrow>
       (o_okey ord = (ks ! j, 0) \<longleftrightarrow> order_seq (refresh cf) upd = (num - 1) sdiv (10000 sdiv refresh cf) mod 4)) \<and>
    (num \<le> 10000 sdiv refresh cf \<longrightarrow> (\<forall>j < n. o_okey ` {ord. order_made e 0 (mn + int j) ord} = {(ks ! j, 0)})) \<and>
    (order_seq (refresh cf) num < 4 \<longrightarrow> (\<forall>i ord. order_made e num i ord \<longrightarrow> o_okey ord \<notin> (\<lambda>k. (k, 0)) ` set ks))"
proof -
  define q where "q = (num - 1) sdiv (10000 sdiv refresh cf)"
  define ks where "ks = drange_keys q mn n"
  have num: "0 < num" "0 < refresh cf" "refresh cf \<le> 10000" using assms(1) by (simp_all add: can_delete_def)
  note seq = order_seq_above [OF num]
  note key = order_made_key [OF assms(5,6), unfolded assms(7)]
  have ks: "length ks = n" "\<And>j. j < n \<Longrightarrow> ks ! j = sparse_key (mn + int j) (q mod 4)"
    by (simp_all add: ks_def drange_keys_nth) (simp add: drange_keys_def)
  have rows: "o_okey ord = (ks ! j, 0) \<longleftrightarrow> order_seq (refresh cf) upd = q mod 4" if "j < n" "order_made e upd (mn + int j) ord" for j upd ord
    using key(2) [OF that(2)] ks(2) [OF that(1)] by (simp add: sparse_key_seq)
  have base: "o_okey ` {ord. order_made e 0 (mn + int j) ord} = {(ks ! j, 0)}" if "num \<le> 10000 sdiv refresh cf" "j < n" for j
  proof -
    have "order_seq (refresh cf) 0 = q mod 4" using seq(3) [OF that(1)] by (simp add: q_def order_seq_def)
    then show ?thesis using rows [OF that(2), of 0] key(1) [of 0 "mn + int j"] by auto
  qed
  have own: "o_okey ord \<notin> (\<lambda>k. (k, 0)) ` set ks" if f: "order_seq (refresh cf) num < 4" and o: "order_made e num i ord" for i ord
  proof
    assume "o_okey ord \<in> (\<lambda>k. (k, 0)) ` set ks"
    then obtain j where "j < n" "o_okey ord = (ks ! j, 0)" using ks(1) by (auto simp: in_set_conv_nth)
    then have "sparse_key i (order_seq (refresh cf) num) = sparse_key (mn + int j) (q mod 4)" using key(2) [OF o] ks(2) by simp
    moreover have "0 \<le> q mod 4" "q mod 4 < 4" "q mod 4 < order_seq (refresh cf) num" using seq(2) by (simp_all add: q_def)
    ultimately show False using sparse_key_inj [of "order_seq (refresh cf) num" "q mod 4" i "mn + int j"] f by simp
  qed
  show ?thesis
    using pr_drange_keys [OF assms(1-4) ks_def [unfolded q_def], of tdefs tbl] ks(1) rows base own unfolding q_def by blast
qed

text \<open>
  With SQL syntax (\<open>-O d\<close> without \<open>-O r\<close>) each statement deletes the range pending before the current
  key: the first statement has an empty range, and the key of the last order is in none of them.
\<close>

theorem delete_sql_misses_last:
  assumes "can_delete cf num path os" "gen_sql cf" "\<not> gen_rng cf" "- (2 ^ 31) \<le> mn" "mn + int (Suc n) < 2 ^ 31"
    and "q = (num - 1) sdiv (10000 sdiv refresh cf)"
  shows "\<exists>os' rs. pr_drange cf tdefs tbl mn (int (Suc n)) num os = Inr (0, os') \<and>
    file_at path os' = concat (map (\<lambda>(a, b). delete_stmts tdefs a b) rs) \<and>
    rs = (MK_SPARSE mn q, MK_SPARSE mn q - 1) # map (\<lambda>k. (k, k)) (drange_keys q mn n) \<and>
    MK_SPARSE (mn + int n) q \<notin> (\<Union>(a, b) \<in> set rs. {a..b})"
proof -
  let ?s = "MK_SPARSE mn q"
  define rs where "rs = (?s, ?s - 1) # map (\<lambda>k. (k, k)) (drange_keys q mn n)"
  obtain t a b where t: "drange_text (Suc n) cf tdefs q mn ?s (?s - 1) = (t, a, b)" by (metis prod_cases3)
  obtain os' where os': "pr_drange cf tdefs tbl mn (int (Suc n)) num os = Inr (0, os')" "file_at path os' = t"
    using pr_drange_file [OF assms(1,4,5), of tdefs t a b tbl] t assms(3,6) by auto
  have "t = concat (map (\<lambda>(a, b). delete_stmts tdefs a b) rs)"
    using drange_sql [OF assms(3,2), of n tdefs q mn ?s "?s - 1"] by (simp add: t rs_def comp_def del: drange_text.simps)
  moreover have "MK_SPARSE (mn + int n) q \<notin> (\<Union>(a, b) \<in> set rs. {a..b})"
  proof
    assume "MK_SPARSE (mn + int n) q \<in> (\<Union>(a, b) \<in> set rs. {a..b})"
    then have "MK_SPARSE (mn + int n) q \<in> set (drange_keys q mn n)" by (auto simp: rs_def)
    then obtain k where k: "k < n" "MK_SPARSE (mn + int n) q = MK_SPARSE (mn + int k) q" by (auto simp: drange_keys_def)
    then have "mn + int n = mn + int k"
      using sparse_key_inj [of "q mod 4" "q mod 4" "mn + int n" "mn + int k"] by (simp add: MK_SPARSE_key)
    with k(1) show False by simp
  qed
  ultimately show ?thesis using os' rs_def by blast
qed

definition demo_deletes :: "bool \<Rightarrow> bool \<Rightarrow> config" where
  "demo_deletes sql rng = demo_config\<lparr>updates := 1, gen_sql := sql, gen_rng := rng\<rparr>"

lemma demo_can_delete: "can_delete (demo_deletes sql rng) 1 ''./delete.1'' (demo_outs [])"
  by (simp add: can_delete_def demo_deletes_def demo_config_def demo_outs_def outs_init_def env_config_def fmt_d_def dec.simps digit_chars)

text \<open>\<open>q = 0\<close> for the first update set at the default refresh of 10.\<close>

lemma demo_seq: "(1 - 1) sdiv (10000 sdiv refresh (demo_deletes sql rng)) = 0"
  by (simp add: signed_divide_int_def)

theorem delete_file_keys_witness:
  "\<exists>os'. pr_drange (demo_deletes False False) ssb_tdefs LINE 7 (int 2) 1 (demo_outs []) = Inr (0, os') \<and>
    file_at ''./delete.1'' os' = ''7'' @ [CHR 0x0A] @ ''32'' @ [CHR 0x0A] \<and>
    o_okey ` {ord. order_made (ssb_env 1 10) 0 8 ord} = {(32, 0)} \<and>
    (\<forall>ord. order_made (ssb_env 1 10) 1 8 ord \<longrightarrow> o_okey ord \<noteq> (32, 0))"
proof -
  let ?cf = "demo_deletes False False" and ?e = "ssb_env 1 10"
  have cf: "\<not> gen_sql ?cf" "gen_rng ?cf = False" "refresh ?cf = 10"
    by (simp_all add: demo_deletes_def demo_config_def)
  have e: "benv_ok ?e" "be_scale ?e < 1000" "be_refresh ?e = refresh ?cf"
    using ssb_env_ok [of 1 10] by (simp_all add: cf) (simp_all add: ssb_env_def)
  have k: "10000 sdiv (10 :: int) = 1000" "(1 - 1) sdiv (1000 :: int) = 0" "order_seq 10 1 = 1"
    by (simp_all add: order_seq_def sdiv_nonneg)
  have mn: "- (2 ^ 31) \<le> (7 :: int)" "7 + int 2 < 2 ^ 31" by simp_all
  obtain os' ks where r: "pr_drange ?cf ssb_tdefs LINE 7 (int 2) 1 (demo_outs []) = Inr (0, os')" "length ks = 2"
    "file_at ''./delete.1'' os' = concat (map (\<lambda>k. fmt_d k @ [CHR 0x0A]) ks)"
    "\<forall>j < 2. o_okey ` {ord. order_made ?e 0 (7 + int j) ord} = {(ks ! j, 0)}"
    "\<forall>i ord. order_made ?e 1 i ord \<longrightarrow> o_okey ord \<notin> (\<lambda>k. (k, 0)) ` set ks"
    using delete_file_keys [OF demo_can_delete cf(1) mn e, of ssb_tdefs LINE] unfolding cf k if_False
    by (elim exE conjE) (rule that, assumption, assumption, simp_all)
  have s: "order_seq 10 0 = 0" by (simp add: order_seq_def)
  have key: "o_okey ` {ord. order_made ?e 0 i ord} = {(sparse_key i 0, 0)}" for i
    using order_made_key [OF e(1,2), of 0 i] unfolding e(3) cf s by auto
  have "ks ! 0 = sparse_key 7 0" "ks ! 1 = sparse_key 8 0"
    using r(4) [rule_format, of 0] r(4) [rule_format, of 1] key [of 7] key [of 8] by simp_all
  then have "ks = [7, 32]" using r(2) by (intro nth_equalityI) (auto simp: less_2_cases_iff sparse_key_def)
  moreover have "fmt_d 7 = ''7''" "fmt_d 32 = ''32''" by (simp_all add: fmt_d_def dec.simps digit_chars)
  ultimately show ?thesis
    using r(1,3,5) key [of 8] by (intro exI [of _ os']) (auto simp: sparse_key_def)
qed

theorem delete_sql_misses_last_witness:
  "\<exists>os' rs. pr_drange (demo_deletes True False) ssb_tdefs LINE 1 (int (Suc 1)) 1 (demo_outs []) = Inr (0, os') \<and>
    file_at ''./delete.1'' os' = concat (map (\<lambda>(a, b). delete_stmts ssb_tdefs a b) rs) \<and>
    rs = (MK_SPARSE 1 0, MK_SPARSE 1 0 - 1) # map (\<lambda>k. (k, k)) (drange_keys 0 1 1) \<and>
    MK_SPARSE (1 + int 1) 0 \<notin> (\<Union>(a, b) \<in> set rs. {a..b})"
  by (rule delete_sql_misses_last [OF demo_can_delete _ _ _ _ demo_seq [symmetric]]) (simp_all add: demo_deletes_def)

end
