(* ===== verification/Options.thy ===== *)
theory Options
  imports Output
begin

text \<open>
  The command line of \<open>driver.c\<close>: \<open>process_options\<close>, \<open>usage\<close>, the globals they set; the POSIX \<open>getopt\<close>,
  \<open>atoi\<close> and \<open>atof\<close> it calls on this platform, and the replacement \<open>getopt\<close> that \<open>bm_utils.c\<close> has for
  platforms without one.
\<close>

unbundle bit_operations_syntax

subsection \<open>Globals\<close>

text \<open>The globals of \<open>dss.h\<close> that options set, besides those the output routines read.\<close>

record globals = config +
  g_table :: int
  g_verbose :: int
  g_direct :: int
  g_fnames :: bool
  g_scale :: int
  g_flt_scale :: rat
  g_step :: int
  g_children :: int
  g_set_seeds :: bool
  g_validate :: bool
  g_db_name :: "string option"
  g_d_path :: "string option"

text \<open>What options change: the globals, the row counts of the tables, the two output streams.\<close>

record opt_state =
  o_g :: globals
  o_tds :: "tdef list"
  o_out :: string
  o_err :: string

subsection \<open>Library calls\<close>

text \<open>\<open>atoi\<close>: \<open>strtol\<close>, which saturates, stored in an \<open>int\<close>.\<close>

definition atoi :: "string \<Rightarrow> int" where
  "atoi s = (case scan_ld s of None \<Rightarrow> 0 | Some w \<Rightarrow> c_int (max (- (2 ^ 63)) (min (2 ^ 63 - 1) w)))"

definition lower :: "char \<Rightarrow> char" where "lower c = char_of (tolower c)"

definition is_xdigit :: "char \<Rightarrow> bool" where
  "is_xdigit c \<longleftrightarrow> is_digit c \<or> lower c \<in> {CHR ''a'', CHR ''b'', CHR ''c'', CHR ''d'', CHR ''e'', CHR ''f''}"

definition xdigit :: "char \<Rightarrow> nat" where
  "xdigit c = (if is_digit c then char_digit c else of_char (lower c) - 87)"

text \<open>Digits, a point, digits: the number without the point, how many digits follow the point, how many
  there are, and the rest.\<close>

definition scan_mantissa :: "(char \<Rightarrow> bool) \<Rightarrow> (char \<Rightarrow> nat) \<Rightarrow> nat \<Rightarrow> string \<Rightarrow> nat \<times> nat \<times> nat \<times> string" where
  "scan_mantissa dig vl base s =
     (let a = takeWhile dig s; r = dropWhile dig s;
          (b, r') = (case r of c # r1 \<Rightarrow> if c = CHR ''.'' then (takeWhile dig r1, dropWhile dig r1) else ([], r) | [] \<Rightarrow> ([], r))
      in (foldl (\<lambda>n c. base * n + vl c) 0 (a @ b), length b, length (a @ b), if a @ b = [] then s else r'))"

text \<open>An exponent after the given letter, 0 when it is incomplete.\<close>

definition scan_exponent :: "char \<Rightarrow> string \<Rightarrow> int" where
  "scan_exponent ch s =
     (case s of [] \<Rightarrow> 0
      | c # r \<Rightarrow> if lower c \<noteq> ch then 0
          else (let (neg, r) = (case r of
                    d # r1 \<Rightarrow> if d = CHR ''-'' then (True, r1) else if d = CHR ''+'' then (False, r1) else (False, r)
                  | [] \<Rightarrow> (False, r));
                  e = int (undec (takeWhile is_digit r))
                in if neg then - e else e))"

text \<open>\<open>atof\<close> is \<open>strtod\<close>: decimal and hexadecimal numbers, correctly rounded.  \<open>None\<close> stands for the
  infinities and NaN.\<close>

definition atof :: "string \<Rightarrow> rat option" where
  "atof s =
     (let s = dropWhile isspace s;
          (neg, s) = (case s of
              c # r \<Rightarrow> if c = CHR ''-'' then (True, r) else if c = CHR ''+'' then (False, r) else (False, s)
            | [] \<Rightarrow> (False, s));
          low = map lower s;
          hex = (take 2 low = ''0x'' \<and> fst (snd (snd (scan_mantissa is_xdigit xdigit 16 (drop 2 s)))) \<noteq> 0)
      in if take 3 low = ''inf'' \<or> take 3 low = ''nan'' then None
         else let (m, k, n, r) = (if hex then scan_mantissa is_xdigit xdigit 16 (drop 2 s) else scan_mantissa is_digit char_digit 10 s);
                  v = (if n = 0 then 0
                       else if hex then of_nat m * 2 powi (scan_exponent CHR ''p'' r - 4 * int k)
                       else of_nat m * 10 powi (scan_exponent CHR ''e'' r - int k))
              in Some (dround (if neg then - v else v)))"

text \<open>Does the option string know the option, and does the option take an argument?\<close>

fun opt_kind :: "string \<Rightarrow> char \<Rightarrow> bool option" where
  "opt_kind [] c = None"
| "opt_kind (o0 # os) c = (if o0 = c \<and> c \<noteq> CHR '':'' then Some (take 1 os = '':'') else opt_kind os c)"

text \<open>\<open>getopt\<close> as POSIX describes it.  Its state is \<open>av\<close>, the arguments from \<open>optind\<close> on, and the rest of the
  cluster of options being read.  The first component of the result is the option returned (\<open>?\<close> for an unknown
  option or a missing argument) with its argument; \<open>None\<close> is \<open>-1\<close>.  The scan ends at the first argument that
  is no option.  The line about an unknown option that the library's routine writes to standard error is left out.\<close>

definition next_option :: "string \<Rightarrow> char \<Rightarrow> string \<Rightarrow> string list \<Rightarrow> (char \<times> string) \<times> string list \<times> string" where
  "next_option opts c r av =
     (case opt_kind opts c of
        None \<Rightarrow> ((CHR ''?'', []), if r = [] then tl av else av, r)
      | Some False \<Rightarrow> ((c, []), if r = [] then tl av else av, r)
      | Some True \<Rightarrow>
          if r \<noteq> [] then ((c, r), tl av, [])
          else (case tl av of
              [] \<Rightarrow> ((CHR ''?'', []), [], [])
            | a # av' \<Rightarrow> ((c, a), av', [])))"

definition getopt_posix :: "string \<Rightarrow> string list \<times> string \<Rightarrow> (char \<times> string) option \<times> string list \<times> string" where
  "getopt_posix opts st =
     (case st of
        (av, c # r) \<Rightarrow> (case next_option opts c r av of (e, st) \<Rightarrow> (Some e, st))
      | ([], []) \<Rightarrow> (None, [], [])
      | (a # av, []) \<Rightarrow>
          (case a of
             d # c # r \<Rightarrow>
               if d \<noteq> CHR ''-'' then (None, a # av, [])
               else if c = CHR ''-'' \<and> r = [] then (None, av, [])
               else (case next_option opts c r (a # av) of (e, st) \<Rightarrow> (Some e, st))
           | _ \<Rightarrow> (None, a # av, [])))"

subsection \<open>\<open>usage\<close>\<close>

text \<open>The flag tells the two workloads the program is built for apart: \<open>True\<close> is TPC-H.\<close>

definition usage_tables :: "bool \<Rightarrow> string list" where
  "usage_tables h = (if h then
     [''-T c   -- generate cutomers ONLY'',
      ''-T l   -- generate nation/region ONLY'',
      ''-T L   -- generate lineitem ONLY'',
      ''-T n   -- generate nation ONLY'',
      ''-T o   -- generate orders/lineitem ONLY'',
      ''-T O   -- generate orders ONLY'',
      ''-T p   -- generate parts/partsupp ONLY'',
      ''-T P   -- generate parts ONLY'',
      ''-T r   -- generate region ONLY'',
      ''-T s   -- generate suppliers ONLY'',
      ''-T S   -- generate partsupp ONLY'']
   else
     [''-T c   -- generate cutomers dimension table ONLY'',
      ''-T p   -- generate parts dimension table ONLY'',
      ''-T s   -- generate suppliers dimension table ONLY'',
      ''-T d   -- generate date dimension table ONLY'',
      ''-T l   -- generate lineorder fact table ONLY''])"

definition usage :: "bool \<Rightarrow> string" where
  "usage h = concat (map (\<lambda>l. l @ [CHR 0x0A])
    ([''USAGE:'',
      ''dbgen [-{vfFD}] [-O {fhmsv}][-T {'' @ (if h then ''pcsoPSOL'' else ''pcsdla'') @ ''}]'',
      [CHR 0x09] @ ''[-s <scale>][-C <procs>][-S <step>]'',
      ''dbgen [-v] [-O {dfhmr}] [-s <scale>] [-U <updates>] [-r <percent>]'',
      [],
      ''-b <s> -- load distributions for <s>'',
      ''-C <n> -- use <n> processes to generate data'',
      ''          [Under DOS, must be used with -S]'',
      ''-D     -- do database load in line'',
      ''-d <n> -- split deletes between <n> files'',
      ''-f     -- force. Overwrite existing files'',
      ''-F     -- generate flat files output'',
      ''-h     -- display this message'',
      ''-i <n> -- split inserts between <n> files'',
      ''-n <s> -- inline load into database <s>'',
      ''-O d   -- generate SQL syntax for deletes'',
      ''-O f   -- over-ride default output file names'',
      ''-O h   -- output files with headers'',
      ''-O m   -- produce columnar output'',
      ''-O r   -- generate key ranges for deletes.'',
      ''-O v   -- Verify data set without generating it.'',
      ''-q     -- enable QUIET mode'',
      ''-r <n> -- updates refresh (n/100)% of the'',
      ''          data set'',
      ''-s <n> -- set Scale Factor (SF) to  <n> '',
      ''-S <n> -- build the <n>th step of the data/update set''] @ usage_tables h @
     [''-U <s> -- generate <s> update sets'',
      ''-v     -- enable VERBOSE mode'',
      [],
      ''To generate the SF=1 (1GB), validation database population, use:'',
      [CHR 0x09] @ ''dbgen -vfF -s 1'',
      [],
      ''To generate updates for a SF=1 (1GB), use:'',
      [CHR 0x09] @ ''dbgen -v -U 1 -s 1'']))"

definition banner :: "bool \<Rightarrow> string" where
  "banner h = (if h then ''TPC-H Population Generator (Version 1.3.0)'' else ''SSBM (Star Schema Benchmark) Population Generator (Version 1.0.0)'') @
     [CHR 0x0A] @
     ''Copyright Transaction Processing Performance Council 1994 - 2000'' @ [CHR 0x0A]"

subsection \<open>\<open>process_options\<close>\<close>

definition table_bit :: "int \<Rightarrow> int" where "table_bit t = push_bit (nat t) 1"

definition eprint :: "string \<Rightarrow> opt_state \<Rightarrow> opt_state" where
  "eprint t st = st\<lparr>o_err := o_err st @ t\<rparr>"

definition set_g :: "(globals \<Rightarrow> globals) \<Rightarrow> opt_state \<Rightarrow> opt_state" where
  "set_g f st = st\<lparr>o_g := f (o_g st)\<rparr>"

text \<open>\<open>-T\<close>, first for TPC-H.\<close>

definition opt_tpch_table :: "char \<Rightarrow> string \<Rightarrow> opt_state \<Rightarrow> abort \<times> opt_state + opt_state" where
  "opt_tpch_table c arg st =
     (let mask = (\<lambda>t. Inr (set_g (\<lambda>g. g\<lparr>g_table := t\<rparr>) st))
      in if c = CHR ''c'' then mask (table_bit CUST)
         else if c = CHR ''L'' then mask (table_bit LINE)
         else if c = CHR ''l'' then mask (table_bit NATION OR table_bit REGION)
         else if c = CHR ''n'' then mask (table_bit NATION)
         else if c = CHR ''O'' then mask (table_bit ORDER)
         else if c = CHR ''o'' then mask (table_bit ORDER_LINE)
         else if c = CHR ''P'' then mask (table_bit PART)
         else if c = CHR ''p'' then mask (table_bit PART_PSUPP)
         else if c = CHR ''r'' then mask (table_bit REGION)
         else if c = CHR ''S'' then mask (table_bit PSUPP)
         else if c = CHR ''s'' then mask (table_bit SUPP)
         else Inl (Exit 1, eprint (''Unknown table name '' @ arg @ [CHR 0x0A] @ usage True) st))"

definition opt_table :: "string \<Rightarrow> opt_state \<Rightarrow> abort \<times> opt_state + opt_state" where
  "opt_table arg st =
     (let mask = (\<lambda>t. Inr (set_g (\<lambda>g. g\<lparr>g_table := t\<rparr>) st)); c = (case arg of [] \<Rightarrow> CHR 0x00 | c # _ \<Rightarrow> c)
      in if tpch (o_g st) then opt_tpch_table c arg st
         else if c = CHR ''c'' then mask (table_bit CUST)
         else if c = CHR ''p'' then mask (table_bit PART)
         else if c = CHR ''s'' then mask (table_bit SUPP)
         else if c = CHR ''d'' then mask (table_bit DATE)
         else if c = CHR ''l'' then mask (table_bit LINE)
         else if c = CHR ''a'' then
           mask ((table_bit CUST OR table_bit PART OR table_bit SUPP OR
                  (if g_step (o_g st) = 1 then table_bit DATE else 0)) OR table_bit LINE)
         else Inl (Exit 1, eprint (''Unknown table name '' @ arg @ [CHR 0x0A] @ usage False) st))"

text \<open>\<open>-s\<close>: a scale below 1 scales the row counts of the tables before \<open>REGION\<close>.  Converting a
  double out of range, an infinity or NaN to \<open>long\<close> is undefined.\<close>

definition scale_base :: "rat \<Rightarrow> tdef \<Rightarrow> tdef" where
  "scale_base f d = (let b = long_of_d (dmul (d_of_long (td_base d)) f) in d\<lparr>td_base := if b < 1 then 1 else b\<rparr>)"

definition scale_fits :: "rat \<Rightarrow> tdef \<Rightarrow> bool" where
  "scale_fits f d \<longleftrightarrow> - (2 ^ 63) \<le> dmul (d_of_long (td_base d)) f"

definition opt_scale :: "string \<Rightarrow> opt_state \<Rightarrow> abort \<times> opt_state + opt_state" where
  "opt_scale arg st =
     (case atof arg of
        None \<Rightarrow> Inl (Crash, st)
      | Some f \<Rightarrow>
          let st = set_g (\<lambda>g. g\<lparr>g_flt_scale := f\<rparr>) st; k = nat REGION; ds = take k (o_tds st)
          in if f < 1 then
               if list_all (scale_fits f) ds
               then Inr (set_g (\<lambda>g. g\<lparr>g_scale := 1\<rparr>) st\<lparr>o_tds := map (scale_base f) ds @ drop k (o_tds st)\<rparr>)
               else Inl (Crash, st)
             else if 2 ^ 63 \<le> f then Inl (Crash, st)
             else let sc = long_of_d f; st = set_g (\<lambda>g. g\<lparr>g_scale := sc\<rparr>) st
               in Inr (if sc > 1000 then eprint
                    (''NOTE: Data generation for scale factors >  1000 GB is still in development,'' @ [CHR 0x0A, CHR 0x09] @
                     ''and is not yet supported.'' @ [CHR 0x0A, CHR 0x0A, CHR 0x0A] @
                     ''Your resulting data set MAY NOT BE COMPLIANT!'' @ [CHR 0x0A]) st else st))"

text \<open>\<open>-O\<close>\<close>

definition opt_action :: "string \<Rightarrow> opt_state \<Rightarrow> abort \<times> opt_state + opt_state" where
  "opt_action arg st =
     (let c = lower (case arg of [] \<Rightarrow> CHR 0x00 | c # _ \<Rightarrow> c)
      in if c = CHR ''d'' then Inr (set_g (\<lambda>g. g\<lparr>gen_sql := True\<rparr>) st)
         else if c = CHR ''f'' then Inr (set_g (\<lambda>g. g\<lparr>g_fnames := True\<rparr>) st)
         else if c = CHR ''h'' then Inr (set_g (\<lambda>g. g\<lparr>header := True\<rparr>) st)
         else if c = CHR ''m'' then Inr (set_g (\<lambda>g. g\<lparr>columnar := True\<rparr>) st)
         else if c = CHR ''r'' then Inr (set_g (\<lambda>g. g\<lparr>gen_rng := True\<rparr>) st)
         else if c = CHR ''s'' then Inr (set_g (\<lambda>g. g\<lparr>g_set_seeds := True\<rparr>) st)
         else if c = CHR ''v'' then Inr (set_g (\<lambda>g. g\<lparr>g_validate := True\<rparr>) st)
         else Inl (Exit 1, eprint (''Unknown option name '' @ arg @ [CHR 0x0A] @ usage (tpch (o_g st))) st))"

text \<open>One option with its argument; \<open>nxt\<close> is \<open>vector[optind]\<close>, \<open>None\<close> past the last argument.\<close>

definition apply_option :: "char \<Rightarrow> string \<Rightarrow> string option \<Rightarrow> opt_state \<Rightarrow> abort \<times> opt_state + opt_state" where
  "apply_option c arg nxt st =
     (let set = (\<lambda>f. Inr (set_g f st)); h = tpch (o_g st); help = (\<lambda>st. Inl (Exit 1, eprint (banner h @ usage h) st))
      in if c = CHR ''b'' then set (\<lambda>g. g\<lparr>g_d_path := Some arg\<rparr>)
         else if c = CHR ''q'' then set (\<lambda>g. g\<lparr>g_verbose := - 1\<rparr>)
         else if c = CHR ''i'' then set (\<lambda>g. g\<lparr>insert_segments := atoi arg\<rparr>)
         else if c = CHR ''d'' then set (\<lambda>g. g\<lparr>delete_segments := atoi arg\<rparr>)
         else if c = CHR ''S'' then set (\<lambda>g. g\<lparr>g_step := atoi arg,
           g_table := (if \<not> h \<and> atoi arg > 1 then g_table g AND NOT (table_bit DATE) else g_table g)\<rparr>)
         else if c = CHR ''v'' then set (\<lambda>g. g\<lparr>g_verbose := 1\<rparr>)
         else if c = CHR ''f'' then set (\<lambda>g. g\<lparr>force := True\<rparr>)
         else if c = CHR ''T'' then opt_table arg st
         else if c = CHR ''s'' \<or> c = CHR ''P'' then opt_scale arg st
         else if c = CHR ''O'' then opt_action arg st
         else if c = CHR ''D'' then set (\<lambda>g. g\<lparr>g_direct := 1\<rparr>)
         else if c = CHR ''F'' then set (\<lambda>g. g\<lparr>g_direct := 0\<rparr>)
         else if c = CHR ''U'' then set (\<lambda>g. g\<lparr>updates := atoi arg\<rparr>)
         else if c = CHR ''r'' then set (\<lambda>g. g\<lparr>refresh := atoi arg\<rparr>)
         else if c = CHR ''C'' then set (\<lambda>g. g\<lparr>g_children := atoi arg\<rparr>)
         else if c = CHR ''n'' then set (\<lambda>g. g\<lparr>g_db_name := Some arg\<rparr>)
         else if c = CHR ''h'' then help st
         else (case nxt of
                 None \<Rightarrow> Inl (Crash, st)
               | Some [] \<Rightarrow> Inl (Crash, st)
               | Some (_ # d) \<Rightarrow> help (st\<lparr>o_out := o_out st @ ''ERROR: option '' @ [CHR 0x27] @
                   (case d of [] \<Rightarrow> [CHR 0x00] | d # _ \<Rightarrow> [d]) @ [CHR 0x27] @ '' unknown.'' @ [CHR 0x0A]\<rparr>)))"

definition OPTIONS :: string where "OPTIONS = ''b:C:Dd:Ffi:hn:O:P:qr:s:S:T:U:v''"

definition av_size :: "string list \<times> string \<Rightarrow> nat" where
  "av_size st = length (snd st) + (\<Sum>a\<leftarrow>(if snd st = [] then fst st else tl (fst st)). Suc (length a))"


lemma next_option_size: "next_option opts c r av = (e, st) \<Longrightarrow> av_size st \<le> length r + (\<Sum>a\<leftarrow>tl av. Suc (length a))"
  by (auto simp: next_option_def av_size_def split: option.splits bool.splits if_splits list.splits)

lemma getopt_size: "getopt_posix opts st = (Some e, st') \<Longrightarrow> av_size st' < av_size st"
  using next_option_size [of opts]
  by (fastforce simp: getopt_posix_def av_size_def split: prod.splits list.splits if_splits dest: next_option_size)

text \<open>The loop over the options.\<close>

function options_loop :: "string list \<times> string \<Rightarrow> opt_state \<Rightarrow> abort \<times> opt_state + opt_state" where
  "options_loop av st =
     (case getopt_posix OPTIONS av of
        (None, _) \<Rightarrow> Inr st
      | (Some (c, arg), av) \<Rightarrow>
          (case apply_option c arg (case fst av of [] \<Rightarrow> None | a # _ \<Rightarrow> Some a) st of
             Inl x \<Rightarrow> Inl x
           | Inr st \<Rightarrow> options_loop av st))"
  by pat_completeness auto
termination
  by (relation "measure (\<lambda>(av, _). av_size av)") (auto intro: getopt_size [OF sym])

declare options_loop.simps [simp del]

text \<open>\<open>process_options(argc, argv)\<close>, \<open>av\<close> being the arguments after the program name.  The array of process
  identifiers has \<open>children\<close> elements; a negative number is more than can be allocated.\<close>

definition process_options :: "string list \<Rightarrow> opt_state \<Rightarrow> abort \<times> opt_state + opt_state" where
  "process_options av st =
     (case options_loop (av, []) st of
        Inl x \<Rightarrow> Inl x
      | Inr st \<Rightarrow> if g_children (o_g st) \<noteq> 1 \<and> g_step (o_g st) = - 1 \<and> g_children (o_g st) < 0
          then Inl (Exit 1, st) else Inr st)"

subsection \<open>The replacement \<open>getopt\<close>\<close>

text \<open>\<open>getopt\<close> of \<open>bm_utils.c\<close>.  \<open>optind\<close> is the argument being read (0 before the first call); the buffer \<open>optarg\<close>
  of \<open>BUFSIZ\<close> bytes holds the argument text and, behind it, whatever was there before.  The result is \<open>None\<close> where the
  routine reads or writes past the end of a string, of the buffer or of the vector; \<open>Some (None, _)\<close> is \<open>-1\<close>.\<close>

record bm_state =
  b_optind :: nat
  b_nextchar :: "string option"
  b_optarg :: string

definition BUFSIZ :: nat where "BUFSIZ = 8192"

text \<open>What follows the first \<open>c\<close>.\<close>

definition after_char :: "char \<Rightarrow> string \<Rightarrow> string option" where
  "after_char c s = (case dropWhile (\<lambda>d. d \<noteq> c) s of [] \<Rightarrow> None | _ # r \<Rightarrow> Some r)"

text \<open>An option letter with what follows it in its argument.  A text that follows directly is copied to the
  buffer, and then the byte behind it is set to 0 and overwritten with the letter.\<close>

definition bm_option :: "string \<Rightarrow> char \<Rightarrow> string \<Rightarrow> string list \<Rightarrow> bm_state \<Rightarrow> (char option \<times> bm_state) option" where
  "bm_option opts c r av b =
     (let b = b\<lparr>b_nextchar := Some r\<rparr>
      in case after_char c opts of
        None \<Rightarrow> Some (Some CHR ''?'', b)
      | Some q \<Rightarrow>
          if take 1 q \<noteq> '':'' then Some (Some c, b)
          else if r \<noteq> [] then
            if BUFSIZ \<le> length r then None
            else Some (Some c, b\<lparr>b_nextchar := None, b_optarg := r @ c # drop (Suc (length r)) (b_optarg b)\<rparr>)
          else
            let b = b\<lparr>b_optind := b_optind b + 1\<rparr>
            in if b_optind b = length av then Some (Some CHR ''?'', b)
               else if length av < b_optind b \<or> BUFSIZ \<le> length (av ! b_optind b) then None
               else let a = av ! b_optind b
                 in Some (Some c, b\<lparr>b_nextchar := None, b_optarg := a @ CHR 0x00 # drop (Suc (length a)) (b_optarg b)\<rparr>))"

definition bm_char :: "string \<Rightarrow> string \<Rightarrow> string list \<Rightarrow> bm_state \<Rightarrow> (char option \<times> bm_state) option" where
  "bm_char opts s av b =
     (case s of
        [] \<Rightarrow> None
      | c # r \<Rightarrow> if c = CHR ''-'' then Some (None, b\<lparr>b_optind := b_optind b + 1\<rparr>) else bm_option opts c r av b)"

definition getopt :: "string \<Rightarrow> string list \<Rightarrow> bm_state \<Rightarrow> (char option \<times> bm_state) option" where
  "getopt opts av b =
     (case b_nextchar b of
        Some (c # r) \<Rightarrow> bm_char opts (c # r) av b
      | _ \<Rightarrow>
          let b = b\<lparr>b_optind := b_optind b + 1\<rparr>
          in if b_optind b = length av then Some (None, b)
             else if length av < b_optind b then None
             else (case av ! b_optind b of
                [] \<Rightarrow> Some (None, b\<lparr>b_nextchar := Some []\<rparr>)
              | d # a \<Rightarrow> if d = CHR ''-'' then bm_char opts a av (b\<lparr>b_nextchar := Some a\<rparr>)
                  else Some (None, b\<lparr>b_nextchar := Some (d # a)\<rparr>)))"

text \<open>The argument as the C string in the buffer.\<close>

definition optarg_text :: "bm_state \<Rightarrow> string" where
  "optarg_text b = takeWhile (\<lambda>c. c \<noteq> CHR 0x00) (b_optarg b)"

text \<open>Reading all options, with fuel for the number of calls: the letters with their arguments.\<close>

fun bm_read :: "nat \<Rightarrow> string \<Rightarrow> string list \<Rightarrow> bm_state \<Rightarrow> (char \<times> string) list option" where
  "bm_read 0 opts av b = None"
| "bm_read (Suc n) opts av b =
     (case getopt opts av b of
        None \<Rightarrow> None
      | Some (None, _) \<Rightarrow> Some []
      | Some (Some c, b) \<Rightarrow> map_option (\<lambda>es. (c, if opt_kind opts c = Some True then optarg_text b else []) # es) (bm_read n opts av b))"

fun posix_read :: "nat \<Rightarrow> string \<Rightarrow> string list \<times> string \<Rightarrow> (char \<times> string) list option" where
  "posix_read 0 opts st = None"
| "posix_read (Suc n) opts st =
     (case getopt_posix opts st of
        (None, _) \<Rightarrow> Some []
      | (Some e, st) \<Rightarrow> map_option ((#) e) (posix_read n opts st))"

subsection \<open>Command lines with separate arguments\<close>

datatype opt_item = Flag char | Arg char string

fun item_words :: "opt_item \<Rightarrow> string list" where
  "item_words (Flag c) = [[CHR ''-'', c]]"
| "item_words (Arg c a) = [[CHR ''-'', c], a]"

fun item_event :: "opt_item \<Rightarrow> char \<times> string" where
  "item_event (Flag c) = (c, [])"
| "item_event (Arg c a) = (c, a)"

fun item_ok :: "string \<Rightarrow> opt_item \<Rightarrow> bool" where
  "item_ok opts (Flag c) \<longleftrightarrow> c \<noteq> CHR ''-'' \<and> opt_kind opts c = Some False"
| "item_ok opts (Arg c a) \<longleftrightarrow> c \<noteq> CHR ''-'' \<and> opt_kind opts c = Some True \<and> CHR 0x00 \<notin> set a \<and> length a < BUFSIZ"

lemma opt_kind_not_colon: "opt_kind opts c = Some b \<Longrightarrow> c \<noteq> CHR '':''"
  by (induction opts) (auto split: if_splits)

lemma after_char_kind: "opt_kind opts c = Some b \<Longrightarrow> \<exists>q. after_char c opts = Some q \<and> b = (take 1 q = '':'')"
  by (induction opts) (auto simp: after_char_def split: if_splits dest: opt_kind_not_colon)

lemma posix_item: "item_ok opts it \<Longrightarrow> getopt_posix opts (item_words it @ rest, []) = (Some (item_event it), rest, [])"
  by (cases it) (auto simp: getopt_posix_def next_option_def)

lemma posix_items:
  "list_all (item_ok opts) its \<Longrightarrow> length its < n \<Longrightarrow>
   posix_read n opts (concat (map item_words its), []) = Some (map item_event its)"
proof (induction its arbitrary: n)
  case Nil
  then show ?case by (cases n) (simp_all add: getopt_posix_def)
next
  case (Cons it its)
  then show ?case by (cases n) (simp_all add: posix_item)
qed

lemma takeWhile_text: "CHR 0x00 \<notin> set a \<Longrightarrow> takeWhile (\<lambda>c. c \<noteq> CHR 0x00) (a @ CHR 0x00 # x) = a"
  by (induction a) auto

lemma bm_item:
  assumes "item_ok opts it" "av = pre @ item_words it @ rest" "length pre = Suc (b_optind b)" "b_nextchar b \<in> {None, Some []}"
  shows "\<exists>b'. getopt opts av b = Some (Some (fst (item_event it)), b') \<and>
    (opt_kind opts (fst (item_event it)) = Some True \<longrightarrow> optarg_text b' = snd (item_event it)) \<and>
    (opt_kind opts (fst (item_event it)) = Some True \<or> snd (item_event it) = []) \<and>
    Suc (b_optind b') = length (pre @ item_words it) \<and> b_nextchar b' \<in> {None, Some []}"
proof -
  have av: "av ! length pre = hd (item_words it)" "length pre < length av"
    using assms(2) by (cases it; simp add: nth_append)+
  show ?thesis
  proof (cases it)
    case (Flag c)
    then show ?thesis
      using assms av after_char_kind [of opts c False]
      by (auto simp: getopt_def bm_char_def bm_option_def Let_def)
  next
    case (Arg c a)
    have a: "av ! Suc (length pre) = a" "Suc (length pre) < length av"
      using assms(2) Arg by (simp_all add: nth_append)
    show ?thesis
      using Arg assms av a after_char_kind [of opts c True]
      by (auto simp: getopt_def bm_char_def bm_option_def Let_def optarg_text_def takeWhile_text)
  qed
qed

lemma bm_items:
  "list_all (item_ok opts) its \<Longrightarrow> length its < n \<Longrightarrow> av = pre @ concat (map item_words its) \<Longrightarrow>
   length pre = Suc (b_optind b) \<Longrightarrow> b_nextchar b \<in> {None, Some []} \<Longrightarrow>
   bm_read n opts av b = Some (map item_event its)"
proof (induction its arbitrary: n pre b)
  case Nil
  then show ?case by (cases n) (auto simp: getopt_def Let_def)
next
  case (Cons it its)
  obtain m where n: "n = Suc m" using Cons.prems(2) by (cases n) auto
  obtain b' where b': "getopt opts av b = Some (Some (fst (item_event it)), b')"
    "opt_kind opts (fst (item_event it)) = Some True \<longrightarrow> optarg_text b' = snd (item_event it)"
    "opt_kind opts (fst (item_event it)) = Some True \<or> snd (item_event it) = []"
    "Suc (b_optind b') = length (pre @ item_words it)" "b_nextchar b' \<in> {None, Some []}"
    using bm_item [of opts it av pre "concat (map item_words its)" b] Cons.prems by auto
  have "bm_read m opts av b' = Some (map item_event its)"
    using Cons.IH [of m "pre @ item_words it" b'] Cons.prems b'(4,5) n by simp
  then show ?case using b'(1-3) n by (cases "item_event it") auto
qed

text \<open>
  C32: on a command line whose options stand alone and have their arguments in the next word, the
  replacement \<open>getopt\<close> returns what the POSIX one returns: exactly these options with these arguments.
\<close>

theorem getopt_agrees:
  assumes "list_all (item_ok opts) its" "length its < n"
  shows "bm_read n opts (prog # concat (map item_words its)) \<lparr>b_optind = 0, b_nextchar = None, b_optarg = buf\<rparr> =
      Some (map item_event its) \<and>
    posix_read n opts (concat (map item_words its), []) = Some (map item_event its)"
  using bm_items [OF assms, of _ "[prog]" "\<lparr>b_optind = 0, b_nextchar = None, b_optarg = buf\<rparr>"] posix_items [OF assms] by simp

theorem getopt_agrees_witness:
  "bm_read 4 OPTIONS [''dbgen'', ''-s'', ''10'', ''-T'', ''c'', ''-f''] \<lparr>b_optind = 0, b_nextchar = None, b_optarg = replicate BUFSIZ CHR ''z''\<rparr> =
      Some [(CHR ''s'', ''10''), (CHR ''T'', ''c''), (CHR ''f'', [])] \<and>
    posix_read 4 OPTIONS ([''-s'', ''10'', ''-T'', ''c'', ''-f''], []) = Some [(CHR ''s'', ''10''), (CHR ''T'', ''c''), (CHR ''f'', [])]"
  using getopt_agrees [of OPTIONS "[Arg CHR ''s'' ''10'', Arg CHR ''T'' ''c'', Flag CHR ''f'']" 4 "''dbgen''" "replicate BUFSIZ CHR ''z''"]
  by (simp add: OPTIONS_def BUFSIZ_def)

text \<open>
  An argument written directly behind its letter (\<open>-s10\<close>) reaches the program with the letter and old contents
  of the buffer behind it, where the POSIX \<open>getopt\<close> returns the argument itself.
\<close>

theorem getopt_attached_wrong:
  assumes "opt_kind opts c = Some True" "c \<notin> {CHR ''-'', CHR 0x00}" "a \<noteq> []" "CHR 0x00 \<notin> set a" "length a < BUFSIZ"
  shows "getopt_posix opts ([CHR ''-'' # c # a], []) = (Some (c, a), [], []) \<and>
    (\<exists>b'. getopt opts [prog, CHR ''-'' # c # a] \<lparr>b_optind = 0, b_nextchar = None, b_optarg = buf\<rparr> = Some (Some c, b') \<and>
      optarg_text b' = a @ c # takeWhile (\<lambda>d. d \<noteq> CHR 0x00) (drop (Suc (length a)) buf))"
proof -
  obtain q where "after_char c opts = Some q" "take 1 q = '':''" using after_char_kind [OF assms(1)] by auto
  then show ?thesis
    using assms by (auto simp: getopt_posix_def next_option_def getopt_def bm_char_def bm_option_def optarg_text_def Let_def
      takeWhile_append)
qed

theorem getopt_attached_wrong_witness:
  "getopt_posix OPTIONS ([''-s10''], []) = (Some (CHR ''s'', ''10''), [], []) \<and>
    (\<exists>b'. getopt OPTIONS [''dbgen'', ''-s10''] \<lparr>b_optind = 0, b_nextchar = None, b_optarg = replicate 8 CHR 0x00\<rparr> = Some (Some CHR ''s'', b') \<and>
      optarg_text b' = ''10s'')"
  using getopt_attached_wrong [of OPTIONS "CHR ''s''" "''10''" "''dbgen''" "replicate 8 CHR 0x00"]
  by (simp add: OPTIONS_def BUFSIZ_def eval_nat_numeral)

subsection \<open>What command lines do\<close>

text \<open>The assignments \<open>main\<close> makes before it reads the options; \<open>validate\<close> is only zero as a global.\<close>

definition main_globals :: "(string \<Rightarrow> string option) \<Rightarrow> bool \<Rightarrow> globals" where
  "main_globals env stale = \<lparr>getenv = env, force = False, header = False, columnar = False, updates = 0,
     insert_segments = 0, delete_segments = 0, gen_sql = False, gen_rng = False, refresh = UPD_PCT, stale_reg = stale, tpch = False,
     g_table = table_bit CUST OR table_bit SUPP OR table_bit NATION OR table_bit REGION OR
       table_bit PART_PSUPP OR table_bit ORDER_LINE,
     g_verbose = 0, g_direct = 0, g_fnames = False, g_scale = 1, g_flt_scale = 1, g_step = - 1, g_children = 1,
     g_set_seeds = False, g_validate = False, g_db_name = None, g_d_path = None\<rparr>"

definition main_tdefs :: "tdef list \<Rightarrow> tdef list" where
  "main_tdefs tds = (let d = tds ! nat LINE in tds[nat LINE := d\<lparr>td_base := td_base d * ORDERS_PER_CUST\<rparr>])"

fun apply_items :: "opt_item list \<Rightarrow> opt_state \<Rightarrow> abort \<times> opt_state + opt_state" where
  "apply_items [] st = Inr st"
| "apply_items (it # its) st =
     (case apply_option (fst (item_event it)) (snd (item_event it)) None st of
        Inl x \<Rightarrow> Inl x | Inr st \<Rightarrow> apply_items its st)"

lemma known_option: "opt_kind OPTIONS c \<noteq> None \<Longrightarrow> apply_option c a nxt st = apply_option c a None st"
  by (auto simp: OPTIONS_def apply_option_def Let_def split: if_splits)

lemma options_item:
  assumes "item_ok OPTIONS it"
  shows "options_loop (item_words it @ rest, []) st =
    (case apply_option (fst (item_event it)) (snd (item_event it)) None st of Inl x \<Rightarrow> Inl x | Inr st \<Rightarrow> options_loop (rest, []) st)"
proof -
  obtain c a where e: "item_event it = (c, a)" by (cases "item_event it")
  have "opt_kind OPTIONS c \<noteq> None" using assms e by (cases it) auto
  from known_option [OF this, of a "case rest of [] \<Rightarrow> None | a # _ \<Rightarrow> Some a" st] show ?thesis
    by (subst options_loop.simps) (simp add: posix_item [OF assms] e)
qed

lemma options_items:
  "list_all (item_ok OPTIONS) its \<Longrightarrow> options_loop (concat (map item_words its) @ rest, []) st =
     (case apply_items its st of Inl x \<Rightarrow> Inl x | Inr st \<Rightarrow> options_loop (rest, []) st)"
proof (induction its arbitrary: st)
  case (Cons it its)
  then show ?case
    using options_item [of it "concat (map item_words its) @ rest" st]
    by (cases "apply_option (fst (item_event it)) (snd (item_event it)) None st") simp_all
qed simp

lemma options_end: "options_loop ([], []) st = Inr st"
  by (subst options_loop.simps) (simp add: getopt_posix_def)

text \<open>
  C35: a single unknown option letter as the last word does not end in the usage text: the message of \<open>default\<close>
  reads \<open>vector[optind]\<close>, which is then a null pointer.  Before another word the program exits
  with 1, and the message names the second character of that word instead of the unknown option.  (\<open>o_err\<close> leaves out the line
  that \<open>getopt\<close> of the C library writes to standard error before.)
\<close>

theorem unknown_option:
  assumes "list_all (item_ok OPTIONS) its" "apply_items its st = Inr st'" "opt_kind OPTIONS c = None" "c \<noteq> CHR ''-''"
  shows "process_options (concat (map item_words its) @ [[CHR ''-'', c]]) st = Inl (Crash, st') \<and>
    process_options (concat (map item_words its) @ [CHR ''-'', c] # (x # y # w) # ws) st = Inl (Exit 1,
      eprint (banner (tpch (o_g st')) @ usage (tpch (o_g st'))) (st'\<lparr>o_out := o_out st' @ ''ERROR: option '' @ [CHR 0x27] @ [y] @ [CHR 0x27] @ '' unknown.'' @ [CHR 0x0A]\<rparr>))"
proof -
  let ?m = "\<lambda>d. eprint (banner (tpch (o_g st')) @ usage (tpch (o_g st'))) (st'\<lparr>o_out := o_out st' @ ''ERROR: option '' @ [CHR 0x27] @ d @ [CHR 0x27] @ '' unknown.'' @ [CHR 0x0A]\<rparr>)"
  have q: "apply_option CHR ''?'' [] None st' = Inl (Crash, st')"
    "apply_option CHR ''?'' [] (Some (x # y # w)) st' = Inl (Exit 1, ?m [y])"
    by (simp_all add: apply_option_def Let_def)
  have g: "getopt_posix OPTIONS ([CHR ''-'', c] # ws', []) = (Some (CHR ''?'', []), ws', [])" for ws'
    using assms(3,4) by (simp add: getopt_posix_def next_option_def)
  have "options_loop ([[CHR ''-'', c]], []) st' = Inl (Crash, st')"
    "options_loop ([CHR ''-'', c] # (x # y # w) # ws, []) st' = Inl (Exit 1, ?m [y])"
    by (subst options_loop.simps, simp add: g q)+
  then show ?thesis
    by (simp add: process_options_def options_items [OF assms(1)] assms(2))
qed

definition demo_start :: opt_state where
  "demo_start = \<lparr>o_g = main_globals (\<lambda>_. None) False, o_tds = main_tdefs ssb_tdefs, o_out = [], o_err = []\<rparr>"

theorem unknown_option_witness:
  "process_options [''-v'', ''-x''] demo_start = Inl (Crash, set_g (\<lambda>g. g\<lparr>g_verbose := 1\<rparr>) demo_start)"
  using unknown_option [of "[Flag CHR ''v'']" demo_start "set_g (\<lambda>g. g\<lparr>g_verbose := 1\<rparr>) demo_start" "CHR ''x''"]
  by (simp add: OPTIONS_def apply_option_def)

text \<open>
  \<open>-T a\<close> selects the date table only when \<open>-S 1\<close> comes before it: alone, with another step, or before \<open>-S 1\<close>,
  it selects the other four tables.
\<close>

theorem all_tables_without_date:
  assumes "s = Arg CHR ''S'' a" "t = Arg CHR ''T'' ''a''" "atoi a = 1" "CHR 0x00 \<notin> set a" "length a < BUFSIZ"
    and "DIM = table_bit CUST OR table_bit PART OR table_bit SUPP OR table_bit LINE" "g_step (o_g st) \<noteq> 1" "\<not> tpch (o_g st)"
  shows "(\<exists>st'. apply_items [s, t] st = Inr st' \<and> g_table (o_g st') = DIM OR table_bit DATE) \<and>
    (\<exists>st'. apply_items [t, s] st = Inr st' \<and> g_table (o_g st') = DIM) \<and>
    (\<exists>st'. apply_items [t] st = Inr st' \<and> g_table (o_g st') = DIM)"
  using assms by (simp add: apply_option_def opt_table_def set_g_def Let_def table_bit_def)

theorem all_tables_without_date_witness:
  "\<exists>st'. apply_items [Arg CHR ''T'' ''a'', Arg CHR ''S'' ''1''] demo_start = Inr st' \<and>
    g_table (o_g st') = table_bit CUST OR table_bit PART OR table_bit SUPP OR table_bit LINE"
proof -
  have "scan_ld ''1'' = Some 1"
    by (simp add: scan_ld_def isspace_def is_digit_def undec_def char_digit_def)
  then have "atoi ''1'' = 1" by (simp add: atoi_def c_int_id)
  then show ?thesis
    using all_tables_without_date [OF refl refl, of "''1''" _ demo_start]
    by (simp add: BUFSIZ_def demo_start_def main_globals_def)
qed

end
