(* ===== verification/Driver.thy ===== *)
theory Driver
  imports Options Tables
begin

text \<open>
  The driver of \<open>dbgen\<close>: \<open>gen_tbl\<close>, \<open>set_files\<close>, \<open>partial\<close>, \<open>pload\<close> and \<open>main\<close> of \<open>driver.c\<close>, \<open>set_state\<close> of
  \<open>bm_utils.c\<close>.  A run holds the random streams, the table descriptions, the state of the output
  routines and the text written to standard error.
\<close>

record run =
  r_streams :: rng
  r_tds :: "tdef list"
  r_out :: outs
  r_err :: string

text \<open>What the program meets on its platform: the offset of local time, the process number, and
  what memory holds that the program reads without having set it.\<close>

record platform =
  tzoff :: "int \<Rightarrow> int"
  pid :: int
  junk_nation :: int
  junk_region :: int
  junk_skip :: int

definition say :: "globals \<Rightarrow> string \<Rightarrow> run \<Rightarrow> run" where
  "say g t r = (if g_verbose g > 0 then r\<lparr>r_err := r_err r @ t\<rparr> else r)"

definition on_world :: "(world \<Rightarrow> world) \<Rightarrow> run \<Rightarrow> run" where
  "on_world f r = r\<lparr>r_out := (r_out r)\<lparr>wld := f (wld (r_out r))\<rparr>\<rparr>"

subsection \<open>\<open>gen_tbl\<close>\<close>

datatype row = Line_row order_t | Supp_row supplier_t | Cust_row customer_t | Part_row part_t | Date_row date_t | No_row

definition builder_env :: "globals \<Rightarrow> dists \<Rightarrow> tdef list \<Rightarrow> benv" where
  "builder_env g d tds = \<lparr>be_dists = d, be_scale = g_scale g, be_refresh = refresh g, be_tdefs = tds, asc_date = the mk_ascdate\<rparr>"

text \<open>The \<open>mk_\<close> routine of a table; the other table numbers fall through the \<open>switch\<close>.\<close>

definition mk_row :: "benv \<Rightarrow> platform \<Rightarrow> int \<Rightarrow> int \<Rightarrow> int \<Rightarrow> rng \<Rightarrow> (row \<times> rng) option" where
  "mk_row e pf tnum upd i s =
     (if tnum = LINE then map_option (map_prod Line_row id) (mk_order e (upd smod 10000) i s)
      else if tnum = SUPP then map_option (map_prod Supp_row id) (mk_supp e i s)
      else if tnum = CUST then map_option (map_prod Cust_row id) (mk_cust e i s)
      else if tnum = PART then map_option (map_prod Part_row id) (mk_part e i s)
      else if tnum = DATE then Some (Date_row (mk_date (tzoff pf) i), s)
      else Some (No_row, s))"

text \<open>The members \<open>verify\<close> and \<open>loader\<close> of the \<open>tdef\<close>s.\<close>

definition verify_row :: "platform \<Rightarrow> row \<Rightarrow> tdef list \<Rightarrow> tdef list" where
  "verify_row pf r = (case r of
      Line_row x \<Rightarrow> vrf_line x | Supp_row x \<Rightarrow> vrf_supp (junk_nation pf) (junk_region pf) x | Cust_row x \<Rightarrow> vrf_cust x
    | Part_row x \<Rightarrow> vrf_part x | Date_row x \<Rightarrow> vrf_date x | No_row \<Rightarrow> id)"

definition print_row :: "config \<Rightarrow> tdef list \<Rightarrow> int \<Rightarrow> row \<Rightarrow> outs \<Rightarrow> abort + outs" where
  "print_row cf tds upd r = (case r of
      Line_row x \<Rightarrow> pr_line cf tds x upd | Supp_row x \<Rightarrow> pr_supp cf tds x upd | Cust_row x \<Rightarrow> pr_cust cf tds x
    | Part_row x \<Rightarrow> pr_part cf tds x | Date_row x \<Rightarrow> pr_date cf tds x | No_row \<Rightarrow> Inr)"

definition load_row :: "row \<Rightarrow> outs \<Rightarrow> outs" where
  "load_row r = (case r of
      Line_row _ \<Rightarrow> ld_line | Supp_row _ \<Rightarrow> ld_supp | Cust_row _ \<Rightarrow> ld_cust | Part_row _ \<Rightarrow> ld_part
    | Date_row _ \<Rightarrow> ld_date | No_row \<Rightarrow> id)"

definition emit_row :: "globals \<Rightarrow> platform \<Rightarrow> int \<Rightarrow> row \<Rightarrow> run \<Rightarrow> abort + run" where
  "emit_row g pf upd w r =
     (if g_set_seeds g then Inr r
      else if g_validate g then Inr (r\<lparr>r_tds := verify_row pf w (r_tds r)\<rparr>)
      else if g_direct g \<noteq> 0 then Inr (r\<lparr>r_out := load_row w (r_out r)\<rparr>)
      else map_sum id (\<lambda>os. r\<lparr>r_out := os\<rparr>) (print_row (config.truncate g) (r_tds r) upd w (r_out r)))"

text \<open>The accounting of insert segments after an order is built: the rows of this segment and the number of the update
  set, of which multiples of 10000 count the segments.\<close>

definition next_insert :: "globals \<Rightarrow> int \<Rightarrow> int \<Rightarrow> int \<times> int \<Rightarrow> int \<times> int" where
  "next_insert g rows_per_seg residual su =
     (case su of (rows_this, upd) \<Rightarrow>
        if insert_segments g \<noteq> 0 \<and> upd > 0 then
          let rows_this = rows_this + 1
          in if (if upd sdiv 10000 < residual then rows_this > rows_per_seg else rows_this \<ge> rows_per_seg)
             then (0, upd + 10000) else (rows_this, upd)
        else su)"

definition lnoise :: "char list" where "lnoise = [CHR ''|'', CHR ''/'', CHR ''-'', CHR 0x5C]"

text \<open>The seeds that \<open>-O s\<close> prints for the first rows.\<close>

definition show_seeds :: "globals \<Rightarrow> int \<Rightarrow> int \<Rightarrow> run \<Rightarrow> abort + run" where
  "show_seeds g tnum i r =
     (if \<not> g_set_seeds g then Inr r
      else if td_base (r_tds r ! nat tnum) = 0 then Inl Crash
      else if i smod td_base (r_tds r ! nat tnum) < 2 then
        Inr (on_world (printf ([CHR 0x0A] @ ''Seeds for '' @ td_comment (r_tds r ! nat tnum) @ '' at rowcount '' @ fmt_d i @ [CHR 0x0A] @
          dump_seeds tnum (r_streams r))) r)
      else Inr r)"

text \<open>One round of the loop: the row number \<open>i\<close>; \<open>su\<close> is the segment accounting, \<open>seg\<close> the rows per insert segment
  and the number of segments with one more.\<close>

definition gen_row :: "globals \<Rightarrow> platform \<Rightarrow> dists \<Rightarrow> int \<Rightarrow> int \<times> int \<Rightarrow> int \<Rightarrow> int \<times> int \<Rightarrow> run \<Rightarrow> abort + ((int \<times> int) \<times> run)" where
  "gen_row g pf d tnum seg i su r =
     (let r = say g [lnoise ! nat (i smod 4), CHR 0x08] r
      in case mk_row (builder_env g d (r_tds r)) pf tnum (snd su) i (row_start tnum (r_streams r)) of
        None \<Rightarrow> Inl Crash
      | Some (w, s) \<Rightarrow>
          let su = (if tnum = LINE then next_insert g (fst seg) (snd seg) su else su)
          in case emit_row g pf (snd su) w (r\<lparr>r_streams := s\<rparr>) of
               Inl a \<Rightarrow> Inl a
             | Inr r \<Rightarrow>
                 (case row_stop (g_set_seeds g) (r_tds r) tnum (r_streams r) of
                    None \<Rightarrow> Inl Crash
                  | Some s \<Rightarrow> map_sum id (Pair su) (show_seeds g tnum i (r\<lparr>r_streams := s\<rparr>))))"

text \<open>The loop, with \<open>n\<close> rows to go.\<close>

fun gen_loop :: "nat \<Rightarrow> globals \<Rightarrow> platform \<Rightarrow> dists \<Rightarrow> int \<Rightarrow> int \<times> int \<Rightarrow> int \<Rightarrow> int \<times> int \<Rightarrow> run \<Rightarrow> abort + run" where
  "gen_loop 0 g pf d tnum seg i su r = Inr r"
| "gen_loop (Suc n) g pf d tnum seg i su r =
     (case gen_row g pf d tnum seg i su r of
        Inl a \<Rightarrow> Inl a
      | Inr (su, r) \<Rightarrow> gen_loop n g pf d tnum seg (i + 1) su r)"

definition insert_split :: "globals \<Rightarrow> int \<Rightarrow> int \<times> int" where
  "insert_split g cnt =
     (if insert_segments g \<noteq> 0 then
        let rps = c_int (cnt sdiv insert_segments g) in (rps, c_int (cnt - rps * insert_segments g))
      else (0, 0))"

text \<open>A negative count is counted down past the least \<open>long\<close>.\<close>

definition gen_tbl :: "globals \<Rightarrow> platform \<Rightarrow> dists \<Rightarrow> int \<Rightarrow> int \<Rightarrow> int \<Rightarrow> int \<Rightarrow> run \<Rightarrow> abort + run" where
  "gen_tbl g pf d tnum start cnt upd r =
     (if cnt < 0 then Inl Crash else gen_loop (nat cnt) g pf d tnum (insert_split g cnt) start (- 1, upd) r)"

subsection \<open>\<open>set_files\<close>\<close>

text \<open>\<open>fgets(line, n + 1, stdin)\<close> on the lines waiting; the newline is cut off at once.\<close>

definition gets_line :: "nat \<Rightarrow> string list \<Rightarrow> (string \<times> string list) option" where
  "gets_line n ls = (case ls of
      [] \<Rightarrow> None
    | l # ls \<Rightarrow> Some (takeWhile (\<lambda>c. c \<noteq> CHR 0x00) (take n l), if n \<le> length l then drop n l # ls else ls))"

text \<open>The new name of a table: with the number of the process, or as the user says (\<open>None\<close>: end of the input).\<close>

definition new_name :: "int \<Rightarrow> string \<Rightarrow> world \<Rightarrow> abort + (string option \<times> world)" where
  "new_name pl name wo =
     (if pl \<noteq> - 1 then
        if 80 \<le> length (name @ ''.'' @ fmt_d pl) then Inl Crash else Inr (Some (name @ ''.'' @ fmt_d pl), wo)
      else
        let wo = printf (''Enter new destination for '' @ name @ '' data: '') wo
        in case gets_line 79 (stdin wo) of
             None \<Rightarrow> Inr (None, wo)
           | Some (l, ls) \<Rightarrow> Inr (Some l, wo\<lparr>stdin := ls\<rparr>))"

text \<open>The table and then its child, whose own child is forgotten before it is named.  The name of a table
  without one is a null pointer.\<close>

function set_files_at :: "int \<Rightarrow> int \<Rightarrow> tdef list \<Rightarrow> world \<Rightarrow> abort + (int \<times> tdef list \<times> world)" where
  "set_files_at i pl tds wo =
     (if i < 0 \<or> int (length tds) \<le> i \<or> td_name (tds ! nat i) = [] then Inl Crash
      else case new_name pl (td_name (tds ! nat i)) wo of
          Inl a \<Rightarrow> Inl a
        | Inr (None, wo) \<Rightarrow> Inr (- 1, tds, wo)
        | Inr (Some line, wo) \<Rightarrow>
            if line = [] then Inr (0, tds, wo)
            else let tds = tds[nat i := (tds ! nat i)\<lparr>td_name := line\<rparr>]; c = td_child (tds ! nat i)
              in if c \<noteq> NONE then
                   if c < 0 \<or> int (length tds) \<le> c then Inl Crash
                   else set_files_at c pl (tds[nat c := (tds ! nat c)\<lparr>td_child := NONE\<rparr>]) wo
                 else Inr (0, tds, wo))"
  by pat_completeness auto
termination
  by (relation "measure (\<lambda>(i, _, tds, _). if td_child (tds ! nat i) \<noteq> NONE then 1 else 0)") auto

declare set_files_at.simps [simp del]

definition set_files :: "globals \<Rightarrow> int \<Rightarrow> int \<Rightarrow> tdef list \<Rightarrow> world \<Rightarrow> abort + (int \<times> tdef list \<times> world)" where
  "set_files g i pl tds wo =
     (if bit (g_table g) (nat i) then set_files_at i pl tds wo else Inr (0, tds, wo))"

subsection \<open>\<open>set_state\<close>\<close>

text \<open>The member \<open>gen_seed\<close> of the \<open>tdef\<close>s.\<close>

type_synonym seeders = "int \<Rightarrow> (int \<Rightarrow> int \<Rightarrow> rng \<Rightarrow> rng option) option"

definition gen_seed :: seeders where
  "gen_seed t = (if t = PART then Some sd_part else if t = SUPP then Some sd_supp else if t = CUST then Some sd_cust
     else if t = LINE then Some sd_line else None)"

definition seed_call :: "seeders \<Rightarrow> int \<Rightarrow> int \<Rightarrow> int \<Rightarrow> rng \<Rightarrow> abort + rng" where
  "seed_call sg t child rows s =
     (case sg t of
        None \<Rightarrow> Inl Crash
      | Some f \<Rightarrow> (case f child rows s of None \<Rightarrow> Inl Crash | Some s \<Rightarrow> Inr s))"

definition skip_once :: "seeders \<Rightarrow> tdef list \<Rightarrow> int \<Rightarrow> int \<Rightarrow> rng \<Rightarrow> abort + rng" where
  "skip_once sg tds t rows s =
     (case (if t = LINE then seed_call sg t 1 rows s
            else if sg t \<noteq> None then seed_call sg t 0 rows s
            else Inr s) of
        Inl a \<Rightarrow> Inl a
      | Inr s \<Rightarrow> if td_child (tds ! nat t) \<noteq> NONE then seed_call sg (td_child (tds ! nat t)) 0 rows s else Inr s)"

fun skip_steps :: "seeders \<Rightarrow> nat \<Rightarrow> tdef list \<Rightarrow> int \<Rightarrow> int \<Rightarrow> rng \<Rightarrow> abort + rng" where
  "skip_steps sg 0 tds t rows s = Inr s"
| "skip_steps sg (Suc n) tds t rows s = (case skip_once sg tds t rows s of Inl a \<Rightarrow> Inl a | Inr s \<Rightarrow> skip_steps sg n tds t rows s)"

text \<open>The rows per process and the rows left over.\<close>

definition split_rows :: "int \<Rightarrow> int \<Rightarrow> int \<Rightarrow> int \<times> int" where
  "split_rows base sf procs =
     (let remainder = (base smod procs) * sf
      in (base sdiv procs * sf + remainder sdiv procs, remainder smod procs))"

text \<open>\<open>set_state(table, sf, procs, step, &extra)\<close>: the rows of the step, what is stored to \<open>extra\<close> (nothing for a scale or
  step of 0) and the streams.  The last call of \<open>gen_seed\<close> passes \<open>extra\<close> as its first argument and no second one.\<close>

definition set_state :: "seeders \<Rightarrow> tdef list \<Rightarrow> platform \<Rightarrow> int \<Rightarrow> int \<Rightarrow> int \<Rightarrow> int \<Rightarrow> rng \<Rightarrow> abort + (int \<times> int option \<times> rng)" where
  "set_state sg tds pf t sf procs step0 s =
     (if sf = 0 \<or> step0 = 0 then Inr (0, None, s)
      else if procs = 0 then Inl Crash
      else if sf sdiv procs > MAX_32B_SCALE then Inl Aborted
      else
        let (rowcount, extra) = split_rows (td_base (tds ! nat t)) sf procs
        in case skip_steps sg (nat (step0 - 1)) tds t rowcount s of
             Inl a \<Rightarrow> Inl a
           | Inr s \<Rightarrow>
               if step0 > procs then map_sum id (\<lambda>s. (rowcount, Some extra, s)) (seed_call sg t extra (junk_skip pf) s)
               else Inr (rowcount, Some extra, s))"

subsection \<open>\<open>partial\<close> and \<open>pload\<close>\<close>

text \<open>What comes before the rows: the file name and \<open>set_state\<close>.  The first row, the number of rows, the run.\<close>

definition prepare :: "seeders \<Rightarrow> globals \<Rightarrow> platform \<Rightarrow> int \<Rightarrow> int \<Rightarrow> run \<Rightarrow> abort + (int \<times> int \<times> run)" where
  "prepare sg g pf tbl s r =
     (let r = say g ([CHR 0x09] @ ''Starting to load stage '' @ fmt_d s @ '' of '' @ fmt_d (g_children g) @ '' for '' @
            td_comment (r_tds r ! nat tbl) @ ''...'') r
      in case (if g_direct g = 0 then set_files g tbl s (r_tds r) (wld (r_out r)) else Inr (0, r_tds r, wld (r_out r))) of
           Inl a \<Rightarrow> Inl a
         | Inr (_, tds, wo) \<Rightarrow>
             let r = on_world (\<lambda>_. wo) (r\<lparr>r_tds := tds\<rparr>)
             in case set_state sg tds pf tbl (g_scale g) (g_children g) s (r_streams r) of
                  Inl a \<Rightarrow> Inl a
                | Inr (rowcnt, extra, st) \<Rightarrow>
                    if s = g_children g \<and> extra = None then Inl Crash
                    else Inr (rowcnt * (s - 1) + 1, if s = g_children g then rowcnt + the extra else rowcnt,
                      r\<lparr>r_streams := st\<rparr>))"

definition partial :: "globals \<Rightarrow> platform \<Rightarrow> dists \<Rightarrow> int \<Rightarrow> int \<Rightarrow> int \<Rightarrow> run \<Rightarrow> abort + run" where
  "partial g pf d tbl s upd r =
     (case prepare gen_seed g pf tbl s r of
        Inl a \<Rightarrow> Inl a
      | Inr (start, cnt, r) \<Rightarrow> map_sum id (say g (''done.'' @ [CHR 0x0A])) (gen_tbl g pf d tbl start cnt upd r))"

text \<open>The children of \<open>pload\<close> run one after the other here: each starts from the memory of the
  parent and the world the children before it have left, and ends with the world it leaves; the theory
  \<open>Parallel\<close> lets them run in any order.  A child that aborts ends the run.\<close>

fun load_children :: "nat \<Rightarrow> globals \<Rightarrow> platform \<Rightarrow> dists \<Rightarrow> int \<Rightarrow> int \<Rightarrow> int \<Rightarrow> run \<Rightarrow> world \<Rightarrow> abort + world" where
  "load_children 0 g pf d tbl c upd r wo = Inr wo"
| "load_children (Suc n) g pf d tbl c upd r wo =
     (case partial (g\<lparr>g_verbose := 0\<rparr>) pf d tbl (c + 1) upd (on_world (\<lambda>_. wo) r) of
        Inl a \<Rightarrow> Inl a
      | Inr r' \<Rightarrow> load_children n g pf d tbl (c + 1) upd r (wld (r_out r')))"

definition pload :: "globals \<Rightarrow> platform \<Rightarrow> dists \<Rightarrow> int \<Rightarrow> int \<Rightarrow> run \<Rightarrow> abort + run" where
  "pload g pf d tbl upd r =
     (let n = nat (g_children g);
          r = say g (''Starting '' @ fmt_d (g_children g) @ '' children to load '' @ td_comment (r_tds r ! nat tbl)) r
      in case load_children n g pf d tbl 0 upd r (wld (r_out r)) of
           Inl a \<Rightarrow> Inl a
         | Inr wo \<Rightarrow> Inr (say g (replicate n CHR ''.'' @ ''waiting...'' @ ''done'' @ [CHR 0x0A]) (on_world (\<lambda>_. wo) r)))"

subsection \<open>\<open>main\<close>\<close>

definition read_abort :: "read_error \<Rightarrow> abort" where
  "read_abort e = (if e \<in> {OpenFailed, ReadError, MallocFailed} then Exit 1 else Crash)"

definition world_files :: "world \<Rightarrow> string \<Rightarrow> string option" where
  "world_files wo p = (case nodes wo p of Some (Regular c) \<Rightarrow> Some c | _ \<Rightarrow> None)"

text \<open>The distributions the star schema uses; \<open>None\<close> when a cell was allocated and not filled.\<close>

definition used_dists :: "(string \<times> dist_target) list \<Rightarrow> dists option" where
  "used_dists ts = (let get = (\<lambda>n. Option.bind (map_of ts n) dist_of) in do {
     d1 \<leftarrow> get ''nations''; d2 \<leftarrow> get ''regions''; d3 \<leftarrow> get ''o_oprio''; d4 \<leftarrow> get ''smode'';
     d5 \<leftarrow> get ''msegmnt''; d6 \<leftarrow> get ''colors''; d7 \<leftarrow> get ''p_types''; d8 \<leftarrow> get ''p_cntr'';
     Some \<lparr>nations = d1, regions = d2, o_priority_set = d3, l_smode_set = d4, c_mseg_set = d5, colors = d6,
       p_types_set = d7, p_cntr_set = d8\<rparr> })"

text \<open>\<open>floor(1 + log((double) scale) / log(2))\<close> for a positive scale.\<close>

definition floor_log2_1 :: "int \<Rightarrow> int" where "floor_log2_1 sc = bitlen sc"

text \<open>The number of rows of a table built by one process.\<close>

definition table_rows :: "globals \<Rightarrow> tdef list \<Rightarrow> int \<Rightarrow> int" where
  "table_rows g tds i =
     (let base = td_base (tds ! nat i)
      in if i = PART then base * floor_log2_1 (g_scale g)
         else if i = DATE then base
         else if i < NATION then base * g_scale g
         else base)"

definition fmt_x :: "int \<Rightarrow> string" where
  "fmt_x n = (let hex = (\<lambda>k. if k < 10 then digit_char (nat k) else char_of (nat k + 87));
       ds = map (\<lambda>k. hex (n div 16 ^ k mod 16)) (rev [0..<8])
     in case dropWhile (\<lambda>c. c = CHR ''0'') ds of [] \<Rightarrow> ''0'' | ds \<Rightarrow> ds)"

definition gen_one :: "globals \<Rightarrow> platform \<Rightarrow> dists \<Rightarrow> int \<Rightarrow> run \<Rightarrow> abort + run" where
  "gen_one g pf d i r =
     (if \<not> bit (g_table g) (nat i) then Inr r
      else
        case (if g_children g > 1 \<and> i < NATION then
                if g_validate g then Inl Aborted
                else if g_step g \<ge> 0 then partial g pf d i (g_step g) 0 r
                else pload g pf d i 0 r
              else
                map_sum id (say g (''done.'' @ [CHR 0x0A]))
                  (gen_tbl g pf d i 1 (table_rows g (r_tds r) i) 0
                    (say g ((if g_validate g then ''Validating'' else ''Generating'') @ '' data for '' @
                      td_comment (r_tds r ! nat i) @ '' [pid: '' @ fmt_d (pid pf) @ '']'') r))) of
          Inl a \<Rightarrow> Inl a
        | Inr r \<Rightarrow> Inr (if g_validate g then
              on_world (printf (''Validation checksum for '' @ td_name (r_tds r ! nat i) @ '' at '' @ fmt_d (g_scale g) @
                '' GB: '' @ fmt_x (td_vtotal (r_tds r ! nat i) mod 2 ^ 32) @ [CHR 0x0A])) r
            else r))"

fun gen_all :: "globals \<Rightarrow> platform \<Rightarrow> dists \<Rightarrow> int list \<Rightarrow> run \<Rightarrow> abort + run" where
  "gen_all g pf d [] r = Inr r"
| "gen_all g pf d (i # is) r = (case gen_one g pf d i r of Inl a \<Rightarrow> Inl a | Inr r \<Rightarrow> gen_all g pf d is r)"

text \<open>The names asked for with \<open>-O f\<close>.\<close>

fun ask_files :: "globals \<Rightarrow> int list \<Rightarrow> run \<Rightarrow> abort + run" where
  "ask_files g [] r = Inr r"
| "ask_files g (i # is) r =
     (case set_files g i (- 1) (r_tds r) (wld (r_out r)) of
        Inl a \<Rightarrow> Inl a
      | Inr (code, tds, wo) \<Rightarrow>
          if code \<noteq> 0 then Inl (Exit 1)
          else ask_files g is (on_world (\<lambda>_. wo) (r\<lparr>r_tds := tds\<rparr>)))"

text \<open>One update set after another, \<open>n\<close> to go: the orders, then the keys to delete.\<close>

fun gen_updates :: "nat \<Rightarrow> globals \<Rightarrow> platform \<Rightarrow> dists \<Rightarrow> int \<Rightarrow> int \<Rightarrow> run \<Rightarrow> abort + run" where
  "gen_updates 0 g pf d rowcnt upd r = Inr r"
| "gen_updates (Suc n) g pf d rowcnt upd r =
     (let r = say g (''Generating update pair #'' @ fmt_d (upd + 1) @ '' for '' @ td_comment (r_tds r ! nat LINE) @ '' [pid: '' @
            fmt_d (pid pf) @ '']'') r;
          r = r\<lparr>r_out := (r_out r)\<lparr>insert_orders_segment := 0, insert_lineitem_segment := 0, delete_segment := 0\<rparr>\<rparr>;
          minrow = upd * rowcnt + 1
      in case gen_tbl g pf d LINE minrow rowcnt (upd + 1) r of
           Inl a \<Rightarrow> Inl a
         | Inr r \<Rightarrow>
             let r = say g (''done.'' @ [CHR 0x0A]) r
             in case pr_drange (config.truncate g) (r_tds r) LINE minrow rowcnt (upd + 1) (r_out r) of
                  Inl a \<Rightarrow> Inl a
                | Inr (_, os) \<Rightarrow> gen_updates n g pf d rowcnt (upd + 1) (r\<lparr>r_out := os\<rparr>))"

text \<open>The rows of an update set: a part in 10000 per unit of refresh, in doubles.\<close>

definition update_rows :: "globals \<Rightarrow> tdef list \<Rightarrow> int" where
  "update_rows g tds =
     long_of_d (dmul (dmul (ddiv (d_of_long (td_base (tds ! nat LINE))) 10000) (d_of_long (g_scale g))) (d_of_long (refresh g)))"

text \<open>\<open>set_state\<close> is called for the second step of one process: it skips the rows of the data set, and then calls
  \<open>sd_line(0, _)\<close> without a row count.\<close>

definition main_updates :: "globals \<Rightarrow> platform \<Rightarrow> dists \<Rightarrow> run \<Rightarrow> abort + run" where
  "main_updates g pf d r =
     (case set_state gen_seed (r_tds r) pf LINE (g_scale g) 1 2 (r_streams r) of
        Inl a \<Rightarrow> Inl a
      | Inr (_, _, s) \<Rightarrow>
          let rowcnt = update_rows g (r_tds r)
          in if rowcnt < - (2 ^ 31) \<or> 2 ^ 31 \<le> rowcnt then Inl Crash
             else if g_step g > 0 then
               (case sd_order 0 (rowcnt * (g_step g - 1)) s of
                  None \<Rightarrow> Inl Crash
                | Some s \<Rightarrow>
                    (case sd_line 0 (rowcnt * (g_step g - 1)) s of
                       None \<Rightarrow> Inl Crash
                     | Some s \<Rightarrow> gen_updates (nat (updates g - (g_step g - 1))) g pf d rowcnt (g_step g - 1) (r\<lparr>r_streams := s\<rparr>)))
             else gen_updates (nat (updates g)) g pf d rowcnt 0 (r\<lparr>r_streams := s\<rparr>))"

definition main_tables :: "globals \<Rightarrow> platform \<Rightarrow> dists \<Rightarrow> run \<Rightarrow> abort + run" where
  "main_tables g pf d r =
     (let r = (if g_direct g \<noteq> 0 then r\<lparr>r_out := snd (prep_direct (r_out r))\<rparr> else r)
      in case (if g_direct g = 0 \<and> g_fnames g then ask_files g [PART..REGION] r else Inr r) of
           Inl a \<Rightarrow> Inl a
         | Inr r \<Rightarrow>
             (case gen_all g pf d [PART..REGION] r of
                Inl a \<Rightarrow> Inl a
              | Inr r \<Rightarrow> Inr (if g_direct g \<noteq> 0 then r\<lparr>r_out := snd (close_direct (r_out r))\<rparr> else r)))"

text \<open>The row counts of the two tables that are not part of the star schema.\<close>

definition loaded_tdefs :: "dists \<Rightarrow> tdef list \<Rightarrow> tdef list" where
  "loaded_tdefs d tds = tds[nat NATION := (tds ! nat NATION)\<lparr>td_base := dcount (nations d)\<rparr>,
     nat REGION := (tds ! nat REGION)\<lparr>td_base := dcount (regions d)\<rparr>]"

text \<open>\<open>main(argc, argv)\<close> on the arguments after the program name; a value is the exit with status 0.\<close>

definition main :: "(string \<Rightarrow> string option) \<Rightarrow> bool \<Rightarrow> platform \<Rightarrow> string list \<Rightarrow> world \<Rightarrow> abort + run" where
  "main env stale pf av wo =
     (case process_options av \<lparr>o_g = main_globals env stale, o_tds = main_tdefs ssb_tdefs, o_out = [], o_err = []\<rparr> of
        Inl (a, _) \<Rightarrow> Inl a
      | Inr st \<Rightarrow>
          let g = o_g st
          in case load_dists (getenv g) (world_files wo) (g_d_path g) of
               Inl e \<Rightarrow> Inl (read_abort e)
             | Inr ts \<Rightarrow>
                 (case used_dists ts of
                    None \<Rightarrow> Inl Crash
                  | Some d \<Rightarrow>
                      let r = \<lparr>r_streams = rng_init, r_tds = loaded_tdefs d (o_tds st), r_out = outs_init (printf (o_out st) wo),
                            r_err = o_err st @ (if g_verbose g \<ge> 0 then banner (tpch g) else [])\<rparr>
                      in if updates g \<noteq> 0 then main_updates g pf d r else main_tables g pf d r))"

end
