(* ===== verification/Dist_Sections.thy ===== *)
theory Dist_Sections
  imports Ssb_Env
begin

text \<open>
  A distribution file as a whole: a sequence of sections.  \<open>load_dists\<close> reads the file once for each
  name and finds every section behind the others.
\<close>

definition section_lines :: "string \<Rightarrow> (string \<times> int) list \<Rightarrow> string list" where
  "section_lines name es = (''BEGIN '' @ name) # (''COUNT|'' @ fmt_d (int (length es))) #
     map (\<lambda>e. fst e @ CHR ''|'' # fmt_d (snd e)) es @ [''END '' @ name]"

definition file_text :: "(string \<times> (string \<times> int) list) list \<Rightarrow> string" where
  "file_text secs = concat (map (\<lambda>(n, es). section_text n (int (length es)) es) secs)"

text \<open>A line whose first word is not \<open>BEGIN\<close> is passed over in the search for any section.\<close>

definition neutral :: "string \<Rightarrow> bool" where
  "neutral l \<longleftrightarrow> (case strtok l of (None, _) \<Rightarrow> False | (Some w, _) \<Rightarrow> dsscasecmp w ''BEGIN'' \<noteq> 0)"

definition neutral_entry :: "string \<times> int \<Rightarrow> bool" where
  "neutral_entry e \<longleftrightarrow> neutral (fst e @ CHR ''|'' # fmt_d (snd e))"

definition section_ok :: "string \<times> (string \<times> int) list \<Rightarrow> bool" where
  "section_ok s \<longleftrightarrow> name_ok (fst s) \<and> list_all entry_ok (snd s) \<and> fits 0 (snd s) \<and> length (snd s) < 2 ^ 31 \<and>
     list_all neutral_entry (snd s)"

lemma section_text_lines: "section_text n (int (length es)) es = concat (map (\<lambda>l. l @ [CHR 0x0A]) (section_lines n es))"
  by (simp add: section_text_def section_lines_def entry_text_def [abs_def] comp_def)

lemma neutral_starts: "neutral l \<Longrightarrow> section_starts name l = Inr False"
  by (auto simp: neutral_def section_starts_def split: prod.splits option.splits)

lemma begin_other:
  assumes "name_ok n" "name_ok m" "map tolower n \<noteq> map tolower m"
  shows "section_starts m (''BEGIN '' @ n) = Inr False"
proof -
  have n: "n \<noteq> []" "plain n" "\<forall>c \<in> set n. \<not> delim c" using assms(1) by (simp_all add: name_ok_def)
  have "strtok (''BEGIN'' @ CHR '' '' # n) = (Some ''BEGIN'', n)"
    by (rule strtok_word(1)) (simp_all add: delim_def)
  moreover have "strtok n = (Some n, [])" using strtok_word(2) [OF n(1,3), of "CHR '' ''"] by (simp add: delim_def)
  moreover have "dsscasecmp ''BEGIN'' ''BEGIN'' = 0" by (rule casecmp_refl) (simp add: nul_free_def)
  moreover have "dsscasecmp n m \<noteq> 0"
    using assms by (subst dsscasecmp_zero_iff) (simp_all add: name_ok_def plain_nul_free)
  ultimately show ?thesis by (simp add: section_starts_def del: dsscasecmp.simps)
qed

lemma skippedI: "plain l \<Longrightarrow> length l < 255 \<Longrightarrow> section_starts m l = Inr False \<Longrightarrow> skipped m l"
  by (simp add: skipped_def text_line_def cut_plain plain_line)

lemma section_skipped:
  assumes "section_ok (n, es)" "name_ok m" "map tolower n \<noteq> map tolower m"
  shows "list_all (skipped m) (section_lines n es)"
proof -
  have n: "name_ok n" "plain n" "length n \<le> 200" using assms(1) by (simp_all add: section_ok_def name_ok_def)
  have "skipped m (''BEGIN '' @ n)"
    using n by (intro skippedI begin_other assms(2,3)) (simp_all add: plain_def)
  moreover have "skipped m (''COUNT|'' @ fmt_d (int (length es)))"
  proof (rule skippedI)
    show "plain (''COUNT|'' @ fmt_d (int (length es)))" using fmt_d_plain [of "int (length es)"] by (simp add: plain_def)
    show "length (''COUNT|'' @ fmt_d (int (length es))) < 255"
      using length_fmt_int [of "int (length es)"] assms(1) by (simp add: section_ok_def)
    have "dsscasecmp (CHR ''C'' # w) ''BEGIN'' \<noteq> 0" for w by (simp add: tolower_def)
    then show "section_starts m (''COUNT|'' @ fmt_d (int (length es))) = Inr False"
      by (intro neutral_starts) (simp add: neutral_def strtok_def delim_def del: dsscasecmp.simps)
  qed
  moreover have "skipped m (''END '' @ n)"
  proof (rule skippedI)
    show "plain (''END '' @ n)" "length (''END '' @ n) < 255" using n by (simp_all add: plain_def)
    show "section_starts m (''END '' @ n) = Inr False"
      by (rule neutral_starts) (simp add: neutral_def strtok_def delim_def tolower_def)
  qed
  moreover have "skipped m (fst e @ CHR ''|'' # fmt_d (snd e))" if "e \<in> set es" for e
  proof -
    have e: "entry_ok e" "neutral_entry e" using assms(1) that by (auto simp: section_ok_def list_all_iff)
    then show ?thesis
      using length_fmt_int [of "snd e"] fmt_d_plain [of "snd e"]
      by (intro skippedI neutral_starts) (simp_all add: entry_ok_def neutral_entry_def plain_def)
  qed
  ultimately show ?thesis by (auto simp: section_lines_def list_all_iff)
qed

text \<open>Every section of the file is read, wherever it stands.\<close>

lemma read_sections:
  assumes "list_all section_ok secs" "distinct (map (map tolower \<circ> fst) secs)" "(n, es) \<in> set secs" "files p = Some (file_text secs)"
  shows "read_dist getenv files (Some p) path n target_init = Inr (filled (int (length es)) es)"
proof -
  obtain pre post where secs: "secs = pre @ (n, es) # post" using split_list [OF assms(3)] by blast
  have ok: "section_ok (n, es)" "list_all section_ok pre" using assms(1) by (simp_all add: secs)
  let ?ls = "concat (map (\<lambda>(n, es). section_lines n es) pre)"
  have "list_all (skipped n) (section_lines m fs)" if "(m, fs) \<in> set pre" for m fs
  proof (rule section_skipped)
    show "section_ok (m, fs)" "name_ok n" using that ok by (auto simp: list_all_iff section_ok_def)
    have "map tolower m \<in> (\<lambda>x. map tolower (fst x)) ` set pre" using that by force
    moreover have "map tolower n \<notin> (\<lambda>x. map tolower (fst x)) ` set pre" using assms(2) by (simp add: secs comp_def)
    ultimately show "map tolower m \<noteq> map tolower n" by metis
  qed
  then have skip: "list_all (skipped n) ?ls" by (auto simp: list_all_iff)
  have "concat (map (\<lambda>(n, es). section_text n (int (length es)) es) pre) = concat (map (\<lambda>l. l @ [CHR 0x0A]) ?ls)"
    by (induction pre) (auto simp: section_text_lines)
  then have "files p = Some (concat (map (\<lambda>l. l @ [CHR 0x0A]) ?ls) @ section_text n (int (length es)) es @ file_text post)"
    using assms(4) by (simp add: secs file_text_def)
  then show ?thesis
    using read_file [OF _ skip, of es "int (length es)"] ok(1) by (simp add: section_ok_def)
qed

lemma load_sections:
  assumes "list_all section_ok secs" "distinct (map (map tolower \<circ> fst) secs)" "files p = Some (file_text secs)"
  shows "set ns \<subseteq> fst ` set secs \<Longrightarrow> \<exists>ts. load_all getenv files (Some p) ns = Inr ts \<and> map fst ts = ns \<and>
    (\<forall>(n, t) \<in> set ts. \<exists>es. (n, es) \<in> set secs \<and> dist_of t = Some (entries_dist es))"
proof (induction ns)
  case (Cons n ns)
  then obtain es ts where "(n, es) \<in> set secs" "load_all getenv files (Some p) ns = Inr ts" "map fst ts = ns"
    "\<forall>(n, t) \<in> set ts. \<exists>es. (n, es) \<in> set secs \<and> dist_of t = Some (entries_dist es)" by auto
  then show ?case
    using read_sections [where files = files and p = p, OF assms(1,2) _ assms(3)] by (auto simp: dist_of_filled entries_dist_def)
qed simp

subsection \<open>The shipped sections\<close>

text \<open>The sections the star schema uses as they are shipped, and the others without entries.\<close>

definition star_sections :: "(string \<times> (string \<times> int) list) list" where
  "star_sections = [(''p_cntr'', p_cntr_entries), (''colors'', colors_entries), (''p_types'', p_types_entries),
     (''nations'', nations_entries), (''regions'', regions_entries), (''o_oprio'', o_oprio_entries),
     (''smode'', smode_entries), (''msegmnt'', msegmnt_entries)]"

definition other_sections :: "(string \<times> (string \<times> int) list) list" where
  "other_sections = map (\<lambda>n. (n, [])) [''instruct'', ''category'', ''rflag'', ''nouns'', ''verbs'', ''adjectives'', ''adverbs'',
     ''auxillaries'', ''terminators'', ''articles'', ''prepositions'', ''grammar'', ''np'', ''vp'']"

text \<open>Most entries are seen to be neutral by their first letter.\<close>

definition quick_neutral :: "string \<times> int \<Rightarrow> bool" where
  "quick_neutral e = (case fst e of [] \<Rightarrow> False
     | c # _ \<Rightarrow> if c \<in> {CHR ''b'', CHR ''B'', CHR '' '', CHR 0x09, CHR 0x0A} then neutral_entry e else True)"

lemma quick_neutral: "quick_neutral e \<Longrightarrow> neutral_entry e"
proof (cases "fst e")
  case (Cons c r)
  assume q: "quick_neutral e"
  show ?thesis
  proof (cases "c \<in> {CHR ''b'', CHR ''B'', CHR '' '', CHR 0x09, CHR 0x0A}")
    case False
    then have "\<not> delim c" by (auto simp: delim_def)
    moreover have "tolower c \<noteq> tolower CHR ''B''"
      using False by (cases c) (auto simp: tolower_def char_of_def)
    ultimately show ?thesis
      using Cons by (auto simp: neutral_entry_def neutral_def strtok_def tolower_def)
  qed (use q Cons in \<open>auto simp: quick_neutral_def\<close>)
qed (simp add: quick_neutral_def)

lemma star_quick: "list_all (\<lambda>(n, es). list_all quick_neutral es \<and> fits 0 es \<and> length es < 200) star_sections"
  by code_simp

lemma star_neutral: "list_all (\<lambda>(n, es). list_all neutral_entry es \<and> fits 0 es \<and> length es < 200) star_sections"
  using star_quick by (auto simp: list_all_iff quick_neutral)

lemma shipped_names: "list_all (name_ok \<circ> fst) (star_sections @ other_sections)"
  by code_simp

lemma shipped_distinct: "distinct (map (map tolower \<circ> fst) (star_sections @ other_sections))"
  by code_simp

lemma shipped_covers: "set dist_names \<subseteq> fst ` set (star_sections @ other_sections)"
  by code_simp

lemma shipped_ok: "list_all section_ok (star_sections @ other_sections)"
proof -
  have "list_all section_ok star_sections"
    using star_neutral shipped_names sections_ok by (auto simp: star_sections_def section_ok_def)
  moreover have "list_all section_ok other_sections"
    using shipped_names by (auto simp: other_sections_def section_ok_def fits_def)
  ultimately show ?thesis by simp
qed

lemma load_dists_file:
  assumes "list_all section_ok secs" "distinct (map (map tolower \<circ> fst) secs)" "set dist_names \<subseteq> fst ` set secs"
    and "files p = Some (file_text secs)"
  shows "\<exists>ts. load_dists getenv files (Some p) = Inr ts \<and> map fst ts = dist_names \<and>
    (\<forall>(n, t) \<in> set ts. \<exists>es. (n, es) \<in> set secs \<and> dist_of t = Some (entries_dist es))"
  unfolding load_dists_def by (rule load_sections [where files = files and p = p, OF assms(1,2,4,3)])

text \<open>
  C19: \<open>load_dists\<close> reads a file that holds a section for each of its 22 names, in any order and among
  other sections: every name gets exactly the entries of its section.
\<close>

theorem load_dists_sections:
  assumes "list_all section_ok secs" "distinct (map (map tolower \<circ> fst) secs)" "set dist_names \<subseteq> fst ` set secs"
    and "files p = Some (file_text secs)"
  shows "\<exists>ts. load_dists getenv files (Some p) = Inr ts \<and> map fst ts = dist_names \<and>
    (\<forall>(n, t) \<in> set ts. \<exists>es. (n, es) \<in> set secs \<and> dist_of t = Some (entries_dist es))"
  by (rule load_dists_file [where files = files and p = p, OF assms])

theorem load_dists_sections_witness:
  "\<exists>ts. load_dists (\<lambda>_. None) [''./dists.dss'' \<mapsto> file_text (star_sections @ other_sections)] (Some ''./dists.dss'') = Inr ts \<and>
    map fst ts = dist_names \<and>
    (\<forall>(n, t) \<in> set ts. \<exists>es. (n, es) \<in> set (star_sections @ other_sections) \<and> dist_of t = Some (entries_dist es))"
  by (rule load_dists_sections [OF shipped_ok shipped_distinct shipped_covers]) simp

end
