(* ===== verification/Runs.thy ===== *)
theory Runs
  imports Driver Dist_Sections
begin

text \<open>
  Runs of the driver: the loop of \<open>gen_tbl\<close> as the row generators of \<open>Tables\<close> followed by the
  printing of \<open>Output\<close>, the file a table ends up in, the division of a table among processes, and
  references between the tables.
\<close>

subsection \<open>The row loop\<close>

text \<open>Nothing but the rows is written: no life noise, no seeds, no checksums, no segments.\<close>

definition quiet :: "globals \<Rightarrow> bool" where
  "quiet g \<longleftrightarrow> g_verbose g \<le> 0 \<and> \<not> g_set_seeds g \<and> \<not> g_validate g \<and> g_direct g = 0 \<and> insert_segments g = 0"

lemma quiet_steps:
  assumes "quiet g"
  shows "say g x r = r" "show_seeds g t i r = Inr r" "next_insert g rps residual su = su"
    "emit_row g pf upd w r = map_sum id (\<lambda>os. r\<lparr>r_out := os\<rparr>) (print_row (config.truncate g) (r_tds r) upd w (r_out r))"
  using assms by (simp_all add: quiet_def say_def show_seeds_def next_insert_def emit_row_def split: prod.split)

lemma gen_row_quiet:
  assumes "quiet g" "mk_row (builder_env g d (r_tds r)) pf t upd i (row_start t (r_streams r)) = Some (w, s1)"
    "row_stop False (r_tds r) t s1 = Some s2" "print_row (config.truncate g) (r_tds r) upd w (r_out r) = Inr os"
  shows "gen_row g pf d t seg i (k, upd) r = Inr ((k, upd), r\<lparr>r_out := os, r_streams := s2\<rparr>)"
proof -
  have su: "(if t = LINE then next_insert g (fst seg) (snd seg) (k, upd) else (k, upd)) = (k, upd)"
    by (simp add: quiet_steps(3) [OF assms(1)])
  have seeds: "\<not> g_set_seeds g" using assms(1) by (simp add: quiet_def)
  show ?thesis
    using assms(2-4) by (simp add: gen_row_def quiet_steps(1,2,4) [OF assms(1)] seeds su del: LINE_def)
qed

lemma gen_loop_rows:
  assumes "quiet g"
  shows "gen_rows (mk_row (builder_env g d tds) pf t upd) tds t i n s = Some (ws, s') \<Longrightarrow>
    pr_seq (print_row (config.truncate g) tds upd) ws os = Inr os' \<Longrightarrow> r_tds r = tds \<Longrightarrow> r_streams r = s \<Longrightarrow> r_out r = os \<Longrightarrow>
    gen_loop n g pf d t seg i (k, upd) r = Inr (r\<lparr>r_streams := s', r_out := os'\<rparr>)"
proof (induction n arbitrary: i s ws os r)
  case (Suc n)
  obtain w s1 s2 ws1 where w: "mk_row (builder_env g d tds) pf t upd i (row_start t s) = Some (w, s1)"
    "row_stop False tds t s1 = Some s2" "gen_rows (mk_row (builder_env g d tds) pf t upd) tds t (i + 1) n s2 = Some (ws1, s')"
    "ws = w # ws1" using Suc.prems(1) by (auto split: Option.bind_splits)
  obtain os1 where o: "print_row (config.truncate g) tds upd w os = Inr os1"
    "pr_seq (print_row (config.truncate g) tds upd) ws1 os1 = Inr os'"
    using Suc.prems(2) w(4) by (auto split: sum.splits)
  have "gen_row g pf d t seg i (k, upd) r = Inr ((k, upd), r\<lparr>r_out := os1, r_streams := s2\<rparr>)"
    by (rule gen_row_quiet [OF assms]) (use w(1,2) o(1) Suc.prems(3-5) in simp_all)
  then show ?case using Suc.IH [OF w(3) o(2), of "r\<lparr>r_out := os1, r_streams := s2\<rparr>"] Suc.prems(3) by simp
qed simp

subsection \<open>The tables as rows\<close>

definition star_tables :: "int set" where "star_tables = {PART, SUPP, CUST, LINE, DATE}"

text \<open>A row of table \<open>t\<close> with number \<open>j\<close>.\<close>

definition row_ok :: "benv \<Rightarrow> platform \<Rightarrow> int \<Rightarrow> int \<Rightarrow> int \<Rightarrow> row \<Rightarrow> bool" where
  "row_ok e pf upd t j w = (case w of
      Line_row x \<Rightarrow> t = LINE \<and> order_ok e (upd smod 10000) j x
    | Supp_row x \<Rightarrow> t = SUPP \<and> supp_ok e j x
    | Cust_row x \<Rightarrow> t = CUST \<and> cust_ok e j x
    | Part_row x \<Rightarrow> t = PART \<and> part_ok e j x
    | Date_row x \<Rightarrow> t = DATE \<and> x = mk_date (tzoff pf) j
    | No_row \<Rightarrow> False)"

text \<open>How far the streams move per row.\<close>

definition table_rate :: "int \<Rightarrow> nat \<Rightarrow> nat" where
  "table_rate t = (if t = LINE then line_rate else if t = SUPP then supp_rate else if t = CUST then cust_rate
     else if t = PART then part_rate else (\<lambda>i. row_rate DATE (\<lambda>_. 0) (\<lambda>_. 0) i))"

lemma table_generator_map:
  assumes "table_generator mk tds t rate ok" "\<And>i s. mk' i s = map_option (map_prod C id) (mk i s)"
    and "\<And>i x. ok i x \<Longrightarrow> ok' i (C x)"
  shows "table_generator mk' tds t rate ok'"
proof -
  note advances = row_generator.row_advances [OF table_generator.axioms(1) [OF assms(1)]]
  note okI = table_generator.row_okI [OF assms(1)]
  show ?thesis
  proof (rule table_generatorI)
    show "row_generator mk' tds t rate"
    proof
      fix s i
      assume "rng_inv s"
      then show "\<exists>r s1 s2. mk' i (row_start t s) = Some (r, s1) \<and> row_stop False tds t s1 = Some s2 \<and> advanced rate s s2"
        using advances [of s i] by (auto simp: assms(2))
    qed
    fix s i
    assume "rng_inv s"
    then show "\<exists>r s1. mk' i (row_start t s) = Some (r, s1) \<and> ok' i r"
      using advances [of s i] okI [of s i] assms(3) by (fastforce simp: assms(2))
  qed
qed

lemma date_table:
  assumes "benv_ok e"
  shows "table_generator (\<lambda>i s. Some (mk_date tz i, s)) (be_tdefs e) DATE (table_rate DATE) (\<lambda>i x. x = mk_date tz i)"
proof (rule table_generatorI)
  show "row_generator (\<lambda>i s. Some (mk_date tz i, s)) (be_tdefs e) DATE (table_rate DATE)"
  proof
    fix s :: rng and i
    assume s: "rng_inv s"
    have "\<exists>s2. row_stop False (be_tdefs e) DATE (row_start DATE s) = Some s2 \<and>
        advanced (row_rate DATE (\<lambda>_. 0) (\<lambda>_. 0)) s s2"
      by (rule row_advances_rate [OF s moves_refl]) (use tdefs_child [OF assms, of DATE] in simp_all)
    then show "\<exists>r s1 s2. Some (mk_date tz i, row_start DATE s) = Some (r, s1) \<and> row_stop False (be_tdefs e) DATE s1 = Some s2 \<and>
        advanced (table_rate DATE) s s2"
      by (simp add: table_rate_def)
  qed
qed simp

lemma row_table:
  assumes "benv_ok e" "t \<in> star_tables"
  shows "table_generator (mk_row e pf t upd) (be_tdefs e) t (table_rate t) (row_ok e pf upd t)"
proof -
  consider "t = LINE" | "t = SUPP" | "t = CUST" | "t = PART" | "t = DATE" using assms(2) by (auto simp: star_tables_def)
  then show ?thesis
  proof cases
    case 1
    then show ?thesis
      using table_generator_map [OF order_table [OF assms(1)], of "mk_row e pf LINE upd" Line_row "upd smod 10000" "row_ok e pf upd LINE"]
      by (simp add: mk_row_def row_ok_def table_rate_def)
  next
    case 2
    then show ?thesis
      using table_generator_map [OF supp_table [OF assms(1)], of "mk_row e pf SUPP upd" Supp_row "row_ok e pf upd SUPP"]
      by (simp add: mk_row_def row_ok_def table_rate_def)
  next
    case 3
    then show ?thesis
      using table_generator_map [OF cust_table [OF assms(1)], of "mk_row e pf CUST upd" Cust_row "row_ok e pf upd CUST"]
      by (simp add: mk_row_def row_ok_def table_rate_def)
  next
    case 4
    then show ?thesis
      using table_generator_map [OF part_table [OF assms(1)], of "mk_row e pf PART upd" Part_row "row_ok e pf upd PART"]
      by (simp add: mk_row_def row_ok_def table_rate_def)
  next
    case 5
    then show ?thesis
      using table_generator_map [OF date_table [OF assms(1)], of "mk_row e pf DATE upd" Date_row "tzoff pf" "row_ok e pf upd DATE"]
      by (simp add: mk_row_def row_ok_def)
  qed
qed

subsection \<open>The file of a table\<close>

definition text_of_row :: "bool \<Rightarrow> row \<Rightarrow> string" where
  "text_of_row col w = (case w of
      Line_row x \<Rightarrow> order_text col x | Supp_row x \<Rightarrow> supp_text col x | Cust_row x \<Rightarrow> cust_text col x
    | Part_row x \<Rightarrow> part_text col x | Date_row x \<Rightarrow> date_text col x | No_row \<Rightarrow> [])"

text \<open>The static file pointer of a table, and the number its routine passes to \<open>print_prep\<close>.\<close>

definition table_ptr :: "int \<Rightarrow> int \<Rightarrow> outs \<Rightarrow> handle option" where
  "table_ptr t upd = (if t = LINE then rd_line upd else if t = SUPP then fp_supp else if t = CUST then fp_cust
     else if t = PART then fp_part else fp_date)"

definition table_set :: "int \<Rightarrow> int \<Rightarrow> handle option \<Rightarrow> outs \<Rightarrow> outs" where
  "table_set t upd fp os = (if t = LINE then wr_line upd fp os else if t = SUPP then os\<lparr>fp_supp := fp\<rparr>
     else if t = CUST then os\<lparr>fp_cust := fp\<rparr> else if t = PART then os\<lparr>fp_part := fp\<rparr> else os\<lparr>fp_date := fp\<rparr>)"

definition print_mode :: "int \<Rightarrow> int \<Rightarrow> int" where
  "print_mode t upd = (if t = LINE \<or> t = SUPP then upd else 0)"

interpretation table_file: static_file "table_ptr t upd" "table_set t upd" for t upd
  by unfold_locales (auto simp: table_ptr_def table_set_def line_file.rd_wr line_file.wld_wr line_file.wr_wr)

lemma print_row_static:
  assumes "row_ok e pf upd' t j w"
  shows "print_row cf tds upd w = pr_static cf tds t (print_mode t upd) (table_ptr t upd) (table_set t upd) (text_of_row (columnar cf) w)"
proof (rule ext)
  fix os
  show "print_row cf tds upd w os =
      pr_static cf tds t (print_mode t upd) (table_ptr t upd) (table_set t upd) (text_of_row (columnar cf) w) os"
    using assms
    by (cases w) (simp_all add: row_ok_def print_row_def text_of_row_def table_ptr_def table_set_def [abs_def] print_mode_def
      pr_line_static pr_supp_def pr_cust_def pr_part_def pr_date_def)
qed

lemma pr_seq_cong: "(\<And>r. r \<in> set rs \<Longrightarrow> f r = g r) \<Longrightarrow> pr_seq f rs os = pr_seq g rs os"
  by (induction rs arbitrary: os) (auto split: sum.splits)

lemma gen_tbl_writes:
  assumes "quiet g" "t \<in> star_tables" "benv_ok (builder_env g d (r_tds r))" "rng_inv (r_streams r)" "0 < n"
    and "path = table_path (config.truncate g) (td_name (r_tds r ! nat t))"
    and "can_open (config.truncate g) path (r_out r)" "table_ptr t upd (r_out r) = None"
  shows "\<exists>ws r'. gen_tbl g pf d t i (int n) upd r = Inr r' \<and> length ws = n \<and>
    gen_rows (mk_row (builder_env g d (r_tds r)) pf t upd) (r_tds r) t i n (r_streams r) = Some (ws, r_streams r') \<and>
    (\<forall>k < n. row_ok (builder_env g d (r_tds r)) pf upd t (i + int k) (ws ! k)) \<and>
    file_at path (r_out r') = concat (map (text_of_row (columnar g)) ws) @
      drop (length (concat (map (text_of_row (columnar g)) ws))) (file_at path (r_out r)) \<and>
    advanced (\<lambda>j. n * table_rate t j) (r_streams r) (r_streams r') \<and> r_tds r' = r_tds r"
proof -
  let ?e = "builder_env g d (r_tds r)" and ?cf = "config.truncate g"
  have "be_tdefs ?e = r_tds r" by (simp add: builder_env_def)
  then have T: "table_generator (mk_row ?e pf t upd) (r_tds r) t (table_rate t) (row_ok ?e pf upd t)"
    using row_table [OF assms(3,2)] by simp
  obtain ws s' where ws: "gen_rows (mk_row ?e pf t upd) (r_tds r) t i n (r_streams r) = Some (ws, s')" "length ws = n"
    "\<forall>k < n. row_ok ?e pf upd t (i + int k) (ws ! k)" "advanced (\<lambda>j. n * table_rate t j) (r_streams r) s'"
    using table_generator.gen_rows_ok [OF T assms(4)] by blast
  let ?pr = "\<lambda>w. pr_static ?cf (r_tds r) t (print_mode t upd) (table_ptr t upd) (table_set t upd) (text_of_row (columnar ?cf) w)"
  have "\<exists>j. row_ok ?e pf upd t j w" if "w \<in> set ws" for w using ws(2,3) that by (auto simp: in_set_conv_nth)
  then have same: "pr_seq (print_row ?cf (r_tds r) upd) ws os = pr_seq ?pr ws os" for os
    by (intro pr_seq_cong) (meson print_row_static)
  have "ws \<noteq> []" using ws(2) assms(5) by auto
  then obtain os' where os': "pr_seq (print_row ?cf (r_tds r) upd) ws (r_out r) = Inr os'"
    "file_at path os' = concat (map (text_of_row (columnar ?cf)) ws) @
      drop (length (concat (map (text_of_row (columnar ?cf)) ws))) (file_at path (r_out r))"
    using static_text [OF table_file.static_file_axioms assms(8) assms(7) [unfolded assms(6)], of ws "print_mode t upd"
      "text_of_row (columnar ?cf)"] same assms(6) by auto
  have "gen_tbl g pf d t i (int n) upd r = Inr (r\<lparr>r_streams := s', r_out := os'\<rparr>)"
    using gen_loop_rows [OF assms(1) ws(1) os'(1) refl refl refl] by (simp add: gen_tbl_def)
  then show ?thesis using ws os'(2) by (auto simp: config.truncate_def)
qed

text \<open>
  C7: what \<open>gen_tbl\<close> leaves behind.  For each of the five tables, with nothing but rows to write and the table's file
  not yet open, it returns; the table's file then holds the texts of \<open>n\<close> well-formed rows with the numbers from \<open>i\<close> on, in
  order (and behind them what an older, longer file held there), and each stream has moved by \<open>n\<close> times its rate.
\<close>

theorem gen_tbl_file:
  assumes "quiet g" "t \<in> star_tables" "benv_ok (builder_env g d (r_tds r))" "rng_inv (r_streams r)" "0 < n"
    and "path = table_path (config.truncate g) (td_name (r_tds r ! nat t))"
    and "can_open (config.truncate g) path (r_out r)" "table_ptr t upd (r_out r) = None"
  shows "\<exists>ws r'. gen_tbl g pf d t i (int n) upd r = Inr r' \<and> length ws = n \<and>
    gen_rows (mk_row (builder_env g d (r_tds r)) pf t upd) (r_tds r) t i n (r_streams r) = Some (ws, r_streams r') \<and>
    (\<forall>k < n. row_ok (builder_env g d (r_tds r)) pf upd t (i + int k) (ws ! k)) \<and>
    file_at path (r_out r') = concat (map (text_of_row (columnar g)) ws) @
      drop (length (concat (map (text_of_row (columnar g)) ws))) (file_at path (r_out r)) \<and>
    advanced (\<lambda>j. n * table_rate t j) (r_streams r) (r_streams r') \<and> r_tds r' = r_tds r"
  by (rule gen_tbl_writes [OF assms])

text \<open>A run at scale 1 for the examples: the shipped configuration and an empty directory.\<close>

definition empty_world :: world where
  "empty_world = \<lparr>nodes = (\<lambda>_. None), denied = (\<lambda>_. False), statfails = (\<lambda>_. False), stdin = [], stdout = []\<rparr>"

definition demo_globals :: globals where "demo_globals = main_globals (\<lambda>_. None) False"

definition demo_run :: run where
  "demo_run = \<lparr>r_streams = rng_init, r_tds = main_tdefs ssb_tdefs, r_out = outs_init empty_world, r_err = []\<rparr>"

definition demo_platform :: platform where
  "demo_platform = \<lparr>tzoff = (\<lambda>_. 0), pid = 42, junk_nation = 0, junk_region = 0, junk_skip = 0\<rparr>"

lemma main_tdefs_ok: "tdefs_ok (main_tdefs ssb_tdefs)"
  by (simp add: tdefs_ok_def main_tdefs_def ssb_tdefs_def mk_tdef_def Let_def)

lemma builder_env_ok:
  assumes "dists_ok d" "tdefs_ok tds" "1 \<le> g_scale g" "g_scale g \<le> 1000"
  shows "benv_ok (builder_env g d tds)"
proof -
  have "length (the mk_ascdate) = 2557" unfolding mk_ascdate_calendar by (simp del: upt_rec_numeral)
  then show ?thesis using assms by (simp add: benv_ok_def builder_env_def)
qed

lemma demo_quiet: "quiet demo_globals"
  by (simp add: quiet_def demo_globals_def main_globals_def)

lemma demo_env_ok: "benv_ok (builder_env demo_globals ssb_dists (r_tds demo_run))"
  by (rule builder_env_ok [OF ssb_dists_ok]) (simp_all add: demo_run_def main_tdefs_ok demo_globals_def main_globals_def)

theorem gen_tbl_file_witness:
  "\<exists>ws r'. gen_tbl demo_globals demo_platform ssb_dists LINE 1 (int 5) 0 demo_run = Inr r' \<and> length ws = 5 \<and>
    file_at ''./lineorder.tbl'' (r_out r') = concat (map (text_of_row False) ws)"
proof -
  have p: "''./lineorder.tbl'' = table_path (config.truncate demo_globals) (td_name (r_tds demo_run ! nat LINE))"
    by (simp add: table_path_def demo_run_def main_tdefs_def ssb_tdefs_def mk_tdef_def env_config_def demo_globals_def
      main_globals_def config.truncate_def)
  have o: "can_open (config.truncate demo_globals) ''./lineorder.tbl'' (r_out demo_run)" "table_ptr LINE 0 (r_out demo_run) = None"
    by (simp_all add: can_open_def demo_globals_def main_globals_def config.truncate_def demo_run_def outs_init_def empty_world_def
      table_ptr_def rd_line_def)
  have s: "rng_inv (r_streams demo_run)" by (simp add: demo_run_def rng_init_inv)
  have c: "columnar demo_globals = False" "file_at ''./lineorder.tbl'' (r_out demo_run) = []"
    by (simp_all add: demo_globals_def main_globals_def file_at_def demo_run_def outs_init_def empty_world_def)
  have "LINE \<in> star_tables" by (simp add: star_tables_def)
  from gen_tbl_file [where n = 5 and i = 1 and pf = demo_platform, OF demo_quiet this demo_env_ok s _ p o] c show ?thesis by auto
qed

subsection \<open>\<open>main\<close> on a command line that selects a table\<close>

lemma digit_lower: "is_digit c \<Longrightarrow> lower c = c"
  by (auto simp: lower_def tolower_def is_digit_def)

lemma digit_neq: "is_digit c \<Longrightarrow> \<not> is_digit d \<Longrightarrow> c \<noteq> d"
  by auto

lemma no_digits: "\<not> is_digit CHR ''i''" "\<not> is_digit CHR ''n''" "\<not> is_digit CHR ''x''" "\<not> is_digit CHR ''-''" "\<not> is_digit CHR ''+''"
  by (simp_all add: is_digit_def)

lemma digits_split: "\<forall>c \<in> set s. is_digit c \<Longrightarrow> takeWhile is_digit s = s" "\<forall>c \<in> set s. is_digit c \<Longrightarrow> dropWhile is_digit s = []"
  by (simp_all add: takeWhile_eq_all_conv)

text \<open>\<open>atof\<close> reads a written integer.\<close>

lemma atof_dec:
  assumes "n < 2 ^ 53"
  shows "atof (dec n) = Some (of_nat n)"
proof -
  obtain c r where cr: "dec n = c # r" "is_digit c" by (rule dec_split)
  have ds: "\<forall>c \<in> set (dec n). is_digit c" by (rule dec_digits)
  then have "\<forall>c \<in> set r. is_digit c" using cr by simp
  have low: "map lower (dec n) = dec n" using ds digit_lower by (simp add: map_idI)
  have "\<not> isspace c" using digit_plain [OF cr(2)] by simp
  then have sp: "dropWhile isspace (dec n) = dec n" using cr by simp
  have "c \<notin> {CHR ''i'', CHR ''n'', CHR ''-'', CHR ''+''}" using cr(2) no_digits by auto
  moreover have "take 2 (dec n) \<noteq> ''0x''"
    using \<open>\<forall>c \<in> set r. is_digit c\<close> no_digits cr(1) by (cases r) auto
  moreover have "scan_mantissa is_digit char_digit 10 (dec n) = (n, 0, length (dec n), [])"
    unfolding scan_mantissa_def digits_split [OF ds] Let_def using undec_dec [of n] by (simp add: undec_def)
  moreover have "scan_exponent CHR ''e'' [] = 0" by (simp add: scan_exponent_def)
  moreover have "dround (of_nat n) = of_nat n" using dround_int [of "int n"] assms by simp
  ultimately show ?thesis
    using cr low sp by (auto simp: atof_def Let_def)
qed

definition single_table :: "(string \<Rightarrow> string option) \<Rightarrow> int \<Rightarrow> int \<Rightarrow> globals" where
  "single_table env sc t = (main_globals env False)\<lparr>g_flt_scale := of_int sc, g_scale := sc, g_table := table_bit t\<rparr>"

definition letter_of :: "int \<Rightarrow> char" where
  "letter_of t = (if t = PART then CHR ''p'' else if t = SUPP then CHR ''s'' else if t = CUST then CHR ''c''
     else if t = LINE then CHR ''l'' else CHR ''d'')"

lemma process_single:
  assumes "t \<in> star_tables" "1 \<le> sc" "sc \<le> 1000"
  shows "process_options [''-s'', fmt_d sc, ''-T'', [letter_of t]]
      \<lparr>o_g = main_globals env False, o_tds = tds, o_out = [], o_err = []\<rparr> =
    Inr \<lparr>o_g = single_table env sc t, o_tds = tds, o_out = [], o_err = []\<rparr>"
proof -
  let ?st = "\<lparr>o_g = main_globals env False, o_tds = tds, o_out = [], o_err = []\<rparr>"
  let ?its = "[Arg CHR ''s'' (fmt_d sc), Arg CHR ''T'' [letter_of t]]"
  have f: "fmt_d sc = dec (nat sc)" using assms(2) by (simp add: fmt_d_def)
  have "length (fmt_d sc) < BUFSIZ" using length_fmt_int [of sc] assms(2,3) by (simp add: BUFSIZ_def)
  moreover have "CHR 0x00 \<notin> set (fmt_d sc)" using dec_digits [of "nat sc"] by (auto simp: f is_digit_def)
  ultimately have ok: "list_all (item_ok OPTIONS) ?its"
    by (auto simp: OPTIONS_def BUFSIZ_def letter_of_def)
  have "atof (fmt_d sc) = Some (of_int sc)" using atof_dec [of "nat sc"] assms(2,3) by (simp add: f)
  moreover have "\<not> (of_int sc :: rat) < 1" "\<not> 2 ^ 63 \<le> (of_int sc :: rat)" "long_of_d (of_int sc) = sc"
    using assms(2,3) by (simp_all add: long_of_d_def)
  ultimately have "apply_items ?its ?st = Inr \<lparr>o_g = single_table env sc t, o_tds = tds, o_out = [], o_err = []\<rparr>"
    using assms by (auto simp: apply_option_def opt_scale_def opt_table_def letter_of_def set_g_def single_table_def star_tables_def Let_def
      main_globals_def)
  then show ?thesis
    using options_items [OF ok, of "[]" ?st] by (simp add: process_options_def options_end single_table_def main_globals_def)
qed

lemma gen_all_single:
  "g_table g = table_bit t \<Longrightarrow> 0 \<le> t \<Longrightarrow> list_all ((\<le>) 0) is \<Longrightarrow> distinct is \<Longrightarrow>
   gen_all g pf d is r = (if t \<in> set is then gen_one g pf d t r else Inr r)"
proof (induction "is" arbitrary: r)
  case (Cons i "is")
  have "bit (table_bit t) (nat i) \<longleftrightarrow> i = t"
    using Cons.prems(2,3) by (auto simp: table_bit_def bit_exp_iff)
  then have b: "bit (g_table g) (nat i) \<longleftrightarrow> i = t" using Cons.prems(1) by simp
  note IH = Cons.IH [OF Cons.prems(1,2)]
  show ?case
  proof (cases "i = t")
    case True
    then have "gen_all g pf d is r' = Inr r'" for r' using IH [of r'] Cons.prems(3,4) by simp
    then show ?thesis using True by (simp split: sum.split)
  next
    case False
    then have "gen_one g pf d i r = Inr r" using b by (simp add: gen_one_def)
    then show ?thesis using False IH [of r] Cons.prems(3,4) by simp
  qed
qed simp

definition star_tdefs :: "dists \<Rightarrow> tdef list" where
  "star_tdefs d = loaded_tdefs d (main_tdefs ssb_tdefs)"

lemma star_tdefs_ok: "tdefs_ok (star_tdefs d)"
  using main_tdefs_ok by (simp add: star_tdefs_def loaded_tdefs_def tdefs_ok_def)

lemma star_bases:
  "td_base (star_tdefs d ! nat PART) = 200000" "td_base (star_tdefs d ! nat SUPP) = 2000" "td_base (star_tdefs d ! nat CUST) = 30000"
  "td_base (star_tdefs d ! nat DATE) = 2556" "td_base (star_tdefs d ! nat LINE) = 1500000"
  by (simp_all add: star_tdefs_def loaded_tdefs_def main_tdefs_def ssb_tdefs_def mk_tdef_def Let_def)

text \<open>
  A list with as many rows as the table has, the \<open>k\<close>-th of them well-formed as row \<open>k\<close>: what is to hold of the rows of
  a whole table.
\<close>

definition whole_table :: "globals \<Rightarrow> dists \<Rightarrow> platform \<Rightarrow> int \<Rightarrow> row list \<Rightarrow> bool" where
  "whole_table g d pf t ws \<longleftrightarrow> int (length ws) = table_rows g (star_tdefs d) t \<and>
     (\<forall>k < length ws. row_ok (builder_env g d (star_tdefs d)) pf 0 t (1 + int k) (ws ! k))"

text \<open>
  The rows that one process builds for the whole table: the loop of \<open>gen_tbl\<close> over the table's own \<open>mk_*\<close> routine, from
  row 1 to the last one, with the streams at \<open>s\<close>.
\<close>

definition table_built :: "globals \<Rightarrow> dists \<Rightarrow> platform \<Rightarrow> int \<Rightarrow> rng \<Rightarrow> row list \<Rightarrow> bool" where
  "table_built g d pf t s ws \<longleftrightarrow>
     map_option fst (gen_rows (mk_row (builder_env g d (star_tdefs d)) pf t 0) (star_tdefs d) t 1
       (nat (table_rows g (star_tdefs d) t)) s) = Some ws"

lemma single_quiet: "quiet (single_table env sc t)"
  by (simp add: quiet_def single_table_def main_globals_def)

lemma table_rows_star:
  assumes "g_scale g = sc"
  shows "table_rows g (star_tdefs d) PART = 200000 * bitlen sc" "table_rows g (star_tdefs d) SUPP = 2000 * sc"
    "table_rows g (star_tdefs d) CUST = 30000 * sc" "table_rows g (star_tdefs d) LINE = 1500000 * sc"
    "table_rows g (star_tdefs d) DATE = 2556"
  using star_bases [of d] assms by (simp_all add: table_rows_def floor_log2_1_def)

lemma table_rows_pos:
  assumes "t \<in> star_tables" "1 \<le> g_scale g"
  shows "0 < table_rows g (star_tdefs d) t"
proof -
  have "0 < bitlen (g_scale g)" using assms(2) bitlen_nonneg [of "g_scale g"] bitlen_eq_zero_iff [of "g_scale g"] by linarith
  then show ?thesis using assms table_rows_star [of g "g_scale g" d] by (auto simp: star_tables_def simp del: PART_def SUPP_def CUST_def LINE_def DATE_def)
qed

text \<open>
  C1: \<open>dbgen -s n -T letter\<close>, end to end.  When the distributions can be read and the table's file does not exist yet and
  may be written, \<open>main\<close> returns, and the file holds exactly the texts of the table's rows in order: the rows that the
  table's builder makes from the initial streams, the documented number of them, each well-formed.
\<close>

theorem main_builds_table:
  assumes "load_dists env (world_files wo) None = Inr ts" "used_dists ts = Some d" "dists_ok d"
    and "t \<in> star_tables" "1 \<le> sc" "sc \<le> 1000"
    and "path = table_path (config.truncate (main_globals env False)) (td_name (star_tdefs d ! nat t))" "length path < 256"
    and "nodes wo path = None" "\<not> denied wo path" "\<not> statfails wo path"
  shows "\<exists>ws r. main env False pf [''-s'', fmt_d sc, ''-T'', [letter_of t]] wo = Inr r \<and>
    table_built (single_table env sc t) d pf t rng_init ws \<and>
    whole_table (single_table env sc t) d pf t ws \<and>
    file_at path (r_out r) = concat (map (text_of_row False) ws)"
proof -
  let ?g = "single_table env sc t" and ?n = "nat (table_rows (single_table env sc t) (star_tdefs d) t)"
  define r where "r = \<lparr>r_streams = rng_init, r_tds = star_tdefs d, r_out = outs_init wo, r_err = banner False\<rparr>"
  have sc: "g_scale ?g = sc" by (simp add: single_table_def)
  have n: "0 < ?n" "int ?n = table_rows ?g (star_tdefs d) t"
    using table_rows_pos [OF assms(4), of ?g d] assms(5) sc by simp_all
  have e: "benv_ok (builder_env ?g d (r_tds r))"
    using builder_env_ok [OF assms(3) star_tdefs_ok] assms(5,6) sc by (simp add: r_def)
  have cf: "config.truncate ?g = config.truncate (main_globals env False)"
    by (simp add: single_table_def config.truncate_def)
  have o: "can_open (config.truncate ?g) path (r_out r)" "table_ptr t 0 (r_out r) = None" "file_at path (r_out r) = []"
    using assms(8-11) by (simp_all add: can_open_def single_table_def main_globals_def config.truncate_def r_def outs_init_def table_ptr_def rd_line_def file_at_def)
  have p: "path = table_path (config.truncate ?g) (td_name (r_tds r ! nat t))" using assms(7) by (simp add: cf r_def)
  have s: "rng_inv (r_streams r)" by (simp add: r_def rng_init_inv)
  obtain ws r' where ws: "gen_tbl ?g pf d t 1 (int ?n) 0 r = Inr r'" "length ws = ?n"
    "gen_rows (mk_row (builder_env ?g d (r_tds r)) pf t 0) (r_tds r) t 1 ?n (r_streams r) = Some (ws, r_streams r')"
    "\<forall>k < ?n. row_ok (builder_env ?g d (r_tds r)) pf 0 t (1 + int k) (ws ! k)"
    "file_at path (r_out r') = concat (map (text_of_row (columnar ?g)) ws)"
    using gen_tbl_writes [where i = 1 and pf = pf, OF single_quiet assms(4) e s n(1) p o(1,2)] o(3) by auto
  have "gen_all ?g pf d [PART..REGION] r = gen_one ?g pf d t r"
    using assms(4) by (subst gen_all_single) (auto simp: single_table_def star_tables_def list_all_iff)
  also have "\<dots> = Inr r'"
    using ws(1) n(2) quiet_steps(1) [OF single_quiet] assms(4)
    by (simp add: gen_one_def single_table_def main_globals_def table_bit_def bit_exp_iff r_def)
  finally have "main_tables ?g pf d r = Inr r'"
    by (simp add: main_tables_def single_table_def main_globals_def)
  then have "main env False pf [''-s'', fmt_d sc, ''-T'', [letter_of t]] wo = Inr r'"
    using process_single [OF assms(4-6), of env "main_tdefs ssb_tdefs"] assms(1,2)
    by (simp add: main_def single_table_def main_globals_def star_tdefs_def r_def printf_def)
  moreover have "columnar ?g = False" by (simp add: single_table_def main_globals_def)
  ultimately show ?thesis
    using ws n by (intro exI [of _ ws] exI [of _ r']) (simp add: r_def whole_table_def table_built_def)
qed

text \<open>A directory with the distributions only.\<close>

definition shipped_world :: world where
  "shipped_world = empty_world\<lparr>nodes := [''./dists.dss'' \<mapsto> Regular (file_text (star_sections @ other_sections))]\<rparr>"

lemma shipped_load:
  "\<exists>ts. load_dists (\<lambda>_. None) (world_files shipped_world) None = Inr ts \<and> used_dists ts = Some ssb_dists"
proof -
  let ?secs = "star_sections @ other_sections" and ?fs = "world_files shipped_world"
  have "?fs ''./dists.dss'' = Some (file_text ?secs)" by (simp add: world_files_def shipped_world_def)
  from load_dists_file [where getenv = "\<lambda>_. None" and files = ?fs and p = "''./dists.dss''", OF shipped_ok shipped_distinct shipped_covers this]
  obtain ts where ts: "load_dists (\<lambda>_. None) ?fs (Some ''./dists.dss'') = Inr ts" "map fst ts = dist_names"
    "\<forall>(n, t) \<in> set ts. \<exists>es. (n, es) \<in> set ?secs \<and> dist_of t = Some (entries_dist es)" by blast
  have "load_all (\<lambda>_. None) ?fs None ns = load_all (\<lambda>_. None) ?fs (Some ''./dists.dss'') ns" for ns
    by (induction ns) (simp_all add: read_dist_def env_config_def split: sum.split)
  then have load: "load_dists (\<lambda>_. None) ?fs None = Inr ts" using ts(1) by (simp add: load_dists_def)
  have dist: "distinct (map fst ?secs)"
    using shipped_distinct by (metis distinct_map map_map)
  have get: "Option.bind (map_of ts n) dist_of = Some (entries_dist es)" if m: "(n, es) \<in> set ?secs" "n \<in> set dist_names" for n es
  proof -
    obtain t where t: "map_of ts n = Some t"
      using m(2) ts(2) by (metis domD dom_map_of_conv_image_fst list.set_map)
    then obtain es' where "(n, es') \<in> set ?secs" "dist_of t = Some (entries_dist es')" using ts(3) map_of_SomeD by fastforce
    then show ?thesis using t m(1) eq_key_imp_eq_value [OF dist] by fastforce
  qed
  have "(''nations'', nations_entries) \<in> set ?secs" "(''regions'', regions_entries) \<in> set ?secs" "(''o_oprio'', o_oprio_entries) \<in> set ?secs"
    "(''smode'', smode_entries) \<in> set ?secs" "(''msegmnt'', msegmnt_entries) \<in> set ?secs" "(''colors'', colors_entries) \<in> set ?secs"
    "(''p_types'', p_types_entries) \<in> set ?secs" "(''p_cntr'', p_cntr_entries) \<in> set ?secs"
    by (simp_all add: star_sections_def)
  note got = this [THEN get]
  have "used_dists ts = Some ssb_dists"
    unfolding used_dists_def Let_def by (subst got, simp add: dist_names_def)+ (simp add: ssb_dists_def)
  with load show ?thesis by blast
qed

theorem main_builds_table_witness:
  "\<exists>ws r. main (\<lambda>_. None) False demo_platform [''-s'', ''1'', ''-T'', ''l''] shipped_world = Inr r \<and> length ws = 1500000 \<and>
    file_at ''./lineorder.tbl'' (r_out r) = concat (map (text_of_row False) ws)"
proof -
  obtain ts where ts: "load_dists (\<lambda>_. None) (world_files shipped_world) None = Inr ts" "used_dists ts = Some ssb_dists"
    using shipped_load by blast
  have p: "''./lineorder.tbl'' = table_path (config.truncate (main_globals (\<lambda>_. None) False)) (td_name (star_tdefs ssb_dists ! nat LINE))"
    by (simp add: table_path_def star_tdefs_def loaded_tdefs_def main_tdefs_def ssb_tdefs_def mk_tdef_def env_config_def
      main_globals_def config.truncate_def)
  have w: "nodes shipped_world ''./lineorder.tbl'' = None" "\<not> denied shipped_world ''./lineorder.tbl''"
    "\<not> statfails shipped_world ''./lineorder.tbl''" by (simp_all add: shipped_world_def empty_world_def)
  have t: "LINE \<in> star_tables" by (simp add: star_tables_def)
  have n: "table_rows (single_table (\<lambda>_. None) 1 LINE) (star_tdefs ssb_dists) LINE = 1500000"
    by (subst table_rows_star(4) [of _ 1]) (simp_all add: single_table_def)
  have s: "fmt_d 1 = ''1''" "letter_of LINE = CHR ''l''" by (simp_all add: fmt_d_def dec.simps digit_chars letter_of_def)
  from main_builds_table [where pf = demo_platform, OF ts ssb_dists_ok t _ _ p _ w, of 1] show ?thesis
    unfolding n s whole_table_def by fastforce
qed

subsection \<open>References between the tables\<close>

lemma floor_log_bitlen:
  assumes "1 \<le> sc" "sc \<le> 1000"
  shows "floor_log sc + 1 \<le> bitlen sc"
proof -
  have b: "k < bitlen sc" if "2 ^ nat k \<le> sc" "0 \<le> k" for k
    using that bitlen_le_iff_power [of sc "nat k"] by (simp add: not_le [symmetric])
  have "1 \<le> sc \<longrightarrow> 0 < bitlen sc" "2 \<le> sc \<longrightarrow> 1 < bitlen sc" "8 \<le> sc \<longrightarrow> 3 < bitlen sc" "16 \<le> sc \<longrightarrow> 4 < bitlen sc"
    "32 \<le> sc \<longrightarrow> 5 < bitlen sc" "128 \<le> sc \<longrightarrow> 7 < bitlen sc"
    using b [of 0] b [of 1] b [of 3] b [of 4] b [of 5] b [of 7] by simp_all
  then show ?thesis using assms by (auto simp: floor_log_def)
qed

lemma whole_table_row:
  assumes "whole_table g d pf t ws" "1 \<le> i" "i \<le> table_rows g (star_tdefs d) t"
  obtains w where "w \<in> set ws" "row_ok (builder_env g d (star_tdefs d)) pf 0 t i w"
proof -
  have "nat (i - 1) < length ws" "1 + int (nat (i - 1)) = i" using assms by (auto simp: whole_table_def)
  with assms(1) have "row_ok (builder_env g d (star_tdefs d)) pf 0 t i (ws ! nat (i - 1))" by (auto simp: whole_table_def)
  then show thesis using that [OF nth_mem] \<open>nat (i - 1) < length ws\<close> by blast
qed

lemma date_key_row:
  assumes "whole_table g d pf DATE ws" "tz_ok (tzoff pf)" "x \<in> set (take n (the mk_ascdate))" "n \<le> 2556"
  shows "\<exists>d. Date_row d \<in> set ws \<and> fmt_d (d_datekey d) = x"
proof -
  obtain dates where dates: "mk_ascdate = Some dates" using mk_ascdate_calendar by blast
  then have "x \<in> set (take n dates)" using assms(3) by (metis option.sel)
  then obtain k where k: "k < n" "x = dates ! k" by (auto simp: in_set_conv_nth)
  have i: "int k + 1 \<le> table_rows g (star_tdefs d) DATE" using k(1) assms(4) table_rows_star(5) [of g "g_scale g" d] by simp
  have "1 \<le> int k + 1" by simp
  from whole_table_row [OF assms(1) this i]
  obtain w where w: "w \<in> set ws" "row_ok (builder_env g d (star_tdefs d)) pf 0 DATE (int k + 1) w" by blast
  then have "w = Date_row (mk_date (tzoff pf) (int k + 1))" by - (cases w; simp add: row_ok_def)
  moreover have "dates ! k = fmt_d (d_datekey (mk_date (tzoff pf) (int k + 1)))"
    using k(1) assms(4) date_key_string [OF assms(2) dates, of k] by simp
  ultimately show ?thesis using w(1) k(2) by auto
qed

lemma key_row:
  assumes "whole_table g d pf t ws" "1 \<le> i" "i \<le> table_rows g (star_tdefs d) t"
  shows "t = CUST \<Longrightarrow> \<exists>c. Cust_row c \<in> set ws \<and> c_custkey c = i"
    and "t = SUPP \<Longrightarrow> \<exists>c. Supp_row c \<in> set ws \<and> s_suppkey c = i"
    and "t = PART \<Longrightarrow> \<exists>c. Part_row c \<in> set ws \<and> p_partkey c = i"
proof -
  obtain w where w: "w \<in> set ws" "row_ok (builder_env g d (star_tdefs d)) pf 0 t i w" by (rule whole_table_row [OF assms])
  show "t = CUST \<Longrightarrow> \<exists>c. Cust_row c \<in> set ws \<and> c_custkey c = i"
    using w by - (cases w; fastforce simp: row_ok_def cust_ok_def)
  show "t = SUPP \<Longrightarrow> \<exists>c. Supp_row c \<in> set ws \<and> s_suppkey c = i"
    using w by - (cases w; fastforce simp: row_ok_def supp_ok_def)
  show "t = PART \<Longrightarrow> \<exists>c. Part_row c \<in> set ws \<and> p_partkey c = i"
    using w by - (cases w; fastforce simp: row_ok_def part_ok_def)
qed

lemma row_key_limits:
  assumes "1 \<le> g_scale g" "g_scale g \<le> 1000" "e = builder_env g d (star_tdefs d)"
  shows "O_CKEY_MAX e = table_rows g (star_tdefs d) CUST" "L_SKEY_MAX e = table_rows g (star_tdefs d) SUPP"
    "L_PKEY_MAX e \<le> table_rows g (star_tdefs d) PART"
  using floor_log_bitlen [OF assms(1,2)] table_rows_star [of g "g_scale g" d] star_bases [of d] assms(3)
  by (simp_all add: O_CKEY_MAX_def L_SKEY_MAX_def L_PKEY_MAX_def builder_env_def)

text \<open>From any consistent streams the builders get a table's rows made, and every row of it is well-formed.\<close>

lemma table_built_ok:
  assumes "dists_ok d" "1 \<le> g_scale g" "g_scale g \<le> 1000" "t \<in> star_tables" "rng_inv s"
  shows "\<exists>ws. table_built g d pf t s ws" and "table_built g d pf t s ws \<Longrightarrow> whole_table g d pf t ws"
proof -
  let ?e = "builder_env g d (star_tdefs d)" and ?n = "nat (table_rows g (star_tdefs d) t)"
  have "be_tdefs ?e = star_tdefs d" by (simp add: builder_env_def)
  then have T: "table_generator (mk_row ?e pf t 0) (star_tdefs d) t (table_rate t) (row_ok ?e pf 0 t)"
    using row_table [OF builder_env_ok [OF assms(1) star_tdefs_ok [of d] assms(2,3)] assms(4), where pf = pf and upd = 0] by simp
  obtain us s' where us: "gen_rows (mk_row ?e pf t 0) (star_tdefs d) t 1 ?n s = Some (us, s')" "length us = ?n"
    "\<forall>k < ?n. row_ok ?e pf 0 t (1 + int k) (us ! k)"
    using table_generator.gen_rows_ok [OF T assms(5), of 1 ?n] by blast
  have b: "table_built g d pf t s ws \<longleftrightarrow> ws = us" for ws using us(1) by (auto simp: table_built_def)
  show "\<exists>ws. table_built g d pf t s ws" by (simp add: b)
  show "table_built g d pf t s ws \<Longrightarrow> whole_table g d pf t ws"
    using us(2,3) table_rows_pos [OF assms(4,2), of d] by (simp add: b whole_table_def)
qed

text \<open>
  C9: the fact table refers to the dimension tables of the same scale only.  Let the builders make all rows of the five
  tables at one scale, each table from streams of its own in any consistent state.  Every line of every order then names
  a customer, a part, a supplier, an order date and a commit date that are the keys of rows that the builders of the
  customer, part, supplier and date tables made.
\<close>

theorem references_exist:
  assumes "dists_ok d" "1 \<le> g_scale g" "g_scale g \<le> 1000" "tz_ok (tzoff pf)"
    and "rng_inv s1" "rng_inv s2" "rng_inv s3" "rng_inv s4" "rng_inv s5"
    and "table_built g d pf CUST s1 cs" "table_built g d pf PART s2 ps" "table_built g d pf SUPP s3 ss"
    and "table_built g d pf DATE s4 ds" "table_built g d pf LINE s5 ls"
    and "Line_row ord \<in> set ls" "l \<in> set (o_lineorders ord)"
  shows "(\<exists>c. Cust_row c \<in> set cs \<and> c_custkey c = l_custkey l) \<and>
    (\<exists>p. Part_row p \<in> set ps \<and> p_partkey p = l_partkey l) \<and>
    (\<exists>s. Supp_row s \<in> set ss \<and> s_suppkey s = l_suppkey l) \<and>
    (\<exists>x. Date_row x \<in> set ds \<and> fmt_d (d_datekey x) = l_orderdate l) \<and>
    (\<exists>x. Date_row x \<in> set ds \<and> fmt_d (d_datekey x) = l_commit_date l)"
proof -
  note whole = table_built_ok(2) [where pf = pf, OF assms(1-3)]
  have t: "whole_table g d pf CUST cs" "whole_table g d pf PART ps" "whole_table g d pf SUPP ss"
    "whole_table g d pf DATE ds" "whole_table g d pf LINE ls"
    using whole [OF _ assms(5,10)] whole [OF _ assms(6,11)] whole [OF _ assms(7,12)] whole [OF _ assms(8,13)]
      whole [OF _ assms(9,14)]
    by (simp_all add: star_tables_def)
  let ?e = "builder_env g d (star_tdefs d)"
  obtain k where "k < length ls" "ls ! k = Line_row ord" using assms(15) by (auto simp: in_set_conv_nth)
  then have "row_ok ?e pf 0 LINE (1 + int k) (Line_row ord)" using t(5) by (auto simp: whole_table_def)
  then have "\<exists>u n. order_ok ?e u n ord" by (auto simp: row_ok_def)
  then have ord: "1 \<le> o_custkey ord" "o_custkey ord \<le> O_CKEY_MAX ?e" "o_odate ord \<in> set (take 2406 (asc_date ?e))"
    "line_ok ?e l" "l_custkey l = o_custkey ord" "l_orderdate l = o_odate ord"
    using assms(16) by (auto simp: order_ok_def)
  note line = ord(4) [unfolded line_ok_def]
  have asc: "asc_date ?e = the mk_ascdate" by (simp add: builder_env_def)
  note lim = row_key_limits [OF assms(2,3) refl, of d]
  show ?thesis
    using key_row(1) [OF t(1), of "l_custkey l"] key_row(2) [OF t(3), of "l_suppkey l"] key_row(3) [OF t(2), of "l_partkey l"]
      date_key_row [OF t(4) assms(4), of "l_orderdate l" 2406] date_key_row [OF t(4) assms(4), of "l_commit_date l" 2496] ord line asc lim
    by (simp del: CUST_def SUPP_def PART_def DATE_def)
qed

theorem references_exist_witness:
  "\<exists>cs ps ss ds ls ord l. Line_row ord \<in> set ls \<and> length ls = 1500000 \<and> l \<in> set (o_lineorders ord) \<and>
    (\<exists>c. Cust_row c \<in> set cs \<and> c_custkey c = l_custkey l) \<and>
    (\<exists>p. Part_row p \<in> set ps \<and> p_partkey p = l_partkey l) \<and>
    (\<exists>s. Supp_row s \<in> set ss \<and> s_suppkey s = l_suppkey l) \<and>
    (\<exists>x. Date_row x \<in> set ds \<and> fmt_d (d_datekey x) = l_orderdate l) \<and>
    (\<exists>x. Date_row x \<in> set ds \<and> fmt_d (d_datekey x) = l_commit_date l)"
proof -
  have sc: "g_scale demo_globals = 1" by (simp add: demo_globals_def main_globals_def)
  then have s: "1 \<le> g_scale demo_globals" "g_scale demo_globals \<le> 1000" by simp_all
  have ex: "\<exists>ws. table_built demo_globals ssb_dists demo_platform t rng_init ws" if "t \<in> star_tables" for t
    by (rule table_built_ok(1) [OF ssb_dists_ok s that rng_init_inv])
  obtain cs ps ss ds ls where b: "table_built demo_globals ssb_dists demo_platform CUST rng_init cs"
    "table_built demo_globals ssb_dists demo_platform PART rng_init ps" "table_built demo_globals ssb_dists demo_platform SUPP rng_init ss"
    "table_built demo_globals ssb_dists demo_platform DATE rng_init ds" "table_built demo_globals ssb_dists demo_platform LINE rng_init ls"
    using ex [of CUST] ex [of PART] ex [of SUPP] ex [of DATE] ex [of LINE] by (auto simp: star_tables_def)
  have t: "whole_table demo_globals ssb_dists demo_platform LINE ls"
    by (rule table_built_ok(2) [OF ssb_dists_ok s _ rng_init_inv b(5)]) (simp add: star_tables_def)
  have n: "length ls = 1500000" using t table_rows_star(4) [OF sc] by (simp add: whole_table_def)
  then have "row_ok (builder_env demo_globals ssb_dists (star_tdefs ssb_dists)) demo_platform 0 LINE (1 + int 0) (ls ! 0)"
    using t unfolding whole_table_def by (metis zero_less_numeral)
  then obtain ord u where ord: "ls ! 0 = Line_row ord" "order_ok (builder_env demo_globals ssb_dists (star_tdefs ssb_dists)) u 1 ord"
    by (cases "ls ! 0") (auto simp: row_ok_def)
  then have "o_lineorders ord \<noteq> []" by (auto simp: order_ok_def)
  then have l: "o_lineorders ord ! 0 \<in> set (o_lineorders ord)" by simp
  have r: "Line_row ord \<in> set ls" using ord(1) n nth_mem [of 0 ls] by simp
  have tz: "tz_ok (tzoff demo_platform)" by (simp add: tz_ok_def demo_platform_def)
  note inv = rng_init_inv
  from references_exist [OF ssb_dists_ok s tz inv inv inv inv inv b r l] show ?thesis using r n l by blast
qed

end
