(* ===== verification/Chunks.thy ===== *)
theory Chunks
  imports Runs
begin

text \<open>
  Tables built in parts, by several processes or several runs: how \<open>set_state\<close> divides a table, and the
  file that \<open>partial\<close> builds for one part.
\<close>

subsection \<open>The division of a table\<close>

lemma split_rows_sum:
  assumes "0 \<le> base" "0 < procs" "0 \<le> sf" "split_rows base sf procs = (rows, extra)"
  shows "rows * procs + extra = base * sf" "0 \<le> extra" "extra < procs" "0 \<le> rows"
proof -
  let ?rem = "(base mod procs) * sf"
  have m: "0 \<le> base mod procs" "0 \<le> ?rem" using assms(1-3) by simp_all
  have r: "rows = base div procs * sf + ?rem div procs" and e: "extra = ?rem mod procs"
    using assms m by (auto simp: split_rows_def Let_def smod_nonneg sdiv_nonneg)
  have "rows * procs + extra = (base div procs * procs) * sf + (?rem div procs * procs + ?rem mod procs)"
    by (simp add: r e algebra_simps)
  also have "\<dots> = (base div procs * procs + base mod procs) * sf"
    by (simp only: distrib_right) (simp only: div_mult_mod_eq)
  also have "\<dots> = base * sf" by (simp only: div_mult_mod_eq)
  finally show "rows * procs + extra = base * sf" by simp
  show "0 \<le> extra" "extra < procs" using e assms(2) by simp_all
  show "0 \<le> rows" using r m assms(1-3) by (simp add: pos_imp_zdiv_nonneg_iff)
qed

text \<open>The row numbers of step \<open>s\<close>: \<open>partial\<close> gives the rows left over to the last one.\<close>

definition chunk_rows :: "int \<Rightarrow> int \<Rightarrow> int \<Rightarrow> int \<Rightarrow> int" where
  "chunk_rows rows extra procs s = (if s = procs then rows + extra else rows)"

definition chunk :: "int \<Rightarrow> int \<Rightarrow> int \<Rightarrow> int \<Rightarrow> int list" where
  "chunk rows extra procs s = [rows * (s - 1) + 1 .. rows * (s - 1) + chunk_rows rows extra procs s]"

lemma upto_join: "0 \<le> a \<Longrightarrow> a \<le> b \<Longrightarrow> [1..a] @ [a + 1..b] = [1..b]" for a b :: int
  using upto_split2 [of 1 a b] by (cases "a = 0") simp_all

lemma chunks_upto:
  assumes "0 \<le> rows" "k < procs" "0 \<le> k"
  shows "concat (map (chunk rows extra procs) [1..k]) = [1..rows * k]"
  using assms(3,2)
proof (induction k rule: int_ge_induct)
  case (step k)
  have "[1..k + 1] = [1..k] @ [k + 1]" using step(1) by (simp add: upto_rec2)
  moreover have "chunk rows extra procs (k + 1) = [rows * k + 1..rows * k + rows]"
    using step.prems by (simp add: chunk_def chunk_rows_def)
  moreover have "[1..rows * k] @ [rows * k + 1..rows * k + rows] = [1..rows * (k + 1)]"
    using upto_join [of "rows * k" "rows * (k + 1)"] assms(1) step(1) by (simp add: distrib_left)
  ultimately show ?case using step by simp
qed simp

text \<open>New names leave the sizes of the tables as they are, so these are the rows that \<open>partial\<close> passes to \<open>gen_tbl\<close>.\<close>

lemma rename_base: "td_base (tds[k := (tds ! k)\<lparr>td_name := l\<rparr>] ! j) = td_base (tds ! j)"
    "td_base (tds[k := (tds ! k)\<lparr>td_child := c\<rparr>] ! j) = td_base (tds ! j)"
  by (cases "k < length tds"; simp add: nth_list_update list_update_beyond not_less)+

lemma set_files_at_base: "set_files_at i pl tds wo = Inr (n, tds', wo') \<Longrightarrow> td_base (tds' ! j) = td_base (tds ! j)"
proof (induction i pl tds wo arbitrary: n tds' wo' rule: set_files_at.induct)
  case (1 i pl tds wo)
  let ?bad = "i < 0 \<or> int (length tds) \<le> i \<or> td_name (tds ! nat i) = []"
  note e = 1(2) [unfolded set_files_at.simps [of i pl tds wo] Let_def]
  have g: "\<not> ?bad"
  proof
    assume b: ?bad
    show False using e unfolding if_P [OF b] by simp
  qed
  note e = e [unfolded if_not_P [OF g]]
  obtain ln wo1 where nm: "new_name pl (td_name (tds ! nat i)) wo = Inr (ln, wo1)"
    using e by (cases "new_name pl (td_name (tds ! nat i)) wo") auto
  note e = e [unfolded nm sum.case prod.case]
  show ?case
  proof (cases ln)
    case None
    then show ?thesis using e by simp
  next
    case (Some line)
    let ?t = "tds[nat i := (tds ! nat i)\<lparr>td_name := line\<rparr>]"
    let ?c = "td_child (?t ! nat i)"
    note e = e [unfolded Some option.case]
    show ?thesis
    proof (cases "line = []")
      case True
      then show ?thesis using e by simp
    next
      case l: False
      note e = e [unfolded if_not_P [OF l]]
      show ?thesis
      proof (cases "?c \<noteq> NONE")
        case c: True
        note e = e [unfolded if_P [OF c]]
        have g2: "\<not> (?c < 0 \<or> int (length ?t) \<le> ?c)"
        proof
          assume b: "?c < 0 \<or> int (length ?t) \<le> ?c"
          show False using e unfolding if_P [OF b] by simp
        qed
        show ?thesis using 1(1) [OF g nm refl Some l refl refl c g2 e [unfolded if_not_P [OF g2]]] by (simp only: rename_base)
      next
        case False
        have "td_base (?t ! j) = td_base (tds ! j)" by (rule rename_base)
        then show ?thesis using e [unfolded if_not_P [OF False]] by simp
      qed
    qed
  qed
qed

lemma map_sum_Inr: "map_sum id f x = Inr y \<longleftrightarrow> (\<exists>z. x = Inr z \<and> y = f z)"
  by (cases x) auto

lemma set_state_rows:
  assumes "set_state sg tds pf t sf procs s st = Inr (n, x, st')" "sf \<noteq> 0" "s \<noteq> 0"
    "split_rows (td_base (tds ! nat t)) sf procs = (rows, extra)"
  shows "n = rows \<and> x = Some extra"
  using assms by (auto simp: set_state_def map_sum_Inr split: if_splits sum.splits)

lemma prepare_chunk:
  assumes "prepare sg g pf t s r = Inr (start, cnt, r')" "g_scale g \<noteq> 0" "s \<noteq> 0"
    "split_rows (td_base (r_tds r ! nat t)) (g_scale g) (g_children g) = (rows, extra)"
  shows "[start..start + cnt - 1] = chunk rows extra (g_children g) s"
proof -
  have base: "set_files g t s tds wo = Inr (n, tds', wo') \<Longrightarrow> td_base (tds' ! nat t) = td_base (tds ! nat t)" for tds wo n tds' wo'
    by (auto simp: set_files_def set_files_at_base split: if_splits)
  obtain tds n x st where st: "set_state sg tds pf t (g_scale g) (g_children g) s (r_streams r) = Inr (n, x, st)"
    "td_base (tds ! nat t) = td_base (r_tds r ! nat t)" "start = n * (s - 1) + 1" "cnt = (if s = g_children g then n + the x else n)"
    using assms(1) base by (auto simp: prepare_def say_def on_world_def Let_def simp del: of_nat_Suc split: if_splits sum.splits)
  have "n = rows \<and> x = Some extra" by (rule set_state_rows [OF st(1) assms(2,3)]) (simp add: st(2) assms(4))
  then show ?thesis using st(3,4) by (simp add: chunk_def chunk_rows_def)
qed

text \<open>
  C20: the steps of a table are its rows, each in exactly one step and in order: step by step they count
  \<open>1, ..., base * scale\<close>, and fewer rows are left over for the last step than there are steps.  Step \<open>s\<close> is the
  range of rows that \<open>partial\<close> finds with \<open>set_state\<close> and passes to \<open>gen_tbl\<close>, for every run that gets so far.
\<close>

theorem chunks_partition:
  assumes "0 \<le> base" "0 < procs" "0 \<le> sf" "split_rows base sf procs = (rows, extra)"
  shows "concat (map (chunk rows extra procs) [1..procs]) = [1..base * sf] \<and> 0 \<le> extra \<and> extra < procs \<and>
    (\<forall>sg g pf t s r start cnt r'. prepare sg g pf t s r = Inr (start, cnt, r') \<and> td_base (r_tds r ! nat t) = base \<and>
       g_scale g = sf \<and> g_children g = procs \<and> sf \<noteq> 0 \<and> s \<noteq> 0 \<longrightarrow> [start..start + cnt - 1] = chunk rows extra procs s)"
proof -
  note s = split_rows_sum [OF assms]
  have "[1..procs] = [1..procs - 1] @ [procs]" using assms(2) by (simp add: upto_rec2)
  moreover have "concat (map (chunk rows extra procs) [1..procs - 1]) = [1..rows * (procs - 1)]"
    by (rule chunks_upto) (use assms(2) s(4) in simp_all)
  moreover have "chunk rows extra procs procs = [rows * (procs - 1) + 1..base * sf]"
    using s(1) by (simp add: chunk_def chunk_rows_def algebra_simps)
  moreover have "0 \<le> rows * (procs - 1)" using s(4) assms(2) by simp
  moreover have "rows * (procs - 1) \<le> base * sf" using s by (simp add: algebra_simps)
  moreover have "[1..rows * (procs - 1)] @ [rows * (procs - 1) + 1..base * sf] = [1..base * sf]"
    by (rule upto_join) fact+
  ultimately have "concat (map (chunk rows extra procs) [1..procs]) = [1..base * sf] \<and> 0 \<le> extra \<and> extra < procs"
    using s by simp
  then show ?thesis using prepare_chunk assms(4) by blast
qed

theorem chunks_partition_witness:
  "concat (map (chunk 8571 3 7) [1..7]) = [1..30000 * 2] \<and> 0 \<le> (3::int) \<and> (3::int) < 7"
  using chunks_partition [of 30000 7 2 8571 3] by (simp add: split_rows_def smod_nonneg sdiv_nonneg)

subsection \<open>Rows that can be skipped\<close>

definition split_tables :: "int set" where "split_tables = {CUST, SUPP, PART, LINE}"

text \<open>The columns that a chunk shares with the whole table, the streams they come from, how many rows the
  seed routine can skip in one call, and the call that \<open>set_state\<close> makes.\<close>

definition row_view :: "row \<Rightarrow> row" where
  "row_view w = (case w of
      Line_row x \<Rightarrow> Line_row (order_view x) | Supp_row x \<Rightarrow> Supp_row (supp_view x) | Cust_row x \<Rightarrow> Cust_row (cust_view x)
    | Part_row x \<Rightarrow> Part_row (part_view x) | _ \<Rightarrow> w)"

definition table_streams :: "int \<Rightarrow> nat set" where
  "table_streams t = (if t = LINE then line_streams else if t = SUPP then {32, 33} else if t = CUST then {26, 27, 28, 30}
     else {1, 2, 3, 4, 37})"

definition table_limit :: "int \<Rightarrow> nat" where
  "table_limit t = (if t = LINE then 2 ^ 31 else if t = PART then 23342213 else 238609294)"

definition table_skip :: "int \<Rightarrow> int \<Rightarrow> rng \<Rightarrow> rng option" where
  "table_skip t = (if t = LINE then sd_line 1 else if t = SUPP then sd_supp 0 else if t = CUST then sd_cust 0 else sd_part 0)"

lemma seekable_map:
  assumes "seekable mk tds t rate A view skip limit" "\<And>i s. mk' i s = map_option (map_prod C id) (mk i s)"
    and "\<And>x. view' (C x) = C (view x)"
  shows "seekable mk' tds t rate A view' skip limit"
proof -
  note advances = row_generator.row_advances [OF seekable.axioms(1) [OF assms(1)]]
  have v: "map_option (view' \<circ> fst) (mk' j s) = map_option C (map_option (view \<circ> fst) (mk j s))" for j s
    by (cases "mk j s") (auto simp: assms(2,3))
  show ?thesis
  proof
    fix s i
    assume "rng_inv s"
    then show "\<exists>r s1 s2. mk' i (row_start t s) = Some (r, s1) \<and> row_stop False tds t s1 = Some s2 \<and> advanced rate s s2"
      using advances [of s i] by (auto simp: assms(2))
  next
    fix i
    assume "i \<in> A"
    then show "i < 48" by (rule seekable.streams_range [OF assms(1)])
  next
    fix s s' j
    assume "rng_inv s" "rng_inv s'" "\<And>i. i \<in> A \<Longrightarrow> val s i = val s' i"
    then show "map_option (view' \<circ> fst) (mk' j s) = map_option (view' \<circ> fst) (mk' j s')"
      unfolding v by (metis seekable.view_local [OF assms(1)])
  next
    fix s n
    assume "rng_inv s" "n < limit"
    then show "\<exists>s'. skip (int n) s = Some s' \<and> rng_inv s' \<and> (\<forall>i \<in> A. val s' i = (NextRand ^^ (n * rate i)) (val s i))"
      by (rule seekable.skip_advances [OF assms(1)])
  qed
qed

lemma row_seekable:
  assumes "benv_ok e" "t \<in> split_tables"
  shows "seekable (mk_row e pf t upd) (be_tdefs e) t (table_rate t) (table_streams t) row_view (table_skip t) (table_limit t)"
proof -
  consider "t = LINE" | "t = SUPP" | "t = CUST" | "t = PART" using assms(2) by (auto simp: split_tables_def)
  then show ?thesis
  proof cases
    case 1
    then show ?thesis
      using seekable_map [OF order_seekable [OF assms(1)], of "mk_row e pf LINE upd" Line_row "upd smod 10000" row_view]
      by (simp add: mk_row_def row_view_def table_rate_def table_streams_def table_skip_def table_limit_def)
  next
    case 2
    then show ?thesis
      using seekable_map [OF supp_seekable [OF assms(1)], of "mk_row e pf SUPP upd" Supp_row row_view]
      by (simp add: mk_row_def row_view_def table_rate_def table_streams_def table_skip_def table_limit_def)
  next
    case 3
    then show ?thesis
      using seekable_map [OF cust_seekable [OF assms(1)], of "mk_row e pf CUST upd" Cust_row row_view]
      by (simp add: mk_row_def row_view_def table_rate_def table_streams_def table_skip_def table_limit_def)
  next
    case 4
    then show ?thesis
      using seekable_map [OF part_seekable [OF assms(1)], of "mk_row e pf PART upd" Part_row row_view]
      by (simp add: mk_row_def row_view_def table_rate_def table_streams_def table_skip_def table_limit_def)
  qed
qed

context seekable
begin

text \<open>From streams that are where \<open>n\<close> rows would leave them, the rows \<open>n..n+m-1\<close> of a table of \<open>l\<close> rows.\<close>

lemma chunk_view:
  assumes "rng_inv s" "rng_inv s'" "\<And>i. i \<in> streams \<Longrightarrow> val s' i = (NextRand ^^ (n * rate i)) (val s i)" "n + m \<le> l"
  shows "\<exists>whole sw ch sc. gen_rows mk tdefs t i l s = Some (whole, sw) \<and>
    gen_rows mk tdefs t (i + int n) m s' = Some (ch, sc) \<and> map view ch = map view (take m (drop n whole)) \<and> length ch = m"
proof -
  obtain rs s1 where rs: "gen_rows mk tdefs t i n s = Some (rs, s1)" "length rs = n" "advanced (\<lambda>j. n * rate j) s s1"
    using gen_rows_advances [OF assms(1)] by blast
  then have inv1: "rng_inv s1" by (simp add: advanced_def)
  obtain ms s2 where ms: "gen_rows mk tdefs t (i + int n) m s1 = Some (ms, s2)" "length ms = m" "advanced (\<lambda>j. m * rate j) s1 s2"
    using gen_rows_advances [OF inv1] by blast
  then have inv2: "rng_inv s2" by (simp add: advanced_def)
  obtain es s3 where es: "gen_rows mk tdefs t (i + int n + int m) (l - (n + m)) s2 = Some (es, s3)"
    using gen_rows_advances [OF inv2] by blast
  obtain ch sc where ch: "gen_rows mk tdefs t (i + int n) m s' = Some (ch, sc)" "length ch = m"
    using gen_rows_advances [OF assms(2)] by blast
  have "gen_rows mk tdefs t i (n + (m + (l - (n + m)))) s = Some (rs @ ms @ es, s3)"
    using gen_rows_append [OF assms(1), of i n "m + (l - (n + m))"] gen_rows_append [OF inv1, of "i + int n" m "l - (n + m)"]
      rs(1) ms(1) es by simp
  moreover have "n + (m + (l - (n + m))) = l" using assms(4) by simp
  moreover have "map view ch = map view ms"
  proof -
    have "\<And>j. j \<in> streams \<Longrightarrow> val s' j = val s1 j" using assms(3) rs(3) streams_range by (simp add: advanced_def)
    from gen_rows_view [OF assms(2) inv1 this, of "i + int n" m] ch(1) ms(1) show ?thesis by simp
  qed
  ultimately show ?thesis using ch rs(2) ms(2) by simp
qed

text \<open>\<open>set_state\<close> on a table whose seed routine, with that of its child, is \<open>skip\<close>.\<close>

lemma skip_steps_moves:
  assumes "\<And>rows s. skip_once sg tds u rows s = (case skip rows s of None \<Rightarrow> Inl Crash | Some s \<Rightarrow> Inr s)" "m < limit"
  shows "rng_inv s \<Longrightarrow> \<exists>s'. skip_steps sg n tds u (int m) s = Inr s' \<and> rng_inv s' \<and>
    (\<forall>i \<in> streams. val s' i = (NextRand ^^ (n * m * rate i)) (val s i))"
proof (induction n arbitrary: s)
  case 0
  have "(NextRand ^^ (0 * m * rate i)) (val s i) = val s i" for i by (simp only: mult_0 funpow_0)
  then show ?case using 0 by (metis skip_steps.simps(1))
next
  case (Suc n)
  obtain s1 where s1: "skip (int m) s = Some s1" "rng_inv s1" "\<forall>i \<in> streams. val s1 i = (NextRand ^^ (m * rate i)) (val s i)"
    using skip_advances [OF Suc.prems assms(2)] by blast
  obtain s2 where s2: "skip_steps sg n tds u (int m) s1 = Inr s2" "rng_inv s2"
    "\<forall>i \<in> streams. val s2 i = (NextRand ^^ (n * m * rate i)) (val s1 i)"
    using Suc.IH [OF s1(2)] by blast
  have "val s2 i = (NextRand ^^ (Suc n * m * rate i)) (val s i)" if "i \<in> streams" for i
  proof -
    have "val s2 i = (NextRand ^^ (n * m * rate i)) ((NextRand ^^ (m * rate i)) (val s i))" using s1(3) s2(3) that by metis
    moreover have "Suc n * m * rate i = n * m * rate i + m * rate i" by (simp add: algebra_simps)
    ultimately show ?thesis by (simp only: funpow_add o_apply)
  qed
  moreover have "skip_steps sg (Suc n) tds u (int m) s = Inr s2" using s1(1) s2(1) by (simp add: assms(1))
  ultimately show ?case using s2(2) by blast
qed

lemma set_state_moves:
  assumes "\<And>rows s. skip_once sg tds u rows s = (case skip rows s of None \<Rightarrow> Inl Crash | Some s \<Rightarrow> Inr s)"
    and "rng_inv st" "1 \<le> sf" "sf \<le> 1000" "1 \<le> s" "s \<le> procs"
    and "split_rows (td_base (tds ! nat u)) sf procs = (rows, extra)" "0 \<le> rows" "rows < int limit"
  shows "\<exists>s'. set_state sg tds pf u sf procs s st = Inr (rows, Some extra, s') \<and> rng_inv s' \<and>
    (\<forall>i \<in> streams. val s' i = (NextRand ^^ (nat (rows * (s - 1)) * rate i)) (val st i))"
proof -
  have sf: "sf sdiv procs \<le> 1000" using assms(3-6) zdiv_mono2 [of sf 1 procs] by (simp add: sdiv_nonneg)
  have r: "rows = int (nat rows)" "nat rows < limit" using assms(8,9) by auto
  obtain s' where s': "skip_steps sg (nat (s - 1)) tds u (int (nat rows)) st = Inr s'" "rng_inv s'"
    "\<forall>i \<in> streams. val s' i = (NextRand ^^ (nat (s - 1) * nat rows * rate i)) (val st i)"
    using skip_steps_moves [OF assms(1) r(2) assms(2), of "nat (s - 1)"] by blast
  have "nat (s - 1) * nat rows = nat (rows * (s - 1))" using assms(5,8) by (simp add: nat_mult_distrib)
  then show ?thesis
    using s' sf assms(3,5,6,7) r(1) by (auto simp: set_state_def)
qed

end

subsection \<open>\<open>set_state\<close>\<close>

lemma gen_seed_skip:
  assumes "t \<in> split_tables"
  obtains f where "gen_seed t = Some f" "f (if t = LINE then 1 else 0) = table_skip t"
  using assms by (auto simp only: gen_seed_def table_skip_def split_tables_def insert_iff empty_iff) simp_all

lemma skip_once_table:
  assumes "t \<in> split_tables" "td_child (tds ! nat t) = NONE"
  shows "skip_once gen_seed tds t rows s = (case table_skip t rows s of None \<Rightarrow> Inl Crash | Some s \<Rightarrow> Inr s)"
proof -
  obtain f where "gen_seed t = Some f" "f (if t = LINE then 1 else 0) = table_skip t" by (rule gen_seed_skip [OF assms(1)])
  then have "seed_call gen_seed t (if t = LINE then 1 else 0) rows s = (case table_skip t rows s of None \<Rightarrow> Inl Crash | Some s \<Rightarrow> Inr s)"
    by (simp only: seed_call_def option.case)
  then show ?thesis
    using assms(2) \<open>gen_seed t = Some f\<close> by (cases "t = LINE"; cases "table_skip t rows s") (simp_all add: skip_once_def)
qed

lemma skip_steps_streams:
  assumes "benv_ok e" "t \<in> split_tables" "td_child (tds ! nat t) = NONE" "m < table_limit t" "rng_inv s"
  shows "\<exists>s'. skip_steps gen_seed n tds t (int m) s = Inr s' \<and> rng_inv s' \<and>
    (\<forall>i \<in> table_streams t. val s' i = (NextRand ^^ (n * m * table_rate t i)) (val s i))"
  by (rule seekable.skip_steps_moves [OF row_seekable [OF assms(1,2)] skip_once_table [OF assms(2,3)] assms(4,5)])

lemma set_state_chunk:
  assumes "benv_ok e" "t \<in> split_tables" "td_child (tds ! nat t) = NONE" "rng_inv st" "1 \<le> sf" "sf \<le> 1000" "1 \<le> s" "s \<le> procs"
    and "split_rows (td_base (tds ! nat t)) sf procs = (rows, extra)" "0 \<le> rows" "rows < int (table_limit t)"
  shows "\<exists>s'. set_state gen_seed tds pf t sf procs s st = Inr (rows, Some extra, s') \<and> rng_inv s' \<and>
    (\<forall>i \<in> table_streams t. val s' i = (NextRand ^^ (nat (rows * (s - 1)) * table_rate t i)) (val st i))"
  by (rule seekable.set_state_moves [OF row_seekable [OF assms(1,2)] skip_once_table [OF assms(2,3)] assms(4-11)])

subsection \<open>What the builders take from the table descriptions\<close>

text \<open>Only the row counts of parts, suppliers and customers; \<open>row_stop\<close> only the child of the table.\<close>

definition same_bases :: "benv \<Rightarrow> benv \<Rightarrow> bool" where
  "same_bases e e' \<longleftrightarrow> be_dists e = be_dists e' \<and> be_scale e = be_scale e' \<and> be_refresh e = be_refresh e' \<and> asc_date e = asc_date e' \<and>
     (\<forall>t \<in> {PART, SUPP, CUST}. td_base (be_tdefs e ! nat t) = td_base (be_tdefs e' ! nat t))"

lemma mk_order_same:
  assumes "same_bases e e'"
  shows "mk_order e upd i s = mk_order e' upd i s"
proof -
  have keys: "O_CKEY_MAX e = O_CKEY_MAX e'" "L_SKEY_MAX e = L_SKEY_MAX e'" "L_PKEY_MAX e = L_PKEY_MAX e'"
    and fields: "be_dists e = be_dists e'" "be_scale e = be_scale e'" "be_refresh e = be_refresh e'" "asc_date e = asc_date e'"
    using assms by (simp_all add: same_bases_def O_CKEY_MAX_def L_SKEY_MAX_def L_PKEY_MAX_def)
  have "mk_line e = mk_line e'" by (intro ext) (simp only: mk_line_def keys fields)
  then have "mk_lines n e k c d x p q l tp s = mk_lines n e' k c d x p q l tp s" for n k c d x p q l tp s
    by (induction n arbitrary: l tp s) simp_all
  then show ?thesis by (simp only: mk_order_def keys fields)
qed

lemma mk_row_same:
  assumes "same_bases e e'"
  shows "mk_row e pf t upd = mk_row e' pf t upd"
proof -
  have "be_dists e = be_dists e'" using assms by (simp add: same_bases_def)
  then show ?thesis
    by (intro ext) (simp add: mk_row_def mk_order_same [OF assms] mk_cust_def mk_supp_def mk_part_def)
qed

lemma gen_rows_same:
  assumes "td_child (tds ! nat t) = td_child (tds' ! nat t)" "t \<noteq> ORDER_LINE" "t \<noteq> PART_PSUPP"
  shows "gen_rows mk tds t i n s = gen_rows mk tds' t i n s"
proof -
  have "row_stop False tds t = row_stop False tds' t"
    using assms by (intro ext) (simp only: row_stop_def if_False Let_def)
  then show ?thesis by (induction n arbitrary: i s) simp_all
qed

subsection \<open>The file of a step\<close>

definition step_name :: "dists \<Rightarrow> int \<Rightarrow> int \<Rightarrow> string" where
  "step_name d t s = td_name (star_tdefs d ! nat t) @ ''.'' @ fmt_d s"

definition step_tdefs :: "dists \<Rightarrow> int \<Rightarrow> int \<Rightarrow> tdef list" where
  "step_tdefs d t s = (star_tdefs d)[nat t := (star_tdefs d ! nat t)\<lparr>td_name := step_name d t s\<rparr>]"

lemma star_names: "t \<in> star_tables \<Longrightarrow> td_name (star_tdefs d ! nat t) \<noteq> [] \<and> td_child (star_tdefs d ! nat t) = NONE \<and> length (star_tdefs d) = 10"
  by (auto simp: star_tables_def star_tdefs_def loaded_tdefs_def main_tdefs_def ssb_tdefs_def mk_tdef_def Let_def)

lemma split_star: "t \<in> split_tables \<Longrightarrow> t \<in> star_tables \<and> 0 \<le> t \<and> t < 10 \<and> t \<noteq> ORDER_LINE \<and> t \<noteq> PART_PSUPP"
  by (auto simp: split_tables_def star_tables_def)

lemma step_files:
  assumes "t \<in> star_tables" "bit (g_table g) (nat t)" "length (step_name d t s) < 80" "s \<noteq> - 1"
  shows "set_files g t s (star_tdefs d) wo = Inr (0, step_tdefs d t s, wo)"
proof -
  have "0 \<le> t" "t < 10" using assms(1) by (auto simp: star_tables_def)
  then show ?thesis
    using assms star_names [OF assms(1), of d]
    by (subst set_files_def, simp) (subst set_files_at.simps, simp add: new_name_def step_name_def step_tdefs_def)
qed

lemma step_same:
  assumes "t \<in> star_tables"
  shows "same_bases (builder_env g d (step_tdefs d t s)) (builder_env g d (star_tdefs d))"
    and "td_child (step_tdefs d t s ! nat u) = td_child (star_tdefs d ! nat u)"
    and "td_base (step_tdefs d t s ! nat u) = td_base (star_tdefs d ! nat u)"
    and "td_name (step_tdefs d t s ! nat t) = step_name d t s"
    and "tdefs_ok (step_tdefs d t s)"
proof -
  have l: "length (star_tdefs d) = 10" "nat t < 10" using assms star_names [OF assms, of d] by (auto simp: star_tables_def)
  have n: "step_tdefs d t s ! k = (if k = nat t then (star_tdefs d ! k)\<lparr>td_name := step_name d t s\<rparr> else star_tdefs d ! k)" for k
    using l by (simp add: step_tdefs_def nth_list_update)
  then show "td_child (step_tdefs d t s ! nat u) = td_child (star_tdefs d ! nat u)"
    "td_base (step_tdefs d t s ! nat u) = td_base (star_tdefs d ! nat u)" "td_name (step_tdefs d t s ! nat t) = step_name d t s" by simp_all
  show "same_bases (builder_env g d (step_tdefs d t s)) (builder_env g d (star_tdefs d))"
    by (simp add: same_bases_def builder_env_def n)
  have "length (step_tdefs d t s) = 10" using l by (simp add: step_tdefs_def)
  then show "tdefs_ok (step_tdefs d t s)" using star_tdefs_ok [of d] by (simp add: tdefs_ok_def n)
qed

text \<open>What a run of the driver needs for step \<open>s\<close> of table \<open>t\<close>; \<open>procs\<close> is the number of steps.\<close>

definition step_ready :: "globals \<Rightarrow> dists \<Rightarrow> int \<Rightarrow> int \<Rightarrow> run \<Rightarrow> bool" where
  "step_ready g d t s r \<longleftrightarrow> quiet g \<and> dists_ok d \<and> 1 \<le> g_scale g \<and> g_scale g \<le> 1000 \<and> 1 \<le> s \<and> s \<le> g_children g \<and>
     bit (g_table g) (nat t) \<and> length (step_name d t s) < 80 \<and> r_tds r = star_tdefs d \<and> rng_inv (r_streams r) \<and>
     can_open (config.truncate g) (table_path (config.truncate g) (step_name d t s)) (r_out r) \<and> table_ptr t 0 (r_out r) = None"

lemma prepare_step:
  assumes "step_ready g d t s r" "t \<in> split_tables"
    and "split_rows (td_base (star_tdefs d ! nat t)) (g_scale g) (g_children g) = (rows, extra)" "0 \<le> rows" "rows < int (table_limit t)"
  obtains st where "rng_inv st"
    "\<forall>i \<in> table_streams t. val st i = (NextRand ^^ (nat (rows * (s - 1)) * table_rate t i)) (val (r_streams r) i)"
    "prepare gen_seed g pf t s r = Inr (rows * (s - 1) + 1, chunk_rows rows extra (g_children g) s,
      r\<lparr>r_tds := step_tdefs d t s, r_streams := st\<rparr>)"
proof -
  have q: "quiet g" "g_direct g = 0" using assms(1) by (simp_all add: step_ready_def quiet_def)
  have t: "t \<in> star_tables" using split_star [OF assms(2)] by blast
  have b: "benv_ok (builder_env g d (star_tdefs d))" using builder_env_ok [OF _ star_tdefs_ok] assms(1) by (simp add: step_ready_def)
  have "split_rows (td_base (step_tdefs d t s ! nat t)) (g_scale g) (g_children g) = (rows, extra)"
    using step_same(3) [OF t] assms(3) by simp
  moreover have "td_child (step_tdefs d t s ! nat t) = NONE" using step_same(2) [OF t] star_names [OF t] by simp
  ultimately obtain st where st: "set_state gen_seed (step_tdefs d t s) pf t (g_scale g) (g_children g) s (r_streams r) = Inr (rows, Some extra, st)"
    "rng_inv st" "\<forall>i \<in> table_streams t. val st i = (NextRand ^^ (nat (rows * (s - 1)) * table_rate t i)) (val (r_streams r) i)"
    using set_state_chunk [OF b assms(2), of "step_tdefs d t s" "r_streams r" "g_scale g" s "g_children g" rows extra pf] assms
    by (auto simp: step_ready_def)
  have "set_files g t s (r_tds r) (wld (r_out r)) = Inr (0, step_tdefs d t s, wld (r_out r))"
    using step_files [OF t, of g d s] assms(1) by (simp add: step_ready_def)
  then have "prepare gen_seed g pf t s r = Inr (rows * (s - 1) + 1, chunk_rows rows extra (g_children g) s,
      r\<lparr>r_tds := step_tdefs d t s, r_streams := st\<rparr>)"
    using st(1) q(2) by (simp add: prepare_def on_world_def chunk_rows_def quiet_steps(1) [OF q(1)])
  with that st(2,3) show thesis by blast
qed

lemma step_size:
  assumes "step_ready g d t s r" "t \<in> split_tables"
    and "split_rows (td_base (star_tdefs d ! nat t)) (g_scale g) (g_children g) = (rows, extra)" "0 < rows"
    and "m = nat (chunk_rows rows extra (g_children g) s)"
  shows "0 < td_base (star_tdefs d ! nat t)" "0 < m" "int m = chunk_rows rows extra (g_children g) s"
proof -
  show base: "0 < td_base (star_tdefs d ! nat t)"
    using star_bases [of d] assms(2) by (auto simp: split_tables_def simp del: CUST_def SUPP_def PART_def LINE_def)
  show "0 < m" "int m = chunk_rows rows extra (g_children g) s"
    using assms(1,4,5) base split_rows_sum(2) [OF _ _ _ assms(3)] by (auto simp: chunk_rows_def step_ready_def)
qed

text \<open>The rows that a step builds from the streams \<open>prepare\<close> leaves are its rows of the whole table, in the columns of
  \<open>row_view\<close>.\<close>

lemma step_rows:
  assumes "step_ready g d t s r" "t \<in> split_tables"
    and "split_rows (td_base (star_tdefs d ! nat t)) (g_scale g) (g_children g) = (rows, extra)" "0 < rows"
    and "m = nat (chunk_rows rows extra (g_children g) s)" "rng_inv st"
    and "\<forall>i \<in> table_streams t. val st i = (NextRand ^^ (nat (rows * (s - 1)) * table_rate t i)) (val (r_streams r) i)"
    and "gen_rows (mk_row (builder_env g d (step_tdefs d t s)) pf t 0) (step_tdefs d t s) t (rows * (s - 1) + 1) m st = Some (ws, st')"
  shows "\<exists>whole sw. gen_rows (mk_row (builder_env g d (star_tdefs d)) pf t 0) (star_tdefs d) t 1
      (nat (td_base (star_tdefs d ! nat t) * g_scale g)) (r_streams r) = Some (whole, sw) \<and>
    map row_view ws = map row_view (take m (drop (nat (rows * (s - 1))) whole))"
proof -
  have t: "t \<in> star_tables" "t \<noteq> ORDER_LINE" "t \<noteq> PART_PSUPP" using split_star [OF assms(2)] by blast+
  have rdy: "dists_ok d" "1 \<le> g_scale g" "g_scale g \<le> 1000" "1 \<le> s" "s \<le> g_children g" "rng_inv (r_streams r)"
    using assms(1) by (simp_all add: step_ready_def)
  let ?e = "builder_env g d (star_tdefs d)" and ?l = "td_base (star_tdefs d ! nat t) * g_scale g" and ?n = "nat (rows * (s - 1))"
  have b: "benv_ok ?e" using builder_env_ok rdy(1-3) star_tdefs_ok by auto
  note base = step_size(1) [OF assms(1-5)] and m = step_size(2,3) [OF assms(1-5)]
  note sum = split_rows_sum [OF _ _ _ assms(3)]
  have n: "1 + int ?n = rows * (s - 1) + 1" using assms(4) rdy(4) by simp
  have ch: "gen_rows (mk_row ?e pf t 0) (star_tdefs d) t (1 + int ?n) m st = Some (ws, st')"
    using assms(8) gen_rows_same [OF step_same(2) [OF t(1)] t(2,3)] mk_row_same [OF step_same(1) [OF t(1)]] unfolding n by metis
  have "rows * s \<le> rows * g_children g" using rdy(5) assms(4) by (intro mult_left_mono) simp_all
  moreover have "0 \<le> extra" using sum(2) base rdy(2,4,5) by simp
  ultimately have "rows * (s - 1) + chunk_rows rows extra (g_children g) s \<le> rows * g_children g + extra"
    by (auto simp: chunk_rows_def algebra_simps)
  moreover have "int (?n + m) = rows * (s - 1) + chunk_rows rows extra (g_children g) s" using n m(2) by simp
  ultimately have fits: "?n + m \<le> nat ?l" using sum(1) base rdy(2,4,5) by linarith
  have tds: "be_tdefs ?e = star_tdefs d" by (simp add: builder_env_def)
  obtain whole sw ch sc where "gen_rows (mk_row ?e pf t 0) (star_tdefs d) t 1 (nat ?l) (r_streams r) = Some (whole, sw)"
    "gen_rows (mk_row ?e pf t 0) (star_tdefs d) t (1 + int ?n) m st = Some (ch, sc)"
    "map row_view ch = map row_view (take m (drop ?n whole))"
    using seekable.chunk_view [where i = 1 and n = ?n and m = m and l = "nat ?l",
        OF row_seekable [OF b assms(2), where pf = pf and upd = 0] rdy(6) assms(6)] assms(7) fits unfolding tds by blast
  with ch show ?thesis by auto
qed

text \<open>
  C4: the file of a step.  \<open>partial\<close> skips the rows of the steps before its own and builds its own; its file \<open>name.s\<close>
  then holds rows that agree with the rows of this step in the table of \<open>base * scale\<close> rows built by one process, in all
  the columns that \<open>row_view\<close> keeps.
\<close>

theorem partial_file:
  assumes "step_ready g d t s r" "t \<in> split_tables"
    and "split_rows (td_base (star_tdefs d ! nat t)) (g_scale g) (g_children g) = (rows, extra)" "0 < rows" "rows < int (table_limit t)"
    and "path = table_path (config.truncate g) (step_name d t s)" "m = nat (chunk_rows rows extra (g_children g) s)"
  shows "\<exists>whole sw ws r'. partial g pf d t s 0 r = Inr r' \<and>
    gen_rows (mk_row (builder_env g d (star_tdefs d)) pf t 0) (star_tdefs d) t 1
      (nat (td_base (star_tdefs d ! nat t) * g_scale g)) (r_streams r) = Some (whole, sw) \<and>
    map row_view ws = map row_view (take m (drop (nat (rows * (s - 1))) whole)) \<and> length ws = m \<and>
    file_at path (r_out r') = concat (map (text_of_row (columnar g)) ws) @
      drop (length (concat (map (text_of_row (columnar g)) ws))) (file_at path (r_out r))"
proof -
  have t: "t \<in> star_tables" using split_star [OF assms(2)] by blast
  have q: "quiet g" using assms(1) by (simp add: step_ready_def)
  let ?tds = "step_tdefs d t s"
  obtain st where st: "rng_inv st"
    "\<forall>i \<in> table_streams t. val st i = (NextRand ^^ (nat (rows * (s - 1)) * table_rate t i)) (val (r_streams r) i)"
    "prepare gen_seed g pf t s r = Inr (rows * (s - 1) + 1, chunk_rows rows extra (g_children g) s, r\<lparr>r_tds := ?tds, r_streams := st\<rparr>)"
    using prepare_step [OF assms(1-3) _ assms(5)] assms(4) by (metis less_imp_le)
  note rows = step_rows [OF assms(1-4,7) st(1,2)]
  let ?r = "r\<lparr>r_tds := ?tds, r_streams := st\<rparr>"
  have p: "path = table_path (config.truncate g) (td_name (r_tds ?r ! nat t))" using assms(6) step_same(4) [OF t] by simp
  have o: "can_open (config.truncate g) path (r_out ?r)" "table_ptr t 0 (r_out ?r) = None" "rng_inv (r_streams ?r)"
    "benv_ok (builder_env g d (r_tds ?r))"
    using assms(1,6) st(1) builder_env_ok [OF _ step_same(5) [OF t]] by (simp_all add: step_ready_def)
  note m = step_size(2,3) [OF assms(1-4,7)]
  obtain ws r' where ws: "gen_tbl g pf d t (rows * (s - 1) + 1) (int m) 0 ?r = Inr r'" "length ws = m"
    "gen_rows (mk_row (builder_env g d ?tds) pf t 0) ?tds t (rows * (s - 1) + 1) m st = Some (ws, r_streams r')"
    "file_at path (r_out r') = concat (map (text_of_row (columnar g)) ws) @
      drop (length (concat (map (text_of_row (columnar g)) ws))) (file_at path (r_out r))"
    using gen_tbl_writes [where i = "rows * (s - 1) + 1" and pf = pf, OF q t o(4,3) m(1) p o(1,2)] by auto
  moreover have "partial g pf d t s 0 r = Inr r'"
    using ws(1) st(3) m(2) by (simp add: partial_def quiet_steps(1) [OF q])
  ultimately show ?thesis using rows [OF ws(3)] by blast
qed

definition demo_parallel :: globals where
  "demo_parallel = demo_globals\<lparr>g_children := 4, g_table := table_bit CUST\<rparr>"

definition star_run :: run where
  "star_run = \<lparr>r_streams = rng_init, r_tds = star_tdefs ssb_dists, r_out = outs_init empty_world, r_err = []\<rparr>"

lemma demo_step_name: "step_name ssb_dists CUST 2 = ''customer.tbl.2''"
  by (simp add: step_name_def star_tdefs_def loaded_tdefs_def main_tdefs_def ssb_tdefs_def mk_tdef_def Let_def fmt_d_def dec.simps digit_chars)

lemma demo_step_path: "table_path (config.truncate demo_parallel) (step_name ssb_dists CUST 2) = ''./customer.tbl.2''"
  unfolding demo_step_name
  by (simp add: table_path_def env_config_def demo_parallel_def demo_globals_def main_globals_def config.truncate_def)

lemma demo_step_ready: "step_ready demo_parallel ssb_dists CUST 2 star_run"
proof -
  have "quiet demo_parallel" using demo_quiet by (simp add: quiet_def demo_parallel_def)
  moreover have "can_open (config.truncate demo_parallel) ''./customer.tbl.2'' (r_out star_run)"
    by (simp add: can_open_def demo_parallel_def demo_globals_def main_globals_def config.truncate_def star_run_def outs_init_def empty_world_def)
  ultimately show ?thesis
    unfolding step_ready_def demo_step_path unfolding demo_step_name
    by (simp add: ssb_dists_ok demo_parallel_def demo_globals_def main_globals_def table_bit_def bit_exp_iff star_run_def rng_init_inv
      table_ptr_def outs_init_def)
qed

theorem partial_file_witness:
  "\<exists>whole sw ws r'. partial demo_parallel demo_platform ssb_dists CUST 2 0 star_run = Inr r' \<and>
    gen_rows (mk_row (builder_env demo_parallel ssb_dists (star_tdefs ssb_dists)) demo_platform CUST 0) (star_tdefs ssb_dists) CUST 1
      30000 rng_init = Some (whole, sw) \<and>
    map row_view ws = map row_view (take 7500 (drop 7500 whole)) \<and> length ws = 7500 \<and>
    file_at ''./customer.tbl.2'' (r_out r') = concat (map (text_of_row False) ws)"
proof -
  have g: "g_scale demo_parallel = 1" "g_children demo_parallel = 4" "columnar demo_parallel = False"
    by (simp_all add: demo_parallel_def demo_globals_def main_globals_def)
  have t: "CUST \<in> split_tables" by (simp add: split_tables_def)
  have rows: "split_rows (td_base (star_tdefs ssb_dists ! nat CUST)) (g_scale demo_parallel) (g_children demo_parallel) = (7500, 0)"
    unfolding star_bases g by (simp add: split_rows_def sdiv_nonneg smod_nonneg)
  have m: "7500 = nat (chunk_rows 7500 0 (g_children demo_parallel) 2)" by (simp add: chunk_rows_def g)
  have r: "file_at ''./customer.tbl.2'' (r_out star_run) = []" "r_streams star_run = rng_init"
    by (simp_all add: star_run_def file_at_def outs_init_def empty_world_def)
  have "7500 < int (table_limit CUST)" by (simp add: table_limit_def)
  from partial_file [where pf = demo_platform, OF demo_step_ready t rows _ this demo_step_path [symmetric] m]
  show ?thesis unfolding star_bases r g by simp
qed

lemma bitlen_less: "3 \<le> sc \<Longrightarrow> bitlen sc < sc"
proof (induction sc rule: int_ge_induct)
  case base
  show ?case using bitlen_le_iff_power [of 3 2] by simp
next
  case (step sc)
  have "bitlen (sc + 1) \<le> bitlen sc + 1"
  proof -
    have "0 \<le> bitlen sc" by (rule bitlen_nonneg)
    moreover have "sc < 2 ^ nat (bitlen sc)" using bitlen_bounds [of sc] step(1) by simp
    then have "sc + 1 < 2 ^ nat (bitlen sc + 1)" using step(1) calculation by (simp add: nat_add_distrib)
    ultimately show ?thesis using bitlen_le_iff_power [of "sc + 1" "nat (bitlen sc + 1)"] by simp
  qed
  with step show ?case by simp
qed

text \<open>
  C37: a table built in steps does not always have the rows of the table built at once: the steps of the part and the
  date table count with the scale, \<open>main\<close> builds parts with its logarithm and dates without it.  From scale 3 on the
  steps build more parts, from scale 2 on more dates than there are days.
\<close>

theorem step_sizes_differ:
  assumes "0 < procs" "1 \<le> g_scale g" "sizes = (\<lambda>t. split_rows (td_base (star_tdefs d ! nat t)) (g_scale g) procs)"
    and "built = (\<lambda>t. fst (sizes t) * procs + snd (sizes t))"
  shows "built CUST = table_rows g (star_tdefs d) CUST \<and> built SUPP = table_rows g (star_tdefs d) SUPP \<and>
    built LINE = table_rows g (star_tdefs d) LINE \<and>
    (3 \<le> g_scale g \<longrightarrow> table_rows g (star_tdefs d) PART < built PART) \<and>
    (2 \<le> g_scale g \<longrightarrow> table_rows g (star_tdefs d) DATE < built DATE)"
proof -
  have "built t = td_base (star_tdefs d ! nat t) * g_scale g" if "0 \<le> td_base (star_tdefs d ! nat t)" for t
    using split_rows_sum(1) [of "td_base (star_tdefs d ! nat t)" procs "g_scale g" "fst (sizes t)" "snd (sizes t)"] that assms
    by simp
  then show ?thesis
    using star_bases [of d] table_rows_star [of g "g_scale g" d] bitlen_less [of "g_scale g"]
    by (simp del: CUST_def SUPP_def LINE_def PART_def DATE_def)
qed

theorem step_sizes_differ_witness:
  "table_rows (demo_globals\<lparr>g_scale := 10\<rparr>) (star_tdefs ssb_dists) PART <
    fst (split_rows (td_base (star_tdefs ssb_dists ! nat PART)) 10 3) * 3 + snd (split_rows (td_base (star_tdefs ssb_dists ! nat PART)) 10 3)"
  using step_sizes_differ [of 3 "demo_globals\<lparr>g_scale := 10\<rparr>", OF _ _ refl refl, of ssb_dists] by simp

end
