(* ===== verification/Parallel.thy ===== *)
theory Parallel
  imports Chunks
begin

text \<open>
  The children of \<open>pload\<close> side by side: they share the file system and nothing else, and the platform decides whose turn it is.
  A step of the pool is a step of one child: it prepares itself or builds one row.  Shown: no schedule is stuck before all
  tables are complete, every schedule ends after the same number of steps, and every child leaves in its file what it leaves
  when it runs alone.
\<close>

subsection \<open>The pool\<close>

text \<open>A child waits for its first turn, or has some rows to go: the number of its step, the rows per insert segment, the next
  row, the number of rows to go, the accounting of segments and its memory.  The memory of a child that waits is the
  memory \<open>r0\<close> of the parent, which it copies.\<close>

datatype child = Waiting int | Running int "int \<times> int" int nat "int \<times> int" run

inductive par_step :: "globals \<Rightarrow> platform \<Rightarrow> dists \<Rightarrow> int \<Rightarrow> run \<Rightarrow> child list \<times> world \<Rightarrow> child list \<times> world \<Rightarrow> bool"
  for g pf d t r0
where
  start: "k < length cs \<Longrightarrow> cs ! k = Waiting s \<Longrightarrow>
    prepare gen_seed (g\<lparr>g_verbose := 0\<rparr>) pf t s (on_world (\<lambda>_. wo) r0) = Inr (i, cnt, r) \<Longrightarrow> 0 \<le> cnt \<Longrightarrow>
    par_step g pf d t r0 (cs, wo) (cs[k := Running s (insert_split g cnt) i (nat cnt) (- 1, 0) r], wld (r_out r))"
| row: "k < length cs \<Longrightarrow> cs ! k = Running s seg i (Suc n) su r \<Longrightarrow>
    gen_row (g\<lparr>g_verbose := 0\<rparr>) pf d t seg i su (on_world (\<lambda>_. wo) r) = Inr (su', r') \<Longrightarrow>
    par_step g pf d t r0 (cs, wo) (cs[k := Running s seg (i + 1) n su' r'], wld (r_out r'))"

definition pool_start :: "globals \<Rightarrow> run \<Rightarrow> child list \<times> world" where
  "pool_start g r0 = (map Waiting [1..g_children g], wld (r_out r0))"

subsection \<open>One row in a shared world\<close>

definition same_elsewhere :: "string \<Rightarrow> world \<Rightarrow> world \<Rightarrow> bool" where
  "same_elsewhere path wo wo' \<longleftrightarrow> denied wo' = denied wo \<and> statfails wo' = statfails wo \<and> (\<forall>p. p \<noteq> path \<longrightarrow> nodes wo' p = nodes wo p)"

context static_file
begin

text \<open>A row is written: the file is opened at the first one, whose text replaces the start of the old contents \<open>c\<close>.\<close>

lemma pr_row:
  assumes "if s = [] \<and> rd os = None then can_open cf path os \<and> path = table_path cf (td_name (tdefs ! nat t)) \<and> file_at path os = c
    else rd os = Some \<lparr>h_path = path, h_pos = length s\<rparr> \<and> nodes (wld os) path = Some (Regular (overwrite 0 s c))"
  shows "\<exists>os'. pr_static cf tdefs t u rd wr x os = Inr os' \<and> rd os' = Some \<lparr>h_path = path, h_pos = length (s @ x)\<rparr> \<and>
    nodes (wld os') path = Some (Regular (overwrite 0 (s @ x) c)) \<and> same_elsewhere path (wld os) (wld os')"
proof (cases "s = [] \<and> rd os = None")
  case True
  then have o: "can_open cf path os" "path = table_path cf (td_name (tdefs ! nat t))" "file_at path os = c" using assms by auto
  show ?thesis
    using print_prep_opens [OF o(1,2), of u] True o(3)
    by (simp add: pr_static_def rd_wr wld_wr put_def fputs_def overwrite_def same_elsewhere_def)
next
  case False
  then have "rd os = Some \<lparr>h_path = path, h_pos = length s\<rparr>" "nodes (wld os) path = Some (Regular (overwrite 0 s c))"
    using assms by (simp_all only: if_False)
  then show ?thesis by (simp add: pr_static_def put_def fputs_def rd_wr wld_wr overwrite_append same_elsewhere_def)
qed

end

lemma table_ptr_world [simp]: "table_ptr t u (os\<lparr>wld := wo\<rparr>) = table_ptr t u os"
  by (simp add: table_ptr_def rd_line_def)

lemma on_world_fields [simp]: "r_tds (on_world f r) = r_tds r" "r_streams (on_world f r) = r_streams r" "r_err (on_world f r) = r_err r"
    "wld (r_out (on_world f r)) = f (wld (r_out r))" "r_out (on_world f r) = (r_out r)\<lparr>wld := f (wld (r_out r))\<rparr>"
  by (simp_all add: on_world_def)


subsection \<open>The invariant\<close>

definition step_path :: "globals \<Rightarrow> dists \<Rightarrow> int \<Rightarrow> int \<Rightarrow> string" where
  "step_path g d t s = table_path (config.truncate g) (step_name d t s)"

text \<open>What a child has done: \<open>ws\<close> are the rows it has written, \<open>rest\<close> those it will build; with no row written the file is
  closed and untouched, else it holds their texts.\<close>

definition child_file :: "globals \<Rightarrow> int \<Rightarrow> string \<Rightarrow> run \<Rightarrow> row list \<Rightarrow> run \<Rightarrow> world \<Rightarrow> bool" where
  "child_file g t path r0 ws r wo \<longleftrightarrow>
     (let x = concat (map (text_of_row (columnar g)) ws)
      in if ws = [] then table_ptr t 0 (r_out r) = None \<and> nodes wo path = nodes (wld (r_out r0)) path
         else table_ptr t 0 (r_out r) = Some \<lparr>h_path = path, h_pos = length x\<rparr> \<and>
           nodes wo path = Some (Regular (overwrite 0 x (file_at path (r_out r0)))))"

lemma child_file_cong: "nodes wo' path = nodes wo path \<Longrightarrow> child_file g t path r0 ws r wo' = child_file g t path r0 ws r wo"
  by (simp add: child_file_def)

definition running_ok :: "globals \<Rightarrow> platform \<Rightarrow> dists \<Rightarrow> int \<Rightarrow> run \<Rightarrow> int \<Rightarrow> int \<Rightarrow> nat \<Rightarrow> int \<Rightarrow> run \<Rightarrow> world \<Rightarrow> bool" where
  "running_ok g pf d t r0 s i n upd r wo \<longleftrightarrow>
     (let tds = step_tdefs d t s; mk = mk_row (builder_env g d tds) pf t 0
      in upd = 0 \<and> r_tds r = tds \<and>
        (\<exists>i0 m st ws rest fin. prepare gen_seed g pf t s r0 = Inr (i0, int m, r0\<lparr>r_tds := tds, r_streams := st\<rparr>) \<and> 0 < m \<and> rng_inv st \<and>
           gen_rows mk tds t i0 m st = Some (ws @ rest, fin) \<and> gen_rows mk tds t i n (r_streams r) = Some (rest, fin) \<and>
           (\<forall>w \<in> set rest. \<exists>j. row_ok (builder_env g d tds) pf 0 t j w) \<and> child_file g t (step_path g d t s) r0 ws r wo))"

fun child_ok :: "globals \<Rightarrow> platform \<Rightarrow> dists \<Rightarrow> int \<Rightarrow> run \<Rightarrow> world \<Rightarrow> int \<Rightarrow> child \<Rightarrow> bool" where
  "child_ok g pf d t r0 wo s (Waiting s') \<longleftrightarrow> s' = s \<and> nodes wo (step_path g d t s) = nodes (wld (r_out r0)) (step_path g d t s)"
| "child_ok g pf d t r0 wo s (Running s' seg i n su r) \<longleftrightarrow> s' = s \<and> running_ok g pf d t r0 s i n (snd su) r wo"

lemma child_ok_frame:
  assumes "child_ok g pf d t r0 wo s c" "same_elsewhere p wo wo'" "step_path g d t s \<noteq> p"
  shows "child_ok g pf d t r0 wo' s c"
proof -
  have n: "nodes wo' (step_path g d t s) = nodes wo (step_path g d t s)" using assms(2,3) by (simp add: same_elsewhere_def)
  show ?thesis using assms(1) n by (cases c) (simp_all add: running_ok_def Let_def child_file_cong [OF n])
qed

text \<open>Different steps have different files.\<close>

lemma step_path_inj:
  assumes "t \<in> star_tables" "0 \<le> s" "0 \<le> s'" "step_path g d t s = step_path g d t s'"
  shows "s = s'"
proof -
  obtain c n where n: "td_name (star_tdefs d ! nat t) = c # n" using star_names [OF assms(1), of d] by (cases "td_name (star_tdefs d ! nat t)") auto
  have "step_name d t s = step_name d t s'"
    using assms(4) n by (auto simp: step_path_def table_path_def step_name_def split: if_splits)
  then have "fmt_d s = fmt_d s'" by (simp add: step_name_def)
  then show ?thesis using undec_fmt_d [of s] undec_fmt_d [of s'] assms(2,3) by simp
qed

subsection \<open>The turns of a child\<close>

lemma gen_row_turn:
  assumes g: "quiet g" and t: "t \<in> star_tables" and ok: "running_ok g pf d t r0 s i (Suc n) upd r wo"
    and can: "can_open (config.truncate g) (step_path g d t s) ((r_out r0)\<lparr>wld := wo0\<rparr>)" "wld (r_out r0) = wo0"
    and wo: "denied wo = denied wo0" "statfails wo = statfails wo0"
  obtains r' where "gen_row g pf d t seg i (k, upd) (on_world (\<lambda>_. wo) r) = Inr ((k, upd), r')"
    "running_ok g pf d t r0 s (i + 1) n upd r' (wld (r_out r'))" "same_elsewhere (step_path g d t s) wo (wld (r_out r'))"
proof -
  let ?tds = "step_tdefs d t s" and ?path = "step_path g d t s" and ?os = "(r_out r)\<lparr>wld := wo\<rparr>" and ?tx = "text_of_row (columnar g)"
  let ?e = "builder_env g d ?tds" and ?c = "file_at (step_path g d t s) (r_out r0)"
  let ?mk = "mk_row ?e pf t 0"
  have upd: "upd = 0" and tds: "r_tds r = ?tds" using ok by (simp_all add: running_ok_def Let_def)
  obtain i0 m st ws rest fin where p: "prepare gen_seed g pf t s r0 = Inr (i0, int m, r0\<lparr>r_tds := ?tds, r_streams := st\<rparr>)" "0 < m" "rng_inv st"
    and all: "gen_rows ?mk ?tds t i0 m st = Some (ws @ rest, fin)" and rest: "gen_rows ?mk ?tds t i (Suc n) (r_streams r) = Some (rest, fin)"
    and rows: "\<forall>w \<in> set rest. \<exists>j. row_ok ?e pf 0 t j w"
    and fl: "child_file g t ?path r0 ws r wo"
    using ok by (auto simp: running_ok_def Let_def)
  obtain w s1 s2 rest' where w: "?mk i (row_start t (r_streams r)) = Some (w, s1)" "row_stop False ?tds t s1 = Some s2"
    "gen_rows ?mk ?tds t (i + 1) n s2 = Some (rest', fin)" "rest = w # rest'"
    using rest by (auto split: Option.bind_splits)
  obtain j where j: "row_ok ?e pf 0 t j w" using rows w(4) by auto
  let ?rd = "table_ptr t 0" and ?wr = "table_set t 0" and ?cf = "config.truncate g"
  have "if concat (map ?tx ws) = [] \<and> ?rd ?os = None
      then can_open ?cf ?path ?os \<and> ?path = table_path ?cf (td_name (?tds ! nat t)) \<and> file_at ?path ?os = ?c
      else ?rd ?os = Some \<lparr>h_path = ?path, h_pos = length (concat (map ?tx ws))\<rparr> \<and>
        nodes (wld ?os) ?path = Some (Regular (overwrite 0 (concat (map ?tx ws)) ?c))"
  proof (cases "ws = []")
    case True
    then show ?thesis
      using fl can wo step_same(4) [OF t, of d s] by (simp add: child_file_def can_open_def file_at_def step_path_def)
  next
    case False
    then have "?rd ?os = Some \<lparr>h_path = ?path, h_pos = length (concat (map ?tx ws))\<rparr>"
      "nodes (wld ?os) ?path = Some (Regular (overwrite 0 (concat (map ?tx ws)) ?c))" using fl by (simp_all add: child_file_def Let_def)
    then show ?thesis by simp
  qed
  from table_file.pr_row [OF this, of "print_mode t 0" "?tx w"]
  obtain os where os: "print_row ?cf ?tds 0 w ?os = Inr os"
    "?rd os = Some \<lparr>h_path = ?path, h_pos = length (concat (map ?tx ws) @ ?tx w)\<rparr>"
    "nodes (wld os) ?path = Some (Regular (overwrite 0 (concat (map ?tx ws) @ ?tx w) ?c))" "same_elsewhere ?path wo (wld os)"
    using print_row_static [OF j, of ?cf ?tds 0] by (auto simp: config.truncate_def)
  let ?r' = "(on_world (\<lambda>_. wo) r)\<lparr>r_out := os, r_streams := s2\<rparr>"
  have "gen_row g pf d t seg i (k, upd) (on_world (\<lambda>_. wo) r) = Inr ((k, upd), ?r')"
    by (rule gen_row_quiet [OF g]) (use w(1,2) os(1) tds upd in simp_all)
  moreover have "running_ok g pf d t r0 s (i + 1) n upd ?r' (wld os)"
    unfolding running_ok_def Let_def
    using upd tds p all w(3,4) rows os(2,3)
    by (intro conjI exI [of _ i0] exI [of _ m] exI [of _ st] exI [of _ "ws @ [w]"] exI [of _ rest'] exI [of _ fin])
      (simp_all add: child_file_def)
  ultimately show thesis using that [of ?r'] os(4) by simp
qed

lemma prepare_world:
  assumes "step_ready g d t s r0" "t \<in> star_tables"
  shows "prepare gen_seed g pf t s (on_world (\<lambda>_. wo) r0) = map_sum id (\<lambda>(i, cnt, r). (i, cnt, on_world (\<lambda>_. wo) r)) (prepare gen_seed g pf t s r0)"
proof -
  have q: "quiet g" "g_direct g = 0" using assms(1) by (simp_all add: step_ready_def quiet_def)
  have "set_files g t s (r_tds r0) w = Inr (0, step_tdefs d t s, w)" for w
    using step_files [OF assms(2), of g d s] assms(1) by (simp add: step_ready_def)
  then show ?thesis
    using q(2) by (auto simp: prepare_def quiet_steps(1) [OF q(1)] on_world_def split: sum.splits)
qed

lemma start_turn:
  assumes rdy: "step_ready g d t s r0" and t: "t \<in> split_tables"
    and rows: "split_rows (td_base (star_tdefs d ! nat t)) (g_scale g) (g_children g) = (rows, extra)" "0 < rows" "rows < int (table_limit t)"
    and m: "m = nat (chunk_rows rows extra (g_children g) s)"
    and wo: "nodes wo (step_path g d t s) = nodes (wld (r_out r0)) (step_path g d t s)"
  obtains i r where "prepare gen_seed g pf t s (on_world (\<lambda>_. wo) r0) = Inr (i, int m, r)" "wld (r_out r) = wo"
    "running_ok g pf d t r0 s i m 0 r wo"
proof -
  have st: "t \<in> star_tables" using split_star [OF t] by blast
  let ?tds = "step_tdefs d t s"
  let ?e = "builder_env g d ?tds"
  obtain st where st: "rng_inv st" "prepare gen_seed g pf t s r0 = Inr (rows * (s - 1) + 1, chunk_rows rows extra (g_children g) s,
      r0\<lparr>r_tds := ?tds, r_streams := st\<rparr>)"
    using prepare_step [OF rdy t rows(1) _ rows(3)] rows(2) by (metis less_imp_le)
  note sz = step_size(2,3) [OF rdy t rows(1,2) m]
  have b: "benv_ok ?e" using rdy builder_env_ok [OF _ step_same(5) [OF \<open>t \<in> star_tables\<close>]] by (simp add: step_ready_def)
  have "be_tdefs ?e = ?tds" by (simp add: builder_env_def)
  then have T: "table_generator (mk_row ?e pf t 0) ?tds t (table_rate t) (row_ok ?e pf 0 t)"
    using row_table [OF b \<open>t \<in> star_tables\<close>] by simp
  obtain ws fin where ws: "gen_rows (mk_row ?e pf t 0) ?tds t (rows * (s - 1) + 1) m st = Some (ws, fin)" "length ws = m"
    "\<forall>k < m. row_ok ?e pf 0 t (rows * (s - 1) + 1 + int k) (ws ! k)"
    using table_generator.gen_rows_ok [OF T st(1)] by blast
  have wsok: "\<forall>w \<in> set ws. \<exists>j. row_ok ?e pf 0 t j w" using ws(2,3) by (metis in_set_conv_nth)
  let ?r = "on_world (\<lambda>_. wo) (r0\<lparr>r_tds := ?tds, r_streams := st\<rparr>)"
  have "prepare gen_seed g pf t s (on_world (\<lambda>_. wo) r0) = Inr (rows * (s - 1) + 1, int m, ?r)"
    using prepare_world [OF rdy \<open>t \<in> star_tables\<close>, of pf wo] st(2) sz(2) by simp
  moreover have "running_ok g pf d t r0 s (rows * (s - 1) + 1) m 0 ?r wo"
    unfolding running_ok_def Let_def
    using st sz ws(1) wsok wo rdy
    by (intro conjI exI [of _ "rows * (s - 1) + 1"] exI [of _ m] exI [of _ st] exI [of _ "[]"] exI [of _ ws] exI [of _ fin])
      (simp_all add: child_file_def step_ready_def)
  ultimately show thesis using that by simp
qed

subsection \<open>The pool keeps the invariant and makes progress\<close>

definition step_rows_of :: "globals \<Rightarrow> dists \<Rightarrow> int \<Rightarrow> int \<Rightarrow> nat" where
  "step_rows_of g d t s = (let (rows, extra) = split_rows (td_base (star_tdefs d ! nat t)) (g_scale g) (g_children g)
     in nat (chunk_rows rows extra (g_children g) s))"

fun to_do :: "globals \<Rightarrow> dists \<Rightarrow> int \<Rightarrow> child \<Rightarrow> nat" where
  "to_do g d t (Waiting s) = Suc (step_rows_of g d t s)"
| "to_do g d t (Running s seg i n su r) = n"

definition pool_work :: "globals \<Rightarrow> dists \<Rightarrow> int \<Rightarrow> child list \<Rightarrow> nat" where
  "pool_work g d t cs = sum_list (map (to_do g d t) cs)"

definition pool_ok :: "globals \<Rightarrow> platform \<Rightarrow> dists \<Rightarrow> int \<Rightarrow> run \<Rightarrow> child list \<times> world \<Rightarrow> bool" where
  "pool_ok g pf d t r0 P \<longleftrightarrow>
     (let (cs, wo) = P; wo0 = wld (r_out r0)
      in length cs = nat (g_children g) \<and> denied wo = denied wo0 \<and> statfails wo = statfails wo0 \<and>
         (\<forall>j < length cs. child_ok g pf d t r0 wo (int j + 1) (cs ! j)))"

text \<open>What \<open>pload\<close> needs: every step is ready, and the rows of a step can be skipped in one call.\<close>

definition pload_ready :: "globals \<Rightarrow> dists \<Rightarrow> int \<Rightarrow> run \<Rightarrow> bool" where
  "pload_ready g d t r0 \<longleftrightarrow> t \<in> split_tables \<and> 1 \<le> g_children g \<and> (\<forall>s \<in> {1..g_children g}. step_ready g d t s r0) \<and>
     (let rows = fst (split_rows (td_base (star_tdefs d ! nat t)) (g_scale g) (g_children g)) in 0 < rows \<and> rows < int (table_limit t))"

abbreviation silent :: "globals \<Rightarrow> globals" where "silent g \<equiv> g\<lparr>g_verbose := 0\<rparr>"

lemma silent_config: "config.truncate (silent g) = config.truncate g" "quiet g \<Longrightarrow> quiet (silent g)"
  by (simp_all add: config.truncate_def quiet_def)

lemma silent_ready: "pload_ready g d t r0 \<Longrightarrow> pload_ready (silent g) d t r0"
  by (simp add: pload_ready_def step_ready_def silent_config)

lemma work_update:
  "k < length cs \<Longrightarrow> Suc (to_do g d t c) = to_do g d t (cs ! k) \<Longrightarrow> pool_work g d t cs = Suc (pool_work g d t (cs[k := c]))"
proof -
  assume k: "k < length cs" and c: "Suc (to_do g d t c) = to_do g d t (cs ! k)"
  have "pool_work g d t (take k cs @ cs ! k # drop (Suc k) cs) = Suc (pool_work g d t (take k cs @ c # drop (Suc k) cs))"
    by (simp add: pool_work_def flip: c)
  then show ?thesis using k by (simp add: upd_conv_take_nth_drop id_take_nth_drop [symmetric])
qed

lemma pool_update:
  assumes "pool_ok g pf d t r0 (cs, wo)" "t \<in> star_tables" "k < length cs" "child_ok g pf d t r0 wo' (int k + 1) c"
    "same_elsewhere (step_path g d t (int k + 1)) wo wo'"
  shows "pool_ok g pf d t r0 (cs[k := c], wo')"
proof -
  have "child_ok g pf d t r0 wo' (int j + 1) (cs ! j)" if "j < length cs" "j \<noteq> k" for j
  proof (rule child_ok_frame [OF _ assms(5)])
    show "child_ok g pf d t r0 wo (int j + 1) (cs ! j)" using assms(1) that by (simp add: pool_ok_def Let_def)
    show "step_path g d t (int j + 1) \<noteq> step_path g d t (int k + 1)" using step_path_inj [OF assms(2), of "int j + 1" "int k + 1" g d] that(2) by auto
  qed
  then show ?thesis using assms(1,3-5) by (auto simp: pool_ok_def Let_def nth_list_update same_elsewhere_def)
qed

text \<open>What a child in a good pool does in its next turn.\<close>

lemma pool_okD:
  assumes "pload_ready g d t r0" "pool_ok (silent g) pf d t r0 (cs, wo)" "k < length cs"
  shows "denied wo = denied (wld (r_out r0))" "statfails wo = statfails (wld (r_out r0))"
    "child_ok (silent g) pf d t r0 wo (int k + 1) (cs ! k)" "step_ready (silent g) d t (int k + 1) r0"
    "t \<in> star_tables" "t \<in> split_tables"
  using silent_ready [OF assms(1)] assms(2,3) split_star [of t] by (auto simp: pool_ok_def Let_def pload_ready_def)

lemma turn_start:
  assumes "pload_ready g d t r0" "pool_ok (silent g) pf d t r0 (cs, wo)" "k < length cs" "cs ! k = Waiting s"
  shows "\<exists>i r. prepare gen_seed (silent g) pf t s (on_world (\<lambda>_. wo) r0) = Inr (i, int (step_rows_of (silent g) d t s), r) \<and> wld (r_out r) = wo \<and>
    running_ok (silent g) pf d t r0 s i (step_rows_of (silent g) d t s) 0 r wo \<and> s = int k + 1"
proof -
  let ?g = "silent g"
  note p = pool_okD [OF assms(1-3)]
  have s: "s = int k + 1" "nodes wo (step_path ?g d t s) = nodes (wld (r_out r0)) (step_path ?g d t s)" using p(3) assms(4) by simp_all
  obtain rows extra where r: "split_rows (td_base (star_tdefs d ! nat t)) (g_scale ?g) (g_children ?g) = (rows, extra)" by force
  then have "0 < rows" "rows < int (table_limit t)" using silent_ready [OF assms(1)] by (simp_all add: pload_ready_def)
  moreover have "step_rows_of ?g d t s = nat (chunk_rows rows extra (g_children ?g) (int k + 1))" using r s(1) by (simp add: step_rows_of_def)
  ultimately obtain i r' where "prepare gen_seed ?g pf t (int k + 1) (on_world (\<lambda>_. wo) r0) = Inr (i, int (step_rows_of ?g d t s), r')"
    "wld (r_out r') = wo" "running_ok ?g pf d t r0 (int k + 1) i (step_rows_of ?g d t s) 0 r' wo"
    using start_turn [OF p(4,6) r, where m = "step_rows_of ?g d t s"] s by metis
  then show ?thesis using s(1) by metis
qed

lemma turn_row:
  assumes "pload_ready g d t r0" "pool_ok (silent g) pf d t r0 (cs, wo)" "k < length cs" "cs ! k = Running s seg i (Suc n) su r"
  shows "\<exists>su' r'. gen_row (silent g) pf d t seg i su (on_world (\<lambda>_. wo) r) = Inr (su', r') \<and>
    running_ok (silent g) pf d t r0 s (i + 1) n (snd su') r' (wld (r_out r')) \<and>
    same_elsewhere (step_path (silent g) d t s) wo (wld (r_out r')) \<and> s = int k + 1"
proof -
  let ?g = "silent g"
  note p = pool_okD [OF assms(1-3)]
  have s: "s = int k + 1" "running_ok ?g pf d t r0 s i (Suc n) (snd su) r wo" using p(3) assms(4) by simp_all
  have q: "quiet ?g" "can_open (config.truncate ?g) (step_path ?g d t s) ((r_out r0)\<lparr>wld := wld (r_out r0)\<rparr>)"
    using p(4) s(1) by (simp_all add: step_ready_def step_path_def)
  obtain r' where "gen_row ?g pf d t seg i (fst su, snd su) (on_world (\<lambda>_. wo) r) = Inr ((fst su, snd su), r')"
    "running_ok ?g pf d t r0 s (i + 1) n (snd su) r' (wld (r_out r'))" "same_elsewhere (step_path ?g d t s) wo (wld (r_out r'))"
    by (rule gen_row_turn [OF q(1) p(5) s(2) q(2) refl p(1,2)])
  then show ?thesis using s(1) by auto
qed

lemma par_step_ok:
  assumes rdy: "pload_ready g d t r0" and st: "par_step g pf d t r0 P P'" and ok: "pool_ok (silent g) pf d t r0 P"
  shows "pool_ok (silent g) pf d t r0 P' \<and> pool_work (silent g) d t (fst P) = Suc (pool_work (silent g) d t (fst P'))"
  using st ok
proof (cases rule: par_step.cases)
  case (start k cs s wo i cnt r)
  obtain i' r' where n: "prepare gen_seed (silent g) pf t s (on_world (\<lambda>_. wo) r0) = Inr (i', int (step_rows_of (silent g) d t s), r')"
    "wld (r_out r') = wo" "running_ok (silent g) pf d t r0 s i' (step_rows_of (silent g) d t s) 0 r' wo" "s = int k + 1"
    using turn_start [OF rdy, of pf cs wo k s] ok start by auto
  let ?c = "Running s (insert_split g cnt) i (nat cnt) (- 1, 0) r"
  have eq: "i = i'" "nat cnt = step_rows_of (silent g) d t s" "r = r'" using n(1) start(5) by simp_all
  have "same_elsewhere (step_path (silent g) d t (int k + 1)) wo (wld (r_out r))" using n(2) eq by (simp add: same_elsewhere_def)
  then have "pool_ok (silent g) pf d t r0 (cs[k := ?c], wld (r_out r))"
    using pool_update [of "silent g" pf d t r0 cs wo k "wld (r_out r)" ?c] ok start n eq pool_okD(5) [OF rdy] by simp
  then show ?thesis using start work_update [of k cs "silent g" d t ?c] eq by simp
next
  case (row k cs s seg i n su r wo su' r')
  obtain su2 r2 where n: "gen_row (silent g) pf d t seg i su (on_world (\<lambda>_. wo) r) = Inr (su2, r2)"
    "running_ok (silent g) pf d t r0 s (i + 1) n (snd su2) r2 (wld (r_out r2))"
    "same_elsewhere (step_path (silent g) d t s) wo (wld (r_out r2))" "s = int k + 1"
    using turn_row [OF rdy, of pf cs wo k s seg i n su r] ok row by auto
  let ?c = "Running s seg (i + 1) n su' r'"
  have eq: "su' = su2" "r' = r2" using n(1) row(5) by simp_all
  have "pool_ok (silent g) pf d t r0 (cs[k := ?c], wld (r_out r'))"
    using pool_update [of "silent g" pf d t r0 cs wo k "wld (r_out r')" ?c] ok row n eq pool_okD(5) [OF rdy] by simp
  then show ?thesis using row work_update [of k cs "silent g" d t ?c] by simp
qed

lemma par_step_progress:
  assumes rdy: "pload_ready g d t r0" and ok: "pool_ok (silent g) pf d t r0 (cs, wo)" and w: "0 < pool_work (silent g) d t cs"
  shows "\<exists>P'. par_step g pf d t r0 (cs, wo) P'"
proof -
  have "\<exists>c \<in> set cs. 0 < to_do (silent g) d t c"
  proof (rule ccontr)
    assume "\<not> ?thesis"
    then have "pool_work (silent g) d t cs = 0" by (simp add: pool_work_def)
    with w show False by simp
  qed
  then obtain k where k: "k < length cs" "0 < to_do (silent g) d t (cs ! k)" by (auto simp: in_set_conv_nth)
  show ?thesis
  proof (cases "cs ! k")
    case (Waiting s)
    then show ?thesis using turn_start [OF rdy ok k(1) Waiting] par_step.start [OF k(1) Waiting] by fastforce
  next
    case (Running s seg i m su r)
    then obtain n where n: "m = Suc n" using k(2) by (cases m) simp_all
    show ?thesis using turn_row [OF rdy ok k(1) Running [unfolded n]] par_step.row [OF k(1) Running [unfolded n]] by fastforce
  qed
qed

subsection \<open>All schedules\<close>

lemma pool_start_ok: "pload_ready g d t r0 \<Longrightarrow> pool_ok (silent g) pf d t r0 (pool_start g r0)"
  by (simp add: pool_ok_def pool_start_def Let_def nth_upto)

lemma pool_start_work:
  assumes "pload_ready g d t r0"
  shows "pool_work (silent g) d t (fst (pool_start g r0)) = nat (g_children g + td_base (star_tdefs d ! nat t) * g_scale g)"
proof -
  let ?base = "td_base (star_tdefs d ! nat t)" and ?n = "g_children g"
  obtain rows extra where r: "split_rows ?base (g_scale g) ?n = (rows, extra)" by force
  have n: "1 \<le> ?n" "0 < rows" "t \<in> split_tables" and "step_ready g d t 1 r0" using assms r by (simp_all add: pload_ready_def)
  then have sc: "0 \<le> g_scale g" by (simp add: step_ready_def)
  have base: "0 \<le> ?base" using star_bases [of d] n(3) by (auto simp: split_tables_def simp del: CUST_def SUPP_def PART_def LINE_def)
  note sum = split_rows_sum [OF base _ sc r]
  have each: "step_rows_of (silent g) d t s = nat (chunk_rows rows extra ?n s)" for s using r by (simp add: step_rows_of_def)
  have "[1..?n] = [1..?n - 1] @ [?n]" using n(1) by (simp add: upto_rec2)
  moreover have "map (\<lambda>s. Suc (nat (chunk_rows rows extra ?n s))) [1..?n - 1] = map (\<lambda>_. Suc (nat rows)) [1..?n - 1]"
    by (rule map_cong) (auto simp: chunk_rows_def)
  then have "sum_list (map (\<lambda>s. Suc (nat (chunk_rows rows extra ?n s))) [1..?n - 1]) = Suc (nat rows) * length [1..?n - 1]"
    by (simp only: sum_list_triv) simp
  ultimately have "pool_work (silent g) d t (fst (pool_start g r0)) = Suc (nat rows) * length [1..?n - 1] + Suc (nat (rows + extra))"
    by (simp add: pool_work_def pool_start_def comp_def each) (simp add: chunk_rows_def)
  also have "length [1..?n - 1] = nat (?n - 1)" by simp
  finally have "int (pool_work (silent g) d t (fst (pool_start g r0))) = (1 + rows) * (?n - 1) + (1 + (rows + extra))"
    using n sum(2) by (simp add: distrib_right)
  also have "\<dots> = ?n + (rows * ?n + extra)" by (simp add: algebra_simps)
  finally show ?thesis using sum(1) n(1) by simp
qed

lemma schedule_ok:
  assumes "pload_ready g d t r0"
  shows "(par_step g pf d t r0 ^^ k) (pool_start g r0) P \<Longrightarrow> pool_ok (silent g) pf d t r0 P \<and>
    k + pool_work (silent g) d t (fst P) = nat (g_children g + td_base (star_tdefs d ! nat t) * g_scale g)"
proof (induction k arbitrary: P)
  case 0
  then show ?case using pool_start_ok [OF assms] pool_start_work [OF assms] by simp
next
  case (Suc k)
  then obtain P1 where "(par_step g pf d t r0 ^^ k) (pool_start g r0) P1" "par_step g pf d t r0 P1 P" by auto
  then show ?case using Suc.IH [of P1] par_step_ok [OF assms, of pf P1 P] by auto
qed

lemma finished_file:
  assumes rdy: "pload_ready g d t r0" and ok: "pool_ok (silent g) pf d t r0 (cs, wo)" and w: "pool_work (silent g) d t cs = 0"
    and s: "1 \<le> s" "s \<le> g_children g"
  shows "\<exists>r'. partial (silent g) pf d t s 0 r0 = Inr r' \<and>
    file_at (step_path g d t s) (outs_init wo) = file_at (step_path g d t s) (r_out r')"
proof -
  let ?g = "silent g" and ?tds = "step_tdefs d t s" and ?path = "step_path g d t s" and ?tx = "text_of_row (columnar g)"
  let ?k = "nat (s - 1)"
  have len: "length cs = nat (g_children g)" using ok by (simp add: pool_ok_def Let_def)
  then have k: "?k < length cs" "int ?k + 1 = s" using s by simp_all
  note p = pool_okD [OF rdy ok k(1), unfolded k(2)]
  have "cs ! ?k \<in> set cs" using k(1) by simp
  then have "to_do ?g d t (cs ! ?k) = 0" using w by (simp add: pool_work_def)
  then obtain seg i su r where run: "running_ok ?g pf d t r0 s i 0 (snd su) r wo" using p(3) by (cases "cs ! ?k") auto
  have q: "quiet ?g" using p(4) by (simp add: step_ready_def)
  have path: "step_path ?g d t s = ?path" by (simp add: step_path_def silent_config)
  obtain i0 m st ws fin where r: "prepare gen_seed ?g pf t s r0 = Inr (i0, int m, r0\<lparr>r_tds := ?tds, r_streams := st\<rparr>)" "0 < m" "rng_inv st"
    "gen_rows (mk_row (builder_env ?g d ?tds) pf t 0) ?tds t i0 m st = Some (ws, fin)" "child_file ?g t ?path r0 ws r wo"
    using run path by (auto simp: running_ok_def Let_def)
  let ?r = "r0\<lparr>r_tds := ?tds, r_streams := st\<rparr>"
  have b: "benv_ok (builder_env ?g d (r_tds ?r))" using p(4) builder_env_ok [OF _ step_same(5) [OF p(5)]] by (simp add: step_ready_def)
  have o: "?path = table_path (config.truncate ?g) (td_name (r_tds ?r ! nat t))" "can_open (config.truncate ?g) ?path (r_out ?r)"
    "table_ptr t 0 (r_out ?r) = None"
    using p(4) step_same(4) [OF p(5), of d s] path by (simp_all add: step_ready_def step_path_def)
  obtain ws2 r' where ws: "gen_tbl ?g pf d t i0 (int m) 0 ?r = Inr r'" "length ws2 = m"
    "gen_rows (mk_row (builder_env ?g d ?tds) pf t 0) ?tds t i0 m st = Some (ws2, r_streams r')"
    "file_at ?path (r_out r') = concat (map ?tx ws2) @ drop (length (concat (map ?tx ws2))) (file_at ?path (r_out r0))"
    using gen_tbl_writes [where i = i0 and pf = pf, OF q p(5) b _ r(2) o] r(3) by auto
  have "ws2 = ws" "ws \<noteq> []" using ws(2,3) r(2,4) by auto
  then have "file_at ?path (outs_init wo) = file_at ?path (r_out r')"
    using r(5) ws(4) by (simp add: child_file_def Let_def file_at_def outs_init_def overwrite_def)
  moreover have "partial ?g pf d t s 0 r0 = Inr r'" using r(1) ws(1) by (simp add: partial_def quiet_steps(1) [OF q])
  ultimately show ?thesis by blast
qed

text \<open>
  C5: the children of \<open>pload\<close> under every schedule.  After \<open>k\<close> turns another one is possible exactly when \<open>k\<close> is less than the
  number of children plus the number of rows, so that no child waits for another and every schedule ends; then the file of
  each step holds what the child leaves in it that runs alone.
\<close>

theorem pload_schedules:
  assumes "pload_ready g d t r0" "(par_step g pf d t r0 ^^ k) (pool_start g r0) (cs, wo)"
    and "turns = nat (g_children g + td_base (star_tdefs d ! nat t) * g_scale g)"
  shows "k \<le> turns \<and> ((\<exists>P. par_step g pf d t r0 (cs, wo) P) \<longleftrightarrow> k < turns) \<and>
    (k = turns \<longrightarrow> (\<forall>s \<in> {1..g_children g}. \<exists>r'. partial (g\<lparr>g_verbose := 0\<rparr>) pf d t s 0 r0 = Inr r' \<and>
      file_at (step_path g d t s) (outs_init wo) = file_at (step_path g d t s) (r_out r')))"
proof -
  have ok: "pool_ok (silent g) pf d t r0 (cs, wo)" and w: "k + pool_work (silent g) d t cs = turns"
    using schedule_ok [OF assms(1,2)] assms(3) by simp_all
  show ?thesis
  proof (intro conjI iffI impI ballI)
    show "k \<le> turns" using w by simp
    show "k < turns" if "\<exists>P. par_step g pf d t r0 (cs, wo) P" using that par_step_ok [OF assms(1) _ ok] w by fastforce
    show "\<exists>P. par_step g pf d t r0 (cs, wo) P" if "k < turns" using par_step_progress [OF assms(1) ok] w that by simp
  next
    fix s assume "k = turns" "s \<in> {1..g_children g}"
    then show "\<exists>r'. partial (silent g) pf d t s 0 r0 = Inr r' \<and>
        file_at (step_path g d t s) (outs_init wo) = file_at (step_path g d t s) (r_out r')"
      using finished_file [OF assms(1) ok, of s] w by simp
  qed
qed

lemma demo_steps_ready:
  assumes "1 \<le> s" "s \<le> 4"
  shows "step_ready demo_parallel ssb_dists CUST s star_run"
proof -
  have len: "length (fmt_d s) \<le> 11" using length_fmt_int [of s] assms by simp
  have name: "step_name ssb_dists CUST s = ''customer.tbl.'' @ fmt_d s"
    by (simp add: step_name_def star_tdefs_def loaded_tdefs_def main_tdefs_def ssb_tdefs_def mk_tdef_def Let_def)
  have path: "table_path (config.truncate demo_parallel) (step_name ssb_dists CUST s) = ''./customer.tbl.'' @ fmt_d s"
    unfolding name by (simp add: table_path_def env_config_def demo_parallel_def demo_globals_def main_globals_def config.truncate_def)
  have "can_open (config.truncate demo_parallel) (''./customer.tbl.'' @ fmt_d s) (r_out star_run)"
    using len by (simp add: can_open_def demo_parallel_def demo_globals_def main_globals_def config.truncate_def star_run_def outs_init_def empty_world_def)
  moreover have "quiet demo_parallel" using demo_quiet by (simp add: quiet_def demo_parallel_def)
  ultimately show ?thesis
    unfolding step_ready_def path unfolding name using len assms
    by (simp add: ssb_dists_ok demo_parallel_def demo_globals_def main_globals_def table_bit_def bit_exp_iff star_run_def rng_init_inv
      table_ptr_def outs_init_def)
qed

theorem pload_schedules_witness:
  "\<exists>P. par_step demo_parallel demo_platform ssb_dists CUST star_run (pool_start demo_parallel star_run) P"
proof -
  have g: "g_scale demo_parallel = 1" "g_children demo_parallel = 4" by (simp_all add: demo_parallel_def demo_globals_def main_globals_def)
  have "split_rows (td_base (star_tdefs ssb_dists ! nat CUST)) (g_scale demo_parallel) (g_children demo_parallel) = (7500, 0)"
    unfolding star_bases g by (simp add: split_rows_def sdiv_nonneg smod_nonneg)
  then have "pload_ready demo_parallel ssb_dists CUST star_run"
    using demo_steps_ready by (simp add: pload_ready_def g split_tables_def table_limit_def)
  from pload_schedules [OF this, where pf = demo_platform and k = 0 and cs = "fst (pool_start demo_parallel star_run)" and
    wo = "snd (pool_start demo_parallel star_run)", OF _ refl]
  show ?thesis unfolding star_bases g by simp
qed

end
