(* ===== verification/Query_Params.thy ===== *)
theory Query_Params
  imports Bm_Utils Calendar
begin

text \<open>
  \<open>varsub.c\<close>, the drawing half: the values \<open>qgen\<close> substitutes for the parameters of the queries 1 to 22, each
  from the random stream that has the number of the query.  Queries 7 and 12 draw again until a
  second choice differs from the first, which is a loop without a bound.  Shown: the loop ends whenever the
  distribution has two different choices, because the stream runs through its full period; every query then gets
  parameters of the kind its template expects.
\<close>

record qdists = dists +
  nations2 :: distribution
  q13a :: distribution
  q13b :: distribution

subsection \<open>Draws\<close>

text \<open>A parameter is a buffer of 128 bytes; a longer text is written into the next one.\<close>

definition PARAM_LEN :: nat where "PARAM_LEN = 128"

definition pick :: "distribution \<Rightarrow> int \<Rightarrow> rng \<Rightarrow> (nat \<times> string \<times> rng) option" where
  "pick d q s = do { (i, w, s) \<leftarrow> pick_str d q s; if length w < PARAM_LEN then Some (i, w, s) else None }"

definition unif :: "int \<Rightarrow> int \<Rightarrow> int \<Rightarrow> rng \<Rightarrow> (int \<times> rng) option" where
  "unif lo hi q s = Some (UnifInt lo hi q s)"

text \<open>\<open>while (pick_str(d, q, param) == k);\<close>  The loop has the value \<open>None\<close> when it does not end.\<close>

partial_function (option) pick_other :: "distribution \<Rightarrow> int \<Rightarrow> nat \<Rightarrow> rng \<Rightarrow> (string \<times> rng) option" where
  "pick_other d q k s = Option.bind (pick d q s) (\<lambda>(i, w, s). if i = k then pick_other d q k s else Some (w, s))"

text \<open>What follows the last blank of a text, and what precedes it; without a blank the pointer runs off the
  buffer.\<close>

definition after_blank :: "string \<Rightarrow> string option" where
  "after_blank w = (if CHR '' '' \<in> set w then Some (rev (takeWhile (\<lambda>c. c \<noteq> CHR '' '') (rev w))) else None)"

definition before_blank :: "string \<Rightarrow> string option" where
  "before_blank w = (if CHR '' '' \<in> set w then Some (rev (tl (dropWhile (\<lambda>c. c \<noteq> CHR '' '') (rev w)))) else None)"

definition month_param :: "int \<Rightarrow> string" where
  "month_param t = ''19'' @ fmt_0d 2 (93 + t sdiv 12) @ ''-'' @ fmt_0d 2 (t smod 12 + 1) @ ''-01''"

definition year_param :: "int \<Rightarrow> string" where
  "year_param t = ''19'' @ fmt_d t @ ''-01-01''"

definition brand_param :: "int \<Rightarrow> int \<Rightarrow> string" where
  "brand_param a b = ''Brand#'' @ fmt_d a @ fmt_d b"

text \<open>\<open>%11.10f\<close>; a number beyond the largest double is infinite.\<close>

definition fmt_f10 :: "rat \<Rightarrow> string" where
  "fmt_f10 x =
     pad_left 11 CHR '' '' ((if x < 0 then ''-'' else []) @
       (if 2 ^ 1024 \<le> \<bar>x\<bar> then ''inf''
        else let n = nat (rne (\<bar>x\<bar> * 10 ^ 10)) in dec (n div 10 ^ 10) @ ''.'' @ fmt_0d 10 (int (n mod 10 ^ 10))))"

definition Q11_FRACTION :: rat where "Q11_FRACTION = dround (1 / 10000)"

text \<open>\<open>Q11_FRACTION / flt_scale\<close>; a scale of 0 gives infinity.\<close>

definition q11_param :: "rat \<Rightarrow> string" where
  "q11_param sf = (if sf = 0 then pad_left 11 CHR '' '' ''inf'' else fmt_f10 (ddiv Q11_FRACTION sf))"

text \<open>\<open>n\<close> calls of \<open>permute\<close>, the first with the array.  What the arrays \<open>sizes\<close> and \<open>ccode\<close> hold does not
  matter: \<open>permute\<close> fills them anew.\<close>

fun permute_calls :: "nat \<Rightarrow> int list option \<Rightarrow> int \<Rightarrow> int \<Rightarrow> perm \<Rightarrow> rng \<Rightarrow> int list \<times> perm \<times> rng" where
  "permute_calls 0 a c q p s = ([], p, s)"
| "permute_calls (Suc n) a c q p s =
     (let (k, p, s) = permute a c q p s; (ks, p, s) = permute_calls n None c q p s in (k # ks, p, s))"

definition sizes :: "int list" where "sizes = [1..50]"
definition ccode :: "int list" where "ccode = [10..34]"

subsection \<open>The parameters of a query\<close>

text \<open>The texts stored to \<open>param[1]\<close>, \<open>param[2]\<close>, ..., the empty one at the end included.\<close>

definition draw_params :: "('a qdists_scheme) \<Rightarrow> string list \<Rightarrow> rat \<Rightarrow> int \<Rightarrow> perm \<Rightarrow> rng \<Rightarrow> (string list \<times> perm \<times> rng) option" where
  "draw_params d asc sf q p s =
     (if q = 1 then do { (n, s) \<leftarrow> unif 60 120 q s; Some ([fmt_d n, []], p, s) }
      else if q = 2 then do {
        (n, s) \<leftarrow> unif P_SIZE_MIN P_SIZE_MAX q s;
        (_, w, s) \<leftarrow> pick (p_types_set d) q s;
        t \<leftarrow> after_blank w;
        (_, r, s) \<leftarrow> pick (regions d) q s;
        Some ([fmt_d n, t, r, []], p, s) }
      else if q = 3 then do {
        (_, w, s) \<leftarrow> pick (c_mseg_set d) q s;
        (t, s) \<leftarrow> unif 0 30 q s;
        if nat (t + 1155) < length asc then Some ([w, asc ! nat (t + 1155), []], p, s) else None }
      else if q = 4 \<or> q = 15 then do { (t, s) \<leftarrow> unif 1 58 q s; Some ([month_param t, []], p, s) }
      else if q = 5 then do {
        (_, w, s) \<leftarrow> pick (regions d) q s;
        (t, s) \<leftarrow> unif 93 97 q s;
        Some ([w, year_param t, []], p, s) }
      else if q = 6 then do {
        (t, s) \<leftarrow> unif 93 97 q s;
        (n, s) \<leftarrow> unif 2 9 q s;
        (m, s) \<leftarrow> unif 24 25 q s;
        Some ([year_param t, ''0.0'' @ fmt_d n, fmt_d m, []], p, s) }
      else if q = 7 then do {
        (i, v, s) \<leftarrow> pick (nations2 d) q s;
        (w, s) \<leftarrow> pick_other (nations2 d) q i s;
        Some ([v, w, []], p, s) }
      else if q = 8 then do {
        (i, v, s) \<leftarrow> pick (nations2 d) q s;
        if i < length (dlist (nations d)) then do {
          r \<leftarrow> DIST_MEMBER (regions d) (weight (dlist (nations d) ! i));
          if length r < PARAM_LEN then do {
            (_, w, s) \<leftarrow> pick (p_types_set d) q s;
            Some ([v, r, w, []], p, s) }
          else None }
        else None }
      else if q = 9 then do { (_, w, s) \<leftarrow> pick (colors d) q s; Some ([w, []], p, s) }
      else if q = 10 then do { (t, s) \<leftarrow> unif 1 24 q s; Some ([month_param t, []], p, s) }
      else if q = 11 then do {
        (_, w, s) \<leftarrow> pick (nations2 d) q s;
        if length (q11_param sf) < PARAM_LEN then Some ([w, q11_param sf, []], p, s) else None }
      else if q = 12 then do {
        (i, v, s) \<leftarrow> pick (l_smode_set d) q s;
        (w, s) \<leftarrow> pick_other (l_smode_set d) q i s;
        (t, s) \<leftarrow> unif 93 97 q s;
        Some ([v, w, year_param t, []], p, s) }
      else if q = 13 then do {
        (_, v, s) \<leftarrow> pick (q13a d) q s;
        (_, w, s) \<leftarrow> pick (q13b d) q s;
        Some ([v, w, []], p, s) }
      else if q = 14 then do { (t, s) \<leftarrow> unif 1 60 q s; Some ([month_param t, []], p, s) }
      else if q = 16 then do {
        (a, s) \<leftarrow> unif 1 5 q s;
        (b, s) \<leftarrow> unif 1 5 q s;
        (_, w, s) \<leftarrow> pick (p_types_set d) q s;
        t \<leftarrow> before_blank w;
        let (ks, p, s) = permute_calls 8 (Some sizes) 50 q p s;
        Some (brand_param a b # t # map (\<lambda>k. fmt_d (k + 1)) ks, p, s) }
      else if q = 17 then do {
        (a, s) \<leftarrow> unif 1 5 q s;
        (b, s) \<leftarrow> unif 1 5 q s;
        (_, w, s) \<leftarrow> pick (p_cntr_set d) q s;
        Some ([brand_param a b, w, []], p, s) }
      else if q = 18 then do { (n, s) \<leftarrow> unif 312 315 q s; Some ([fmt_d n, []], p, s) }
      else if q = 19 then do {
        (a, s) \<leftarrow> unif 1 5 q s;
        (b, s) \<leftarrow> unif 1 5 q s;
        (a', s) \<leftarrow> unif 1 5 q s;
        (b', s) \<leftarrow> unif 1 5 q s;
        (a'', s) \<leftarrow> unif 1 5 q s;
        (b'', s) \<leftarrow> unif 1 5 q s;
        (l, s) \<leftarrow> unif 1 10 q s;
        (m, s) \<leftarrow> unif 10 20 q s;
        (n, s) \<leftarrow> unif 20 30 q s;
        Some ([brand_param a b, brand_param a' b', brand_param a'' b'', fmt_d l, fmt_d m, fmt_d n, []], p, s) }
      else if q = 20 then do {
        (_, v, s) \<leftarrow> pick (colors d) q s;
        (t, s) \<leftarrow> unif 93 97 q s;
        (_, w, s) \<leftarrow> pick (nations2 d) q s;
        Some ([v, year_param t, w, []], p, s) }
      else if q = 21 then do { (_, w, s) \<leftarrow> pick (nations2 d) q s; Some ([w, []], p, s) }
      else if q = 22 then
        (let (ks, p, s) = permute_calls 8 (Some ccode) 25 q p s
         in Some (map (\<lambda>k. fmt_d (10 + k)) (take 7 ks) @ [[]], p, s))
      else Some ([], p, s))"

subsection \<open>The second choice\<close>

text \<open>\<open>succeeds m Q\<close>: the partial computation \<open>m\<close> returns, with a result in \<open>Q\<close>.\<close>

definition succeeds :: "'a option \<Rightarrow> ('a \<Rightarrow> bool) \<Rightarrow> bool" where
  "succeeds m Q \<longleftrightarrow> (\<exists>x. m = Some x \<and> Q x)"

named_theorems draw_rules \<open>what a draw followed by the rest of the computation must satisfy\<close>

lemma succeeds_Some [simp]: "succeeds (Some x) Q \<longleftrightarrow> Q x"
  by (simp add: succeeds_def)

lemma succeeds_bind: "succeeds m P \<Longrightarrow> (\<And>x. P x \<Longrightarrow> succeeds (f x) Q) \<Longrightarrow> succeeds (Option.bind m f) Q"
  by (auto simp: succeeds_def)

lemma unif_ensures [draw_rules]:
  assumes "rng_ok s" "lo \<le> hi" "hi - lo < 2 ^ 53 - 1"
    and "\<And>n s'. lo \<le> n \<Longrightarrow> n \<le> hi \<Longrightarrow> rng_ok s' \<Longrightarrow> succeeds (f n s') Q"
  shows "succeeds (Option.bind (unif lo hi q s) (\<lambda>(n, s). f n s)) Q"
proof -
  have "UnifInt lo hi q s = (fst (UnifInt lo hi q s), snd (UnifInt lo hi q s))" by simp
  moreover have "seed_ok (NextRand (sd_value (Seed s ! clip_stream q)))"
    by (rule NextRand_ok [OF rng_okD(2) [OF assms(1) clip_stream_less]])
  moreover have "rng_ok (snd (UnifInt lo hi q s))"
    using rng_okD [OF assms(1)] clip_stream_less [of q] NextRand_ok
    by (intro rng_okI) (auto simp: UnifInt_alt [OF assms(1)] upd_seed_def nth_list_update)
  ultimately show ?thesis
    using assms(4) [of "fst (UnifInt lo hi q s)" "snd (UnifInt lo hi q s)"] unif_value_bounds [of _ lo hi] assms(1-3)
    by (simp add: unif_def succeeds_def UnifInt_alt)
qed

text \<open>A distribution for parameters: loaded, with texts that fit into a parameter.\<close>

definition words_fit :: "distribution \<Rightarrow> bool" where
  "words_fit d \<longleftrightarrow> dist_ok d \<and> list_all (\<lambda>m. length (sm_text m) < PARAM_LEN) (dlist d)"

text \<open>The entry that a value of the seed selects.\<close>

definition choice :: "distribution \<Rightarrow> int \<Rightarrow> nat" where
  "choice d v = the (pick_index (dlist d) (unif_value 1 (weight (last (dlist d))) v))"

lemma pick_choice:
  assumes "rng_ok s" "words_fit d" "0 \<le> q" "q \<le> 47"
  defines "i \<equiv> choice d (NextRand (sd_value (Seed s ! nat q)))"
  obtains s' where "pick d q s = Some (i, sm_text (dlist d ! i), s')" "i < length (dlist d)" "rng_ok s'"
    "sd_value (Seed s' ! nat q) = NextRand (sd_value (Seed s ! nat q))"
proof -
  have d: "dist_ok d" using assms(2) by (simp add: words_fit_def)
  obtain k s' where k: "pick_str d q s = Some (k, sm_text (dlist d ! k), s')" "k < length (dlist d)"
    "moves (one_at (nat q)) (one_at (nat q)) s s'" by (rule pick_str_props [OF assms(1) d assms(3,4)])
  have "dlist d ! nat (dcount d - 1) = last (dlist d)" "0 < dcount d" "dcount d \<le> int (length (dlist d))"
    using d by (auto simp: dist_ok_def last_conv_nth nat_diff_distrib)
  then have "i = k"
    using k(1) dss_random_value [OF assms(1), of 1 "weight (last (dlist d))" q] assms(3,4)
    by (auto simp: pick_str_def i_def choice_def split: prod.splits)
  moreover have "length (sm_text (dlist d ! k)) < PARAM_LEN" using assms(2) k(2) by (simp add: words_fit_def list_all_length)
  ultimately show thesis
    using that k moves_ok [OF k(3) assms(1)] moves_value [OF k(3) assms(1), of "nat q"] assms(3,4)
    by (simp add: pick_def one_at_def)
qed

lemma pick_ensures [draw_rules]:
  assumes "rng_ok s" "words_fit d" "0 \<le> q" "q \<le> 47"
    and "\<And>i s'. i < length (dlist d) \<Longrightarrow> rng_ok s' \<Longrightarrow> succeeds (f i (sm_text (dlist d ! i)) s') Q"
  shows "succeeds (Option.bind (pick d q s) (\<lambda>(i, w, s). f i w s)) Q"
  by (rule pick_choice [OF assms(1-4)]) (simp add: assms(5))

text \<open>Two different choices: the first entry has a weight, and not the whole weight.\<close>

definition two_choices :: "distribution \<Rightarrow> bool" where
  "two_choices d \<longleftrightarrow> 1 \<le> weight (dlist d ! 0) \<and> weight (dlist d ! 0) < weight (last (dlist d)) \<and> weight (last (dlist d)) \<le> 10 ^ 6"

text \<open>The least and the greatest seed draw the ends of the range: two roundings do not reach the next number.\<close>

lemma small_draw:
  assumes "0 \<le> a" "a \<le> 1 / 10 ^ 9" "0 \<le> w" "w \<le> (10 ^ 6 :: rat)"
  shows "0 \<le> dround (a * w) \<and> dround (a * w) < 1"
proof -
  have y: "0 \<le> a * w" "a * w \<le> 1 / 10 ^ 9 * 10 ^ 6" using assms by (simp, intro mult_mono) simp_all
  have "\<bar>dround (a * w) - a * w\<bar> \<le> a * w / 2 ^ 53" using dround_error [of "a * w"] y(1) by simp
  then have "dround (a * w) - a * w \<le> a * w / 2 ^ 53" by (rule order_trans [OF abs_ge_self])
  moreover have "a * w / 2 ^ 53 \<le> a * w" using y(1) divide_left_mono [of 1 "2 ^ 53" "a * w"] by simp
  moreover have "(1 / 10 ^ 9 * 10 ^ 6 :: rat) = 1 / 1000" by simp
  ultimately have "dround (a * w) < 1" using y by linarith
  then show ?thesis using y(1) by (simp add: dround_nonneg)
qed

lemma large_draw:
  assumes "1 - 1 / 10 ^ 9 \<le> b" "b \<le> 1" "1 \<le> w" "w \<le> (10 ^ 6 :: rat)"
  shows "w - 1 \<le> dround (b * w)"
proof -
  have "w - b * w = (1 - b) * w" by (simp only: left_diff_distrib mult_1)
  also have "\<dots> \<le> 1 / 10 ^ 9 * 10 ^ 6" using assms by (intro mult_mono) simp_all
  finally have y: "w - b * w \<le> 1 / 1000" by simp
  have y': "0 \<le> b * w" "b * w \<le> 10 ^ 6" using assms mult_mono [of b 1 w "10 ^ 6"] by simp_all
  have "\<bar>dround (b * w) - b * w\<bar> \<le> b * w / 2 ^ 53" using dround_error [of "b * w"] y'(1) by simp
  moreover have "b * w / 2 ^ 53 \<le> 10 ^ 6 / 2 ^ 53" using y'(2) by (rule divide_right_mono) simp
  moreover have "(10 ^ 6 / 2 ^ 53 :: rat) \<le> 1 / 1000" by simp
  ultimately show ?thesis using y by linarith
qed

lemma unif_value_ends:
  assumes "1 \<le> W" "W \<le> 10 ^ 6"
  shows "unif_value 1 W 1 = 1" "unif_value 1 W (nM - 1) = W"
proof -
  have W: "(1::rat) \<le> of_int W" "of_int W \<le> (10 ^ 6 :: rat)"
    using assms by (simp_all add: of_int_le_iff [where ?'a = rat, of W "10 ^ 6", simplified])
  have d: "d_of_long 1 = 1" "d_of_long (nM - 1) = 2147483646" "d_of_long W = of_int W"
    using assms by (simp_all add: d_of_long_exact nM_def)
  define a where "a = dround (1 / 2147483647)"
  have "0 \<le> a" unfolding a_def by (rule dround_nonneg) simp
  moreover have "a \<le> 1 / 2147483647 * (1 + 1 / 2 ^ 53)" unfolding a_def by (rule dround_upper) simp
  then have "a \<le> 1 / 10 ^ 9" by (rule order_trans) simp
  ultimately have x: "0 \<le> dround (a * of_int W)" "dround (a * of_int W) < 1" using small_draw [of a "of_int W"] W by simp_all
  have "unif_value 1 W 1 = 1 + \<lfloor>dround (a * of_int W)\<rfloor>"
    using assms(1) x(1) by (simp add: unif_value_def Let_def d ddiv_def dmul_def dM_def long_of_d_def a_def)
  moreover have "\<lfloor>dround (a * of_int W)\<rfloor> = 0" using x by (simp add: floor_eq_iff)
  ultimately show "unif_value 1 W 1 = 1" by simp
  define b where "b = dround (2147483646 / 2147483647)"
  have "\<bar>b - 2147483646 / 2147483647\<bar> \<le> \<bar>2147483646 / 2147483647\<bar> / 2 ^ 53"
    unfolding b_def by (rule dround_error)
  moreover have "(2147483646 / 2147483647 - 1 / 10 ^ 10 :: rat) \<ge> 1 - 1 / 10 ^ 9"
    "(2147483646 / 2147483647 + \<bar>2147483646 / 2147483647\<bar> / 2 ^ 53 :: rat) \<le> 1"
    "(\<bar>2147483646 / 2147483647\<bar> / 2 ^ 53 :: rat) \<le> 1 / 10 ^ 10" by simp_all
  ultimately have "1 - 1 / 10 ^ 9 \<le> b" "b \<le> 1" by linarith+
  then have y: "of_int (W - 1) \<le> dround (b * of_int W)" "0 \<le> dround (b * of_int W)"
    using large_draw [of b "of_int W"] W by (simp_all add: dround_nonneg)
  have "unif_value 1 W (nM - 1) = 1 + \<lfloor>dround (b * of_int W)\<rfloor>"
    using assms(1) y(2) by (simp add: unif_value_def Let_def d ddiv_def dmul_def dM_def long_of_d_def b_def)
  moreover have "W - 1 \<le> \<lfloor>dround (b * of_int W)\<rfloor>" using y(1) by (simp only: le_floor_iff)
  moreover have "unif_value 1 W (nM - 1) \<le> W"
    using unif_value_bounds(2) [of "nM - 1" 1 W] assms by (simp add: seed_ok_def nM_def)
  ultimately show "unif_value 1 W (nM - 1) = W" by linarith
qed

text \<open>The period of the stream contains a value that selects something other than \<open>k\<close>.\<close>

lemma other_choice:
  assumes "dist_ok d" "two_choices d"
  obtains v where "seed_ok v" "choice d v \<noteq> k"
proof -
  let ?W = "weight (last (dlist d))"
  have W: "1 \<le> ?W" "?W \<le> 10 ^ 6" and ne: "dlist d \<noteq> []" using assms by (auto simp: two_choices_def dist_ok_def)
  note u = unif_value_ends [OF W]
  obtain m ms where m: "dlist d = m # ms" using ne by (cases "dlist d") auto
  have "choice d 1 = 0" using assms(2) u(1) by (simp add: choice_def two_choices_def m)
  moreover obtain i where "pick_index (dlist d) ?W = Some i" "?W \<le> weight (dlist d ! i)"
    using pick_index_least [OF ne, of ?W] by auto
  then have "choice d (nM - 1) \<noteq> 0" using assms(2) u(2) by (cases i) (auto simp: choice_def two_choices_def)
  moreover have "seed_ok 1" "seed_ok (nM - 1)" by (simp_all add: seed_ok_def nM_def)
  ultimately show thesis using that by (cases "k = 0") auto
qed

lemma pick_other_returns:
  assumes "words_fit d" "0 \<le> q" "q \<le> 47"
  shows "rng_ok s \<Longrightarrow> choice d ((NextRand ^^ Suc n) (sd_value (Seed s ! nat q))) \<noteq> k \<Longrightarrow>
    \<exists>i s'. pick_other d q k s = Some (sm_text (dlist d ! i), s') \<and> i < length (dlist d) \<and> i \<noteq> k \<and> rng_ok s'"
proof (induction n arbitrary: s)
  case 0
  then show ?case
    by (subst pick_other.simps) (rule pick_choice [OF 0(1) assms], auto)
next
  case (Suc n)
  let ?i = "choice d (NextRand (sd_value (Seed s ! nat q)))"
  obtain s' where s': "pick d q s = Some (?i, sm_text (dlist d ! ?i), s')" "?i < length (dlist d)" "rng_ok s'"
    "sd_value (Seed s' ! nat q) = NextRand (sd_value (Seed s ! nat q))" by (rule pick_choice [OF Suc.prems(1) assms])
  show ?case
  proof (cases "?i = k")
    case True
    have "choice d ((NextRand ^^ Suc n) (sd_value (Seed s' ! nat q))) \<noteq> k"
      using Suc.prems(2) unfolding s'(4) by (simp only: funpow_Suc_right o_apply not_False_eq_True)
    from Suc.IH [OF s'(3) this] True show ?thesis by (subst pick_other.simps) (simp add: s'(1))
  next
    case False
    then show ?thesis using s'(1-3) by (subst pick_other.simps) auto
  qed
qed

lemma pick_other_ensures [draw_rules]:
  assumes "rng_ok s" "words_fit d" "two_choices d" "0 \<le> q" "q \<le> 47"
    and "\<And>i s'. i < length (dlist d) \<Longrightarrow> i \<noteq> k \<Longrightarrow> rng_ok s' \<Longrightarrow> succeeds (f (sm_text (dlist d ! i)) s') Q"
  shows "succeeds (Option.bind (pick_other d q k s) (\<lambda>(w, s). f w s)) Q"
proof -
  have d: "dist_ok d" using assms(2) by (simp add: words_fit_def)
  have "nat q < 48" using assms(5) by simp
  then have v: "seed_ok (NextRand (sd_value (Seed s ! nat q)))" by (intro NextRand_ok rng_okD(2) [OF assms(1)])
  obtain t where t: "seed_ok t" "choice d t \<noteq> k" by (rule other_choice [OF d assms(3)])
  obtain n where "(NextRand ^^ n) (NextRand (sd_value (Seed s ! nat q))) = t" using NextRand_reaches [OF v t(1)] by blast
  then have "choice d ((NextRand ^^ Suc n) (sd_value (Seed s ! nat q))) \<noteq> k"
    using t(2) by (simp only: funpow_Suc_right o_apply not_False_eq_True)
  from pick_other_returns [OF assms(2,4,5,1) this] show ?thesis using assms(6) by (auto simp: succeeds_def)
qed

subsection \<open>What the queries get\<close>

definition words :: "distribution \<Rightarrow> string set" where
  "words d = sm_text ` set (dlist d)"

definition first_of_month :: "int \<Rightarrow> int \<Rightarrow> string" where
  "first_of_month y m = ''19'' @ fmt_0d 2 y @ ''-'' @ fmt_0d 2 m @ ''-01''"

definition month_texts :: "int \<Rightarrow> int \<Rightarrow> string set" where
  "month_texts lo hi = {first_of_month y m | y m. 1 \<le> m \<and> m \<le> 12 \<and> lo \<le> 12 * y + m \<and> 12 * y + m \<le> hi}"

definition year_texts :: "string set" where "year_texts = year_param ` {93..97}"

definition brands :: "string set" where "brands = {brand_param a b | a b. a \<in> {1..5} \<and> b \<in> {1..5}}"

definition numbers :: "int \<Rightarrow> int \<Rightarrow> string set" where "numbers lo hi = fmt_d ` {lo..hi}"

text \<open>The texts of one list, each in the set at its place.\<close>

fun each_in :: "'a list \<Rightarrow> 'a set list \<Rightarrow> bool" where
  "each_in [] [] \<longleftrightarrow> True"
| "each_in (x # xs) (A # As) \<longleftrightarrow> x \<in> A \<and> each_in xs As"
| "each_in _ _ \<longleftrightarrow> False"

text \<open>The texts of two different entries.\<close>

definition two_of :: "distribution \<Rightarrow> string \<Rightarrow> string \<Rightarrow> bool" where
  "two_of d v w \<longleftrightarrow> (\<exists>i j. i < length (dlist d) \<and> j < length (dlist d) \<and> i \<noteq> j \<and>
     v = sm_text (dlist d ! i) \<and> w = sm_text (dlist d ! j))"

text \<open>The months of queries 4, 10, 14 and 15 count from February 1993.\<close>

definition param_ok :: "'a qdists_scheme \<Rightarrow> rat \<Rightarrow> int \<Rightarrow> string list \<Rightarrow> bool" where
  "param_ok d sf q ps \<longleftrightarrow>
     (if q = 1 then each_in ps [numbers 60 120, {[]}]
      else if q = 2 then each_in ps [numbers 1 50, {v. \<exists>u. u @ '' '' @ v \<in> words (p_types_set d) \<and> CHR '' '' \<notin> set v}, words (regions d), {[]}]
      else if q = 3 then each_in ps [words (c_mseg_set d), numbers 19950301 19950331, {[]}]
      else if q = 4 \<or> q = 15 then each_in ps [month_texts (12 * 93 + 2) (12 * 97 + 11), {[]}]
      else if q = 5 then each_in ps [words (regions d), year_texts, {[]}]
      else if q = 6 then each_in ps [year_texts, (\<lambda>t. ''0.0'' @ t) ` numbers 2 9, numbers 24 25, {[]}]
      else if q = 7 then \<exists>v w. two_of (nations2 d) v w \<and> ps = [v, w, []]
      else if q = 8 then \<exists>i w. i < length (dlist (nations2 d)) \<and> w \<in> words (p_types_set d) \<and>
        ps = [sm_text (dlist (nations2 d) ! i), sm_text (dlist (regions d) ! nat (weight (dlist (nations d) ! i))), w, []]
      else if q = 9 then each_in ps [words (colors d), {[]}]
      else if q = 10 then each_in ps [month_texts (12 * 93 + 2) (12 * 95 + 1), {[]}]
      else if q = 11 then each_in ps [words (nations2 d), {q11_param sf}, {[]}]
      else if q = 12 then \<exists>v w t. two_of (l_smode_set d) v w \<and> t \<in> year_texts \<and> ps = [v, w, t, []]
      else if q = 13 then each_in ps [words (q13a d), words (q13b d), {[]}]
      else if q = 14 then each_in ps [month_texts (12 * 93 + 2) (12 * 98 + 1), {[]}]
      else if q = 16 then \<exists>b t ks. b \<in> brands \<and> (\<exists>v. t @ '' '' @ v \<in> words (p_types_set d) \<and> CHR '' '' \<notin> set v) \<and>
        length ks = 8 \<and> distinct ks \<and> set ks \<subseteq> {1..50} \<and> ps = b # t # map fmt_d ks
      else if q = 17 then each_in ps [brands, words (p_cntr_set d), {[]}]
      else if q = 18 then each_in ps [numbers 312 315, {[]}]
      else if q = 19 then each_in ps [brands, brands, brands, numbers 1 10, numbers 10 20, numbers 20 30, {[]}]
      else if q = 20 then each_in ps [words (colors d), year_texts, words (nations2 d), {[]}]
      else if q = 21 then each_in ps [words (nations2 d), {[]}]
      else \<exists>ks. length ks = 7 \<and> distinct ks \<and> set ks \<subseteq> {10..34} \<and> ps = map fmt_d ks @ [[]])"

definition qdists_ok :: "'a qdists_scheme \<Rightarrow> bool" where
  "qdists_ok d \<longleftrightarrow> list_all words_fit [p_types_set d, regions d, c_mseg_set d, nations2 d, colors d, l_smode_set d, p_cntr_set d, q13a d, q13b d] \<and>
     two_choices (nations2 d) \<and> two_choices (l_smode_set d) \<and> list_all (\<lambda>m. CHR '' '' \<in> set (sm_text m)) (dlist (p_types_set d)) \<and>
     length (dlist (nations2 d)) \<le> length (dlist (nations d)) \<and>
     list_all (\<lambda>m. 0 \<le> weight m \<and> weight m < int (length (dlist (regions d)))) (dlist (nations d))"

lemma last_blank:
  assumes "CHR '' '' \<in> set w"
  obtains u v where "w = u @ '' '' @ v" "CHR '' '' \<notin> set v" "after_blank w = Some v" "before_blank w = Some u"
proof -
  obtain u v where w: "w = u @ CHR '' '' # v" "CHR '' '' \<notin> set v" using split_list_last [OF assms] by blast
  then have "\<forall>c \<in> set v. c \<noteq> CHR '' ''" by blast
  then have "takeWhile (\<lambda>c. c \<noteq> CHR '' '') (rev w) = rev v" "dropWhile (\<lambda>c. c \<noteq> CHR '' '') (rev w) = CHR '' '' # rev u"
    unfolding w(1) by (simp_all add: takeWhile_append dropWhile_append)
  then show thesis using that w by (simp add: after_blank_def before_blank_def)
qed

lemma month_param_text:
  assumes "0 \<le> t" "lo \<le> t + 12 * 93 + 1" "t + 12 * 93 + 1 \<le> hi"
  shows "month_param t \<in> month_texts lo hi"
proof -
  have "12 * (93 + t div 12) + (t mod 12 + 1) = t + 12 * 93 + 1" by simp
  moreover have "1 \<le> t mod 12 + 1" "t mod 12 + 1 \<le> 12" by simp_all
  moreover have "month_param t = first_of_month (93 + t div 12) (t mod 12 + 1)"
    using assms(1) by (simp add: month_param_def first_of_month_def sdiv_nonneg smod_nonneg)
  ultimately show ?thesis using assms(2,3) unfolding month_texts_def by (intro CollectI exI conjI) auto
qed

lemma permute_rest:
  "pset p = a \<Longrightarrow> source p = int j \<Longrightarrow> j + n < c \<Longrightarrow> length a = c \<Longrightarrow>
   \<exists>p'. permute_calls n None (int c) q p s = (take n (drop (Suc j) a), p', s)"
proof (induction n arbitrary: j p)
  case (Suc n)
  have j: "j + 1 < c" using Suc.prems(3) by simp
  obtain p' where "permute_calls n None (int c) q (p\<lparr>source := int (j + 1)\<rparr>) s = (take n (drop (Suc (j + 1)) a), p', s)"
    using Suc.IH [of "p\<lparr>source := int (j + 1)\<rparr>" "j + 1"] Suc.prems by auto
  moreover have "take (Suc n) (drop (Suc j) a) = a ! (j + 1) # take n (drop (Suc (j + 1)) a)"
    using j Suc.prems(4) by (simp add: Cons_nth_drop_Suc [symmetric])
  ultimately show ?case
    using Suc.prems by (simp add: permute_next [OF Suc.prems(2) j] del: of_nat_add of_nat_Suc)
qed simp

lemma permute_draws:
  assumes "rng_ok s" "length a = c" "n < c" "c < 2 ^ 31" "0 \<le> q" "q \<le> 47"
  obtains ks p' s' where "permute_calls (Suc n) (Some a) (int c) q p s = (ks, p', s')" "length ks = Suc n" "distinct ks"
    "set ks \<subseteq> {0..<int c}" "rng_ok s'"
proof -
  have c: "0 < c" using assms(3) by simp
  let ?sh = "fst (shuffle c q s)" and ?s' = "snd (shuffle c q s)"
  note sh = shuffle_props [OF assms(1) c assms(4-6)]
  obtain p' where p': "permute_calls n None (int c) q (p\<lparr>pset := ?sh, source := 0\<rparr>) ?s' = (take n (drop (Suc 0) ?sh), p', ?s')"
    using permute_rest [of "p\<lparr>pset := ?sh, source := 0\<rparr>" ?sh 0 n c] assms(3) sh(1) by auto
  have hd: "?sh ! 0 # take n (drop (Suc 0) ?sh) = take (Suc n) ?sh" using sh(1) c by (cases ?sh) simp_all
  have "permute_calls (Suc n) (Some a) (int c) q p s = (take (Suc n) ?sh, p', ?s')"
    using p' by (simp add: permute_first [OF c assms(2)] hd)
  moreover have "rng_ok ?s'" using shuffle_perm(2) [OF assms(1) c assms(4-6)] assms(1) by (rule moves_ok)
  ultimately show thesis
    using that sh assms(3) by (auto simp: distinct_take dest: in_set_takeD)
qed

lemma march_dates:
  assumes "0 \<le> t" "t \<le> 30"
  shows "nat (t + 1155) < length (the mk_ascdate)" "the mk_ascdate ! nat (t + 1155) = fmt_d (19950301 + t)"
proof -
  define n where "n = nat t"
  have n: "n < 31" "t = int n" using assms by (simp_all add: n_def)
  then have "split_year 1992 (n + 1155) = (1995, n + 59)" "split_month 1995 1 (n + 59) = (3, n + 1)"
    by (simp_all add: split_year.simps split_month.simps year_len_def month_len_def greg_leap_def)
  then have "int (date_key (calendar (nat t + 1155))) = 19950301 + t"
    using n by (simp add: calendar_split date_key_def)
  moreover have "nat (t + 1155) = nat t + 1155" "nat t + 1155 < 2557" using assms by simp_all
  ultimately show "nat (t + 1155) < length (the mk_ascdate)" "the mk_ascdate ! nat (t + 1155) = fmt_d (19950301 + t)"
    by (simp_all add: mk_ascdate_calendar del: upt_rec_numeral)
qed

lemma Q11_fits:
  assumes "1 \<le> sf"
  shows "length (q11_param sf) < PARAM_LEN"
proof -
  have q: "0 \<le> Q11_FRACTION" "Q11_FRACTION \<le> 1"
    unfolding Q11_FRACTION_def using dround_upper [of "1 / 10000"] by (auto intro!: dround_nonneg)
  have "Q11_FRACTION / sf \<le> 1 / 1" using q assms by (intro frac_le) simp_all
  moreover have "0 \<le> Q11_FRACTION / sf" using q assms by simp
  ultimately have d: "0 \<le> ddiv Q11_FRACTION sf" "ddiv Q11_FRACTION sf \<le> 2"
    using dround_upper [of "Q11_FRACTION / sf"] mult_mono [of "Q11_FRACTION / sf" 1 "1 + 1 / 2 ^ 53" 2] unfolding ddiv_def
    by (auto intro!: dround_nonneg intro: order_trans)
  define n where "n = nat (rne (ddiv Q11_FRACTION sf * 10 ^ 10))"
  have "rne y \<le> \<lfloor>y\<rfloor> + 1" for y by (simp add: rne_def Let_def)
  then have "rne (ddiv Q11_FRACTION sf * 10 ^ 10) \<le> \<lfloor>ddiv Q11_FRACTION sf * 10 ^ 10\<rfloor> + 1" .
  also have "\<dots> \<le> 2 * 10 ^ 10 + 1" using d floor_mono [of "ddiv Q11_FRACTION sf * 10 ^ 10" "2 * 10 ^ 10"] by simp
  finally have "n div 10 ^ 10 < 10 ^ 2" by (simp add: n_def)
  then have "length (dec (n div 10 ^ 10)) \<le> 2" by (rule length_dec_le) simp
  moreover have "length (fmt_0d 10 (int (n mod 10 ^ 10))) = 10" by (rule length_fmt_0d) simp_all
  ultimately show ?thesis
    using assms d by (simp add: q11_param_def fmt_f10_def PARAM_LEN_def Let_def n_def)
qed

lemma if_ensures [draw_rules]: "c \<Longrightarrow> succeeds m Q \<Longrightarrow> succeeds (if c then m else None) Q"
  by simp

lemma blank_ensures [draw_rules]:
  assumes "CHR '' '' \<in> set w" "\<And>u v. w = u @ '' '' @ v \<Longrightarrow> CHR '' '' \<notin> set v \<Longrightarrow> succeeds (f v) Q"
  shows "succeeds (Option.bind (after_blank w) f) Q"
  by (rule last_blank [OF assms(1)]) (use assms(2) in simp)

lemma before_ensures [draw_rules]:
  assumes "CHR '' '' \<in> set w" "\<And>u v. w = u @ '' '' @ v \<Longrightarrow> CHR '' '' \<notin> set v \<Longrightarrow> succeeds (f u) Q"
  shows "succeeds (Option.bind (before_blank w) f) Q"
  by (rule last_blank [OF assms(1)]) (use assms(2) in simp)

lemma member_ensures [draw_rules]:
  assumes "0 \<le> i" "i < int (length (dlist d))" "succeeds (f (sm_text (dlist d ! nat i))) Q"
  shows "succeeds (Option.bind (DIST_MEMBER d i) f) Q"
  using assms by (simp add: DIST_MEMBER_def)

lemma permute_ensures [draw_rules]:
  assumes "rng_ok s" "length a = nat c" "0 < n" "n \<le> nat c" "c < 2 ^ 31" "0 \<le> q" "q \<le> 47"
    and "\<And>ks p' s'. length ks = n \<Longrightarrow> distinct ks \<Longrightarrow> set ks \<subseteq> {0..<c} \<Longrightarrow> rng_ok s' \<Longrightarrow> succeeds (f ks p' s') Q"
  shows "succeeds (case permute_calls n (Some a) c q p s of (ks, p, s) \<Rightarrow> f ks p s) Q"
proof -
  obtain m where m: "n = Suc m" using assms(3) by (cases n) simp_all
  have c: "c = int (nat c)" "nat c < 2 ^ 31" "m < nat c" using assms(3-5) m by (simp_all add: nat_less_iff)
  obtain ks p' s' where "permute_calls (Suc m) (Some a) (int (nat c)) q p s = (ks, p', s')" "length ks = Suc m" "distinct ks"
    "set ks \<subseteq> {0..<int (nat c)}" "rng_ok s'" by (rule permute_draws [OF assms(1,2) c(3,2) assms(6,7)])
  with assms(8) c(1) m show ?thesis by (simp del: permute_calls.simps)
qed

lemma shifted_numbers:
  assumes "length ks = n" "distinct ks" "set ks \<subseteq> {0..<c}" "m \<le> n"
  shows "\<exists>ks'. length ks' = m \<and> distinct ks' \<and> set ks' \<subseteq> {a..a + c - 1} \<and> map (\<lambda>k. fmt_d (a + k)) (take m ks) = map fmt_d ks'"
  using assms by (intro exI [of _ "map (\<lambda>k. a + k) (take m ks)"])
    (auto simp: distinct_map inj_on_def comp_def distinct_take dest!: in_set_takeD)

lemma words_nth: "i < length (dlist d) \<Longrightarrow> sm_text (dlist d ! i) \<in> words d"
  by (simp add: words_def)

lemma two_ofI:
  "i < length (dlist d) \<Longrightarrow> j < length (dlist d) \<Longrightarrow> j \<noteq> i \<Longrightarrow> two_of d (sm_text (dlist d ! i)) (sm_text (dlist d ! j))"
  unfolding two_of_def by (rule exI [of _ i], rule exI [of _ j]) simp

lemma year_textsI: "93 \<le> t \<Longrightarrow> t \<le> 97 \<Longrightarrow> year_param t \<in> year_texts"
  by (simp add: year_texts_def)

lemmas text_sets = two_ofI words_nth numbers_def year_textsI brands_def

lemma param_ok_16:
  assumes "1 \<le> a" "a \<le> 5" "1 \<le> b" "b \<le> 5" "i < length (dlist (p_types_set d))"
    and "sm_text (dlist (p_types_set d) ! i) = t @ CHR '' '' # v" "CHR '' '' \<notin> set v"
    and "length ks = 8" "distinct ks" "set ks \<subseteq> {0..<50}"
  shows "param_ok d sf 16 (brand_param a b # t # map (\<lambda>k. fmt_d (k + 1)) ks)"
proof -
  have "t @ '' '' @ v \<in> words (p_types_set d)" using words_nth [OF assms(5)] assms(6) by simp
  moreover have "brand_param a b \<in> brands" using assms(1-4) by (auto simp: brands_def)
  moreover obtain ks' where "length ks' = 8" "distinct ks'" "set ks' \<subseteq> {1..50}" "map (\<lambda>k. fmt_d (k + 1)) ks = map fmt_d ks'"
    using shifted_numbers [OF assms(8-10), of 8 1] assms(8) by (auto simp: add.commute)
  ultimately show ?thesis using assms(7) by (simp add: param_ok_def) blast
qed

lemma param_ok_22:
  assumes "length ks = 8" "distinct ks" "set ks \<subseteq> {0..<25}"
  shows "param_ok d sf 22 (map (\<lambda>k. fmt_d (10 + k)) (take 7 ks) @ [[]])"
  using shifted_numbers [OF assms, of 7 10] by (simp add: param_ok_def)

lemma draw_params_ensures:
  assumes "rng_ok s" "qdists_ok d" "1 \<le> sf" "1 \<le> q" "q \<le> 22"
  shows "succeeds (draw_params d (the mk_ascdate) sf q p s) (\<lambda>(ps, p', s'). param_ok d sf q ps \<and> rng_ok s')"
proof -
  note d = assms(2) [unfolded qdists_ok_def, simplified]
  have m: "month_param t \<in> month_texts 1118 hi" if "1 \<le> t" "t + 1117 \<le> hi" for t hi
    using month_param_text [of t 1118 hi] that by simp
  have blank: "CHR '' '' \<in> set (sm_text (dlist (p_types_set d) ! i))" if "i < length (dlist (p_types_set d))" for i
    using d that by (simp add: list_all_length)
  have reg: "0 \<le> weight (dlist (nations d) ! i)" "weight (dlist (nations d) ! i) < int (length (dlist (regions d)))"
    "length (sm_text (dlist (regions d) ! nat (weight (dlist (nations d) ! i)))) < PARAM_LEN"
    "i < length (dlist (nations d))" if "i < length (dlist (nations2 d))" for i
  proof -
    show i: "i < length (dlist (nations d))" using d that by linarith
    then show r: "0 \<le> weight (dlist (nations d) ! i)" "weight (dlist (nations d) ! i) < int (length (dlist (regions d)))"
      using d by (auto simp: list_all_length)
    then show "length (sm_text (dlist (regions d) ! nat (weight (dlist (nations d) ! i)))) < PARAM_LEN"
      using d by (simp add: words_fit_def list_all_length nat_less_iff)
  qed
  have "set [1..22] = {1,2,3,4,5,6,7,8,9,10,11,12,13,14,15,16,17,18,19,20,21, 22 :: int}" by code_simp
  then have "q \<in> {1,2,3,4,5,6,7,8,9,10,11,12,13,14,15,16,17,18,19,20,21,22}" using assms(4,5) by (metis atLeastAtMost_iff set_upto)
  then consider (plain) "q \<in> {1, 4, 5, 6, 9, 10, 11, 13, 14, 15, 17, 18, 19, 20, 21}" | "q = 2" | "q = 3" | "q = 7" | "q = 8" | "q = 12" | "q = 16" | "q = 22"
    by blast
  then show ?thesis
  proof cases
    case plain
    then show ?thesis
      using assms(1,3) d unfolding insert_iff empty_iff
      by (elim disjE FalseE) (simp_all add: draw_params_def, (intro draw_rules; auto simp: param_ok_def text_sets m Q11_fits)+)
  next
    case 2
    then show ?thesis using assms(1) d unfolding draw_params_def by (simp, intro draw_rules) (auto simp: param_ok_def text_sets blank, (metis words_nth)+)
  next
    case 3
    then show ?thesis using assms(1) d unfolding draw_params_def by (simp, intro draw_rules) (auto simp: param_ok_def text_sets march_dates)
  next
    case 4
    then show ?thesis using assms(1) d unfolding draw_params_def by (simp, intro draw_rules) (simp_all add: param_ok_def text_sets)
  next
    case 5
    then show ?thesis using assms(1) d unfolding draw_params_def by (simp, intro draw_rules) (auto simp: param_ok_def text_sets reg)
  next
    case 6
    then show ?thesis using assms(1) d unfolding draw_params_def by (simp, intro draw_rules) (simp_all add: param_ok_def text_sets)
  next
    case 7
    then show ?thesis using assms(1) d blank unfolding draw_params_def
      by (simp add: Let_def del: permute_calls.simps, intro draw_rules) (simp_all add: param_ok_16 sizes_def del: permute_calls.simps)
  next
    case 8
    then show ?thesis using assms(1) unfolding draw_params_def
      by (simp add: Let_def del: permute_calls.simps, intro draw_rules) (simp_all add: param_ok_22 ccode_def del: permute_calls.simps)
  qed
qed

end
