(* ===== verification/Query_Gen.thy ===== *)
theory Query_Gen
  imports Driver Query_Params
begin

text \<open>
  The query generator \<open>qgen\<close>: \<open>qgen.c\<close>, the printing half of \<open>varsub.c\<close>, the SQL dialects of \<open>tpcd.h\<close> and the
  query orders of \<open>permute.h\<close>.  A query template is a text with marks \<open>:1\<close>, \<open>:2\<close>, ... for the parameters and
  letters for other insertions; \<open>qgen\<close> copies it to standard output with the marks replaced.

  A run holds the random streams, the static variables of \<open>permute\<close>, \<open>varsub\<close>, \<open>qsub\<close> and \<open>strip_comments\<close>, the
  world and the text written to standard error.
\<close>

definition nl :: string where "nl = [CHR 0x0A]"
definition tab :: string where "tab = [CHR 0x09]"

subsection \<open>Dialects\<close>

record dialect =
  gen_query_plan :: string
  start_tran :: string
  end_tran :: string
  set_output :: string
  set_rowcount :: "int \<Rightarrow> string"
  set_dbase :: "string \<Rightarrow> string"

definition DB2 :: dialect where
  "DB2 = \<lparr>gen_query_plan = ''SET CURRENT EXPLAIN SNAPSHOT ON;'', start_tran = '''', end_tran = ''COMMIT WORK;'', set_output = '''',
     set_rowcount = (\<lambda>n. ''--#SET ROWS_FETCH '' @ fmt_d n @ nl), set_dbase = (\<lambda>s. ''CONNECT TO '' @ s @ '' ;'' @ nl)\<rparr>"

definition INFORMIX :: dialect where
  "INFORMIX = \<lparr>gen_query_plan = ''SET EXPLAIN ON;'', start_tran = ''BEGIN WORK;'', end_tran = ''COMMIT WORK;'', set_output = ''OUTPUT TO '',
     set_rowcount = (\<lambda>n. ''FIRST '' @ fmt_d n), set_dbase = (\<lambda>s. ''database '' @ s @ '' ;'' @ nl)\<rparr>"

definition SQLSERVER :: dialect where
  "SQLSERVER = \<lparr>gen_query_plan = ''set showplan on'' @ nl @ ''set noexec on'' @ nl @ ''go'' @ nl,
     start_tran = ''begin transaction'' @ nl @ ''go'' @ nl, end_tran = ''commit transaction'' @ nl @ ''go'' @ nl, set_output = '''',
     set_rowcount = (\<lambda>n. ''set rowcount '' @ fmt_d n @ nl @ ''go'' @ nl @ nl), set_dbase = (\<lambda>s. ''use '' @ s @ nl @ ''go'' @ nl)\<rparr>"

definition SYBASE :: dialect where "SYBASE = SQLSERVER"

definition TDAT :: dialect where
  "TDAT = \<lparr>gen_query_plan = ''EXPLAIN'', start_tran = ''BEGIN TRANSACTION'', end_tran = ''END TRANSACTION'',
     set_output = ''.SET FORMAT OFF'' @ nl @ ''.EXPORT REPORT file='',
     set_rowcount = (\<lambda>n. ''.SET RETCANCEL ON'' @ nl @ ''.SET RETLIMIT '' @ fmt_d n @ nl), set_dbase = (\<lambda>s. ''.LOGON '' @ s @ nl)\<rparr>"

subsection \<open>Flags\<close>

definition DFLT :: int where "DFLT = 0x0001"
definition OUTPUT :: int where "OUTPUT = 0x0002"
definition EXPLAIN :: int where "EXPLAIN = 0x0004"
definition DBASE :: int where "DBASE = 0x0008"
definition VERBOSE :: int where "VERBOSE = 0x0010"
definition LOG :: int where "LOG = 0x0040"
definition ANSI :: int where "ANSI = 0x0200"
definition SEED :: int where "SEED = 0x0400"
definition COMMENT :: int where "COMMENT = 0x0800"
definition INIT :: int where "INIT = 0x1000"
definition TERMINATE :: int where "TERMINATE = 0x2000"
definition DFLT_NUM :: int where "DFLT_NUM = 0x4000"

lemmas flag_defs = DFLT_def OUTPUT_def EXPLAIN_def DBASE_def VERBOSE_def LOG_def ANSI_def SEED_def COMMENT_def INIT_def TERMINATE_def DFLT_NUM_def

definition flag :: "int \<Rightarrow> int \<Rightarrow> bool" where "flag fl f \<longleftrightarrow> and fl f \<noteq> 0"

subsection \<open>State\<close>

text \<open>What options set, and the state of a run.\<close>

record qopts =
  q_flags :: int
  q_snum :: int
  q_rndm :: int
  q_scale :: rat
  q_osuff :: string
  q_db :: string
  q_lfile :: string
  q_ifile :: string
  q_tfile :: string
  q_dpath :: "string option"

record qrun =
  qr_rng :: rng
  qr_perm :: perm
  qr_param :: "string list"
  qr_log :: bool
  qr_comment :: bool
  qr_rowcnt :: int
  qr_wld :: world
  qr_err :: string

definition q_print :: "string \<Rightarrow> qrun \<Rightarrow> qrun" where "q_print t r = r\<lparr>qr_wld := printf t (qr_wld r)\<rparr>"
definition q_eprint :: "string \<Rightarrow> qrun \<Rightarrow> qrun" where "q_eprint t r = r\<lparr>qr_err := qr_err r @ t\<rparr>"

subsection \<open>\<open>strip_comments\<close>\<close>

text \<open>The line after stripping and whether a comment is open; \<open>cp1\<close> stays at the start of the line.  The
  overlapping \<open>strcpy\<close> is taken to move the text forward.\<close>

definition open_comment :: "string \<Rightarrow> string" where
  "open_comment l = takeWhile (\<lambda>c. c \<noteq> CHR ''{'') l @ CHR '' '' # tl (dropWhile (\<lambda>c. c \<noteq> CHR ''{'') l)"

function strip_comments :: "bool \<Rightarrow> string \<Rightarrow> bool \<times> string" where
  "strip_comments True l =
     (case dropWhile (\<lambda>c. c \<noteq> CHR ''}'') l of [] \<Rightarrow> (True, []) | _ # r \<Rightarrow> strip_comments False r)"
| "strip_comments False l =
     (if take 2 (dropWhile (\<lambda>c. c \<noteq> CHR ''-'') l) = ''--'' then (False, takeWhile (\<lambda>c. c \<noteq> CHR ''-'') l)
      else if CHR ''{'' \<in> set l then strip_comments True (open_comment l)
      else (False, l))"
  by pat_completeness auto

lemma open_comment_braces: "CHR ''{'' \<in> set l \<Longrightarrow> length (filter (\<lambda>c. c \<in> {CHR ''{'', CHR ''}''}) (open_comment l)) <
    length (filter (\<lambda>c. c \<in> {CHR ''{'', CHR ''}''}) l)"
  by (induction l) (auto simp: open_comment_def)

lemma close_comment_braces: "dropWhile (\<lambda>c. c \<noteq> CHR ''}'') l = c # r \<Longrightarrow> length (filter (\<lambda>c. c \<in> {CHR ''{'', CHR ''}''}) r) <
    length (filter (\<lambda>c. c \<in> {CHR ''{'', CHR ''}''}) l)"
  by (induction l) (auto split: if_splits)

termination strip_comments
  by (relation "measure (\<lambda>(_, l). length (filter (\<lambda>c. c \<in> {CHR ''{'', CHR ''}''}) l))")
    (auto dest: close_comment_braces open_comment_braces)

declare strip_comments.simps [simp del]

subsection \<open>\<open>varsub\<close>\<close>

definition defaults :: "string list list" where
  "defaults =
    [[''90''],
     [''15'', ''BRASS'', ''EUROPE''],
     [''BUILDING'', ''1995-03-15''],
     [''1993-07-01''],
     [''ASIA'', ''1994-01-01''],
     [''1994-01-01'', ''.06'', ''24''],
     [''FRANCE'', ''GERMANY''],
     [''BRAZIL'', ''AMERICA'', ''ECONOMY ANODIZED STEEL''],
     [''green''],
     [''1993-10-01''],
     [''GERMANY'', ''0.0001''],
     [''MAIL'', ''SHIP'', ''1994-01-01''],
     [''special'', ''requests''],
     [''1995-09-01''],
     [''1996-01-01''],
     [''Brand#45'', ''MEDIUM POLISHED'', ''49'', ''14'', ''23'', ''45'', ''19'', ''3'', ''36'', ''9''],
     [''Brand#23'', ''MED BOX''],
     [''300''],
     [''Brand#12'', ''Brand#23'', ''Brand#34'', ''1'', ''10'', ''20''],
     [''forest'', ''1994-01-01'', ''CANADA''],
     [''SAUDI ARABIA''],
     [''13'', ''31'', ''23'', ''29'', ''30'', ''18'', ''17''],
     [],
     []]"

text \<open>\<open>defaults[q - 1][v - 1]\<close>; \<open>None\<close> is a null pointer.\<close>

definition default_at :: "int \<Rightarrow> int \<Rightarrow> abort + string option" where
  "default_at q v =
     (if 1 \<le> q \<and> q \<le> 24 \<and> 1 \<le> v \<and> v \<le> 11
      then let row = defaults ! nat (q - 1) in Inr (if v \<le> int (length row) then Some (row ! nat (v - 1)) else None)
      else Inl Crash)"

definition MAX_PARAM :: int where "MAX_PARAM = 10"

definition store :: "string list \<Rightarrow> string list \<Rightarrow> string list" where
  "store ps old = take 1 old @ ps @ drop (1 + length ps) old"

text \<open>The line for the log file: the parameters up to the first missing one.\<close>

definition log_line :: "int \<Rightarrow> int \<Rightarrow> string list \<Rightarrow> abort + string" where
  "log_line fl q ps =
     (if flag fl DFLT \<and> (q < 1 \<or> 24 < q) then Inl Crash
      else Inr (fmt_d q @ concat (map (\<lambda>t. tab @ t)
        (if flag fl DFLT then take 10 (defaults ! nat (q - 1)) else takeWhile (\<lambda>t. t \<noteq> []) (take 10 (drop 1 ps)))) @ nl))"

text \<open>\<open>fopen(path, "a")\<close> and a write at the end of the file.\<close>

definition append_file :: "string \<Rightarrow> string \<Rightarrow> world \<Rightarrow> world" where
  "append_file path t wo = wo\<lparr>nodes := (nodes wo)(path \<mapsto>
     (case nodes wo path of Some (Fifo c) \<Rightarrow> Fifo (c @ t) | Some (Regular c) \<Rightarrow> Regular (c @ t) | None \<Rightarrow> Regular t))\<rparr>"

definition write_log :: "qopts \<Rightarrow> int \<Rightarrow> int \<Rightarrow> qrun \<Rightarrow> abort + qrun" where
  "write_log g fl q r =
     (if \<not> flag fl LOG then Inr r
      else if \<not> qr_log r \<and> denied (qr_wld r) (q_lfile g) then Inl (Exit 1)
      else map_sum id (\<lambda>t. r\<lparr>qr_log := True, qr_wld := append_file (q_lfile g) t (qr_wld r)\<rparr>) (log_line fl q (qr_param r)))"

text \<open>\<open>vnum = 0\<close>: the parameters are drawn, unless the defaults are used.  An undefined access and a choice that never
  ends are both \<open>Crash\<close>.\<close>

definition varsub_draw :: "'a qdists_scheme \<Rightarrow> qopts \<Rightarrow> int \<Rightarrow> int \<Rightarrow> qrun \<Rightarrow> abort + qrun" where
  "varsub_draw d g q fl r =
     (if flag fl DFLT then write_log g fl q r
      else if q < 1 \<or> 24 < q then Inr (q_eprint (''No variable definitions available for query '' @ fmt_d q @ nl) r)
      else case draw_params d (the mk_ascdate) (q_scale g) q (qr_perm r) (qr_rng r) of
             None \<Rightarrow> Inl Crash
           | Some (ps, p, s) \<Rightarrow> write_log g fl q (r\<lparr>qr_param := store ps (qr_param r), qr_perm := p, qr_rng := s\<rparr>))"

text \<open>Otherwise: parameter \<open>v\<close> is printed.\<close>

definition varsub_print :: "qopts \<Rightarrow> int \<Rightarrow> int \<Rightarrow> int \<Rightarrow> qrun \<Rightarrow> abort + qrun" where
  "varsub_print g q v fl r =
     (if flag fl DFLT then
        (if q = 11 \<and> v = 2 then Inr (q_print (q11_param (q_scale g)) r)
         else case default_at q v of
                Inl a \<Rightarrow> Inl a
              | Inr (Some t) \<Rightarrow> Inr (q_print t r)
              | Inr None \<Rightarrow> Inr (q_eprint (''Bad default request (q: '' @ fmt_d q @ '', p: '' @ fmt_d v @ '')'' @ nl) r))
      else if v \<le> MAX_PARAM then (if v < 0 then Inl Crash else Inr (q_print (qr_param r ! nat v) r))
      else Inr (q_eprint (''Bad parameter request (q: '' @ fmt_d q @ '', p: '' @ fmt_d v @ '')'' @ nl) r))"

definition varsub :: "'a qdists_scheme \<Rightarrow> qopts \<Rightarrow> int \<Rightarrow> int \<Rightarrow> int \<Rightarrow> qrun \<Rightarrow> abort + qrun" where
  "varsub d g q v fl r = (if v = 0 then varsub_draw d g q fl r else varsub_print g q v fl r)"

subsection \<open>\<open>qsub\<close>\<close>

definition VTAG :: char where "VTAG = CHR '':''"

definition rowcnt_dflt :: "int list" where
  "rowcnt_dflt = [-1,-1,100,10,-1,-1,-1,-1,-1,-1,20,-1,-1,-1,-1,-1,-1,-1,100,-1,-1,100,-1]"

text \<open>What a letter after the mark inserts; \<open>None\<close> for a letter without a meaning.\<close>

definition tag_text :: "dialect \<Rightarrow> qopts \<Rightarrow> string \<Rightarrow> int \<Rightarrow> char \<Rightarrow> string option" where
  "tag_text dia g qtag fl c =
     (let stream = fmt_d (if q_snum g < 0 then 0 else q_snum g)
      in if c = CHR ''b'' \<or> c = CHR ''B'' then Some (if flag fl ANSI then [] else start_tran dia @ nl)
         else if c = CHR ''c'' \<or> c = CHR ''C'' then Some (if flag fl DBASE then set_dbase dia (q_db g) else [])
         else if c = CHR ''e'' \<or> c = CHR ''E'' then Some (if flag fl ANSI then [] else end_tran dia @ nl)
         else if c = CHR ''o'' \<or> c = CHR ''O'' then
           Some (if flag fl OUTPUT then set_output dia @ '' '' @ [CHR 0x27] @ q_osuff g @ ''/'' @ qtag @ ''.'' @ stream @ [CHR 0x27] else [])
         else if c = CHR ''q'' \<or> c = CHR ''Q'' then Some qtag
         else if c = CHR ''s'' \<or> c = CHR ''S'' then Some stream
         else if c = CHR ''x'' \<or> c = CHR ''X'' then Some (if flag fl EXPLAIN then gen_query_plan dia @ nl else [])
         else None)"

text \<open>The loop over the marks of a line.  \<open>:n\<close> continues with the text before it, which is then printed once more and ends
  the line.  A mark at the very end reads behind the end of the string.\<close>

function expand :: "'a qdists_scheme \<Rightarrow> dialect \<Rightarrow> qopts \<Rightarrow> string \<Rightarrow> string \<Rightarrow> qrun \<Rightarrow> abort + qrun" where
  "expand d dia g qtag mark r =
     (let pre = takeWhile (\<lambda>c. c \<noteq> VTAG) mark; fl = q_flags g
      in case dropWhile (\<lambda>c. c \<noteq> VTAG) mark of
           [] \<Rightarrow> Inr (q_print mark r)
         | [_] \<Rightarrow> Inl Crash
         | _ # c # t \<Rightarrow>
             (let r = q_print pre r
              in if c = CHR ''n'' \<or> c = CHR ''N'' then
                   Inr (q_print pre (if flag fl DFLT_NUM then r
                     else q_print (set_rowcount dia (atoi t)) (r\<lparr>qr_rowcnt := atoi t\<rparr>)))
                 else if is_digit c \<and> c \<noteq> CHR ''0'' then
                   (case varsub d g (atoi qtag) (atoi (c # t)) (and fl DFLT) r of
                      Inl a \<Rightarrow> Inl a
                    | Inr r \<Rightarrow> expand d dia g qtag (dropWhile is_digit t) r)
                 else (case tag_text dia g qtag fl c of
                      Some w \<Rightarrow> expand d dia g qtag t (q_print w r)
                    | None \<Rightarrow> expand d dia g qtag t (q_eprint (''-- unknown flag '' @ [CHR 0x27, VTAG, c, CHR 0x27] @ '' ignored'' @ nl) r))))"
  by pat_completeness auto

lemma mark_shorter: "dropWhile P xs = a # b # c \<Longrightarrow> length (dropWhile Q c) < length xs \<and> length c < length xs"
  using length_dropWhile_le [of P xs] length_dropWhile_le [of Q c] by simp

termination expand
  by (relation "measure (\<lambda>(_, _, _, _, mark, _). length mark)") (auto dest: mark_shorter)

declare expand.simps [simp del]

lemma fgets_shrinks: "cs \<noteq> [] \<Longrightarrow> 0 < n \<Longrightarrow> length (snd (fgets n cs)) < length cs"
  using fgets_consumes [of cs "n - 1"] by simp

text \<open>The loop over the lines of the template.\<close>

function sub_lines :: "'a qdists_scheme \<Rightarrow> dialect \<Rightarrow> qopts \<Rightarrow> string \<Rightarrow> string \<Rightarrow> qrun \<Rightarrow> abort + qrun" where
  "sub_lines d dia g qtag cs r =
     (if cs = [] then Inr r
      else let line = takeWhile (\<lambda>c. c \<noteq> CHR 0x00) (fst (fgets (BUFSIZ - 1) cs));
               cs = snd (fgets (BUFSIZ - 1) cs);
               (b, line) = (if flag (q_flags g) COMMENT then (qr_comment r, line) else strip_comments (qr_comment r) line)
           in case expand d dia g qtag line (r\<lparr>qr_comment := b\<rparr>) of
                Inl a \<Rightarrow> Inl a
              | Inr r \<Rightarrow> sub_lines d dia g qtag cs r)"
  by pat_completeness auto

termination sub_lines
  by (relation "measure (\<lambda>(_, _, _, _, cs, _). length cs)") (simp_all add: BUFSIZ_def fgets_shrinks)

declare sub_lines.simps [simp del]

definition qsub :: "(string \<Rightarrow> string option) \<Rightarrow> 'a qdists_scheme \<Rightarrow> dialect \<Rightarrow> qopts \<Rightarrow> string \<Rightarrow> qrun \<Rightarrow> abort + qrun" where
  "qsub env d dia g qtag r =
     (let q = atoi qtag; path = env_config env ''DSS_QUERY'' ''.'' @ ''/'' @ qtag @ ''.sql''
      in if BUFSIZ \<le> length path then Inl Crash
         else case world_files (qr_wld r) path of
             None \<Rightarrow> Inl (Exit 1)
           | Some cs \<Rightarrow>
               if q < 0 \<or> 22 < q then Inl Crash
               else case varsub d g q 0 (q_flags g) (r\<lparr>qr_rowcnt := rowcnt_dflt ! nat q\<rparr>) of
                   Inl a \<Rightarrow> Inl a
                 | Inr r \<Rightarrow> sub_lines d dia g qtag cs
                     (if flag (q_flags g) DFLT_NUM then q_print (set_rowcount dia (qr_rowcnt r)) r else r))"

subsection \<open>Options\<close>

definition qgen_usage :: "string \<Rightarrow> string" where
  "qgen_usage prog =
     ''SSBM (Star Schema Benchmark) Parameter Substitution (v. 1.0.0)'' @ nl @
     ''Copyright Transaction Processing Performance Council 1994 - 2000'' @ nl @
     ''USAGE: '' @ prog @ '' <options> [ queries ]'' @ nl @
     ''Options:'' @ nl @
     tab @ ''-a'' @ tab @ tab @ ''-- use ANSI semantics.'' @ nl @
     tab @ ''-b <str>'' @ tab @ ''-- load distributions from <str>'' @ nl @
     tab @ ''-c'' @ tab @ tab @ ''-- retain comments found in template.'' @ nl @
     tab @ ''-d'' @ tab @ tab @ ''-- use default substitution values.'' @ nl @
     tab @ ''-h'' @ tab @ tab @ ''-- print this usage summary.'' @ nl @
     tab @ ''-i <str>'' @ tab @ ''-- use the contents of file <str> to begin a query.'' @ nl @
     tab @ ''-l <str>'' @ tab @ ''-- log parameters to <str>.'' @ nl @
     tab @ ''-n <str>'' @ tab @ ''-- connect to database <str>.'' @ nl @
     tab @ ''-N'' @ tab @ tab @ ''-- use default rowcounts and ignore :n directive.'' @ nl @
     tab @ ''-o <str>'' @ tab @ ''-- set the output file base path to <str>.'' @ nl @
     tab @ ''-p <n>'' @ tab @ tab @ ''-- use the query permutation for stream <n>'' @ nl @
     tab @ ''-r <n>'' @ tab @ tab @ ''-- seed the random number generator with <n>'' @ nl @
     tab @ ''-s <n>'' @ tab @ tab @ ''-- base substitutions on an SF of <n>'' @ nl @
     tab @ ''-v'' @ tab @ tab @ ''-- verbose.'' @ nl @
     tab @ ''-t <str>'' @ tab @ ''-- use the contents of file <str> to complete a query'' @ nl @
     tab @ ''-x'' @ tab @ tab @ ''-- enable SET EXPLAIN in each query.'' @ nl"

definition atol :: "string \<Rightarrow> int" where
  "atol s = (case scan_ld s of None \<Rightarrow> 0 | Some w \<Rightarrow> max (- (2 ^ 63)) (min (2 ^ 63 - 1) w))"

definition QOPTIONS :: string where "QOPTIONS = ''ab:cdhi:n:Nl:o:p:r:s:t:vx''"

definition set_flag :: "int \<Rightarrow> qopts \<Rightarrow> qopts" where "set_flag f g = g\<lparr>q_flags := or (q_flags g) f\<rparr>"

text \<open>One option; the first component of an early exit is what was printed.  The warning about large scales tests the
  variable \<open>scale\<close>, which stays 0 here.  Infinite scales are left out.\<close>

definition qgen_option :: "string \<Rightarrow> char \<Rightarrow> string \<Rightarrow> string option \<Rightarrow> qopts \<Rightarrow> string \<times> abort + qopts" where
  "qgen_option prog c arg nxt g =
     (if c = CHR ''a'' then Inr (set_flag ANSI g)
      else if c = CHR ''b'' then Inr (g\<lparr>q_dpath := Some arg\<rparr>)
      else if c = CHR ''c'' then Inr (set_flag COMMENT g)
      else if c = CHR ''d'' then Inr (set_flag DFLT g)
      else if c = CHR ''h'' then Inl (qgen_usage prog, Exit 0)
      else if c = CHR ''i'' then Inr (set_flag INIT (g\<lparr>q_ifile := arg\<rparr>))
      else if c = CHR ''l'' then Inr (set_flag LOG (g\<lparr>q_lfile := arg\<rparr>))
      else if c = CHR ''N'' then Inr (set_flag DFLT_NUM g)
      else if c = CHR ''n'' then Inr (set_flag DBASE (g\<lparr>q_db := arg\<rparr>))
      else if c = CHR ''o'' then Inr (set_flag OUTPUT (g\<lparr>q_osuff := arg\<rparr>))
      else if c = CHR ''p'' then Inr (g\<lparr>q_snum := atoi arg\<rparr>)
      else if c = CHR ''r'' then Inr (set_flag SEED (g\<lparr>q_rndm := atol arg\<rparr>))
      else if c = CHR ''s'' then (case atof arg of None \<Rightarrow> Inl ([], Crash) | Some f \<Rightarrow> Inr (g\<lparr>q_scale := f\<rparr>))
      else if c = CHR ''t'' then Inr (set_flag TERMINATE (g\<lparr>q_tfile := arg\<rparr>))
      else if c = CHR ''v'' then Inr (set_flag VERBOSE g)
      else if c = CHR ''x'' then Inr (set_flag EXPLAIN g)
      else (case nxt of
              None \<Rightarrow> Inl ([], Crash)
            | Some a \<Rightarrow> Inl (''unknown option '' @ [CHR 0x27] @ a @ [CHR 0x27] @ '' ignored'' @ nl @ qgen_usage prog, Exit 1)))"

text \<open>The loop; the value holds the arguments that are left, the queries to generate.\<close>

function qgen_options :: "string \<Rightarrow> string list \<times> string \<Rightarrow> qopts \<Rightarrow> string \<times> abort + qopts \<times> string list" where
  "qgen_options prog av g =
     (case getopt_posix QOPTIONS av of
        (None, av) \<Rightarrow> Inr (g, fst av)
      | (Some (c, arg), av) \<Rightarrow>
          (case qgen_option prog c arg (case fst av of [] \<Rightarrow> None | a # _ \<Rightarrow> Some a) g of
             Inl x \<Rightarrow> Inl x
           | Inr g \<Rightarrow> qgen_options prog av g))"
  by pat_completeness auto

termination qgen_options
  by (relation "measure (\<lambda>(_, av, _). av_size av)") (auto intro: getopt_size [OF sym])

declare qgen_options.simps [simp del]

subsection \<open>\<open>main\<close>\<close>

text \<open>The distributions \<open>setup\<close> reads.\<close>

definition setup_names :: "string list" where
  "setup_names = [''p_cntr'', ''colors'', ''p_types'', ''nations'', ''nations2'', ''regions'', ''o_oprio'', ''instruct'', ''smode'',
     ''category'', ''rflag'', ''msegmnt'', ''Q13a'', ''Q13b'']"

definition setup_dists :: "(string \<times> dist_target) list \<Rightarrow> qdists option" where
  "setup_dists ts = (let get = (\<lambda>n. Option.bind (map_of ts n) dist_of) in do {
     d1 \<leftarrow> get ''nations''; d2 \<leftarrow> get ''regions''; d3 \<leftarrow> get ''o_oprio''; d4 \<leftarrow> get ''smode'';
     d5 \<leftarrow> get ''msegmnt''; d6 \<leftarrow> get ''colors''; d7 \<leftarrow> get ''p_types''; d8 \<leftarrow> get ''p_cntr'';
     d9 \<leftarrow> get ''nations2''; d10 \<leftarrow> get ''Q13a''; d11 \<leftarrow> get ''Q13b'';
     Some \<lparr>nations = d1, regions = d2, o_priority_set = d3, l_smode_set = d4, c_mseg_set = d5, colors = d6,
       p_types_set = d7, p_cntr_set = d8, nations2 = d9, q13a = d10, q13b = d11\<rparr> })"

definition permutation :: "int list list" where
  "permutation =
    [[14, 2, 9, 20, 6, 17, 18, 8, 21, 13, 3, 22, 16, 4, 11, 15, 1, 10, 19, 5, 7, 12],
     [21, 3, 18, 5, 11, 7, 6, 20, 17, 12, 16, 15, 13, 10, 2, 8, 14, 19, 9, 22, 1, 4],
     [6, 17, 14, 16, 19, 10, 9, 2, 15, 8, 5, 22, 12, 7, 13, 18, 1, 4, 20, 3, 11, 21],
     [8, 5, 4, 6, 17, 7, 1, 18, 22, 14, 9, 10, 15, 11, 20, 2, 21, 19, 13, 16, 12, 3],
     [5, 21, 14, 19, 15, 17, 12, 6, 4, 9, 8, 16, 11, 2, 10, 18, 1, 13, 7, 22, 3, 20],
     [21, 15, 4, 6, 7, 16, 19, 18, 14, 22, 11, 13, 3, 1, 2, 5, 8, 20, 12, 17, 10, 9],
     [10, 3, 15, 13, 6, 8, 9, 7, 4, 11, 22, 18, 12, 1, 5, 16, 2, 14, 19, 20, 17, 21],
     [18, 8, 20, 21, 2, 4, 22, 17, 1, 11, 9, 19, 3, 13, 5, 7, 10, 16, 6, 14, 15, 12],
     [19, 1, 15, 17, 5, 8, 9, 12, 14, 7, 4, 3, 20, 16, 6, 22, 10, 13, 2, 21, 18, 11],
     [8, 13, 2, 20, 17, 3, 6, 21, 18, 11, 19, 10, 15, 4, 22, 1, 7, 12, 9, 14, 5, 16],
     [6, 15, 18, 17, 12, 1, 7, 2, 22, 13, 21, 10, 14, 9, 3, 16, 20, 19, 11, 4, 8, 5],
     [15, 14, 18, 17, 10, 20, 16, 11, 1, 8, 4, 22, 5, 12, 3, 9, 21, 2, 13, 6, 19, 7],
     [1, 7, 16, 17, 18, 22, 12, 6, 8, 9, 11, 4, 2, 5, 20, 21, 13, 10, 19, 3, 14, 15],
     [21, 17, 7, 3, 1, 10, 12, 22, 9, 16, 6, 11, 2, 4, 5, 14, 8, 20, 13, 18, 15, 19],
     [2, 9, 5, 4, 18, 1, 20, 15, 16, 17, 7, 21, 13, 14, 19, 8, 22, 11, 10, 3, 12, 6],
     [16, 9, 17, 8, 14, 11, 10, 12, 6, 21, 7, 3, 15, 5, 22, 20, 1, 13, 19, 2, 4, 18],
     [1, 3, 6, 5, 2, 16, 14, 22, 17, 20, 4, 9, 10, 11, 15, 8, 12, 19, 18, 13, 7, 21],
     [3, 16, 5, 11, 21, 9, 2, 15, 10, 18, 17, 7, 8, 19, 14, 13, 1, 4, 22, 20, 6, 12],
     [14, 4, 13, 5, 21, 11, 8, 6, 3, 17, 2, 20, 1, 19, 10, 9, 12, 18, 15, 7, 22, 16],
     [4, 12, 22, 14, 5, 15, 16, 2, 8, 10, 17, 9, 21, 7, 3, 6, 13, 18, 11, 20, 19, 1],
     [16, 15, 14, 13, 4, 22, 18, 19, 7, 1, 12, 17, 5, 10, 20, 3, 9, 21, 11, 2, 6, 8],
     [20, 14, 21, 12, 15, 17, 4, 19, 13, 10, 11, 1, 16, 5, 18, 7, 8, 22, 9, 6, 3, 2],
     [16, 14, 13, 2, 21, 10, 11, 4, 1, 22, 18, 12, 19, 5, 7, 8, 6, 3, 15, 20, 9, 17],
     [18, 15, 9, 14, 12, 2, 8, 11, 22, 21, 16, 1, 6, 17, 5, 10, 19, 4, 20, 13, 3, 7],
     [7, 3, 10, 14, 13, 21, 18, 6, 20, 4, 9, 8, 22, 15, 2, 1, 5, 12, 19, 17, 11, 16],
     [18, 1, 13, 7, 16, 10, 14, 2, 19, 5, 21, 11, 22, 15, 8, 17, 20, 3, 4, 12, 6, 9],
     [13, 2, 22, 5, 11, 21, 20, 14, 7, 10, 4, 9, 19, 18, 6, 3, 1, 8, 15, 12, 17, 16],
     [14, 17, 21, 8, 2, 9, 6, 4, 5, 13, 22, 7, 15, 3, 1, 18, 16, 11, 10, 12, 20, 19],
     [10, 22, 1, 12, 13, 18, 21, 20, 2, 14, 16, 7, 15, 3, 4, 17, 5, 19, 6, 8, 9, 11],
     [10, 8, 9, 18, 12, 6, 1, 5, 20, 11, 17, 22, 16, 3, 13, 2, 15, 21, 14, 19, 7, 4],
     [7, 17, 22, 5, 3, 10, 13, 18, 9, 1, 14, 15, 21, 19, 16, 12, 8, 6, 11, 20, 4, 2],
     [2, 9, 21, 3, 4, 7, 1, 11, 16, 5, 20, 19, 18, 8, 17, 13, 10, 12, 15, 6, 14, 22],
     [15, 12, 8, 4, 22, 13, 16, 17, 18, 3, 7, 5, 6, 1, 9, 11, 21, 10, 14, 20, 19, 2],
     [15, 16, 2, 11, 17, 7, 5, 14, 20, 4, 21, 3, 10, 9, 12, 8, 13, 6, 18, 19, 22, 1],
     [1, 13, 11, 3, 4, 21, 6, 14, 15, 22, 18, 9, 7, 5, 10, 20, 12, 16, 17, 8, 19, 2],
     [14, 17, 22, 20, 8, 16, 5, 10, 1, 13, 2, 21, 12, 9, 4, 18, 3, 7, 6, 19, 15, 11],
     [9, 17, 7, 4, 5, 13, 21, 18, 11, 3, 22, 1, 6, 16, 20, 14, 15, 10, 8, 2, 12, 19],
     [13, 14, 5, 22, 19, 11, 9, 6, 18, 15, 8, 10, 7, 4, 17, 16, 3, 1, 12, 2, 21, 20],
     [20, 5, 4, 14, 11, 1, 6, 16, 8, 22, 7, 3, 2, 12, 21, 19, 17, 13, 10, 15, 18, 9],
     [3, 7, 14, 15, 6, 5, 21, 20, 18, 10, 4, 16, 19, 1, 13, 9, 8, 17, 11, 12, 22, 2],
     [13, 15, 17, 1, 22, 11, 3, 4, 7, 20, 14, 21, 9, 8, 2, 18, 16, 6, 10, 12, 5, 19]]"

definition MAX_PERMUTE :: int where "MAX_PERMUTE = 41"
definition QUERIES_PER_SET :: int where "QUERIES_PER_SET = 22"

text \<open>\<open>SEQUENCE(stream, query)\<close>\<close>

definition SEQUENCE :: "int \<Rightarrow> int \<Rightarrow> int option" where
  "SEQUENCE st q = (if 0 \<le> st \<and> 1 \<le> q \<and> q \<le> QUERIES_PER_SET
     then Some (permutation ! nat (st smod MAX_PERMUTE) ! nat (q - 1)) else None)"

text \<open>The templates to use, in order; \<open>None\<close> when the order table is read out of range.\<close>

definition query_tags :: "int \<Rightarrow> string list \<Rightarrow> string list option" where
  "query_tags snum av =
     (if snum \<ge> 0
      then map_option (map fmt_d) (those (map (SEQUENCE snum) (if av = [] then [1..QUERIES_PER_SET] else map atoi av)))
      else Some (if av = [] then map fmt_d [1..QUERIES_PER_SET] else av))"

text \<open>Streams 1 to 22 get the next seeds after \<open>rndm\<close>; stream 0 has been the work space.\<close>

fun seed_streams :: "nat \<Rightarrow> nat \<Rightarrow> rng \<Rightarrow> rng" where
  "seed_streams 0 i s = s"
| "seed_streams (Suc n) i s =
     (let v = NextRand (sd_value (Seed s ! 0))
      in seed_streams n (i + 1) (upd_seed i (\<lambda>e. e\<lparr>sd_value := v\<rparr>) (upd_seed 0 (\<lambda>e. e\<lparr>sd_value := v\<rparr>) s)))"

definition qgen_seeds :: "int \<Rightarrow> rng \<Rightarrow> rng" where
  "qgen_seeds rndm s = seed_streams (nat QUERIES_PER_SET) 1 (upd_seed 0 (\<lambda>e. e\<lparr>sd_value := rndm\<rparr>) s)"

text \<open>The start value: of \<open>-r\<close>, or the time multiplied by the number of the process, as unsigned numbers.\<close>

definition start_seed :: "qopts \<Rightarrow> int \<Rightarrow> int \<Rightarrow> int" where
  "start_seed g clock proc =
     (let rndm = (if flag (q_flags g) SEED then q_rndm g else (clock mod 2 ^ 32 * proc) mod 2 ^ 32)
      in if rndm < 0 then rndm + 2147483647 else rndm)"

text \<open>A file copied to standard output, line by line.\<close>

function copy_lines :: "string \<Rightarrow> string" where
  "copy_lines cs =
     (if cs = [] then [] else takeWhile (\<lambda>c. c \<noteq> CHR 0x00) (fst (fgets 511 cs)) @ copy_lines (snd (fgets 511 cs)))"
  by pat_completeness auto

termination copy_lines
  by (relation "measure length") (auto intro: fgets_shrinks)

declare copy_lines.simps [simp del]

definition copy_file :: "string \<Rightarrow> qrun \<Rightarrow> abort + qrun" where
  "copy_file path r = (case world_files (qr_wld r) path of None \<Rightarrow> Inl (Exit 1) | Some cs \<Rightarrow> Inr (q_print (copy_lines cs) r))"

fun qsub_all :: "(string \<Rightarrow> string option) \<Rightarrow> 'a qdists_scheme \<Rightarrow> dialect \<Rightarrow> qopts \<Rightarrow> string list \<Rightarrow> qrun \<Rightarrow> abort + qrun" where
  "qsub_all env d dia g [] r = Inr r"
| "qsub_all env d dia g (t # ts) r = (case qsub env d dia g t r of Inl a \<Rightarrow> Inl a | Inr r \<Rightarrow> qsub_all env d dia g ts r)"

definition qopts_init :: qopts where
  "qopts_init = \<lparr>q_flags = 0, q_snum = - 1, q_rndm = 0, q_scale = 1, q_osuff = [], q_db = [], q_lfile = [], q_ifile = [], q_tfile = [],
     q_dpath = None\<rparr>"

definition qrun_init :: "world \<Rightarrow> qrun" where
  "qrun_init wo = \<lparr>qr_rng = rng_init, qr_perm = \<lparr>source = 0, pset = [], pdist = None\<rparr>, qr_param = replicate 11 [], qr_log = False,
     qr_comment = False, qr_rowcnt = 0, qr_wld = wo, qr_err = []\<rparr>"

definition qgen_banner :: string where
  "qgen_banner = ''-- TPC SSBM (Star Schema Benchmark) Parameter Substitution (Version 1.0.0)'' @ nl"

text \<open>After \<open>setup\<close>: the seeds, the initial file, the queries, the final file.\<close>

definition qgen_run :: "(string \<Rightarrow> string option) \<Rightarrow> 'a qdists_scheme \<Rightarrow> dialect \<Rightarrow> int \<Rightarrow> int \<Rightarrow> qopts \<Rightarrow> string list \<Rightarrow> qrun \<Rightarrow> abort + qrun" where
  "qgen_run env d dia clock proc g av r =
     (let fl = q_flags g; rndm = start_seed g clock proc;
          r = (if flag fl DFLT then q_print (''-- using default substitutions'' @ nl) r
               else q_print (''-- using '' @ fmt_d rndm @ '' as a seed to the RNG'' @ nl) (r\<lparr>qr_rng := qgen_seeds rndm (qr_rng r)\<rparr>))
      in case (if flag fl INIT then copy_file (q_ifile g) r else Inr r) of
           Inl a \<Rightarrow> Inl a
         | Inr r \<Rightarrow>
             (case query_tags (q_snum g) av of
                None \<Rightarrow> Inl Crash
              | Some ts \<Rightarrow>
                  (case qsub_all env d dia g ts r of
                     Inl a \<Rightarrow> Inl a
                   | Inr r \<Rightarrow> if flag fl TERMINATE then copy_file (q_tfile g) r else Inr r)))"

definition qgen_main :: "(string \<Rightarrow> string option) \<Rightarrow> dialect \<Rightarrow> int \<Rightarrow> int \<Rightarrow> string \<Rightarrow> string list \<Rightarrow> world \<Rightarrow> abort + qrun" where
  "qgen_main env dia clock proc prog av wo =
     (case qgen_options prog (av, []) qopts_init of
        Inl (_, a) \<Rightarrow> Inl a
      | Inr (g, av) \<Rightarrow>
          let r = qrun_init wo; r = (if flag (q_flags g) VERBOSE then q_print qgen_banner r else r)
          in case load_all env (world_files wo) (q_dpath g) setup_names of
               Inl e \<Rightarrow> Inl (read_abort e)
             | Inr ts \<Rightarrow>
                 (case setup_dists ts of
                    None \<Rightarrow> Inl Crash
                  | Some d \<Rightarrow> qgen_run env d dia clock proc g av r))"

end
