(* ===== verification/Query_Runs.thy ===== *)
theory Query_Runs
  imports Query_Gen
begin

text \<open>
  What \<open>qgen\<close> does with a template: the orders of the queries are permutations; a template made of texts and marks is
  copied with every mark replaced and without its comments; where the comment stripper and the mark \<open>:n\<close> lose text.
\<close>

subsection \<open>Orders\<close>

lemma permutation_rows: "list_all (\<lambda>row. length row = 22 \<and> sort row = [1..22]) permutation" "length permutation = 41" "distinct permutation"
  by code_simp+

lemma sequence_row:
  assumes "0 \<le> snum"
  shows "those (map (SEQUENCE snum) [1..QUERIES_PER_SET]) = Some (permutation ! nat (snum mod 41))"
proof -
  let ?row = "permutation ! nat (snum mod 41)"
  have "nat (snum mod 41) < 41" by (simp add: nat_less_iff)
  then have len: "length ?row = 22" using permutation_rows(1,2) by (simp add: list_all_length)
  have "[1..QUERIES_PER_SET] = map (\<lambda>i. int i + 1) [0..<22]" unfolding QUERIES_PER_SET_def by code_simp
  then have "those (map (SEQUENCE snum) [1..QUERIES_PER_SET]) = those (map (\<lambda>i. SEQUENCE snum (int i + 1)) [0..<22])"
    by (simp add: comp_def del: upt_rec_numeral)
  also have "\<dots> = Some (map (\<lambda>i. ?row ! i) [0..<22])"
    by (rule those_map_Some) (use assms in \<open>simp add: SEQUENCE_def QUERIES_PER_SET_def MAX_PERMUTE_def smod_nonneg\<close>)
  also have "map (\<lambda>i. ?row ! i) [0..<22] = ?row" using len map_nth [of ?row] by (simp del: upt_rec_numeral)
  finally show ?thesis .
qed

lemma fmt_d_inj: "0 \<le> a \<Longrightarrow> 0 \<le> b \<Longrightarrow> fmt_d a = fmt_d b \<Longrightarrow> a = b"
  using undec_fmt_d [of a] undec_fmt_d [of b] by simp

lemma row_numbers: "k < 41 \<Longrightarrow> set (permutation ! k) = {1..22} \<and> mset (permutation ! k) = mset [1..22]"
  using permutation_rows(1,2) mset_sort [of "\<lambda>x. x" "permutation ! k"] set_sort [of "\<lambda>x. x" "permutation ! k"]
  unfolding list_all_length by (metis set_upto)

text \<open>
  C34: without queries on the command line every run generates each of the 22 queries exactly once, in an
  order that depends on the stream number modulo 41 only, and is different for different remainders.
\<close>

theorem each_query_once:
  "(\<exists>ts. query_tags snum [] = Some ts \<and> mset ts = mset (map fmt_d [1..22])) \<and>
   (0 \<le> snum \<and> 0 \<le> snum' \<longrightarrow> (query_tags snum [] = query_tags snum' [] \<longleftrightarrow> snum mod 41 = snum' mod 41))"
proof -
  have k: "nat (i mod 41) < 41" for i :: int by (simp add: nat_less_iff)
  have q: "query_tags i [] = Some (map fmt_d (permutation ! nat (i mod 41)))" if "0 \<le> i" for i
    using sequence_row [OF that] that by (simp add: query_tags_def)
  have "\<exists>ts. query_tags snum [] = Some ts \<and> mset ts = mset (map fmt_d [1..22])"
  proof (cases "0 \<le> snum")
    case True
    then show ?thesis using q row_numbers [OF k [of snum]] by (metis mset_map)
  qed (simp add: query_tags_def QUERIES_PER_SET_def)
  moreover have "snum mod 41 = snum' mod 41" if "0 \<le> snum" "0 \<le> snum'" "query_tags snum [] = query_tags snum' []"
  proof -
    have "map fmt_d (permutation ! nat (snum mod 41)) = map fmt_d (permutation ! nat (snum' mod 41))" using that q by simp
    moreover have "inj_on fmt_d {1..22}" using fmt_d_inj by (auto intro: inj_onI)
    ultimately have "permutation ! nat (snum mod 41) = permutation ! nat (snum' mod 41)"
      using row_numbers [OF k] by (metis map_inj_on Un_absorb)
    then have "nat (snum mod 41) = nat (snum' mod 41)"
      using nth_eq_iff_index_eq [OF permutation_rows(3)] k permutation_rows(2) by simp
    then show ?thesis by simp
  qed
  ultimately show ?thesis using q by metis
qed

theorem each_query_once_witness:
  "(\<exists>ts. query_tags 7 [] = Some ts \<and> mset ts = mset (map fmt_d [1..22])) \<and> query_tags 7 [] = query_tags 48 []"
  by (rule conjI [OF conjunct1 [OF each_query_once [of 7 48]]]) (use each_query_once [of 7 48] in simp)

subsection \<open>Substitution\<close>

text \<open>A template line as a sequence of plain texts, parameter marks, letters, and the mark \<open>:n\<close> with the rest of the line.\<close>

datatype titem = Txt string | Par nat | Tag char | Rows char string

fun render :: "titem \<Rightarrow> string" where
  "render (Txt t) = t"
| "render (Par v) = VTAG # fmt_d (int v)"
| "render (Tag c) = [VTAG, c]"
| "render (Rows c t) = VTAG # c # t"

definition render_line :: "titem list \<Rightarrow> string" where
  "render_line its = concat (map render its)"

text \<open>Any number from 1 on and any letter may stand behind the mark, known or not.\<close>

fun titem_ok :: "titem \<Rightarrow> bool" where
  "titem_ok (Txt t) \<longleftrightarrow> VTAG \<notin> set t"
| "titem_ok (Par v) \<longleftrightarrow> 1 \<le> v \<and> int v < 2 ^ 31"
| "titem_ok (Tag c) \<longleftrightarrow> c \<noteq> CHR ''n'' \<and> c \<noteq> CHR ''N'' \<and> (is_digit c \<longrightarrow> c = CHR ''0'')"
| "titem_ok (Rows c t) \<longleftrightarrow> c = CHR ''n'' \<or> c = CHR ''N''"

text \<open>A number ends at the next character; \<open>:n\<close> is the last mark of its line.\<close>

fun separated :: "titem list \<Rightarrow> bool" where
  "separated (Par v # Txt [] # its) \<longleftrightarrow> False"
| "separated (Par v # Txt (c # t) # its) \<longleftrightarrow> \<not> is_digit c \<and> separated (Txt (c # t) # its)"
| "separated (Rows c t # its) \<longleftrightarrow> its = []"
| "separated (it # its) \<longleftrightarrow> separated its"
| "separated [] \<longleftrightarrow> True"

text \<open>
  The text that takes the place of a line, \<open>ps\<close> being the stored parameters.  Numbers without a parameter and letters without a
  meaning leave nothing.  \<open>:n\<close> leaves the statement that sets the row count, unless the default counts are in use; behind it comes
  once more the text \<open>w\<close> that stands between the mark before and this one.
\<close>

fun items_text :: "dialect \<Rightarrow> qopts \<Rightarrow> string \<Rightarrow> string list \<Rightarrow> string \<Rightarrow> titem list \<Rightarrow> string" where
  "items_text dia g qtag ps w [] = []"
| "items_text dia g qtag ps w (Txt t # its) = t @ items_text dia g qtag ps (w @ t) its"
| "items_text dia g qtag ps w (Par v # its) = (if v \<le> 10 then ps ! v else []) @ items_text dia g qtag ps [] its"
| "items_text dia g qtag ps w (Tag c # its) =
     (case tag_text dia g qtag (q_flags g) c of Some t \<Rightarrow> t | None \<Rightarrow> []) @ items_text dia g qtag ps [] its"
| "items_text dia g qtag ps w (Rows c t # its) = (if flag (q_flags g) DFLT_NUM then [] else set_rowcount dia (atoi t)) @ w"

text \<open>A run that has printed \<open>t\<close> and changed nothing else but the row count and the messages.\<close>

definition printed :: "string \<Rightarrow> qrun \<Rightarrow> qrun \<Rightarrow> bool" where
  "printed t r r' \<longleftrightarrow> r' = q_print t (r\<lparr>qr_rowcnt := qr_rowcnt r', qr_err := qr_err r'\<rparr>)"

lemma printed_refl: "printed [] r r"
  by (simp add: printed_def q_print_def printf_def)

lemma printed_print: "printed t r (q_print t r)"
  by (simp add: printed_def q_print_def printf_def)

lemma printed_trans: "printed a r r1 \<Longrightarrow> printed b r1 r2 \<Longrightarrow> printed (a @ b) r r2"
  unfolding printed_def by (cases r; cases r1; cases r2) (simp add: q_print_def printf_def)

lemma printed_fields:
  assumes "printed t r r'"
  shows "qr_param r' = qr_param r" "qr_rng r' = qr_rng r" "qr_comment r' = qr_comment r" "stdout (qr_wld r') = stdout (qr_wld r) @ t"
proof -
  obtain n m where "r' = q_print t (r\<lparr>qr_rowcnt := n, qr_err := m\<rparr>)" using assms unfolding printed_def by blast
  then show "qr_param r' = qr_param r" "qr_rng r' = qr_rng r" "qr_comment r' = qr_comment r" "stdout (qr_wld r') = stdout (qr_wld r) @ t"
    by (simp_all add: q_print_def printf_def)
qed

lemma q_print_print [simp]: "q_print b (q_print a r) = q_print (a @ b) r"
  by (simp add: q_print_def printf_def)

lemma q_print_fields [simp]: "qr_param (q_print t r) = qr_param r" "qr_rng (q_print t r) = qr_rng r"
    "qr_comment (q_print t r) = qr_comment r" "q_print [] r = r" "stdout (qr_wld (q_print t r)) = stdout (qr_wld r) @ t"
    "nodes (qr_wld (q_print t r)) = nodes (qr_wld r)" "(q_print t r)\<lparr>qr_comment := b\<rparr> = q_print t (r\<lparr>qr_comment := b\<rparr>)"
  by (simp_all add: q_print_def printf_def)

lemma flag_mask: "flag (and fl DFLT) DFLT = flag fl DFLT"
  by (simp add: flag_def DFLT_def and.assoc)

lemma fmt_nat: "1 \<le> v \<Longrightarrow> \<exists>c t. fmt_d (int v) = c # t \<and> is_digit c \<and> c \<noteq> CHR ''0'' \<and> (\<forall>d \<in> set t. is_digit d)"
proof -
  have nz: "1 \<le> n \<Longrightarrow> hd (dec n) \<noteq> CHR ''0''" for n
  proof (induction n rule: dec.induct)
    case (1 n)
    have "digit_char n \<noteq> CHR ''0''" if "n < 10" using 1(2) char_digit_digit_char [OF that] by (metis char_digit_0 not_one_le_zero)
    then show ?case using 1 by (subst dec.simps) (auto simp: hd_append)
  qed
  moreover assume "1 \<le> v"
  ultimately show ?thesis using dec_digits [of v] nz [of v] by (cases "dec v") (auto simp: fmt_d_def)
qed

lemma digit_tag: "is_digit c \<Longrightarrow> c \<notin> {CHR ''n'', CHR ''N'', VTAG}"
  by (auto simp: is_digit_def VTAG_def)

lemma digits_stop:
  assumes "\<forall>d \<in> set t. is_digit d" "rest = [] \<or> \<not> is_digit (hd rest)"
  shows "dropWhile is_digit (t @ rest) = rest" "takeWhile is_digit (t @ rest) = t"
  using assms by (cases rest; simp add: dropWhile_append takeWhile_append)+

lemma atoi_number:
  assumes "1 \<le> v" "int v < 2 ^ 31" "rest = [] \<or> \<not> is_digit (hd rest)"
  shows "atoi (fmt_d (int v) @ rest) = int v"
proof -
  have all: "\<forall>d \<in> set (fmt_d (int v)). is_digit d" using dec_digits by (simp add: fmt_d_def)
  obtain c t where ct: "fmt_d (int v) = c # t" "is_digit c" using fmt_nat [OF assms(1)] by blast
  have c: "\<not> isspace c" "c \<noteq> CHR ''-''" "c \<noteq> CHR ''+''" using digit_plain [OF ct(2)] by auto
  have "takeWhile is_digit (c # t @ rest) = c # t" using digits_stop(2) [OF all assms(3)] ct(1) by simp
  moreover have "undec (c # t) = v" using undec_fmt_d [of "int v"] ct(1) by simp
  ultimately have "scan_ld (fmt_d (int v) @ rest) = Some (int v)" using c ct(1) by (simp add: scan_ld_def)
  then show ?thesis using assms(2) by (simp add: atoi_def c_int_id)
qed

text \<open>\<open>expand\<close> at a mark.\<close>

lemma mark_split: "VTAG \<notin> set t \<Longrightarrow> takeWhile (\<lambda>c. c \<noteq> VTAG) (t @ VTAG # u) = t"
    "VTAG \<notin> set t \<Longrightarrow> dropWhile (\<lambda>c. c \<noteq> VTAG) (t @ VTAG # u) = VTAG # u"
    "VTAG \<notin> set t \<Longrightarrow> dropWhile (\<lambda>c. c \<noteq> VTAG) t = []"
  by (induction t) auto

lemma expand_end:
  assumes "VTAG \<notin> set t"
  shows "expand d dia g qtag t r = Inr (q_print t r)"
  by (subst expand.simps) (simp only: mark_split(3) [OF assms] Let_def list.case)

lemma expand_tag:
  assumes "titem_ok (Tag c)" "VTAG \<notin> set t"
  shows "\<exists>r'. expand d dia g qtag (t @ VTAG # c # rest) r = expand d dia g qtag rest r' \<and>
    printed (t @ (case tag_text dia g qtag (q_flags g) c of Some w \<Rightarrow> w | None \<Rightarrow> [])) r r'"
proof (cases "tag_text dia g qtag (q_flags g) c")
  case None
  let ?m = "''-- unknown flag '' @ [CHR 0x27, VTAG, c, CHR 0x27] @ '' ignored'' @ nl"
  have "expand d dia g qtag (t @ VTAG # c # rest) r = expand d dia g qtag rest (q_eprint ?m (q_print t r))"
    by (subst expand.simps) (use assms(1) in \<open>auto simp: mark_split [OF assms(2)] Let_def None\<close>)
  moreover have "printed t r (q_eprint ?m (q_print t r))" by (simp add: printed_def q_print_def q_eprint_def printf_def)
  ultimately show ?thesis using None by auto
next
  case (Some w)
  have "expand d dia g qtag (t @ VTAG # c # rest) r = expand d dia g qtag rest (q_print (t @ w) r)"
    by (subst expand.simps) (use assms(1) in \<open>auto simp: mark_split [OF assms(2)] Let_def Some\<close>)
  then show ?thesis using Some printed_print by auto
qed

lemma expand_par:
  assumes "titem_ok (Par v)" "rest = [] \<or> \<not> is_digit (hd rest)" "\<not> flag (q_flags g) DFLT" "VTAG \<notin> set p"
  shows "\<exists>r'. expand d dia g qtag (p @ VTAG # fmt_d (int v) @ rest) r = expand d dia g qtag rest r' \<and>
    printed (p @ (if v \<le> 10 then qr_param r ! v else [])) r r'"
proof -
  have v: "1 \<le> v" "int v < 2 ^ 31" using assms(1) by simp_all
  obtain c t where ct: "fmt_d (int v) = c # t" "is_digit c" "c \<noteq> CHR ''0''" "\<forall>d \<in> set t. is_digit d" using fmt_nat [OF v(1)] by blast
  have "atoi (c # t @ rest) = int v" using atoi_number [OF v assms(2)] ct(1) by simp
  moreover have "dropWhile is_digit (t @ rest) = rest" by (rule digits_stop(1) [OF ct(4) assms(2)])
  moreover obtain r' where r': "varsub d g (atoi qtag) (int v) (and (q_flags g) DFLT) (q_print p r) = Inr r'"
    "printed (p @ (if v \<le> 10 then qr_param r ! v else [])) r r'"
  proof (cases "v \<le> 10")
    case True
    then have "varsub d g (atoi qtag) (int v) (and (q_flags g) DFLT) (q_print p r) = Inr (q_print (p @ qr_param r ! v) r)"
      using assms(3) v(1) by (simp add: varsub_def varsub_print_def flag_mask MAX_PARAM_def)
    then show thesis using that True printed_print by simp
  next
    case False
    let ?m = "''Bad parameter request (q: '' @ fmt_d (atoi qtag) @ '', p: '' @ fmt_d (int v) @ '')'' @ nl"
    have "varsub d g (atoi qtag) (int v) (and (q_flags g) DFLT) (q_print p r) = Inr (q_eprint ?m (q_print p r))"
      using assms(3) v(1) False by (simp add: varsub_def varsub_print_def flag_mask MAX_PARAM_def)
    then show thesis using that False by (simp add: printed_def q_print_def q_eprint_def printf_def)
  qed
  ultimately have "expand d dia g qtag (p @ VTAG # fmt_d (int v) @ rest) r = expand d dia g qtag rest r'"
    using ct digit_tag [OF ct(2)] by (subst expand.simps) (simp add: mark_split [OF assms(4)] Let_def)
  then show ?thesis using r'(2) by blast
qed

lemma expand_rows:
  assumes "titem_ok (Rows c t)" "VTAG \<notin> set p"
  shows "\<exists>r'. expand d dia g qtag (p @ VTAG # c # t) r = Inr r' \<and>
    printed (p @ (if flag (q_flags g) DFLT_NUM then [] else set_rowcount dia (atoi t)) @ p) r r'"
proof -
  let ?r = "q_print p (if flag (q_flags g) DFLT_NUM then q_print p r
      else q_print (set_rowcount dia (atoi t)) ((q_print p r)\<lparr>qr_rowcnt := atoi t\<rparr>))"
  have "expand d dia g qtag (p @ VTAG # c # t) r = Inr ?r"
    by (subst expand.simps) (use assms(1) in \<open>auto simp: mark_split [OF assms(2)] Let_def simp del: q_print_print\<close>)
  moreover have "printed (p @ (if flag (q_flags g) DFLT_NUM then [] else set_rowcount dia (atoi t)) @ p) r ?r"
    by (simp add: printed_def q_print_def printf_def)
  ultimately show ?thesis by blast
qed

lemma separated_head: "separated (Par v # its) \<Longrightarrow> list_all titem_ok its \<Longrightarrow>
  separated its \<and> (render_line its = [] \<or> \<not> is_digit (hd (render_line its)))"
proof (cases its)
  case (Cons it its')
  assume "separated (Par v # its)"
  then show ?thesis
    by (cases it rule: render.cases) (use Cons in \<open>auto simp: render_line_def VTAG_def is_digit_def neq_Nil_conv split: list.splits elim: separated.elims\<close>)
qed (simp add: render_line_def)

text \<open>A line of items is printed with every item replaced.\<close>

lemma expand_items:
  assumes "\<not> flag (q_flags g) DFLT"
  shows "list_all titem_ok its \<Longrightarrow> separated its \<Longrightarrow> VTAG \<notin> set t \<Longrightarrow>
    \<exists>r'. expand d dia g qtag (t @ render_line its) r = Inr r' \<and> printed (t @ items_text dia g qtag (qr_param r) t its) r r'"
proof (induction its arbitrary: t r)
  case Nil
  then show ?case using printed_print by (simp add: render_line_def expand_end)
next
  case (Cons it its)
  have next_mark: "\<exists>r'. expand d dia g qtag (t @ render it @ render_line its) r = Inr r' \<and>
      printed (t @ u @ items_text dia g qtag (qr_param r) [] its) r r'"
    if h: "expand d dia g qtag (t @ render it @ render_line its) r = expand d dia g qtag (render_line its) r1" "printed (t @ u) r r1"
      "separated its" for r1 u
  proof -
    obtain r' where "expand d dia g qtag (render_line its) r1 = Inr r'" "printed (items_text dia g qtag (qr_param r1) [] its) r1 r'"
      using Cons.IH [of "[]" r1] Cons.prems(1) h(3) by auto
    then show ?thesis using printed_trans [OF h(2)] h(1) printed_fields(1) [OF h(2)] by auto
  qed
  have line: "t @ render_line (it # its) = t @ render it @ render_line its" by (simp add: render_line_def)
  show ?case
  proof (cases it)
    case (Txt u)
    then have "separated its" using Cons.prems(2) by (cases its) auto
    then show ?thesis using Txt Cons.IH [of "t @ u" r] Cons.prems by (simp add: render_line_def)
  next
    case (Par v)
    have v: "titem_ok (Par v)" "separated its" "render_line its = [] \<or> \<not> is_digit (hd (render_line its))"
      using separated_head [of v its] Cons.prems Par by auto
    obtain r1 where "expand d dia g qtag (t @ render it @ render_line its) r = expand d dia g qtag (render_line its) r1"
      "printed (t @ (if v \<le> 10 then qr_param r ! v else [])) r r1"
      using expand_par [OF v(1,3) assms Cons.prems(3), of d dia qtag r] Par by auto
    from next_mark [OF this v(2)] show ?thesis by (simp only: line [unfolded Par] Par items_text.simps)
  next
    case (Tag c)
    then have "separated its" using Cons.prems(2) by (cases its) auto
    moreover obtain r1 where "expand d dia g qtag (t @ render it @ render_line its) r = expand d dia g qtag (render_line its) r1"
      "printed (t @ (case tag_text dia g qtag (q_flags g) c of Some w \<Rightarrow> w | None \<Rightarrow> [])) r r1"
      using expand_tag [of c t d dia g qtag "render_line its" r] Tag Cons.prems(1,3) by auto
    ultimately show ?thesis using next_mark by (simp only: line [unfolded Tag] Tag items_text.simps)
  next
    case (Rows c u)
    then have "its = []" using Cons.prems(2) by (cases its) auto
    then show ?thesis using expand_rows [of c u t d dia g qtag r] Rows Cons.prems(1,3) by (simp add: render_line_def)
  qed
qed

subsection \<open>Comments\<close>

text \<open>
  A reader of comments: braces hold a comment, which may go on in the next lines; two dashes start one that takes the rest of
  the line, its end included.  The first component says whether a comment in braces is open.
\<close>

fun uncomment :: "bool \<Rightarrow> string \<Rightarrow> bool \<times> string" where
  "uncomment b [] = (b, [])"
| "uncomment True (c # l) = uncomment (c \<noteq> CHR ''}'') l"
| "uncomment False (c # l) =
     (if c = CHR ''{'' then uncomment True l
      else if c = CHR ''-'' \<and> take 1 l = ''-'' then (False, [])
      else map_prod id ((#) c) (uncomment False l))"

fun two_dashes :: "string \<Rightarrow> bool" where
  "two_dashes (c # d # l) \<longleftrightarrow> c = CHR ''-'' \<and> d = CHR ''-'' \<or> two_dashes (d # l)"
| "two_dashes _ \<longleftrightarrow> False"

text \<open>The first dash of the line is one of two.\<close>

definition dash_comment :: "string \<Rightarrow> bool" where
  "dash_comment l \<longleftrightarrow> take 2 (dropWhile (\<lambda>c. c \<noteq> CHR ''-'') l) = ''--''"

text \<open>
  Lines with comments that \<open>strip_comments\<close> can read: comments in braces stand at the start of the line only, one behind the
  other, with no two dashes as the first dashes of the line; in the rest of the line there are no braces before two dashes, and no single dash.
\<close>

fun tidy :: "bool \<Rightarrow> string \<Rightarrow> bool" where
  "tidy b [] \<longleftrightarrow> True"
| "tidy True (c # l) \<longleftrightarrow> tidy (c \<noteq> CHR ''}'') l"
| "tidy False (c # l) \<longleftrightarrow>
     (if c = CHR ''{'' then \<not> dash_comment (c # l) \<and> tidy True l
      else if dash_comment (c # l) then CHR ''{'' \<notin> set (takeWhile (\<lambda>c. c \<noteq> CHR ''-'') (c # l))
      else CHR ''{'' \<notin> set (c # l) \<and> \<not> two_dashes (c # l))"

lemma uncomment_plain: "CHR ''{'' \<notin> set l \<Longrightarrow> \<not> two_dashes l \<Longrightarrow> uncomment False l = (False, l)"
  by (induction l rule: two_dashes.induct) auto

lemma uncomment_dashes:
  "dash_comment l \<Longrightarrow> CHR ''{'' \<notin> set (takeWhile (\<lambda>c. c \<noteq> CHR ''-'') l) \<Longrightarrow>
   uncomment False l = (False, takeWhile (\<lambda>c. c \<noteq> CHR ''-'') l)"
proof (induction l)
  case (Cons c l)
  then show ?case by (cases "c = CHR ''-''"; cases l) (auto simp: dash_comment_def)
qed (simp add: dash_comment_def)

lemma strip_inside: "strip_comments True [] = (True, [])" "strip_comments True (c # l) = strip_comments (c \<noteq> CHR ''}'') l"
  by (subst strip_comments.simps; simp)+

lemma strip_outside:
  "strip_comments False [] = (False, [])"
  "\<not> dash_comment (CHR ''{'' # l) \<Longrightarrow> strip_comments False (CHR ''{'' # l) = strip_comments True l"
  "dash_comment l \<Longrightarrow> strip_comments False l = (False, takeWhile (\<lambda>c. c \<noteq> CHR ''-'') l)"
  "\<not> dash_comment l \<Longrightarrow> CHR ''{'' \<notin> set l \<Longrightarrow> strip_comments False l = (False, l)"
  by (subst strip_comments.simps; simp add: dash_comment_def open_comment_def strip_inside(2))+

text \<open>On such lines the stripper agrees with the reader.\<close>

lemma strip_tidy: "tidy b l \<Longrightarrow> strip_comments b l = uncomment b l"
proof (induction b l rule: uncomment.induct)
  case (1 b)
  then show ?case by (cases b) (simp_all add: strip_inside strip_outside)
next
  case (2 c l)
  then show ?case by (simp add: strip_inside)
next
  case (3 c l)
  show ?case
  proof (cases "c = CHR ''{''")
    case True
    then show ?thesis using 3 strip_outside(2) by simp
  next
    case False
    show ?thesis
    proof (cases "dash_comment (c # l)")
      case True
      then have p: "CHR ''{'' \<notin> set (takeWhile (\<lambda>c. c \<noteq> CHR ''-'') (c # l))" using 3(3) False by simp
      show ?thesis by (simp only: uncomment_dashes [OF True p] strip_outside(3) [OF True])
    next
      case dash: False
      then have p: "CHR ''{'' \<notin> set (c # l)" "\<not> two_dashes (c # l)" using 3(3) False by simp_all
      show ?thesis by (simp only: uncomment_plain [OF p] strip_outside(4) [OF dash p(1)])
    qed
  qed
qed

subsection \<open>Templates\<close>

text \<open>
  A template with what it means: every line, without its comments unless they are kept, is a sequence of items; \<open>b\<close> tells whether
  a comment is open before the line.
\<close>

fun template_ok :: "qopts \<Rightarrow> bool \<Rightarrow> (string \<times> titem list) list \<Rightarrow> bool" where
  "template_ok g b [] \<longleftrightarrow> True"
| "template_ok g b ((l, its) # tpl) \<longleftrightarrow>
     length l < BUFSIZ - 2 \<and> CHR 0x0A \<notin> set l \<and> CHR 0x00 \<notin> set l \<and> list_all titem_ok its \<and> separated its \<and>
     (if flag (q_flags g) COMMENT then l @ nl = render_line its \<and> template_ok g b tpl
      else tidy b (l @ nl) \<and> snd (uncomment b (l @ nl)) = render_line its \<and> template_ok g (fst (uncomment b (l @ nl))) tpl)"

definition template_text :: "(string \<times> titem list) list \<Rightarrow> string" where
  "template_text tpl = concat (map (\<lambda>x. fst x @ nl) tpl)"

text \<open>Whether a comment is open behind the last line.\<close>

definition comment_after :: "qopts \<Rightarrow> bool \<Rightarrow> (string \<times> titem list) list \<Rightarrow> bool" where
  "comment_after g b tpl = (if flag (q_flags g) COMMENT then b else foldl (\<lambda>b x. fst (uncomment b (fst x @ nl))) b tpl)"

definition query_text :: "dialect \<Rightarrow> qopts \<Rightarrow> string \<Rightarrow> string list \<Rightarrow> (string \<times> titem list) list \<Rightarrow> string" where
  "query_text dia g qtag ps tpl = concat (map (\<lambda>x. items_text dia g qtag ps [] (snd x)) tpl)"

lemma sub_lines_template:
  assumes "\<not> flag (q_flags g) DFLT"
  shows "template_ok g (qr_comment r) tpl \<Longrightarrow>
    \<exists>r'. sub_lines d dia g qtag (template_text tpl) r = Inr r' \<and>
      printed (query_text dia g qtag (qr_param r) tpl) (r\<lparr>qr_comment := comment_after g (qr_comment r) tpl\<rparr>) r'"
proof (induction tpl arbitrary: r)
  case Nil
  then show ?case by (subst sub_lines.simps) (simp add: template_text_def query_text_def comment_after_def printed_refl)
next
  case (Cons x tpl)
  obtain l its where x: "x = (l, its)" by force
  define b where "b = (if flag (q_flags g) COMMENT then qr_comment r else fst (uncomment (qr_comment r) (l @ nl)))"
  have ok: "length l < BUFSIZ - 2" "CHR 0x0A \<notin> set l" "CHR 0x00 \<notin> set l" "list_all titem_ok its" "separated its" "template_ok g b tpl"
    using Cons.prems x by (simp_all add: b_def split: if_splits)
  have strip: "(if flag (q_flags g) COMMENT then (qr_comment r, l @ nl) else strip_comments (qr_comment r) (l @ nl)) = (b, render_line its)"
    using Cons.prems x by (auto simp: b_def strip_tidy prod_eq_iff)
  have "fgets (BUFSIZ - 1) (template_text (x # tpl)) = (l @ nl, template_text tpl)"
    using fgets_line [OF ok(2), of "BUFSIZ - 1" "template_text tpl"] ok(1) x by (simp add: template_text_def nl_def)
  moreover have "takeWhile (\<lambda>c. c \<noteq> CHR 0x00) (l @ nl) = l @ nl" using ok(3) by (auto simp: nl_def)
  moreover have "template_text (x # tpl) \<noteq> []" by (simp add: template_text_def nl_def)
  moreover obtain r1 where r1: "expand d dia g qtag (render_line its) (r\<lparr>qr_comment := b\<rparr>) = Inr r1"
    "printed (items_text dia g qtag (qr_param r) [] its) (r\<lparr>qr_comment := b\<rparr>) r1"
    using expand_items [OF assms ok(4,5), where t = "[]" and d = d and r = "r\<lparr>qr_comment := b\<rparr>"] by auto
  ultimately have step: "sub_lines d dia g qtag (template_text (x # tpl)) r = sub_lines d dia g qtag (template_text tpl) r1"
    using strip by (subst sub_lines.simps) (simp only: Let_def prod.case fst_conv snd_conv sum.case if_False if_True simp_thms)
  note f = printed_fields [OF r1(2)]
  obtain r' where r': "sub_lines d dia g qtag (template_text tpl) r1 = Inr r'"
    "printed (query_text dia g qtag (qr_param r) tpl) (r1\<lparr>qr_comment := comment_after g b tpl\<rparr>) r'"
    using Cons.IH [of r1] ok(6) f(1,3) by auto
  have "printed (items_text dia g qtag (qr_param r) [] its) (r\<lparr>qr_comment := comment_after g b tpl\<rparr>) (r1\<lparr>qr_comment := comment_after g b tpl\<rparr>)"
    using r1(2) unfolding printed_def by (cases r; cases r1) (simp add: q_print_def printf_def)
  from printed_trans [OF this r'(2)]
  show ?case using step r'(1) x by (cases "flag (q_flags g) COMMENT") (simp_all add: query_text_def comment_after_def b_def)
qed

subsection \<open>Shipped distributions\<close>

definition nations2_entries :: "(string \<times> int) list" where
  "nations2_entries =
    [(''ALGERIA'', 1), (''ARGENTINA'', 1), (''BRAZIL'', 1), (''CANADA'', 1), (''EGYPT'', 1),
     (''ETHIOPIA'', 1), (''FRANCE'', 1), (''GERMANY'', 1), (''INDIA'', 1), (''INDONESIA'', 1),
     (''IRAN'', 1), (''IRAQ'', 1), (''JAPAN'', 1), (''JORDAN'', 1), (''KENYA'', 1),
     (''MOROCCO'', 1), (''MOZAMBIQUE'', 1), (''PERU'', 1), (''CHINA'', 1), (''ROMANIA'', 1),
     (''SAUDI ARABIA'', 1), (''VIETNAM'', 1), (''RUSSIA'', 1), (''UNITED KINGDOM'', 1),
     (''UNITED STATES'', 1)]"

definition q13a_entries :: "(string \<times> int) list" where
  "q13a_entries =
    [(''special'', 20), (''pending'', 20), (''unusual'', 20), (''express'', 20)]"

definition q13b_entries :: "(string \<times> int) list" where
  "q13b_entries =
    [(''packages'', 40), (''requests'', 40), (''accounts'', 40), (''deposits'', 40)]"

definition ssb_qdists :: qdists where
  "ssb_qdists = dists.extend ssb_dists
     (qdists.fields (entries_dist nations2_entries) (entries_dist q13a_entries) (entries_dist q13b_entries))"

lemma words_fitI:
  assumes "1 \<le> sum_list (map snd es)" "sum_list (map snd es) < 2 ^ 31" "list_all (\<lambda>e. length (fst e) < PARAM_LEN) es"
  shows "words_fit (entries_dist es)"
proof -
  have "\<forall>w \<in> sm_text ` set (cumulate 0 es). length w < PARAM_LEN" using assms(3) by (simp add: cumulate_texts list_all_iff)
  then show ?thesis using entries_dist_ok [OF assms(1,2)] by (simp add: words_fit_def list_all_iff entries_dist_def)
qed

lemma ssb_qdists_fields [simp]:
  "p_types_set ssb_qdists = entries_dist p_types_entries" "regions ssb_qdists = entries_dist regions_entries"
  "c_mseg_set ssb_qdists = entries_dist msegmnt_entries" "nations2 ssb_qdists = entries_dist nations2_entries"
  "colors ssb_qdists = entries_dist colors_entries" "l_smode_set ssb_qdists = entries_dist smode_entries"
  "p_cntr_set ssb_qdists = entries_dist p_cntr_entries" "q13a ssb_qdists = entries_dist q13a_entries"
  "q13b ssb_qdists = entries_dist q13b_entries" "nations ssb_qdists = entries_dist nations_entries"
  by (simp_all add: ssb_qdists_def ssb_dists_def dists.defs qdists.defs)

lemma short_words:
  "sum_list (map snd p_types_entries) = 150" "list_all (\<lambda>e. length (fst e) < PARAM_LEN) p_types_entries"
  "sum_list (map snd regions_entries) = 5" "list_all (\<lambda>e. length (fst e) < PARAM_LEN) regions_entries"
  "sum_list (map snd msegmnt_entries) = 5" "list_all (\<lambda>e. length (fst e) < PARAM_LEN) msegmnt_entries"
  "sum_list (map snd nations2_entries) = 25" "list_all (\<lambda>e. length (fst e) < PARAM_LEN) nations2_entries"
  "sum_list (map snd colors_entries) = 92" "list_all (\<lambda>e. length (fst e) < PARAM_LEN) colors_entries"
  "sum_list (map snd smode_entries) = 7" "list_all (\<lambda>e. length (fst e) < PARAM_LEN) smode_entries"
  "sum_list (map snd p_cntr_entries) = 40" "list_all (\<lambda>e. length (fst e) < PARAM_LEN) p_cntr_entries"
  "sum_list (map snd q13a_entries) = 80" "list_all (\<lambda>e. length (fst e) < PARAM_LEN) q13a_entries"
  "sum_list (map snd q13b_entries) = 160" "list_all (\<lambda>e. length (fst e) < PARAM_LEN) q13b_entries"
  by code_simp+

lemma ssb_words_fit:
  "words_fit (entries_dist p_types_entries)"
  "words_fit (entries_dist regions_entries)"
  "words_fit (entries_dist msegmnt_entries)"
  "words_fit (entries_dist nations2_entries)"
  "words_fit (entries_dist colors_entries)"
  "words_fit (entries_dist smode_entries)"
  "words_fit (entries_dist p_cntr_entries)"
  "words_fit (entries_dist q13a_entries)"
  "words_fit (entries_dist q13b_entries)"
  by (intro words_fitI short_words; simp add: short_words)+

lemma types_blank: "list_all (\<lambda>e. CHR '' '' \<in> set (fst e)) p_types_entries"
  by code_simp

lemma ssb_qdists_ok: "qdists_ok ssb_qdists"
proof -
  have "\<forall>w \<in> fst ` set p_types_entries. CHR '' '' \<in> set w" using types_blank by (simp add: list_all_iff)
  then have "list_all (\<lambda>m. CHR '' '' \<in> set (sm_text m)) (dlist (entries_dist p_types_entries))"
    unfolding cumulate_texts [of 0, symmetric] by (simp add: entries_dist_def list_all_iff)
  moreover have "two_choices (entries_dist nations2_entries)" "two_choices (entries_dist smode_entries)"
    by (simp_all add: two_choices_def entries_dist_def nations2_entries_def smode_entries_def)
  moreover have "length (dlist (entries_dist nations2_entries)) \<le> length (dlist (entries_dist nations_entries))"
    by (simp add: entries_dist_def nations2_entries_def nations_entries_def)
  moreover have "list_all (\<lambda>m. 0 \<le> weight m \<and> weight m < int (length (dlist (entries_dist regions_entries)))) (dlist (entries_dist nations_entries))"
    by (simp add: entries_dist_def nations_entries_def regions_entries_def)
  ultimately show ?thesis by (simp add: qdists_ok_def ssb_words_fit)
qed

subsection \<open>Parameters\<close>

text \<open>
  C16: with the shipped word lists (or any lists that fit) the parameters of each of the 22 queries are found: the loops that
  draw until a choice is new end from every state of the streams, and the parameters have the form the query needs.
\<close>

theorem query_params_valid:
  assumes "rng_ok s" "qdists_ok d" "1 \<le> sf" "1 \<le> q" "q \<le> 22"
  shows "\<exists>ps p' s'. draw_params d (the mk_ascdate) sf q p s = Some (ps, p', s') \<and> param_ok d sf q ps \<and> rng_ok s'"
  using draw_params_ensures [OF assms] by (auto simp: succeeds_def)

theorem query_params_valid_witness:
  "\<exists>ps p' s'. draw_params ssb_qdists (the mk_ascdate) 1 16 \<lparr>source = 0, pset = [], pdist = None\<rparr> rng_init = Some (ps, p', s') \<and> param_ok ssb_qdists 1 16 ps \<and> rng_ok s'"
  by (rule query_params_valid [OF rng_init_ok ssb_qdists_ok]) simp_all

subsection \<open>Whole queries\<close>

text \<open>
  C15: a template whose lines are sequences of texts and marks is printed line by line, without its comments and with every mark replaced: a number by the
  parameter drawn for the query, a letter by its text, \<open>:n\<close> by the statement that sets the row count (and a copy of the text before it, while the
  rest of its line is lost).  With \<open>-N\<close> the default row count comes first and \<open>:n\<close> leaves no statement.  Comments are those that a reader finds
  in the text, in braces over several lines or behind two dashes, on lines where \<open>strip_comments\<close> can read them (\<open>tidy\<close>;
  \<open>comments_take_text_along\<close> has the other lines).
\<close>

theorem qsub_substitutes:
  assumes "rng_ok (qr_rng r)" "qdists_ok d" "1 \<le> q_scale g" "1 \<le> q" "q \<le> 22"
    and "\<not> flag (q_flags g) DFLT" "\<not> flag (q_flags g) LOG"
    and "world_files (qr_wld r) (env_config env ''DSS_QUERY'' ''.'' @ ''/'' @ fmt_d q @ ''.sql'') = Some (template_text tpl)"
    and "length (env_config env ''DSS_QUERY'' ''.'') < BUFSIZ - 10"
    and "template_ok g (qr_comment r) tpl"
  shows "\<exists>ps r'. qsub env d dia g (fmt_d q) r = Inr r' \<and> param_ok d (q_scale g) q ps \<and> rng_ok (qr_rng r') \<and>
    qr_comment r' = comment_after g (qr_comment r) tpl \<and>
    stdout (qr_wld r') = stdout (qr_wld r) @ (if flag (q_flags g) DFLT_NUM then set_rowcount dia (rowcnt_dflt ! nat q) else []) @
      query_text dia g (fmt_d q) (store ps (qr_param r)) tpl"
proof -
  obtain ps p s where draw: "draw_params d (the mk_ascdate) (q_scale g) q (qr_perm r) (qr_rng r) = Some (ps, p, s)"
    "param_ok d (q_scale g) q ps" "rng_ok s"
    using draw_params_ensures [OF assms(1-5), where p = "qr_perm r"] by (auto simp: succeeds_def)
  let ?n = "if flag (q_flags g) DFLT_NUM then set_rowcount dia (rowcnt_dflt ! nat q) else []"
  let ?r = "r\<lparr>qr_rowcnt := rowcnt_dflt ! nat q, qr_param := store ps (qr_param r), qr_perm := p, qr_rng := s\<rparr>"
  have tag: "atoi (fmt_d q) = q" using assms(4,5) atoi_number [of "nat q" "[]"] by simp
  have "length (fmt_d q) \<le> 2" using assms(4,5) by (simp add: fmt_d_def) (simp add: dec.simps)
  then have path: "\<not> BUFSIZ \<le> length (env_config env ''DSS_QUERY'' ''.'' @ ''/'' @ fmt_d q @ ''.sql'')"
    using assms(9) by simp
  have "varsub d g q 0 (q_flags g) (r\<lparr>qr_rowcnt := rowcnt_dflt ! nat q\<rparr>) = Inr ?r"
    using assms(4-7) draw(1) by (simp add: varsub_def varsub_draw_def write_log_def)
  then have q: "qsub env d dia g (fmt_d q) r = sub_lines d dia g (fmt_d q) (template_text tpl) (q_print ?n ?r)"
    using assms(4,5,8) path tag by (simp add: qsub_def Let_def)
  obtain r' where r': "sub_lines d dia g (fmt_d q) (template_text tpl) (q_print ?n ?r) = Inr r'"
    "printed (query_text dia g (fmt_d q) (store ps (qr_param r)) tpl) ((q_print ?n ?r)\<lparr>qr_comment := comment_after g (qr_comment r) tpl\<rparr>) r'"
    using sub_lines_template [OF assms(6), of "q_print ?n ?r" tpl d dia "fmt_d q"] assms(10) by auto
  note f = printed_fields [OF r'(2)]
  show ?thesis
    using q r'(1) draw(2,3) f by (intro exI [of _ ps] exI [of _ r']) simp
qed

definition demo_template :: "(string \<times> titem list) list" where
  "demo_template = [(''{a comment'', []), (''on two lines}{}'', [Txt nl]), (''sum > :1; -- until here'', [Txt ''sum > '', Par 1, Txt ''; '']),
     ('':n -1'', [Rows CHR ''n'' ('' -1'' @ nl)])]"

definition demo_world :: world where
  "demo_world = \<lparr>nodes = [''./18.sql'' \<mapsto> Regular (template_text demo_template)],
     denied = (\<lambda>_. False), statfails = (\<lambda>_. False), stdin = [], stdout = []\<rparr>"

lemma demo_template_ok: "template_ok qopts_init False demo_template"
  by code_simp

lemma demo_world_file: "world_files demo_world (''.'' @ ''/'' @ fmt_d 18 @ ''.sql'') = Some (template_text demo_template)"
  by code_simp

theorem qsub_substitutes_witness:
  "\<exists>ps r'. qsub (\<lambda>_. None) ssb_qdists DB2 qopts_init (fmt_d 18) (qrun_init demo_world) = Inr r' \<and> param_ok ssb_qdists 1 18 ps \<and>
    stdout (qr_wld r') = nl @ ''sum > '' @ store ps (replicate 11 []) ! 1 @ ''; '' @ ''--#SET ROWS_FETCH -1'' @ nl"
proof -
  have t: "query_text DB2 qopts_init (fmt_d 18) ps demo_template = nl @ ''sum > '' @ ps ! 1 @ ''; '' @ ''--#SET ROWS_FETCH -1'' @ nl" for ps
  proof -
    have "set_rowcount DB2 (atoi ('' -1'' @ nl)) = ''--#SET ROWS_FETCH -1'' @ nl" "\<not> flag (q_flags qopts_init) DFLT_NUM" by code_simp+
    then show ?thesis by (simp add: query_text_def demo_template_def)
  qed
  have "\<exists>ps r'. qsub (\<lambda>_. None) ssb_qdists DB2 qopts_init (fmt_d 18) (qrun_init demo_world) = Inr r' \<and>
      param_ok ssb_qdists (q_scale qopts_init) 18 ps \<and> rng_ok (qr_rng r') \<and>
      qr_comment r' = comment_after qopts_init (qr_comment (qrun_init demo_world)) demo_template \<and>
      stdout (qr_wld r') = stdout (qr_wld (qrun_init demo_world)) @
        (if flag (q_flags qopts_init) DFLT_NUM then set_rowcount DB2 (rowcnt_dflt ! nat 18) else []) @
        query_text DB2 qopts_init (fmt_d 18) (store ps (qr_param (qrun_init demo_world))) demo_template"
    by (rule qsub_substitutes) (use demo_world_file demo_template_ok ssb_qdists_ok rng_init_ok in
      \<open>simp_all add: qopts_init_def qrun_init_def env_config_def flag_def BUFSIZ_def\<close>)
  then show ?thesis
    unfolding t by (simp add: qopts_init_def qrun_init_def demo_world_def flag_def) blast
qed

subsection \<open>Seeds\<close>

lemma seed_streams_values:
  "length (Seed s) = 48 \<Longrightarrow> 1 \<le> i \<Longrightarrow> i + n \<le> 48 \<Longrightarrow> j < 48 \<Longrightarrow> sd_value (Seed (seed_streams n i s) ! j) =
    (if j = 0 then (NextRand ^^ n) (sd_value (Seed s ! 0))
     else if i \<le> j \<and> j < i + n then (NextRand ^^ (j - i + 1)) (sd_value (Seed s ! 0)) else sd_value (Seed s ! j))"
proof (induction n i s rule: seed_streams.induct)
  case (2 n i s)
  let ?v = "NextRand (sd_value (Seed s ! 0))"
  let ?s = "upd_seed i (\<lambda>e. e\<lparr>sd_value := ?v\<rparr>) (upd_seed 0 (\<lambda>e. e\<lparr>sd_value := ?v\<rparr>) s)"
  have s: "length (Seed ?s) = 48" "sd_value (Seed ?s ! j) = (if j = 0 \<or> j = i then ?v else sd_value (Seed s ! j))" for j
    using 2 by (auto simp: upd_seed_def nth_list_update)
  have "seed_streams (Suc n) i s = seed_streams n (i + 1) ?s" by (simp add: Let_def)
  moreover have "(NextRand ^^ (j - i)) x = (NextRand ^^ (j - Suc i)) (NextRand x)" if "Suc i \<le> j" for x
    using that by (simp add: funpow_swap1 flip: Suc_diff_Suc)
  ultimately show ?case using 2 s by (auto simp: funpow_swap1 Suc_diff_le simp del: seed_streams.simps)
qed simp

text \<open>
  \<open>qgen\<close> starts stream \<open>i\<close>, for \<open>1 \<le> i \<le> 22\<close>, with the \<open>i\<close>-th value after the start value, so that neighbouring
  streams run through the same sequence one step apart; a start value 0 makes all of them constantly 0.
\<close>

theorem query_seeds:
  assumes "rng_ok s" "1 \<le> i" "i \<le> 22"
  shows "sd_value (Seed (qgen_seeds rndm s) ! i) = (NextRand ^^ i) rndm \<and>
    (seed_ok rndm \<longrightarrow> sd_value (Seed (qgen_seeds rndm s) ! i) = nA ^ i * rndm mod nM) \<and>
    sd_value (Seed (qgen_seeds 0 s) ! i) = 0"
proof -
  have "sd_value (Seed (qgen_seeds r s) ! i) = (NextRand ^^ i) r" for r
    using seed_streams_values [of "upd_seed 0 (\<lambda>e. e\<lparr>sd_value := r\<rparr>) s" 1 22 i] rng_okD(1) [OF assms(1)] assms(2,3)
    by (simp add: qgen_seeds_def QUERIES_PER_SET_def upd_seed_def)
  moreover have "(NextRand ^^ i) 0 = 0" by (induction i) (simp_all add: NextRand_def)
  ultimately show ?thesis using NextRand_iter by simp
qed

theorem query_seeds_witness: "sd_value (Seed (qgen_seeds 12345 rng_init) ! 2) = (NextRand ^^ 2) 12345"
  using query_seeds [OF rng_init_ok, of 2 12345] by simp

subsection \<open>Comments and row counts\<close>

text \<open>
  A comment in braces takes the text before it on its line along; an open comment empties the line;
  a dash hides the comment after two dashes later on the line.
\<close>

theorem comments_take_text_along:
  assumes "\<forall>x \<in> set (p @ c @ rest). x \<noteq> CHR ''-''" "\<forall>x \<in> set (p @ c). x \<noteq> CHR ''{'' \<and> x \<noteq> CHR ''}''" "c \<noteq> []"
  shows "strip_comments False (p @ CHR ''{'' # c @ CHR ''}'' # rest) = strip_comments False rest \<and>
    strip_comments False (p @ CHR ''{'' # c) = (True, []) \<and>
    strip_comments True (c @ CHR ''}'' # rest) = strip_comments False rest \<and>
    strip_comments False (p @ CHR ''-'' # c @ ''--'' @ c) = (False, p @ CHR ''-'' # c @ ''--'' @ c)"
proof -
  have dash: "dropWhile (\<lambda>x. x \<noteq> CHR ''-'') (p @ CHR ''{'' # c @ CHR ''}'' # rest) = []" "dropWhile (\<lambda>x. x \<noteq> CHR ''-'') (p @ CHR ''{'' # c) = []"
    using assms(1) by auto
  have brace: "takeWhile (\<lambda>x. x \<noteq> CHR ''{'') (p @ CHR ''{'' # t) = p" "dropWhile (\<lambda>x. x \<noteq> CHR ''{'') (p @ CHR ''{'' # t) = CHR ''{'' # t" for t
    using assms(2) by (auto simp: takeWhile_append dropWhile_append)
  have close: "dropWhile (\<lambda>x. x \<noteq> CHR ''}'') (p @ CHR '' '' # c @ CHR ''}'' # rest) = CHR ''}'' # rest"
    "dropWhile (\<lambda>x. x \<noteq> CHR ''}'') (c @ CHR ''}'' # rest) = CHR ''}'' # rest" "dropWhile (\<lambda>x. x \<noteq> CHR ''}'') (p @ CHR '' '' # c) = []"
    using assms(2) by (auto simp: dropWhile_append)
  have inside: "strip_comments True (p @ CHR '' '' # c @ CHR ''}'' # rest) = strip_comments False rest"
    "strip_comments True (c @ CHR ''}'' # rest) = strip_comments False rest" "strip_comments True (p @ CHR '' '' # c) = (True, [])"
    by (subst strip_comments.simps; simp only: close list.case)+
  have 1: "strip_comments False (p @ CHR ''{'' # c @ CHR ''}'' # rest) = strip_comments False rest"
    by (subst strip_comments.simps) (simp add: dash open_comment_def brace inside)
  have 2: "strip_comments False (p @ CHR ''{'' # c) = (True, [])"
    by (subst strip_comments.simps) (simp add: dash open_comment_def brace inside)
  have "dropWhile (\<lambda>x. x \<noteq> CHR ''-'') (p @ CHR ''-'' # c @ ''--'' @ c) = CHR ''-'' # c @ ''--'' @ c"
    using assms(1) by (auto simp: dropWhile_append)
  moreover have "take 2 (CHR ''-'' # c @ ''--'' @ c) \<noteq> ''--''" using assms(1,3) by (cases c) auto
  moreover have "CHR ''{'' \<notin> set (p @ CHR ''-'' # c @ ''--'' @ c)" using assms(2) by auto
  ultimately have "strip_comments False (p @ CHR ''-'' # c @ ''--'' @ c) = (False, p @ CHR ''-'' # c @ ''--'' @ c)"
    by (subst strip_comments.simps) (simp only: if_False)
  then show ?thesis using 1 2 inside by simp
qed

theorem comments_take_text_along_witness: "strip_comments False (''select '' @ CHR ''{'' # ''x'' @ CHR ''}'' # ''*'') = strip_comments False ''*''"
  using comments_take_text_along [of "''select ''" "''x''" "''*''"] by simp

text \<open>
  The mark \<open>:n\<close> ends its line: the text after the number is lost and the text before the mark is printed twice, once on
  either side of the statement that sets the row count.
\<close>

theorem rowcount_mark:
  assumes "VTAG \<notin> set p" "c = CHR ''n'' \<or> c = CHR ''N''"
  shows "\<exists>r'. expand d dia g qtag (p @ VTAG # c # t) r = Inr r' \<and>
    stdout (qr_wld r') = stdout (qr_wld r) @ p @ (if flag (q_flags g) DFLT_NUM then [] else set_rowcount dia (atoi t)) @ p \<and>
    qr_rowcnt r' = (if flag (q_flags g) DFLT_NUM then qr_rowcnt r else atoi t)"
proof -
  let ?r = "q_print p (if flag (q_flags g) DFLT_NUM then q_print p r
      else q_print (set_rowcount dia (atoi t)) ((q_print p r)\<lparr>qr_rowcnt := atoi t\<rparr>))"
  have "expand d dia g qtag (p @ VTAG # c # t) r = Inr ?r"
    by (subst expand.simps) (use assms(2) in \<open>simp add: mark_split [OF assms(1)] Let_def del: q_print_print\<close>)
  then show ?thesis by (auto simp: q_print_def printf_def)
qed

theorem rowcount_mark_witness:
  "\<exists>r'. expand ssb_qdists INFORMIX qopts_init ''3'' (''select '' @ VTAG # CHR ''n'' # ''10 *'') (qrun_init demo_world) = Inr r' \<and>
    stdout (qr_wld r') = ''select FIRST 10select ''"
proof -
  have "atoi ''10 *'' = 10" "\<not> flag (q_flags qopts_init) DFLT_NUM" by code_simp+
  moreover have "set_rowcount INFORMIX 10 = ''FIRST 10''" "stdout (qr_wld (qrun_init demo_world)) = []" by code_simp+
  ultimately show ?thesis
    using rowcount_mark [of "''select ''" "CHR ''n''" ssb_qdists INFORMIX qopts_init "''3''" "''10 *''" "qrun_init demo_world"]
    by (auto simp: VTAG_def)
qed

end
