(* ===== verification/Text_Gen.thy ===== *)
theory Text_Gen
  imports Output Query_Params
begin

text \<open>
  The pseudo text generator \<open>text.c\<close>: sentences from a grammar of word classes, cut off at a drawn length.  The
  program writes into buffers through pointers, so a buffer is a list of characters of fixed length, a pointer
  an index, and every write is checked.  \<open>None\<close> and \<open>Crash\<close> stand for a write outside a buffer or
  a null pointer.

  Shown: with distributions whose longest sentence fits, \<open>dbg_text\<close> ends from every state of the streams, its
  length lies between the bounds, and its text is the start of sentences of the grammar, each with a blank behind it.
\<close>

record tdists =
  articles :: distribution
  nouns :: distribution
  adjectives :: distribution
  adverbs :: distribution
  prepositions :: distribution
  verbs :: distribution
  terminators :: distribution
  auxillaries :: distribution
  np :: distribution
  vp :: distribution
  grammar :: distribution

definition MAX_GRAMMAR_LEN :: nat where "MAX_GRAMMAR_LEN = 12"
definition MAX_SENT_LEN :: nat where "MAX_SENT_LEN = 256"

abbreviation NUL :: char where "NUL \<equiv> CHR 0x00"
abbreviation blank :: char where "blank \<equiv> CHR '' ''"

subsection \<open>Buffers\<close>

definition buf_put :: "nat \<Rightarrow> string \<Rightarrow> string \<Rightarrow> string option" where
  "buf_put p t b = (if p + length t \<le> length b then Some (take p b @ t @ drop (p + length t) b) else None)"

text \<open>The string that starts the buffer.\<close>

definition c_string :: "string \<Rightarrow> string option" where
  "c_string b = (if NUL \<in> set b then Some (takeWhile (\<lambda>c. c \<noteq> NUL) b) else None)"

text \<open>\<open>pick_str(src, sd, dest)\<close>, and the length of the word.\<close>

definition pick_into :: "distribution option \<Rightarrow> int \<Rightarrow> nat \<Rightarrow> string \<Rightarrow> rng \<Rightarrow> (nat \<times> string \<times> rng) option" where
  "pick_into src sd dest b s = do {
     d \<leftarrow> src;
     (_, w, s) \<leftarrow> pick_str d sd s;
     b \<leftarrow> buf_put dest (w @ [NUL]) b;
     Some (length w, b, s) }"

definition pick_form :: "distribution \<Rightarrow> int \<Rightarrow> rng \<Rightarrow> (string \<times> rng) option" where
  "pick_form d sd s = do {
     (_, w, s) \<leftarrow> pick_str d sd s;
     if length w \<le> MAX_GRAMMAR_LEN then Some (w, s) else None }"

text \<open>\<open>strtok(parse_target, " ")\<close>\<close>

definition strtok_blank :: "string \<Rightarrow> (string \<times> string) option" where
  "strtok_blank cs = (case dropWhile (\<lambda>c. c = blank) cs of [] \<Rightarrow> None
     | r \<Rightarrow> Some (takeWhile (\<lambda>c. c \<noteq> blank) r, tl (dropWhile (\<lambda>c. c \<noteq> blank) r)))"

lemma strtok_blank_shrinks: "strtok_blank cs = Some (w, r) \<Longrightarrow> length r < length cs"
  using length_dropWhile_le [of "\<lambda>c. c = blank" cs] length_dropWhile_le [of "\<lambda>c. c \<noteq> blank" "dropWhile (\<lambda>c. c = blank) cs"]
  by (auto simp: strtok_blank_def split: list.splits)

subsection \<open>Phrases\<close>

definition vp_source :: "tdists \<Rightarrow> char \<Rightarrow> distribution option" where
  "vp_source t c =
     (if c = CHR ''D'' then Some (adverbs t)
      else if c = CHR ''V'' then Some (verbs t)
      else if c = CHR ''X'' then Some (auxillaries t)
      else None)"

text \<open>Punctuation in a verb phrase is written one place too far and then overwritten by the blank.\<close>

function vp_loop :: "tdists \<Rightarrow> int \<Rightarrow> string \<Rightarrow> nat \<Rightarrow> nat \<Rightarrow> string \<Rightarrow> rng \<Rightarrow> (nat \<times> string \<times> rng) option" where
  "vp_loop t sd syn dest res b s =
     (case strtok_blank syn of
        None \<Rightarrow> Some (res, b, s)
      | Some (tok, syn) \<Rightarrow> do {
          (i, b, s) \<leftarrow> pick_into (vp_source t (hd tok)) sd dest b s;
          (k, b) \<leftarrow> (case tl tok of [] \<Rightarrow> Some (i, b) | c # _ \<Rightarrow> map_option (Pair (i + 1)) (buf_put (dest + i + 1) [c] b));
          b \<leftarrow> buf_put (dest + k) [blank] b;
          vp_loop t sd syn (dest + k + 1) (res + k + 1) b s })"
  by pat_completeness auto

termination vp_loop
  by (relation "measure (\<lambda>(_, _, syn, _). length syn)") (auto dest: strtok_blank_shrinks)

definition txt_vp :: "tdists \<Rightarrow> int \<Rightarrow> nat \<Rightarrow> string \<Rightarrow> rng \<Rightarrow> (nat \<times> string \<times> rng) option" where
  "txt_vp t sd dest b s = do { (syn, s) \<leftarrow> pick_form (vp t) sd s; vp_loop t sd syn dest 0 b s }"

definition np_source :: "tdists \<Rightarrow> char \<Rightarrow> distribution option" where
  "np_source t c =
     (if c = CHR ''A'' then Some (articles t)
      else if c = CHR ''J'' then Some (adjectives t)
      else if c = CHR ''D'' then Some (adverbs t)
      else if c = CHR ''N'' then Some (nouns t)
      else None)"

function np_loop :: "tdists \<Rightarrow> int \<Rightarrow> string \<Rightarrow> nat \<Rightarrow> nat \<Rightarrow> string \<Rightarrow> rng \<Rightarrow> (nat \<times> string \<times> rng) option" where
  "np_loop t sd syn dest res b s =
     (case strtok_blank syn of
        None \<Rightarrow> Some (res, b, s)
      | Some (tok, syn) \<Rightarrow> do {
          (i, b, s) \<leftarrow> pick_into (np_source t (hd tok)) sd dest b s;
          (k, b) \<leftarrow> (case tl tok of [] \<Rightarrow> Some (i, b) | c # _ \<Rightarrow> map_option (Pair (i + 1)) (buf_put (dest + i) [c] b));
          b \<leftarrow> buf_put (dest + k) [blank] b;
          np_loop t sd syn (dest + k + 1) (res + k + 1) b s })"
  by pat_completeness auto

termination np_loop
  by (relation "measure (\<lambda>(_, _, syn, _). length syn)") (auto dest: strtok_blank_shrinks)

declare vp_loop.simps [simp del] np_loop.simps [simp del]

definition txt_np :: "tdists \<Rightarrow> int \<Rightarrow> nat \<Rightarrow> string \<Rightarrow> rng \<Rightarrow> (nat \<times> string \<times> rng) option" where
  "txt_np t sd dest b s = do { (syn, s) \<leftarrow> pick_form (np t) sd s; np_loop t sd syn dest 0 b s }"

subsection \<open>Sentences\<close>

text \<open>The part of a sentence for one letter: where it starts, its length; a letter without a meaning writes nothing and
  leaves the length of the last part.  A terminator takes the place of the blank before it.\<close>

definition sent_part :: "tdists \<Rightarrow> int \<Rightarrow> char \<Rightarrow> nat \<Rightarrow> nat \<Rightarrow> string \<Rightarrow> rng \<Rightarrow> (nat \<times> nat \<times> string \<times> rng) option" where
  "sent_part t sd c dest len b s =
     (if c = CHR ''V'' then map_option (Pair dest) (txt_vp t sd dest b s)
      else if c = CHR ''N'' then map_option (Pair dest) (txt_np t sd dest b s)
      else if c = CHR ''P'' then do {
        (i, b, s) \<leftarrow> pick_into (Some (prepositions t)) sd dest b s;
        b \<leftarrow> buf_put (dest + i) ('' the '' @ [NUL]) b;
        (k, b, s) \<leftarrow> txt_np t sd (dest + (i + 5)) b s;
        Some (dest, i + 5 + k, b, s) }
      else if c = CHR ''T'' then
        (if dest = 0 then None else map_option (Pair (dest - 1)) (pick_into (Some (terminators t)) sd (dest - 1) b s))
      else Some (dest, len, b, s))"

definition sent_punct :: "string \<Rightarrow> nat \<Rightarrow> nat \<Rightarrow> string \<Rightarrow> (nat \<times> nat \<times> string) option" where
  "sent_punct syn dest res b =
     (if syn = [] \<or> hd syn = blank then Some (dest, res, b)
      else map_option (\<lambda>b. (dest + 1, res + 1, b)) (buf_put (dest + 1) [hd syn] b))"

function sent_loop :: "tdists \<Rightarrow> int \<Rightarrow> string \<Rightarrow> nat \<Rightarrow> nat \<Rightarrow> nat \<Rightarrow> string \<Rightarrow> rng \<Rightarrow> (int \<times> string \<times> rng) option" where
  "sent_loop t sd syn dest res len b s =
     (case dropWhile (\<lambda>c. c = blank) syn of
        [] \<Rightarrow> map_option (\<lambda>b. (int res - 1, b, s)) (buf_put dest [NUL] b)
      | c # syn \<Rightarrow> do {
          (dest, len, b, s) \<leftarrow> sent_part t sd c dest len b s;
          (dest, res, b) \<leftarrow> sent_punct syn (dest + len) (res + len) b;
          sent_loop t sd syn dest res len b s })"
  by pat_completeness auto

lemma dropWhile_Cons_shrinks: "dropWhile P xs = y # ys \<Longrightarrow> length ys < length xs"
  using length_dropWhile_le [of P xs] by simp

termination sent_loop
  by (relation "measure (\<lambda>(_, _, syn, _). length syn)") (auto dest: dropWhile_Cons_shrinks)

declare sent_loop.simps [simp del]

definition txt_sentence :: "tdists \<Rightarrow> int \<Rightarrow> string \<Rightarrow> rng \<Rightarrow> (int \<times> string \<times> rng) option" where
  "txt_sentence t sd b s = do { (syn, s) \<leftarrow> pick_form (grammar t) sd s; sent_loop t sd syn 0 0 0 b s }"

subsection \<open>\<open>dbg_text\<close>\<close>

text \<open>One sentence more: the whole sentence and a blank, or its first \<open>needed\<close> characters.  The value holds the
  number of characters, the text, the sentence buffer and the streams.\<close>

definition text_step :: "tdists \<Rightarrow> int \<Rightarrow> int \<Rightarrow> nat \<Rightarrow> string \<Rightarrow> string \<Rightarrow> rng \<Rightarrow> abort + int \<times> string \<times> string \<times> rng" where
  "text_step t sd needed p tgt b s =
     (case txt_sentence t sd b s of
        None \<Rightarrow> Inl Crash
      | Some (s_len, b, s) \<Rightarrow>
          if s_len < 0 then Inl Aborted
          else case (if needed \<ge> s_len + 1 then do {
                       x \<leftarrow> c_string b;
                       tgt \<leftarrow> buf_put p (x @ [NUL]) tgt;
                       tgt \<leftarrow> buf_put (p + nat s_len) [blank] tgt;
                       Some (s_len + 1, tgt, b, s) }
                     else do {
                       b \<leftarrow> buf_put (nat needed) [NUL] b;
                       x \<leftarrow> c_string b;
                       tgt \<leftarrow> buf_put p (x @ [NUL]) tgt;
                       Some (needed, tgt, b, s) }) of
                 None \<Rightarrow> Inl Crash
               | Some r \<Rightarrow> Inr r)"

lemma text_step_grows: "text_step t sd needed p tgt b s = Inr (k, r) \<Longrightarrow> 0 < needed \<Longrightarrow> 0 < k"
  by (auto simp: text_step_def split: option.splits if_splits Option.bind_splits)

text \<open>\<open>p\<close> is the distance of \<open>tgt\<close> from the start of its buffer.\<close>

function text_loop :: "tdists \<Rightarrow> int \<Rightarrow> int \<Rightarrow> int \<Rightarrow> nat \<Rightarrow> string \<Rightarrow> string \<Rightarrow> rng \<Rightarrow> abort + int \<times> string \<times> rng" where
  "text_loop t sd len wordlen p tgt b s =
     (if wordlen < len
      then case text_step t sd (len - wordlen) p tgt b s of
             Inl a \<Rightarrow> Inl a
           | Inr (k, tgt, b, s) \<Rightarrow> text_loop t sd len (wordlen + k) (p + nat k) tgt b s
      else case buf_put p [NUL] tgt of None \<Rightarrow> Inl Crash | Some tgt \<Rightarrow> Inr (wordlen, tgt, s))"
  by pat_completeness auto

termination text_loop
  by (relation "measure (\<lambda>(_, _, len, wordlen, _). nat (len - wordlen))") (auto dest: text_step_grows)

declare text_loop.simps [simp del]

text \<open>\<open>b\<close> is what the local array \<open>sentence\<close> holds at the start.\<close>

definition dbg_text :: "tdists \<Rightarrow> string \<Rightarrow> string \<Rightarrow> int \<Rightarrow> int \<Rightarrow> int \<Rightarrow> rng \<Rightarrow> abort + int \<times> string \<times> rng" where
  "dbg_text t b tgt mn mx sd s = (let (len, s) = dss_random mn mx sd s in text_loop t sd len 0 0 tgt b s)"

end
