(* ===== verification/Text_Lang.thy ===== *)
theory Text_Lang
  imports Ssb_Env Text_Gen
begin

text \<open>
  The language of the pseudo text: which phrases and sentences the grammar has, how long they can be, and that
  \<open>txt_vp\<close>, \<open>txt_np\<close>, \<open>txt_sentence\<close> and \<open>dbg_text\<close> write texts of this language inside their buffers.
\<close>

subsection \<open>Writing\<close>

text \<open>\<open>b'\<close> is \<open>b\<close> with \<open>w\<close> written from index \<open>p\<close> on; what stands behind is left open.\<close>

definition wrote :: "string \<Rightarrow> nat \<Rightarrow> string \<Rightarrow> string \<Rightarrow> bool" where
  "wrote b p w b' \<longleftrightarrow> length b' = length b \<and> p + length w \<le> length b \<and> take (p + length w) b' = take p b @ w"

lemma wrote_put: "p + length t \<le> length b \<Longrightarrow> \<exists>b'. buf_put p t b = Some b' \<and> wrote b p t b'"
  by (simp add: buf_put_def wrote_def)

lemma wrote_Nil: "p \<le> length b \<Longrightarrow> wrote b p [] b"
  by (simp add: wrote_def)

lemma wrote_prefix:
  assumes "wrote b p (v @ w) b'"
  shows "wrote b p v b'"
proof -
  have "take (p + length v) b' = take (p + length v) (take (p + (length v + length w)) b')" by simp
  also have "\<dots> = take p b @ v" using assms by (simp add: wrote_def)
  finally show ?thesis using assms by (simp add: wrote_def)
qed

lemma wrote_trans:
  assumes "wrote b p v b1" "wrote b1 (p + length v) w b2"
  shows "wrote b p (v @ w) b2"
  using assms by (simp add: wrote_def add.assoc)

lemma wrote_length: "wrote b p w b' \<Longrightarrow> length b' = length b"
  by (simp add: wrote_def)

lemma wrote_string: "wrote b 0 (w @ [NUL]) b' \<Longrightarrow> NUL \<notin> set w \<Longrightarrow> c_string b' = Some w"
proof -
  assume a: "wrote b 0 (w @ [NUL]) b'" "NUL \<notin> set w"
  have "take (length w + 1) b' = w @ [NUL]" using a(1) by (simp add: wrote_def)
  then have "(w @ [NUL]) @ drop (length w + 1) b' = b'" using append_take_drop_id [of "length w + 1" b'] by simp
  then obtain r where "b' = w @ NUL # r" by (metis append_assoc append_Cons append_Nil)
  moreover have "takeWhile (\<lambda>c. c \<noteq> NUL) (w @ NUL # r) = w" using a(2) by (induction w) auto
  ultimately show ?thesis by (simp add: c_string_def)
qed

subsection \<open>The language\<close>

text \<open>The words of a form.\<close>

function tokens :: "string \<Rightarrow> string list" where
  "tokens cs = (case strtok_blank cs of None \<Rightarrow> [] | Some (w, r) \<Rightarrow> w # tokens r)"
  by pat_completeness auto

termination tokens
  by (relation "measure length") (auto dest: strtok_blank_shrinks)

declare tokens.simps [simp del]

text \<open>A phrase: for each letter a word of its class, its punctuation and a blank.\<close>

fun phrases :: "(char \<Rightarrow> distribution option) \<Rightarrow> string list \<Rightarrow> string set" where
  "phrases src [] = {[]}"
| "phrases src (tok # toks) =
     {w @ take 1 (tl tok) @ '' '' @ r | w r. w \<in> words (the (src (hd tok))) \<and> r \<in> phrases src toks}"

definition verb_phrases :: "tdists \<Rightarrow> string set" where
  "verb_phrases t = (\<Union>form \<in> words (vp t). phrases (vp_source t) (tokens form))"

definition noun_phrases :: "tdists \<Rightarrow> string set" where
  "noun_phrases t = (\<Union>form \<in> words (np t). phrases (np_source t) (tokens form))"

definition parts :: "tdists \<Rightarrow> string \<Rightarrow> string set" where
  "parts t tok =
     (if tok = ''V'' then verb_phrases t
      else if tok = ''N'' then noun_phrases t
      else if tok = ''P'' then {w @ '' the '' @ r | w r. w \<in> words (prepositions t) \<and> r \<in> noun_phrases t}
      else {})"

text \<open>A sentence: the parts of a form, the last blank replaced by a terminator.\<close>

definition sentences :: "tdists \<Rightarrow> string set" where
  "sentences t = {butlast (concat us) @ w | us w. \<exists>form \<in> words (grammar t).
     list_all2 (\<lambda>tok u. u \<in> parts t tok) (butlast (tokens form)) us \<and> w \<in> words (terminators t)}"

subsection \<open>Lengths\<close>

definition longest :: "distribution \<Rightarrow> nat" where
  "longest d = foldr (\<lambda>m k. max (length (sm_text m)) k) (dlist d) 0"

lemma longest: "w \<in> words d \<Longrightarrow> length w \<le> longest d"
proof -
  have "m \<in> set ms \<Longrightarrow> length (sm_text m) \<le> foldr (\<lambda>m k. max (length (sm_text m)) k) ms 0" for m ms
    by (induction ms) auto
  then show "w \<in> words d \<Longrightarrow> length w \<le> longest d" by (auto simp: words_def longest_def)
qed

definition phrase_bound :: "(char \<Rightarrow> distribution option) \<Rightarrow> string list \<Rightarrow> nat" where
  "phrase_bound src toks = sum_list (map (\<lambda>tok. longest (the (src (hd tok))) + length tok) toks)"

definition form_bound :: "(char \<Rightarrow> distribution option) \<Rightarrow> distribution \<Rightarrow> nat" where
  "form_bound src d = foldr (\<lambda>m k. max (phrase_bound src (tokens (sm_text m))) k) (dlist d) 0"

lemma form_bound: "form \<in> words d \<Longrightarrow> phrase_bound src (tokens form) \<le> form_bound src d"
proof -
  have "m \<in> set ms \<Longrightarrow> phrase_bound src (tokens (sm_text m)) \<le> foldr (\<lambda>m k. max (phrase_bound src (tokens (sm_text m))) k) ms 0" for m ms
    by (induction ms) auto
  then show "form \<in> words d \<Longrightarrow> ?thesis" by (auto simp: words_def form_bound_def)
qed

definition part_bound :: "tdists \<Rightarrow> string \<Rightarrow> nat" where
  "part_bound t tok =
     (if tok = ''V'' then form_bound (vp_source t) (vp t)
      else if tok = ''N'' then form_bound (np_source t) (np t)
      else longest (prepositions t) + 6 + form_bound (np_source t) (np t))"

subsection \<open>What the distributions must satisfy\<close>

text \<open>Every list can be chosen from and its words have no zero character; the forms name word classes, those of sentences are
  letters with a terminator at the end; punctuation stands in noun phrases only; sentences fit into the buffer.\<close>

definition word_list :: "distribution \<Rightarrow> bool" where
  "word_list d \<longleftrightarrow> dist_ok d \<and> list_all (\<lambda>m. NUL \<notin> set (sm_text m)) (dlist d)"

definition vp_form :: "tdists \<Rightarrow> string \<Rightarrow> bool" where
  "vp_form t form \<longleftrightarrow> length form \<le> MAX_GRAMMAR_LEN \<and> list_all (\<lambda>tok. length tok = 1 \<and> hd tok \<in> set ''DVX'') (tokens form)"

definition np_form :: "tdists \<Rightarrow> string \<Rightarrow> bool" where
  "np_form t form \<longleftrightarrow> length form \<le> MAX_GRAMMAR_LEN \<and>
     list_all (\<lambda>tok. hd tok \<in> set ''AJDN'' \<and> NUL \<notin> set tok) (tokens form)"

definition sent_form :: "tdists \<Rightarrow> string \<Rightarrow> bool" where
  "sent_form t form \<longleftrightarrow> length form \<le> MAX_GRAMMAR_LEN \<and> tokens form \<noteq> [] \<and> last (tokens form) = ''T'' \<and> butlast (tokens form) \<noteq> [] \<and>
     list_all (\<lambda>tok. tok \<in> {''V'', ''N'', ''P''}) (butlast (tokens form)) \<and>
     sum_list (map (part_bound t) (butlast (tokens form))) + longest (terminators t) \<le> MAX_SENT_LEN"

definition text_ok :: "tdists \<Rightarrow> bool" where
  "text_ok t \<longleftrightarrow> list_all word_list [articles t, nouns t, adjectives t, adverbs t, prepositions t, verbs t, terminators t,
       auxillaries t, np t, vp t, grammar t] \<and>
     list_all (\<lambda>m. vp_form t (sm_text m) \<and> tokens (sm_text m) \<noteq> []) (dlist (vp t)) \<and>
     list_all (\<lambda>m. np_form t (sm_text m) \<and> tokens (sm_text m) \<noteq> []) (dlist (np t)) \<and>
     list_all (\<lambda>m. sent_form t (sm_text m)) (dlist (grammar t))"

subsection \<open>Words and forms\<close>

lemma pick_into_wrote:
  assumes "rng_ok s" "dist_ok d" "0 \<le> sd" "sd \<le> 47" "dest + longest d + 1 \<le> length b"
  obtains w b' s' where "pick_into (Some d) sd dest b s = Some (length w, b', s')" "w \<in> words d" "wrote b dest w b'" "rng_ok s'"
proof -
  obtain i s' where i: "pick_str d sd s = Some (i, sm_text (dlist d ! i), s')" "i < length (dlist d)"
    "moves (one_at (nat sd)) (one_at (nat sd)) s s'" by (rule pick_str_props [OF assms(1-4)])
  let ?w = "sm_text (dlist d ! i)"
  have w: "?w \<in> words d" using i(2) by (simp add: words_def)
  then obtain b' where "buf_put dest (?w @ [NUL]) b = Some b'" "wrote b dest (?w @ [NUL]) b'"
    using wrote_put [of dest "?w @ [NUL]" b] longest [OF w] assms(5) by auto
  then show thesis using that [of ?w b' s'] w i wrote_prefix moves_ok [OF i(3) assms(1)] by (simp add: pick_into_def)
qed

lemma pick_form_some:
  assumes "rng_ok s" "dist_ok d" "0 \<le> sd" "sd \<le> 47" "\<And>f. f \<in> words d \<Longrightarrow> length f \<le> MAX_GRAMMAR_LEN"
  obtains f s' where "pick_form d sd s = Some (f, s')" "f \<in> words d" "rng_ok s'"
proof -
  obtain i s' where i: "pick_str d sd s = Some (i, sm_text (dlist d ! i), s')" "i < length (dlist d)"
    "moves (one_at (nat sd)) (one_at (nat sd)) s s'" by (rule pick_str_props [OF assms(1-4)])
  have "sm_text (dlist d ! i) \<in> words d" using i(2) by (simp add: words_def)
  then show thesis using that i moves_ok [OF i(3) assms(1)] assms(5) by (simp add: pick_form_def)
qed

lemma strtok_blank_word:
  assumes "strtok_blank cs = Some (w, r)"
  shows "w \<noteq> [] \<and> blank \<notin> set w"
proof -
  obtain c cs' where c: "dropWhile (\<lambda>c. c = blank) cs = c # cs'" using assms by (auto simp: strtok_blank_def split: list.splits)
  then have "c \<noteq> blank" using hd_dropWhile [of "\<lambda>c. c = blank" cs] by auto
  then show ?thesis using assms c by (auto simp: strtok_blank_def dest: set_takeWhileD)
qed

lemma tokens_step: "strtok_blank cs = Some (w, r) \<Longrightarrow> tokens cs = w # tokens r" "strtok_blank cs = None \<Longrightarrow> tokens cs = []"
  by (subst tokens.simps, simp)+

lemma vp_word: "text_ok t \<Longrightarrow> c \<in> set ''DVX'' \<Longrightarrow> \<exists>d. vp_source t c = Some d \<and> word_list d"
  by (auto simp: text_ok_def vp_source_def)

lemma np_word: "text_ok t \<Longrightarrow> c \<in> set ''AJDN'' \<Longrightarrow> \<exists>d. np_source t c = Some d \<and> word_list d"
  by (auto simp: text_ok_def np_source_def)

lemma phrases_ConsI: "w \<in> words d \<Longrightarrow> src (hd tok) = Some d \<Longrightarrow> r \<in> phrases src toks \<Longrightarrow>
    w @ take 1 (tl tok) @ '' '' @ r \<in> phrases src (tok # toks)"
  by force

lemma phrases_length: "x \<in> phrases src toks \<Longrightarrow> list_all (\<lambda>tok. tok \<noteq> []) toks \<Longrightarrow> length x \<le> phrase_bound src toks"
proof (induction toks arbitrary: x)
  case (Cons tok toks)
  then obtain w r where x: "x = w @ take 1 (tl tok) @ '' '' @ r" "w \<in> words (the (src (hd tok)))" "r \<in> phrases src toks" by auto
  have "length (take 1 (tl tok)) + 1 \<le> length tok" using Cons.prems(2) by (cases tok) auto
  then show ?case using x(1) longest [OF x(2)] Cons.IH [OF x(3)] Cons.prems(2) by (simp add: phrase_bound_def)
qed (simp add: phrase_bound_def)

text \<open>A phrase is written word by word.\<close>

lemma np_loop_writes:
  assumes t: "text_ok t" and sd: "0 \<le> sd" "sd \<le> 47"
  shows "rng_ok s \<Longrightarrow> list_all (\<lambda>tok. hd tok \<in> set ''AJDN'') (tokens syn) \<Longrightarrow>
    dest + phrase_bound (np_source t) (tokens syn) \<le> length b \<Longrightarrow>
    \<exists>w b' s'. np_loop t sd syn dest res b s = Some (res + length w, b', s') \<and> w \<in> phrases (np_source t) (tokens syn) \<and>
      wrote b dest w b' \<and> rng_ok s'"
proof (induction syn arbitrary: dest res b s rule: tokens.induct)
  case (1 syn)
  show ?case
  proof (cases "strtok_blank syn")
    case None
    then show ?thesis using 1(2,4) wrote_Nil [of dest b] by (subst np_loop.simps) (simp add: tokens_step(2))
  next
    case (Some p)
    then obtain tok rest where p: "strtok_blank syn = Some (tok, rest)" by (cases p) simp
    note tk = tokens_step(1) [OF p]
    obtain d where d: "np_source t (hd tok) = Some d" "dist_ok d"
      using np_word [OF t, of "hd tok"] 1(3) tk by (auto simp: word_list_def)
    have bound: "dest + longest d + length tok + phrase_bound (np_source t) (tokens rest) \<le> length b"
      using 1(4) tk d by (simp add: phrase_bound_def)
    have tok: "tok \<noteq> []" using strtok_blank_word [OF p] by simp
    obtain w b1 s1 where w: "pick_into (Some d) sd dest b s = Some (length w, b1, s1)" "w \<in> words d" "wrote b dest w b1" "rng_ok s1"
      by (rule pick_into_wrote [OF 1(2) d(2) sd, of dest b]) (use bound tok in \<open>cases tok; simp\<close>)
    let ?q = "take 1 (tl tok)"
    have room: "dest + length w + length ?q + 1 + phrase_bound (np_source t) (tokens rest) \<le> length b"
      using bound longest [OF w(2)] tok by (cases tok) auto
    have "\<exists>b2. (case tl tok of [] \<Rightarrow> Some (length w, b1) | c # _ \<Rightarrow> map_option (Pair (length w + 1)) (buf_put (dest + length w) [c] b1)) =
        Some (length w + length ?q, b2) \<and> wrote b dest (w @ ?q) b2"
      using wrote_put [of "dest + length w" ?q b1] wrote_trans [OF w(3)] wrote_length [OF w(3)] room w(3)
      by (cases "tl tok") auto
    then obtain b2 where b2: "(case tl tok of [] \<Rightarrow> Some (length w, b1) | c # _ \<Rightarrow> map_option (Pair (length w + 1)) (buf_put (dest + length w) [c] b1)) =
        Some (length w + length ?q, b2)" "wrote b dest (w @ ?q) b2" by blast
    obtain b3 where b3: "buf_put (dest + (length w + length ?q)) [blank] b2 = Some b3" "wrote b dest (w @ ?q @ '' '') b3"
      using wrote_put [of "dest + (length w + length ?q)" "[blank]" b2] wrote_trans [OF b2(2), of "[blank]"] wrote_length [OF b2(2)] room
      by (auto simp: add.assoc)
    obtain r b' s' where r: "np_loop t sd rest (dest + (length w + length ?q) + 1) (res + (length w + length ?q) + 1) b3 s1 =
        Some (res + (length w + length ?q) + 1 + length r, b', s')" "r \<in> phrases (np_source t) (tokens rest)"
      "wrote b3 (dest + (length w + length ?q) + 1) r b'" "rng_ok s'"
      using 1(1) [OF p refl w(4), of "dest + (length w + length ?q) + 1" b3 "res + (length w + length ?q) + 1"] 1(3) tk room
        wrote_length [OF b3(2)] by auto
    have "np_loop t sd syn dest res b s = Some (res + length (w @ ?q @ '' '' @ r), b', s')"
      by (subst np_loop.simps) (use p d w(1) b2(1) b3(1) r(1) in \<open>simp add: add.assoc\<close>)
    moreover have "wrote b dest (w @ ?q @ '' '' @ r) b'"
      using wrote_trans [OF b3(2), of r b'] r(3) by (simp add: add.assoc)
    ultimately show ?thesis using phrases_ConsI [OF w(2) d(1) r(2)] r(4) tk by metis
  qed
qed

lemma vp_loop_writes:
  assumes t: "text_ok t" and sd: "0 \<le> sd" "sd \<le> 47"
  shows "rng_ok s \<Longrightarrow> list_all (\<lambda>tok. length tok = 1 \<and> hd tok \<in> set ''DVX'') (tokens syn) \<Longrightarrow>
    dest + phrase_bound (vp_source t) (tokens syn) \<le> length b \<Longrightarrow>
    \<exists>w b' s'. vp_loop t sd syn dest res b s = Some (res + length w, b', s') \<and> w \<in> phrases (vp_source t) (tokens syn) \<and>
      wrote b dest w b' \<and> rng_ok s'"
proof (induction syn arbitrary: dest res b s rule: tokens.induct)
  case (1 syn)
  show ?case
  proof (cases "strtok_blank syn")
    case None
    then show ?thesis using 1(2,4) wrote_Nil [of dest b] by (subst vp_loop.simps) (simp add: tokens_step(2))
  next
    case (Some p)
    then obtain tok rest where p: "strtok_blank syn = Some (tok, rest)" by (cases p) simp
    note tk = tokens_step(1) [OF p]
    obtain d where d: "vp_source t (hd tok) = Some d" "dist_ok d"
      using vp_word [OF t, of "hd tok"] 1(3) tk by (auto simp: word_list_def)
    have tok: "length tok = 1" "tl tok = []" using 1(3) tk by (cases tok; simp)+
    have bound: "dest + longest d + 1 + phrase_bound (vp_source t) (tokens rest) \<le> length b"
      using 1(4) tk d tok by (simp add: phrase_bound_def)
    obtain w b1 s1 where w: "pick_into (Some d) sd dest b s = Some (length w, b1, s1)" "w \<in> words d" "wrote b dest w b1" "rng_ok s1"
      by (rule pick_into_wrote [OF 1(2) d(2) sd, of dest b]) (use bound in simp)
    have room: "dest + length w + 1 + phrase_bound (vp_source t) (tokens rest) \<le> length b"
      using bound longest [OF w(2)] by simp
    obtain b3 where b3: "buf_put (dest + length w) [blank] b1 = Some b3" "wrote b dest (w @ '' '') b3"
      using wrote_put [of "dest + length w" "[blank]" b1] wrote_trans [OF w(3), of "[blank]"] wrote_length [OF w(3)] room by auto
    obtain r b' s' where r: "vp_loop t sd rest (dest + length w + 1) (res + length w + 1) b3 s1 =
        Some (res + length w + 1 + length r, b', s')" "r \<in> phrases (vp_source t) (tokens rest)"
      "wrote b3 (dest + length w + 1) r b'" "rng_ok s'"
      using 1(1) [OF p refl w(4), of "dest + length w + 1" b3 "res + length w + 1"] 1(3) tk room wrote_length [OF b3(2)] by auto
    have "vp_loop t sd syn dest res b s = Some (res + length (w @ '' '' @ r), b', s')"
      by (subst vp_loop.simps) (use p d tok w(1) b3(1) r(1) in \<open>simp add: add.assoc\<close>)
    moreover have "wrote b dest (w @ '' '' @ r) b'" using wrote_trans [OF b3(2), of r b'] r(3) by (simp add: add.assoc)
    moreover have "w @ '' '' @ r \<in> phrases (vp_source t) (tokens syn)"
      using phrases_ConsI [OF w(2) d(1) r(2)] tok tk by simp
    ultimately show ?thesis using r(4) by blast
  qed
qed

subsection \<open>Parts of a sentence\<close>

lemma tokens_words: "tok \<in> set (tokens cs) \<Longrightarrow> tok \<noteq> [] \<and> blank \<notin> set tok"
proof (induction cs rule: tokens.induct)
  case (1 cs)
  show ?case
  proof (cases "strtok_blank cs")
    case (Some p)
    then obtain w r where p: "strtok_blank cs = Some (w, r)" by (cases p) simp
    then show ?thesis using 1(1) [OF p refl] 1(2) strtok_blank_word [OF p] tokens_step(1) [OF p] by auto
  qed (use 1 in \<open>simp add: tokens_step(2)\<close>)
qed

lemma txt_np_writes:
  assumes t: "text_ok t" and sd: "0 \<le> sd" "sd \<le> 47" and s: "rng_ok s" and b: "dest + form_bound (np_source t) (np t) \<le> length b"
  obtains w b' s' where "txt_np t sd dest b s = Some (length w, b', s')" "w \<in> noun_phrases t" "wrote b dest w b'" "rng_ok s'"
proof -
  have f: "np_form t f" if "f \<in> words (np t)" for f using t that by (auto simp: text_ok_def words_def list_all_iff)
  obtain f s1 where 1: "pick_form (np t) sd s = Some (f, s1)" "f \<in> words (np t)" "rng_ok s1"
    by (rule pick_form_some [OF s _ sd, of "np t"]) (use t f in \<open>auto simp: text_ok_def word_list_def np_form_def\<close>)
  have "dest + phrase_bound (np_source t) (tokens f) \<le> length b" using form_bound [OF 1(2), of "np_source t"] b by simp
  moreover have "list_all (\<lambda>tok. hd tok \<in> set ''AJDN'') (tokens f)" using f [OF 1(2)] by (auto simp: np_form_def list_all_iff)
  ultimately obtain w b' s' where "np_loop t sd f dest 0 b s1 = Some (0 + length w, b', s')" "w \<in> phrases (np_source t) (tokens f)"
    "wrote b dest w b'" "rng_ok s'"
    using np_loop_writes [OF t sd 1(3), where syn = f and dest = dest and b = b and res = 0] by blast
  then show thesis using that [of w b' s'] 1 by (auto simp: txt_np_def noun_phrases_def)
qed

lemma txt_vp_writes:
  assumes t: "text_ok t" and sd: "0 \<le> sd" "sd \<le> 47" and s: "rng_ok s" and b: "dest + form_bound (vp_source t) (vp t) \<le> length b"
  obtains w b' s' where "txt_vp t sd dest b s = Some (length w, b', s')" "w \<in> verb_phrases t" "wrote b dest w b'" "rng_ok s'"
proof -
  have f: "vp_form t f" if "f \<in> words (vp t)" for f using t that by (auto simp: text_ok_def words_def list_all_iff)
  obtain f s1 where 1: "pick_form (vp t) sd s = Some (f, s1)" "f \<in> words (vp t)" "rng_ok s1"
    by (rule pick_form_some [OF s _ sd, of "vp t"]) (use t f in \<open>auto simp: text_ok_def word_list_def vp_form_def\<close>)
  have "dest + phrase_bound (vp_source t) (tokens f) \<le> length b" using form_bound [OF 1(2), of "vp_source t"] b by simp
  moreover have "list_all (\<lambda>tok. length tok = 1 \<and> hd tok \<in> set ''DVX'') (tokens f)" using f [OF 1(2)] by (auto simp: vp_form_def list_all_iff)
  ultimately obtain w b' s' where "vp_loop t sd f dest 0 b s1 = Some (0 + length w, b', s')" "w \<in> phrases (vp_source t) (tokens f)"
    "wrote b dest w b'" "rng_ok s'"
    using vp_loop_writes [OF t sd 1(3), where syn = f and dest = dest and b = b and res = 0] by blast
  then show thesis using that [of w b' s'] 1 by (auto simp: txt_vp_def verb_phrases_def)
qed

lemma sent_part_writes:
  assumes t: "text_ok t" and sd: "0 \<le> sd" "sd \<le> 47" and s: "rng_ok s" and b: "dest + part_bound t [c] \<le> length b"
    and c: "[c] \<in> {''V'', ''N'', ''P''}"
  obtains w b' s' where "sent_part t sd c dest len b s = Some (dest, length w, b', s')" "w \<in> parts t [c]" "wrote b dest w b'" "rng_ok s'"
proof -
  consider "c = CHR ''V''" | "c = CHR ''N''" | "c = CHR ''P''" using c by auto
  then show thesis
  proof cases
    case 1
    then obtain w b' s' where "txt_vp t sd dest b s = Some (length w, b', s')" "w \<in> verb_phrases t" "wrote b dest w b'" "rng_ok s'"
      using b txt_vp_writes [OF t sd s, of dest b] by (auto simp: part_bound_def)
    then show thesis using that 1 by (simp add: sent_part_def parts_def)
  next
    case 2
    then obtain w b' s' where "txt_np t sd dest b s = Some (length w, b', s')" "w \<in> noun_phrases t" "wrote b dest w b'" "rng_ok s'"
      using b txt_np_writes [OF t sd s, of dest b] by (auto simp: part_bound_def)
    then show thesis using that 2 by (simp add: sent_part_def parts_def)
  next
    case 3
    have p: "dist_ok (prepositions t)" using t by (simp add: text_ok_def word_list_def)
    have room: "dest + longest (prepositions t) + 6 + form_bound (np_source t) (np t) \<le> length b" using b 3 by (simp add: part_bound_def)
    obtain w b1 s1 where w: "pick_into (Some (prepositions t)) sd dest b s = Some (length w, b1, s1)" "w \<in> words (prepositions t)"
      "wrote b dest w b1" "rng_ok s1"
      by (rule pick_into_wrote [OF s p sd, of dest b]) (use room in simp)
    have l: "length w \<le> longest (prepositions t)" by (rule longest [OF w(2)])
    obtain b2 where b2: "buf_put (dest + length w) ('' the '' @ [NUL]) b1 = Some b2" "wrote b dest (w @ '' the '' @ [NUL]) b2"
      using wrote_put [of "dest + length w" "'' the '' @ [NUL]" b1] wrote_trans [OF w(3), of "'' the '' @ [NUL]"] wrote_length [OF w(3)] room l
      by auto
    have b2': "wrote b dest (w @ '' the '') b2" using wrote_prefix [of b dest "w @ '' the ''" "[NUL]" b2] b2(2) by simp
    obtain r b' s' where r: "txt_np t sd (dest + (length w + 5)) b2 s1 = Some (length r, b', s')" "r \<in> noun_phrases t"
      "wrote b2 (dest + (length w + 5)) r b'" "rng_ok s'"
      by (rule txt_np_writes [OF t sd w(4), of "dest + (length w + 5)" b2]) (use room l wrote_length [OF b2'] in simp)
    have len: "dest + length (w @ '' the '') = dest + (length w + 5)" by simp
    have "wrote b dest ((w @ '' the '') @ r) b'" by (rule wrote_trans [OF b2']) (simp only: len r(3))
    then have "wrote b dest (w @ '' the '' @ r) b'" by simp
    moreover have "w @ '' the '' @ r \<in> parts t [c]" using w(2) r(2) 3 by (auto simp: parts_def)
    moreover have "sent_part t sd c dest len b s = Some (dest, length (w @ '' the '' @ r), b', s')"
      using w(1) b2(1) r(1) 3 by (simp add: sent_part_def add.commute)
    ultimately show thesis using that r(4) by blast
  qed
qed

subsection \<open>Sentences\<close>

lemma strtok_blank_Cons [simp]: "strtok_blank (blank # cs) = strtok_blank cs"
  by (simp add: strtok_blank_def)

lemma tokens_blank [simp]: "tokens (blank # cs) = tokens cs"
  by (subst (1 2) tokens.simps) simp

lemma letter_step:
  assumes "tokens syn = [c] # toks"
  obtains rest where "dropWhile (\<lambda>c. c = blank) syn = c # rest" "rest = [] \<or> hd rest = blank" "tokens rest = toks"
proof -
  obtain r where p: "strtok_blank syn = Some ([c], r)" "tokens r = toks"
    using assms by (subst (asm) tokens.simps) (auto split: option.splits)
  then obtain c' cs where cs: "dropWhile (\<lambda>c. c = blank) syn = c' # cs" by (auto simp: strtok_blank_def split: list.splits)
  then have tw: "takeWhile (\<lambda>c. c \<noteq> blank) (c' # cs) = [c]" "r = tl (dropWhile (\<lambda>c. c \<noteq> blank) (c' # cs))"
    using p(1) by (simp_all add: strtok_blank_def)
  then have c: "c' = c" "c \<noteq> blank" "takeWhile (\<lambda>c. c \<noteq> blank) cs = []" by (auto split: if_splits)
  then have h: "cs = [] \<or> hd cs = blank" by (cases cs) (auto split: if_splits)
  have "tokens cs = toks"
  proof (cases cs)
    case (Cons a cs')
    then show ?thesis using h tw(2) c p(2) by simp
  qed (use tw c p(2) in simp)
  then show thesis using that cs c(1) h by simp
qed

lemma phrases_nonempty: "w \<in> phrases src toks \<Longrightarrow> toks \<noteq> [] \<Longrightarrow> w \<noteq> []"
  by (cases toks) auto

lemma parts_nonempty:
  assumes "text_ok t" "u \<in> parts t tok"
  shows "u \<noteq> []"
proof -
  have "tokens f \<noteq> []" if "f \<in> words (vp t) \<or> f \<in> words (np t)" for f
    using assms(1) that by (auto simp: text_ok_def words_def list_all_iff)
  then show ?thesis using assms(2) by (auto simp: parts_def verb_phrases_def noun_phrases_def dest: phrases_nonempty split: if_splits)
qed

lemma parts_length:
  assumes "text_ok t" "u \<in> parts t tok" "tok \<in> {''V'', ''N'', ''P''}"
  shows "length u \<le> part_bound t tok"
proof -
  have ne: "list_all (\<lambda>tok. tok \<noteq> []) (tokens f)" for f using tokens_words by (auto simp: list_all_iff)
  have v: "length u \<le> form_bound (vp_source t) (vp t)" if u: "u \<in> verb_phrases t" for u
  proof -
    obtain f where f: "f \<in> words (vp t)" "u \<in> phrases (vp_source t) (tokens f)" using u by (auto simp: verb_phrases_def)
    show ?thesis by (rule le_trans [OF phrases_length [OF f(2) ne] form_bound [OF f(1)]])
  qed
  have n: "length u \<le> form_bound (np_source t) (np t)" if u: "u \<in> noun_phrases t" for u
  proof -
    obtain f where f: "f \<in> words (np t)" "u \<in> phrases (np_source t) (tokens f)" using u by (auto simp: noun_phrases_def)
    show ?thesis by (rule le_trans [OF phrases_length [OF f(2) ne] form_bound [OF f(1)]])
  qed
  have "length w + (5 + length r) \<le> longest (prepositions t) + 6 + form_bound (np_source t) (np t)"
    if "w \<in> words (prepositions t)" "r \<in> noun_phrases t" for w r
    using longest [OF that(1)] n [OF that(2)] by simp
  then show ?thesis using assms(2,3) v n by (auto simp: parts_def part_bound_def)
qed

lemma terminator_writes:
  assumes t: "text_ok t" and sd: "0 \<le> sd" "sd \<le> 47" and s: "rng_ok s" and v: "wrote b0 0 v b" "v \<noteq> []"
    and b: "length v + longest (terminators t) \<le> length b0" and syn: "tokens syn = [''T'']"
  obtains w b' s' where "sent_loop t sd syn (length v) (length v) len b s = Some (int (length (butlast v @ w)), b', s')"
    "w \<in> words (terminators t)" "wrote b0 0 (butlast v @ w @ [NUL]) b'" "rng_ok s'"
proof -
  obtain rest where rest: "dropWhile (\<lambda>c. c = blank) syn = CHR ''T'' # rest" "rest = [] \<or> hd rest = blank" "tokens rest = []"
    by (rule letter_step [OF syn])
  have done0: "dropWhile (\<lambda>c. c = blank) rest = []" using rest(3)
    by (subst (asm) tokens.simps) (auto simp: strtok_blank_def split: list.splits option.splits)
  have d: "dist_ok (terminators t)" using t by (simp add: text_ok_def word_list_def)
  have lb: "length b = length b0" by (rule wrote_length [OF v(1)])
  obtain w b1 s1 where w: "pick_into (Some (terminators t)) sd (length v - 1) b s = Some (length w, b1, s1)" "w \<in> words (terminators t)"
    "wrote b (length v - 1) w b1" "rng_ok s1"
    by (rule pick_into_wrote [OF s d sd, of "length v - 1" b]) (use b lb v(2) in \<open>cases v; simp\<close>)
  have "wrote b0 0 (butlast v) b" using wrote_prefix [of b0 0 "butlast v" "[last v]" b] v by simp
  then have w1: "wrote b0 0 (butlast v @ w) b1" using w(3) wrote_trans by fastforce
  have room: "length v - 1 + length w + 1 \<le> length b0" using b longest [OF w(2)] v(2) by (cases v) auto
  obtain b2 where b2: "buf_put (length v - 1 + length w) [NUL] b1 = Some b2" "wrote b0 0 ((butlast v @ w) @ [NUL]) b2"
    using wrote_put [of "length v - 1 + length w" "[NUL]" b1] wrote_trans [OF w1, of "[NUL]"] wrote_length [OF w1] room by auto
  have "sent_punct rest (length v - 1 + length w) (length v + length w) b1 = Some (length v - 1 + length w, length v + length w, b1)"
    using rest(2) by (auto simp: sent_punct_def)
  moreover have "sent_loop t sd rest (length v - 1 + length w) (length v + length w) (length w) b1 s1 =
      Some (int (length v + length w) - 1, b2, s1)"
    by (subst sent_loop.simps) (simp add: done0 b2(1) [simplified])
  ultimately have "sent_loop t sd syn (length v) (length v) len b s = Some (int (length v + length w) - 1, b2, s1)"
    by (subst sent_loop.simps) (use rest(1) w(1) v(2) in \<open>simp add: sent_part_def\<close>)
  moreover have "int (length v + length w) - 1 = int (length (butlast v @ w))" using v(2) by (cases v) simp_all
  ultimately show thesis using that w(2,4) b2(2) by simp
qed

lemma sent_loop_writes:
  assumes t: "text_ok t" and sd: "0 \<le> sd" "sd \<le> 47"
  shows "rng_ok s \<Longrightarrow> tokens syn = body @ [''T''] \<Longrightarrow> list_all (\<lambda>tok. tok \<in> {''V'', ''N'', ''P''}) body \<Longrightarrow>
    wrote b0 0 v b \<Longrightarrow> body \<noteq> [] \<or> v \<noteq> [] \<Longrightarrow>
    length v + sum_list (map (part_bound t) body) + longest (terminators t) \<le> length b0 \<Longrightarrow>
    \<exists>us w b' s'. sent_loop t sd syn (length v) (length v) len b s = Some (int (length (butlast (v @ concat us) @ w)), b', s') \<and>
      list_all2 (\<lambda>tok u. u \<in> parts t tok) body us \<and> w \<in> words (terminators t) \<and>
      wrote b0 0 (butlast (v @ concat us) @ w @ [NUL]) b' \<and> rng_ok s'"
proof (induction body arbitrary: s syn v b len)
  case Nil
  obtain w b' s' where "sent_loop t sd syn (length v) (length v) len b s = Some (int (length (butlast v @ w)), b', s')"
    "w \<in> words (terminators t)" "wrote b0 0 (butlast v @ w @ [NUL]) b'" "rng_ok s'"
    by (rule terminator_writes [OF t sd, of s b0 v b syn len]) (use Nil in auto)
  moreover have "list_all2 (\<lambda>tok u. u \<in> parts t tok) [] []" by simp
  moreover have "butlast (v @ concat []) = butlast v" by simp
  ultimately show ?case by metis
next
  case (Cons tok body)
  obtain c where c: "tok = [c]" "[c] \<in> {''V'', ''N'', ''P''}" using Cons.prems(3) by auto
  obtain rest where rest: "dropWhile (\<lambda>c. c = blank) syn = c # rest" "rest = [] \<or> hd rest = blank" "tokens rest = body @ [''T'']"
    by (rule letter_step [of syn c "body @ [''T'']"]) (use Cons.prems(2) c in simp)
  have lb: "length b = length b0" by (rule wrote_length [OF Cons.prems(4)])
  obtain u b1 s1 where u: "sent_part t sd c (length v) len b s = Some (length v, length u, b1, s1)" "u \<in> parts t [c]"
    "wrote b (length v) u b1" "rng_ok s1"
    by (rule sent_part_writes [OF t sd Cons.prems(1) _ c(2)]) (use Cons.prems(6) c lb in auto)
  have v1: "wrote b0 0 (v @ u) b1" using wrote_trans [OF Cons.prems(4)] u(3) by simp
  have ne: "u \<noteq> []" by (rule parts_nonempty [OF t u(2)])
  have l: "length u \<le> part_bound t [c]" by (rule parts_length [OF t u(2) c(2)])
  obtain us w b' s' where us: "sent_loop t sd rest (length (v @ u)) (length (v @ u)) (length u) b1 s1 =
      Some (int (length (butlast ((v @ u) @ concat us) @ w)), b', s')"
    "list_all2 (\<lambda>tok u. u \<in> parts t tok) body us" "w \<in> words (terminators t)"
    "wrote b0 0 (butlast ((v @ u) @ concat us) @ w @ [NUL]) b'" "rng_ok s'"
    using Cons.IH [OF u(4) rest(3) _ v1, of "length u"] Cons.prems(3,6) ne l c(1) by auto
  have "sent_loop t sd syn (length v) (length v) len b s = Some (int (length (butlast (v @ concat (u # us)) @ w)), b', s')"
    by (subst sent_loop.simps) (use rest(1,2) u(1) us(1) in \<open>auto simp: sent_punct_def\<close>)
  moreover have "list_all2 (\<lambda>tok u. u \<in> parts t tok) (tok # body) (u # us)" using us(2) u(2) c(1) by simp
  moreover have "wrote b0 0 (butlast (v @ concat (u # us)) @ w @ [NUL]) b'" using us(4) by simp
  ultimately show ?case using us(3,5) by blast
qed

text \<open>The characters a text is made of.\<close>

definition word_classes :: "tdists \<Rightarrow> distribution list" where
  "word_classes t = [articles t, nouns t, adjectives t, adverbs t, prepositions t, verbs t, terminators t, auxillaries t, np t, vp t, grammar t]"

definition letters :: "tdists \<Rightarrow> char set" where
  "letters t = (\<Union>d \<in> set (word_classes t). \<Union>w \<in> words d. set w) \<union> set '' the ''"

lemma letters_word: "w \<in> words d \<Longrightarrow> d \<in> set (word_classes t) \<Longrightarrow> set w \<subseteq> letters t"
  by (auto simp: letters_def)

lemma letters_nul_free: "text_ok t \<Longrightarrow> NUL \<notin> letters t"
  by (auto simp: text_ok_def word_list_def letters_def word_classes_def words_def list_all_iff)

lemma set_tl: "set (tl xs) \<subseteq> set xs"
  by (cases xs) auto

lemma strtok_blank_letters: "strtok_blank cs = Some (w, r) \<Longrightarrow> set w \<subseteq> set cs \<and> set r \<subseteq> set cs"
proof -
  assume a: "strtok_blank cs = Some (w, r)"
  let ?r = "dropWhile (\<lambda>c. c = blank) cs"
  have "w = takeWhile (\<lambda>c. c \<noteq> blank) ?r" "r = tl (dropWhile (\<lambda>c. c \<noteq> blank) ?r)"
    using a by (auto simp: strtok_blank_def split: list.splits)
  then have "set w \<subseteq> set ?r" "set r \<subseteq> set ?r"
    using set_tl [of "dropWhile (\<lambda>c. c \<noteq> blank) ?r"] by (auto dest: set_takeWhileD set_dropWhileD)
  then show ?thesis by (auto dest: set_dropWhileD)
qed

lemma tokens_letters: "tok \<in> set (tokens cs) \<Longrightarrow> set tok \<subseteq> set cs"
proof (induction cs rule: tokens.induct)
  case (1 cs)
  show ?case
  proof (cases "strtok_blank cs")
    case None
    then show ?thesis using 1(2) by (simp add: tokens_step)
  next
    case (Some p)
    obtain w r where p: "p = (w, r)" by force
    have sub: "set w \<subseteq> set cs" "set r \<subseteq> set cs" using strtok_blank_letters [of cs w r] Some p by simp_all
    from 1(2) Some p consider "tok = w" | "tok \<in> set (tokens r)" by (auto simp: tokens_step)
    then show ?thesis
    proof cases
      case 2
      have "set tok \<subseteq> set r" by (rule 1(1) [OF Some p [symmetric] 2])
      then show ?thesis using sub by blast
    qed (use sub in simp)
  qed
qed

lemma phrases_letters:
  "w \<in> phrases src toks \<Longrightarrow> (\<And>tok. tok \<in> set toks \<Longrightarrow> \<exists>d. src (hd tok) = Some d \<and> d \<in> set (word_classes t)) \<Longrightarrow>
   (\<And>tok. tok \<in> set toks \<Longrightarrow> set tok \<subseteq> letters t) \<Longrightarrow> set w \<subseteq> letters t"
proof (induction toks arbitrary: w)
  case (Cons tok toks)
  then obtain v r where w: "w = v @ take 1 (tl tok) @ '' '' @ r" "v \<in> words (the (src (hd tok)))" "r \<in> phrases src toks" by auto
  have "set r \<subseteq> letters t" using Cons.IH [OF w(3)] Cons.prems(2,3) by (meson list.set_intros(2))
  moreover have "set (take 1 (tl tok)) \<subseteq> letters t"
    using Cons.prems(3) [of tok] set_tl [of tok] by (auto dest!: in_set_takeD)
  moreover have "set v \<subseteq> letters t" using Cons.prems(2) [of tok] w(2) letters_word [of v _ t] by fastforce
  ultimately show ?case using w(1) by (simp add: letters_def)
qed simp

lemma form_letters: "f \<in> words d \<Longrightarrow> d \<in> set (word_classes t) \<Longrightarrow> tok \<in> set (tokens f) \<Longrightarrow> set tok \<subseteq> letters t"
  using tokens_letters [of tok f] letters_word [of f d t] by blast

lemma noun_phrases_letters:
  assumes "text_ok t" "w \<in> noun_phrases t"
  shows "set w \<subseteq> letters t"
proof -
  obtain f where f: "f \<in> words (np t)" "w \<in> phrases (np_source t) (tokens f)" using assms(2) by (auto simp: noun_phrases_def)
  have "np_form t f" using f(1) assms(1) by (auto simp: text_ok_def words_def list_all_iff)
  then have "hd tok \<in> set ''AJDN''" if "tok \<in> set (tokens f)" for tok
    using that by (auto simp: np_form_def list_all_iff)
  then show ?thesis
    by (intro phrases_letters [OF f(2)]) (fastforce simp: np_source_def word_classes_def, rule form_letters [OF f(1)], auto simp: word_classes_def)
qed

lemma verb_phrases_letters:
  assumes "text_ok t" "w \<in> verb_phrases t"
  shows "set w \<subseteq> letters t"
proof -
  obtain f where f: "f \<in> words (vp t)" "w \<in> phrases (vp_source t) (tokens f)" using assms(2) by (auto simp: verb_phrases_def)
  have "vp_form t f" using f(1) assms(1) by (auto simp: text_ok_def words_def list_all_iff)
  then have "hd tok \<in> set ''DVX''" if "tok \<in> set (tokens f)" for tok
    using that by (auto simp: vp_form_def list_all_iff)
  then show ?thesis
    by (intro phrases_letters [OF f(2)]) (fastforce simp: vp_source_def word_classes_def, rule form_letters [OF f(1)], auto simp: word_classes_def)
qed

lemma parts_letters:
  assumes "text_ok t" "u \<in> parts t tok"
  shows "set u \<subseteq> letters t"
proof -
  have "set w \<subseteq> letters t" if "w \<in> words (prepositions t)" for w
    using letters_word [OF that] by (simp add: word_classes_def)
  moreover have "set '' the '' \<subseteq> letters t" by (auto simp: letters_def)
  ultimately show ?thesis
    using assms noun_phrases_letters [of t] verb_phrases_letters [of t] by (fastforce simp: parts_def split: if_splits)
qed

lemma sentences_letters:
  assumes "text_ok t" "x \<in> sentences t"
  shows "set x \<subseteq> letters t"
proof -
  obtain us w toks where x: "x = butlast (concat us) @ w" "list_all2 (\<lambda>tok u. u \<in> parts t tok) toks us" "w \<in> words (terminators t)"
    using assms(2) by (auto simp: sentences_def)
  have "set (concat us) \<subseteq> letters t" using x(2) parts_letters [OF assms(1)] by (induction rule: list_all2_induct) auto
  moreover have "set w \<subseteq> letters t" by (rule letters_word [OF x(3)]) (simp add: word_classes_def)
  moreover have "set (butlast (concat us)) \<subseteq> set (concat us)" using in_set_butlastD by fast
  ultimately show ?thesis using x(1) by auto
qed

lemma sentences_nul_free: "text_ok t \<Longrightarrow> x \<in> sentences t \<Longrightarrow> NUL \<notin> set x"
  using sentences_letters [of t x] letters_nul_free [of t] by blast

lemma txt_sentence_writes:
  assumes t: "text_ok t" and sd: "0 \<le> sd" "sd \<le> 47" and s: "rng_ok s" and b: "length b = MAX_SENT_LEN + 1"
  obtains x b' s' where "txt_sentence t sd b s = Some (int (length x), b', s')" "x \<in> sentences t" "wrote b 0 (x @ [NUL]) b'" "rng_ok s'"
proof -
  have f: "sent_form t f" if "f \<in> words (grammar t)" for f using t that by (auto simp: text_ok_def words_def list_all_iff)
  obtain f s1 where 1: "pick_form (grammar t) sd s = Some (f, s1)" "f \<in> words (grammar t)" "rng_ok s1"
    by (rule pick_form_some [OF s _ sd, of "grammar t"]) (use t f in \<open>auto simp: text_ok_def word_list_def sent_form_def\<close>)
  let ?body = "butlast (tokens f)"
  have g: "tokens f = ?body @ [''T'']" "list_all (\<lambda>tok. tok \<in> {''V'', ''N'', ''P''}) ?body" "?body \<noteq> []"
    "sum_list (map (part_bound t) ?body) + longest (terminators t) \<le> MAX_SENT_LEN"
    using f [OF 1(2)] append_butlast_last_id [of "tokens f"] by (auto simp: sent_form_def)
  obtain us w b' s' where us: "sent_loop t sd f 0 0 0 b s1 = Some (int (length (butlast (concat us) @ w)), b', s')"
    "list_all2 (\<lambda>tok u. u \<in> parts t tok) ?body us" "w \<in> words (terminators t)" "wrote b 0 (butlast (concat us) @ w @ [NUL]) b'" "rng_ok s'"
    using sent_loop_writes [OF t sd 1(3) g(1,2) wrote_Nil [of 0 b], of 0] g(3,4) b by auto
  have "butlast (concat us) @ w \<in> sentences t" using us(2,3) 1(2) by (auto simp: sentences_def)
  then show thesis using that [of "butlast (concat us) @ w" b' s'] us(1,4,5) 1(1) by (simp add: txt_sentence_def)
qed

subsection \<open>Texts\<close>

definition running_text :: "string list \<Rightarrow> string" where
  "running_text ss = concat (map (\<lambda>x. x @ '' '') ss)"

lemma text_step_writes:
  assumes t: "text_ok t" and sd: "0 \<le> sd" "sd \<le> 47" and s: "rng_ok s" and b: "length b = MAX_SENT_LEN + 1"
    and u: "wrote tgt0 0 u tgt" and n: "0 < n" "length u + n < length tgt0"
  obtains x tgt' b' s' where "text_step t sd (int n) (length u) tgt b s = Inr (int (length (take n (x @ '' ''))), tgt', b', s')"
    "x \<in> sentences t" "wrote tgt0 0 (u @ take n (x @ '' '')) tgt'" "length b' = length b" "rng_ok s'"
proof -
  obtain x b1 s1 where x: "txt_sentence t sd b s = Some (int (length x), b1, s1)" "x \<in> sentences t" "wrote b 0 (x @ [NUL]) b1" "rng_ok s1"
    by (rule txt_sentence_writes [OF t sd s b])
  have z: "NUL \<notin> set x" by (rule sentences_nul_free [OF t x(2)])
  have l: "length tgt = length tgt0" by (rule wrote_length [OF u])
  show thesis
  proof (cases "length x + 1 \<le> n")
    case True
    have str: "c_string b1 = Some x" by (rule wrote_string [OF x(3) z])
    obtain t1 where t1: "buf_put (length u) (x @ [NUL]) tgt = Some t1" "wrote tgt (length u) (x @ [NUL]) t1"
      using wrote_put [of "length u" "x @ [NUL]" tgt] True n(2) l by auto
    have w1: "wrote tgt0 0 (u @ x) t1" using wrote_trans [OF u] wrote_prefix [OF t1(2)] by simp
    obtain t2 where t2: "buf_put (length u + length x) [blank] t1 = Some t2" "wrote tgt0 0 ((u @ x) @ [blank]) t2"
      using wrote_put [of "length u + length x" "[blank]" t1] wrote_trans [OF w1, of "[blank]"] wrote_length [OF w1] True n(2) by auto
    have tk: "take n (x @ '' '') = x @ '' ''" using True by simp
    have "text_step t sd (int n) (length u) tgt b s = Inr (int (length x) + 1, t2, b1, s1)"
      using True x(1) str t1(1) t2(1) by (simp add: text_step_def)
    then show thesis using that [of x t2 b1 s1, unfolded tk] x t2(2) wrote_length [OF x(3)] by simp
  next
    case False
    then have tk: "take n (x @ '' '') = take n x" "length (take n x) = n" by simp_all
    have w0: "wrote b 0 (take n x) b1"
      by (rule wrote_prefix [of _ _ _ "drop n x @ [NUL]"]) (simp only: append_assoc [symmetric] append_take_drop_id x(3))
    obtain b2 where b2: "buf_put n [NUL] b1 = Some b2" "wrote b 0 (take n x @ [NUL]) b2"
      using wrote_put [of n "[NUL]" b1] wrote_trans [OF w0, of "[NUL]"] wrote_length [OF w0] False x(3) tk(2)
      by (auto simp: wrote_def)
    have str: "c_string b2 = Some (take n x)" by (rule wrote_string [OF b2(2)]) (use z in \<open>auto dest: in_set_takeD\<close>)
    obtain t1 where t1: "buf_put (length u) (take n x @ [NUL]) tgt = Some t1" "wrote tgt (length u) (take n x @ [NUL]) t1"
      using wrote_put [of "length u" "take n x @ [NUL]" tgt] n(2) l tk(2) by auto
    have w1: "wrote tgt0 0 (u @ take n x) t1" using wrote_trans [OF u] wrote_prefix [OF t1(2)] by simp
    have "text_step t sd (int n) (length u) tgt b s = Inr (int n, t1, b2, s1)"
      using False x(1) str t1(1) b2(1) by (simp add: text_step_def)
    then show thesis using that [of x t1 b2 s1] x(2,4) w1 wrote_length [OF b2(2)] tk by simp
  qed
qed

lemma text_loop_writes:
  assumes t: "text_ok t" and sd: "0 \<le> sd" "sd \<le> 47"
  shows "rng_ok s \<Longrightarrow> length b = MAX_SENT_LEN + 1 \<Longrightarrow> wrote tgt0 0 u tgt \<Longrightarrow> length u + n < length tgt0 \<Longrightarrow>
    \<exists>ss tgt' s'. text_loop t sd (int (length u + n)) (int (length u)) (length u) tgt b s = Inr (int (length u + n), tgt', s') \<and>
      set ss \<subseteq> sentences t \<and> length (take n (running_text ss)) = n \<and>
      wrote tgt0 0 (u @ take n (running_text ss) @ [NUL]) tgt' \<and> rng_ok s'"
proof (induction n arbitrary: s b u tgt rule: less_induct)
  case (less n)
  show ?case
  proof (cases "n = 0")
    case True
    obtain t1 where t1: "buf_put (length u) [NUL] tgt = Some t1" "wrote tgt (length u) [NUL] t1"
      using wrote_put [of "length u" "[NUL]" tgt] less.prems(4) wrote_length [OF less.prems(3)] by auto
    have "wrote tgt0 0 (u @ [NUL]) t1" using wrote_trans [OF less.prems(3)] t1(2) by simp
    then show ?thesis
      by (subst text_loop.simps) (use True t1(1) less.prems(1) in \<open>auto intro: exI [of _ "[]"]\<close>)
  next
    case False
    then have n: "0 < n" by simp
    obtain x t1 b1 s1 where x: "text_step t sd (int n) (length u) tgt b s = Inr (int (length (take n (x @ '' ''))), t1, b1, s1)"
      "x \<in> sentences t" "wrote tgt0 0 (u @ take n (x @ '' '')) t1" "length b1 = length b" "rng_ok s1"
      by (rule text_step_writes [OF t sd less.prems(1-3) n less.prems(4)])
    let ?v = "take n (x @ '' '')" and ?m = "n - (length x + 1)"
    have len: "length ?v = min n (length x + 1)" by simp
    have m: "?m < n" "length (u @ ?v) + ?m = length u + n" using n by auto
    obtain ss t2 s2 where r: "text_loop t sd (int (length (u @ ?v) + ?m)) (int (length (u @ ?v))) (length (u @ ?v)) t1 b1 s1 =
        Inr (int (length (u @ ?v) + ?m), t2, s2)" "set ss \<subseteq> sentences t" "length (take ?m (running_text ss)) = ?m"
      "wrote tgt0 0 ((u @ ?v) @ take ?m (running_text ss) @ [NUL]) t2" "rng_ok s2"
      using less.IH [OF m(1) x(5) _ x(3)] x(4) less.prems(2,4) m(2) by metis
    define k where "k = length ?v"
    have r1: "text_loop t sd (int (length u + n)) (int (length u) + int k) (length u + k) t1 b1 s1 = Inr (int (length u + n), t2, s2)"
      using r(1) unfolding m(2) by (simp add: k_def del: length_take)
    have x1: "text_step t sd (int n) (length u) tgt b s = Inr (int k, t1, b1, s1)" using x(1) by (simp only: k_def)
    have tx: "take n (running_text (x # ss)) = ?v @ take ?m (running_text ss)"
      using take_append [of n "x @ '' ''" "running_text ss"] by (simp add: running_text_def del: take_append)
    have "text_loop t sd (int (length u + n)) (int (length u)) (length u) tgt b s = Inr (int (length u + n), t2, s2)"
      by (subst text_loop.simps) (use n x1 r1 in simp)
    moreover have "set (x # ss) \<subseteq> sentences t" using x(2) r(2) by simp
    moreover have "length (take n (running_text (x # ss))) = n" unfolding tx using r(3) by simp
    moreover have "wrote tgt0 0 (u @ take n (running_text (x # ss)) @ [NUL]) t2" unfolding tx using r(4) by simp
    ultimately show ?thesis using r(5) by blast
  qed
qed

lemma running_text_letters: "text_ok t \<Longrightarrow> set ss \<subseteq> sentences t \<Longrightarrow> set (take n (running_text ss)) \<subseteq> letters t"
proof -
  assume a: "text_ok t" "set ss \<subseteq> sentences t"
  have "set (running_text ss) \<subseteq> letters t"
    using a(2) sentences_letters [OF a(1)] by (induction ss) (auto simp: running_text_def letters_def)
  then show ?thesis using set_take_subset [of n "running_text ss"] by blast
qed

lemma dbg_text_writes:
  assumes t: "text_ok t" "0 \<le> sd" "sd \<le> 47" "rng_ok s" "length b = MAX_SENT_LEN + 1"
    and m: "0 \<le> mn" "mn \<le> mx" "mx < 2 ^ 31" "nat mx < length tgt"
  obtains n x ss tgt' s' where "dbg_text t b tgt mn mx sd s = Inr (n, tgt', s')" "mn \<le> n" "n \<le> mx"
    "x = take (nat n) (running_text ss)" "set ss \<subseteq> sentences t" "int (length x) = n" "wrote tgt 0 (x @ [NUL]) tgt'"
    "c_string tgt' = Some x" "rng_ok s'"
proof -
  obtain n s1 where d: "dss_random mn mx sd s = (n, s1)" by force
  have n: "mn \<le> n" "n \<le> mx" using dss_random_bounds [OF t(4), of mn mx sd] m d by simp_all
  have s1: "rng_ok s1" using dss_random_ok [OF t(4), of mn mx sd] d by simp
  have room: "nat n < length tgt" using n(2) m(4) nat_mono [of n mx] by simp
  obtain ss tgt' s' where r: "text_loop t sd n 0 0 tgt b s1 = Inr (n, tgt', s')" "set ss \<subseteq> sentences t"
    "length (take (nat n) (running_text ss)) = nat n" "wrote tgt 0 (take (nat n) (running_text ss) @ [NUL]) tgt'" "rng_ok s'"
    using text_loop_writes [OF t(1-3) s1 t(5) wrote_Nil [of 0 tgt], of "nat n"] n(1) m(1) room by auto
  have "NUL \<notin> set (take (nat n) (running_text ss))"
    using running_text_letters [OF t(1) r(2)] letters_nul_free [OF t(1)] by blast
  from wrote_string [OF r(4) this] show thesis
    using that [OF _ n refl r(2) _ r(4) _ r(5)] r(1,3) n(1) m(1) d by (simp add: dbg_text_def)
qed

text \<open>
  C17: \<open>dbg_text\<close> returns from every state of its stream, with a length between the bounds; the buffer holds a text of
  exactly this length, the start of a sequence of sentences of the grammar with a blank behind each, whatever the two buffers held before.
\<close>

theorem pseudo_text:
  assumes "text_ok t" "0 \<le> sd" "sd \<le> 47" "rng_ok s" "length b = MAX_SENT_LEN + 1"
    and "0 \<le> mn" "mn \<le> mx" "mx < 2 ^ 31" "nat mx < length tgt"
  shows "\<exists>n x ss tgt' s'. dbg_text t b tgt mn mx sd s = Inr (n, tgt', s') \<and> mn \<le> n \<and> n \<le> mx \<and>
    c_string tgt' = Some x \<and> int (length x) = n \<and> set ss \<subseteq> sentences t \<and> x = take (nat n) (running_text ss) \<and> rng_ok s'"
  by (rule dbg_text_writes [OF assms]) blast

subsection \<open>Shipped distributions\<close>

definition articles_entries :: "(string \<times> int) list" where
  "articles_entries =
    [(''the'', 50), (''a'', 20), (''an'', 5)]"

definition nouns_entries :: "(string \<times> int) list" where
  "nouns_entries =
    [(''packages'', 40), (''requests'', 40), (''accounts'', 40), (''deposits'', 40),
     (''foxes'', 20), (''ideas'', 20), (''theodolites'', 20), (''pinto beans'', 20),
     (''instructions'', 20), (''dependencies'', 10), (''excuses'', 10), (''platelets'', 10),
     (''asymptotes'', 10), (''courts'', 5), (''dolphins'', 5), (''multipliers'', 1),
     (''sauternes'', 1), (''warthogs'', 1), (''frets'', 1), (''dinos'', 1), (''attainments'', 1),
     (''somas'', 1), (''Tiresias'', 1), (''patterns'', 1), (''forges'', 1), (''braids'', 1),
     (''frays'', 1), (''warhorses'', 1), (''dugouts'', 1), (''notornis'', 1), (''epitaphs'', 1),
     (''pearls'', 1), (''tithes'', 1), (''waters'', 1), (''orbits'', 1), (''gifts'', 1),
     (''sheaves'', 1), (''depths'', 1), (''sentiments'', 1), (''decoys'', 1), (''realms'', 1),
     (''pains'', 1), (''grouches'', 1), (''escapades'', 1), (''hockey players'', 1)]"

definition adjectives_entries :: "(string \<times> int) list" where
  "adjectives_entries =
    [(''special'', 20), (''pending'', 20), (''unusual'', 20), (''express'', 20), (''furious'', 1),
     (''sly'', 1), (''careful'', 1), (''blithe'', 1), (''quick'', 1), (''fluffy'', 1),
     (''slow'', 1), (''quiet'', 1), (''ruthless'', 1), (''thin'', 1), (''close'', 1),
     (''dogged'', 1), (''daring'', 1), (''brave'', 1), (''stealthy'', 1), (''permanent'', 1),
     (''enticing'', 1), (''idle'', 1), (''busy'', 1), (''regular'', 50), (''final'', 40),
     (''ironic'', 40), (''even'', 30), (''bold'', 20), (''silent'', 10)]"

definition adverbs_entries :: "(string \<times> int) list" where
  "adverbs_entries =
    [(''sometimes'', 1), (''always'', 1), (''never'', 1), (''furiously'', 50), (''slyly'', 50),
     (''carefully'', 50), (''blithely'', 40), (''quickly'', 30), (''fluffily'', 20),
     (''slowly'', 1), (''quietly'', 1), (''ruthlessly'', 1), (''thinly'', 1), (''closely'', 1),
     (''doggedly'', 1), (''daringly'', 1), (''bravely'', 1), (''stealthily'', 1),
     (''permanently'', 1), (''enticingly'', 1), (''idly'', 1), (''busily'', 1),
     (''regularly'', 1), (''finally'', 1), (''ironically'', 1), (''evenly'', 1), (''boldly'', 1),
     (''silently'', 1)]"

definition prepositions_entries :: "(string \<times> int) list" where
  "prepositions_entries =
    [(''about'', 50), (''above'', 50), (''according to'', 50), (''across'', 50), (''after'', 50),
     (''against'', 40), (''along'', 40), (''alongside of'', 30), (''among'', 30),
     (''around'', 20), (''at'', 10), (''atop'', 1), (''before'', 1), (''behind'', 1),
     (''beneath'', 1), (''beside'', 1), (''besides'', 1), (''between'', 1), (''beyond'', 1),
     (''by'', 1), (''despite'', 1), (''during'', 1), (''except'', 1), (''for'', 1), (''from'', 1),
     (''in place of'', 1), (''inside'', 1), (''instead of'', 1), (''into'', 1), (''near'', 1),
     (''of'', 1), (''on'', 1), (''outside'', 1), (''over'', 1), (''past'', 1), (''since'', 1),
     (''through'', 1), (''throughout'', 1), (''to'', 1), (''toward'', 1), (''under'', 1),
     (''until'', 1), (''up'', 1), (''upon'', 1), (''whithout'', 1), (''with'', 1),
     (''within'', 1)]"

definition verbs_entries :: "(string \<times> int) list" where
  "verbs_entries =
    [(''sleep'', 20), (''wake'', 20), (''are'', 20), (''cajole'', 20), (''haggle'', 20),
     (''nag'', 10), (''use'', 10), (''boost'', 10), (''affix'', 5), (''detect'', 5),
     (''integrate'', 5), (''maintain'', 1), (''nod'', 1), (''was'', 1), (''lose'', 1),
     (''sublate'', 1), (''solve'', 1), (''thrash'', 1), (''promise'', 1), (''engage'', 1),
     (''hinder'', 1), (''print'', 1), (''x-ray'', 1), (''breach'', 1), (''eat'', 1),
     (''grow'', 1), (''impress'', 1), (''mold'', 1), (''poach'', 1), (''serve'', 1), (''run'', 1),
     (''dazzle'', 1), (''snooze'', 1), (''doze'', 1), (''unwind'', 1), (''kindle'', 1),
     (''play'', 1), (''hang'', 1), (''believe'', 1), (''doubt'', 1)]"

definition terminators_entries :: "(string \<times> int) list" where
  "terminators_entries =
    [(''.'', 50), ('';'', 1), ('':'', 1), (''?'', 1), (''!'', 1), (''--'', 1)]"

definition auxillaries_entries :: "(string \<times> int) list" where
  "auxillaries_entries =
    [(''do'', 1), (''may'', 1), (''might'', 1), (''shall'', 1), (''will'', 1), (''would'', 1),
     (''can'', 1), (''could'', 1), (''should'', 1), (''ought to'', 1), (''must'', 1),
     (''will have to'', 1), (''shall have to'', 1), (''could have to'', 1),
     (''should have to'', 1), (''must have to'', 1), (''need to'', 1), (''try to'', 1)]"

definition np_entries :: "(string \<times> int) list" where
  "np_entries =
    [(''N'', 10), (''J N'', 20), (''J, J N'', 10), (''D J N'', 50)]"

definition vp_entries :: "(string \<times> int) list" where
  "vp_entries =
    [(''V'', 30), (''X V'', 1), (''V D'', 40), (''X V D'', 1)]"

definition grammar_entries :: "(string \<times> int) list" where
  "grammar_entries =
    [(''N V T'', 3), (''N V P T'', 3), (''N V N T'', 3), (''N P V N T'', 1), (''N P V P T'', 1)]"

definition ssb_tdists :: tdists where
  "ssb_tdists = \<lparr>articles = entries_dist articles_entries, nouns = entries_dist nouns_entries, adjectives = entries_dist adjectives_entries, adverbs = entries_dist adverbs_entries, prepositions = entries_dist prepositions_entries, 
     verbs = entries_dist verbs_entries, terminators = entries_dist terminators_entries, auxillaries = entries_dist auxillaries_entries, np = entries_dist np_entries, vp = entries_dist vp_entries, grammar = entries_dist grammar_entries\<rparr>"

lemma word_listI:
  assumes "1 \<le> sum_list (map snd es)" "sum_list (map snd es) < 2 ^ 31" "list_all (\<lambda>e. NUL \<notin> set (fst e)) es"
  shows "word_list (entries_dist es)"
proof -
  have "\<forall>w \<in> sm_text ` set (cumulate 0 es). NUL \<notin> set w" using assms(3) by (simp add: cumulate_texts list_all_iff)
  then show ?thesis using entries_dist_ok [OF assms(1,2)] by (simp add: word_list_def list_all_iff entries_dist_def)
qed

lemma entries_all: "list_all (\<lambda>e. P (fst e)) es \<Longrightarrow> list_all (\<lambda>m. P (sm_text m)) (dlist (entries_dist es))"
proof -
  assume "list_all (\<lambda>e. P (fst e)) es"
  then have "\<forall>w \<in> sm_text ` set (cumulate 0 es). P w" by (simp add: cumulate_texts list_all_iff)
  then show ?thesis by (simp add: list_all_iff entries_dist_def)
qed

lemma text_sums:
  "sum_list (map snd articles_entries) = 75" "list_all (\<lambda>e. NUL \<notin> set (fst e)) articles_entries"
  "sum_list (map snd nouns_entries) = 340" "list_all (\<lambda>e. NUL \<notin> set (fst e)) nouns_entries"
  "sum_list (map snd adjectives_entries) = 289" "list_all (\<lambda>e. NUL \<notin> set (fst e)) adjectives_entries"
  "sum_list (map snd adverbs_entries) = 262" "list_all (\<lambda>e. NUL \<notin> set (fst e)) adverbs_entries"
  "sum_list (map snd prepositions_entries) = 456" "list_all (\<lambda>e. NUL \<notin> set (fst e)) prepositions_entries"
  "sum_list (map snd verbs_entries) = 174" "list_all (\<lambda>e. NUL \<notin> set (fst e)) verbs_entries"
  "sum_list (map snd terminators_entries) = 55" "list_all (\<lambda>e. NUL \<notin> set (fst e)) terminators_entries"
  "sum_list (map snd auxillaries_entries) = 18" "list_all (\<lambda>e. NUL \<notin> set (fst e)) auxillaries_entries"
  "sum_list (map snd np_entries) = 90" "list_all (\<lambda>e. NUL \<notin> set (fst e)) np_entries"
  "sum_list (map snd vp_entries) = 72" "list_all (\<lambda>e. NUL \<notin> set (fst e)) vp_entries"
  "sum_list (map snd grammar_entries) = 11" "list_all (\<lambda>e. NUL \<notin> set (fst e)) grammar_entries"
  by code_simp+

lemma longest_entries: "longest (entries_dist es) = foldr (\<lambda>e k. max (length (fst e)) k) es 0"
proof -
  have "foldr (\<lambda>m k. max (length (sm_text m)) k) (cumulate m es) 0 = foldr (\<lambda>e k. max (length (fst e)) k) es 0" for m
    by (induction m es rule: cumulate.induct) simp_all
  then show ?thesis by (simp add: longest_def entries_dist_def)
qed

lemma form_bound_entries: "form_bound src (entries_dist es) = foldr (\<lambda>e k. max (phrase_bound src (tokens (fst e))) k) es 0"
proof -
  have "foldr (\<lambda>m k. max (phrase_bound src (tokens (sm_text m))) k) (cumulate m es) 0 = foldr (\<lambda>e k. max (phrase_bound src (tokens (fst e))) k) es 0" for m
    by (induction m es rule: cumulate.induct) simp_all
  then show ?thesis by (simp add: form_bound_def entries_dist_def)
qed

lemma ssb_longest:
  "longest (entries_dist articles_entries) = 3"
  "longest (entries_dist nouns_entries) = 14"
  "longest (entries_dist adjectives_entries) = 9"
  "longest (entries_dist adverbs_entries) = 11"
  "longest (entries_dist prepositions_entries) = 12"
  "longest (entries_dist verbs_entries) = 9"
  "longest (entries_dist terminators_entries) = 2"
  "longest (entries_dist auxillaries_entries) = 14"
  by (simp_all add: longest_entries articles_entries_def nouns_entries_def adjectives_entries_def adverbs_entries_def prepositions_entries_def verbs_entries_def terminators_entries_def auxillaries_entries_def)

lemma form_tokens:
  "tokens ''N'' = [''N'']"
  "tokens ''J N'' = [''J'', ''N'']"
  "tokens ''J, J N'' = [''J,'', ''J'', ''N'']"
  "tokens ''D J N'' = [''D'', ''J'', ''N'']"
  "tokens ''V'' = [''V'']"
  "tokens ''X V'' = [''X'', ''V'']"
  "tokens ''V D'' = [''V'', ''D'']"
  "tokens ''X V D'' = [''X'', ''V'', ''D'']"
  "tokens ''N V T'' = [''N'', ''V'', ''T'']"
  "tokens ''N V P T'' = [''N'', ''V'', ''P'', ''T'']"
  "tokens ''N V N T'' = [''N'', ''V'', ''N'', ''T'']"
  "tokens ''N P V N T'' = [''N'', ''P'', ''V'', ''N'', ''T'']"
  "tokens ''N P V P T'' = [''N'', ''P'', ''V'', ''P'', ''T'']"
  by code_simp+

lemmas ssb_form_defs = vp_form_def np_form_def sent_form_def vp_entries_def np_entries_def grammar_entries_def form_tokens MAX_GRAMMAR_LEN_def

lemma ssb_forms:
  "list_all (\<lambda>e. vp_form ssb_tdists (fst e) \<and> tokens (fst e) \<noteq> []) vp_entries"
  "list_all (\<lambda>e. np_form ssb_tdists (fst e) \<and> tokens (fst e) \<noteq> []) np_entries"
  by (simp_all add: ssb_form_defs)

text \<open>The longest verb and noun phrases.\<close>

lemma ssb_phrase_bounds:
  "form_bound (vp_source ssb_tdists) (vp ssb_tdists) = 37" "form_bound (np_source ssb_tdists) (np ssb_tdists) = 37"
  by (simp_all add: ssb_tdists_def form_bound_entries vp_entries_def np_entries_def form_tokens phrase_bound_def vp_source_def np_source_def ssb_longest)

lemma ssb_sentence_forms: "list_all (\<lambda>e. sent_form ssb_tdists (fst e)) grammar_entries"
  by (simp add: ssb_form_defs part_bound_def ssb_phrase_bounds MAX_SENT_LEN_def) (simp add: ssb_tdists_def ssb_longest)

lemma ssb_text_ok: "text_ok ssb_tdists"
proof -
  have "list_all word_list (map entries_dist [articles_entries, nouns_entries, adjectives_entries, adverbs_entries, prepositions_entries, verbs_entries, terminators_entries, auxillaries_entries, np_entries, vp_entries, grammar_entries])"
    using text_sums by (simp add: word_listI)
  moreover note ssb_forms [THEN entries_all] ssb_sentence_forms [THEN entries_all]
  ultimately show ?thesis by (simp add: text_ok_def) (simp add: ssb_tdists_def)
qed

theorem pseudo_text_witness:
  "\<exists>n x ss tgt' s'. dbg_text ssb_tdists (replicate 257 NUL) (replicate 401 NUL) 300 400 0 rng_init = Inr (n, tgt', s') \<and> 300 \<le> n \<and> n \<le> 400 \<and>
    c_string tgt' = Some x \<and> int (length x) = n \<and> set ss \<subseteq> sentences ssb_tdists \<and> x = take (nat n) (running_text ss) \<and> rng_ok s'"
  by (rule pseudo_text [OF ssb_text_ok _ _ rng_init_ok]) (simp_all add: MAX_SENT_LEN_def)

text \<open>
  Punctuation in a form for verb phrases never appears: it is written one place behind the word and then overwritten by the
  blank, so that the place behind the word keeps the zero that ends it and everything behind is cut off the text.
\<close>

theorem verb_punctuation_lost:
  assumes "vp_source t c = Some d" "dist_ok d" "rng_ok s" "0 \<le> sd" "sd \<le> 47" "c \<noteq> blank" "p \<noteq> blank"
    and "dest + longest d + 3 \<le> length b"
  shows "\<exists>w b' s'. vp_loop t sd [c, p] dest 0 b s = Some (length w + 2, b', s') \<and> w \<in> words d \<and>
    take (dest + (length w + 2)) b' = take dest b @ w @ [NUL, blank]"
proof -
  obtain i s1 where i: "pick_str d sd s = Some (i, sm_text (dlist d ! i), s1)" "i < length (dlist d)"
    using pick_str_props [OF assms(3,2,4,5)] by metis
  let ?w = "sm_text (dlist d ! i)"
  have w: "?w \<in> words d" using i(2) by (simp add: words_def)
  have l: "length ?w \<le> longest d" by (rule longest [OF w])
  obtain b1 where b1: "buf_put dest (?w @ [NUL]) b = Some b1" "wrote b dest (?w @ [NUL]) b1"
    using wrote_put [of dest "?w @ [NUL]" b] l assms(8) by auto
  obtain b2 where b2: "buf_put (dest + length ?w + 1) [p] b1 = Some b2" "wrote b dest ((?w @ [NUL]) @ [p]) b2"
    using wrote_put [of "dest + length ?w + 1" "[p]" b1] wrote_trans [OF b1(2), of "[p]"] wrote_length [OF b1(2)] l assms(8) by auto
  have w2: "wrote b dest (?w @ [NUL]) b2" by (rule wrote_prefix [OF b2(2)])
  obtain b3 where b3: "buf_put (dest + (length ?w + 1)) [blank] b2 = Some b3" "wrote b dest ((?w @ [NUL]) @ [blank]) b3"
    using wrote_put [of "dest + (length ?w + 1)" "[blank]" b2] wrote_trans [OF w2, of "[blank]"] wrote_length [OF w2] l assms(8) by auto
  have tok: "strtok_blank [c, p] = Some ([c, p], [])" using assms(6,7) by (simp add: strtok_blank_def)
  have "vp_loop t sd [] (dest + (length ?w + 1) + 1) (length ?w + 1 + 1) b3 s1 = Some (length ?w + 2, b3, s1)"
    by (subst vp_loop.simps) (simp add: strtok_blank_def)
  then have "vp_loop t sd [c, p] dest 0 b s = Some (length ?w + 2, b3, s1)"
    by (subst vp_loop.simps) (use tok assms(1) i(1) b1(1) b2(1) b3(1) in \<open>simp add: pick_into_def\<close>)
  then show ?thesis using w b3(2) by (auto simp: wrote_def)
qed

theorem verb_punctuation_lost_witness:
  "\<exists>w b' s'. vp_loop ssb_tdists 0 ''V!'' 0 0 (replicate 257 NUL) rng_init = Some (length w + 2, b', s') \<and> w \<in> words (verbs ssb_tdists) \<and>
    take (0 + (length w + 2)) b' = take 0 (replicate 257 NUL) @ w @ [NUL, blank]"
proof (rule verb_punctuation_lost)
  show "dist_ok (verbs ssb_tdists)" using ssb_text_ok by (simp add: text_ok_def word_list_def)
  have "longest (verbs ssb_tdists) = 9" by (simp add: ssb_tdists_def ssb_longest)
  then show "0 + longest (verbs ssb_tdists) + 3 \<le> length (replicate 257 NUL)" by simp
qed (simp_all add: vp_source_def rng_init_ok)

end
