(* ===== verification/Tpch_Rows.thy ===== *)
theory Tpch_Rows
  imports Print_Rows Text_Lang
begin

text \<open>
  The row builders of \<open>build.c\<close> in the branch for the other workload, \<open>WORKLOAD = TPCH\<close>: customers,
  suppliers, parts with their four suppliers, orders with their line items, nations and regions, each with a comment of
  pseudo text.  The constants and structs are those of the same branch of \<open>dss.h\<close>, \<open>shared.h\<close> and \<open>dsstypes.h\<close>.
  A builder is \<open>None\<close> where the code would leave an array, abort or not return.

  Shown: every builder returns from every consistent state of the streams; the four suppliers of a part are
  different, and every line names one of the four suppliers of its part; no date index leaves the table of dates; the
  status of an order and of its lines agree; the words put into a supplier's comment stay inside it.
\<close>

subsection \<open>Constants and structs of the branch\<close>

definition tpch_P_NAME_SCL :: int where [simp]: "tpch_P_NAME_SCL = 5"
definition tpch_S_ADDR_LEN :: int where [simp]: "tpch_S_ADDR_LEN = 25"
definition tpch_C_ADDR_LEN :: int where [simp]: "tpch_C_ADDR_LEN = 25"
definition P_CMNT_LEN :: int where [simp]: "P_CMNT_LEN = 14"
definition P_CMNT_MAX :: nat where [simp]: "P_CMNT_MAX = 23"
definition S_CMNT_LEN :: int where [simp]: "S_CMNT_LEN = 63"
definition S_CMNT_MAX :: nat where [simp]: "S_CMNT_MAX = 101"
definition PS_CMNT_LEN :: int where [simp]: "PS_CMNT_LEN = 124"
definition PS_CMNT_MAX :: nat where [simp]: "PS_CMNT_MAX = 199"
definition C_CMNT_LEN :: int where [simp]: "C_CMNT_LEN = 73"
definition C_CMNT_MAX :: nat where [simp]: "C_CMNT_MAX = 117"
definition O_CMNT_LEN :: int where [simp]: "O_CMNT_LEN = 49"
definition O_CMNT_MAX :: nat where [simp]: "O_CMNT_MAX = 79"
definition L_CMNT_LEN :: int where [simp]: "L_CMNT_LEN = 27"
definition L_CMNT_MAX :: nat where [simp]: "L_CMNT_MAX = 44"
definition N_CMNT_LEN :: int where [simp]: "N_CMNT_LEN = 72"
definition N_CMNT_MAX :: nat where [simp]: "N_CMNT_MAX = 152"
definition R_CMNT_LEN :: int where [simp]: "R_CMNT_LEN = 72"
definition C_ABAL_MIN :: int where [simp]: "C_ABAL_MIN = - 99999"
definition C_ABAL_MAX :: int where [simp]: "C_ABAL_MAX = 999999"
definition S_ABAL_MIN :: int where [simp]: "S_ABAL_MIN = - 99999"
definition S_ABAL_MAX :: int where [simp]: "S_ABAL_MAX = 999999"
definition S_CMNT_BBB :: int where [simp]: "S_CMNT_BBB = 10"
definition BBB_DEADBEATS :: int where [simp]: "BBB_DEADBEATS = 50"
definition BBB_BASE :: string where [simp]: "BBB_BASE = ''Customer ''"
definition BBB_COMPLAIN :: string where [simp]: "BBB_COMPLAIN = ''Complaints''"
definition BBB_COMMEND :: string where [simp]: "BBB_COMMEND = ''Recommends''"
definition BBB_CMNT_LEN :: int where [simp]: "BBB_CMNT_LEN = 19"
definition BBB_BASE_LEN :: nat where [simp]: "BBB_BASE_LEN = 9"
definition BBB_TYPE_LEN :: nat where [simp]: "BBB_TYPE_LEN = 10"
definition PS_QTY_MIN :: int where [simp]: "PS_QTY_MIN = 1"
definition PS_QTY_MAX :: int where [simp]: "PS_QTY_MAX = 9999"
definition PS_SCST_MIN :: int where [simp]: "PS_SCST_MIN = 100"
definition PS_SCST_MAX :: int where [simp]: "PS_SCST_MAX = 100000"
definition L_SDTE_MIN :: int where [simp]: "L_SDTE_MIN = 1"
definition L_RDTE_MIN :: int where [simp]: "L_RDTE_MIN = 1"
definition CURRENTDATE :: int where [simp]: "CURRENTDATE = 95168"
definition L_SHIP_SD :: int where [simp]: "L_SHIP_SD = 17"
definition L_SDTE_SD :: int where [simp]: "L_SDTE_SD = 21"
definition L_RDTE_SD :: int where [simp]: "L_RDTE_SD = 23"
definition N_CMNT_SD :: int where [simp]: "N_CMNT_SD = 41"
definition R_CMNT_SD :: int where [simp]: "R_CMNT_SD = 42"

record tpch_customer_t =
  hc_custkey :: int
  hc_name :: string
  hc_address :: string
  hc_alen :: int
  hc_nation_code :: int
  hc_phone :: string
  hc_acctbal :: int
  hc_mktsegment :: string
  hc_comment :: string
  hc_clen :: int

record line_t =
  hl_okey :: dss_huge
  hl_partkey :: int
  hl_suppkey :: int
  hl_lcnt :: int
  hl_quantity :: int
  hl_eprice :: int
  hl_discount :: int
  hl_tax :: int
  hl_rflag :: char
  hl_lstatus :: char
  hl_cdate :: string
  hl_sdate :: string
  hl_rdate :: string
  hl_shipinstruct :: string
  hl_shipmode :: string
  hl_comment :: string
  hl_clen :: int

record tpch_order_t =
  hr_okey :: dss_huge
  hr_custkey :: int
  hr_orderstatus :: char
  hr_totalprice :: int
  hr_odate :: string
  hr_opriority :: string
  hr_clerk :: string
  hr_spriority :: int
  hr_lines :: int
  hr_comment :: string
  hr_clen :: int
  hr_l :: "line_t list"

record partsupp_t =
  ps_partkey :: int
  ps_suppkey :: int
  ps_qty :: int
  ps_scost :: int
  ps_comment :: string
  ps_clen :: int

record tpch_part_t =
  hp_partkey :: int
  hp_name :: string
  hp_mfgr :: string
  hp_brand :: string
  hp_type :: string
  hp_tlen :: int
  hp_size :: int
  hp_container :: string
  hp_retailprice :: int
  hp_comment :: string
  hp_clen :: int
  hp_s :: "partsupp_t list"

record tpch_supplier_t =
  hs_suppkey :: int
  hs_name :: string
  hs_address :: string
  hs_alen :: int
  hs_nation_code :: int
  hs_phone :: string
  hs_acctbal :: int
  hs_comment :: string
  hs_clen :: int

record code_t =
  cd_code :: int
  cd_text :: string
  cd_join :: int
  cd_comment :: string
  cd_clen :: int

text \<open>The globals the builders read; \<open>h_sentence\<close> and \<open>h_comment\<close> are what the sentence buffer and a row's comment
  array happen to hold before.\<close>

record henv = benv +
  h_text :: tdists
  l_instruct_set :: distribution
  l_rflag_set :: distribution
  h_sentence :: string
  h_comment :: string

subsection \<open>Helpers\<close>

text \<open>\<open>TEXT(avg, sd, tgt)\<close> for an array of \<open>mx + 1\<close> characters: the length, the array and the streams.\<close>

definition TEXT :: "henv \<Rightarrow> nat \<Rightarrow> int \<Rightarrow> int \<Rightarrow> rng \<Rightarrow> (int \<times> string \<times> rng) option" where
  "TEXT e mx avg sd s =
     (case dbg_text (h_text e) (h_sentence e) (take (mx + 1) (h_comment e))
        (long_of_d (dmul (d_of_long avg) V_STR_LOW)) (long_of_d (dmul (d_of_long avg) V_STR_HGH)) sd s of
        Inl _ \<Rightarrow> None
      | Inr r \<Rightarrow> Some r)"

definition comment_of :: "henv \<Rightarrow> nat \<Rightarrow> int \<Rightarrow> int \<Rightarrow> rng \<Rightarrow> ((int \<times> string) \<times> rng) option" where
  "comment_of e mx avg sd s = do { (n, b, s) \<leftarrow> TEXT e mx avg sd s; x \<leftarrow> c_string b; Some ((n, x), s) }"

definition tot_scnt :: "henv \<Rightarrow> int" where
  "tot_scnt e = td_base (be_tdefs e ! nat SUPP) * be_scale e"

definition PART_SUPP_BRIDGE :: "henv \<Rightarrow> int \<Rightarrow> int \<Rightarrow> int" where
  "PART_SUPP_BRIDGE e p s =
     (p + s * (tot_scnt e sdiv SUPP_PER_PART + (p - 1) sdiv tot_scnt e)) smod tot_scnt e + 1"

definition tpch_O_CKEY_MAX :: "henv \<Rightarrow> int" where
  "tpch_O_CKEY_MAX e = td_base (be_tdefs e ! nat CUST) * be_scale e"

definition tpch_L_PKEY_MAX :: "henv \<Rightarrow> int" where
  "tpch_L_PKEY_MAX e = td_base (be_tdefs e ! nat PART) * be_scale e"

subsection \<open>The builders\<close>

definition tpch_mk_cust :: "henv \<Rightarrow> int \<Rightarrow> rng \<Rightarrow> (tpch_customer_t \<times> rng) option" where
  "tpch_mk_cust e n_cust s = do {
     let (alen, address, s) = V_STR tpch_C_ADDR_LEN C_ADDR_SD s;
     let (i, s) = dss_random 0 (dcount (nations (be_dists e)) - 1) C_NTRG_SD s;
     let (phone, s) = gen_phone i C_PHNE_SD s;
     let (acctbal, s) = dss_random C_ABAL_MIN C_ABAL_MAX C_ABAL_SD s;
     (_, seg, s) \<leftarrow> pick_str (c_mseg_set (be_dists e)) C_MSEG_SD s;
     ((clen, comment), s) \<leftarrow> comment_of e C_CMNT_MAX C_CMNT_LEN C_CMNT_SD s;
     Some (\<lparr>hc_custkey = n_cust, hc_name = ''Customer#'' @ fmt_0d 9 (c_int n_cust), hc_address = address,
            hc_alen = alen, hc_nation_code = i, hc_phone = phone, hc_acctbal = acctbal, hc_mktsegment = seg,
            hc_comment = comment, hc_clen = clen\<rparr>, s) }"

text \<open>The words for a noted supplier are copied into the comment with \<open>memcpy\<close>, \<open>noise\<close> characters apart.\<close>

definition note_supplier :: "int \<Rightarrow> int \<Rightarrow> int \<Rightarrow> string \<Rightarrow> string option" where
  "note_supplier typ noise offset b = do {
     b \<leftarrow> buf_put (nat offset) BBB_BASE b;
     buf_put (BBB_BASE_LEN + nat offset + nat noise) (if typ < BBB_DEADBEATS then BBB_COMPLAIN else BBB_COMMEND) b }"

definition tpch_mk_supp :: "henv \<Rightarrow> int \<Rightarrow> rng \<Rightarrow> (tpch_supplier_t \<times> rng) option" where
  "tpch_mk_supp e index s = do {
     let (alen, address, s) = V_STR tpch_S_ADDR_LEN S_ADDR_SD s;
     let (i, s) = dss_random 0 (dcount (nations (be_dists e)) - 1) S_NTRG_SD s;
     let (phone, s) = gen_phone i S_PHNE_SD s;
     let (acctbal, s) = dss_random S_ABAL_MIN S_ABAL_MAX S_ABAL_SD s;
     (clen, b, s) \<leftarrow> TEXT e S_CMNT_MAX S_CMNT_LEN S_CMNT_SD s;
     let (bad_press, s) = dss_random 1 10000 BBB_CMNT_SD s;
     let (typ, s) = dss_random 0 100 BBB_TYPE_SD s;
     let (noise, s) = dss_random 0 (clen - BBB_CMNT_LEN) BBB_JNK_SD s;
     let (offset, s) = dss_random 0 (clen - (BBB_CMNT_LEN + noise)) BBB_OFFSET_SD s;
     b \<leftarrow> (if bad_press \<le> S_CMNT_BBB then note_supplier typ noise offset b else Some b);
     comment \<leftarrow> c_string b;
     Some (\<lparr>hs_suppkey = index, hs_name = ''Supplier#'' @ fmt_0d 9 index, hs_address = address, hs_alen = alen,
            hs_nation_code = i, hs_phone = phone, hs_acctbal = acctbal, hs_comment = comment, hs_clen = clen\<rparr>, s) }"

text \<open>The loop over the suppliers of a part: \<open>n\<close> to go, \<open>snum\<close> done.\<close>

fun mk_psupps :: "nat \<Rightarrow> henv \<Rightarrow> int \<Rightarrow> int \<Rightarrow> rng \<Rightarrow> (partsupp_t list \<times> rng) option" where
  "mk_psupps 0 e index snum s = Some ([], s)"
| "mk_psupps (Suc n) e index snum s = do {
     let (qty, s) = dss_random PS_QTY_MIN PS_QTY_MAX PS_QTY_SD s;
     let (scost, s) = dss_random PS_SCST_MIN PS_SCST_MAX PS_SCST_SD s;
     ((clen, comment), s) \<leftarrow> comment_of e PS_CMNT_MAX PS_CMNT_LEN PS_CMNT_SD s;
     (pss, s) \<leftarrow> mk_psupps n e index (snum + 1) s;
     Some (\<lparr>ps_partkey = index, ps_suppkey = PART_SUPP_BRIDGE e index snum, ps_qty = qty, ps_scost = scost,
            ps_comment = comment, ps_clen = clen\<rparr> # pss, s) }"

definition tpch_mk_part :: "henv \<Rightarrow> int \<Rightarrow> rng \<Rightarrow> (tpch_part_t \<times> rng) option" where
  "tpch_mk_part e index s = do {
     (name, _, s) \<leftarrow> agg_str (colors (be_dists e)) tpch_P_NAME_SCL P_NAME_SD perm_init s;
     let (temp, s) = dss_random P_MFG_MIN P_MFG_MAX P_MFG_SD s;
     let (brnd, s) = dss_random P_BRND_MIN P_BRND_MAX P_BRND_SD s;
     (ti, typ, s) \<leftarrow> pick_str (p_types_set (be_dists e)) P_TYPE_SD s;
     let (siz, s) = dss_random P_SIZE_MIN P_SIZE_MAX P_SIZE_SD s;
     (_, cntr, s) \<leftarrow> pick_str (p_cntr_set (be_dists e)) P_CNTR_SD s;
     ((clen, comment), s) \<leftarrow> comment_of e P_CMNT_MAX P_CMNT_LEN P_CMNT_SD s;
     (pss, s) \<leftarrow> mk_psupps (nat SUPP_PER_PART) e index 0 s;
     Some (\<lparr>hp_partkey = index, hp_name = name, hp_mfgr = ''Manufacturer#'' @ fmt_0d 1 temp,
            hp_brand = ''Brand#'' @ fmt_0d 2 (temp * 10 + brnd), hp_type = typ,
            hp_tlen = int (length (sm_text (dlist (p_types_set (be_dists e)) ! ti))), hp_size = siz, hp_container = cntr,
            hp_retailprice = rpb_routine index, hp_comment = comment, hp_clen = clen, hp_s = pss\<rparr>, s) }"

text \<open>\<open>tmp_str\<close> has two bytes.\<close>

definition return_flag :: "henv \<Rightarrow> int \<Rightarrow> rng \<Rightarrow> (char \<times> rng) option" where
  "return_flag e r_date s = do {
     j \<leftarrow> julian r_date;
     if j \<le> CURRENTDATE then do {
       (_, w, s) \<leftarrow> pick_str (l_rflag_set e) L_RFLG_SD s;
       if length w \<le> 1 then Some (hd (w @ [NUL]), s) else None }
     else Some (CHR ''N'', s) }"

definition line_status :: "int \<Rightarrow> char option" where
  "line_status s_date = map_option (\<lambda>j. if j \<le> CURRENTDATE then CHR ''F'' else CHR ''O'') (julian s_date)"

definition tpch_mk_line :: "henv \<Rightarrow> dss_huge \<Rightarrow> int \<Rightarrow> int \<Rightarrow> rng \<Rightarrow> (line_t \<times> rng) option" where
  "tpch_mk_line e okey tmp_date lcnt s = do {
     let (quantity, s) = dss_random L_QTY_MIN L_QTY_MAX L_QTY_SD s;
     let (discount, s) = dss_random L_DCNT_MIN L_DCNT_MAX L_DCNT_SD s;
     let (tax, s) = dss_random L_TAX_MIN L_TAX_MAX L_TAX_SD s;
     (_, instruct, s) \<leftarrow> pick_str (l_instruct_set e) L_SHIP_SD s;
     (_, mode, s) \<leftarrow> pick_str (l_smode_set (be_dists e)) L_SMODE_SD s;
     ((clen, comment), s) \<leftarrow> comment_of e L_CMNT_MAX L_CMNT_LEN L_CMNT_SD s;
     let (partkey, s) = dss_random L_PKEY_MIN (tpch_L_PKEY_MAX e) L_PKEY_SD s;
     let (supp_num, s) = dss_random 0 3 L_SKEY_SD s;
     let (s_off, s) = dss_random L_SDTE_MIN L_SDTE_MAX L_SDTE_SD s;
     let (c_off, s) = dss_random L_CDTE_MIN L_CDTE_MAX L_CDTE_SD s;
     let (r_off, s) = dss_random L_RDTE_MIN L_RDTE_MAX L_RDTE_SD s;
     sdate \<leftarrow> date_entry (asc_date e) (tmp_date + s_off - STARTDATE);
     cdate \<leftarrow> date_entry (asc_date e) (tmp_date + c_off - STARTDATE);
     rdate \<leftarrow> date_entry (asc_date e) (tmp_date + s_off + r_off - STARTDATE);
     (rflag, s) \<leftarrow> return_flag e (tmp_date + s_off + r_off) s;
     status \<leftarrow> line_status (tmp_date + s_off);
     Some (\<lparr>hl_okey = okey, hl_partkey = partkey, hl_suppkey = PART_SUPP_BRIDGE e partkey supp_num, hl_lcnt = lcnt + 1,
            hl_quantity = quantity, hl_eprice = rpb_routine partkey * quantity, hl_discount = discount, hl_tax = tax,
            hl_rflag = rflag, hl_lstatus = status, hl_cdate = cdate, hl_sdate = sdate, hl_rdate = rdate,
            hl_shipinstruct = instruct, hl_shipmode = mode, hl_comment = comment, hl_clen = clen\<rparr>, s) }"

definition charge :: "line_t \<Rightarrow> int" where
  "charge l = ((hl_eprice l * (100 - hl_discount l)) sdiv PENNIES) * (100 + hl_tax l) sdiv PENNIES"

text \<open>The loop over the lines with the total price and the number \<open>ocnt\<close> of shipped lines so far.\<close>

fun tpch_mk_lines :: "nat \<Rightarrow> henv \<Rightarrow> dss_huge \<Rightarrow> int \<Rightarrow> int \<Rightarrow> int \<Rightarrow> int \<Rightarrow> rng \<Rightarrow> ((line_t list \<times> int \<times> int) \<times> rng) option" where
  "tpch_mk_lines 0 e okey tmp_date lcnt totalprice ocnt s = Some (([], totalprice, ocnt), s)"
| "tpch_mk_lines (Suc n) e okey tmp_date lcnt totalprice ocnt s = do {
     (l, s) \<leftarrow> tpch_mk_line e okey tmp_date lcnt s;
     ((ls, totalprice, ocnt), s) \<leftarrow> tpch_mk_lines n e okey tmp_date (lcnt + 1) (totalprice + charge l)
        (if hl_lstatus l = CHR ''F'' then ocnt + 1 else ocnt) s;
     Some ((l # ls, totalprice, ocnt), s) }"

definition order_status :: "int \<Rightarrow> int \<Rightarrow> char" where
  "order_status ocnt lines =
     (let st = CHR ''O'';
          st = (if ocnt > 0 then CHR ''P'' else st)
      in if ocnt = lines then CHR ''F'' else st)"

definition tpch_mk_order :: "henv \<Rightarrow> int \<Rightarrow> int \<Rightarrow> rng \<Rightarrow> (tpch_order_t \<times> rng) option" where
  "tpch_mk_order e upd_num index s = do {
     let (custkey, s) = dss_random O_CKEY_MIN (tpch_O_CKEY_MAX e) O_CKEY_SD s;
     custkey \<leftarrow> mortality_loop (tpch_O_CKEY_MAX e) custkey 1;
     let (tmp_date, s) = dss_random O_ODATE_MIN O_ODATE_MAX O_ODATE_SD s;
     odate \<leftarrow> date_entry (asc_date e) (tmp_date - STARTDATE);
     (_, opriority, s) \<leftarrow> pick_str (o_priority_set (be_dists e)) O_PRIO_SD s;
     let (clk_num, s) = dss_random 1 (c_MAX (be_scale e * O_CLRK_SCL) O_CLRK_SCL) O_CLRK_SD s;
     ((clen, comment), s) \<leftarrow> comment_of e O_CMNT_MAX O_CMNT_LEN O_CMNT_SD s;
     let (lines, s) = dss_random O_LCNT_MIN O_LCNT_MAX O_LCNT_SD s;
     ((ls, totalprice, ocnt), s) \<leftarrow> tpch_mk_lines (nat lines) e
        (mk_sparse (be_scale e) index (order_seq (be_refresh e) upd_num)) tmp_date 0 0 0 s;
     Some (\<lparr>hr_okey = mk_sparse (be_scale e) index (order_seq (be_refresh e) upd_num), hr_custkey = custkey,
            hr_orderstatus = order_status ocnt lines, hr_totalprice = totalprice, hr_odate = odate,
            hr_opriority = opriority, hr_clerk = ''Clerk#'' @ fmt_0d 9 (c_int clk_num), hr_spriority = 0, hr_lines = lines,
            hr_comment = comment, hr_clen = clen, hr_l = ls\<rparr>, s) }"

definition mk_nation :: "henv \<Rightarrow> int \<Rightarrow> rng \<Rightarrow> (code_t \<times> rng) option" where
  "mk_nation e index s = do {
     n \<leftarrow> dist_entry (nations (be_dists e)) (index - 1);
     ((clen, comment), s) \<leftarrow> comment_of e N_CMNT_MAX N_CMNT_LEN N_CMNT_SD s;
     Some (\<lparr>cd_code = index - 1, cd_text = sm_text n, cd_join = weight n, cd_comment = comment, cd_clen = clen\<rparr>, s) }"

definition mk_region :: "henv \<Rightarrow> int \<Rightarrow> rng \<Rightarrow> (code_t \<times> rng) option" where
  "mk_region e index s = do {
     r \<leftarrow> dist_entry (regions (be_dists e)) (index - 1);
     ((clen, comment), s) \<leftarrow> comment_of e N_CMNT_MAX R_CMNT_LEN R_CMNT_SD s;
     Some (\<lparr>cd_code = index - 1, cd_text = sm_text r, cd_join = 0, cd_comment = comment, cd_clen = clen\<rparr>, s) }"

subsection \<open>What the builders rely on\<close>

definition henv_ok :: "henv \<Rightarrow> bool" where
  "henv_ok e \<longleftrightarrow> text_ok (h_text e) \<and> length (h_sentence e) = MAX_SENT_LEN + 1 \<and> 200 \<le> length (h_comment e) \<and>
     0 < dcount (nations (be_dists e)) \<and> dcount (nations (be_dists e)) < 2 ^ 31 \<and>
     list_all dist_ok [o_priority_set (be_dists e), l_smode_set (be_dists e), c_mseg_set (be_dists e),
       p_types_set (be_dists e), p_cntr_set (be_dists e), l_instruct_set e, l_rflag_set e] \<and>
     list_all (\<lambda>m. length (sm_text m) \<le> 1) (dlist (l_rflag_set e)) \<and>
     dist_sized (colors (be_dists e)) \<and> 5 \<le> dcount (colors (be_dists e)) \<and>
     td_base (be_tdefs e ! 0) = 200000 \<and> td_base (be_tdefs e ! 2) = 10000 \<and> td_base (be_tdefs e ! 3) = 150000 \<and>
     1 \<le> be_scale e \<and> be_scale e \<le> 1000 \<and> length (asc_date e) = 2557"

text \<open>A step of a builder ends, keeps the streams consistent, and has a value with the property \<open>P\<close>; the rules
  follow the steps of a builder, one after the other.\<close>

definition yields :: "('a \<times> rng) option \<Rightarrow> ('a \<Rightarrow> bool) \<Rightarrow> bool" where
  "yields r P \<longleftrightarrow> (\<exists>x s. r = Some (x, s) \<and> rng_ok s \<and> P x)"

lemma yieldsI: "rng_ok s \<Longrightarrow> P x \<Longrightarrow> yields (Some (x, s)) P"
  by (simp add: yields_def)

lemma yields_then:
  assumes "yields r P" "\<And>x s. rng_ok s \<Longrightarrow> P x \<Longrightarrow> yields (f (x, s)) Q"
  shows "yields (Option.bind r f) Q"
  using assms by (auto simp: yields_def)

lemma yields_weaken: "yields r P \<Longrightarrow> (\<And>x. P x \<Longrightarrow> Q x) \<Longrightarrow> yields r Q"
  by (auto simp: yields_def)

lemma yields_value: "v = Some x \<Longrightarrow> yields (f x) Q \<Longrightarrow> yields (Option.bind v f) Q"
  by simp

lemma yields_random:
  assumes "rng_ok s" "lo \<le> hi" "hi - lo < 2 ^ 53 - 1" "0 \<le> c" "c \<le> 47"
    and "\<And>x s. rng_ok s \<Longrightarrow> lo \<le> x \<Longrightarrow> x \<le> hi \<Longrightarrow> yields (f x s) P"
  shows "yields (let (x, s) = dss_random lo hi c s in f x s) P"
  by (rule draw [OF assms(1,4,5,2,3)]) (simp add: assms(6))

lemma yields_pick:
  assumes "rng_ok s" "dist_ok d" "0 \<le> c" "c \<le> 47"
    and "\<And>i s. rng_ok s \<Longrightarrow> i < length (dlist d) \<Longrightarrow> yields (f i (sm_text (dlist d ! i)) s) P"
  shows "yields (Option.bind (pick_str d c s) (\<lambda>(i, w, s). f i w s)) P"
  by (rule pick [OF assms(1-4)]) (simp add: assms(5))

lemma yields_phone:
  assumes "rng_ok s" "0 \<le> i" "0 \<le> c" "c \<le> 47"
    and "\<And>ph s. rng_ok s \<Longrightarrow> phone_ok i ph \<Longrightarrow> yields (f ph s) P"
  shows "yields (let (ph, s) = gen_phone i c s in f ph s) P"
  by (rule gen_phone_props [OF assms(1,3,4,2)]) (simp add: assms(5))

lemma V_STR_25: "V_STR 25 sd s = a_rnd 10 40 sd s"
proof -
  have "long_of_d (dmul (d_of_long 25) V_STR_LOW) = 10" "long_of_d (dmul (d_of_long 25) V_STR_HGH) = 40"
    unfolding V_STR_LOW_def V_STR_HGH_def by code_simp+
  then show ?thesis by (simp add: V_STR_def)
qed

definition address_ok :: "int \<Rightarrow> string \<Rightarrow> bool" where
  "address_ok len a \<longleftrightarrow> 10 \<le> len \<and> len \<le> 40 \<and> int (length a) = len \<and> set a \<subseteq> set alpha_num"

lemma yields_address:
  assumes "rng_ok s" "0 \<le> c" "c \<le> 47"
    and "\<And>len a s. rng_ok s \<Longrightarrow> address_ok len a \<Longrightarrow> yields (f len a s) P"
  shows "yields (let (len, a, s) = V_STR 25 c s in f len a s) P"
proof -
  obtain len a s' where a: "a_rnd 10 40 c s = (len, a, s')" "10 \<le> len" "len \<le> 40" "int (length a) = len" "set a \<subseteq> set alpha_num"
    "moves (\<lambda>j. (1 + (nat len + 4) div 5) * one_at (nat c) j) (\<lambda>j. (1 + (nat len + 4) div 5) * one_at (nat c) j) s s'"
    by (rule a_rnd_props [OF assms(1-3), of 10 40]) simp_all
  have "yields (f len a s') P" by (rule assms(4) [OF moves_ok [OF a(6) assms(1)]]) (use a in \<open>simp add: address_ok_def\<close>)
  then show ?thesis by (simp add: V_STR_25 a(1))
qed

text \<open>The bounds of the comments, computed in double precision as the code does.\<close>

definition text_range :: "int \<Rightarrow> int \<times> int" where
  "text_range avg = (long_of_d (dmul (d_of_long avg) V_STR_LOW), long_of_d (dmul (d_of_long avg) V_STR_HGH))"

lemma text_ranges_short: "text_range 14 = (5, 22)" "text_range 27 = (10, 43)" "text_range 49 = (19, 78)"
  unfolding text_range_def V_STR_LOW_def V_STR_HGH_def by code_simp+

lemma text_ranges_long: "text_range 63 = (25, 100)" "text_range 72 = (28, 115)" "text_range 73 = (29, 116)" "text_range 124 = (49, 198)"
  unfolding text_range_def V_STR_LOW_def V_STR_HGH_def by code_simp+

lemmas text_ranges = text_ranges_short text_ranges_long

text \<open>A comment: the first \<open>n\<close> characters of sentences of the grammar, \<open>n\<close> in the range of the column.\<close>

definition comment_ok :: "henv \<Rightarrow> int \<Rightarrow> int \<times> string \<Rightarrow> bool" where
  "comment_ok e avg = (\<lambda>(n, x). fst (text_range avg) \<le> n \<and> n \<le> snd (text_range avg) \<and> int (length x) = n \<and>
     (\<exists>ss. set ss \<subseteq> sentences (h_text e) \<and> x = take (nat n) (running_text ss)))"

lemma TEXT_writes:
  assumes e: "henv_ok e" and s: "rng_ok s" "0 \<le> sd" "sd \<le> 47"
    and r: "text_range avg = (mn, mx)" "0 \<le> mn" "mn \<le> mx" "mx \<le> int m" "m < 200"
  obtains n x b s' where "TEXT e m avg sd s = Some (n, b, s')" "comment_ok e avg (n, x)" "NUL \<notin> set x"
    "wrote (take (m + 1) (h_comment e)) 0 (x @ [NUL]) b" "c_string b = Some x" "rng_ok s'" "length b = m + 1"
proof -
  have t: "text_ok (h_text e)" "length (h_sentence e) = MAX_SENT_LEN + 1" "length (take (m + 1) (h_comment e)) = m + 1"
    using e r(5) by (simp_all add: henv_ok_def)
  have m: "mx < 2 ^ 31" "nat mx < length (take (m + 1) (h_comment e))" using r(4,5) t(3) by auto
  obtain n x ss b s' where d: "dbg_text (h_text e) (h_sentence e) (take (m + 1) (h_comment e)) mn mx sd s = Inr (n, b, s')"
    "mn \<le> n" "n \<le> mx" "x = take (nat n) (running_text ss)" "set ss \<subseteq> sentences (h_text e)" "int (length x) = n"
    "wrote (take (m + 1) (h_comment e)) 0 (x @ [NUL]) b" "c_string b = Some x" "rng_ok s'"
    by (rule dbg_text_writes [OF t(1) s(2,3,1) t(2) r(2,3) m])
  have "NUL \<notin> set x" using running_text_letters [OF t(1) d(5)] letters_nul_free [OF t(1)] d(4) by blast
  moreover have "TEXT e m avg sd s = Some (n, b, s')" using d(1) r(1) by (simp add: TEXT_def text_range_def)
  moreover have "comment_ok e avg (n, x)" using d r(1) by (auto simp: comment_ok_def)
  moreover have "length b = m + 1" using wrote_length [OF d(7)] t(3) by simp
  ultimately show thesis using that d(7-9) by blast
qed

lemma comment_yields:
  assumes "henv_ok e" "rng_ok s" "0 \<le> sd" "sd \<le> 47" "avg \<in> {14, 27, 49, 72, 73, 124}" "snd (text_range avg) \<le> int m" "m < 200"
  shows "yields (comment_of e m avg sd s) (comment_ok e avg)"
proof -
  obtain mn mx where r: "text_range avg = (mn, mx)" by force
  have "0 \<le> mn" "mn \<le> mx" "mx \<le> int m" using assms(5,6) r by (auto simp: text_ranges)
  then show ?thesis
    by (rule TEXT_writes [OF assms(1-4) r _ _ _ assms(7)]) (simp add: comment_of_def yields_def)
qed

lemma yields_comment:
  assumes "henv_ok e" "rng_ok s" "0 \<le> sd" "sd \<le> 47" "avg \<in> {14, 27, 49, 72, 73, 124}" "snd (text_range avg) \<le> int m" "m < 200"
    and "\<And>n x s. rng_ok s \<Longrightarrow> comment_ok e avg (n, x) \<Longrightarrow> yields (f n x s) P"
  shows "yields (Option.bind (comment_of e m avg sd s) (\<lambda>((n, x), s). f n x s)) P"
  by (rule yields_then [OF comment_yields [OF assms(1-7)]]) (auto intro: assms(8))

lemma yields_date:
  assumes "henv_ok e" "STARTDATE \<le> d" "d \<le> STARTDATE + 2556"
    and "\<And>a. a \<in> set (asc_date e) \<Longrightarrow> yields (f a) P"
  shows "yields (Option.bind (date_entry (asc_date e) (d - STARTDATE)) f) P"
proof -
  have "date_entry (asc_date e) (d - STARTDATE) = Some (asc_date e ! nat (d - STARTDATE))" "nat (d - STARTDATE) < length (asc_date e)"
    using assms(1-3) by (auto simp: date_entry_def henv_ok_def)
  then show ?thesis using assms(4) by simp
qed

subsection \<open>Customers, nations, regions\<close>

lemma henv_facts:
  assumes "henv_ok e"
  shows "0 < dcount (nations (be_dists e))" "dcount (nations (be_dists e)) < 9007199254740992" "dist_ok (c_mseg_set (be_dists e))" "dist_ok (p_types_set (be_dists e))" "dist_ok (p_cntr_set (be_dists e))"
    "dist_ok (l_instruct_set e)" "dist_ok (l_smode_set (be_dists e))" "dist_ok (l_rflag_set e)" "dist_ok (o_priority_set (be_dists e))"
    "tot_scnt e = 10000 * be_scale e" "tpch_L_PKEY_MAX e = 200000 * be_scale e" "tpch_O_CKEY_MAX e = 150000 * be_scale e"
  using assms by (simp_all add: henv_ok_def tot_scnt_def tpch_L_PKEY_MAX_def tpch_O_CKEY_MAX_def)

lemma henv_scale: "henv_ok e \<Longrightarrow> 1 \<le> be_scale e" "henv_ok e \<Longrightarrow> be_scale e \<le> 1000"
  by (simp_all add: henv_ok_def)

lemmas builder_steps = yields_address yields_random yields_phone yields_pick

definition tpch_cust_ok :: "henv \<Rightarrow> int \<Rightarrow> tpch_customer_t \<Rightarrow> bool" where
  "tpch_cust_ok e n c \<longleftrightarrow> hc_custkey c = n \<and> hc_name c = ''Customer#'' @ fmt_0d 9 (c_int n) \<and>
     address_ok (hc_alen c) (hc_address c) \<and> 0 \<le> hc_nation_code c \<and> hc_nation_code c < dcount (nations (be_dists e)) \<and>
     phone_ok (hc_nation_code c) (hc_phone c) \<and> - 99999 \<le> hc_acctbal c \<and> hc_acctbal c \<le> 999999 \<and>
     hc_mktsegment c \<in> sm_text ` set (dlist (c_mseg_set (be_dists e))) \<and> comment_ok e 73 (hc_clen c, hc_comment c)"

lemma tpch_customer:
  assumes e: "henv_ok e" and s: "rng_ok s"
  shows "yields (tpch_mk_cust e n s) (tpch_cust_ok e n)"
  unfolding tpch_mk_cust_def tpch_C_ADDR_LEN_def
  by (rule builder_steps yields_comment [OF e] yieldsI s | assumption | simp add: henv_facts [OF e] text_ranges tpch_cust_ok_def)+

definition code_ok :: "henv \<Rightarrow> distribution \<Rightarrow> int \<Rightarrow> code_t \<Rightarrow> bool" where
  "code_ok e d n c \<longleftrightarrow> cd_code c = n - 1 \<and> cd_text c = sm_text (dlist d ! nat (n - 1)) \<and> comment_ok e 72 (cd_clen c, cd_comment c)"

lemma tpch_nation:
  assumes "henv_ok e" "rng_ok s" "1 \<le> n" "n \<le> int (length (dlist (nations (be_dists e))))"
  shows "yields (mk_nation e n s) (\<lambda>c. code_ok e (nations (be_dists e)) n c \<and> cd_join c = weight (dlist (nations (be_dists e)) ! nat (n - 1)))"
  unfolding mk_nation_def N_CMNT_LEN_def
  by (rule yields_value [of _ "dlist (nations (be_dists e)) ! nat (n - 1)"], (use assms in \<open>simp add: dist_entry_def\<close>),
      rule yields_comment [OF assms(1,2)]) (auto simp: text_ranges intro!: yieldsI simp: code_ok_def)

lemma tpch_region:
  assumes "henv_ok e" "rng_ok s" "1 \<le> n" "n \<le> int (length (dlist (regions (be_dists e))))"
  shows "yields (mk_region e n s) (code_ok e (regions (be_dists e)) n)"
  unfolding mk_region_def R_CMNT_LEN_def
  by (rule yields_value [of _ "dlist (regions (be_dists e)) ! nat (n - 1)"], (use assms in \<open>simp add: dist_entry_def\<close>),
      rule yields_comment [OF assms(1,2)]) (auto simp: text_ranges intro!: yieldsI simp: code_ok_def)

subsection \<open>Suppliers\<close>

text \<open>\<open>t\<close> in the place of the characters of \<open>x\<close> from \<open>p\<close> on.\<close>

definition overlay :: "nat \<Rightarrow> string \<Rightarrow> string \<Rightarrow> string" where
  "overlay p t x = take p x @ t @ drop (p + length t) x"

lemma overlay_length: "p + length t \<le> length x \<Longrightarrow> length (overlay p t x) = length x"
  by (simp add: overlay_def)

lemma overlay_set: "set (overlay p t x) \<subseteq> set x \<union> set t"
  by (auto simp: overlay_def dest: in_set_takeD in_set_dropD)

lemma put_overlay:
  assumes "wrote b0 0 (x @ [NUL]) b" "p + length t \<le> length x"
  shows "\<exists>b'. buf_put p t b = Some b' \<and> wrote b0 0 (overlay p t x @ [NUL]) b'"
proof -
  define r where "r = drop (length x + 1) b"
  have b: "b = x @ NUL # r" "length b = length b0" "length x + 1 \<le> length b0"
    using assms(1) append_take_drop_id [of "length x + 1" b] by (auto simp: wrote_def r_def simp del: append_take_drop_id)
  have "buf_put p t b = Some (overlay p t x @ NUL # r)"
    using assms(2) unfolding b(1) by (simp add: buf_put_def overlay_def)
  moreover have "length (overlay p t x @ NUL # r) = length b0" using b(1,2) overlay_length [OF assms(2)] by simp
  ultimately show ?thesis using overlay_length [OF assms(2)] b(3) by (auto simp: wrote_def)
qed

definition note_text :: "int \<Rightarrow> nat \<Rightarrow> nat \<Rightarrow> string \<Rightarrow> string" where
  "note_text typ noise offset x =
     overlay (9 + offset + noise) (if typ < 50 then ''Complaints'' else ''Recommends'') (overlay offset ''Customer '' x)"

lemma note_supplier_writes:
  assumes "wrote b0 0 (x @ [NUL]) b" "NUL \<notin> set x" "0 \<le> noise" "0 \<le> offset" "offset + noise + 19 \<le> int (length x)"
  shows "\<exists>b'. note_supplier typ noise offset b = Some b' \<and> c_string b' = Some (note_text typ (nat noise) (nat offset) x)"
proof -
  let ?w = "if typ < 50 then ''Complaints'' else ''Recommends''"
  have l: "nat offset + length ''Customer '' \<le> length x" "9 + nat offset + nat noise + length ?w \<le> length x" using assms(3-5) by auto
  obtain b1 where b1: "buf_put (nat offset) ''Customer '' b = Some b1" "wrote b0 0 (overlay (nat offset) ''Customer '' x @ [NUL]) b1"
    using put_overlay [OF assms(1) l(1)] by blast
  have "9 + nat offset + nat noise + length ?w \<le> length (overlay (nat offset) ''Customer '' x)"
    using l(2) unfolding overlay_length [OF l(1)] .
  from put_overlay [OF b1(2) this] obtain b2 where b2: "buf_put (9 + nat offset + nat noise) ?w b1 = Some b2"
    "wrote b0 0 (note_text typ (nat noise) (nat offset) x @ [NUL]) b2" unfolding note_text_def by blast
  have "NUL \<notin> set (overlay (nat offset) ''Customer '' x)" using overlay_set [of "nat offset" "''Customer ''" x] assms(2) by auto
  then have "NUL \<notin> set (note_text typ (nat noise) (nat offset) x)"
    using overlay_set [of "9 + nat offset + nat noise" ?w "overlay (nat offset) ''Customer '' x"] by (auto simp: note_text_def)
  from wrote_string [OF b2(2) this] show ?thesis using b1(1) b2(1) by (cases "typ < 50") (simp_all add: note_supplier_def)
qed

lemma note_text_length: "offset + noise + 19 \<le> length x \<Longrightarrow> length (note_text typ noise offset x) = length x"
  by (simp add: note_text_def overlay_length)

text \<open>A comment as generated, or with the note in it.\<close>

definition noted_in :: "string \<Rightarrow> string \<Rightarrow> bool" where
  "noted_in x y \<longleftrightarrow> y = x \<or> (\<exists>ty noise offset. offset + noise + 19 \<le> length x \<and> y = note_text ty noise offset x)"

lemma noted_in_length: "noted_in x y \<Longrightarrow> length y = length x"
  by (auto simp: noted_in_def note_text_length)

definition tpch_supp_ok :: "henv \<Rightarrow> int \<Rightarrow> tpch_supplier_t \<Rightarrow> bool" where
  "tpch_supp_ok e n c \<longleftrightarrow> hs_suppkey c = n \<and> hs_name c = ''Supplier#'' @ fmt_0d 9 n \<and>
     address_ok (hs_alen c) (hs_address c) \<and> 0 \<le> hs_nation_code c \<and> hs_nation_code c < dcount (nations (be_dists e)) \<and>
     phone_ok (hs_nation_code c) (hs_phone c) \<and> - 99999 \<le> hs_acctbal c \<and> hs_acctbal c \<le> 999999 \<and>
     (\<exists>x. comment_ok e 63 (hs_clen c, x) \<and> noted_in x (hs_comment c))"

lemma yields_text:
  assumes "henv_ok e" "rng_ok s"
    and "\<And>n x b s. rng_ok s \<Longrightarrow> comment_ok e 63 (n, x) \<Longrightarrow> 25 \<le> n \<Longrightarrow> n \<le> 100 \<Longrightarrow> NUL \<notin> set x \<Longrightarrow> c_string b = Some x \<Longrightarrow>
      wrote (take 102 (h_comment e)) 0 (x @ [NUL]) b \<Longrightarrow> yields (f n b s) P"
  shows "yields (Option.bind (TEXT e S_CMNT_MAX 63 S_CMNT_SD s) (\<lambda>(n, b, s). f n b s)) P"
proof (rule TEXT_writes [OF assms(1,2) _ _ text_ranges_long(1), of S_CMNT_SD S_CMNT_MAX])
  fix n x b s'
  assume r: "TEXT e S_CMNT_MAX 63 S_CMNT_SD s = Some (n, b, s')" "comment_ok e 63 (n, x)" "NUL \<notin> set x"
    "wrote (take (S_CMNT_MAX + 1) (h_comment e)) 0 (x @ [NUL]) b" "c_string b = Some x" "rng_ok s'"
  have "25 \<le> n" "n \<le> 100" using r(2) by (simp_all add: comment_ok_def text_ranges)
  from assms(3) [OF r(6,2) this r(3,5)] r(1,4) show ?thesis by simp
qed simp_all

lemma yields_note:
  assumes "wrote b0 0 (x @ [NUL]) b" "NUL \<notin> set x" "c_string b = Some x" "comment_ok e 63 (n, x)"
    and "0 \<le> noise" "0 \<le> offset" "offset \<le> n - (BBB_CMNT_LEN + noise)"
    and "\<And>y. noted_in x y \<Longrightarrow> yields (f y) P"
  shows "yields (Option.bind (if c then note_supplier ty noise offset b else Some b) (\<lambda>b. Option.bind (c_string b) f)) P"
proof -
  have fit: "offset + noise + 19 \<le> int (length x)" using assms(4,7) by (simp add: comment_ok_def)
  obtain b' where b': "note_supplier ty noise offset b = Some b'" "c_string b' = Some (note_text ty (nat noise) (nat offset) x)"
    using note_supplier_writes [OF assms(1,2,5,6) fit] by blast
  have "nat offset + nat noise + 19 \<le> length x" using fit assms(5,6) by linarith
  then have "noted_in x (note_text ty (nat noise) (nat offset) x)" "noted_in x x" by (auto simp: noted_in_def)
  then show ?thesis using assms(3,8) b' by simp
qed

lemma tpch_supplier:
  assumes e: "henv_ok e" and s: "rng_ok s"
  shows "yields (tpch_mk_supp e n s) (tpch_supp_ok e n)"
  unfolding tpch_mk_supp_def tpch_S_ADDR_LEN_def S_CMNT_LEN_def
  by (rule builder_steps yields_text [OF e] yieldsI s yields_note | assumption | simp add: henv_facts [OF e] |
      (simp add: henv_facts [OF e] tpch_supp_ok_def, blast))+

subsection \<open>Parts and their suppliers\<close>

lemma bridge_steps:
  fixes sc p :: int
  assumes "1 \<le> sc" "1 \<le> p" "p \<le> 200000 * sc"
  defines "d \<equiv> 10000 * sc div 4 + (p - 1) div (10000 * sc)"
  shows "0 < d" "3 * d < 10000 * sc"
proof -
  have "(p - 1) div (10000 * sc) \<le> (20 * (10000 * sc) - 1) div (10000 * sc)" using assms by (intro zdiv_mono1) simp_all
  also have "\<dots> = 19" using assms(1) by (intro int_div_pos_eq [of _ _ _ "10000 * sc - 1"]) simp_all
  finally have "(p - 1) div (10000 * sc) \<le> 19" .
  moreover have "0 \<le> (p - 1) div (10000 * sc)" using assms by (simp add: pos_imp_zdiv_nonneg_iff)
  ultimately show "0 < d" "3 * d < 10000 * sc" using assms(1) by (simp_all add: d_def)
qed

lemma bridge_key:
  assumes "henv_ok e" "1 \<le> p" "p \<le> tpch_L_PKEY_MAX e" "0 \<le> i"
  shows "PART_SUPP_BRIDGE e p i = (p + i * (tot_scnt e div 4 + (p - 1) div tot_scnt e)) mod tot_scnt e + 1"
    "1 \<le> PART_SUPP_BRIDGE e p i" "PART_SUPP_BRIDGE e p i \<le> tot_scnt e"
proof -
  note F = henv_facts [OF assms(1)]
  have t: "0 < tot_scnt e" "0 \<le> tot_scnt e div 4 + (p - 1) div tot_scnt e" using F henv_scale [OF assms(1)] assms by (simp_all add: pos_imp_zdiv_nonneg_iff)
  then have "0 \<le> p + i * (tot_scnt e div 4 + (p - 1) div tot_scnt e)" using assms by simp
  then show "PART_SUPP_BRIDGE e p i = (p + i * (tot_scnt e div 4 + (p - 1) div tot_scnt e)) mod tot_scnt e + 1"
    using t assms by (simp add: PART_SUPP_BRIDGE_def sdiv_nonneg smod_nonneg)
  then show "1 \<le> PART_SUPP_BRIDGE e p i" "PART_SUPP_BRIDGE e p i \<le> tot_scnt e"
    using pos_mod_bound [OF t(1), of "p + i * (tot_scnt e div 4 + (p - 1) div tot_scnt e)"]
      pos_mod_sign [OF t(1), of "p + i * (tot_scnt e div 4 + (p - 1) div tot_scnt e)"] by linarith+
qed

lemma bridge_distinct:
  assumes "henv_ok e" "1 \<le> p" "p \<le> tpch_L_PKEY_MAX e" "0 \<le> i" "i < j" "j \<le> 3"
  shows "PART_SUPP_BRIDGE e p i \<noteq> PART_SUPP_BRIDGE e p j"
proof
  note F = henv_facts [OF assms(1)]
  define d where "d = tot_scnt e div 4 + (p - 1) div tot_scnt e"
  have d: "0 < d" "3 * d < tot_scnt e"
    unfolding d_def F(10) using bridge_steps [OF henv_scale(1) [OF assms(1)] assms(2)] assms(3) F(11) by simp_all
  assume "PART_SUPP_BRIDGE e p i = PART_SUPP_BRIDGE e p j"
  then have "(p + j * d) mod tot_scnt e = (p + i * d) mod tot_scnt e"
    using bridge_key(1) [OF assms(1-3)] assms(4,5) by (simp add: d_def)
  then have "tot_scnt e dvd (j - i) * d" by (simp add: mod_eq_dvd_iff algebra_simps)
  moreover have "0 < (j - i) * d" using assms(5) d(1) by simp
  moreover have "(j - i) * d \<le> 3 * d" using assms(4-6) d(1) by (intro mult_right_mono) simp_all
  ultimately show False using d(2) zdvd_not_zless by force
qed

definition partsupp_ok :: "henv \<Rightarrow> int \<Rightarrow> partsupp_t \<Rightarrow> bool" where
  "partsupp_ok e n ps \<longleftrightarrow> ps_partkey ps = n \<and> 1 \<le> ps_qty ps \<and> ps_qty ps \<le> 9999 \<and> 100 \<le> ps_scost ps \<and> ps_scost ps \<le> 100000 \<and>
     comment_ok e 124 (ps_clen ps, ps_comment ps)"

lemma psupps_yield:
  assumes e: "henv_ok e"
  shows "rng_ok s \<Longrightarrow> yields (mk_psupps k e n i s) (\<lambda>pss. list_all (partsupp_ok e n) pss \<and>
    map ps_suppkey pss = map (\<lambda>j. PART_SUPP_BRIDGE e n (i + int j)) [0..<k])"
proof (induction k arbitrary: i s)
  case 0
  then show ?case by (simp add: yields_def)
next
  case (Suc k)
  have keys: "map (\<lambda>j. PART_SUPP_BRIDGE e n (i + int j)) [0..<Suc k] =
      PART_SUPP_BRIDGE e n i # map (\<lambda>j. PART_SUPP_BRIDGE e n (i + 1 + int j)) [0..<k]"
    by (simp add: map_upt_Suc add.assoc del: upt_Suc)
  show ?case
    unfolding mk_psupps.simps keys PS_CMNT_LEN_def
    by (rule Suc.prems builder_steps yields_comment [OF e] yieldsI yields_then [OF Suc.IH] | assumption |
        simp add: text_ranges partsupp_ok_def | (clarify, rule yieldsI))+
qed

definition five_words :: "distribution \<Rightarrow> string \<Rightarrow> bool" where
  "five_words d w \<longleftrightarrow> (\<exists>js. distinct js \<and> length js = 5 \<and> set js \<subseteq> {..<length (dlist d)} \<and>
     w = butlast (concat (map (\<lambda>j. sm_text (dlist d ! j) @ '' '') js)))"

lemma yields_name:
  assumes d: "dist_sized d" "5 \<le> dcount d" and s: "rng_ok s"
    and f: "\<And>w p s. rng_ok s \<Longrightarrow> five_words d w \<Longrightarrow> yields (f w p s) P"
  shows "yields (Option.bind (agg_str d 5 P_NAME_SD perm_init s) (\<lambda>(w, p, s). f w p s)) P"
proof -
  define a where "a = fst (shuffle (nat (dcount d)) 37 s)"
  let ?js = "map nat (take 5 a)"
  have n: "0 < nat (dcount d)" "nat (dcount d) < 2 ^ 31" using d by (auto simp: dist_sized_def nat_less_iff)
  have five: "5 \<le> nat (dcount d)" using d(2) by simp
  note sh = shuffle_props [OF s n, of 37, simplified, folded a_def]
  have st: "set (take 5 a) \<subseteq> {0..<dcount d}" using set_take_subset [of 5 a] sh(3) n(1) by simp
  have "inj_on nat {0..<dcount d}" by (auto simp: inj_on_def)
  then have "distinct ?js" using sh(2) st by (simp add: distinct_map inj_on_subset)
  moreover have "length ?js = 5" using sh(1) d(2) by simp
  moreover have "set ?js \<subseteq> {..<length (dlist d)}" using st d(1) by (auto simp: dist_sized_def nat_less_iff)
  ultimately have w: "five_words d (butlast (concat (map (\<lambda>w. w @ '' '') (member_words d (take 5 a)))))"
    unfolding five_words_def member_words_def by (intro exI [of _ ?js]) (simp add: comp_def)
  have "rng_ok (snd (shuffle (nat (dcount d)) 37 s))" by (rule moves_ok [OF shuffle_perm(2) [OF s n] s]) simp_all
  moreover obtain p' where "agg_str d 5 37 perm_init s = Some (butlast (concat (map (\<lambda>w. w @ '' '') (member_words d (take 5 a)))), p',
      snd (shuffle (nat (dcount d)) 37 s))"
    using agg_str_words [OF d(1) s, of 37 5 perm_init] five by (auto simp: a_def)
  ultimately show ?thesis using f w by simp
qed

definition tpch_part_ok :: "henv \<Rightarrow> int \<Rightarrow> tpch_part_t \<Rightarrow> bool" where
  "tpch_part_ok e n p \<longleftrightarrow> hp_partkey p = n \<and> five_words (colors (be_dists e)) (hp_name p) \<and>
     (\<exists>m b. 1 \<le> m \<and> m \<le> 5 \<and> 1 \<le> b \<and> b \<le> 40 \<and> hp_mfgr p = ''Manufacturer#'' @ fmt_0d 1 m \<and> hp_brand p = ''Brand#'' @ fmt_0d 2 (m * 10 + b)) \<and>
     hp_type p \<in> sm_text ` set (dlist (p_types_set (be_dists e))) \<and> hp_tlen p = int (length (hp_type p)) \<and>
     1 \<le> hp_size p \<and> hp_size p \<le> 50 \<and> hp_container p \<in> sm_text ` set (dlist (p_cntr_set (be_dists e))) \<and>
     hp_retailprice p = rpb_routine n \<and> comment_ok e 14 (hp_clen p, hp_comment p) \<and>
     list_all (partsupp_ok e n) (hp_s p) \<and> map ps_suppkey (hp_s p) = map (\<lambda>j. PART_SUPP_BRIDGE e n (int j)) [0..<4]"

lemma colors_sized: "henv_ok e \<Longrightarrow> dist_sized (colors (be_dists e))" "henv_ok e \<Longrightarrow> 5 \<le> dcount (colors (be_dists e))"
  by (simp_all add: henv_ok_def)

lemma tpch_part:
  assumes e: "henv_ok e" and s: "rng_ok s"
  shows "yields (tpch_mk_part e n s) (tpch_part_ok e n)"
  unfolding tpch_mk_part_def tpch_P_NAME_SCL_def P_CMNT_LEN_def
  by (rule s yields_name [OF colors_sized [OF e]] builder_steps yields_comment [OF e] yieldsI
        yields_then [OF psupps_yield [OF e, of _ _ n 0]] | assumption |
      simp add: henv_facts [OF e] text_ranges tpch_part_ok_def | (clarify, rule yieldsI) | blast)+

text \<open>
  A part's four suppliers are different suppliers.
\<close>

lemma part_suppliers:
  assumes "henv_ok e" "tpch_part_ok e n p" "1 \<le> n" "n \<le> tpch_L_PKEY_MAX e"
  shows "distinct (map ps_suppkey (hp_s p))" "\<forall>ps \<in> set (hp_s p). 1 \<le> ps_suppkey ps \<and> ps_suppkey ps \<le> tot_scnt e"
proof -
  have m: "map ps_suppkey (hp_s p) = map (\<lambda>j. PART_SUPP_BRIDGE e n (int j)) [0..<4]" using assms(2) by (simp add: tpch_part_ok_def)
  have "inj_on (\<lambda>j. PART_SUPP_BRIDGE e n (int j)) {0..<4}"
  proof (rule inj_onI)
    fix i j :: nat assume a: "i \<in> {0..<4}" "j \<in> {0..<4}" "PART_SUPP_BRIDGE e n (int i) = PART_SUPP_BRIDGE e n (int j)"
    then show "i = j" using bridge_distinct [OF assms(1,3,4), of "int i" "int j"] bridge_distinct [OF assms(1,3,4), of "int j" "int i"]
      by (cases i j rule: linorder_cases) simp_all
  qed
  then show "distinct (map ps_suppkey (hp_s p))" unfolding m by (simp add: distinct_map del: upt_rec_numeral)
  have "\<forall>k \<in> set (map ps_suppkey (hp_s p)). 1 \<le> k \<and> k \<le> tot_scnt e"
    unfolding m using bridge_key(2,3) [OF assms(1,3,4)] by simp
  then show "\<forall>ps \<in> set (hp_s p). 1 \<le> ps_suppkey ps \<and> ps_suppkey ps \<le> tot_scnt e" by simp
qed

subsection \<open>Orders and lines\<close>

lemma julian_of: "0 \<le> n \<Longrightarrow> \<exists>j. julian (STARTDATE + n) = Some j \<and> julian_ok j \<and> unjulian j = n"
  using julian_loop_total [of 92 n] by (simp add: julian_def year_days_def)

lemma julian_mono:
  assumes "STARTDATE \<le> a" "a < b" "julian a = Some i" "julian b = Some j"
  shows "i < j"
proof -
  have i: "julian_ok i" "unjulian i = a - STARTDATE" and j: "julian_ok j" "unjulian j = b - STARTDATE"
    using julian_of [of "a - STARTDATE"] julian_of [of "b - STARTDATE"] assms by auto
  have nn: "0 \<le> i" "0 \<le> j" using i(1) j(1) by (auto simp: julian_ok_def pos_imp_zdiv_nonneg_iff [symmetric])
  have "\<not> j div 1000 < i div 1000" using unjulian_less [OF j(1) i(1)] i(2) j(2) assms(2) by auto
  moreover have "i mod 1000 < j mod 1000" if "i div 1000 = j div 1000"
    using unjulian_year_days [OF nn(1)] unjulian_year_days [OF nn(2)] that i(2) j(2) assms(2) by simp
  ultimately show ?thesis
    using div_mult_mod_eq [of i 1000] div_mult_mod_eq [of j 1000] pos_mod_bound [of 1000 i] pos_mod_sign [of 1000 j] by linarith
qed

definition shipped :: "line_t \<Rightarrow> bool" where
  "shipped l \<longleftrightarrow> hl_lstatus l = CHR ''F''"

text \<open>The dates of a line ordered on day \<open>td\<close>: shipped, committed and received within the documented numbers of days;
  a line is shipped, or also returned or accepted, when the day is not after the current date; nothing is received before it
  is shipped.\<close>

definition line_dates_ok :: "henv \<Rightarrow> int \<Rightarrow> line_t \<Rightarrow> bool" where
  "line_dates_ok e td l \<longleftrightarrow> (\<exists>so co ro js jr. 1 \<le> so \<and> so \<le> 121 \<and> 30 \<le> co \<and> co \<le> 90 \<and> 1 \<le> ro \<and> ro \<le> 30 \<and>
     hl_sdate l = asc_date e ! nat (td + so - STARTDATE) \<and> hl_cdate l = asc_date e ! nat (td + co - STARTDATE) \<and>
     hl_rdate l = asc_date e ! nat (td + so + ro - STARTDATE) \<and>
     julian (td + so) = Some js \<and> julian (td + so + ro) = Some jr \<and> js < jr \<and>
     hl_lstatus l = (if js \<le> CURRENTDATE then CHR ''F'' else CHR ''O'') \<and>
     (if jr \<le> CURRENTDATE then hl_rflag l \<in> (\<lambda>m. hd (sm_text m @ [NUL])) ` set (dlist (l_rflag_set e)) else hl_rflag l = CHR ''N''))"

definition tpch_line_ok :: "henv \<Rightarrow> dss_huge \<Rightarrow> int \<Rightarrow> line_t \<Rightarrow> bool" where
  "tpch_line_ok e okey td l \<longleftrightarrow> hl_okey l = okey \<and> 1 \<le> hl_partkey l \<and> hl_partkey l \<le> tpch_L_PKEY_MAX e \<and>
     (\<exists>k. 0 \<le> k \<and> k \<le> 3 \<and> hl_suppkey l = PART_SUPP_BRIDGE e (hl_partkey l) k) \<and>
     1 \<le> hl_quantity l \<and> hl_quantity l \<le> 50 \<and> 0 \<le> hl_discount l \<and> hl_discount l \<le> 10 \<and> 0 \<le> hl_tax l \<and> hl_tax l \<le> 8 \<and>
     hl_eprice l = rpb_routine (hl_partkey l) * hl_quantity l \<and> line_dates_ok e td l \<and>
     hl_shipinstruct l \<in> sm_text ` set (dlist (l_instruct_set e)) \<and> hl_shipmode l \<in> sm_text ` set (dlist (l_smode_set (be_dists e))) \<and>
     comment_ok e 27 (hl_clen l, hl_comment l)"

lemma yields_date_at:
  assumes "henv_ok e" "STARTDATE \<le> d" "d \<le> STARTDATE + 2556" "yields (f (asc_date e ! nat (d - STARTDATE))) P"
  shows "yields (Option.bind (date_entry (asc_date e) (d - STARTDATE)) f) P"
  using assms by (auto simp: date_entry_def henv_ok_def)

text \<open>The end of a line: the two flags.\<close>

lemma yields_flags:
  assumes e: "henv_ok e" and s: "rng_ok s" and d: "STARTDATE \<le> sd" "1 \<le> ro"
    and f: "\<And>rf st js jr s. rng_ok s \<Longrightarrow> julian sd = Some js \<Longrightarrow> julian (sd + ro) = Some jr \<Longrightarrow> js < jr \<Longrightarrow>
      st = (if js \<le> CURRENTDATE then CHR ''F'' else CHR ''O'') \<Longrightarrow>
      (if jr \<le> CURRENTDATE then rf \<in> (\<lambda>m. hd (sm_text m @ [NUL])) ` set (dlist (l_rflag_set e)) else rf = CHR ''N'') \<Longrightarrow> yields (f rf s st) P"
  shows "yields (Option.bind (return_flag e (sd + ro) s) (\<lambda>(rf, s). Option.bind (line_status sd) (f rf s))) P"
proof -
  obtain js jr where j: "julian sd = Some js" "julian (sd + ro) = Some jr"
    using julian_of [of "sd - STARTDATE"] julian_of [of "sd + ro - STARTDATE"] d by auto
  have lt: "js < jr" by (rule julian_mono [OF d(1) _ j]) (use d(2) in simp)
  obtain i s1 where 1: "pick_str (l_rflag_set e) 24 s = Some (i, sm_text (dlist (l_rflag_set e) ! i), s1)"
    "i < length (dlist (l_rflag_set e))" "rng_ok s1"
    by (rule pick [OF s henv_facts(8) [OF e], of 24]) simp_all
  have "length (sm_text (dlist (l_rflag_set e) ! i)) \<le> 1" using e 1(2) by (simp add: henv_ok_def list_all_length)
  then have "return_flag e (sd + ro) s = (if jr \<le> CURRENTDATE then Some (hd (sm_text (dlist (l_rflag_set e) ! i) @ [NUL]), s1) else Some (CHR ''N'', s))"
    using j(2) 1(1) by (simp add: return_flag_def)
  then show ?thesis using f [OF _ j lt refl] 1(2,3) s by (auto simp: line_status_def j)
qed

lemma line_okI:
  assumes "julian (td + so) = Some js" "julian (td + so + ro) = Some jr" "js < jr" "st = (if js \<le> CURRENTDATE then CHR ''F'' else CHR ''O'')"
    "if jr \<le> CURRENTDATE then rf \<in> (\<lambda>m. hd (sm_text m @ [NUL])) ` set (dlist (l_rflag_set e)) else rf = CHR ''N''"
    "L_SDTE_MIN \<le> so" "so \<le> L_SDTE_MAX" "L_CDTE_MIN \<le> co" "co \<le> L_CDTE_MAX" "L_RDTE_MIN \<le> ro" "ro \<le> L_RDTE_MAX"
    "L_PKEY_MIN \<le> pk" "pk \<le> tpch_L_PKEY_MAX e" "0 \<le> sn" "sn \<le> 3" "L_QTY_MIN \<le> q" "q \<le> L_QTY_MAX" "L_DCNT_MIN \<le> d" "d \<le> L_DCNT_MAX"
    "L_TAX_MIN \<le> t" "t \<le> L_TAX_MAX" "i < length (dlist (l_instruct_set e))" "m < length (dlist (l_smode_set (be_dists e)))" "comment_ok e 27 (cl, c)"
  shows "tpch_line_ok e okey td \<lparr>hl_okey = okey, hl_partkey = pk, hl_suppkey = PART_SUPP_BRIDGE e pk sn, hl_lcnt = n + 1,
      hl_quantity = q, hl_eprice = rpb_routine pk * q, hl_discount = d, hl_tax = t, hl_rflag = rf, hl_lstatus = st,
      hl_cdate = asc_date e ! nat (td + co - STARTDATE), hl_sdate = asc_date e ! nat (td + so - STARTDATE),
      hl_rdate = asc_date e ! nat (td + so + ro - STARTDATE), hl_shipinstruct = sm_text (dlist (l_instruct_set e) ! i),
      hl_shipmode = sm_text (dlist (l_smode_set (be_dists e)) ! m), hl_comment = c, hl_clen = cl\<rparr>"
    (is "tpch_line_ok e okey td ?l")
proof -
  have "line_dates_ok e td ?l"
    unfolding line_dates_ok_def using assms(1-11)
    by (intro exI [of _ so] exI [of _ co] exI [of _ ro] exI [of _ js] exI [of _ jr]) simp
  moreover have "\<exists>k. 0 \<le> k \<and> k \<le> 3 \<and> hl_suppkey ?l = PART_SUPP_BRIDGE e (hl_partkey ?l) k"
    using assms(14,15) by (intro exI [of _ sn]) simp
  ultimately show ?thesis unfolding tpch_line_ok_def using assms(12,13,16-24) by simp
qed

lemma tpch_line:
  assumes e: "henv_ok e" and s: "rng_ok s" and t: "STARTDATE \<le> td" "td \<le> STARTDATE + 2405"
  shows "yields (tpch_mk_line e okey td n s) (\<lambda>l. tpch_line_ok e okey td l \<and> hl_lcnt l = n + 1)"
  unfolding tpch_mk_line_def L_CMNT_LEN_def
  by (rule s builder_steps yields_comment [OF e] yields_date_at [OF e] yields_flags [OF e] yieldsI | assumption |
      (use t henv_scale [OF e] in \<open>simp add: henv_facts [OF e] text_ranges; fail\<close>) |
      (rule conjI, rule line_okI, assumption+, simp))+

lemma charge_bounds:
  assumes "tpch_line_ok e okey td l"
  shows "0 \<le> charge l" "charge l \<le> 11334600"
proof -
  have l: "1 \<le> hl_partkey l" "1 \<le> hl_quantity l" "hl_quantity l \<le> 50" "0 \<le> hl_discount l" "hl_discount l \<le> 10" "0 \<le> hl_tax l" "hl_tax l \<le> 8"
    "hl_eprice l = rpb_routine (hl_partkey l) * hl_quantity l" using assms by (simp_all add: tpch_line_ok_def)
  have r: "90000 \<le> rpb_routine (hl_partkey l)" "rpb_routine (hl_partkey l) \<le> 209900" using rpb_bounds [of "hl_partkey l"] l(1) by simp_all
  have x: "0 \<le> hl_eprice l" using l(2,8) r(1) by simp
  have "hl_eprice l \<le> 209900 * 50" unfolding l(8) using l(2,3) r by (intro mult_mono) simp_all
  then have "hl_eprice l * (100 - hl_discount l) \<le> (209900 * 50) * 100" using l(4,5) x by (intro mult_mono) simp_all
  then have y: "hl_eprice l * (100 - hl_discount l) div 100 \<le> 10495000" "0 \<le> hl_eprice l * (100 - hl_discount l) div 100"
    using x l(5) by (simp_all add: pos_imp_zdiv_nonneg_iff)
  have "hl_eprice l * (100 - hl_discount l) div 100 * (100 + hl_tax l) \<le> 10495000 * 108" using y l(6,7) by (intro mult_mono) simp_all
  then show "0 \<le> charge l" "charge l \<le> 11334600"
    using x y l(5,6) by (simp_all add: charge_def sdiv_nonneg pos_imp_zdiv_nonneg_iff)
qed

lemma lines_yield:
  assumes e: "henv_ok e" and t: "STARTDATE \<le> td" "td \<le> STARTDATE + 2405"
  shows "rng_ok s \<Longrightarrow> yields (tpch_mk_lines k e okey td n tp oc s) (\<lambda>(ls, tp', oc'). length ls = k \<and>
    list_all (tpch_line_ok e okey td) ls \<and> map hl_lcnt ls = map (\<lambda>i. n + 1 + int i) [0..<k] \<and>
    tp' = tp + sum_list (map charge ls) \<and> oc' = oc + int (length (filter shipped ls)))"
proof (induction k arbitrary: n tp oc s)
  case 0
  then show ?case by (simp add: yields_def)
next
  case (Suc k)
  have num: "map (\<lambda>i. n + 1 + int i) [0..<Suc k] = (n + 1) # map (\<lambda>i. n + 1 + 1 + int i) [0..<k]"
    by (simp add: map_upt_Suc add.assoc del: upt_Suc)
  show ?case
    unfolding tpch_mk_lines.simps num
    by (rule yields_then [OF tpch_line [OF e Suc.prems t]], clarify, rule yields_then [OF Suc.IH], assumption, clarify,
        rule yieldsI) (auto simp: shipped_def)
qed

text \<open>An order: a customer that is not divisible by three, one to seven lines numbered from 1, the sum of their charges, and
  a status that says whether all, some or none of them are shipped.\<close>

definition status_of :: "line_t list \<Rightarrow> char" where
  "status_of ls = (if \<forall>l \<in> set ls. shipped l then CHR ''F'' else if \<exists>l \<in> set ls. shipped l then CHR ''P'' else CHR ''O'')"

definition tpch_order_ok :: "henv \<Rightarrow> int \<Rightarrow> int \<Rightarrow> tpch_order_t \<Rightarrow> bool" where
  "tpch_order_ok e upd n ord \<longleftrightarrow> hr_okey ord = mk_sparse (be_scale e) n (order_seq (be_refresh e) upd) \<and>
     1 \<le> hr_custkey ord \<and> hr_custkey ord \<le> tpch_O_CKEY_MAX e \<and> hr_custkey ord mod 3 \<noteq> 0 \<and>
     (\<exists>td. STARTDATE \<le> td \<and> td \<le> STARTDATE + 2405 \<and> hr_odate ord = asc_date e ! nat (td - STARTDATE) \<and>
        list_all (tpch_line_ok e (hr_okey ord) td) (hr_l ord)) \<and>
     hr_opriority ord \<in> sm_text ` set (dlist (o_priority_set (be_dists e))) \<and> comment_ok e 49 (hr_clen ord, hr_comment ord) \<and>
     1 \<le> hr_lines ord \<and> hr_lines ord \<le> 7 \<and> int (length (hr_l ord)) = hr_lines ord \<and>
     map hl_lcnt (hr_l ord) = map (\<lambda>i. 1 + int i) [0..<length (hr_l ord)] \<and>
     hr_totalprice ord = sum_list (map charge (hr_l ord)) \<and> 0 \<le> hr_totalprice ord \<and> hr_totalprice ord < 2 ^ 31 \<and>
     hr_orderstatus ord = status_of (hr_l ord) \<and>
     (\<exists>k. 1 \<le> k \<and> k \<le> 1000 * be_scale e \<and> hr_clerk ord = ''Clerk#'' @ fmt_0d 9 k)"

lemma order_status_of:
  assumes "ls \<noteq> []"
  shows "order_status (int (length (filter shipped ls))) (int (length ls)) = status_of ls"
proof -
  have "length (filter shipped ls) = length ls \<longleftrightarrow> (\<forall>l \<in> set ls. shipped l)"
    by (metis filter_id_conv length_filter_less nat_neq_iff)
  moreover have "0 < length (filter shipped ls) \<longleftrightarrow> (\<exists>l \<in> set ls. shipped l)" by (auto simp: filter_empty_conv)
  ultimately show ?thesis using assms by (simp add: order_status_def status_of_def)
qed

lemma charges_bounds: "list_all (tpch_line_ok e okey td) ls \<Longrightarrow> 0 \<le> sum_list (map charge ls) \<and> sum_list (map charge ls) \<le> int (length ls) * 11334600"
  by (induction ls) (use charge_bounds in \<open>fastforce simp: algebra_simps\<close>)+

lemma yields_customer:
  assumes e: "henv_ok e" and k: "1 \<le> k" "k \<le> tpch_O_CKEY_MAX e"
    and f: "\<And>c. 1 \<le> c \<Longrightarrow> c \<le> tpch_O_CKEY_MAX e \<Longrightarrow> c mod 3 \<noteq> 0 \<Longrightarrow> yields (f c) P"
  shows "yields (Option.bind (mortality_loop (tpch_O_CKEY_MAX e) k 1) f) P"
  by (rule mortality_ends [OF k]) (simp add: f)

text \<open>The lines close an order.\<close>

lemma order_okI:
  assumes "length ls = nat lines \<and> list_all (tpch_line_ok e okey td) ls \<and> map hl_lcnt ls = map (\<lambda>i. 0 + 1 + int i) [0..<nat lines] \<and>
      tp = 0 + sum_list (map charge ls) \<and> oc = 0 + int (length (filter shipped ls))"
    and "okey = mk_sparse (be_scale e) n (order_seq (be_refresh e) upd)"
    and "1 \<le> c" "c \<le> tpch_O_CKEY_MAX e" "c mod 3 \<noteq> 0" "STARTDATE \<le> td" "td \<le> STARTDATE + 2405"
    and "i < length (dlist (o_priority_set (be_dists e)))" "comment_ok e 49 (cl, cm)" "O_LCNT_MIN \<le> lines" "lines \<le> O_LCNT_MAX"
    and e: "henv_ok e" and k: "1 \<le> k" "k \<le> c_MAX (be_scale e * O_CLRK_SCL) O_CLRK_SCL"
  shows "tpch_order_ok e upd n \<lparr>hr_okey = okey, hr_custkey = c, hr_orderstatus = order_status oc lines, hr_totalprice = tp,
      hr_odate = asc_date e ! nat (td - STARTDATE), hr_opriority = sm_text (dlist (o_priority_set (be_dists e)) ! i), hr_clerk = ''Clerk#'' @ fmt_0d 9 (c_int k),
      hr_spriority = 0, hr_lines = lines, hr_comment = cm, hr_clen = cl, hr_l = ls\<rparr>"
    (is "tpch_order_ok e upd n ?o")
proof -
  have n: "int (length ls) = lines" "ls \<noteq> []" using assms(1,10) by auto
  have "order_status oc lines = status_of ls" using order_status_of [OF n(2)] assms(1) n(1) by simp
  moreover have "0 \<le> tp" "tp < 2 ^ 31" using charges_bounds [of e okey td ls] assms(1,11) n(1) by auto
  moreover have "\<exists>td. STARTDATE \<le> td \<and> td \<le> STARTDATE + 2405 \<and> hr_odate ?o = asc_date e ! nat (td - STARTDATE) \<and>
      list_all (tpch_line_ok e (hr_okey ?o) td) (hr_l ?o)" using assms(1,6,7) by (intro exI [of _ td]) simp
  moreover have "k \<le> 1000 * be_scale e" using k(2) henv_scale [OF e] by (simp add: c_MAX_def split: if_splits)
  then have "\<exists>k. 1 \<le> k \<and> k \<le> 1000 * be_scale e \<and> hr_clerk ?o = ''Clerk#'' @ fmt_0d 9 k"
    using k(1) henv_scale [OF e] by (intro exI [of _ k]) (simp add: c_int_id)
  ultimately show ?thesis unfolding tpch_order_ok_def using assms(1-11) n by simp
qed

lemma tpch_order:
  assumes e: "henv_ok e" and s: "rng_ok s"
  shows "yields (tpch_mk_order e upd n s) (tpch_order_ok e upd n)"
  unfolding tpch_mk_order_def O_CMNT_LEN_def
  by (rule s builder_steps yields_comment [OF e] yields_date_at [OF e] yields_customer [OF e] | assumption |
      (use henv_scale [OF e] in \<open>simp add: henv_facts [OF e] text_ranges c_MAX_def; fail\<close>) |
      (rule yields_then [OF lines_yield [OF e]]) | (clarify, rule yieldsI, assumption, rule order_okI) | rule e | blast | simp)+

end
