(* ===== verification/Tied.thy ===== *)
theory Tied
  imports Tpch_Rows Seek
begin

text \<open>
  Routines tied to streams.  A routine is \<open>tied\<close> to a set of streams when its value depends on these streams only and only
  these move, each by at most a number of draws.  The rules follow a routine step by step: they carry a state over the draws, the
  choices and the pseudo texts, so that two runs and the number of draws are accounted for at once.
\<close>

subsection \<open>Builders tied to streams\<close>

definition spends :: "nat set \<Rightarrow> nat \<Rightarrow> rng \<Rightarrow> rng \<Rightarrow> bool" where
  "spends A n s t \<longleftrightarrow> (\<exists>k. moves k k s t \<and> (\<forall>i. k i \<le> n) \<and> (\<forall>i. 0 < k i \<longrightarrow> i \<in> A))"

lemma spends_refl: "spends A n s s"
  unfolding spends_def by (intro exI [of _ "\<lambda>_. 0"]) (simp add: moves_refl)

lemma spends_trans: "spends A n s t \<Longrightarrow> spends A m t r \<Longrightarrow> spends A (n + m) s r"
  unfolding spends_def by (elim exE conjE, rule exI, rule conjI, erule (1) moves_trans) (auto intro: add_mono)

lemma spends_ok: "spends A n s t \<Longrightarrow> rng_ok s \<Longrightarrow> rng_ok t"
  by (auto simp: spends_def intro: moves_ok)

lemma spends_le: "spends A n s t \<Longrightarrow> n \<le> m \<Longrightarrow> spends A m s t"
  unfolding spends_def using le_trans by blast

text \<open>\<open>p\<close> takes a result apart into its value and the streams.\<close>

definition tied :: "('r \<Rightarrow> 'v \<times> rng) \<Rightarrow> nat set \<Rightarrow> nat \<Rightarrow> (rng \<Rightarrow> 'r option) \<Rightarrow> bool" where
  "tied p A n f \<longleftrightarrow> (\<forall>s r. rng_ok s \<longrightarrow> f s = Some r \<longrightarrow> spends A n s (snd (p r))) \<and>
     (\<forall>s s'. agree A s s' \<longrightarrow> rel_option (\<lambda>r r'. fst (p r) = fst (p r') \<and> agree A (snd (p r)) (snd (p r'))) (f s) (f s'))"

definition tuple2 :: "'a \<times> rng \<Rightarrow> 'a \<times> rng" where "tuple2 r = r"
definition tuple3 :: "'a \<times> 'b \<times> rng \<Rightarrow> ('a \<times> 'b) \<times> rng" where "tuple3 = (\<lambda>(x, y, s). ((x, y), s))"
definition tuple4 :: "'a \<times> 'b \<times> 'c \<times> rng \<Rightarrow> ('a \<times> 'b \<times> 'c) \<times> rng" where "tuple4 = (\<lambda>(x, y, z, s). ((x, y, z), s))"

lemmas tuple_defs = tuple2_def tuple3_def tuple4_def

lemma tied_spends: "tied p A n f \<Longrightarrow> rng_ok s \<Longrightarrow> f s = Some r \<Longrightarrow> spends A n s (snd (p r))"
  by (simp add: tied_def)

lemma tied_agree: "tied p A n f \<Longrightarrow> agree A s s' \<Longrightarrow>
    rel_option (\<lambda>r r'. fst (p r) = fst (p r') \<and> agree A (snd (p r)) (snd (p r'))) (f s) (f s')"
  by (simp add: tied_def)

lemma tied_le: "tied p A n f \<Longrightarrow> n \<le> m \<Longrightarrow> tied p A m f"
  unfolding tied_def using spends_le by blast

lemma tied_None: "tied p A 0 (\<lambda>s. None)"
  by (simp add: tied_def)

lemma tied_Some:
  "tied tuple2 A 0 (\<lambda>s. Some (x, s))" "tied tuple3 A 0 (\<lambda>s. Some (x, y, s))" "tied tuple4 A 0 (\<lambda>s. Some (x, y, z, s))"
  by (simp_all add: tied_def tuple_defs spends_refl)

lemma tied_seq:
  assumes f: "tied p A n f" and g: "\<And>v. tied q A m (\<lambda>s. h (v, s))"
    and g': "\<And>r. g r = h (p r)"
  shows "tied q A (n + m) (\<lambda>s. Option.bind (f s) g)"
  unfolding tied_def
proof (intro conjI allI impI)
  fix s r assume s: "rng_ok s" and r: "Option.bind (f s) g = Some r"
  then obtain x where x: "f s = Some x" "h (fst (p x), snd (p x)) = Some r" by (auto simp: bind_eq_Some_conv g')
  have 1: "spends A n s (snd (p x))" by (rule tied_spends [OF f s x(1)])
  then show "spends A (n + m) s (snd (q r))" using tied_spends [OF g spends_ok [OF 1 s] x(2)] by (rule spends_trans)
next
  fix s s' assume "agree A s s'"
  from tied_agree [OF f this] show "rel_option (\<lambda>r r'. fst (q r) = fst (q r') \<and> agree A (snd (q r)) (snd (q r')))
      (Option.bind (f s) g) (Option.bind (f s') g)"
  proof cases
    case (Some x y)
    have "(fst (p x), snd (p x)) = p x" "(fst (p x), snd (p y)) = p y" using Some(3) by (simp_all add: prod_eq_iff)
    then show ?thesis using tied_agree [OF g, of "snd (p x)" "snd (p y)" "fst (p x)"] Some by (simp only: bind.bind_lunit g' simp_thms)
  qed simp_all
qed

lemma tied_bind:
  "tied tuple2 A n f \<Longrightarrow> (\<And>x. tied q A m (g2 x)) \<Longrightarrow> tied q A (n + m) (\<lambda>s. Option.bind (f s) (\<lambda>(x, s). g2 x s))"
  by (rule tied_seq [where p = tuple2 and h = "\<lambda>(x, s). g2 x s"]) (simp_all add: tuple2_def)

lemma tied_bind3:
  "tied tuple3 A n f \<Longrightarrow> (\<And>x y. tied q A m (g x y)) \<Longrightarrow> tied q A (n + m) (\<lambda>s. Option.bind (f s) (\<lambda>(x, y, s). g x y s))"
  by (rule tied_seq [where p = tuple3 and h = "\<lambda>((x, y), s). g x y s"]) (simp_all add: tuple3_def split: prod.splits)

lemma tied_bind4:
  "tied tuple4 A n f \<Longrightarrow> (\<And>x y z. tied q A m (g x y z)) \<Longrightarrow> tied q A (n + m) (\<lambda>s. Option.bind (f s) (\<lambda>(x, y, z, s). g x y z s))"
  by (rule tied_seq [where p = tuple4 and h = "\<lambda>((x, y, z), s). g x y z s"]) (simp_all add: tuple4_def split: prod.splits)

lemma tied_bind_triple:
  assumes "tied tuple2 A n f" "\<And>x y z. tied q A m (g x y z)"
  shows "tied q A (n + m) (\<lambda>s. Option.bind (f s) (\<lambda>((x, y, z), s). g x y z s))"
  using assms(2) by (intro tied_seq [OF assms(1), where h = "\<lambda>((x, y, z), s). g x y z s"]) (auto simp: tuple2_def)

lemma tied_value: "(\<And>y. v = Some y \<Longrightarrow> tied q A n (f y)) \<Longrightarrow> tied q A n (\<lambda>s. Option.bind v (\<lambda>y. f y s))"
  by (cases v) (simp_all add: tied_def)

lemma tied_value2: "(\<And>x y. tied q A n (f x y)) \<Longrightarrow> tied q A n (\<lambda>s. Option.bind v (\<lambda>(x, y). f x y s))"
  by (cases v) (auto simp: tied_def)

lemma tied_value3: "(\<And>x y z. tied q A n (f x y z)) \<Longrightarrow> tied q A n (\<lambda>s. Option.bind v (\<lambda>(x, y, z). f x y z s))"
  by (cases v) (auto simp: tied_def)

lemma tied_if: "(P \<Longrightarrow> tied q A n f) \<Longrightarrow> (\<not> P \<Longrightarrow> tied q A m g) \<Longrightarrow> tied q A (max n m) (\<lambda>s. if P then f s else g s)"
  by (cases P) (auto intro: tied_le)

lemma tied_Let: "tied q A n (f v) \<Longrightarrow> tied q A n (\<lambda>s. Let v (\<lambda>y. f y s))"
  by simp

subsection \<open>The steps of the builders\<close>

lemma tied_draw:
  assumes "0 \<le> c" "c \<le> 47" "nat c \<in> A" and f: "\<And>x. tied q A n (f x)"
  shows "tied q A (Suc n) (\<lambda>s. let (x, s) = dss_random lo hi c s in f x s)"
proof -
  have "tied tuple2 A 1 (\<lambda>s. Some (dss_random lo hi c s))"
    unfolding tied_def tuple2_def
  proof (intro conjI allI impI)
    fix s r assume "rng_ok s" "Some (dss_random lo hi c s) = Some r"
    then show "spends A 1 s (snd r)"
      using dss_random_moves_in [of s c lo hi] assms(1-3) unfolding spends_def by (auto simp: one_at_def split: if_splits)
  next
    fix s s' assume "agree A s s'"
    then show "rel_option (\<lambda>r r'. fst r = fst r' \<and> agree A (snd r) (snd r')) (Some (dss_random lo hi c s)) (Some (dss_random lo hi c s'))"
      using dss_random_same [of A s s' c] dss_random_agree [of A s s'] assms(1-3) by simp
  qed
  from tied_bind [OF this f] show ?thesis by simp
qed

text \<open>The same with the bounds of the draw.\<close>

lemma tied_cong: "(\<And>s. rng_ok s \<Longrightarrow> f s = g s) \<Longrightarrow> tied q A n g \<Longrightarrow> tied q A n f"
  unfolding tied_def agree_def by simp

lemma tied_draw_in:
  assumes "0 \<le> c" "c \<le> 47" "nat c \<in> A" "lo \<le> hi" "hi - lo < 2 ^ 53 - 1" and f: "\<And>x. lo \<le> x \<Longrightarrow> x \<le> hi \<Longrightarrow> tied q A n (f x)"
  shows "tied q A (Suc n) (\<lambda>s. let (x, s) = dss_random lo hi c s in f x s)"
proof (rule tied_cong)
  let ?g = "\<lambda>x. if lo \<le> x \<and> x \<le> hi then f x else (\<lambda>s. None)"
  have "tied q A n (?g x)" for x using f tied_le [OF tied_None, of n q A] by auto
  then show "tied q A (Suc n) (\<lambda>s. let (x, s) = dss_random lo hi c s in ?g x s)" by (rule tied_draw [OF assms(1-3)])
  fix s assume "rng_ok s"
  then show "(let (x, s) = dss_random lo hi c s in f x s) = (let (x, s) = dss_random lo hi c s in ?g x s)"
    using dss_random_bounds [of s lo hi c] assms(4,5) by (cases "dss_random lo hi c s") simp
qed

lemma tied_pick_str:
  assumes "0 \<le> c" "c \<le> 47" "nat c \<in> A"
  shows "tied tuple3 A 1 (\<lambda>s. pick_str d c s)"
proof -
  let ?f = "\<lambda>s. if 0 < dcount d \<and> dcount d \<le> int (length (dlist d))
      then let (j, s) = dss_random 1 (weight (dlist d ! nat (dcount d - 1))) c s
        in Option.bind (pick_index (dlist d) j) (\<lambda>i. Some (i, sm_text (dlist d ! i), s))
      else None"
  have "tied tuple3 A (max (Suc 0) 0) ?f"
    by (intro tied_if tied_draw [OF assms] tied_value tied_Some tied_None)
  moreover have "pick_str d c s = ?f s" for s
    by (cases "dss_random 1 (weight (dlist d ! nat (dcount d - 1))) c s")
      (simp add: pick_str_def bind_eq_Some_conv map_option_case Option.bind_def split: option.split)
  ultimately show ?thesis by simp
qed

lemma tied_pick:
  assumes "0 \<le> c" "c \<le> 47" "nat c \<in> A" "\<And>i w. tied q A n (f i w)"
  shows "tied q A (Suc n) (\<lambda>s. Option.bind (pick_str d c s) (\<lambda>(i, w, s). f i w s))"
  using tied_bind3 [OF tied_pick_str [OF assms(1-3)] assms(4)] by simp

lemma tied_phone:
  assumes "0 \<le> c" "c \<le> 47" "nat c \<in> A" "\<And>ph. tied q A n (f ph)"
  shows "tied q A (Suc (Suc (Suc n))) (\<lambda>s. let (ph, s) = gen_phone i c s in f ph s)"
proof -
  have "tied q A (Suc (Suc (Suc n))) (\<lambda>s. let (acode, s) = dss_random 100 999 c s in let (exchg, s) = dss_random 100 999 c s in
      let (number, s) = dss_random 1000 9999 c s in f (fmt_0d 2 (10 + i smod NATIONS_MAX) @ ''-'' @ fmt_0d 3 acode @ ''-'' @
        fmt_0d 3 exchg @ ''-'' @ fmt_0d 4 number) s)"
    by (intro tied_draw [OF assms(1-3)] assms(4))
  then show ?thesis by (simp add: gen_phone_def Let_def split_beta)
qed

lemma tied_address:
  assumes "0 \<le> c" "c \<le> 47" "nat c \<in> A" "\<And>len a. tied q A n (f len a)"
  shows "tied q A (9 + n) (\<lambda>s. let (len, a, s) = V_STR 25 c s in f len a s)"
proof -
  have "tied tuple3 A 9 (\<lambda>s. Some (V_STR 25 c s))"
    unfolding tied_def V_STR_25
  proof (intro conjI allI impI)
    fix s r assume s: "rng_ok s" and r: "Some (a_rnd 10 40 c s) = Some r"
    obtain len a s' where a: "a_rnd 10 40 c s = (len, a, s')" "len \<le> 40"
      "moves (\<lambda>j. (1 + (nat len + 4) div 5) * one_at (nat c) j) (\<lambda>j. (1 + (nat len + 4) div 5) * one_at (nat c) j) s s'"
      by (rule a_rnd_props [OF s assms(1,2), of 10 40]) simp_all
    have "(nat len + 4) div 5 \<le> (40 + 4) div 5" using a(2) by (intro div_le_mono) simp
    then have "1 + (nat len + 4) div 5 \<le> 9" by simp
    then have "spends A 9 s s'" using a(3) assms(3) unfolding spends_def
      by (intro exI [of _ "\<lambda>j. (1 + (nat len + 4) div 5) * one_at (nat c) j"]) (simp add: one_at_def)
    moreover have "r = (len, a, s')" using a(1) r by simp
    ultimately show "spends A 9 s (snd (tuple3 r))" by (simp add: tuple3_def)
  next
    fix s s' assume "agree A s s'"
    then show "rel_option (\<lambda>r r'. fst (tuple3 r) = fst (tuple3 r') \<and> agree A (snd (tuple3 r)) (snd (tuple3 r')))
        (Some (a_rnd 10 40 c s)) (Some (a_rnd 10 40 c s'))"
      by (rule pair_a_rnd [OF _ assms(3,1,2), of s s' 10 40]) (simp_all add: tuple3_def)
  qed
  from tied_bind3 [OF this assms(4)] show ?thesis by (simp add: split_beta)
qed

lemma tied_permute_fold:
  assumes c: "0 \<le> c" "c \<le> 47" "nat c \<in> A"
  shows "tied tuple2 A (length ks) (\<lambda>s. Some (foldl (permute_step n c) (a, s) ks))"
proof (induction ks arbitrary: a)
  case (Cons k ks)
  have "tied tuple2 A (Suc (length ks)) (\<lambda>s. let (x, s) = dss_random 0 (n - 1) c s in
      Some (foldl (permute_step n c) (a[nat x := a ! k, k := a ! nat x], s) ks))"
    by (rule tied_draw [OF c Cons.IH])
  moreover have "Some (foldl (permute_step n c) (a, s) (k # ks)) = (let (x, s) = dss_random 0 (n - 1) c s in
      Some (foldl (permute_step n c) (a[nat x := a ! k, k := a ! nat x], s) ks))" for s
    by (cases "dss_random 0 (n - 1) c s") (simp add: permute_step_def)
  ultimately show ?case by simp
qed (simp add: tied_Some)

definition shuffles :: "distribution option \<Rightarrow> nat" where
  "shuffles d = (case d of Some d \<Rightarrow> nat (dcount d) | None \<Rightarrow> 0)"

lemma tied_permute_dist:
  assumes c: "0 \<le> c" "c \<le> 47" "nat c \<in> A"
  shows "tied tuple3 A (shuffles d) (\<lambda>s. permute_dist d c p s)"
proof (cases d)
  case None
  have e: "permute_dist None c p = (\<lambda>s. Option.bind (pdist p) (\<lambda>di. Some (fst (permute None (dcount di) c p s),
      fst (snd (permute None (dcount di) c p s)), snd (snd (permute None (dcount di) c p s)))))"
    by (rule ext) (simp add: permute_dist_def Option.bind_def split: option.split)
  show ?thesis unfolding None e by (rule tied_value) (simp add: permute_def shuffles_def tied_Some Let_def)
next
  case (Some di)
  let ?a = "map int [0..<nat (dcount di)] @ drop (nat (dcount di)) (case dpermute di of None \<Rightarrow> map int [0..<nat (dcount di)] | Some a \<Rightarrow> a)"
  let ?src = "if dcount di > 0 then 0 else source p"
  let ?q = "\<lambda>a. p\<lparr>pdist := Some di, pset := a, source := if ?src \<ge> dcount di then ?src - dcount di else ?src\<rparr>"
  have "tied tuple3 A (nat (dcount di) + 0) (\<lambda>s. Option.bind (Some (foldl (permute_step (dcount di) c) (?a, s) [0..<nat (dcount di)]))
      (\<lambda>(a, s). Some (a ! nat (source (?q a)), ?q a, s)))"
    using tied_permute_fold [OF c, of "[0..<nat (dcount di)]" "dcount di" ?a] by (intro tied_bind tied_Some) simp
  moreover have "permute_dist d c p s = Option.bind (Some (foldl (permute_step (dcount di) c) (?a, s) [0..<nat (dcount di)]))
      (\<lambda>(a, s). Some (a ! nat (source (?q a)), ?q a, s))" for s
    by (simp add: Some permute_dist_def permute_def Let_def split_beta)
  ultimately show ?thesis by (simp add: Some shuffles_def)
qed

lemma tied_agg_loop:
  assumes c: "0 \<le> c" "c \<le> 47" "nat c \<in> A"
  shows "tied tuple3 A (shuffles d) (\<lambda>s. agg_loop n set0 d c dest p s)"
proof (induction n arbitrary: d dest p)
  case 0
  show ?case using tied_le [OF tied_Some(2)] by simp
next
  case (Suc n)
  have "tied tuple3 A (shuffles d + shuffles None) (\<lambda>s. agg_loop (Suc n) set0 d c dest p s)"
    unfolding agg_loop.simps by (rule tied_bind3 [OF tied_permute_dist [OF c]], rule tied_value, rule Suc.IH)
  then show ?case by (simp add: shuffles_def)
qed

lemma tied_agg_str:
  assumes "0 \<le> c" "c \<le> 47" "nat c \<in> A" "\<And>w p. tied q A n (f w p)"
  shows "tied q A (nat (dcount d) + n) (\<lambda>s. Option.bind (agg_str d k c p s) (\<lambda>(w, p, s). f w p s))"
proof -
  have "tied tuple3 A (shuffles (Some d) + 0) (\<lambda>s. agg_str d k c p s)"
    unfolding agg_str_def by (intro tied_bind3 [OF tied_agg_loop [OF assms(1-3)]] tied_Some)
  from tied_bind3 [OF this assms(4)] show ?thesis by (simp add: shuffles_def)
qed

subsection \<open>The pseudo text\<close>

lemma tied_pick_into:
  assumes c: "0 \<le> sd" "sd \<le> 47" "nat sd \<in> A"
  shows "tied tuple3 A 1 (\<lambda>s. pick_into src sd dest b s)"
  unfolding pick_into_def One_nat_def by (intro tied_value tied_pick [OF c] tied_Some)

lemma tied_pick_form:
  assumes c: "0 \<le> sd" "sd \<le> 47" "nat sd \<in> A"
  shows "tied tuple2 A 1 (\<lambda>s. pick_form d sd s)"
proof -
  have "tied tuple2 A (Suc (max 0 0)) (\<lambda>s. pick_form d sd s)"
    unfolding pick_form_def by (intro tied_pick [OF c] tied_if tied_Some tied_None)
  then show ?thesis by simp
qed

lemma pick_form_length: "pick_form d sd s = Some (w, s') \<Longrightarrow> length w \<le> 12"
  by (auto simp: pick_form_def MAX_GRAMMAR_LEN_def bind_eq_Some_conv split: if_splits)

text \<open>A form has at most twelve letters.\<close>

lemma tied_form:
  assumes c: "0 \<le> sd" "sd \<le> 47" "nat sd \<in> A" and f: "\<And>w. length w \<le> 12 \<Longrightarrow> tied q A n (f w)"
  shows "tied q A (Suc n) (\<lambda>s. Option.bind (pick_form d sd s) (\<lambda>(w, s). f w s))"
proof (rule tied_cong)
  let ?g = "\<lambda>w. if length w \<le> 12 then f w else (\<lambda>s. None)"
  have "tied q A n (?g w)" for w using f tied_le [OF tied_None, of n q A] by auto
  then show "tied q A (Suc n) (\<lambda>s. Option.bind (pick_form d sd s) (\<lambda>(w, s). ?g w s))"
    using tied_bind [OF tied_pick_form [OF c], of q n ?g d] by simp
  show "Option.bind (pick_form d sd s) (\<lambda>(w, s). f w s) = Option.bind (pick_form d sd s) (\<lambda>(w, s). ?g w s)" for s
    by (cases "pick_form d sd s") (auto dest: pick_form_length)
qed

lemma tied_case_token:
  assumes "r = None \<Longrightarrow> tied q A n f" "\<And>tok syn. r = Some (tok, syn) \<Longrightarrow> tied q A n (g tok syn)"
  shows "tied q A n (\<lambda>s. case r of None \<Rightarrow> f s | Some (tok, syn) \<Rightarrow> g tok syn s)"
  using assms by (cases r) auto

lemma tied_np_loop:
  assumes c: "0 \<le> sd" "sd \<le> 47" "nat sd \<in> A"
  shows "tied tuple3 A (length syn) (\<lambda>s. np_loop t sd syn dest res b s)"
proof (induction "length syn" arbitrary: syn dest res b rule: less_induct)
  case less
  show ?case
  proof (rule tied_cong, rule np_loop.simps, rule tied_case_token)
    show "tied tuple3 A (length syn) (\<lambda>s. Some (res, b, s))" by (rule tied_le [OF tied_Some(2)]) simp
    fix tok rest assume r: "strtok_blank syn = Some (tok, rest)"
    note l = strtok_blank_shrinks [OF r]
    have "tied tuple3 A (1 + length rest) (\<lambda>s. Option.bind (pick_into (np_source t (hd tok)) sd dest b s) (\<lambda>(i, b, s).
        Option.bind (case tl tok of [] \<Rightarrow> Some (i, b) | c # _ \<Rightarrow> map_option (Pair (i + 1)) (buf_put (dest + i) [c] b)) (\<lambda>(k, b).
        Option.bind (buf_put (dest + k) [blank] b) (\<lambda>b. np_loop t sd rest (dest + k + 1) (res + k + 1) b s))))"
      by (intro tied_bind3 [OF tied_pick_into [OF c]] tied_value2 tied_value less.hyps l)
    then show "tied tuple3 A (length syn) (\<lambda>s. Option.bind (pick_into (np_source t (hd tok)) sd dest b s) (\<lambda>(i, b, s).
        Option.bind (case tl tok of [] \<Rightarrow> Some (i, b) | c # _ \<Rightarrow> map_option (Pair (i + 1)) (buf_put (dest + i) [c] b)) (\<lambda>(k, b).
        Option.bind (buf_put (dest + k) [blank] b) (\<lambda>b. np_loop t sd rest (dest + k + 1) (res + k + 1) b s))))"
      using l by (auto elim!: tied_le)
  qed
qed

lemma tied_vp_loop:
  assumes c: "0 \<le> sd" "sd \<le> 47" "nat sd \<in> A"
  shows "tied tuple3 A (length syn) (\<lambda>s. vp_loop t sd syn dest res b s)"
proof (induction "length syn" arbitrary: syn dest res b rule: less_induct)
  case less
  show ?case
  proof (rule tied_cong, rule vp_loop.simps, rule tied_case_token)
    show "tied tuple3 A (length syn) (\<lambda>s. Some (res, b, s))" by (rule tied_le [OF tied_Some(2)]) simp
    fix tok rest assume r: "strtok_blank syn = Some (tok, rest)"
    note l = strtok_blank_shrinks [OF r]
    have "tied tuple3 A (1 + length rest) (\<lambda>s. Option.bind (pick_into (vp_source t (hd tok)) sd dest b s) (\<lambda>(i, b, s).
        Option.bind (case tl tok of [] \<Rightarrow> Some (i, b) | c # _ \<Rightarrow> map_option (Pair (i + 1)) (buf_put (dest + i + 1) [c] b)) (\<lambda>(k, b).
        Option.bind (buf_put (dest + k) [blank] b) (\<lambda>b. vp_loop t sd rest (dest + k + 1) (res + k + 1) b s))))"
      by (intro tied_bind3 [OF tied_pick_into [OF c]] tied_value2 tied_value less.hyps l)
    then show "tied tuple3 A (length syn) (\<lambda>s. Option.bind (pick_into (vp_source t (hd tok)) sd dest b s) (\<lambda>(i, b, s).
        Option.bind (case tl tok of [] \<Rightarrow> Some (i, b) | c # _ \<Rightarrow> map_option (Pair (i + 1)) (buf_put (dest + i + 1) [c] b)) (\<lambda>(k, b).
        Option.bind (buf_put (dest + k) [blank] b) (\<lambda>b. vp_loop t sd rest (dest + k + 1) (res + k + 1) b s))))"
      using l by (auto elim!: tied_le)
  qed
qed

lemma tied_txt_np:
  assumes c: "0 \<le> sd" "sd \<le> 47" "nat sd \<in> A"
  shows "tied tuple3 A 13 (\<lambda>s. txt_np t sd dest b s)"
proof -
  have "tied tuple3 A (Suc 12) (\<lambda>s. txt_np t sd dest b s)"
    unfolding txt_np_def by (rule tied_form [OF c], rule tied_le [OF tied_np_loop [OF c]])
  then show ?thesis by simp
qed

lemma tied_txt_vp:
  assumes c: "0 \<le> sd" "sd \<le> 47" "nat sd \<in> A"
  shows "tied tuple3 A 13 (\<lambda>s. txt_vp t sd dest b s)"
proof -
  have "tied tuple3 A (Suc 12) (\<lambda>s. txt_vp t sd dest b s)"
    unfolding txt_vp_def by (rule tied_form [OF c], rule tied_le [OF tied_vp_loop [OF c]])
  then show ?thesis by simp
qed

lemma tied_map_Pair: "tied tuple3 A n f \<Longrightarrow> tied tuple4 A n (\<lambda>s. map_option (Pair d) (f s))"
proof -
  assume f: "tied tuple3 A n f"
  have "tied tuple4 A (n + 0) (\<lambda>s. Option.bind (f s) (\<lambda>(x, y, s). Some (d, x, y, s)))"
    by (rule tied_bind3 [OF f tied_Some(3)])
  moreover have "map_option (Pair d) (f s) = Option.bind (f s) (\<lambda>(x, y, s). Some (d, x, y, s))" for s
    by (cases "f s") auto
  ultimately show ?thesis by simp
qed

lemma tied_sent_part:
  assumes c: "0 \<le> sd" "sd \<le> 47" "nat sd \<in> A"
  shows "tied tuple4 A 14 (\<lambda>s. sent_part t sd ch dest len b s)"
proof -
  have "tied tuple4 A (max 13 (max 13 (max (1 + (13 + 0)) (max (max 0 1) 0)))) (\<lambda>s. sent_part t sd ch dest len b s)"
    unfolding sent_part_def
    by (intro tied_if tied_map_Pair tied_txt_vp tied_txt_np tied_bind3 tied_value tied_pick_into tied_Some tied_None c)
  then show ?thesis by simp
qed

lemma tied_sent_loop:
  assumes c: "0 \<le> sd" "sd \<le> 47" "nat sd \<in> A"
  shows "tied tuple3 A (14 * length syn) (\<lambda>s. sent_loop t sd syn dest res len b s)"
proof (induction "length syn" arbitrary: syn dest res len b rule: less_induct)
  case less
  show ?case
  proof (cases "dropWhile (\<lambda>c. c = blank) syn")
    case Nil
    have "tied tuple3 A 0 (\<lambda>s. Option.bind (buf_put dest [NUL] b) (\<lambda>b. Some (int res - 1, b, s)))"
      by (intro tied_value tied_Some)
    moreover have "map_option (\<lambda>b. (int res - 1, b, s)) (buf_put dest [NUL] b) =
        Option.bind (buf_put dest [NUL] b) (\<lambda>b. Some (int res - 1, b, s))" for s :: rng
      by (cases "buf_put dest [NUL] b") simp_all
    ultimately show ?thesis
      by (intro tied_cong [OF sent_loop.simps] tied_le [where n = 0 and m = "14 * length syn"]) (simp_all add: Nil)
  next
    case (Cons x rest)
    note l = dropWhile_Cons_shrinks [OF Cons]
    have "tied tuple3 A (14 + 14 * length rest) (\<lambda>s. Option.bind (sent_part t sd x dest len b s) (\<lambda>(dest, len, b, s).
        Option.bind (sent_punct rest (dest + len) (res + len) b) (\<lambda>(dest, res, b). sent_loop t sd rest dest res len b s)))"
      by (intro tied_bind4 [OF tied_sent_part [OF c]] tied_value3 less.hyps l)
    then show ?thesis
      using l by (intro tied_cong [OF sent_loop.simps]) (auto simp: Cons elim!: tied_le)
  qed
qed

lemma tied_txt_sentence:
  assumes c: "0 \<le> sd" "sd \<le> 47" "nat sd \<in> A"
  shows "tied tuple3 A 169 (\<lambda>s. txt_sentence t sd b s)"
proof -
  have "tied tuple3 A (Suc 168) (\<lambda>s. txt_sentence t sd b s)"
    unfolding txt_sentence_def by (rule tied_form [OF c], rule tied_le [OF tied_sent_loop [OF c]]) simp
  then show ?thesis by simp
qed

text \<open>A sum type counts like an option.\<close>

definition right :: "'a + 'b \<Rightarrow> 'b option" where
  "right r = (case r of Inl _ \<Rightarrow> None | Inr x \<Rightarrow> Some x)"

lemma right_simps: "right (Inl a) = None" "right (Inr x) = Some x" "right (case v of None \<Rightarrow> Inl a | Some r \<Rightarrow> Inr r) = v"
  "right (if P then q else r) = (if P then right q else right r)"
  by (simp_all add: right_def split: option.split)

lemma text_step_right:
  "right (text_step t sd needed p tgt b s) = Option.bind (txt_sentence t sd b s) (\<lambda>(s_len, b, s). if s_len < 0 then None
      else if needed \<ge> s_len + 1 then do {
             x \<leftarrow> c_string b;
             tgt \<leftarrow> buf_put p (x @ [NUL]) tgt;
             tgt \<leftarrow> buf_put (p + nat s_len) [blank] tgt;
             Some (s_len + 1, tgt, b, s) }
           else do {
             b \<leftarrow> buf_put (nat needed) [NUL] b;
             x \<leftarrow> c_string b;
             tgt \<leftarrow> buf_put p (x @ [NUL]) tgt;
             Some (needed, tgt, b, s) })"
  by (cases "txt_sentence t sd b s") (simp_all add: text_step_def right_simps split_beta)

lemma tied_text_step:
  assumes c: "0 \<le> sd" "sd \<le> 47" "nat sd \<in> A"
  shows "tied tuple4 A 169 (\<lambda>s. right (text_step t sd needed p tgt b s))"
proof -
  have "tied tuple4 A (169 + max 0 (max 0 0)) (\<lambda>s. right (text_step t sd needed p tgt b s))"
    unfolding text_step_right by (intro tied_bind3 [OF tied_txt_sentence [OF c]] tied_if tied_value tied_Some tied_None)
  then show ?thesis by simp
qed

lemma text_loop_right:
  assumes "wordlen < len"
  shows "right (text_loop t sd len wordlen p tgt b s) = Option.bind (right (text_step t sd (len - wordlen) p tgt b s))
    (\<lambda>(k, tgt, b, s). if 0 < k then right (text_loop t sd len (wordlen + k) (p + nat k) tgt b s) else None)"
  using assms text_step_grows [of t sd "len - wordlen" p tgt b s]
  by (subst text_loop.simps) (cases "text_step t sd (len - wordlen) p tgt b s"; fastforce simp: right_simps)

lemma tied_text_loop:
  assumes c: "0 \<le> sd" "sd \<le> 47" "nat sd \<in> A"
  shows "tied tuple3 A (169 * nat (len - wordlen)) (\<lambda>s. right (text_loop t sd len wordlen p tgt b s))"
proof (induction "nat (len - wordlen)" arbitrary: wordlen p tgt b rule: less_induct)
  case less
  show ?case
  proof (cases "wordlen < len")
    case True
    let ?m = "169 * (nat (len - wordlen) - 1)"
    have "tied tuple3 A (169 + max ?m 0) (\<lambda>s. right (text_loop t sd len wordlen p tgt b s))"
      unfolding text_loop_right [OF True]
      by (intro tied_bind4 [OF tied_text_step [OF c]] tied_if tied_None, rule tied_le [OF less.hyps]) (use True in auto)
    moreover have "169 + max ?m 0 = 169 * nat (len - wordlen)" using True by (simp add: right_diff_distrib' algebra_simps)
    ultimately show ?thesis by simp
  next
    case False
    have "tied tuple3 A 0 (\<lambda>s. Option.bind (buf_put p [NUL] tgt) (\<lambda>tgt. Some (wordlen, tgt, s)))"
      by (intro tied_value tied_Some)
    moreover have "right (text_loop t sd len wordlen p tgt b s) = Option.bind (buf_put p [NUL] tgt) (\<lambda>tgt. Some (wordlen, tgt, s))" for s
      using False by (subst text_loop.simps) (cases "buf_put p [NUL] tgt"; simp add: right_simps)
    ultimately show ?thesis using False by simp
  qed
qed

text \<open>The comments of the workload are at most 198 characters long.\<close>

lemma tied_comment:
  assumes c: "0 \<le> sd" "sd \<le> 47" "nat sd \<in> A" and r: "fst (text_range avg) \<le> snd (text_range avg)" "0 \<le> fst (text_range avg)"
    "snd (text_range avg) \<le> 198"
  shows "tied tuple3 A 33463 (\<lambda>s. TEXT e m avg sd s)"
proof -
  let ?f = "\<lambda>len s. right (text_loop (h_text e) sd len 0 0 (take (m + 1) (h_comment e)) (h_sentence e) s)"
  have "tied tuple3 A (Suc (169 * 198)) (\<lambda>s. let (len, s) = dss_random (fst (text_range avg)) (snd (text_range avg)) sd s in ?f len s)"
    by (rule tied_draw_in [OF c r(1)]) (use r in \<open>auto intro: tied_le [OF tied_text_loop [OF c]]\<close>)
  moreover have "TEXT e m avg sd s = (let (len, s) = dss_random (fst (text_range avg)) (snd (text_range avg)) sd s in ?f len s)" for s
    by (simp add: TEXT_def dbg_text_def text_range_def right_def split_beta Let_def)
  ultimately show ?thesis by simp
qed

lemma tied_TEXT:
  assumes "0 \<le> sd" "sd \<le> 47" "nat sd \<in> A" "avg \<in> {14, 27, 49, 63, 72, 73, 124}" "\<And>k b. tied q A n (f k b)"
  shows "tied q A (33463 + n) (\<lambda>s. Option.bind (TEXT e m avg sd s) (\<lambda>(k, b, s). f k b s))"
  using assms(4) by (intro tied_bind3 [OF tied_comment [OF assms(1-3)] assms(5)]) (auto simp: text_ranges)

lemma tied_comment_of:
  assumes "0 \<le> sd" "sd \<le> 47" "nat sd \<in> A" "avg \<in> {14, 27, 49, 63, 72, 73, 124}" "\<And>k b. tied q A n (f k b)"
  shows "tied q A (33463 + n) (\<lambda>s. Option.bind (comment_of e m avg sd s) (\<lambda>((k, b), s). f k b s))"
proof -
  have "tied q A (33463 + n) (\<lambda>s. Option.bind (TEXT e m avg sd s) (\<lambda>(k, b, s). Option.bind (c_string b) (\<lambda>x. f k x s)))"
    by (intro tied_TEXT [OF assms(1-4)] tied_value assms(5))
  moreover have "Option.bind (comment_of e m avg sd s) (\<lambda>((k, b), s). f k b s) =
      Option.bind (TEXT e m avg sd s) (\<lambda>(k, b, s). Option.bind (c_string b) (\<lambda>x. f k x s))" for s
    by (cases "TEXT e m avg sd s") (auto simp: comment_of_def split_beta)
  ultimately show ?thesis by simp
qed

end
