(* ===== verification/Tpch_Print.thy ===== *)
theory Tpch_Print
  imports Tpch_Rows
begin

text \<open>
  \<open>print.c\<close> in the branch for the workload TPC-H: the texts of the rows that the \<open>pr_\<close> routines write, and the
  checksums of the \<open>vrf_\<close> routines.

  Shown: the texts of rows made by the builders split at the separators into their columns, comments included; the
  macro for money assigns to the checksum instead of adding, so that the checksum of a table with money covers only what
  follows the last amount.
\<close>

subsection \<open>The text of a row\<close>

definition tpch_C_NAME_LEN :: nat where [simp]: "tpch_C_NAME_LEN = 18"
definition tpch_P_NAME_LEN :: nat where [simp]: "tpch_P_NAME_LEN = 55"
definition tpch_P_MFG_LEN :: nat where [simp]: "tpch_P_MFG_LEN = 25"
definition tpch_P_TYPE_LEN :: nat where [simp]: "tpch_P_TYPE_LEN = 25"
definition tpch_O_OPRIO_LEN :: nat where [simp]: "tpch_O_OPRIO_LEN = 15"
definition C_MSEG_LEN :: nat where [simp]: "C_MSEG_LEN = 10"
definition O_CLRK_LEN :: nat where [simp]: "O_CLRK_LEN = 15"
definition L_INST_LEN :: nat where [simp]: "L_INST_LEN = 25"
definition L_SMODE_LEN :: nat where [simp]: "L_SMODE_LEN = 10"
definition NATION_LEN :: nat where [simp]: "NATION_LEN = 25"
definition REGION_LEN :: nat where [simp]: "REGION_LEN = 25"

text \<open>\<open>(columnar) ? (long)(ceil(len * V_STR_HGH)) : n\<close>\<close>

definition vstr_width :: "bool \<Rightarrow> int \<Rightarrow> int \<Rightarrow> nat" where
  "vstr_width col len n = (if col then nat \<lceil>dmul (d_of_long len) V_STR_HGH\<rceil> else nat n)"

text \<open>The last column has the flag 0, which asks for no separator; it counts only with \<open>EOL_HANDLING\<close>.\<close>

definition PR_VSTR_LAST :: "bool \<Rightarrow> string \<Rightarrow> nat \<Rightarrow> string" where
  "PR_VSTR_LAST col s len = dbg_print col (DT_STR s) len 0"

definition tpch_cust_text :: "bool \<Rightarrow> tpch_customer_t \<Rightarrow> string" where
  "tpch_cust_text col c =
     PR_STRT @ PR_INT col (hc_custkey c) @ PR_VSTR col (hc_name c) tpch_C_NAME_LEN @
     PR_VSTR col (hc_address c) (vstr_width col tpch_C_ADDR_LEN (hc_alen c)) @ PR_INT col (hc_nation_code c) @
     PR_STR col (hc_phone c) PHONE_LEN @ PR_MONEY col (hc_acctbal c) @ PR_STR col (hc_mktsegment c) C_MSEG_LEN @
     PR_VSTR_LAST col (hc_comment c) (vstr_width col C_CMNT_LEN (hc_clen c)) @ PR_END"

definition tpch_order_text :: "bool \<Rightarrow> tpch_order_t \<Rightarrow> string" where
  "tpch_order_text col ord =
     PR_STRT @ PR_HUGE col (hr_okey ord) @ PR_INT col (hr_custkey ord) @ PR_CHR col (hr_orderstatus ord) @
     PR_MONEY col (hr_totalprice ord) @ PR_STR col (hr_odate ord) DATE_LEN @ PR_STR col (hr_opriority ord) tpch_O_OPRIO_LEN @
     PR_STR col (hr_clerk ord) O_CLRK_LEN @ PR_INT col (hr_spriority ord) @
     PR_VSTR_LAST col (hr_comment ord) (vstr_width col O_CMNT_LEN (hr_clen ord)) @ PR_END"

definition tpch_line_text :: "bool \<Rightarrow> line_t \<Rightarrow> string" where
  "tpch_line_text col l =
     PR_STRT @ PR_HUGE col (hl_okey l) @ PR_INT col (hl_partkey l) @ PR_INT col (hl_suppkey l) @ PR_INT col (hl_lcnt l) @
     PR_INT col (hl_quantity l) @ PR_MONEY col (hl_eprice l) @ PR_MONEY col (hl_discount l) @ PR_MONEY col (hl_tax l) @
     PR_CHR col (hl_rflag l) @ PR_CHR col (hl_lstatus l) @ PR_STR col (hl_sdate l) DATE_LEN @ PR_STR col (hl_cdate l) DATE_LEN @
     PR_STR col (hl_rdate l) DATE_LEN @ PR_STR col (hl_shipinstruct l) L_INST_LEN @ PR_STR col (hl_shipmode l) L_SMODE_LEN @
     PR_VSTR_LAST col (hl_comment l) (vstr_width col L_CMNT_LEN (hl_clen l)) @ PR_END"

definition tpch_lines_text :: "bool \<Rightarrow> tpch_order_t \<Rightarrow> string" where
  "tpch_lines_text col ord = concat (map (tpch_line_text col) (take (nat (hr_lines ord)) (hr_l ord)))"

definition tpch_part_text :: "bool \<Rightarrow> tpch_part_t \<Rightarrow> string" where
  "tpch_part_text col p =
     PR_STRT @ PR_INT col (hp_partkey p) @ PR_VSTR col (hp_name p) tpch_P_NAME_LEN @ PR_STR col (hp_mfgr p) tpch_P_MFG_LEN @
     PR_STR col (hp_brand p) P_BRND_LEN @ PR_VSTR col (hp_type p) (if col then tpch_P_TYPE_LEN else nat (hp_tlen p)) @
     PR_INT col (hp_size p) @ PR_STR col (hp_container p) P_CNTR_LEN @ PR_MONEY col (hp_retailprice p) @
     PR_VSTR_LAST col (hp_comment p) (vstr_width col P_CMNT_LEN (hp_clen p)) @ PR_END"

definition psupp_text :: "bool \<Rightarrow> partsupp_t \<Rightarrow> string" where
  "psupp_text col ps =
     PR_STRT @ PR_INT col (ps_partkey ps) @ PR_INT col (ps_suppkey ps) @ PR_INT col (ps_qty ps) @ PR_MONEY col (ps_scost ps) @
     PR_VSTR_LAST col (ps_comment ps) (vstr_width col PS_CMNT_LEN (ps_clen ps)) @ PR_END"

definition psupps_text :: "bool \<Rightarrow> tpch_part_t \<Rightarrow> string" where
  "psupps_text col p = concat (map (psupp_text col) (take (nat SUPP_PER_PART) (hp_s p)))"

definition tpch_supp_text :: "bool \<Rightarrow> tpch_supplier_t \<Rightarrow> string" where
  "tpch_supp_text col s =
     PR_STRT @ PR_INT col (hs_suppkey s) @ PR_STR col (hs_name s) S_NAME_LEN @
     PR_VSTR col (hs_address s) (vstr_width col tpch_S_ADDR_LEN (hs_alen s)) @ PR_INT col (hs_nation_code s) @
     PR_STR col (hs_phone s) PHONE_LEN @ PR_MONEY col (hs_acctbal s) @
     PR_VSTR_LAST col (hs_comment s) (vstr_width col S_CMNT_LEN (hs_clen s)) @ PR_END"

definition nation_text :: "bool \<Rightarrow> code_t \<Rightarrow> string" where
  "nation_text col c =
     PR_STRT @ PR_INT col (cd_code c) @ PR_STR col (cd_text c) NATION_LEN @ PR_INT col (cd_join c) @
     PR_VSTR_LAST col (cd_comment c) (vstr_width col N_CMNT_LEN (cd_clen c)) @ PR_END"

definition region_text :: "bool \<Rightarrow> code_t \<Rightarrow> string" where
  "region_text col c =
     PR_STRT @ PR_INT col (cd_code c) @ PR_STR col (cd_text c) REGION_LEN @
     PR_VSTR_LAST col (cd_comment c) (vstr_width col R_CMNT_LEN (cd_clen c)) @ PR_END"

subsection \<open>The columns\<close>

definition money :: "int \<Rightarrow> string" where
  "money n = (if n < 0 then ''-'' else []) @ fmt_d (\<bar>n\<bar> div 100) @ ''.'' @ fmt_0d 2 (\<bar>n\<bar> mod 100)"

lemma money_text: "\<bar>n\<bar> < 2 ^ 31 \<Longrightarrow> dbg_field False (DT_MONEY n) 0 = money n"
  by (auto simp: dbg_field_def money_def c_int_id sdiv_nonneg smod_nonneg Let_def)

definition tpch_cust_fields :: "tpch_customer_t \<Rightarrow> string list" where
  "tpch_cust_fields c = [fmt_d (hc_custkey c), hc_name c, hc_address c, fmt_d (hc_nation_code c), hc_phone c, money (hc_acctbal c),
     hc_mktsegment c, hc_comment c]"

definition tpch_order_fields :: "tpch_order_t \<Rightarrow> string list" where
  "tpch_order_fields r = [fmt_d (huge_value (hr_okey r)), fmt_d (hr_custkey r), [hr_orderstatus r], money (hr_totalprice r),
     hr_odate r, hr_opriority r, hr_clerk r, fmt_d (hr_spriority r), hr_comment r]"

definition tpch_line_fields :: "line_t \<Rightarrow> string list" where
  "tpch_line_fields l = [fmt_d (huge_value (hl_okey l)), fmt_d (hl_partkey l), fmt_d (hl_suppkey l), fmt_d (hl_lcnt l),
     fmt_d (hl_quantity l), money (hl_eprice l), money (hl_discount l), money (hl_tax l), [hl_rflag l], [hl_lstatus l],
     hl_sdate l, hl_cdate l, hl_rdate l, hl_shipinstruct l, hl_shipmode l, hl_comment l]"

definition tpch_part_fields :: "tpch_part_t \<Rightarrow> string list" where
  "tpch_part_fields p = [fmt_d (hp_partkey p), hp_name p, hp_mfgr p, hp_brand p, hp_type p, fmt_d (hp_size p), hp_container p,
     money (hp_retailprice p), hp_comment p]"

definition psupp_fields :: "partsupp_t \<Rightarrow> string list" where
  "psupp_fields ps = [fmt_d (ps_partkey ps), fmt_d (ps_suppkey ps), fmt_d (ps_qty ps), money (ps_scost ps), ps_comment ps]"

definition tpch_supp_fields :: "tpch_supplier_t \<Rightarrow> string list" where
  "tpch_supp_fields s = [fmt_d (hs_suppkey s), hs_name s, hs_address s, fmt_d (hs_nation_code s), hs_phone s, money (hs_acctbal s), hs_comment s]"

definition nation_fields :: "code_t \<Rightarrow> string list" where
  "nation_fields c = [fmt_d (cd_code c), cd_text c, fmt_d (cd_join c), cd_comment c]"

definition region_fields :: "code_t \<Rightarrow> string list" where
  "region_fields c = [fmt_d (cd_code c), cd_text c, cd_comment c]"

lemmas tpch_pr_defs = PR_STR_def PR_VSTR_def PR_VSTR_LAST_def PR_INT_def PR_HUGE_def PR_MONEY_def PR_CHR_def dbg_print_def row_text_def

lemma dbg_field_plain [simp]:
  "dbg_field False (DT_STR s) k = s" "dbg_field False (DT_INT n) k = fmt_d n" "dbg_field False (DT_CHR c) k = [c]"
  by (simp_all add: dbg_field_def)

lemma tpch_cust_row: "\<bar>hc_acctbal c\<bar> < 2 ^ 31 \<Longrightarrow> tpch_cust_text False c = row_text (tpch_cust_fields c)"
  by (simp add: tpch_cust_text_def tpch_cust_fields_def tpch_pr_defs money_text)

lemma tpch_supp_row: "\<bar>hs_acctbal s\<bar> < 2 ^ 31 \<Longrightarrow> tpch_supp_text False s = row_text (tpch_supp_fields s)"
  by (simp add: tpch_supp_text_def tpch_supp_fields_def tpch_pr_defs money_text)

lemma tpch_part_row: "\<bar>hp_retailprice p\<bar> < 2 ^ 31 \<Longrightarrow> tpch_part_text False p = row_text (tpch_part_fields p)"
  by (simp add: tpch_part_text_def tpch_part_fields_def tpch_pr_defs money_text)

lemma psupp_row: "\<bar>ps_scost ps\<bar> < 2 ^ 31 \<Longrightarrow> psupp_text False ps = row_text (psupp_fields ps)"
  by (simp add: psupp_text_def psupp_fields_def tpch_pr_defs money_text)

lemma tpch_order_row: "huge_ok (hr_okey r) \<Longrightarrow> \<bar>hr_totalprice r\<bar> < 2 ^ 31 \<Longrightarrow> tpch_order_text False r = row_text (tpch_order_fields r)"
  by (simp add: tpch_order_text_def tpch_order_fields_def tpch_pr_defs money_text huge_text)

lemma tpch_line_row: "huge_ok (hl_okey l) \<Longrightarrow> \<bar>hl_eprice l\<bar> < 2 ^ 31 \<Longrightarrow> \<bar>hl_discount l\<bar> < 2 ^ 31 \<Longrightarrow> \<bar>hl_tax l\<bar> < 2 ^ 31 \<Longrightarrow>
    tpch_line_text False l = row_text (tpch_line_fields l)"
  by (simp add: tpch_line_text_def tpch_line_fields_def tpch_pr_defs money_text huge_text)

lemma nation_row: "nation_text False c = row_text (nation_fields c)"
  by (simp add: nation_text_def nation_fields_def tpch_pr_defs)

lemma region_row: "region_text False c = row_text (region_fields c)"
  by (simp add: region_text_def region_fields_def tpch_pr_defs)

subsection \<open>Columns without separators\<close>

definition henv_clean :: "henv \<Rightarrow> bool" where
  "henv_clean e \<longleftrightarrow>
     (\<forall>d \<in> {nations (be_dists e), regions (be_dists e), o_priority_set (be_dists e), l_smode_set (be_dists e), c_mseg_set (be_dists e),
         colors (be_dists e), p_types_set (be_dists e), p_cntr_set (be_dists e), l_instruct_set e, l_rflag_set e}.
        \<forall>m \<in> set (dlist d). clean (sm_text m)) \<and>
     (\<forall>m \<in> set (dlist (l_rflag_set e)). sm_text m \<noteq> []) \<and>
     (\<forall>s \<in> set (asc_date e). clean s) \<and> CHR ''|'' \<notin> letters (h_text e) \<and> CHR 0x0A \<notin> letters (h_text e)"

lemma comment_clean:
  assumes "henv_ok e" "henv_clean e" "comment_ok e avg (n, x)"
  shows "clean x"
proof -
  obtain ss where x: "set ss \<subseteq> sentences (h_text e)" "x = take (nat n) (running_text ss)" using assms(3) by (auto simp: comment_ok_def)
  have "text_ok (h_text e)" using assms(1) by (simp add: henv_ok_def)
  from running_text_letters [OF this x(1)] show ?thesis using assms(2) by (auto simp: x(2) clean_def henv_clean_def)
qed

lemma noted_in_clean: "clean x \<Longrightarrow> noted_in x y \<Longrightarrow> clean y"
proof -
  have o: "clean x \<Longrightarrow> clean t \<Longrightarrow> clean (overlay p t x)" for p t x using overlay_set [of p t x] by (auto simp: clean_def)
  show "clean x \<Longrightarrow> noted_in x y \<Longrightarrow> clean y" by (auto simp: noted_in_def note_text_def intro!: o)
qed

lemma address_clean: "address_ok n a \<Longrightarrow> clean a"
  by (auto simp: address_ok_def intro: clean_alpha)

lemma money_clean [simp]: "clean (money n)"
  by (simp add: money_def)

lemma phone_clean: "phone_ok i ph \<Longrightarrow> clean ph"
  by (auto simp: phone_ok_def)

lemma member_clean: "henv_clean e \<Longrightarrow> d \<in> {nations (be_dists e), regions (be_dists e), o_priority_set (be_dists e), l_smode_set (be_dists e),
    c_mseg_set (be_dists e), colors (be_dists e), p_types_set (be_dists e), p_cntr_set (be_dists e), l_instruct_set e, l_rflag_set e} \<Longrightarrow>
    x \<in> sm_text ` set (dlist d) \<Longrightarrow> clean x"
  by (auto simp: henv_clean_def)

lemma five_words_clean:
  assumes "henv_clean e" "five_words (colors (be_dists e)) w"
  shows "clean w"
proof -
  obtain js where j: "set js \<subseteq> {..<length (dlist (colors (be_dists e)))}"
    "w = butlast (concat (map (\<lambda>j. sm_text (dlist (colors (be_dists e)) ! j) @ '' '') js))"
    using assms(2) by (auto simp: five_words_def)
  have "clean (concat (map (\<lambda>j. sm_text (dlist (colors (be_dists e)) ! j) @ '' '') js))"
    using j(1) by (induction js) (use assms(1) in \<open>auto simp: henv_clean_def\<close>)
  then show ?thesis unfolding j(2) by (rule clean_sub) (use in_set_butlastD in fastforce)
qed

lemma tpch_cust_clean: "henv_ok e \<Longrightarrow> henv_clean e \<Longrightarrow> tpch_cust_ok e n c \<Longrightarrow> list_all clean (tpch_cust_fields c)"
  using comment_clean [of e 73 "hc_clen c" "hc_comment c"] member_clean [of e "c_mseg_set (be_dists e)" "hc_mktsegment c"]
  by (auto simp: tpch_cust_ok_def tpch_cust_fields_def address_clean phone_clean)

lemma tpch_supp_clean: "henv_ok e \<Longrightarrow> henv_clean e \<Longrightarrow> tpch_supp_ok e n c \<Longrightarrow> list_all clean (tpch_supp_fields c)"
  using comment_clean [of e 63 "hs_clen c"] noted_in_clean [of _ "hs_comment c"]
  by (auto simp: tpch_supp_ok_def tpch_supp_fields_def address_clean phone_clean)

lemma psupp_clean: "henv_ok e \<Longrightarrow> henv_clean e \<Longrightarrow> partsupp_ok e n ps \<Longrightarrow> list_all clean (psupp_fields ps)"
  using comment_clean [of e 124 "ps_clen ps" "ps_comment ps"] by (simp add: partsupp_ok_def psupp_fields_def)

lemma tpch_part_clean: "henv_ok e \<Longrightarrow> henv_clean e \<Longrightarrow> tpch_part_ok e n p \<Longrightarrow> list_all clean (tpch_part_fields p)"
  using comment_clean [of e 14 "hp_clen p" "hp_comment p"] five_words_clean [of e "hp_name p"]
    member_clean [of e "p_types_set (be_dists e)" "hp_type p"] member_clean [of e "p_cntr_set (be_dists e)" "hp_container p"]
  by (auto simp: tpch_part_ok_def tpch_part_fields_def)

lemma code_clean:
  "henv_ok e \<Longrightarrow> henv_clean e \<Longrightarrow> 1 \<le> n \<Longrightarrow> n \<le> int (length (dlist d)) \<Longrightarrow> d \<in> {nations (be_dists e), regions (be_dists e)} \<Longrightarrow>
   code_ok e d n c \<Longrightarrow> list_all clean (nation_fields c) \<and> list_all clean (region_fields c)"
  using comment_clean [of e 72 "cd_clen c" "cd_comment c"] member_clean [of e d "sm_text (dlist d ! nat (n - 1))"]
  by (auto simp: code_ok_def nation_fields_def region_fields_def)

lemma dates_clean:
  assumes e: "henv_ok e" "henv_clean e" and d: "STARTDATE \<le> td" "td \<le> STARTDATE + 2405" "line_dates_ok e td l"
  shows "clean (hl_sdate l)" "clean (hl_cdate l)" "clean (hl_rdate l)" "clean [hl_rflag l]" "clean [hl_lstatus l]"
proof -
  have a: "clean (asc_date e ! nat (x - STARTDATE))" if "STARTDATE \<le> x" "x \<le> STARTDATE + 2556" for x
    using e that by (simp add: henv_clean_def henv_ok_def)
  have flag: "clean [c]" if f: "c \<in> (\<lambda>m. hd (sm_text m @ [NUL])) ` set (dlist (l_rflag_set e))" for c
  proof -
    obtain m where m: "m \<in> set (dlist (l_rflag_set e))" "c = hd (sm_text m @ [NUL])" using f by blast
    then have "clean (sm_text m)" "sm_text m \<noteq> []" using e(2) by (simp_all add: henv_clean_def)
    then show ?thesis using m(2) by (cases "sm_text m") simp_all
  qed
  obtain so co ro js jr where l: "1 \<le> so" "so \<le> 121" "30 \<le> co" "co \<le> 90" "1 \<le> ro" "ro \<le> 30"
    "hl_sdate l = asc_date e ! nat (td + so - STARTDATE)" "hl_cdate l = asc_date e ! nat (td + co - STARTDATE)"
    "hl_rdate l = asc_date e ! nat (td + so + ro - STARTDATE)" "hl_lstatus l = (if js \<le> CURRENTDATE then CHR ''F'' else CHR ''O'')"
    "if jr \<le> CURRENTDATE then hl_rflag l \<in> (\<lambda>m. hd (sm_text m @ [NUL])) ` set (dlist (l_rflag_set e)) else hl_rflag l = CHR ''N''"
    using d(3) unfolding line_dates_ok_def by blast
  show "clean (hl_sdate l)" "clean (hl_cdate l)" "clean (hl_rdate l)" unfolding l(7-9) using d(1,2) l(1-6) by (intro a; simp)+
  show "clean [hl_rflag l]" using l(11) flag by (simp split: if_splits)
  show "clean [hl_lstatus l]" unfolding l(10) by simp
qed

lemma tpch_line_clean:
  assumes "henv_ok e" "henv_clean e" "STARTDATE \<le> td" "td \<le> STARTDATE + 2405" "tpch_line_ok e okey td l"
  shows "list_all clean (tpch_line_fields l)"
  using dates_clean [OF assms(1-4), of l] comment_clean [OF assms(1,2), of 27 "hl_clen l" "hl_comment l"] assms(5)
    member_clean [OF assms(2), of "l_instruct_set e" "hl_shipinstruct l"] member_clean [OF assms(2), of "l_smode_set (be_dists e)" "hl_shipmode l"]
  by (simp add: tpch_line_ok_def tpch_line_fields_def)

subsection \<open>Reading a file back\<close>

text \<open>A row that a builder makes from some consistent state of the streams.\<close>

definition built :: "(rng \<Rightarrow> ('a \<times> rng) option) \<Rightarrow> 'a \<Rightarrow> bool" where
  "built mk r \<longleftrightarrow> (\<exists>s s'. rng_ok s \<and> mk s = Some (r, s'))"

lemma built_yields: "built mk r \<Longrightarrow> (\<And>s. rng_ok s \<Longrightarrow> yields (mk s) P) \<Longrightarrow> P r"
  by (fastforce simp: built_def yields_def)

text \<open>A file of rows whose texts are those of clean columns.\<close>

lemma read_rows_of:
  assumes "\<And>r. r \<in> set rs \<Longrightarrow> tx r = row_text (fs r) \<and> list_all clean (fs r)"
  shows "read_rows (concat (map tx rs)) = map fs rs"
proof -
  have "map tx rs = map row_text (map fs rs)" using assms by simp
  moreover have "list_all (list_all clean) (map fs rs)" using assms by (simp add: list_all_iff)
  ultimately show ?thesis using read_rows_text [of "map fs rs"] by (simp only:)
qed

lemma read_nested_rows:
  assumes "\<And>r x. r \<in> set rs \<Longrightarrow> x \<in> set (ps r) \<Longrightarrow> tx x = row_text (fs x) \<and> list_all clean (fs x)"
    and "\<And>r. r \<in> set rs \<Longrightarrow> ptx r = concat (map tx (ps r))"
  shows "read_rows (concat (map ptx rs)) = map fs (concat (map ps rs))"
proof -
  have "concat (map ptx rs) = concat (map tx (concat (map ps rs)))"
    using assms(2) by (induction rs) simp_all
  then show ?thesis using assms(1) by (simp only:) (rule read_rows_of, auto)
qed

lemma tpch_cust_line: "henv_ok e \<Longrightarrow> henv_clean e \<Longrightarrow> tpch_cust_ok e n c \<Longrightarrow>
    tpch_cust_text False c = row_text (tpch_cust_fields c) \<and> list_all clean (tpch_cust_fields c)"
  by (rule conjI [OF tpch_cust_row tpch_cust_clean]) (auto simp: tpch_cust_ok_def)

lemma tpch_supp_line: "henv_ok e \<Longrightarrow> henv_clean e \<Longrightarrow> tpch_supp_ok e n c \<Longrightarrow>
    tpch_supp_text False c = row_text (tpch_supp_fields c) \<and> list_all clean (tpch_supp_fields c)"
  by (rule conjI [OF tpch_supp_row tpch_supp_clean]) (auto simp: tpch_supp_ok_def)

lemma tpch_part_line: "henv_ok e \<Longrightarrow> henv_clean e \<Longrightarrow> 0 \<le> n \<Longrightarrow> tpch_part_ok e n p \<Longrightarrow>
    tpch_part_text False p = row_text (tpch_part_fields p) \<and> list_all clean (tpch_part_fields p)"
  using rpb_bounds [of n] by (intro conjI tpch_part_row tpch_part_clean) (auto simp: tpch_part_ok_def)

lemma psupp_line: "henv_ok e \<Longrightarrow> henv_clean e \<Longrightarrow> partsupp_ok e n ps \<Longrightarrow>
    psupp_text False ps = row_text (psupp_fields ps) \<and> list_all clean (psupp_fields ps)"
  by (rule conjI [OF psupp_row psupp_clean]) (auto simp: partsupp_ok_def)

lemma tpch_line_bounds:
  assumes "tpch_line_ok e okey td l"
  shows "\<bar>hl_eprice l\<bar> < 2 ^ 31" "\<bar>hl_discount l\<bar> < 2 ^ 31" "\<bar>hl_tax l\<bar> < 2 ^ 31"
proof -
  have l: "1 \<le> hl_partkey l" "1 \<le> hl_quantity l" "hl_quantity l \<le> 50" "hl_eprice l = rpb_routine (hl_partkey l) * hl_quantity l"
    using assms by (simp_all add: tpch_line_ok_def)
  have "hl_eprice l \<le> 209900 * 50" "0 \<le> hl_eprice l"
    unfolding l(4) using rpb_bounds [of "hl_partkey l"] l(1-3) by (intro mult_mono, simp_all)
  then show "\<bar>hl_eprice l\<bar> < 2 ^ 31" by simp
  show "\<bar>hl_discount l\<bar> < 2 ^ 31" "\<bar>hl_tax l\<bar> < 2 ^ 31" using assms by (simp_all add: tpch_line_ok_def)
qed

lemma tpch_order_line:
  assumes e: "henv_ok e" "henv_clean e" and o: "tpch_order_ok e upd n ord" and h: "huge_ok (hr_okey ord)"
  shows "tpch_order_text False ord = row_text (tpch_order_fields ord)" "list_all clean (tpch_order_fields ord)"
    "tpch_lines_text False ord = concat (map (tpch_line_text False) (hr_l ord))"
    "l \<in> set (hr_l ord) \<Longrightarrow> tpch_line_text False l = row_text (tpch_line_fields l) \<and> list_all clean (tpch_line_fields l)"
proof -
  obtain td where td: "STARTDATE \<le> td" "td \<le> STARTDATE + 2405" "hr_odate ord = asc_date e ! nat (td - STARTDATE)"
    "list_all (tpch_line_ok e (hr_okey ord) td) (hr_l ord)" using o by (auto simp: tpch_order_ok_def)
  show "tpch_order_text False ord = row_text (tpch_order_fields ord)"
    by (rule tpch_order_row [OF h]) (use o in \<open>simp add: tpch_order_ok_def\<close>)
  have "clean (hr_odate ord)" using e td(1-3) by (simp add: henv_clean_def henv_ok_def)
  moreover have "clean [hr_orderstatus ord]" using o by (simp add: tpch_order_ok_def status_of_def)
  moreover have "clean (hr_opriority ord)"
    by (rule member_clean [OF e(2), of "o_priority_set (be_dists e)"]) (use o in \<open>simp_all add: tpch_order_ok_def\<close>)
  moreover have "clean (hr_comment ord)"
    by (rule comment_clean [OF e, of 49 "hr_clen ord"]) (use o in \<open>simp add: tpch_order_ok_def\<close>)
  moreover have "clean (hr_clerk ord)" using o by (auto simp: tpch_order_ok_def)
  ultimately show "list_all clean (tpch_order_fields ord)" by (simp add: tpch_order_fields_def)
  have "nat (hr_lines ord) = length (hr_l ord)" using o by (auto simp: tpch_order_ok_def)
  then show "tpch_lines_text False ord = concat (map (tpch_line_text False) (hr_l ord))" by (simp add: tpch_lines_text_def)
  assume "l \<in> set (hr_l ord)"
  then have l: "tpch_line_ok e (hr_okey ord) td l" using td(4) by (simp add: list_all_iff)
  have "hl_okey l = hr_okey ord" using l by (simp add: tpch_line_ok_def)
  then show "tpch_line_text False l = row_text (tpch_line_fields l) \<and> list_all clean (tpch_line_fields l)"
    using tpch_line_row [of l] h tpch_line_bounds [OF l] tpch_line_clean [OF e td(1,2) l] by simp
qed

subsection \<open>The checksums\<close>

text \<open>\<open>VRF_MONEY\<close> assigns: the amount and the eight bytes behind it in the struct, which are an argument here.\<close>

definition VRF_MONEY :: "int \<Rightarrow> int \<Rightarrow> int \<Rightarrow> tdef list \<Rightarrow> tdef list" where
  "VRF_MONEY t d nxt tdefs = tdefs[nat t := (tdefs ! nat t)\<lparr>td_vtotal := (d + nxt) mod 2 ^ 64\<rparr>]"

definition VRF_CHR :: "int \<Rightarrow> char \<Rightarrow> tdef list \<Rightarrow> tdef list" where "VRF_CHR t c tdefs = vrf_add t (schar c) tdefs"

definition tpch_vrf_cust :: "int \<Rightarrow> tpch_customer_t \<Rightarrow> tdef list \<Rightarrow> tdef list" where
  "tpch_vrf_cust nxt c td =
     (let td = VRF_INT CUST (hc_custkey c) td; td = VRF_STR CUST (hc_name c) td; td = VRF_STR CUST (hc_address c) td;
          td = VRF_INT CUST (hc_nation_code c) td; td = VRF_STR CUST (hc_phone c) td; td = VRF_MONEY CUST (hc_acctbal c) nxt td;
          td = VRF_STR CUST (hc_mktsegment c) td
      in VRF_STR CUST (hc_comment c) td)"

definition vrf_order :: "int \<Rightarrow> tpch_order_t \<Rightarrow> tdef list \<Rightarrow> tdef list" where
  "vrf_order nxt r td =
     (let td = VRF_HUGE ORDER (hr_okey r) td; td = VRF_INT ORDER (hr_custkey r) td; td = VRF_CHR ORDER (hr_orderstatus r) td;
          td = VRF_MONEY ORDER (hr_totalprice r) nxt td; td = VRF_STR ORDER (hr_odate r) td; td = VRF_STR ORDER (hr_opriority r) td;
          td = VRF_STR ORDER (hr_clerk r) td; td = VRF_INT ORDER (hr_spriority r) td
      in VRF_STR ORDER (hr_comment r) td)"

text \<open>Behind \<open>eprice\<close> stands \<open>discount\<close>, behind \<open>discount\<close> \<open>tax\<close>, behind \<open>tax\<close> characters.\<close>

definition tpch_vrf_line1 :: "(line_t \<Rightarrow> int) \<Rightarrow> line_t \<Rightarrow> tdef list \<Rightarrow> tdef list" where
  "tpch_vrf_line1 nxt l td =
     (let td = VRF_HUGE LINE (hl_okey l) td; td = VRF_INT LINE (hl_partkey l) td; td = VRF_INT LINE (hl_suppkey l) td;
          td = VRF_INT LINE (hl_lcnt l) td; td = VRF_INT LINE (hl_quantity l) td;
          td = VRF_MONEY LINE (hl_eprice l) (hl_discount l) td; td = VRF_MONEY LINE (hl_discount l) (hl_tax l) td;
          td = VRF_MONEY LINE (hl_tax l) (nxt l) td; td = VRF_CHR LINE (hl_rflag l) td; td = VRF_CHR LINE (hl_lstatus l) td;
          td = VRF_STR LINE (hl_sdate l) td; td = VRF_STR LINE (hl_cdate l) td; td = VRF_STR LINE (hl_rdate l) td;
          td = VRF_STR LINE (hl_shipinstruct l) td; td = VRF_STR LINE (hl_shipmode l) td
      in VRF_STR LINE (hl_comment l) td)"

definition tpch_vrf_line :: "(line_t \<Rightarrow> int) \<Rightarrow> tpch_order_t \<Rightarrow> tdef list \<Rightarrow> tdef list" where
  "tpch_vrf_line nxt r td = foldl (\<lambda>td l. tpch_vrf_line1 nxt l td) td (take (nat (hr_lines r)) (hr_l r))"

definition vrf_order_line :: "int \<Rightarrow> (line_t \<Rightarrow> int) \<Rightarrow> tpch_order_t \<Rightarrow> tdef list \<Rightarrow> tdef list" where
  "vrf_order_line nxt lnxt r td = tpch_vrf_line lnxt r (vrf_order nxt r td)"

definition tpch_vrf_part :: "int \<Rightarrow> tpch_part_t \<Rightarrow> tdef list \<Rightarrow> tdef list" where
  "tpch_vrf_part nxt p td =
     (let td = VRF_INT PART (hp_partkey p) td; td = VRF_STR PART (hp_name p) td; td = VRF_STR PART (hp_mfgr p) td;
          td = VRF_STR PART (hp_brand p) td; td = VRF_STR PART (hp_type p) td; td = VRF_INT PART (hp_size p) td;
          td = VRF_STR PART (hp_container p) td; td = VRF_MONEY PART (hp_retailprice p) nxt td
      in VRF_STR PART (hp_comment p) td)"

definition vrf_psupp1 :: "(partsupp_t \<Rightarrow> int) \<Rightarrow> partsupp_t \<Rightarrow> tdef list \<Rightarrow> tdef list" where
  "vrf_psupp1 nxt ps td =
     (let td = VRF_INT PSUPP (ps_partkey ps) td; td = VRF_INT PSUPP (ps_suppkey ps) td; td = VRF_INT PSUPP (ps_qty ps) td;
          td = VRF_MONEY PSUPP (ps_scost ps) (nxt ps) td
      in VRF_STR PSUPP (ps_comment ps) td)"

definition vrf_psupp :: "(partsupp_t \<Rightarrow> int) \<Rightarrow> tpch_part_t \<Rightarrow> tdef list \<Rightarrow> tdef list" where
  "vrf_psupp nxt p td = foldl (\<lambda>td ps. vrf_psupp1 nxt ps td) td (take (nat SUPP_PER_PART) (hp_s p))"

definition vrf_part_psupp :: "int \<Rightarrow> (partsupp_t \<Rightarrow> int) \<Rightarrow> tpch_part_t \<Rightarrow> tdef list \<Rightarrow> tdef list" where
  "vrf_part_psupp nxt psnxt p td = vrf_psupp psnxt p (tpch_vrf_part nxt p td)"

definition tpch_vrf_supp :: "int \<Rightarrow> tpch_supplier_t \<Rightarrow> tdef list \<Rightarrow> tdef list" where
  "tpch_vrf_supp nxt s td =
     (let td = VRF_INT SUPP (hs_suppkey s) td; td = VRF_STR SUPP (hs_name s) td; td = VRF_STR SUPP (hs_address s) td;
          td = VRF_INT SUPP (hs_nation_code s) td; td = VRF_STR SUPP (hs_phone s) td; td = VRF_MONEY SUPP (hs_acctbal s) nxt td
      in VRF_STR SUPP (hs_comment s) td)"

definition vrf_nation :: "code_t \<Rightarrow> tdef list \<Rightarrow> tdef list" where
  "vrf_nation c td =
     (let td = VRF_INT NATION (cd_code c) td; td = VRF_STR NATION (cd_text c) td; td = VRF_INT NATION (cd_join c) td
      in VRF_STR NATION (cd_comment c) td)"

definition vrf_region :: "code_t \<Rightarrow> tdef list \<Rightarrow> tdef list" where
  "vrf_region c td =
     (let td = VRF_INT REGION (cd_code c) td; td = VRF_STR REGION (cd_text c) td
      in VRF_STR REGION (cd_comment c) td)"

definition vtotal :: "int \<Rightarrow> tdef list \<Rightarrow> int" where
  "vtotal t td = td_vtotal (td ! nat t)"

lemma vrf_length [simp]:
  "length (vrf_add t x td) = length td" "length (VRF_MONEY t x y td) = length td" "length (VRF_STR t w td) = length td"
  "length (VRF_INT t x td) = length td"
proof -
  have "length (foldl (\<lambda>td c. vrf_add t (schar c) td) td w) = length td" by (induction w arbitrary: td) (simp_all add: vrf_add_def)
  then show "length (VRF_STR t w td) = length td" by (simp add: VRF_STR_def)
qed (simp_all add: vrf_add_def VRF_MONEY_def VRF_INT_def)

lemma vtotal_add: "nat t < length td \<Longrightarrow> vtotal t (vrf_add t x td) = (vtotal t td + x) mod 2 ^ 64"
  by (simp add: vtotal_def vrf_add_def)

lemma vtotal_money: "nat t < length td \<Longrightarrow> vtotal t (VRF_MONEY t d nxt td) = (d + nxt) mod 2 ^ 64"
  by (simp add: vtotal_def VRF_MONEY_def)

definition text_sum :: "string \<Rightarrow> int" where
  "text_sum w = sum_list (map schar w)"

lemma vtotal_str: "nat t < length td \<Longrightarrow> vtotal t (VRF_STR t w td) mod 2 ^ 64 = (vtotal t td + text_sum w) mod 2 ^ 64"
proof (induction w arbitrary: td)
  case (Cons c w)
  have "vtotal t (VRF_STR t (c # w) td) = vtotal t (VRF_STR t w (vrf_add t (schar c) td))" by (simp add: VRF_STR_def)
  also have "\<dots> mod 2 ^ 64 = (vtotal t (vrf_add t (schar c) td) + text_sum w) mod 2 ^ 64" using Cons by simp
  also have "\<dots> = (vtotal t td + schar c + text_sum w) mod 2 ^ 64" using Cons.prems by (simp add: vtotal_add mod_simps)
  finally show ?case by (simp add: text_sum_def add.assoc)
qed (simp add: VRF_STR_def text_sum_def)

lemma vrf_cust_length: "length (tpch_vrf_cust nxt c td) = length td"
  by (simp add: tpch_vrf_cust_def Let_def)

text \<open>The checksum after a customer says nothing of what was added before.\<close>

lemma vrf_cust_total:
  assumes "3 < length td"
  shows "vtotal CUST (tpch_vrf_cust nxt c td) mod 2 ^ 64 = (hc_acctbal c + nxt + text_sum (hc_mktsegment c) + text_sum (hc_comment c)) mod 2 ^ 64"
proof -
  define td1 where "td1 = VRF_STR CUST (hc_phone c) (VRF_INT CUST (hc_nation_code c) (VRF_STR CUST (hc_address c)
    (VRF_STR CUST (hc_name c) (VRF_INT CUST (hc_custkey c) td))))"
  have l: "nat CUST < length td1" using assms by (simp add: td1_def)
  let ?m = "VRF_MONEY CUST (hc_acctbal c) nxt td1"
  have "vtotal CUST (VRF_STR CUST (hc_comment c) (VRF_STR CUST (hc_mktsegment c) ?m)) mod 2 ^ 64 =
      (vtotal CUST (VRF_STR CUST (hc_mktsegment c) ?m) mod 2 ^ 64 + text_sum (hc_comment c)) mod 2 ^ 64"
    using vtotal_str [of CUST "VRF_STR CUST (hc_mktsegment c) ?m"] l by (simp only: vrf_length mod_add_left_eq)
  also have "vtotal CUST (VRF_STR CUST (hc_mktsegment c) ?m) mod 2 ^ 64 = (vtotal CUST ?m mod 2 ^ 64 + text_sum (hc_mktsegment c)) mod 2 ^ 64"
    using vtotal_str [of CUST ?m] l by (simp only: vrf_length mod_add_left_eq)
  also have "vtotal CUST ?m = (hc_acctbal c + nxt) mod 2 ^ 64" using l by (rule vtotal_money)
  finally show ?thesis by (simp add: tpch_vrf_cust_def td1_def Let_def mod_simps)
qed

end
