(* ===== verification/Tpch_Tables.thy ===== *)
theory Tpch_Tables
  imports Tpch_Print
begin

text \<open>
  The tables of the workload TPC-H: the date strings of its branch, the shipped environment of its builders, and what holds of
  its rows.  Every row is built, whatever the state of the streams; every line item refers to a supplier that its part has;
  the files read back; what the verification mode sums up.
\<close>

subsection \<open>Dates\<close>

definition tpch_PR_DATE :: "int \<Rightarrow> int \<Rightarrow> int \<Rightarrow> string" where
  "tpch_PR_DATE yr mn dy = ''19'' @ fmt_0d 2 yr @ ''-'' @ fmt_0d 2 mn @ ''-'' @ fmt_0d 2 dy"

definition tpch_mk_time :: "int \<Rightarrow> dss_time_t option" where
  "tpch_mk_time index = do {
     j \<leftarrow> julian (index + STARTDATE - 1);
     let y = j sdiv 1000;
     let d = j smod 1000;
     m \<leftarrow> month_loop y d 0;
     if m = 0 then None
     else Some \<lparr>
       t_timekey = index + JDAY_BASE,
       t_alpha = tpch_PR_DATE y (int m)
         (d - dcnt (months ! (m - 1)) - (if LEAP y \<noteq> 0 \<and> m > 2 then 1 else 0)),
       t_year = 1900 + y,
       t_month = int m + 12 * y + JMNTH_BASE,
       t_week = (d + T_START_DAY - 1) sdiv 7 + 1,
       t_day = d - dcnt (months ! (m - 1)) - LEAP_ADJ y (int m - 1)\<rparr> }"

definition tpch_mk_ascdate :: "string list option" where
  "tpch_mk_ascdate = those (map (\<lambda>i. map_option t_alpha (tpch_mk_time (i + 1))) [0..TOTDATE - 1])"

text \<open>The rows of \<open>mk_time\<close> with the other form of the date.\<close>

lemma tpch_mk_time_alpha:
  "map_option t_alpha (tpch_mk_time i) =
   map_option (\<lambda>t. tpch_PR_DATE (t_year t - 1900) (t_month t - 12 * (t_year t - 1900) - JMNTH_BASE) (t_day t)) (mk_time i)"
  unfolding tpch_mk_time_def mk_time_def
  by (cases "julian (i + STARTDATE - 1)") (auto simp: Let_def LEAP_ADJ_def split: Option.bind_splits)

definition tpch_date :: "nat \<times> nat \<times> nat \<Rightarrow> string" where
  "tpch_date = (\<lambda>(y, m, d). tpch_PR_DATE (int y - 1900) (int m) (int d))"

lemma tpch_dates_calendar: "tpch_mk_ascdate = Some (map (\<lambda>n. tpch_date (calendar n)) [0..<2557])"
proof -
  have t: "map_option t_alpha (tpch_mk_time (int n + 1)) = Some (tpch_date (calendar n))" if n: "n < 2557" for n
  proof -
    obtain Y m d where c: "calendar n = (Y, m, d)" by (metis prod_cases3)
    obtain tt where tt: "mk_time (int n + 1) = Some tt" "t_year tt = int Y" "t_day tt = int d" "t_month tt = int m + 12 * (int Y - 1970)"
      using mk_time_calendar [OF less_trans [OF n] c] by auto
    then show ?thesis unfolding tpch_mk_time_alpha by (simp add: c tpch_date_def JMNTH_BASE_def)
  qed
  have u: "[0..TOTDATE - 1] = map int [0..<2557]" using upto_int [of 2557] by (simp del: upt_rec_numeral)
  show ?thesis unfolding tpch_mk_ascdate_def u map_map comp_def by (rule those_map_Some) (simp add: t)
qed

subsection \<open>The shipped environment\<close>

definition instruct_entries :: "(string \<times> int) list" where
  "instruct_entries = [(''DELIVER IN PERSON'', 1), (''COLLECT COD'', 1), (''TAKE BACK RETURN'', 1), (''NONE'', 1)]"

definition rflag_entries :: "(string \<times> int) list" where
  "rflag_entries = [(''R'', 1), (''A'', 1)]"

definition tpch_tdefs :: "tdef list" where
  "tpch_tdefs =
    [mk_tdef ''part.tbl'' ''part table'' 200000 PSUPP,
     mk_tdef ''partsupp.tbl'' ''partsupplier table'' 200000 NONE,
     mk_tdef ''supplier.tbl'' ''suppliers table'' 10000 NONE,
     mk_tdef ''customer.tbl'' ''customers table'' 150000 NONE,
     mk_tdef ''orders.tbl'' ''order table'' 150000 LINE,
     mk_tdef ''lineitem.tbl'' ''lineitem table'' 150000 NONE,
     mk_tdef ''orders.tbl'' ''orders/lineitem tables'' 150000 LINE,
     mk_tdef ''part.tbl'' ''part/partsupplier tables'' 200000 PSUPP,
     mk_tdef ''nation.tbl'' ''nation table'' NATIONS_MAX NONE,
     mk_tdef ''region.tbl'' ''region table'' NATIONS_MAX NONE]"

text \<open>The two buffers start with zeros here.\<close>

definition tpch_env :: "int \<Rightarrow> int \<Rightarrow> henv" where
  "tpch_env scale pct = \<lparr>be_dists = ssb_dists, be_scale = scale, be_refresh = pct, be_tdefs = tpch_tdefs,
     asc_date = the tpch_mk_ascdate, h_text = ssb_tdists, l_instruct_set = entries_dist instruct_entries,
     l_rflag_set = entries_dist rflag_entries, h_sentence = replicate 257 NUL, h_comment = replicate 200 NUL\<rparr>"

lemma tpch_env_dates: "asc_date (tpch_env scale pct) = map (\<lambda>n. tpch_date (calendar n)) [0..<2557]"
  unfolding tpch_env_def tpch_dates_calendar by (simp del: upt_rec_numeral)

lemma tpch_lists_ok: "dist_ok (entries_dist instruct_entries)" "dist_ok (entries_dist rflag_entries)"
  by (rule entries_dist_ok; simp add: instruct_entries_def) (rule entries_dist_ok; simp add: rflag_entries_def)

lemma tpch_lists_sizes:
  "list_all (\<lambda>m. length (sm_text m) \<le> 1 \<and> sm_text m \<noteq> []) (dlist (entries_dist rflag_entries))" "5 \<le> dcount (colors ssb_dists)"
  "dlist (nations ssb_dists) \<noteq> []"
  by (simp_all add: entries_dist_def rflag_entries_def ssb_dists_def colors_entries_def nations_entries_def)

lemma tpch_env_ok:
  assumes "1 \<le> scale" "scale \<le> 1000"
  shows "henv_ok (tpch_env scale pct)"
proof -
  note D = ssb_dists_ok [unfolded dists_ok_def nations_ok_def]
  have "length (asc_date (tpch_env scale pct)) = 2557" unfolding tpch_env_dates by (simp del: upt_rec_numeral)
  moreover have "td_base (tpch_tdefs ! 0) = 200000" "td_base (tpch_tdefs ! 2) = 10000" "td_base (tpch_tdefs ! 3) = 150000"
    by (simp_all add: tpch_tdefs_def mk_tdef_def)
  ultimately show ?thesis
    using assms D ssb_text_ok tpch_lists_ok tpch_lists_sizes
    by (simp add: henv_ok_def MAX_SENT_LEN_def list_all_iff) (simp add: tpch_env_def)
qed

lemma text_entries_clean:
  "list_all (\<lambda>x. clean (fst x)) articles_entries" "list_all (\<lambda>x. clean (fst x)) nouns_entries" "list_all (\<lambda>x. clean (fst x)) adjectives_entries"
  "list_all (\<lambda>x. clean (fst x)) adverbs_entries" "list_all (\<lambda>x. clean (fst x)) prepositions_entries" "list_all (\<lambda>x. clean (fst x)) verbs_entries"
  "list_all (\<lambda>x. clean (fst x)) terminators_entries" "list_all (\<lambda>x. clean (fst x)) auxillaries_entries" "list_all (\<lambda>x. clean (fst x)) np_entries"
  "list_all (\<lambda>x. clean (fst x)) vp_entries" "list_all (\<lambda>x. clean (fst x)) grammar_entries"
  "list_all (\<lambda>x. clean (fst x)) instruct_entries" "list_all (\<lambda>x. clean (fst x)) rflag_entries"
  by (simp_all add: articles_entries_def nouns_entries_def adjectives_entries_def adverbs_entries_def prepositions_entries_def verbs_entries_def
    terminators_entries_def auxillaries_entries_def np_entries_def vp_entries_def grammar_entries_def instruct_entries_def rflag_entries_def)

lemma letters_clean:
  assumes "\<forall>d \<in> set (word_classes t). \<forall>m \<in> set (dlist d). clean (sm_text m)"
  shows "CHR ''|'' \<notin> letters t" "CHR 0x0A \<notin> letters t"
  using assms unfolding letters_def by (auto simp: words_def clean_def)

lemma tpch_env_clean: "henv_clean (tpch_env scale pct)"
proof -
  let ?e = "tpch_env scale pct"
  have "\<forall>d \<in> set (word_classes ssb_tdists). \<forall>m \<in> set (dlist d). clean (sm_text m)"
    using text_entries_clean [THEN entries_all] by (simp add: word_classes_def ssb_tdists_def list_all_iff)
  from letters_clean [OF this] have "CHR ''|'' \<notin> letters (h_text ?e)" "CHR 0x0A \<notin> letters (h_text ?e)" by (simp_all add: tpch_env_def)
  moreover have "\<forall>x \<in> set (asc_date ?e). clean x"
    unfolding tpch_env_dates by (auto simp: tpch_date_def tpch_PR_DATE_def split: prod.split simp del: upt_rec_numeral)
  moreover have "\<forall>m \<in> set (dlist d). clean (sm_text m)"
    if "d \<in> {nations (be_dists ?e), regions (be_dists ?e), o_priority_set (be_dists ?e), l_smode_set (be_dists ?e), c_mseg_set (be_dists ?e),
         colors (be_dists ?e), p_types_set (be_dists ?e), p_cntr_set (be_dists ?e), l_instruct_set ?e, l_rflag_set ?e}" for d
    using that ssb_env_clean [of scale pct] text_entries_clean(12,13) [THEN entries_all]
    by (auto simp: env_clean_def tpch_env_def ssb_env_def list_all_iff)
  moreover have "\<forall>m \<in> set (dlist (l_rflag_set ?e)). sm_text m \<noteq> []" using tpch_lists_sizes(1) by (simp add: tpch_env_def list_all_iff)
  ultimately show ?thesis unfolding henv_clean_def by blast
qed

subsection \<open>What holds of the rows\<close>

text \<open>
  C12: every order is built, from every consistent state of the streams, and is well-formed with all its lines: no date index leaves the table of
  dates, the total price is the sum of the charges and fits an \<open>int\<close>, the order's status says whether all, some or none of the lines are shipped,
  and no line is received before it is shipped.
\<close>

theorem tpch_order_rows:
  assumes "henv_ok e" "rng_ok s"
  shows "\<exists>ord s'. tpch_mk_order e upd n s = Some (ord, s') \<and> rng_ok s' \<and> tpch_order_ok e upd n ord"
  using tpch_order [OF assms] by (auto simp: yields_def)

theorem tpch_order_rows_witness:
  "\<exists>ord s'. tpch_mk_order (tpch_env 10 10) 0 7 rng_init = Some (ord, s') \<and> rng_ok s' \<and> tpch_order_ok (tpch_env 10 10) 0 7 ord"
  by (rule tpch_order_rows [OF tpch_env_ok rng_init_ok]) simp_all

text \<open>
  C13: every line of every order names a part and a supplier of this part: whenever the row of the part is built, it has four different
  suppliers, all in the supplier table, and the line's supplier is one of them.
\<close>

theorem tpch_lines_have_partsupp:
  assumes "henv_ok e" "rng_ok s" "tpch_mk_order e upd n s = Some (ord, s')" "l \<in> set (hr_l ord)" "rng_ok r"
  shows "1 \<le> hl_partkey l \<and> hl_partkey l \<le> 200000 * be_scale e \<and>
    (\<exists>p r'. tpch_mk_part e (hl_partkey l) r = Some (p, r') \<and> hp_partkey p = hl_partkey l \<and>
      length (hp_s p) = 4 \<and> distinct (map ps_suppkey (hp_s p)) \<and>
      (\<forall>ps \<in> set (hp_s p). ps_partkey ps = hl_partkey l \<and> 1 \<le> ps_suppkey ps \<and> ps_suppkey ps \<le> 10000 * be_scale e) \<and>
      hl_suppkey l \<in> set (map ps_suppkey (hp_s p)))"
proof -
  note F = henv_facts [OF assms(1)]
  have "tpch_order_ok e upd n ord" using tpch_order [OF assms(1,2), of upd n] assms(3) by (simp add: yields_def)
  then obtain td where "tpch_line_ok e (hr_okey ord) td l" using assms(4) by (auto simp: tpch_order_ok_def list_all_iff)
  then obtain k where l: "1 \<le> hl_partkey l" "hl_partkey l \<le> tpch_L_PKEY_MAX e" "0 \<le> k" "k \<le> 3" "hl_suppkey l = PART_SUPP_BRIDGE e (hl_partkey l) k"
    by (auto simp: tpch_line_ok_def)
  obtain p r' where p: "tpch_mk_part e (hl_partkey l) r = Some (p, r')" "tpch_part_ok e (hl_partkey l) p"
    using tpch_part [OF assms(1,5), of "hl_partkey l"] by (auto simp: yields_def)
  have keys: "map ps_suppkey (hp_s p) = map (\<lambda>j. PART_SUPP_BRIDGE e (hl_partkey l) (int j)) [0..<4]" using p(2) by (simp add: tpch_part_ok_def)
  have "length (hp_s p) = 4" using arg_cong [OF keys, of length] by simp
  moreover have "hl_suppkey l \<in> set (map ps_suppkey (hp_s p))"
    unfolding keys l(5) using l(3,4) by (auto intro!: image_eqI [of _ _ "nat k"] simp del: upt_rec_numeral)
  moreover have "hp_partkey p = hl_partkey l" "\<forall>ps \<in> set (hp_s p). ps_partkey ps = hl_partkey l"
    using p(2) by (auto simp: tpch_part_ok_def partsupp_ok_def list_all_iff)
  ultimately show ?thesis using part_suppliers [OF assms(1) p(2) l(1,2)] p(1) l(1,2) F(10,11) by auto
qed

theorem tpch_lines_have_partsupp_witness:
  "\<exists>ord s' l p r'. tpch_mk_order (tpch_env 1 10) 0 1 rng_init = Some (ord, s') \<and> l \<in> set (hr_l ord) \<and>
    tpch_mk_part (tpch_env 1 10) (hl_partkey l) rng_init = Some (p, r') \<and> distinct (map ps_suppkey (hp_s p)) \<and>
    hl_suppkey l \<in> set (map ps_suppkey (hp_s p))"
proof -
  have e: "henv_ok (tpch_env 1 10)" by (rule tpch_env_ok) simp_all
  obtain ord s' where o: "tpch_mk_order (tpch_env 1 10) 0 1 rng_init = Some (ord, s')" "tpch_order_ok (tpch_env 1 10) 0 1 ord"
    using tpch_order [OF e rng_init_ok, of 0 1] by (auto simp: yields_def)
  then obtain l where l: "l \<in> set (hr_l ord)" by (cases "hr_l ord") (auto simp: tpch_order_ok_def)
  from tpch_lines_have_partsupp [OF e rng_init_ok o(1) l rng_init_ok] o(1) l show ?thesis by blast
qed

text \<open>
  A supplier is built from every consistent state of the streams; its comment is a text of 25 to 100 characters of the grammar, in which the
  words \<open>Customer\<close> and \<open>Complaints\<close> or \<open>Recommends\<close> may stand in the place of as many characters: the copies stay inside the text, so
  that its length and the zero behind it are kept.
\<close>

theorem tpch_supplier_comment:
  assumes "henv_ok e" "rng_ok s"
  shows "\<exists>c s' x. tpch_mk_supp e n s = Some (c, s') \<and> rng_ok s' \<and> comment_ok e 63 (hs_clen c, x) \<and> 25 \<le> length x \<and> length x \<le> 100 \<and>
    int (length (hs_comment c)) = hs_clen c \<and> length (hs_comment c) = length x \<and>
    (hs_comment c = x \<or> (\<exists>w noise offset. w \<in> {''Complaints'', ''Recommends''} \<and> offset + noise + 19 \<le> length x \<and>
      hs_comment c = overlay (9 + offset + noise) w (overlay offset ''Customer '' x)))"
proof -
  obtain c s' where c: "tpch_mk_supp e n s = Some (c, s')" "rng_ok s'" "tpch_supp_ok e n c"
    using tpch_supplier [OF assms, of n] by (auto simp: yields_def)
  then obtain x where x: "comment_ok e 63 (hs_clen c, x)" "noted_in x (hs_comment c)" by (auto simp: tpch_supp_ok_def)
  have l: "length (hs_comment c) = length x" "int (length x) = hs_clen c" "25 \<le> length x" "length x \<le> 100"
    using noted_in_length [OF x(2)] x(1) by (auto simp: comment_ok_def text_ranges)
  have "hs_comment c = x \<or> (\<exists>w noise offset. w \<in> {''Complaints'', ''Recommends''} \<and> offset + noise + 19 \<le> length x \<and>
      hs_comment c = overlay (9 + offset + noise) w (overlay offset ''Customer '' x))"
  proof (cases "hs_comment c = x")
    case False
    then obtain ty noise offset where k: "offset + noise + 19 \<le> length x" "hs_comment c = note_text ty noise offset x"
      using x(2) by (auto simp: noted_in_def)
    then show ?thesis
      unfolding note_text_def
      by (intro disjI2 exI [of _ "if ty < 50 then ''Complaints'' else ''Recommends''"] exI [of _ noise] exI [of _ offset]) simp
  qed simp
  then show ?thesis using c(1,2) x(1) l by (intro exI [of _ c] exI [of _ s'] exI [of _ x]) (simp only: simp_thms)
qed

theorem tpch_supplier_comment_witness:
  "\<exists>c s' x. tpch_mk_supp (tpch_env 1 10) 5 rng_init = Some (c, s') \<and> rng_ok s' \<and> comment_ok (tpch_env 1 10) 63 (hs_clen c, x) \<and>
    25 \<le> length x \<and> length x \<le> 100 \<and> int (length (hs_comment c)) = hs_clen c \<and> length (hs_comment c) = length x \<and>
    (hs_comment c = x \<or> (\<exists>w noise offset. w \<in> {''Complaints'', ''Recommends''} \<and> offset + noise + 19 \<le> length x \<and>
      hs_comment c = overlay (9 + offset + noise) w (overlay offset ''Customer '' x)))"
  by (rule tpch_supplier_comment [OF tpch_env_ok rng_init_ok]) simp_all

lemma built_ok:
  assumes "henv_ok e"
  shows "built (tpch_mk_cust e n) c \<Longrightarrow> tpch_cust_ok e n c" "built (tpch_mk_supp e n) d \<Longrightarrow> tpch_supp_ok e n d"
    "built (tpch_mk_part e n) p \<Longrightarrow> tpch_part_ok e n p" "built (tpch_mk_order e upd n) r \<Longrightarrow> tpch_order_ok e upd n r"
  by (erule built_yields, rule tpch_customer [OF assms] tpch_supplier [OF assms] tpch_part [OF assms] tpch_order [OF assms], assumption)+

lemma read_built:
  assumes "\<forall>c \<in> set cs. \<exists>n. B n c" "\<And>n c. B n c \<Longrightarrow> tx c = row_text (fs c) \<and> list_all clean (fs c)"
  shows "read_rows (concat (map tx cs)) = map fs cs"
proof (rule read_rows_of)
  fix c assume "c \<in> set cs"
  then obtain n where "B n c" using assms(1) by blast
  then show "tx c = row_text (fs c) \<and> list_all clean (fs c)" by (rule assms(2))
qed

lemma tpch_dimension_files:
  assumes e: "henv_ok e" "henv_clean e"
    and "\<forall>c \<in> set cs. \<exists>n. 1 \<le> n \<and> built (tpch_mk_cust e n) c" "\<forall>c \<in> set ss. \<exists>n. 1 \<le> n \<and> built (tpch_mk_supp e n) c"
  shows "read_rows (concat (map (tpch_cust_text False) cs)) = map tpch_cust_fields cs"
    "read_rows (concat (map (tpch_supp_text False) ss)) = map tpch_supp_fields ss"
proof -
  show "read_rows (concat (map (tpch_cust_text False) cs)) = map tpch_cust_fields cs"
    by (rule read_built [OF assms(3)], elim conjE, rule tpch_cust_line [OF e built_ok(1) [OF e(1)]])
  show "read_rows (concat (map (tpch_supp_text False) ss)) = map tpch_supp_fields ss"
    by (rule read_built [OF assms(4)], elim conjE, rule tpch_supp_line [OF e built_ok(2) [OF e(1)]])
qed

lemma tpch_part_files:
  assumes e: "henv_ok e" "henv_clean e" and b: "\<forall>p \<in> set ps. \<exists>n. 1 \<le> n \<and> built (tpch_mk_part e n) p"
  shows "read_rows (concat (map (tpch_part_text False) ps)) = map tpch_part_fields ps"
    "read_rows (concat (map (psupps_text False) ps)) = map psupp_fields (concat (map hp_s ps))"
proof -
  show "read_rows (concat (map (tpch_part_text False) ps)) = map tpch_part_fields ps"
  proof (rule read_rows_of)
    fix p assume "p \<in> set ps"
    then obtain n where "1 \<le> n" "tpch_part_ok e n p" using b built_ok(3) [OF e(1)] by blast
    then show "tpch_part_text False p = row_text (tpch_part_fields p) \<and> list_all clean (tpch_part_fields p)"
      using tpch_part_line [OF e, of n p] by simp
  qed
  show "read_rows (concat (map (psupps_text False) ps)) = map psupp_fields (concat (map hp_s ps))"
  proof (rule read_nested_rows)
    fix p x assume "p \<in> set ps" and x: "x \<in> set (hp_s p)"
    then obtain n where "tpch_part_ok e n p" using b built_ok(3) [OF e(1)] by blast
    then have "partsupp_ok e n x" using x by (simp add: tpch_part_ok_def list_all_iff)
    then show "psupp_text False x = row_text (psupp_fields x) \<and> list_all clean (psupp_fields x)" by (rule psupp_line [OF e])
  next
    fix p assume "p \<in> set ps"
    then obtain n where "tpch_part_ok e n p" using b built_ok(3) [OF e(1)] by blast
    then have "length (map ps_suppkey (hp_s p)) = 4" by (simp add: tpch_part_ok_def)
    then show "psupps_text False p = concat (map (psupp_text False) (hp_s p))" by (simp add: psupps_text_def)
  qed
qed

lemma tpch_order_files:
  assumes e: "henv_ok e" "henv_clean e" and q: "0 \<le> order_seq (be_refresh e) upd" "order_seq (be_refresh e) upd < 4"
    and b: "\<forall>r \<in> set rs. \<exists>n. (1 \<le> n \<and> n < 10 ^ 12) \<and> built (tpch_mk_order e upd n) r"
  shows "read_rows (concat (map (tpch_order_text False) rs)) = map tpch_order_fields rs"
    "read_rows (concat (map (tpch_lines_text False) rs)) = map tpch_line_fields (concat (map hr_l rs))"
proof -
  have r: "\<exists>n. tpch_order_ok e upd n ord \<and> huge_ok (hr_okey ord)" if m: "ord \<in> set rs" for ord
  proof -
    obtain n where n: "1 \<le> n \<and> n < 10 ^ 12" "tpch_order_ok e upd n ord" using b m built_ok(4) [OF e(1)] by blast
    have "huge_ok (mk_sparse (be_scale e) n (order_seq (be_refresh e) upd))" by (rule mk_sparse_huge) (use n(1) q in simp_all)
    then show ?thesis using n(2) by (auto simp: tpch_order_ok_def)
  qed
  show "read_rows (concat (map (tpch_order_text False) rs)) = map tpch_order_fields rs"
  proof (rule read_rows_of)
    fix r' assume "r' \<in> set rs"
    then obtain n where n: "tpch_order_ok e upd n r'" "huge_ok (hr_okey r')" using r by blast
    show "tpch_order_text False r' = row_text (tpch_order_fields r') \<and> list_all clean (tpch_order_fields r')"
      by (intro conjI tpch_order_line(1,2) [OF e n])
  qed
  show "read_rows (concat (map (tpch_lines_text False) rs)) = map tpch_line_fields (concat (map hr_l rs))"
  proof (rule read_nested_rows)
    fix r' x assume "r' \<in> set rs" and x: "x \<in> set (hr_l r')"
    then obtain n where n: "tpch_order_ok e upd n r'" "huge_ok (hr_okey r')" using r by blast
    show "tpch_line_text False x = row_text (tpch_line_fields x) \<and> list_all clean (tpch_line_fields x)"
      by (rule tpch_order_line(4) [OF e n x])
  next
    fix r' assume "r' \<in> set rs"
    then obtain n where n: "tpch_order_ok e upd n r'" "huge_ok (hr_okey r')" using r by blast
    show "tpch_lines_text False r' = concat (map (tpch_line_text False) (hr_l r'))" by (rule tpch_order_line(3) [OF e n])
  qed
qed

lemma built_code_range:
  "built (mk_nation e n) c \<Longrightarrow> 1 \<le> n \<and> n \<le> int (length (dlist (nations (be_dists e))))"
  "built (mk_region e n) c \<Longrightarrow> 1 \<le> n \<and> n \<le> int (length (dlist (regions (be_dists e))))"
  by (auto simp: built_def mk_nation_def mk_region_def dist_entry_def split: if_splits)

lemma tpch_code_files:
  assumes e: "henv_ok e" "henv_clean e"
    and b: "\<forall>c \<in> set ns. \<exists>n. built (mk_nation e n) c" "\<forall>c \<in> set gs. \<exists>n. built (mk_region e n) c"
  shows "read_rows (concat (map (nation_text False) ns)) = map nation_fields ns"
    "read_rows (concat (map (region_text False) gs)) = map region_fields gs"
proof -
  show "read_rows (concat (map (nation_text False) ns)) = map nation_fields ns"
  proof (rule read_built [OF b(1)])
    fix n c assume c: "built (mk_nation e n) c"
    then have n: "1 \<le> n" "n \<le> int (length (dlist (nations (be_dists e))))" using built_code_range(1) by blast+
    have "code_ok e (nations (be_dists e)) n c" using built_yields [OF c tpch_nation [OF e(1) _ n]] by simp
    from code_clean [OF e n _ this] show "nation_text False c = row_text (nation_fields c) \<and> list_all clean (nation_fields c)"
      by (simp add: nation_row)
  qed
  show "read_rows (concat (map (region_text False) gs)) = map region_fields gs"
  proof (rule read_built [OF b(2)])
    fix n c assume c: "built (mk_region e n) c"
    then have n: "1 \<le> n" "n \<le> int (length (dlist (regions (be_dists e))))" using built_code_range(2) by blast+
    have "code_ok e (regions (be_dists e)) n c" using built_yields [OF c tpch_region [OF e(1) _ n]] by simp
    from code_clean [OF e n _ this] show "region_text False c = row_text (region_fields c) \<and> list_all clean (region_fields c)"
      by (simp add: region_row)
  qed
qed

text \<open>
  C23: the flat files of all eight tables of the workload can be read back: rows that the builders make, from whatever states of the streams, are printed as
  lines that split at the separators into the columns of the rows, the pseudo texts included.
\<close>

theorem tpch_files_roundtrip:
  assumes "henv_ok e" "henv_clean e"
    and "\<forall>c \<in> set cs. \<exists>n. 1 \<le> n \<and> built (tpch_mk_cust e n) c" "\<forall>c \<in> set ss. \<exists>n. 1 \<le> n \<and> built (tpch_mk_supp e n) c"
    and "\<forall>p \<in> set ps. \<exists>n. 1 \<le> n \<and> built (tpch_mk_part e n) p"
    and "0 \<le> order_seq (be_refresh e) upd" "order_seq (be_refresh e) upd < 4"
    and "\<forall>r \<in> set rs. \<exists>n. (1 \<le> n \<and> n < 10 ^ 12) \<and> built (tpch_mk_order e upd n) r"
    and "\<forall>c \<in> set ns. \<exists>n. built (mk_nation e n) c" "\<forall>c \<in> set gs. \<exists>n. built (mk_region e n) c"
  shows "read_rows (concat (map (tpch_cust_text False) cs)) = map tpch_cust_fields cs \<and>
    read_rows (concat (map (tpch_supp_text False) ss)) = map tpch_supp_fields ss \<and>
    read_rows (concat (map (tpch_part_text False) ps)) = map tpch_part_fields ps \<and>
    read_rows (concat (map (psupps_text False) ps)) = map psupp_fields (concat (map hp_s ps)) \<and>
    read_rows (concat (map (tpch_order_text False) rs)) = map tpch_order_fields rs \<and>
    read_rows (concat (map (tpch_lines_text False) rs)) = map tpch_line_fields (concat (map hr_l rs)) \<and>
    read_rows (concat (map (nation_text False) ns)) = map nation_fields ns \<and>
    read_rows (concat (map (region_text False) gs)) = map region_fields gs"
  by (intro conjI tpch_dimension_files [OF assms(1-4)] tpch_part_files [OF assms(1,2,5)] tpch_order_files [OF assms(1,2,6-8)]
    tpch_code_files [OF assms(1,2,9,10)])

theorem tpch_files_roundtrip_witness:
  "\<exists>c s p r m g. built (tpch_mk_cust (tpch_env 1 10) 1) c \<and> built (tpch_mk_supp (tpch_env 1 10) 1) s \<and> built (tpch_mk_part (tpch_env 1 10) 1) p \<and>
    built (tpch_mk_order (tpch_env 1 10) 0 1) r \<and> read_rows (tpch_cust_text False c) = [tpch_cust_fields c] \<and>
    read_rows (tpch_supp_text False s) = [tpch_supp_fields s] \<and> read_rows (tpch_part_text False p) = [tpch_part_fields p] \<and>
    read_rows (psupps_text False p) = map psupp_fields (hp_s p) \<and> read_rows (tpch_order_text False r) = [tpch_order_fields r] \<and>
    read_rows (tpch_lines_text False r) = map tpch_line_fields (hr_l r) \<and>
    built (mk_nation (tpch_env 1 10) 25) m \<and> read_rows (nation_text False m) = [nation_fields m] \<and>
    built (mk_region (tpch_env 1 10) 5) g \<and> read_rows (region_text False g) = [region_fields g]"
proof -
  have e: "henv_ok (tpch_env 1 10)" by (rule tpch_env_ok) simp_all
  obtain c s p r where x: "built (tpch_mk_cust (tpch_env 1 10) 1) c" "built (tpch_mk_supp (tpch_env 1 10) 1) s"
    "built (tpch_mk_part (tpch_env 1 10) 1) p" "built (tpch_mk_order (tpch_env 1 10) 0 1) r"
    using tpch_customer [OF e rng_init_ok, of 1] tpch_supplier [OF e rng_init_ok, of 1] tpch_part [OF e rng_init_ok, of 1]
      tpch_order [OF e rng_init_ok, of 0 1] rng_init_ok unfolding yields_def built_def by blast
  have "25 \<le> int (length (dlist (nations (be_dists (tpch_env 1 10)))))" "5 \<le> int (length (dlist (regions (be_dists (tpch_env 1 10)))))"
    by (simp_all add: tpch_env_def ssb_dists_def entries_dist_def nations_entries_def regions_entries_def)
  then obtain m g where y: "built (mk_nation (tpch_env 1 10) 25) m" "built (mk_region (tpch_env 1 10) 5) g"
    using tpch_nation [OF e rng_init_ok, of 25] tpch_region [OF e rng_init_ok, of 5] rng_init_ok unfolding yields_def built_def by force
  have y2: "\<exists>n. built (mk_nation (tpch_env 1 10) n) m" "\<exists>n. built (mk_region (tpch_env 1 10) n) g" using y by blast+
  have n: "\<exists>n. 1 \<le> n \<and> built (tpch_mk_cust (tpch_env 1 10) n) c" "\<exists>n. 1 \<le> n \<and> built (tpch_mk_supp (tpch_env 1 10) n) s"
    "\<exists>n. 1 \<le> n \<and> built (tpch_mk_part (tpch_env 1 10) n) p" using x(1-3) by (intro exI [of _ 1]; simp)+
  have o: "\<exists>n. (1 \<le> n \<and> n < 10 ^ 12) \<and> built (tpch_mk_order (tpch_env 1 10) 0 n) r" using x(4) by (intro exI [of _ 1]) simp
  have "order_seq (be_refresh (tpch_env 1 10)) 0 = 0" by (simp add: order_seq_def)
  then show ?thesis
    using tpch_files_roundtrip [OF e tpch_env_clean, of "[c]" "[s]" "[p]" 0 "[r]" "[m]" "[g]"] n o x y y2
    by (intro exI [of _ c] exI [of _ s] exI [of _ p] exI [of _ r] exI [of _ m] exI [of _ g]) simp
qed

text \<open>
  C38: in the verification mode the checksum of the customer table covers only the last row from its account balance on: \<open>VRF_MONEY\<close> assigns
  where the other macros add, so that every row before, and the first columns of the last row, can change unnoticed.
\<close>

theorem tpch_checksum_last_customer:
  assumes "3 < length td"
  shows "vtotal CUST (foldl (\<lambda>td (c, nxt). tpch_vrf_cust nxt c td) td (cs @ [(c, nxt)])) mod 2 ^ 64 =
    (hc_acctbal c + nxt + text_sum (hc_mktsegment c) + text_sum (hc_comment c)) mod 2 ^ 64"
proof -
  have "length (foldl (\<lambda>td (c, nxt). tpch_vrf_cust nxt c td) td cs) = length td"
    by (induction cs arbitrary: td) (auto simp: vrf_cust_length split: prod.splits)
  then show ?thesis using vrf_cust_total [of "foldl (\<lambda>td (c, nxt). tpch_vrf_cust nxt c td) td cs" nxt c] assms by simp
qed

theorem tpch_checksum_last_customer_witness:
  "vtotal CUST (foldl (\<lambda>td (c, nxt). tpch_vrf_cust nxt c td) tpch_tdefs ([] @ [(\<lparr>hc_custkey = 1, hc_name = ''a'', hc_address = ''b'', hc_alen = 1,
     hc_nation_code = 3, hc_phone = ''c'', hc_acctbal = 500, hc_mktsegment = ''d'', hc_comment = ''e'', hc_clen = 1\<rparr>, 7)])) mod 2 ^ 64 =
    (500 + 7 + text_sum ''d'' + text_sum ''e'') mod 2 ^ 64"
  by (subst tpch_checksum_last_customer) (simp_all add: tpch_tdefs_def)

end
