(* ===== verification/Tpch_Seek.thy ===== *)
theory Tpch_Seek
  imports Tied Tpch_Tables
begin

text \<open>
  Steps of the tables of TPC-H.  Every builder is tied to the streams of its table.  As \<open>row_stop\<close> moves these streams to a fixed
  distance, forwards or backwards, every builder is a generator with a fixed rate however much its texts draw, and the seed
  routines skip exactly its rows.
\<close>

subsection \<open>The builders\<close>

lemmas tied_steps = tied_address tied_draw tied_phone tied_pick tied_comment_of tied_TEXT tied_agg_str tied_Some

lemma tied_cust:
  assumes "{26..31} \<subseteq> A"
  shows "tied tuple2 A 40000 (\<lambda>s. tpch_mk_cust e n s)"
  unfolding tpch_mk_cust_def tpch_C_ADDR_LEN_def C_CMNT_LEN_def
  by (rule tied_le, (rule tied_steps | use assms in force)+)

lemma tied_supp:
  assumes "{32..36} \<union> {44..47} \<subseteq> A"
  shows "tied tuple2 A 40000 (\<lambda>s. tpch_mk_supp e n s)"
  unfolding tpch_mk_supp_def tpch_S_ADDR_LEN_def S_CMNT_LEN_def
  by (rule tied_le, (rule tied_steps tied_value | use assms in force)+)

lemma tied_psupps:
  assumes "{7, 8, 9} \<subseteq> A"
  shows "tied tuple2 A (k * 33465) (\<lambda>s. mk_psupps k e n i s)"
proof (induction k arbitrary: i)
  case (Suc k)
  show ?case
    unfolding mk_psupps.simps PS_CMNT_LEN_def
    by (rule tied_le, (rule tied_steps tied_bind [OF Suc.IH] | use assms in force)+)
next
  case 0
  show ?case by (rule tied_cong, rule mk_psupps.simps(1)) (simp add: tied_Some)
qed

lemma tied_part:
  assumes "{0..4} \<union> {6, 7, 8, 9, 37} \<subseteq> A"
  shows "tied tuple2 A (nat (dcount (colors (be_dists e))) + 200000) (\<lambda>s. tpch_mk_part e n s)"
  unfolding tpch_mk_part_def P_CMNT_LEN_def
  by (rule tied_le, (rule tied_steps tied_bind [OF tied_psupps] | use assms in force)+)

text \<open>The return flag draws only for lines received by the current date.\<close>

lemma tied_return_flag:
  assumes "24 \<in> A" and f: "\<And>x. tied q A n (f x)"
  shows "tied q A (Suc n) (\<lambda>s. Option.bind (return_flag e d s) (\<lambda>(x, s). f x s))"
proof -
  have "tied tuple2 A (max (Suc (max 0 0)) 0) (\<lambda>s. return_flag e d s)"
    unfolding return_flag_def by (rule tied_value tied_if tied_pick tied_Some tied_None | use assms(1) in force)+
  from tied_bind [OF this f] show ?thesis by simp
qed

lemma tied_line:
  assumes "{14..25} \<subseteq> A"
  shows "tied tuple2 A 34000 (\<lambda>s. tpch_mk_line e ok td n s)"
  unfolding tpch_mk_line_def L_CMNT_LEN_def
  by (rule tied_le, (rule tied_steps tied_value tied_return_flag | use assms in force)+)

lemma tied_lines:
  assumes "{14..25} \<subseteq> A"
  shows "tied tuple2 A (k * 34000) (\<lambda>s. tpch_mk_lines k e ok td n tp oc s)"
proof (induction k arbitrary: n tp oc)
  case (Suc k)
  show ?case
    unfolding tpch_mk_lines.simps
    by (rule tied_le, (rule tied_bind [OF tied_line [OF assms]] tied_bind_triple [OF Suc.IH] tied_Some | simp)+)
next
  case 0
  show ?case by (rule tied_cong, rule tpch_mk_lines.simps(1)) (simp add: tied_Some)
qed

lemma tied_order:
  assumes "{11, 12, 13, 38, 40, 43} \<union> {14..25} \<subseteq> A"
  shows "tied tuple2 A 300000 (\<lambda>s. tpch_mk_order e upd n s)"
proof -
  have lines: "tied tuple2 A 238000 (\<lambda>s. tpch_mk_lines (nat k) e ok td n tp oc s)" if "k \<le> 7" for k ok td n tp oc
    by (rule tied_le [OF tied_lines]) (use assms that in auto)
  show ?thesis
    unfolding tpch_mk_order_def O_CMNT_LEN_def
    by (rule tied_le, (rule tied_draw_in [of O_LCNT_SD] tied_bind_triple [OF lines] tied_steps tied_value | use assms in force)+)
qed

subsection \<open>Rows move their streams by the boundaries\<close>

text \<open>The table \<open>row_stop\<close> works on, and the steps of a stream per row.\<close>

definition base_table :: "int \<Rightarrow> int" where
  "base_table t = (if t = ORDER_LINE then ORDER else if t = PART_PSUPP then PART else t)"

definition boundary_rate :: "int \<Rightarrow> int \<Rightarrow> nat \<Rightarrow> nat" where
  "boundary_rate t child i = (if stream_table i = t \<or> stream_table i = child then stream_boundary i else 0)"

text \<open>A row that draws more than the boundary is taken back.\<close>

lemma NthElement_fill:
  assumes "seed_ok v" "k < 2 ^ 31 - 1" "b < 2 ^ 31"
  shows "NthElement (int b - int k) ((NextRand ^^ k) v) = Some ((NextRand ^^ b) v)"
proof (cases "k \<le> b")
  case True
  have "NthElement (int (b - k)) ((NextRand ^^ k) v) = Some ((NextRand ^^ (b - k)) ((NextRand ^^ k) v))"
    by (rule NthElement_forward [OF NextRand_iter_ok [OF assms(1)]]) (use assms(3) in linarith)
  then show ?thesis using True by (simp add: of_nat_diff funpow_add [symmetric, THEN fun_cong, simplified comp_def])
next
  case False
  have "NthElement (- int (k - b)) ((NextRand ^^ (k - b)) ((NextRand ^^ b) v)) = Some ((NextRand ^^ b) v)"
    by (rule NthElement_undo [OF NextRand_iter_ok [OF assms(1)]]) (use assms(2) in \<open>simp add: period_def\<close>)
  then show ?thesis using False by (simp add: of_nat_diff funpow_add [symmetric, THEN fun_cong, simplified comp_def])
qed

lemma row_stop_boundary:
  assumes inv: "rng_inv s" and m: "spends A n (row_start t s) s1" and n: "n < 2 ^ 31 - 1"
    and A: "\<And>i. i \<in> A \<Longrightarrow> stream_table i = base_table t \<or> stream_table i = child"
    and child: "child = td_child (tdefs ! nat (base_table t))"
  shows "\<exists>s2. row_stop False tdefs t s1 = Some s2 \<and> advanced (boundary_rate (base_table t) child) s s2"
proof -
  obtain k where k: "moves k k (row_start t s) s1" "\<And>i. k i \<le> n" "\<And>i. 0 < k i \<Longrightarrow> i \<in> A" using m unfolding spends_def by blast
  note inv0 = row_start_inv [OF inv, of t]
  note inv1 = moves_inv [OF k(1) inv0]
  note ok0 = rng_inv_ok [OF inv0] and ok1 = rng_inv_ok [OF inv1] and ok = rng_inv_ok [OF inv]
  have l: "length (Seed s1) = 48" by (rule rng_okD(1) [OF ok1])
  have v: "val s1 i = (NextRand ^^ k i) (val s i)" "sd_usage (Seed s1 ! i) = int (k i)" if "i < 48" for i
    using k(1) that rng_okD(1) [OF ok0] by (simp_all add: moves_def row_start_nth [OF inv that])
  define g where "g = (\<lambda>i. (Seed s1 ! i)\<lparr>sd_value := (NextRand ^^ boundary_rate (base_table t) child i) (val s i)\<rparr>)"
  have g: "stop_seed False (base_table t) child (Seed s1 ! i) = Some (g i)" if i: "i < 48" for i
  proof (cases "stream_table i = base_table t \<or> stream_table i = child")
    case True
    have "k i < 2 ^ 31 - 1" using k(2) n le_less_trans by blast
    moreover have "stream_boundary i < 2 ^ 31" using rng_okD(5) [OF ok1 i] frame_nth(2) [OF inv1 i] by simp
    ultimately show ?thesis
      using True NthElement_fill [OF rng_okD(2) [OF ok i], of "k i" "stream_boundary i"]
      by (simp add: stop_seed_def frame_nth [OF inv1 i] v [OF i] g_def boundary_rate_def)
  next
    case False
    then have "k i = 0" using k(3) A by blast
    then have "val s i = val s1 i" using v(1) [OF i] by simp
    then show ?thesis using False by (simp add: stop_seed_def frame_nth [OF inv1 i] g_def boundary_rate_def)
  qed
  define s2 where "s2 = s1\<lparr>Seed := map g [0..<48]\<rparr>"
  have "map_seeds (stop_seed False (base_table t) child) (Seed s1) = Some (map g [0..<48])"
    using map_seeds_Some [of "Seed s1" "stop_seed False (base_table t) child" g] g l by simp
  then have r: "row_stop False tdefs t s1 = Some s2"
    unfolding row_stop_def s2_def child Let_def by (auto simp: base_table_def split: if_splits)
  have nth2: "Seed s2 ! i = g i" if "i < 48" for i using that by (simp add: s2_def)
  have "rng_ok s2"
  proof (rule rng_okI)
    fix i :: nat assume i: "i < 48"
    show "seed_ok (val s2 i) \<and> 0 \<le> sd_usage (Seed s2 ! i) \<and> 0 \<le> sd_boundary (Seed s2 ! i) \<and> sd_boundary (Seed s2 ! i) < 2 ^ 31"
      using rng_okD [OF ok1] rng_okD(2) [OF ok] i unfolding nth2 [OF i] by (simp add: g_def NextRand_iter_ok)
  qed (simp add: s2_def)
  moreover have "frame s2 = frame s1"
    using l by (intro nth_equalityI) (simp_all add: frame_def s2_def g_def)
  ultimately have "rng_inv s2" using inv1 by (simp add: rng_inv_def)
  then have "advanced (boundary_rate (base_table t) child) s s2" unfolding advanced_def by (simp add: nth2 g_def)
  with r show ?thesis by blast
qed

text \<open>Every builder that is tied to the streams of its table is a generator.\<close>

lemma tied_generator:
  assumes "\<And>n. tied tuple2 A k (mk n)" "\<And>n s. rng_ok s \<Longrightarrow> \<exists>x s'. mk n s = Some (x, s')" "k < 2 ^ 31 - 1"
    and "\<And>i. i \<in> A \<Longrightarrow> stream_table i = base_table t \<or> stream_table i = child" "child = td_child (tdefs ! nat (base_table t))"
  shows "row_generator mk tdefs t (boundary_rate (base_table t) child)"
proof
  fix s :: rng and i
  assume s: "rng_inv s"
  note ok = rng_inv_ok [OF row_start_inv [OF s, of t]]
  obtain x s1 where x: "mk i (row_start t s) = Some (x, s1)" using assms(2) [OF ok] by blast
  have "spends A k (row_start t s) s1" using tied_spends [OF assms(1) ok x] by (simp add: tuple2_def)
  from row_stop_boundary [OF s this assms(3,4,5)] x
  show "\<exists>r s1 s2. mk i (row_start t s) = Some (r, s1) \<and> row_stop False tdefs t s1 = Some s2 \<and>
      advanced (boundary_rate (base_table t) child) s s2" by blast
qed

text \<open>The seed routine of a table moves the streams in \<open>A\<close> as the rows do.\<close>

lemma tied_seekable:
  assumes "\<And>n. tied tuple2 A k (mk n)" "\<And>n s. rng_ok s \<Longrightarrow> \<exists>x s'. mk n s = Some (x, s')" "k < 2 ^ 31 - 1"
    and "\<And>i. i \<in> A \<Longrightarrow> stream_table i = base_table t \<or> stream_table i = child" "child = td_child (tdefs ! nat (base_table t))"
    and "\<And>i. i \<in> A \<Longrightarrow> i < 48"
    and "\<And>s n. rng_inv s \<Longrightarrow> n < limit \<Longrightarrow> \<exists>s'. skip (int n) s = Some s' \<and> rng_inv s' \<and>
      (\<forall>i \<in> A. val s' i = (NextRand ^^ (n * stream_boundary i)) (val s i))"
  shows "seekable mk tdefs t (boundary_rate (base_table t) child) A (\<lambda>x. x) skip limit"
proof (rule seekableI)
  show "row_generator mk tdefs t (boundary_rate (base_table t) child)" by (rule tied_generator [OF assms(1-5)])
  fix s s' j assume "agree A s s'"
  from tied_agree [OF assms(1) [of j] this]
  show "map_option ((\<lambda>x. x) \<circ> fst) (mk j s) = map_option ((\<lambda>x. x) \<circ> fst) (mk j s')" by cases (auto simp: tuple2_def)
next
  fix s n assume "rng_inv s" "n < limit"
  from assms(7) [OF this] assms(4)
  show "\<exists>s'. skip (int n) s = Some s' \<and> rng_inv s' \<and> (\<forall>i \<in> A. val s' i = (NextRand ^^ (n * boundary_rate (base_table t) child i)) (val s i))"
    by (auto simp: boundary_rate_def)
qed (use assms(6) in auto)

subsection \<open>The seed routines of the workload\<close>

definition cust_set :: "nat set" where "cust_set = {26, 27, 28, 29, 30, 31}"
definition supp_set :: "nat set" where "supp_set = {32, 33, 34, 35, 36, 44, 45, 46, 47}"
definition part_set :: "nat set" where "part_set = {0, 1, 2, 3, 4, 6, 7, 8, 9, 37}"
definition order_set :: "nat set" where "order_set = {11, 12, 13, 38, 40, 43, 14, 15, 16, 17, 18, 19, 20, 21, 22, 23, 24, 25}"

text \<open>The tables whose details are built along with them, and the child whose streams \<open>row_stop\<close> fills up too.\<close>

definition tpch_split :: "int set" where "tpch_split = {CUST, SUPP, PART, PART_PSUPP, ORDER, ORDER_LINE}"

definition tpch_child :: "int \<Rightarrow> int" where
  "tpch_child t = (if t = PART \<or> t = PART_PSUPP then PSUPP else if t = ORDER \<or> t = ORDER_LINE then LINE else NONE)"

definition tpch_streams :: "int \<Rightarrow> nat set" where
  "tpch_streams t = (if t = CUST then cust_set else if t = SUPP then supp_set else if t = PART \<or> t = PART_PSUPP then part_set
     else order_set)"

text \<open>What the calls that \<open>set_state\<close> makes for a table and its child amount to (\<open>tpch_skip_once\<close> in \<open>Tpch_Steps\<close> proves it of
  the model of \<open>set_state\<close>); the limit on the number of rows keeps every count below \<open>2 ^ 31\<close>, as
  \<open>NthElement\<close> drops the higher bits.\<close>

definition tpch_skip :: "int \<Rightarrow> int \<Rightarrow> rng \<Rightarrow> rng option" where
  "tpch_skip t rows s = (if t = CUST then sd_cust 0 rows s else if t = SUPP then sd_supp 0 rows s
     else if t = PART \<or> t = PART_PSUPP then Option.bind (sd_part 0 rows s) (sd_psupp 0 rows)
     else Option.bind (sd_order 0 rows s) (sd_line 0 rows))"

definition tpch_limit :: "int \<Rightarrow> nat" where
  "tpch_limit t = (if t = CUST then 6628035 else if t = SUPP then 7230584 else if t = PART \<or> t = PART_PSUPP then 994206 else 2272470)"

lemma seed_routines:
  assumes "rng_inv s" "r = advance_all c1 s" "\<And>s. rng_inv s \<Longrightarrow> g s = advance_all c2 s" "calls_ok c1" "calls_ok c2"
    and "\<And>i. i \<in> A \<Longrightarrow> i < 48 \<and> call_steps c1 i + call_steps c2 i = n * rate i"
  shows "\<exists>s'. Option.bind r g = Some s' \<and> rng_inv s' \<and> (\<forall>i \<in> A. val s' i = (NextRand ^^ (n * rate i)) (val s i))"
proof -
  obtain s1 where s1: "advance_all c1 s = Some s1" "advanced (call_steps c1) s s1"
    using advance_all_advances [OF assms(1,4)] by blast
  have inv: "rng_inv s1" using s1(2) by (simp add: advanced_def)
  obtain s2 where s2: "advance_all c2 s1 = Some s2" "advanced (call_steps c2) s1 s2"
    using advance_all_advances [OF inv assms(5)] by blast
  have "advanced (\<lambda>i. call_steps c1 i + call_steps c2 i) s s2" by (rule advanced_trans [OF s1(2) s2(2)])
  then have "val s2 i = (NextRand ^^ (n * rate i)) (val s i)" if "i \<in> A" for i
    using assms(6) [OF that] unfolding advanced_def by metis
  then show ?thesis using s1 s2 assms(2) assms(3) [OF inv] by (auto simp: advanced_def)
qed

lemma stream_facts_more:
  "stream_table 6 = PART" "stream_table 7 = PSUPP" "stream_table 8 = PSUPP" "stream_table 9 = PSUPP" "stream_table 12 = ORDER"
  "stream_table 17 = LINE" "stream_table 21 = LINE" "stream_table 23 = LINE" "stream_table 24 = LINE" "stream_table 25 = LINE"
  "stream_table 29 = CUST" "stream_table 31 = CUST" "stream_table 34 = SUPP" "stream_table 35 = SUPP" "stream_table 36 = SUPP"
  "stream_table 44 = SUPP" "stream_table 45 = SUPP" "stream_table 46 = SUPP" "stream_table 47 = SUPP"
  "stream_boundary 6 = 81" "stream_boundary 7 = 4" "stream_boundary 8 = 4" "stream_boundary 9 = 2160" "stream_boundary 11 = 1" "stream_boundary 12 = 216"
  "stream_boundary 13 = 1" "stream_boundary 17 = 7" "stream_boundary 21 = 7" "stream_boundary 23 = 7" "stream_boundary 24 = 7"
  "stream_boundary 25 = 945" "stream_boundary 29 = 1" "stream_boundary 31 = 324" "stream_boundary 34 = 3" "stream_boundary 35 = 1"
  "stream_boundary 36 = 297" "stream_boundary 38 = 1" "stream_boundary 40 = 1" "stream_boundary 43 = 1" "stream_boundary 44 = 1" "stream_boundary 45 = 1" "stream_boundary 46 = 1"
  "stream_boundary 47 = 1"
  unfolding stream_table_def stream_boundary_def Seed_init_def mk_seed_def by simp_all

lemma skip_cust:
  assumes "rng_inv s" "n < 6628035"
  shows "\<exists>s'. sd_cust 0 (int n) s = Some s' \<and> rng_inv s' \<and>
    (\<forall>i \<in> cust_set. val s' i = (NextRand ^^ (n * stream_boundary i)) (val s i))"
proof (rule seed_routine [OF assms(1)])
  let ?calls = "[(26, 9 * int n), (31, 324 * int n), (27, int n), (28, 3 * int n), (29, int n), (30, int n)]"
  show "sd_cust 0 (int n) s = advance_all ?calls s"
    by (simp add: sd_cust_def fake_v_str_calls [OF assms(1)] stream_facts stream_facts_more del: advance_all.simps)
  fix i assume "i \<in> cust_set"
  then show "i < 48 \<and> call_steps ?calls i = n * stream_boundary i"
    using assms(2) by (auto simp: cust_set_def call_steps_def stream_facts stream_facts_more nat_mult_distrib)
qed (simp add: calls_ok_def)

lemma skip_supp:
  assumes "rng_inv s" "n < 7230584"
  shows "\<exists>s'. sd_supp 0 (int n) s = Some s' \<and> rng_inv s' \<and>
    (\<forall>i \<in> supp_set. val s' i = (NextRand ^^ (n * stream_boundary i)) (val s i))"
proof (rule seed_routine [OF assms(1)])
  let ?calls = "[(33, int n), (34, 3 * int n), (35, int n), (32, 9 * int n), (36, 297 * int n),
      (46, int n), (44, int n), (47, int n), (45, int n)]"
  show "sd_supp 0 (int n) s = advance_all ?calls s"
    by (simp add: sd_supp_def fake_v_str_calls [OF assms(1)] stream_facts stream_facts_more del: advance_all.simps)
  fix i assume "i \<in> supp_set"
  then show "i < 48 \<and> call_steps ?calls i = n * stream_boundary i"
    using assms(2) by (auto simp: supp_set_def call_steps_def stream_facts stream_facts_more nat_mult_distrib)
qed (simp add: calls_ok_def)

lemma skip_part:
  assumes "rng_inv s" "n < 994206"
  shows "\<exists>s'. Option.bind (sd_part 0 (int n) s) (sd_psupp 0 (int n)) = Some s' \<and> rng_inv s' \<and>
    (\<forall>i \<in> part_set. val s' i = (NextRand ^^ (n * stream_boundary i)) (val s i))"
proof (rule seed_routines [OF assms(1)])
  let ?c1 = "[(0, int n), (1, int n), (2, int n), (3, int n), (4, int n), (6, 81 * int n), (37, int n * 92)]"
  let ?c2 = "concat (replicate 4 [(7, int n), (8, int n)]) @ [(9, 2160 * int n)]"
  have up: "[0..4] = [0, 1, 2, 3, 4 :: int]" by (simp add: upto.simps)
  show "sd_part 0 (int n) s = advance_all ?c1 s"
    by (simp add: sd_part_def fake_v_str_calls [OF assms(1)] stream_facts_more up del: advance_all.simps)
  show "sd_psupp 0 (int n) s1 = advance_all ?c2 s1" if "rng_inv s1" for s1
    by (simp add: sd_psupp_def fake_v_str_calls [OF that] stream_facts_more del: advance_all.simps)
  show "i < 48 \<and> call_steps ?c1 i + call_steps ?c2 i = n * stream_boundary i" if "i \<in> part_set" for i
    using that assms(2) unfolding call_steps_append call_steps_rounds part_set_def
    by (auto simp: call_steps_def stream_facts stream_facts_more nat_mult_distrib simp del: One_nat_def)
qed (auto simp: calls_ok_def)

lemma skip_order:
  assumes "rng_inv s" "n < 2272470"
  shows "\<exists>s'. Option.bind (sd_order 0 (int n) s) (sd_line 0 (int n)) = Some s' \<and> rng_inv s' \<and>
    (\<forall>i \<in> order_set. val s' i = (NextRand ^^ (n * stream_boundary i)) (val s i))"
proof (rule seed_routines [OF assms(1)])
  let ?c1 = "[(43, int n), (40, int n), (12, 216 * int n), (10, int n), (11, int n), (38, int n), (13, int n)]"
  let ?round = "map (\<lambda>i. (i, int n)) [14, 15, 16, 17, 18, 19, 20, 21, 22, 23, 24]"
  let ?c2 = "concat (replicate 7 ?round) @ [(25, 945 * int n)]"
  have up: "[14..24] = [14, 15, 16, 17, 18, 19, 20, 21, 22, 23, 24 :: int]" by (simp add: upto.simps)
  show "sd_order 0 (int n) s = advance_all ?c1 s"
    by (simp add: sd_order_def fake_v_str_calls [OF assms(1)] stream_facts_more del: advance_all.simps)
  show "sd_line 0 (int n) s1 = advance_all ?c2 s1" if "rng_inv s1" for s1
    by (simp add: sd_line_def fake_v_str_calls [OF that] stream_facts_more up del: advance_all.simps)
  show "i < 48 \<and> call_steps ?c1 i + call_steps ?c2 i = n * stream_boundary i" if "i \<in> order_set" for i
    using that assms(2) unfolding call_steps_append call_steps_rounds order_set_def
    by (auto simp: call_steps_def stream_facts stream_facts_more nat_mult_distrib)
qed (auto simp: calls_ok_def)

lemma tpch_skip_moves:
  assumes "t \<in> tpch_split" "rng_inv s" "n < tpch_limit t"
  shows "\<exists>s'. tpch_skip t (int n) s = Some s' \<and> rng_inv s' \<and>
    (\<forall>i \<in> tpch_streams t. val s' i = (NextRand ^^ (n * stream_boundary i)) (val s i))"
  using assms skip_cust [OF assms(2), of n] skip_supp [OF assms(2), of n] skip_part [OF assms(2), of n] skip_order [OF assms(2), of n]
  by (auto simp: tpch_split_def tpch_skip_def tpch_limit_def tpch_streams_def)

text \<open>The streams of a table belong to it or to its child.\<close>

lemma tpch_streams_table:
  assumes "t \<in> tpch_split" "i \<in> tpch_streams t"
  shows "i < 48 \<and> (stream_table i = base_table t \<or> stream_table i = tpch_child (base_table t))"
  using assms by (auto simp: tpch_split_def tpch_streams_def cust_set_def supp_set_def part_set_def order_set_def base_table_def
    tpch_child_def stream_facts stream_facts_more simp del: One_nat_def)

definition tpch_rate :: "int \<Rightarrow> nat \<Rightarrow> nat" where
  "tpch_rate t = boundary_rate (base_table t) (tpch_child (base_table t))"

lemma tpch_seekable:
  assumes "t \<in> tpch_split" "\<And>n. tied tuple2 (tpch_streams t) k (mk n)" "\<And>n s. rng_ok s \<Longrightarrow> \<exists>x s'. mk n s = Some (x, s')"
    and "k < 2 ^ 31 - 1" "td_child (tdefs ! nat (base_table t)) = tpch_child (base_table t)"
  shows "seekable mk tdefs t (tpch_rate t) (tpch_streams t) (\<lambda>x. x) (tpch_skip t) (tpch_limit t)"
  unfolding tpch_rate_def
  by (rule tied_seekable [OF assms(2-4) _ assms(5) [symmetric] _ tpch_skip_moves [OF assms(1)]])
    (use tpch_streams_table [OF assms(1)] in auto)

end
