(* ===== verification/Tpch_Output.thy ===== *)
theory Tpch_Output
  imports Tpch_Tables
begin

text \<open>
  Where the rows of TPC-H go: the \<open>pr_\<close> routines of \<open>print.c\<close> with their static file pointers.  Orders and lines, and parts and
  their suppliers, are printed to two files in turn; the locale \<open>two_files\<close> extends the discipline of one static file pointer to two
  that do not disturb each other.
\<close>

subsection \<open>The \<open>pr_\<close> routines\<close>

definition tpch_pr_cust :: "config \<Rightarrow> tdef list \<Rightarrow> tpch_customer_t \<Rightarrow> outs \<Rightarrow> abort + outs" where
  "tpch_pr_cust cf tdefs c os =
     pr_static cf tdefs CUST 0 fp_cust (\<lambda>fp os. os\<lparr>fp_cust := fp\<rparr>) (tpch_cust_text (columnar cf) c) os"

definition tpch_pr_supp :: "config \<Rightarrow> tdef list \<Rightarrow> tpch_supplier_t \<Rightarrow> int \<Rightarrow> outs \<Rightarrow> abort + outs" where
  "tpch_pr_supp cf tdefs s mode os =
     pr_static cf tdefs SUPP mode fp_supp (\<lambda>fp os. os\<lparr>fp_supp := fp\<rparr>) (tpch_supp_text (columnar cf) s) os"

definition tpch_pr_part :: "config \<Rightarrow> tdef list \<Rightarrow> tpch_part_t \<Rightarrow> outs \<Rightarrow> abort + outs" where
  "tpch_pr_part cf tdefs p os =
     pr_static cf tdefs PART 0 fp_part (\<lambda>fp os. os\<lparr>fp_part := fp\<rparr>) (tpch_part_text (columnar cf) p) os"

definition pr_psupp :: "config \<Rightarrow> tdef list \<Rightarrow> tpch_part_t \<Rightarrow> int \<Rightarrow> outs \<Rightarrow> abort + outs" where
  "pr_psupp cf tdefs p mode os =
     pr_static cf tdefs PSUPP mode fp_psupp (\<lambda>fp os. os\<lparr>fp_psupp := fp\<rparr>) (psupps_text (columnar cf) p) os"

definition pr_nation :: "config \<Rightarrow> tdef list \<Rightarrow> code_t \<Rightarrow> int \<Rightarrow> outs \<Rightarrow> abort + outs" where
  "pr_nation cf tdefs c mode os =
     pr_static cf tdefs NATION mode fp_nation (\<lambda>fp os. os\<lparr>fp_nation := fp\<rparr>) (nation_text (columnar cf) c) os"

definition pr_region :: "config \<Rightarrow> tdef list \<Rightarrow> code_t \<Rightarrow> int \<Rightarrow> outs \<Rightarrow> abort + outs" where
  "pr_region cf tdefs c mode os =
     pr_static cf tdefs REGION mode fp_region (\<lambda>fp os. os\<lparr>fp_region := fp\<rparr>) (region_text (columnar cf) c) os"

text \<open>Orders and lines: a new file when the update set changes.\<close>

definition pr_order :: "config \<Rightarrow> tdef list \<Rightarrow> tpch_order_t \<Rightarrow> int \<Rightarrow> outs \<Rightarrow> abort + outs" where
  "pr_order cf tdefs ord mode os =
     (case (if fp_order os = None \<or> mode \<noteq> order_mode os
            then map_sum id (\<lambda>(fp, os). (fp, os\<lparr>order_mode := mode\<rparr>)) (print_prep cf tdefs ORDER mode os)
            else Inr (fp_order os, os)) of
        Inl a \<Rightarrow> Inl a
      | Inr (fp, os) \<Rightarrow>
          map_sum id (\<lambda>(fp, wo). os\<lparr>wld := wo, fp_order := fp\<rparr>) (put (tpch_order_text (columnar cf) ord) fp (wld os)))"

definition tpch_pr_line :: "config \<Rightarrow> tdef list \<Rightarrow> tpch_order_t \<Rightarrow> int \<Rightarrow> outs \<Rightarrow> abort + outs" where
  "tpch_pr_line cf tdefs ord mode os =
     (case (if fp_line os = None \<or> mode \<noteq> last_mode os
            then map_sum id (\<lambda>(fp, os). (fp, os\<lparr>last_mode := mode\<rparr>)) (print_prep cf tdefs LINE mode os)
            else Inr (fp_line os, os)) of
        Inl a \<Rightarrow> Inl a
      | Inr (fp, os) \<Rightarrow>
          map_sum id (\<lambda>(fp, wo). os\<lparr>wld := wo, fp_line := fp\<rparr>) (put (tpch_lines_text (columnar cf) ord) fp (wld os)))"

text \<open>Master and detail together: the master takes the name of the combined table over.\<close>

definition take_name :: "int \<Rightarrow> int \<Rightarrow> tdef list \<Rightarrow> tdef list" where
  "take_name t u tdefs = tdefs[nat t := (tdefs ! nat t)\<lparr>td_name := td_name (tdefs ! nat u)\<rparr>]"

definition pr_order_line :: "config \<Rightarrow> tpch_order_t \<Rightarrow> int \<Rightarrow> tdef list \<times> outs \<Rightarrow> abort + (tdef list \<times> outs)" where
  "pr_order_line cf ord mode = (\<lambda>(tdefs, os).
     let tdefs = take_name ORDER ORDER_LINE tdefs
     in case pr_order cf tdefs ord mode os of
          Inl a \<Rightarrow> Inl a
        | Inr os \<Rightarrow> map_sum id (Pair tdefs) (tpch_pr_line cf tdefs ord mode os))"

definition pr_part_psupp :: "config \<Rightarrow> tpch_part_t \<Rightarrow> int \<Rightarrow> tdef list \<times> outs \<Rightarrow> abort + (tdef list \<times> outs)" where
  "pr_part_psupp cf p mode = (\<lambda>(tdefs, os).
     let tdefs = take_name PART PART_PSUPP tdefs
     in case tpch_pr_part cf tdefs p os of
          Inl a \<Rightarrow> Inl a
        | Inr os \<Rightarrow> map_sum id (Pair tdefs) (pr_psupp cf tdefs p mode os))"

subsection \<open>One file\<close>

text \<open>The file can be opened, or it is open behind the text \<open>s\<close>; \<open>c\<close> is what it held before.\<close>

definition writable :: "(outs \<Rightarrow> handle option) \<Rightarrow> config \<Rightarrow> string \<Rightarrow> string \<Rightarrow> string \<Rightarrow> outs \<Rightarrow> bool" where
  "writable rd cf path s c os \<longleftrightarrow>
     (rd os = Some \<lparr>h_path = path, h_pos = length s\<rparr> \<and> nodes (wld os) path = Some (Regular (overwrite 0 s c))) \<or>
     (rd os = None \<and> s = [] \<and> can_open cf path os \<and> file_at path os = c)"

definition file_set :: "string \<Rightarrow> string \<Rightarrow> world \<Rightarrow> world" where
  "file_set path c wo = wo\<lparr>nodes := (nodes wo)(path \<mapsto> Regular c)\<rparr>"

lemma file_set_simps [simp]:
  "nodes (file_set p c wo) = (nodes wo)(p \<mapsto> Regular c)" "denied (file_set p c wo) = denied wo" "statfails (file_set p c wo) = statfails wo"
  by (simp_all add: file_set_def)

lemma overwrite_Nil [simp]: "overwrite 0 [] c = c"
  by (simp add: overwrite_def)

context static_file
begin

lemma pr_write:
  assumes "writable rd cf path s c os" "path = table_path cf (td_name (tdefs ! nat t))"
  shows "pr_static cf tdefs t u rd wr x os =
    Inr (wr (Some \<lparr>h_path = path, h_pos = length (s @ x)\<rparr>) (os\<lparr>wld := file_set path (overwrite 0 (s @ x) c) (wld os)\<rparr>))"
  using assms(1) unfolding writable_def
proof (elim disjE conjE)
  assume "rd os = Some \<lparr>h_path = path, h_pos = length s\<rparr>" "nodes (wld os) path = Some (Regular (overwrite 0 s c))"
  then show ?thesis by (simp add: pr_static_def put_def fputs_def overwrite_append file_set_def)
next
  assume "rd os = None" "s = []" "can_open cf path os" "file_at path os = c"
  then show ?thesis
    by (simp add: pr_static_def print_prep_opens [OF _ assms(2)] put_def fputs_def file_set_def)
qed

lemma writable_after: "writable rd cf path s c (wr (Some \<lparr>h_path = path, h_pos = length s\<rparr>) (os\<lparr>wld := file_set path (overwrite 0 s c) wo\<rparr>))"
  by (simp add: writable_def rd_wr wld_wr)

end

subsection \<open>Two files in turn\<close>

locale two_files = A: static_file rd1 wr1 + B: static_file rd2 wr2
  for rd1 :: "outs \<Rightarrow> handle option" and wr1 and rd2 :: "outs \<Rightarrow> handle option" and wr2 +
  assumes apart: "rd1 (wr2 fp os) = rd1 os" "rd2 (wr1 fp os) = rd2 os"
    and not_world: "rd1 (os\<lparr>wld := wo\<rparr>) = rd1 os" "rd2 (os\<lparr>wld := wo\<rparr>) = rd2 os"
begin

text \<open>One row printed to both.\<close>

definition pr_both :: "config \<Rightarrow> tdef list \<Rightarrow> int \<Rightarrow> int \<Rightarrow> int \<Rightarrow> int \<Rightarrow> string \<Rightarrow> string \<Rightarrow> outs \<Rightarrow> abort + outs" where
  "pr_both cf tdefs t1 u1 t2 u2 x y os =
     (case pr_static cf tdefs t1 u1 rd1 wr1 x os of Inl a \<Rightarrow> Inl a | Inr os \<Rightarrow> pr_static cf tdefs t2 u2 rd2 wr2 y os)"

lemma pr_both_step:
  assumes "writable rd1 cf p1 s1 c1 os" "writable rd2 cf p2 s2 c2 os" "p1 \<noteq> p2"
    and "p1 = table_path cf (td_name (tdefs ! nat t1))" "p2 = table_path cf (td_name (tdefs ! nat t2))"
  shows "\<exists>os'. pr_both cf tdefs t1 u1 t2 u2 x y os = Inr os' \<and> writable rd1 cf p1 (s1 @ x) c1 os' \<and> writable rd2 cf p2 (s2 @ y) c2 os' \<and>
    nodes (wld os') p1 = Some (Regular (overwrite 0 (s1 @ x) c1)) \<and> nodes (wld os') p2 = Some (Regular (overwrite 0 (s2 @ y) c2))"
proof -
  let ?o1 = "wr1 (Some \<lparr>h_path = p1, h_pos = length (s1 @ x)\<rparr>) (os\<lparr>wld := file_set p1 (overwrite 0 (s1 @ x) c1) (wld os)\<rparr>)"
  let ?o2 = "wr2 (Some \<lparr>h_path = p2, h_pos = length (s2 @ y)\<rparr>) (?o1\<lparr>wld := file_set p2 (overwrite 0 (s2 @ y) c2) (wld ?o1)\<rparr>)"
  have "writable rd2 cf p2 s2 c2 ?o1"
    using assms(2,3) by (simp add: writable_def apart not_world can_open_def file_at_def A.wld_wr)
  then have "pr_static cf tdefs t2 u2 rd2 wr2 y ?o1 = Inr ?o2" by (rule B.pr_write [OF _ assms(5)])
  then have "pr_both cf tdefs t1 u1 t2 u2 x y os = Inr ?o2" by (simp add: pr_both_def A.pr_write [OF assms(1,4)])
  moreover have "writable rd1 cf p1 (s1 @ x) c1 ?o2" "nodes (wld ?o2) p1 = Some (Regular (overwrite 0 (s1 @ x) c1))"
    using assms(3) by (simp_all add: writable_def apart not_world A.rd_wr A.wld_wr B.wld_wr)
  moreover have "writable rd2 cf p2 (s2 @ y) c2 ?o2" "nodes (wld ?o2) p2 = Some (Regular (overwrite 0 (s2 @ y) c2))"
    by (rule B.writable_after) (simp add: B.wld_wr)
  ultimately show ?thesis by blast
qed

text \<open>All rows.\<close>

lemma pr_both_rows:
  assumes "p1 \<noteq> p2" "p1 = table_path cf (td_name (tdefs ! nat t1))" "p2 = table_path cf (td_name (tdefs ! nat t2))"
  shows "writable rd1 cf p1 s1 c1 os \<Longrightarrow> writable rd2 cf p2 s2 c2 os \<Longrightarrow> rs \<noteq> [] \<Longrightarrow>
    \<exists>os'. pr_seq (\<lambda>r. pr_both cf tdefs t1 u1 t2 u2 (f r) (g r)) rs os = Inr os' \<and>
      nodes (wld os') p1 = Some (Regular (overwrite 0 (s1 @ concat (map f rs)) c1)) \<and>
      nodes (wld os') p2 = Some (Regular (overwrite 0 (s2 @ concat (map g rs)) c2))"
proof (induction rs arbitrary: s1 s2 os)
  case (Cons r rs)
  obtain os1 where 1: "pr_both cf tdefs t1 u1 t2 u2 (f r) (g r) os = Inr os1" "writable rd1 cf p1 (s1 @ f r) c1 os1"
    "writable rd2 cf p2 (s2 @ g r) c2 os1" "nodes (wld os1) p1 = Some (Regular (overwrite 0 (s1 @ f r) c1))"
    "nodes (wld os1) p2 = Some (Regular (overwrite 0 (s2 @ g r) c2))"
    using pr_both_step [OF Cons.prems(1,2) assms, of u1 u2 "f r" "g r"] by blast
  show ?case
  proof (cases "rs = []")
    case True
    then show ?thesis using 1 by simp
  next
    case False
    from Cons.IH [OF 1(2,3) False] 1(1) show ?thesis by simp
  qed
qed simp

end

definition rd_order :: "int \<Rightarrow> outs \<Rightarrow> handle option" where
  "rd_order mode os = (if mode \<noteq> order_mode os then None else fp_order os)"

definition wr_order :: "int \<Rightarrow> handle option \<Rightarrow> outs \<Rightarrow> outs" where
  "wr_order mode fp os = os\<lparr>order_mode := mode, fp_order := fp\<rparr>"

interpretation order_lines: two_files "rd_order mode" "wr_order mode" "rd_line mode" "wr_line mode" for mode
  by unfold_locales (simp_all add: rd_order_def wr_order_def rd_line_def wr_line_def)

interpretation part_supps: two_files fp_part "\<lambda>fp os. os\<lparr>fp_part := fp\<rparr>" fp_psupp "\<lambda>fp os. os\<lparr>fp_psupp := fp\<rparr>"
  by unfold_locales simp_all

text \<open>A file pointer kept together with the update set it belongs to.\<close>

lemma static_by_mode:
  assumes "\<And>os. wld (set_mode os) = wld os" "\<And>os wo. set_mode (os\<lparr>wld := wo\<rparr>) = (set_mode os)\<lparr>wld := wo\<rparr>"
    and "\<And>os. mode = get_mode os \<Longrightarrow> set_mode os = os"
  shows "(case (if fp os = None \<or> mode \<noteq> get_mode os
            then map_sum id (\<lambda>(f, os). (f, set_mode os)) (print_prep cf tdefs t mode os) else Inr (fp os, os)) of
        Inl a \<Rightarrow> Inl a
      | Inr (f, os) \<Rightarrow> map_sum id (\<lambda>(f, wo). set_fp f (os\<lparr>wld := wo\<rparr>)) (put x f (wld os))) =
    pr_static cf tdefs t mode (\<lambda>os. if mode \<noteq> get_mode os then None else fp os) (\<lambda>f os. set_fp f (set_mode os)) x os"
proof (cases "fp os = None \<or> mode \<noteq> get_mode os")
  case True
  then show ?thesis
    by (cases "print_prep cf tdefs t mode os")
      (auto simp: pr_static_def assms(1,2) split: prod.splits intro!: arg_cong [where f = "\<lambda>f. map_sum id f _"] ext)
next
  case False
  then have "set_mode (os\<lparr>wld := wo\<rparr>) = os\<lparr>wld := wo\<rparr>" for wo using assms(2,3) by metis
  with False show ?thesis by (auto simp: pr_static_def)
qed

lemma pr_order_static:
  "pr_order cf tdefs ord mode os =
     pr_static cf tdefs ORDER mode (rd_order mode) (wr_order mode) (tpch_order_text (columnar cf) ord) os"
  unfolding pr_order_def rd_order_def [abs_def] wr_order_def [abs_def]
  using static_by_mode [where set_mode = "\<lambda>os. os\<lparr>order_mode := mode\<rparr>" and get_mode = order_mode and mode = mode and fp = fp_order
    and set_fp = "\<lambda>f os. os\<lparr>fp_order := f\<rparr>"] by simp

lemma wr_line_commuted: "wr_line mode = (\<lambda>fp os. os\<lparr>last_mode := mode, fp_line := fp\<rparr>)"
  by (simp add: wr_line_def fun_eq_iff)

lemma tpch_pr_line_static:
  "tpch_pr_line cf tdefs ord mode os =
     pr_static cf tdefs LINE mode (rd_line mode) (wr_line mode) (tpch_lines_text (columnar cf) ord) os"
  unfolding tpch_pr_line_def rd_line_def [abs_def] wr_line_commuted
  using static_by_mode [where set_mode = "\<lambda>os. os\<lparr>last_mode := mode\<rparr>" and get_mode = last_mode and mode = mode and fp = fp_line
    and set_fp = "\<lambda>f os. os\<lparr>fp_line := f\<rparr>"] by simp

end
