(* ===== verification/Tpch_Driver.thy ===== *)
theory Tpch_Driver
  imports Tpch_Seek Tpch_Output Chunks
begin

text \<open>
  The driver of \<open>dbgen\<close> in the branches for the other workload: the loop over the rows of a table with the builders,
  checksum and print routines of TPC-H, the processes that build parts of a table, and \<open>main\<close>.  What the branches share
  with those for the star schema is taken from \<open>Driver\<close>.
\<close>

subsection \<open>Distributions and memory\<close>

record hdists =
  hd_dists :: dists
  hd_text :: tdists
  hd_instruct :: distribution
  hd_rflag :: distribution

text \<open>Besides the \<open>platform\<close> of the star schema: what the array of the sentence and the arrays for the comments
  hold when a text is begun, and the bytes behind an amount that the checksum of the amount takes in.\<close>

record hplatform = platform +
  junk_sentence :: string
  junk_comment :: string
  after_cust :: "tpch_customer_t \<Rightarrow> int"
  after_order :: "tpch_order_t \<Rightarrow> int"
  after_line :: "line_t \<Rightarrow> int"
  after_part :: "tpch_part_t \<Rightarrow> int"
  after_psupp :: "partsupp_t \<Rightarrow> int"
  after_supp :: "tpch_supplier_t \<Rightarrow> int"

definition tpch_builder_env :: "globals \<Rightarrow> hplatform \<Rightarrow> hdists \<Rightarrow> tdef list \<Rightarrow> henv" where
  "tpch_builder_env g pf d tds = \<lparr>be_dists = hd_dists d, be_scale = g_scale g, be_refresh = refresh g, be_tdefs = tds,
     asc_date = the tpch_mk_ascdate, h_text = hd_text d, l_instruct_set = hd_instruct d, l_rflag_set = hd_rflag d,
     h_sentence = junk_sentence pf, h_comment = junk_comment pf\<rparr>"

subsection \<open>\<open>gen_tbl\<close>\<close>

datatype hrow = HOrder tpch_order_t | HSupp tpch_supplier_t | HCust tpch_customer_t | HPart tpch_part_t | HCode code_t | HNone

text \<open>The \<open>mk_\<close> routine of a table: a row of orders is built with its lines, a part with its suppliers, whichever of the
  two tables is asked for.\<close>

definition tpch_mk_row :: "henv \<Rightarrow> int \<Rightarrow> int \<Rightarrow> int \<Rightarrow> rng \<Rightarrow> (hrow \<times> rng) option" where
  "tpch_mk_row e tnum upd i s =
     (if tnum = LINE \<or> tnum = ORDER \<or> tnum = ORDER_LINE then map_option (map_prod HOrder id) (tpch_mk_order e (upd smod 10000) i s)
      else if tnum = SUPP then map_option (map_prod HSupp id) (tpch_mk_supp e i s)
      else if tnum = CUST then map_option (map_prod HCust id) (tpch_mk_cust e i s)
      else if tnum = PSUPP \<or> tnum = PART \<or> tnum = PART_PSUPP then map_option (map_prod HPart id) (tpch_mk_part e i s)
      else if tnum = NATION then map_option (map_prod HCode id) (mk_nation e i s)
      else if tnum = REGION then map_option (map_prod HCode id) (mk_region e i s)
      else Some (HNone, s))"

text \<open>The members \<open>verify\<close> and \<open>loader\<close> of the \<open>tdef\<close>s.  Printing both tables of a pair renames the first.\<close>

definition tpch_verify_row :: "hplatform \<Rightarrow> int \<Rightarrow> hrow \<Rightarrow> tdef list \<Rightarrow> tdef list" where
  "tpch_verify_row pf t r = (case r of
      HOrder x \<Rightarrow> if t = LINE then tpch_vrf_line (after_line pf) x
        else if t = ORDER then vrf_order (after_order pf x) x
        else vrf_order_line (after_order pf x) (after_line pf) x
    | HSupp x \<Rightarrow> tpch_vrf_supp (after_supp pf x) x
    | HCust x \<Rightarrow> tpch_vrf_cust (after_cust pf x) x
    | HPart x \<Rightarrow> if t = PART then tpch_vrf_part (after_part pf x) x
        else if t = PSUPP then vrf_psupp (after_psupp pf) x
        else vrf_part_psupp (after_part pf x) (after_psupp pf) x
    | HCode x \<Rightarrow> if t = NATION then vrf_nation x else vrf_region x
    | HNone \<Rightarrow> id)"

definition tpch_print_row :: "config \<Rightarrow> int \<Rightarrow> int \<Rightarrow> hrow \<Rightarrow> tdef list \<times> outs \<Rightarrow> abort + (tdef list \<times> outs)" where
  "tpch_print_row cf t upd r = (\<lambda>(tds, os).
     let keep = map_sum id (Pair tds)
     in case r of
      HOrder x \<Rightarrow> if t = LINE then keep (tpch_pr_line cf tds x upd os)
        else if t = ORDER then keep (pr_order cf tds x upd os)
        else pr_order_line cf x upd (tds, os)
    | HSupp x \<Rightarrow> keep (tpch_pr_supp cf tds x upd os)
    | HCust x \<Rightarrow> keep (tpch_pr_cust cf tds x os)
    | HPart x \<Rightarrow> if t = PART then keep (tpch_pr_part cf tds x os)
        else if t = PSUPP then keep (pr_psupp cf tds x upd os)
        else pr_part_psupp cf x upd (tds, os)
    | HCode x \<Rightarrow> if t = NATION then keep (pr_nation cf tds x 0 os) else keep (pr_region cf tds x 0 os)
    | HNone \<Rightarrow> Inr (tds, os))"

definition tpch_load_row :: "int \<Rightarrow> hrow \<Rightarrow> outs \<Rightarrow> outs" where
  "tpch_load_row t r = (case r of
      HOrder _ \<Rightarrow> if t = LINE then ld_line else if t = ORDER then ld_order else ld_order_line
    | HSupp _ \<Rightarrow> ld_supp
    | HCust _ \<Rightarrow> ld_cust
    | HPart _ \<Rightarrow> if t = PART then ld_part else if t = PSUPP then ld_psupp else ld_part_psupp
    | HCode _ \<Rightarrow> if t = NATION then ld_nation else ld_region
    | HNone \<Rightarrow> id)"

definition tpch_emit_row :: "globals \<Rightarrow> hplatform \<Rightarrow> int \<Rightarrow> int \<Rightarrow> hrow \<Rightarrow> run \<Rightarrow> abort + run" where
  "tpch_emit_row g pf t upd w r =
     (if g_set_seeds g then Inr r
      else if g_validate g then Inr (r\<lparr>r_tds := tpch_verify_row pf t w (r_tds r)\<rparr>)
      else if g_direct g \<noteq> 0 then Inr (r\<lparr>r_out := tpch_load_row t w (r_out r)\<rparr>)
      else map_sum id (\<lambda>(tds, os). r\<lparr>r_tds := tds, r_out := os\<rparr>)
        (tpch_print_row (config.truncate g) t upd w (r_tds r, r_out r)))"

definition tpch_gen_row :: "globals \<Rightarrow> hplatform \<Rightarrow> hdists \<Rightarrow> int \<Rightarrow> int \<times> int \<Rightarrow> int \<Rightarrow> int \<times> int \<Rightarrow> run \<Rightarrow> abort + ((int \<times> int) \<times> run)" where
  "tpch_gen_row g pf d tnum seg i su r =
     (let r = say g [lnoise ! nat (i smod 4), CHR 0x08] r
      in case tpch_mk_row (tpch_builder_env g pf d (r_tds r)) tnum (snd su) i (row_start tnum (r_streams r)) of
        None \<Rightarrow> Inl Crash
      | Some (w, s) \<Rightarrow>
          let su = (if tnum = LINE \<or> tnum = ORDER \<or> tnum = ORDER_LINE then next_insert g (fst seg) (snd seg) su else su)
          in case tpch_emit_row g pf tnum (snd su) w (r\<lparr>r_streams := s\<rparr>) of
               Inl a \<Rightarrow> Inl a
             | Inr r \<Rightarrow>
                 (case row_stop (g_set_seeds g) (r_tds r) tnum (r_streams r) of
                    None \<Rightarrow> Inl Crash
                  | Some s \<Rightarrow> map_sum id (Pair su) (show_seeds g tnum i (r\<lparr>r_streams := s\<rparr>))))"

fun tpch_gen_loop :: "nat \<Rightarrow> globals \<Rightarrow> hplatform \<Rightarrow> hdists \<Rightarrow> int \<Rightarrow> int \<times> int \<Rightarrow> int \<Rightarrow> int \<times> int \<Rightarrow> run \<Rightarrow> abort + run" where
  "tpch_gen_loop 0 g pf d tnum seg i su r = Inr r"
| "tpch_gen_loop (Suc n) g pf d tnum seg i su r =
     (case tpch_gen_row g pf d tnum seg i su r of
        Inl a \<Rightarrow> Inl a
      | Inr (su, r) \<Rightarrow> tpch_gen_loop n g pf d tnum seg (i + 1) su r)"

definition tpch_gen_tbl :: "globals \<Rightarrow> hplatform \<Rightarrow> hdists \<Rightarrow> int \<Rightarrow> int \<Rightarrow> int \<Rightarrow> int \<Rightarrow> run \<Rightarrow> abort + run" where
  "tpch_gen_tbl g pf d tnum start cnt upd r =
     (if cnt < 0 then Inl Crash else tpch_gen_loop (nat cnt) g pf d tnum (insert_split g cnt) start (- 1, upd) r)"

subsection \<open>Parts of a table\<close>

definition tpch_gen_seed :: seeders where
  "tpch_gen_seed t = (if t = PART \<or> t = PART_PSUPP then Some sd_part else if t = PSUPP then Some sd_psupp
     else if t = SUPP then Some sd_supp else if t = CUST then Some sd_cust
     else if t = ORDER \<or> t = ORDER_LINE then Some sd_order else if t = LINE then Some sd_line else None)"

definition tpch_partial :: "globals \<Rightarrow> hplatform \<Rightarrow> hdists \<Rightarrow> int \<Rightarrow> int \<Rightarrow> int \<Rightarrow> run \<Rightarrow> abort + run" where
  "tpch_partial g pf d tbl s upd r =
     (case prepare tpch_gen_seed g (platform.truncate pf) tbl s r of
        Inl a \<Rightarrow> Inl a
      | Inr (start, cnt, r) \<Rightarrow> map_sum id (say g (''done.'' @ [CHR 0x0A])) (tpch_gen_tbl g pf d tbl start cnt upd r))"

text \<open>The children one after the other, as in \<open>load_children\<close>.\<close>

fun tpch_load_children :: "nat \<Rightarrow> globals \<Rightarrow> hplatform \<Rightarrow> hdists \<Rightarrow> int \<Rightarrow> int \<Rightarrow> int \<Rightarrow> run \<Rightarrow> world \<Rightarrow> abort + world" where
  "tpch_load_children 0 g pf d tbl c upd r wo = Inr wo"
| "tpch_load_children (Suc n) g pf d tbl c upd r wo =
     (case tpch_partial (g\<lparr>g_verbose := 0\<rparr>) pf d tbl (c + 1) upd (on_world (\<lambda>_. wo) r) of
        Inl a \<Rightarrow> Inl a
      | Inr r' \<Rightarrow> tpch_load_children n g pf d tbl (c + 1) upd r (wld (r_out r')))"

definition tpch_pload :: "globals \<Rightarrow> hplatform \<Rightarrow> hdists \<Rightarrow> int \<Rightarrow> int \<Rightarrow> run \<Rightarrow> abort + run" where
  "tpch_pload g pf d tbl upd r =
     (let n = nat (g_children g);
          r = say g (''Starting '' @ fmt_d (g_children g) @ '' children to load '' @ td_comment (r_tds r ! nat tbl)) r
      in case tpch_load_children n g pf d tbl 0 upd r (wld (r_out r)) of
           Inl a \<Rightarrow> Inl a
         | Inr wo \<Rightarrow> Inr (say g (replicate n CHR ''.'' @ ''waiting...'' @ ''done'' @ [CHR 0x0A]) (on_world (\<lambda>_. wo) r)))"

subsection \<open>\<open>main\<close>\<close>

definition tpch_used_dists :: "(string \<times> dist_target) list \<Rightarrow> hdists option" where
  "tpch_used_dists ts = (let get = (\<lambda>n. Option.bind (map_of ts n) dist_of) in do {
     d \<leftarrow> used_dists ts; ins \<leftarrow> get ''instruct''; rf \<leftarrow> get ''rflag'';
     t1 \<leftarrow> get ''articles''; t2 \<leftarrow> get ''nouns''; t3 \<leftarrow> get ''adjectives''; t4 \<leftarrow> get ''adverbs''; t5 \<leftarrow> get ''prepositions'';
     t6 \<leftarrow> get ''verbs''; t7 \<leftarrow> get ''terminators''; t8 \<leftarrow> get ''auxillaries''; t9 \<leftarrow> get ''np''; t10 \<leftarrow> get ''vp''; t11 \<leftarrow> get ''grammar'';
     Some \<lparr>hd_dists = d, hd_text = \<lparr>articles = t1, nouns = t2, adjectives = t3, adverbs = t4, prepositions = t5, verbs = t6,
       terminators = t7, auxillaries = t8, np = t9, vp = t10, grammar = t11\<rparr>, hd_instruct = ins, hd_rflag = rf\<rparr> })"

definition tpch_table_rows :: "globals \<Rightarrow> tdef list \<Rightarrow> int \<Rightarrow> int" where
  "tpch_table_rows g tds i = (if i < NATION then td_base (tds ! nat i) * g_scale g else td_base (tds ! nat i))"

definition tpch_gen_one :: "globals \<Rightarrow> hplatform \<Rightarrow> hdists \<Rightarrow> int \<Rightarrow> run \<Rightarrow> abort + run" where
  "tpch_gen_one g pf d i r =
     (if \<not> bit (g_table g) (nat i) then Inr r
      else
        case (if g_children g > 1 \<and> i < NATION then
                if g_validate g then Inl Aborted
                else if g_step g \<ge> 0 then tpch_partial g pf d i (g_step g) 0 r
                else tpch_pload g pf d i 0 r
              else
                map_sum id (say g (''done.'' @ [CHR 0x0A]))
                  (tpch_gen_tbl g pf d i 1 (tpch_table_rows g (r_tds r) i) 0
                    (say g ((if g_validate g then ''Validating'' else ''Generating'') @ '' data for '' @
                      td_comment (r_tds r ! nat i) @ '' [pid: '' @ fmt_d (pid pf) @ '']'') r))) of
          Inl a \<Rightarrow> Inl a
        | Inr r \<Rightarrow> Inr (if g_validate g then
              on_world (printf (''Validation checksum for '' @ td_name (r_tds r ! nat i) @ '' at '' @ fmt_d (g_scale g) @
                '' GB: '' @ fmt_x (td_vtotal (r_tds r ! nat i) mod 2 ^ 32) @ [CHR 0x0A])) r
            else r))"

fun tpch_gen_all :: "globals \<Rightarrow> hplatform \<Rightarrow> hdists \<Rightarrow> int list \<Rightarrow> run \<Rightarrow> abort + run" where
  "tpch_gen_all g pf d [] r = Inr r"
| "tpch_gen_all g pf d (i # is) r = (case tpch_gen_one g pf d i r of Inl a \<Rightarrow> Inl a | Inr r \<Rightarrow> tpch_gen_all g pf d is r)"

text \<open>One update set after another, \<open>n\<close> to go: the orders with their lines, then the keys to delete.\<close>

fun tpch_gen_updates :: "nat \<Rightarrow> globals \<Rightarrow> hplatform \<Rightarrow> hdists \<Rightarrow> int \<Rightarrow> int \<Rightarrow> run \<Rightarrow> abort + run" where
  "tpch_gen_updates 0 g pf d rowcnt upd r = Inr r"
| "tpch_gen_updates (Suc n) g pf d rowcnt upd r =
     (let r = say g (''Generating update pair #'' @ fmt_d (upd + 1) @ '' for '' @ td_comment (r_tds r ! nat ORDER_LINE) @ '' [pid: '' @
            fmt_d (pid pf) @ '']'') r;
          r = r\<lparr>r_out := (r_out r)\<lparr>insert_orders_segment := 0, insert_lineitem_segment := 0, delete_segment := 0\<rparr>\<rparr>;
          minrow = upd * rowcnt + 1
      in case tpch_gen_tbl g pf d ORDER_LINE minrow rowcnt (upd + 1) r of
           Inl a \<Rightarrow> Inl a
         | Inr r \<Rightarrow>
             let r = say g (''done.'' @ [CHR 0x0A]) r
             in case pr_drange (config.truncate g) (r_tds r) ORDER_LINE minrow rowcnt (upd + 1) (r_out r) of
                  Inl a \<Rightarrow> Inl a
                | Inr (_, os) \<Rightarrow> tpch_gen_updates n g pf d rowcnt (upd + 1) (r\<lparr>r_out := os\<rparr>))"

definition tpch_update_rows :: "globals \<Rightarrow> tdef list \<Rightarrow> int" where
  "tpch_update_rows g tds =
     long_of_d (dmul (dmul (ddiv (d_of_long (td_base (tds ! nat ORDER_LINE))) 10000) (d_of_long (g_scale g))) (d_of_long (refresh g)))"

definition tpch_main_updates :: "globals \<Rightarrow> hplatform \<Rightarrow> hdists \<Rightarrow> run \<Rightarrow> abort + run" where
  "tpch_main_updates g pf d r =
     (case set_state tpch_gen_seed (r_tds r) (platform.truncate pf) ORDER (g_scale g) 1 2 (r_streams r) of
        Inl a \<Rightarrow> Inl a
      | Inr (_, _, s) \<Rightarrow>
          let rowcnt = tpch_update_rows g (r_tds r)
          in if rowcnt < - (2 ^ 31) \<or> 2 ^ 31 \<le> rowcnt then Inl Crash
             else if g_step g > 0 then
               (case sd_order 0 (rowcnt * (g_step g - 1)) s of
                  None \<Rightarrow> Inl Crash
                | Some s \<Rightarrow>
                    (case sd_line 0 (rowcnt * (g_step g - 1)) s of
                       None \<Rightarrow> Inl Crash
                     | Some s \<Rightarrow> tpch_gen_updates (nat (updates g - (g_step g - 1))) g pf d rowcnt (g_step g - 1) (r\<lparr>r_streams := s\<rparr>)))
             else tpch_gen_updates (nat (updates g)) g pf d rowcnt 0 (r\<lparr>r_streams := s\<rparr>))"

definition tpch_main_tables :: "globals \<Rightarrow> hplatform \<Rightarrow> hdists \<Rightarrow> run \<Rightarrow> abort + run" where
  "tpch_main_tables g pf d r =
     (let r = (if g_direct g \<noteq> 0 then r\<lparr>r_out := snd (prep_direct (r_out r))\<rparr> else r)
      in case (if g_direct g = 0 \<and> g_fnames g then ask_files g [PART..REGION] r else Inr r) of
           Inl a \<Rightarrow> Inl a
         | Inr r \<Rightarrow>
             (case tpch_gen_all g pf d [PART..REGION] r of
                Inl a \<Rightarrow> Inl a
              | Inr r \<Rightarrow> Inr (if g_direct g \<noteq> 0 then r\<lparr>r_out := snd (close_direct (r_out r))\<rparr> else r)))"

definition tpch_main_tdefs :: "tdef list \<Rightarrow> tdef list" where
  "tpch_main_tdefs tds = (let up = (\<lambda>t tds. tds[nat t := (tds ! nat t)\<lparr>td_base := td_base (tds ! nat t) * ORDERS_PER_CUST\<rparr>])
     in up ORDER_LINE (up LINE (up ORDER tds)))"

text \<open>\<open>main(argc, argv)\<close>, as for the star schema.\<close>

definition tpch_main :: "(string \<Rightarrow> string option) \<Rightarrow> bool \<Rightarrow> hplatform \<Rightarrow> string list \<Rightarrow> world \<Rightarrow> abort + run" where
  "tpch_main env stale pf av wo =
     (case process_options av \<lparr>o_g = (main_globals env stale)\<lparr>tpch := True\<rparr>, o_tds = tpch_main_tdefs tpch_tdefs, o_out = [], o_err = []\<rparr> of
        Inl (a, _) \<Rightarrow> Inl a
      | Inr st \<Rightarrow>
          let g = o_g st
          in case load_dists (getenv g) (world_files wo) (g_d_path g) of
               Inl e \<Rightarrow> Inl (read_abort e)
             | Inr ts \<Rightarrow>
                 (case tpch_used_dists ts of
                    None \<Rightarrow> Inl Crash
                  | Some d \<Rightarrow>
                      let r = \<lparr>r_streams = rng_init, r_tds = loaded_tdefs (hd_dists d) (o_tds st), r_out = outs_init (printf (o_out st) wo),
                            r_err = o_err st @ (if g_verbose g \<ge> 0 then banner (tpch g) else [])\<rparr>
                      in if updates g \<noteq> 0 then tpch_main_updates g pf d r else tpch_main_tables g pf d r))"

end
