(* ===== verification/Tpch_Runs.thy ===== *)
theory Tpch_Runs
  imports Tpch_Driver
begin

text \<open>
  Runs of the driver for TPC-H: the files of the tables built at once, the files of the steps of a table built by
  several processes, and how they fit together.
\<close>

subsection \<open>Table descriptions that differ in names\<close>

definition alike :: "tdef list \<Rightarrow> tdef list \<Rightarrow> bool" where
  "alike a b \<longleftrightarrow> (\<forall>k. td_base (a ! k) = td_base (b ! k) \<and> td_child (a ! k) = td_child (b ! k))"

lemma alike_refl: "alike a a" by (simp add: alike_def)

lemma alike_trans: "alike a b \<Longrightarrow> alike b c \<Longrightarrow> alike a c" by (simp add: alike_def)

lemma alike_rename: "alike (tds[i := (tds ! i)\<lparr>td_name := w\<rparr>]) tds"
  by (cases "i < length tds") (simp_all add: alike_def nth_list_update list_update_beyond)

lemma alike_take_name: "alike (take_name t u tds) tds"
  by (simp add: take_name_def alike_rename)

lemma row_stop_alike: "alike a b \<Longrightarrow> row_stop ss a t = row_stop ss b t"
  by (intro ext) (simp add: row_stop_def alike_def Let_def)

lemma gen_rows_alike: "alike a b \<Longrightarrow> gen_rows mk a t i n s = gen_rows mk b t i n s"
  by (induction n arbitrary: i s) (simp_all add: row_stop_alike)

lemma comment_alike:
  "TEXT (tpch_builder_env g pf d a) = TEXT (tpch_builder_env g pf d b)"
  "comment_of (tpch_builder_env g pf d a) = comment_of (tpch_builder_env g pf d b)"
  "tpch_mk_cust (tpch_builder_env g pf d a) = tpch_mk_cust (tpch_builder_env g pf d b)"
  "tpch_mk_supp (tpch_builder_env g pf d a) = tpch_mk_supp (tpch_builder_env g pf d b)"
  "mk_nation (tpch_builder_env g pf d a) = mk_nation (tpch_builder_env g pf d b)"
  "mk_region (tpch_builder_env g pf d a) = mk_region (tpch_builder_env g pf d b)"
proof -
  let ?e = "tpch_builder_env g pf d a" and ?e' = "tpch_builder_env g pf d b"
  show T: "TEXT ?e = TEXT ?e'" by (intro ext) (simp add: TEXT_def tpch_builder_env_def)
  then show C: "comment_of ?e = comment_of ?e'" by (intro ext) (simp only: comment_of_def)
  have d: "be_dists ?e = be_dists ?e'" by (simp add: tpch_builder_env_def)
  show "tpch_mk_cust ?e = tpch_mk_cust ?e'" by (intro ext) (simp only: tpch_mk_cust_def C d)
  show "tpch_mk_supp ?e = tpch_mk_supp ?e'" by (intro ext) (simp only: tpch_mk_supp_def T d)
  show "mk_nation ?e = mk_nation ?e'" by (intro ext) (simp only: mk_nation_def C d)
  show "mk_region ?e = mk_region ?e'" by (intro ext) (simp only: mk_region_def C d)
qed

lemma keys_alike:
  assumes "alike a b"
  shows "tot_scnt (tpch_builder_env g pf d a) = tot_scnt (tpch_builder_env g pf d b)"
    "tpch_O_CKEY_MAX (tpch_builder_env g pf d a) = tpch_O_CKEY_MAX (tpch_builder_env g pf d b)"
    "tpch_L_PKEY_MAX (tpch_builder_env g pf d a) = tpch_L_PKEY_MAX (tpch_builder_env g pf d b)"
    "PART_SUPP_BRIDGE (tpch_builder_env g pf d a) = PART_SUPP_BRIDGE (tpch_builder_env g pf d b)"
  using assms by (auto simp: alike_def tot_scnt_def tpch_O_CKEY_MAX_def tpch_L_PKEY_MAX_def PART_SUPP_BRIDGE_def tpch_builder_env_def
    fun_eq_iff)

lemma mk_part_alike:
  assumes "alike a b"
  shows "tpch_mk_part (tpch_builder_env g pf d a) = tpch_mk_part (tpch_builder_env g pf d b)"
proof -
  let ?e = "tpch_builder_env g pf d a" and ?e' = "tpch_builder_env g pf d b"
  have "mk_psupps n ?e i k s = mk_psupps n ?e' i k s" for n i k s
    by (induction n arbitrary: k s) (simp_all only: mk_psupps.simps comment_alike(2) [of g pf d a b] keys_alike [OF assms])
  moreover have "be_dists ?e = be_dists ?e'" by (simp add: tpch_builder_env_def)
  ultimately show ?thesis
    by (intro ext) (simp only: tpch_mk_part_def comment_alike(2) [of g pf d a b])
qed

lemma mk_order_alike:
  assumes "alike a b"
  shows "tpch_mk_order (tpch_builder_env g pf d a) = tpch_mk_order (tpch_builder_env g pf d b)"
proof -
  let ?e = "tpch_builder_env g pf d a" and ?e' = "tpch_builder_env g pf d b"
  have f: "be_dists ?e = be_dists ?e'" "l_instruct_set ?e = l_instruct_set ?e'" "l_rflag_set ?e = l_rflag_set ?e'"
    "asc_date ?e = asc_date ?e'" "be_scale ?e = be_scale ?e'" "be_refresh ?e = be_refresh ?e'"
    by (simp_all add: tpch_builder_env_def)
  have "return_flag ?e = return_flag ?e'" by (intro ext) (simp only: return_flag_def f)
  then have "tpch_mk_line ?e = tpch_mk_line ?e'"
    by (intro ext) (simp only: tpch_mk_line_def comment_alike(2) [of g pf d a b] keys_alike [OF assms] f)
  then have "tpch_mk_lines n ?e ok td l tp oc s = tpch_mk_lines n ?e' ok td l tp oc s" for n ok td l tp oc s
    by (induction n arbitrary: l tp oc s) simp_all
  then show ?thesis
    by (intro ext) (simp only: tpch_mk_order_def comment_alike(2) [of g pf d a b] keys_alike [OF assms] f)
qed

lemma tpch_mk_row_alike:
  assumes "alike a b"
  shows "tpch_mk_row (tpch_builder_env g pf d a) = tpch_mk_row (tpch_builder_env g pf d b)"
  by (intro ext) (simp only: tpch_mk_row_def comment_alike(3-6) [of g pf d a b] mk_part_alike [OF assms] mk_order_alike [OF assms])

subsection \<open>The files of a table\<close>

text \<open>The tables \<open>main\<close> builds unless told otherwise, but for the two short ones, and the files they are printed to: the second of a
  pair is the child's.\<close>

definition tpch_default :: "int set" where "tpch_default = {CUST, SUPP, PART_PSUPP, ORDER_LINE}"

definition tables_of :: "int \<Rightarrow> int list" where
  "tables_of t = (if t = PART_PSUPP then [PART_PSUPP, PSUPP] else if t = ORDER_LINE then [ORDER_LINE, LINE] else [t])"

text \<open>The text of a row in the file of table \<open>u\<close>.\<close>

definition tpch_text :: "int \<Rightarrow> bool \<Rightarrow> hrow \<Rightarrow> string" where
  "tpch_text u col w = (case w of
      HOrder x \<Rightarrow> if u = LINE then tpch_lines_text col x else tpch_order_text col x
    | HSupp x \<Rightarrow> tpch_supp_text col x
    | HCust x \<Rightarrow> tpch_cust_text col x
    | HPart x \<Rightarrow> if u = PSUPP then psupps_text col x else tpch_part_text col x
    | HCode x \<Rightarrow> if u = NATION then nation_text col x else region_text col x
    | HNone \<Rightarrow> [])"

definition row_of :: "int \<Rightarrow> hrow \<Rightarrow> bool" where
  "row_of t w = (case w of HOrder _ \<Rightarrow> t \<in> {LINE, ORDER, ORDER_LINE} | HSupp _ \<Rightarrow> t = SUPP | HCust _ \<Rightarrow> t = CUST
     | HPart _ \<Rightarrow> t \<in> {PSUPP, PART, PART_PSUPP} | HCode _ \<Rightarrow> t \<in> {NATION, REGION} | HNone \<Rightarrow>
       t \<notin> {LINE, ORDER, ORDER_LINE, SUPP, CUST, PSUPP, PART, PART_PSUPP, NATION, REGION})"

lemma mk_row_of: "tpch_mk_row e t upd i s = Some (w, s') \<Longrightarrow> row_of t w"
  by (auto simp: tpch_mk_row_def row_of_def split: if_splits)

lemma gen_rows_all:
  assumes "\<And>i s w s'. mk i s = Some (w, s') \<Longrightarrow> P w"
  shows "gen_rows mk tds t i n s = Some (ws, s') \<Longrightarrow> \<forall>w \<in> set ws. P w"
proof (induction n arbitrary: i s ws)
  case (Suc n)
  then show ?case using assms by (fastforce split: Option.bind_splits)
qed simp

text \<open>The names after the first row.\<close>

definition renamed :: "int \<Rightarrow> tdef list \<Rightarrow> tdef list" where
  "renamed t tds = (if t = ORDER_LINE then take_name ORDER ORDER_LINE tds
     else if t = PART_PSUPP then take_name PART PART_PSUPP tds else tds)"

lemma renamed_alike: "alike (renamed t tds) tds"
  by (simp add: renamed_def alike_take_name alike_refl)

lemma renamed_again: "renamed t (renamed t tds) = renamed t tds"
  by (cases "4 < length tds"; cases "0 < length tds") (simp_all add: renamed_def take_name_def nth_list_update list_update_beyond)

definition tpch_put :: "config \<Rightarrow> tdef list \<Rightarrow> int \<Rightarrow> int \<Rightarrow> hrow \<Rightarrow> outs \<Rightarrow> abort + outs" where
  "tpch_put cf tds t upd w = (let x = (\<lambda>u. tpch_text u (columnar cf) w) in
     if t = CUST then pr_static cf tds CUST 0 fp_cust (\<lambda>fp os. os\<lparr>fp_cust := fp\<rparr>) (x CUST)
     else if t = SUPP then pr_static cf tds SUPP upd fp_supp (\<lambda>fp os. os\<lparr>fp_supp := fp\<rparr>) (x SUPP)
     else if t = PART_PSUPP then part_supps.pr_both cf tds PART 0 PSUPP upd (x PART_PSUPP) (x PSUPP)
     else order_lines.pr_both upd cf tds ORDER upd LINE upd (x ORDER_LINE) (x LINE))"

lemma print_row_put:
  assumes "t \<in> tpch_default" "row_of t w"
  shows "tpch_print_row cf t upd w (tds, os) = map_sum id (Pair (renamed t tds)) (tpch_put cf (renamed t tds) t upd w os)"
  using assms
  by (cases w) (auto simp: tpch_default_def row_of_def tpch_print_row_def tpch_put_def tpch_text_def renamed_def Let_def tpch_pr_cust_def
    tpch_pr_supp_def pr_order_line_def pr_part_psupp_def part_supps.pr_both_def order_lines.pr_both_def tpch_pr_part_def pr_psupp_def
    pr_order_static tpch_pr_line_static split: sum.split)

lemma print_rows_put:
  assumes "t \<in> tpch_default"
  shows "\<forall>w \<in> set ws. row_of t w \<Longrightarrow> ws \<noteq> [] \<Longrightarrow> pr_seq (tpch_print_row cf t upd) ws (tds, os) =
    map_sum id (Pair (renamed t tds)) (pr_seq (tpch_put cf (renamed t tds) t upd) ws os)"
proof (induction ws arbitrary: tds os)
  case (Cons w ws)
  show ?case
  proof (cases "ws = []")
    case True
    then show ?thesis using print_row_put [OF assms, of w] Cons.prems(1) by (simp split: sum.split)
  next
    case False
    then show ?thesis
      using print_row_put [OF assms, of w] Cons.prems(1) Cons.IH [of "renamed t tds"] by (simp add: renamed_again split: sum.split)
  qed
qed simp

text \<open>The files of the table are not open, can be opened, and are different ones.\<close>

definition tpch_closed :: "int \<Rightarrow> int \<Rightarrow> outs \<Rightarrow> bool" where
  "tpch_closed t upd os \<longleftrightarrow> (if t = CUST then fp_cust os = None else if t = SUPP then fp_supp os = None
     else if t = PART_PSUPP then fp_part os = None \<and> fp_psupp os = None else rd_order upd os = None \<and> rd_line upd os = None)"

definition files_ready :: "config \<Rightarrow> tdef list \<Rightarrow> int \<Rightarrow> int \<Rightarrow> outs \<Rightarrow> bool" where
  "files_ready cf tds t upd os \<longleftrightarrow> tpch_closed t upd os \<and> (\<forall>u \<in> set (tables_of t). can_open cf (table_path cf (td_name (tds ! nat u))) os) \<and>
     distinct (map (\<lambda>u. table_path cf (td_name (tds ! nat u))) (tables_of t))"

lemma writable_closed: "rd os = None \<Longrightarrow> can_open cf path os \<Longrightarrow> writable rd cf path [] (file_at path os) os"
  by (simp add: writable_def)

lemma renamed_names:
  assumes "length tds = 10"
  shows "td_name (renamed ORDER_LINE tds ! nat ORDER) = td_name (tds ! nat ORDER_LINE)" "td_name (renamed ORDER_LINE tds ! nat LINE) = td_name (tds ! nat LINE)"
    "td_name (renamed PART_PSUPP tds ! nat PART) = td_name (tds ! nat PART_PSUPP)" "td_name (renamed PART_PSUPP tds ! nat PSUPP) = td_name (tds ! nat PSUPP)"
  using assms by (simp_all add: renamed_def take_name_def nth_list_update)

lemma put_files:
  assumes "t \<in> tpch_default" "files_ready cf tds t upd os" "length tds = 10" "ws \<noteq> []"
  shows "\<exists>os'. pr_seq (tpch_put cf (renamed t tds) t upd) ws os = Inr os' \<and>
    (\<forall>u \<in> set (tables_of t). file_at (table_path cf (td_name (tds ! nat u))) os' =
      overwrite 0 (concat (map (tpch_text u (columnar cf)) ws)) (file_at (table_path cf (td_name (tds ! nat u))) os))"
proof -
  let ?p = "\<lambda>u. table_path cf (td_name (tds ! nat u))" and ?x = "\<lambda>u. tpch_text u (columnar cf)"
  have ready: "tpch_closed t upd os" "\<And>u. u \<in> set (tables_of t) \<Longrightarrow> can_open cf (?p u) os" "distinct (map ?p (tables_of t))"
    using assms(2) by (simp_all add: files_ready_def)
  consider "t = CUST" | "t = SUPP" | "t = PART_PSUPP" | "t = ORDER_LINE" using assms(1) by (auto simp: tpch_default_def)
  then show ?thesis
  proof cases
    case 1
    have "fp_cust os = None" "can_open cf (?p CUST) os" using ready(1) ready(2) [of CUST] by (simp_all add: tpch_closed_def tables_of_def 1)
    from static_text [OF cust_file.static_file_axioms this assms(4), of 0 "?x CUST"]
    show ?thesis by (simp add: 1 tpch_put_def [abs_def] renamed_def tables_of_def overwrite_def)
  next
    case 2
    have "fp_supp os = None" "can_open cf (?p SUPP) os" using ready(1) ready(2) [of SUPP] by (simp_all add: tpch_closed_def tables_of_def 2)
    from static_text [OF supp_file.static_file_axioms this assms(4), of upd "?x SUPP"]
    show ?thesis by (simp add: 2 tpch_put_def [abs_def] renamed_def tables_of_def overwrite_def)
  next
    case 3
    have w: "writable fp_part cf (?p PART_PSUPP) [] (file_at (?p PART_PSUPP) os) os" "writable fp_psupp cf (?p PSUPP) [] (file_at (?p PSUPP) os) os"
      using ready(1) ready(2) [of PART_PSUPP] ready(2) [of PSUPP] by (simp_all add: tpch_closed_def tables_of_def 3 writable_closed)
    have d: "?p PART_PSUPP \<noteq> ?p PSUPP" using ready(3) by (simp add: tables_of_def 3)
    from part_supps.pr_both_rows [where tdefs = "renamed PART_PSUPP tds" and ?t1.0 = PART and ?t2.0 = PSUPP, OF d _ _ w assms(4), of 0 upd "?x PART_PSUPP" "?x PSUPP"]
    obtain os' where "pr_seq (\<lambda>r. part_supps.pr_both cf (renamed PART_PSUPP tds) PART 0 PSUPP upd (?x PART_PSUPP r) (?x PSUPP r)) ws os = Inr os'"
      "nodes (wld os') (?p PART_PSUPP) = Some (Regular (overwrite 0 (concat (map (?x PART_PSUPP) ws)) (file_at (?p PART_PSUPP) os)))"
      "nodes (wld os') (?p PSUPP) = Some (Regular (overwrite 0 (concat (map (?x PSUPP) ws)) (file_at (?p PSUPP) os)))"
      by (auto simp: renamed_names [OF assms(3)] simp del: PART_def PSUPP_def PART_PSUPP_def)
    then show ?thesis by (simp add: 3 tpch_put_def [abs_def] tables_of_def file_at_def)
  next
    case 4
    have w: "writable (rd_order upd) cf (?p ORDER_LINE) [] (file_at (?p ORDER_LINE) os) os" "writable (rd_line upd) cf (?p LINE) [] (file_at (?p LINE) os) os"
      using ready(1) ready(2) [of ORDER_LINE] ready(2) [of LINE] by (simp_all add: tpch_closed_def tables_of_def 4 writable_closed)
    have d: "?p ORDER_LINE \<noteq> ?p LINE" using ready(3) by (simp add: tables_of_def 4)
    from order_lines.pr_both_rows [where tdefs = "renamed ORDER_LINE tds" and ?t1.0 = ORDER and ?t2.0 = LINE, OF d _ _ w assms(4), of upd upd "?x ORDER_LINE" "?x LINE"]
    obtain os' where "pr_seq (\<lambda>r. order_lines.pr_both upd cf (renamed ORDER_LINE tds) ORDER upd LINE upd (?x ORDER_LINE r) (?x LINE r)) ws os = Inr os'"
      "nodes (wld os') (?p ORDER_LINE) = Some (Regular (overwrite 0 (concat (map (?x ORDER_LINE) ws)) (file_at (?p ORDER_LINE) os)))"
      "nodes (wld os') (?p LINE) = Some (Regular (overwrite 0 (concat (map (?x LINE) ws)) (file_at (?p LINE) os)))"
      by (auto simp: renamed_names [OF assms(3)] simp del: ORDER_def LINE_def ORDER_LINE_def)
    then show ?thesis by (simp add: 4 tpch_put_def [abs_def] tables_of_def file_at_def)
  qed
qed

subsection \<open>The row loop\<close>

lemma print_row_alike: "tpch_print_row cf t upd w (tds, os) = Inr (tds', os') \<Longrightarrow> alike tds' tds"
  by (auto simp: tpch_print_row_def pr_order_line_def pr_part_psupp_def Let_def alike_refl alike_take_name map_sum_def
    split: hrow.splits if_splits sum.splits)

lemma tpch_gen_row_quiet:
  assumes "quiet g" "tpch_mk_row (tpch_builder_env g pf d (r_tds r)) t upd i (row_start t (r_streams r)) = Some (w, s1)"
    "row_stop False (r_tds r) t s1 = Some s2" "tpch_print_row (config.truncate g) t upd w (r_tds r, r_out r) = Inr (tds', os)"
  shows "tpch_gen_row g pf d t seg i (k, upd) r = Inr ((k, upd), r\<lparr>r_tds := tds', r_out := os, r_streams := s2\<rparr>)"
proof -
  have su: "(if P then next_insert g (fst seg) (snd seg) (k, upd) else (k, upd)) = (k, upd)" for P
    by (simp add: quiet_steps(3) [OF assms(1)])
  have seeds: "\<not> g_set_seeds g" "\<not> g_validate g" "g_direct g = 0" using assms(1) by (simp_all add: quiet_def)
  have stop: "row_stop False tds' t s1 = Some s2"
    using assms(3) row_stop_alike [OF print_row_alike [OF assms(4)]] by simp
  show ?thesis
    unfolding tpch_gen_row_def su using assms(2,4) seeds stop
    by (simp add: quiet_steps(1,2) [OF assms(1)] tpch_emit_row_def)
qed

lemma tpch_gen_loop_rows:
  assumes "quiet g"
  shows "gen_rows (tpch_mk_row (tpch_builder_env g pf d tds) t upd) tds t i n s = Some (ws, s') \<Longrightarrow>
    pr_seq (tpch_print_row (config.truncate g) t upd) ws (r_tds r, os) = Inr (tds', os') \<Longrightarrow> alike (r_tds r) tds \<Longrightarrow>
    r_streams r = s \<Longrightarrow> r_out r = os \<Longrightarrow>
    tpch_gen_loop n g pf d t seg i (k, upd) r = Inr (r\<lparr>r_streams := s', r_tds := tds', r_out := os'\<rparr>)"
proof (induction n arbitrary: i s ws os r)
  case (Suc n)
  obtain w s1 s2 ws1 where w: "tpch_mk_row (tpch_builder_env g pf d tds) t upd i (row_start t s) = Some (w, s1)"
    "row_stop False tds t s1 = Some s2" "gen_rows (tpch_mk_row (tpch_builder_env g pf d tds) t upd) tds t (i + 1) n s2 = Some (ws1, s')"
    "ws = w # ws1" using Suc.prems(1) by (auto split: Option.bind_splits)
  obtain tds1 os1 where o: "tpch_print_row (config.truncate g) t upd w (r_tds r, os) = Inr (tds1, os1)"
    "pr_seq (tpch_print_row (config.truncate g) t upd) ws1 (tds1, os1) = Inr (tds', os')"
    using Suc.prems(2) w(4) by (auto split: sum.splits)
  have "tpch_gen_row g pf d t seg i (k, upd) r = Inr ((k, upd), r\<lparr>r_tds := tds1, r_out := os1, r_streams := s2\<rparr>)"
    by (rule tpch_gen_row_quiet [OF assms])
      (use w(1,2) o(1) Suc.prems(3-5) tpch_mk_row_alike [OF Suc.prems(3)] row_stop_alike [OF Suc.prems(3)] in simp_all)
  moreover have "alike tds1 tds" using print_row_alike [OF o(1)] Suc.prems(3) alike_trans by blast
  ultimately show ?case using Suc.IH [OF w(3), of "r\<lparr>r_tds := tds1, r_out := os1, r_streams := s2\<rparr>" os1] o(2) by simp
qed simp

subsection \<open>The rows\<close>

lemma tied_map:
  assumes "tied tuple2 A n f"
  shows "tied tuple2 A n (\<lambda>s. map_option (map_prod C id) (f s))"
proof -
  have "tied tuple2 A (n + 0) (\<lambda>s. Option.bind (f s) (\<lambda>(x, s). Some (C x, s)))" by (rule tied_bind [OF assms tied_Some(1)])
  moreover have "map_option (map_prod C id) (f s) = Option.bind (f s) (\<lambda>(x, s). Some (C x, s))" for s by (cases "f s") auto
  ultimately show ?thesis by simp
qed

text \<open>A part draws once for every colour; this keeps what it draws in the range that \<open>row_stop\<close> can take back.\<close>

definition tpch_ok :: "henv \<Rightarrow> bool" where
  "tpch_ok e \<longleftrightarrow> henv_ok e \<and> dcount (colors (be_dists e)) \<le> 1000000"

lemma tpch_ok_alike:
  assumes "alike a b"
  shows "tpch_ok (tpch_builder_env g pf d a) \<longleftrightarrow> tpch_ok (tpch_builder_env g pf d b)"
  using assms by (simp add: tpch_ok_def henv_ok_def tpch_builder_env_def alike_def)

lemma tied_row:
  assumes "tpch_ok e" "t \<in> tpch_split"
  shows "tied tuple2 (tpch_streams t) 1200000 (\<lambda>s. tpch_mk_row e t upd n s)"
proof -
  consider "t = CUST" | "t = SUPP" | "t = PART \<or> t = PART_PSUPP" | "t = ORDER \<or> t = ORDER_LINE" using assms(2) by (auto simp: tpch_split_def)
  then show ?thesis
  proof cases
    case 1
    have "tied tuple2 cust_set 1200000 (\<lambda>s. tpch_mk_cust e n s)"
      by (rule tied_le [OF tied_cust]) (auto simp: cust_set_def)
    then show ?thesis by (simp add: 1 tpch_mk_row_def tpch_streams_def tied_map)
  next
    case 2
    have "tied tuple2 supp_set 1200000 (\<lambda>s. tpch_mk_supp e n s)"
      by (rule tied_le [OF tied_supp]) (auto simp: supp_set_def)
    then show ?thesis by (simp add: 2 tpch_mk_row_def tpch_streams_def tied_map)
  next
    case 3
    have "tied tuple2 part_set 1200000 (\<lambda>s. tpch_mk_part e n s)"
      by (rule tied_le [OF tied_part]) (use assms(1) in \<open>auto simp: part_set_def tpch_ok_def\<close>)
    then show ?thesis using 3 by (auto simp: tpch_mk_row_def tpch_streams_def tied_map)
  next
    case 4
    have "{11, 12, 13, 38, 40, 43} \<union> {14..25} \<subseteq> order_set" by (auto simp: order_set_def; presburger)
    then have "tied tuple2 order_set 1200000 (\<lambda>s. tpch_mk_order e (upd smod 10000) n s)"
      by (rule tied_le [OF tied_order]) simp
    then show ?thesis using 4 by (auto simp: tpch_mk_row_def tpch_streams_def tied_map)
  qed
qed

lemma tpch_row_exists:
  assumes "henv_ok e" "t \<in> tpch_split" "rng_ok s"
  shows "\<exists>x s'. tpch_mk_row e t upd n s = Some (x, s')"
  using assms(2) tpch_customer [OF assms(1,3), of n] tpch_supplier [OF assms(1,3), of n] tpch_part [OF assms(1,3), of n]
    tpch_order [OF assms(1,3), of "upd smod 10000" n]
  by (auto simp: tpch_split_def tpch_mk_row_def yields_def)

lemma tpch_row_seekable:
  assumes "tpch_ok e" "t \<in> tpch_split" "td_child (be_tdefs e ! nat (base_table t)) = tpch_child (base_table t)"
  shows "seekable (tpch_mk_row e t upd) (be_tdefs e) t (tpch_rate t) (tpch_streams t) (\<lambda>x. x) (tpch_skip t) (tpch_limit t)"
  by (rule tpch_seekable [OF assms(2) tied_row [OF assms(1,2)] tpch_row_exists _ assms(3)]) (use assms(1,2) in \<open>auto simp: tpch_ok_def\<close>)

text \<open>What the run of a table needs: nothing else to write, the children as in the program, the files.\<close>

definition tpch_childs :: "tdef list \<Rightarrow> bool" where
  "tpch_childs tds \<longleftrightarrow> length tds = 10 \<and> (\<forall>t \<in> tpch_split. td_child (tds ! nat t) = tpch_child t)"

lemma base_split: "t \<in> tpch_split \<Longrightarrow> base_table t \<in> tpch_split" "t \<in> tpch_default \<Longrightarrow> t \<in> tpch_split"
  by (auto simp: tpch_split_def base_table_def tpch_default_def)

lemma tpch_writes:
  assumes "quiet g" "t \<in> tpch_default" "tpch_ok (tpch_builder_env g pf d (r_tds r))" "tpch_childs (r_tds r)" "rng_inv (r_streams r)" "0 < n"
    and "files_ready (config.truncate g) (r_tds r) t upd (r_out r)"
  shows "\<exists>ws r'. tpch_gen_tbl g pf d t i (int n) upd r = Inr r' \<and> length ws = n \<and>
    gen_rows (tpch_mk_row (tpch_builder_env g pf d (r_tds r)) t upd) (r_tds r) t i n (r_streams r) = Some (ws, r_streams r') \<and>
    (\<forall>u \<in> set (tables_of t). file_at (table_path (config.truncate g) (td_name (r_tds r ! nat u))) (r_out r') =
      overwrite 0 (concat (map (tpch_text u (columnar g)) ws)) (file_at (table_path (config.truncate g) (td_name (r_tds r ! nat u))) (r_out r)))"
proof -
  let ?e = "tpch_builder_env g pf d (r_tds r)" and ?cf = "config.truncate g"
  note t = base_split(2) [OF assms(2)]
  have e: "be_tdefs ?e = r_tds r" by (simp add: tpch_builder_env_def)
  have "td_child (be_tdefs ?e ! nat (base_table t)) = tpch_child (base_table t)"
    using assms(4) base_split(1) [OF t] by (simp add: e tpch_childs_def)
  from row_generator.gen_rows_advances [OF seekable.axioms(1) [OF tpch_row_seekable [OF assms(3) t this]] assms(5)]
  obtain ws s' where ws: "gen_rows (tpch_mk_row ?e t upd) (r_tds r) t i n (r_streams r) = Some (ws, s')" "length ws = n"
    unfolding e by blast
  have rows: "\<forall>w \<in> set ws. row_of t w" by (rule gen_rows_all [OF mk_row_of ws(1)])
  have ne: "ws \<noteq> []" using ws(2) assms(6) by auto
  have l: "length (r_tds r) = 10" using assms(4) by (simp add: tpch_childs_def)
  obtain os' where os': "pr_seq (tpch_put ?cf (renamed t (r_tds r)) t upd) ws (r_out r) = Inr os'"
    "\<forall>u \<in> set (tables_of t). file_at (table_path ?cf (td_name (r_tds r ! nat u))) os' =
      overwrite 0 (concat (map (tpch_text u (columnar ?cf)) ws)) (file_at (table_path ?cf (td_name (r_tds r ! nat u))) (r_out r))"
    using put_files [OF assms(2,7) l ne] by blast
  have "pr_seq (tpch_print_row ?cf t upd) ws (r_tds r, r_out r) = Inr (renamed t (r_tds r), os')"
    using print_rows_put [OF assms(2) rows ne] os'(1) by simp
  from tpch_gen_loop_rows [OF assms(1) ws(1) this alike_refl refl refl]
  have "tpch_gen_tbl g pf d t i (int n) upd r = Inr (r\<lparr>r_streams := s', r_tds := renamed t (r_tds r), r_out := os'\<rparr>)"
    by (simp add: tpch_gen_tbl_def)
  then show ?thesis using ws os'(2) by (auto simp: config.truncate_def)
qed

text \<open>
  C8: what \<open>gen_tbl\<close> leaves behind for TPC-H.  For customers, suppliers, parts with their suppliers and orders with their lines, it
  returns; every file of the table, two for a pair, then holds the texts of the \<open>n\<close> rows built, in order (and behind them what an
  older, longer file held there), so that the details stand in the order of their masters.
\<close>

theorem tpch_gen_tbl_files:
  assumes "quiet g" "t \<in> tpch_default" "tpch_ok (tpch_builder_env g pf d (r_tds r))" "tpch_childs (r_tds r)" "rng_inv (r_streams r)" "0 < n"
    and "files_ready (config.truncate g) (r_tds r) t upd (r_out r)"
  shows "\<exists>ws r'. tpch_gen_tbl g pf d t i (int n) upd r = Inr r' \<and> length ws = n \<and>
    gen_rows (tpch_mk_row (tpch_builder_env g pf d (r_tds r)) t upd) (r_tds r) t i n (r_streams r) = Some (ws, r_streams r') \<and>
    (\<forall>u \<in> set (tables_of t). file_at (table_path (config.truncate g) (td_name (r_tds r ! nat u))) (r_out r') =
      overwrite 0 (concat (map (tpch_text u (columnar g)) ws)) (file_at (table_path (config.truncate g) (td_name (r_tds r ! nat u))) (r_out r)))"
  by (rule tpch_writes [OF assms])

text \<open>The tables of the workload as \<open>main\<close> starts with them, and a run at scale 1 for the examples.\<close>

definition tpch_start :: "hdists \<Rightarrow> tdef list" where
  "tpch_start d = loaded_tdefs (hd_dists d) (tpch_main_tdefs tpch_tdefs)"

lemma tpch_start_nth:
  "length (tpch_start d) = 10"
  "map td_name (take 8 (tpch_start d)) = [''part.tbl'', ''partsupp.tbl'', ''supplier.tbl'', ''customer.tbl'', ''orders.tbl'', ''lineitem.tbl'',
     ''orders.tbl'', ''part.tbl'']"
  "map td_base (take 8 (tpch_start d)) = [200000, 200000, 10000, 150000, 1500000, 1500000, 1500000, 200000]"
  "map td_child (take 8 (tpch_start d)) = [PSUPP, NONE, NONE, NONE, LINE, NONE, LINE, PSUPP]"
  by (simp_all add: tpch_start_def loaded_tdefs_def tpch_main_tdefs_def tpch_tdefs_def mk_tdef_def Let_def ORDERS_PER_CUST_def)

lemma tpch_start_at: "k < 8 \<Longrightarrow> td_name (tpch_start d ! k) = map td_name (take 8 (tpch_start d)) ! k"
  "k < 8 \<Longrightarrow> td_base (tpch_start d ! k) = map td_base (take 8 (tpch_start d)) ! k"
  "k < 8 \<Longrightarrow> td_child (tpch_start d ! k) = map td_child (take 8 (tpch_start d)) ! k"
  by (simp_all add: tpch_start_nth(1))

lemma tpch_start_childs: "tpch_childs (tpch_start d)"
  by (auto simp: tpch_childs_def tpch_split_def tpch_child_def tpch_start_at tpch_start_nth)

definition ssb_hdists :: hdists where
  "ssb_hdists = \<lparr>hd_dists = ssb_dists, hd_text = ssb_tdists, hd_instruct = entries_dist instruct_entries, hd_rflag = entries_dist rflag_entries\<rparr>"

definition tpch_platform :: hplatform where
  "tpch_platform = \<lparr>tzoff = (\<lambda>_. 0), pid = 42, junk_nation = 0, junk_region = 0, junk_skip = 0, junk_sentence = replicate 257 NUL,
     junk_comment = replicate 200 NUL, after_cust = (\<lambda>_. 0), after_order = (\<lambda>_. 0), after_line = (\<lambda>_. 0), after_part = (\<lambda>_. 0),
     after_psupp = (\<lambda>_. 0), after_supp = (\<lambda>_. 0)\<rparr>"

definition tpch_globals :: globals where "tpch_globals = (main_globals (\<lambda>_. None) False)\<lparr>tpch := True\<rparr>"

definition tpch_run :: run where
  "tpch_run = \<lparr>r_streams = rng_init, r_tds = tpch_start ssb_hdists, r_out = outs_init empty_world, r_err = []\<rparr>"

lemma tpch_demo_ok:
  assumes "1 \<le> g_scale g" "g_scale g \<le> 1000"
  shows "tpch_ok (tpch_builder_env g tpch_platform ssb_hdists (tpch_start ssb_hdists))"
proof -
  let ?e = "tpch_builder_env g tpch_platform ssb_hdists (tpch_start ssb_hdists)" and ?f = "tpch_env (g_scale g) (refresh g)"
  have "?e = ?f\<lparr>be_tdefs := tpch_start ssb_hdists\<rparr>" by (simp add: tpch_builder_env_def tpch_env_def tpch_platform_def ssb_hdists_def)
  moreover have "td_base (tpch_start ssb_hdists ! 0) = 200000" "td_base (tpch_start ssb_hdists ! 2) = 10000" "td_base (tpch_start ssb_hdists ! 3) = 150000"
    by (simp_all add: tpch_start_at tpch_start_nth)
  ultimately have "henv_ok ?e" using tpch_env_ok [OF assms, of "refresh g"] by (simp add: henv_ok_def)
  moreover have "dcount (colors (be_dists ?e)) \<le> 1000000"
    by (simp add: tpch_builder_env_def ssb_hdists_def ssb_dists_def entries_dist_def colors_entries_def)
  ultimately show ?thesis by (simp add: tpch_ok_def)
qed

lemma tpch_quiet: "quiet tpch_globals"
  by (simp add: quiet_def tpch_globals_def main_globals_def)

lemma tpch_demo_ready:
  "files_ready (config.truncate tpch_globals) (tpch_start d) ORDER_LINE 0 (r_out tpch_run)"
  by (simp add: files_ready_def tpch_closed_def tables_of_def tpch_run_def outs_init_def rd_order_def rd_line_def tpch_start_at tpch_start_nth
    can_open_def table_path_def env_config_def tpch_globals_def main_globals_def config.truncate_def empty_world_def)

theorem tpch_gen_tbl_files_witness:
  "\<exists>ws r'. tpch_gen_tbl tpch_globals tpch_platform ssb_hdists ORDER_LINE 1 1500000 0 tpch_run = Inr r' \<and> length ws = 1500000 \<and>
    file_at ''./orders.tbl'' (r_out r') = concat (map (tpch_text ORDER_LINE False) ws) \<and>
    file_at ''./lineitem.tbl'' (r_out r') = concat (map (tpch_text LINE False) ws)"
proof -
  have t: "ORDER_LINE \<in> tpch_default" by (simp add: tpch_default_def)
  have r: "r_tds tpch_run = tpch_start ssb_hdists" "rng_inv (r_streams tpch_run)" by (simp_all add: tpch_run_def rng_init_inv)
  have g: "1 \<le> g_scale tpch_globals" "g_scale tpch_globals \<le> 1000" "columnar tpch_globals = False"
    by (simp_all add: tpch_globals_def main_globals_def)
  have p: "table_path (config.truncate tpch_globals) ''orders.tbl'' = ''./orders.tbl''"
    "table_path (config.truncate tpch_globals) ''lineitem.tbl'' = ''./lineitem.tbl''"
    by (simp_all add: table_path_def env_config_def tpch_globals_def main_globals_def config.truncate_def)
  have o: "file_at q (r_out tpch_run) = []" for q by (simp add: tpch_run_def outs_init_def file_at_def empty_world_def)
  have n: "td_name (tpch_start ssb_hdists ! nat ORDER_LINE) = ''orders.tbl''" "td_name (tpch_start ssb_hdists ! nat LINE) = ''lineitem.tbl''"
    by (simp_all add: tpch_start_at tpch_start_nth)
  have f: "set (tables_of ORDER_LINE) = {ORDER_LINE, LINE}" by (simp add: tables_of_def)
  obtain ws r' where ws: "tpch_gen_tbl tpch_globals tpch_platform ssb_hdists ORDER_LINE 1 (int 1500000) 0 tpch_run = Inr r'" "length ws = 1500000"
    "\<forall>u \<in> {ORDER_LINE, LINE}. file_at (table_path (config.truncate tpch_globals) (td_name (tpch_start ssb_hdists ! nat u))) (r_out r') =
      overwrite 0 (concat (map (tpch_text u False) ws)) []"
    using tpch_gen_tbl_files [OF tpch_quiet t, of tpch_platform ssb_hdists tpch_run 1500000 0 1, unfolded r(1) f o g(3), OF tpch_demo_ok [OF g(1,2)]
      tpch_start_childs r(2) _ tpch_demo_ready] by auto
  have "file_at ''./orders.tbl'' (r_out r') = overwrite 0 (concat (map (tpch_text ORDER_LINE False) ws)) []"
    "file_at ''./lineitem.tbl'' (r_out r') = overwrite 0 (concat (map (tpch_text LINE False) ws)) []"
    using bspec [OF ws(3), of ORDER_LINE] bspec [OF ws(3), of LINE] unfolding n p by simp_all
  then show ?thesis using ws(1,2) by (intro exI [of _ ws] exI [of _ r']) (simp add: overwrite_def)
qed

end
