(* ===== verification/Tpch_Steps.thy ===== *)
theory Tpch_Steps
  imports Tpch_Runs
begin

text \<open>
  Tables of TPC-H built in steps.  The streams of every table are filled up to a boundary behind each row, and
  \<open>set_state\<close> skips exactly these boundaries; so the steps, built apart, are the pieces of the table built at once.  This ends where the
  number of draws to be skipped leaves 31 bits.
\<close>

subsection \<open>Names and streams of a step\<close>

definition tpch_step_name :: "hdists \<Rightarrow> int \<Rightarrow> int \<Rightarrow> string" where
  "tpch_step_name d s u = td_name (tpch_start d ! nat u) @ ''.'' @ fmt_d s"

definition tpch_step_tdefs :: "hdists \<Rightarrow> int \<Rightarrow> int \<Rightarrow> tdef list" where
  "tpch_step_tdefs d t s = foldl (\<lambda>tds u. tds[nat u := (tds ! nat u)\<lparr>td_name := tpch_step_name d s u\<rparr>]) (tpch_start d) (tables_of t)"

lemma tables_of_cases:
  assumes "t \<in> tpch_default"
  obtains "t = CUST" "tables_of t = [CUST]" | "t = SUPP" "tables_of t = [SUPP]"
    | "t = PART_PSUPP" "tables_of t = [PART_PSUPP, PSUPP]" | "t = ORDER_LINE" "tables_of t = [ORDER_LINE, LINE]"
  using assms by (auto simp: tpch_default_def tables_of_def)

lemma step_alike: "alike (tpch_step_tdefs d t s) (tpch_start d)"
proof -
  have "alike (foldl (\<lambda>tds u. tds[nat u := (tds ! nat u)\<lparr>td_name := f u\<rparr>]) tds us) tds" for f us tds
    by (induction us arbitrary: tds) (auto intro: alike_refl alike_trans alike_rename)
  then show ?thesis by (simp add: tpch_step_tdefs_def)
qed

lemma tpch_step_names:
  assumes "t \<in> tpch_default" "u \<in> set (tables_of t)"
  shows "td_name (tpch_step_tdefs d t s ! nat u) = tpch_step_name d s u"
  by (rule tables_of_cases [OF assms(1)]) (use assms(2) in \<open>auto simp: tpch_step_tdefs_def nth_list_update tpch_start_nth(1)\<close>)

lemma step_childs: "tpch_childs (tpch_step_tdefs d t s)"
proof -
  have "length (foldl (\<lambda>tds u. tds[nat u := (tds ! nat u)\<lparr>td_name := f u\<rparr>]) tds us) = length tds" for f us and tds :: "tdef list"
    by (induction us arbitrary: tds) simp_all
  then show ?thesis
    using tpch_start_childs [of d] step_alike [of d t s] by (simp add: tpch_childs_def alike_def tpch_step_tdefs_def)
qed

text \<open>\<open>set_files\<close> names the files of the table, its child's too.\<close>

lemma tpch_step_files:
  assumes "t \<in> tpch_default" "bit (g_table g) (nat t)" "\<forall>u \<in> set (tables_of t). length (tpch_step_name d s u) < 80" "s \<noteq> - 1"
  shows "set_files g t s (tpch_start d) wo = Inr (0, tpch_step_tdefs d t s, wo)"
proof -
  let ?n = "\<lambda>u. tpch_step_name d s u"
  have n: "new_name s (td_name (tpch_start d ! nat u)) wo = Inr (Some (?n u), wo)" if "u \<in> set (tables_of t)" for u
    using bspec [OF assms(3) that] assms(4) by (simp add: new_name_def tpch_step_name_def)
  have ne: "?n u \<noteq> []" for u by (simp add: tpch_step_name_def)
  have l: "length (tpch_start d) = 10" by (rule tpch_start_nth)
  note at = tpch_start_at [of _ d] tpch_start_nth [of d]
  have c: "(tpch_start d ! Suc 0)\<lparr>td_child := - 1, td_name := w\<rparr> = (tpch_start d ! Suc 0)\<lparr>td_name := w\<rparr>"
    "(tpch_start d ! 5)\<lparr>td_child := - 1, td_name := w\<rparr> = (tpch_start d ! 5)\<lparr>td_name := w\<rparr>" for w
    by (rule tdef.equality; simp add: at)+
  show ?thesis
    using assms(1)
  proof (cases rule: tables_of_cases)
    case 1
    then show ?thesis using n [of CUST] ne [of CUST] l assms(2)
      by (simp add: set_files_def set_files_at.simps [of 3] at tpch_step_tdefs_def Let_def)
  next
    case 2
    then show ?thesis using n [of SUPP] ne [of SUPP] l assms(2)
      by (simp add: set_files_def set_files_at.simps [of 2] at tpch_step_tdefs_def Let_def)
  next
    case 3
    then show ?thesis using n [of PART_PSUPP] n [of PSUPP] ne l assms(2)
      by (simp add: set_files_def set_files_at.simps [of 7] set_files_at.simps [of 1] at c tpch_step_tdefs_def Let_def nth_list_update)
  next
    case 4
    then show ?thesis using n [of ORDER_LINE] n [of LINE] ne l assms(2)
      by (simp add: set_files_def set_files_at.simps [of 6] set_files_at.simps [of 5] at c tpch_step_tdefs_def Let_def nth_list_update)
  qed
qed

text \<open>The calls that \<open>set_state\<close> makes for a step.\<close>

lemma tpch_skip_once:
  assumes "t \<in> tpch_split" "td_child (tds ! nat t) = tpch_child t"
  shows "skip_once tpch_gen_seed tds t rows s = (case tpch_skip t rows s of None \<Rightarrow> Inl Crash | Some s \<Rightarrow> Inr s)"
proof -
  have g: "tpch_gen_seed CUST = Some sd_cust" "tpch_gen_seed SUPP = Some sd_supp" "tpch_gen_seed PART = Some sd_part"
    "tpch_gen_seed PART_PSUPP = Some sd_part" "tpch_gen_seed PSUPP = Some sd_psupp" "tpch_gen_seed ORDER = Some sd_order"
    "tpch_gen_seed ORDER_LINE = Some sd_order" "tpch_gen_seed LINE = Some sd_line"
    by (simp_all add: tpch_gen_seed_def)
  have one: "tpch_gen_seed t = Some f \<Longrightarrow> tpch_skip t = f 0 \<Longrightarrow> t \<noteq> LINE \<Longrightarrow> td_child (tds ! nat t) = NONE \<Longrightarrow> ?thesis" for f
    by (simp add: skip_once_def seed_call_def del: LINE_def split: option.split)
  have two: "tpch_gen_seed t = Some f \<Longrightarrow> tpch_gen_seed c = Some h \<Longrightarrow> tpch_skip t = (\<lambda>rows s. Option.bind (f 0 rows s) (h 0 rows)) \<Longrightarrow>
      t \<noteq> LINE \<Longrightarrow> td_child (tds ! nat t) = c \<Longrightarrow> c \<noteq> NONE \<Longrightarrow> ?thesis" for f h c
    by (simp add: skip_once_def seed_call_def del: LINE_def NONE_def split: option.split)
  consider "t = CUST" | "t = SUPP" | "t = PART \<or> t = PART_PSUPP" | "t = ORDER \<or> t = ORDER_LINE" using assms(1) by (auto simp: tpch_split_def)
  then show ?thesis
  proof cases
    case 1
    then show ?thesis using assms(2) g(1) by (intro one [of sd_cust]) (auto simp: tpch_skip_def tpch_child_def fun_eq_iff)
  next
    case 2
    then show ?thesis using assms(2) g(2) by (intro one [of sd_supp]) (auto simp: tpch_skip_def tpch_child_def fun_eq_iff)
  next
    case 3
    then show ?thesis using assms(2) g(3-5) by (intro two [of sd_part PSUPP sd_psupp]) (auto simp: tpch_skip_def tpch_child_def fun_eq_iff)
  next
    case 4
    then show ?thesis using assms(2) g(6-8) by (intro two [of sd_order LINE sd_line]) (auto simp: tpch_skip_def tpch_child_def fun_eq_iff)
  qed
qed

subsection \<open>The rows of a step\<close>

text \<open>What a run of the driver needs for step \<open>s\<close> of table \<open>t\<close>.\<close>

definition tpch_ready :: "globals \<Rightarrow> hplatform \<Rightarrow> hdists \<Rightarrow> int \<Rightarrow> int \<Rightarrow> run \<Rightarrow> bool" where
  "tpch_ready g pf d t s r \<longleftrightarrow> quiet g \<and> tpch_ok (tpch_builder_env g pf d (tpch_start d)) \<and> 1 \<le> s \<and> s \<le> g_children g \<and>
     bit (g_table g) (nat t) \<and> (\<forall>u \<in> set (tables_of t). length (tpch_step_name d s u) < 80) \<and> r_tds r = tpch_start d \<and>
     rng_inv (r_streams r) \<and> files_ready (config.truncate g) (tpch_step_tdefs d t s) t 0 (r_out r)"

lemma tpch_scale: "tpch_ok (tpch_builder_env g pf d tds) \<Longrightarrow> 1 \<le> g_scale g \<and> g_scale g \<le> 1000"
  by (simp add: tpch_ok_def henv_ok_def tpch_builder_env_def)

lemma tpch_prepare:
  assumes "tpch_ready g pf d t s r" "t \<in> tpch_default"
    and "split_rows (td_base (tpch_start d ! nat t)) (g_scale g) (g_children g) = (rows, extra)" "0 \<le> rows" "rows < int (tpch_limit t)"
  obtains st where "rng_inv st"
    "\<forall>i \<in> tpch_streams t. val st i = (NextRand ^^ (nat (rows * (s - 1)) * tpch_rate t i)) (val (r_streams r) i)"
    "prepare tpch_gen_seed g (platform.truncate pf) t s r = Inr (rows * (s - 1) + 1, chunk_rows rows extra (g_children g) s,
      r\<lparr>r_tds := tpch_step_tdefs d t s, r_streams := st\<rparr>)"
proof -
  let ?e = "tpch_builder_env g pf d (tpch_start d)" and ?tds = "tpch_step_tdefs d t s"
  have r: "quiet g" "tpch_ok ?e" "1 \<le> s" "s \<le> g_children g" "bit (g_table g) (nat t)" "r_tds r = tpch_start d" "rng_inv (r_streams r)"
    "\<forall>u \<in> set (tables_of t). length (tpch_step_name d s u) < 80" "g_direct g = 0"
    using assms(1) by (simp_all add: tpch_ready_def quiet_def)
  have sc: "1 \<le> g_scale g" "g_scale g \<le> 1000" using tpch_scale [OF r(2)] by auto
  note t = base_split(2) [OF assms(2)]
  have e: "be_tdefs ?e = tpch_start d" by (simp add: tpch_builder_env_def)
  have "td_child (be_tdefs ?e ! nat (base_table t)) = tpch_child (base_table t)"
    using tpch_start_childs base_split(1) [OF t] by (simp add: e tpch_childs_def)
  note seek = tpch_row_seekable [OF r(2) t this, of 0]
  have c: "td_child (?tds ! nat t) = tpch_child t" using step_childs t by (simp add: tpch_childs_def)
  have b: "split_rows (td_base (?tds ! nat t)) (g_scale g) (g_children g) = (rows, extra)"
    using assms(3) step_alike [of d t s] by (simp add: alike_def)
  obtain st where st: "set_state tpch_gen_seed ?tds (platform.truncate pf) t (g_scale g) (g_children g) s (r_streams r) = Inr (rows, Some extra, st)"
    "rng_inv st" "\<forall>i \<in> tpch_streams t. val st i = (NextRand ^^ (nat (rows * (s - 1)) * tpch_rate t i)) (val (r_streams r) i)"
    using seekable.set_state_moves [OF seek tpch_skip_once [OF t c] r(7) sc r(3,4) b assms(4,5)] by blast
  have "s \<noteq> - 1" using r(3) by simp
  then have "set_files g t s (r_tds r) (wld (r_out r)) = Inr (0, ?tds, wld (r_out r))"
    using tpch_step_files [OF assms(2) r(5,8)] r(6) by simp
  then have "prepare tpch_gen_seed g (platform.truncate pf) t s r = Inr (rows * (s - 1) + 1, chunk_rows rows extra (g_children g) s,
      r\<lparr>r_tds := ?tds, r_streams := st\<rparr>)"
    using st(1) r(9) by (simp add: prepare_def on_world_def chunk_rows_def quiet_steps(1) [OF r(1)])
  with that st(2,3) show thesis by blast
qed

text \<open>The piece of the table that belongs to step \<open>s\<close>.\<close>

definition step_slice :: "int \<Rightarrow> int \<Rightarrow> int \<Rightarrow> int \<Rightarrow> 'a list \<Rightarrow> 'a list" where
  "step_slice rows extra procs s ws = take (nat (chunk_rows rows extra procs s)) (drop (nat (rows * (s - 1))) ws)"

lemma step_slice_fits:
  assumes "0 \<le> base" "0 < procs" "0 \<le> sf" "split_rows base sf procs = (rows, extra)" "1 \<le> s" "s \<le> procs"
  shows "nat (rows * (s - 1)) + nat (chunk_rows rows extra procs s) \<le> nat (base * sf)" "0 \<le> chunk_rows rows extra procs s"
proof -
  note sum = split_rows_sum [OF assms(1-4)]
  have m: "rows * s \<le> rows * procs" using assms(6) sum(4) by (intro mult_left_mono) simp_all
  then have "rows * (s - 1) + chunk_rows rows extra procs s \<le> base * sf"
    using sum(1,2) by (auto simp: chunk_rows_def algebra_simps)
  moreover show c: "0 \<le> chunk_rows rows extra procs s" using sum(2,4) by (simp add: chunk_rows_def)
  moreover have "0 \<le> rows * (s - 1)" using sum(4) assms(5) by simp
  ultimately show "nat (rows * (s - 1)) + nat (chunk_rows rows extra procs s) \<le> nat (base * sf)" by linarith
qed

lemma step_slices_join:
  assumes "0 \<le> rows" "0 \<le> extra" "1 \<le> procs" "length ws = nat (rows * procs + extra)"
  shows "concat (map (\<lambda>s. step_slice rows extra procs s ws) [1..procs]) = ws"
proof -
  have "k < procs \<Longrightarrow> concat (map (\<lambda>s. step_slice rows extra procs s ws) [1..k]) = take (nat (rows * k)) ws" if "0 \<le> k" for k
    using that
  proof (induction k rule: int_ge_induct)
    case (step k)
    have "[1..k + 1] = [1..k] @ [k + 1]" using step(1) by (simp add: upto_rec2)
    moreover have "step_slice rows extra procs (k + 1) ws = take (nat rows) (drop (nat (rows * k)) ws)"
      using step.prems by (simp add: step_slice_def chunk_rows_def)
    moreover have "nat (rows * (k + 1)) = nat (rows * k) + nat rows" using assms(1) step(1) by (simp add: distrib_left nat_add_distrib)
    ultimately show ?case using step by (simp add: take_add)
  qed simp
  from this [of "procs - 1"]
  have "concat (map (\<lambda>s. step_slice rows extra procs s ws) [1..procs - 1]) = take (nat (rows * (procs - 1))) ws" using assms(3) by simp
  moreover have "[1..procs] = [1..procs - 1] @ [procs]" using assms(3) by (simp add: upto_rec2)
  moreover have "step_slice rows extra procs procs ws = drop (nat (rows * (procs - 1))) ws"
  proof -
    have "nat (rows * procs + extra) - nat (rows * (procs - 1)) = nat (rows * procs + extra - rows * (procs - 1))"
      by (rule nat_diff_distrib' [symmetric]) (use assms in simp_all)
    then have "length ws - nat (rows * (procs - 1)) = nat (rows + extra)" by (simp add: assms(4) algebra_simps)
    then show ?thesis by (simp add: step_slice_def chunk_rows_def)
  qed
  ultimately show ?thesis by simp
qed

lemma concat_pieces: "concat (map (\<lambda>s. concat (f s)) xs) = concat (concat (map f xs))"
  by (induction xs) simp_all

text \<open>One step: its files hold the texts of its piece of the whole table.\<close>

lemma tpch_partial_writes:
  assumes "tpch_ready g pf d t s r" "t \<in> tpch_default"
    and "split_rows (td_base (tpch_start d ! nat t)) (g_scale g) (g_children g) = (rows, extra)" "0 < rows" "rows < int (tpch_limit t)"
    and "gen_rows (tpch_mk_row (tpch_builder_env g pf d (tpch_start d)) t 0) (tpch_start d) t 1
      (nat (td_base (tpch_start d ! nat t) * g_scale g)) (r_streams r) = Some (whole, sw)"
  shows "\<exists>r'. tpch_partial g pf d t s 0 r = Inr r' \<and>
    (\<forall>u \<in> set (tables_of t). file_at (table_path (config.truncate g) (tpch_step_name d s u)) (r_out r') =
      overwrite 0 (concat (map (tpch_text u (columnar g)) (step_slice rows extra (g_children g) s whole)))
        (file_at (table_path (config.truncate g) (tpch_step_name d s u)) (r_out r)))"
proof -
  let ?e = "tpch_builder_env g pf d (tpch_start d)" and ?tds = "tpch_step_tdefs d t s" and ?procs = "g_children g"
  let ?m = "nat (chunk_rows rows extra ?procs s)" and ?n = "nat (rows * (s - 1))" and ?l = "nat (td_base (tpch_start d ! nat t) * g_scale g)"
  have r: "quiet g" "tpch_ok ?e" "1 \<le> s" "s \<le> ?procs" "rng_inv (r_streams r)" "files_ready (config.truncate g) ?tds t 0 (r_out r)"
    using assms(1) by (simp_all add: tpch_ready_def)
  have sc: "1 \<le> g_scale g" using tpch_scale [OF r(2)] by auto
  note t = base_split(2) [OF assms(2)]
  obtain st where st: "rng_inv st" "\<forall>i \<in> tpch_streams t. val st i = (NextRand ^^ (?n * tpch_rate t i)) (val (r_streams r) i)"
    "prepare tpch_gen_seed g (platform.truncate pf) t s r = Inr (rows * (s - 1) + 1, chunk_rows rows extra ?procs s, r\<lparr>r_tds := ?tds, r_streams := st\<rparr>)"
    using tpch_prepare [OF assms(1-3) _ assms(5)] assms(4) by (metis less_imp_le)
  have base: "0 \<le> td_base (tpch_start d ! nat t)"
    using assms(2) by (auto simp: tpch_default_def tpch_start_at tpch_start_nth)
  note fits = step_slice_fits [OF base _ _ assms(3) r(3,4)] and sum = split_rows_sum [OF base _ _ assms(3)]
  have m: "0 < ?m" "int ?m = chunk_rows rows extra ?procs s"
    using assms(4) sum(2) fits(2) r(3,4) sc by (auto simp: chunk_rows_def)
  have n: "1 + int ?n = rows * (s - 1) + 1" using assms(4) r(3) by simp
  let ?r = "r\<lparr>r_tds := ?tds, r_streams := st\<rparr>" and ?p = "\<lambda>u. table_path (config.truncate g) (td_name (?tds ! nat u))"
  have ok: "tpch_ok (tpch_builder_env g pf d (r_tds ?r))" using r(2) tpch_ok_alike [OF step_alike] by simp
  have "tpch_childs (r_tds ?r)" "rng_inv (r_streams ?r)" "files_ready (config.truncate g) (r_tds ?r) t 0 (r_out ?r)"
    using step_childs st(1) r(6) by simp_all
  from tpch_writes [OF r(1) assms(2) ok this(1,2) m(1) this(3), of "1 + int ?n"]
  obtain ws r' where ws: "tpch_gen_tbl g pf d t (1 + int ?n) (int ?m) 0 ?r = Inr r'"
    "gen_rows (tpch_mk_row (tpch_builder_env g pf d ?tds) t 0) ?tds t (1 + int ?n) ?m st = Some (ws, r_streams r')"
    "\<forall>u \<in> set (tables_of t). file_at (?p u) (r_out r') = overwrite 0 (concat (map (tpch_text u (columnar g)) ws)) (file_at (?p u) (r_out r))"
    by auto
  have e: "be_tdefs ?e = tpch_start d" by (simp add: tpch_builder_env_def)
  have "td_child (be_tdefs ?e ! nat (base_table t)) = tpch_child (base_table t)"
    using tpch_start_childs base_split(1) [OF t] by (simp add: e tpch_childs_def)
  from seekable.chunk_view [where i = 1 and n = ?n and m = ?m and l = ?l, OF tpch_row_seekable [OF r(2) t this, of 0] r(5) st(1)]
  obtain ch sc' where ch: "gen_rows (tpch_mk_row ?e t 0) (tpch_start d) t (1 + int ?n) ?m st = Some (ch, sc')" "ch = take ?m (drop ?n whole)"
    using st(2) fits(1) r(3,4) sc assms(6) unfolding e by auto
  have "ws = step_slice rows extra ?procs s whole"
    using ws(2) ch by (simp add: step_slice_def gen_rows_alike [OF step_alike] tpch_mk_row_alike [OF step_alike])
  moreover have "tpch_partial g pf d t s 0 r = Inr r'"
    using st(3) ws(1) m(2) n by (simp add: tpch_partial_def quiet_steps(1) [OF r(1)] add.commute)
  ultimately show ?thesis using ws(3) tpch_step_names [OF assms(2)] by auto
qed

text \<open>
  C6: the steps of a table of TPC-H, joined, are the table built at once.  For customers, suppliers, parts with their
  suppliers and orders with their lines, and any division into steps of less than \<open>tpch_limit\<close> rows: each step, run by a process of
  its own with the streams at the start, returns, and the files of the steps one after the other hold the texts of the rows of the
  whole table, to the last character.
\<close>

theorem tpch_steps_join:
  assumes "t \<in> tpch_default" "\<And>s. 1 \<le> s \<Longrightarrow> s \<le> g_children g \<Longrightarrow> tpch_ready g pf d t s (rs s)" "1 \<le> g_children g"
    and "\<And>s. 1 \<le> s \<Longrightarrow> s \<le> g_children g \<Longrightarrow> r_streams (rs s) = st"
    and "\<And>s u. 1 \<le> s \<Longrightarrow> s \<le> g_children g \<Longrightarrow> u \<in> set (tables_of t) \<Longrightarrow>
      file_at (table_path (config.truncate g) (tpch_step_name d s u)) (r_out (rs s)) = []"
    and "split_rows (td_base (tpch_start d ! nat t)) (g_scale g) (g_children g) = (rows, extra)" "0 < rows" "rows < int (tpch_limit t)"
  shows "\<exists>whole sw ends. gen_rows (tpch_mk_row (tpch_builder_env g pf d (tpch_start d)) t 0) (tpch_start d) t 1
      (nat (td_base (tpch_start d ! nat t) * g_scale g)) st = Some (whole, sw) \<and>
    (\<forall>s \<in> {1..g_children g}. tpch_partial g pf d t s 0 (rs s) = Inr (ends s)) \<and>
    (\<forall>u \<in> set (tables_of t). concat (map (\<lambda>s. file_at (table_path (config.truncate g) (tpch_step_name d s u)) (r_out (ends s)))
      [1..g_children g]) = concat (map (tpch_text u (columnar g)) whole))"
proof -
  let ?e = "tpch_builder_env g pf d (tpch_start d)" and ?procs = "g_children g" and ?l = "nat (td_base (tpch_start d ! nat t) * g_scale g)"
  let ?p = "\<lambda>s u. table_path (config.truncate g) (tpch_step_name d s u)" and ?x = "\<lambda>u. tpch_text u (columnar g)"
  have ok: "tpch_ok ?e" "rng_inv st" using assms(2) [of 1] assms(4) [of 1] assms(3) by (simp_all add: tpch_ready_def)
  have sc: "1 \<le> g_scale g" using tpch_scale [OF ok(1)] by auto
  note t = base_split(2) [OF assms(1)]
  have e: "be_tdefs ?e = tpch_start d" by (simp add: tpch_builder_env_def)
  have "td_child (be_tdefs ?e ! nat (base_table t)) = tpch_child (base_table t)"
    using tpch_start_childs base_split(1) [OF t] by (simp add: e tpch_childs_def)
  from row_generator.gen_rows_advances [OF seekable.axioms(1) [OF tpch_row_seekable [OF ok(1) t this]] ok(2)]
  obtain whole sw where w: "gen_rows (tpch_mk_row ?e t 0) (tpch_start d) t 1 ?l st = Some (whole, sw)" "length whole = ?l"
    unfolding e by blast
  have "\<exists>r'. tpch_partial g pf d t s 0 (rs s) = Inr r' \<and>
      (\<forall>u \<in> set (tables_of t). file_at (?p s u) (r_out r') = concat (map (?x u) (step_slice rows extra ?procs s whole)))"
    if s: "1 \<le> s" "s \<le> ?procs" for s
    using tpch_partial_writes [OF assms(2) [OF s] assms(1,6,7,8), of whole sw] w(1) assms(4) [OF s] assms(5) [OF s]
    by (simp add: overwrite_def)
  then obtain ends where ends: "tpch_partial g pf d t s 0 (rs s) = Inr (ends s)"
    "\<forall>u \<in> set (tables_of t). file_at (?p s u) (r_out (ends s)) = concat (map (?x u) (step_slice rows extra ?procs s whole))"
    if "1 \<le> s" "s \<le> ?procs" for s by metis
  have base: "0 \<le> td_base (tpch_start d ! nat t)" using assms(1) by (auto simp: tpch_default_def tpch_start_at tpch_start_nth)
  note sum = split_rows_sum [OF base _ _ assms(6)]
  have join: "concat (map (\<lambda>s. step_slice rows extra ?procs s whole) [1..?procs]) = whole"
    by (rule step_slices_join) (use sum w(2) sc assms(3) in simp_all)
  have "concat (map (\<lambda>s. file_at (?p s u) (r_out (ends s))) [1..?procs]) = concat (map (?x u) whole)" if u: "u \<in> set (tables_of t)" for u
  proof -
    have "map (\<lambda>s. file_at (?p s u) (r_out (ends s))) [1..?procs] =
        map (\<lambda>s. concat (map (?x u) (step_slice rows extra ?procs s whole))) [1..?procs]"
      using ends(2) u by auto
    then have "concat (map (\<lambda>s. file_at (?p s u) (r_out (ends s))) [1..?procs]) =
        concat (map (?x u) (concat (map (\<lambda>s. step_slice rows extra ?procs s whole) [1..?procs])))"
      by (simp only: concat_pieces map_concat map_map o_def)
    then show ?thesis unfolding join .
  qed
  then show ?thesis using w(1) ends(1) by (intro exI [of _ whole] exI [of _ sw] exI [of _ ends]) auto
qed

text \<open>Four steps of the orders with their lines at scale 1, each in an empty directory.\<close>

definition tpch_parallel :: globals where
  "tpch_parallel = tpch_globals\<lparr>g_children := 4, g_table := table_bit ORDER_LINE\<rparr>"

lemma tpch_parallel_ready:
  assumes "1 \<le> s" "s \<le> 4"
  shows "tpch_ready tpch_parallel tpch_platform ssb_hdists ORDER_LINE s tpch_run"
proof -
  have g: "quiet tpch_parallel" "1 \<le> g_scale tpch_parallel" "g_scale tpch_parallel \<le> 1000" "g_children tpch_parallel = 4"
    "bit (g_table tpch_parallel) (nat ORDER_LINE)"
    using tpch_quiet by (simp_all add: quiet_def tpch_parallel_def tpch_globals_def main_globals_def table_bit_def bit_exp_iff)
  have f: "length (fmt_d s) \<le> 11" by (rule length_fmt_int) (use assms in auto)
  let ?d = ssb_hdists
  have n: "tpch_step_name ?d s ORDER_LINE = ''orders.tbl.'' @ fmt_d s" "tpch_step_name ?d s LINE = ''lineitem.tbl.'' @ fmt_d s"
    by (simp_all add: tpch_step_name_def tpch_start_at tpch_start_nth)
  let ?cf = "config.truncate tpch_parallel"
  have p: "table_path ?cf (''orders.tbl.'' @ fmt_d s) = ''./orders.tbl.'' @ fmt_d s"
    "table_path ?cf (''lineitem.tbl.'' @ fmt_d s) = ''./lineitem.tbl.'' @ fmt_d s"
    by (simp_all add: table_path_def env_config_def tpch_parallel_def tpch_globals_def main_globals_def config.truncate_def)
  have o: "can_open ?cf path (r_out tpch_run)" if "length path < 256" for path
    using that by (simp add: can_open_def tpch_run_def outs_init_def empty_world_def tpch_parallel_def tpch_globals_def main_globals_def
      config.truncate_def)
  have "td_name (tpch_step_tdefs ?d ORDER_LINE s ! nat u) = tpch_step_name ?d s u" if "u = ORDER_LINE \<or> u = LINE" for u
    by (rule tpch_step_names) (use that in \<open>auto simp: tpch_default_def tables_of_def\<close>)
  then have names: "td_name (tpch_step_tdefs ?d ORDER_LINE s ! nat ORDER_LINE) = ''orders.tbl.'' @ fmt_d s"
    "td_name (tpch_step_tdefs ?d ORDER_LINE s ! nat LINE) = ''lineitem.tbl.'' @ fmt_d s"
    by (simp_all only: n simp_thms)
  let ?tds = "tpch_step_tdefs ?d ORDER_LINE s"
  have pp: "table_path ?cf (td_name (?tds ! nat ORDER_LINE)) = ''./orders.tbl.'' @ fmt_d s"
    "table_path ?cf (td_name (?tds ! nat LINE)) = ''./lineitem.tbl.'' @ fmt_d s"
    by (simp_all only: names p)
  have "can_open ?cf (table_path ?cf (td_name (?tds ! nat ORDER_LINE))) (r_out tpch_run)"
    "can_open ?cf (table_path ?cf (td_name (?tds ! nat LINE))) (r_out tpch_run)"
    unfolding pp by (rule o, use f in simp)+
  moreover have "table_path ?cf (td_name (?tds ! nat ORDER_LINE)) \<noteq> table_path ?cf (td_name (?tds ! nat LINE))" unfolding pp by simp
  moreover have "tpch_closed ORDER_LINE 0 (r_out tpch_run)"
    by (simp add: tpch_closed_def tpch_run_def outs_init_def rd_order_def rd_line_def)
  moreover have "tables_of ORDER_LINE = [ORDER_LINE, LINE]" by (simp add: tables_of_def)
  ultimately have "files_ready ?cf ?tds ORDER_LINE 0 (r_out tpch_run)"
    by (simp add: files_ready_def del: ORDER_LINE_def LINE_def)
  moreover have "length (tpch_step_name ?d s ORDER_LINE) < 80" "length (tpch_step_name ?d s LINE) < 80"
    unfolding n using f by simp_all
  ultimately show ?thesis
    using g assms tpch_demo_ok [OF g(2,3)]
    by (simp add: tpch_ready_def tables_of_def tpch_run_def rng_init_inv)
qed

theorem tpch_steps_join_witness:
  "\<exists>whole sw ends. gen_rows (tpch_mk_row (tpch_builder_env tpch_parallel tpch_platform ssb_hdists (tpch_start ssb_hdists)) ORDER_LINE 0)
      (tpch_start ssb_hdists) ORDER_LINE 1 1500000 rng_init = Some (whole, sw) \<and>
    (\<forall>s \<in> {1..4}. tpch_partial tpch_parallel tpch_platform ssb_hdists ORDER_LINE s 0 tpch_run = Inr (ends s)) \<and>
    file_at ''./lineitem.tbl.1'' (r_out (ends 1)) @ file_at ''./lineitem.tbl.2'' (r_out (ends 2)) @
      file_at ''./lineitem.tbl.3'' (r_out (ends 3)) @ file_at ''./lineitem.tbl.4'' (r_out (ends 4)) =
    concat (map (tpch_text LINE False) whole)"
proof -
  let ?d = ssb_hdists
  have g: "g_scale tpch_parallel = 1" "g_children tpch_parallel = 4" "columnar tpch_parallel = False"
    by (simp_all add: tpch_parallel_def tpch_globals_def main_globals_def)
  have b: "td_base (tpch_start ?d ! nat ORDER_LINE) = 1500000" by (simp add: tpch_start_at tpch_start_nth)
  have t: "ORDER_LINE \<in> tpch_default" by (simp add: tpch_default_def)
  have ready: "tpch_ready tpch_parallel tpch_platform ?d ORDER_LINE s tpch_run" if "1 \<le> s" "s \<le> g_children tpch_parallel" for s
    using tpch_parallel_ready that g by simp
  have e: "file_at p (r_out tpch_run) = []" "r_streams tpch_run = rng_init" for p
    by (simp_all add: tpch_run_def outs_init_def file_at_def empty_world_def)
  have rows: "split_rows (td_base (tpch_start ?d ! nat ORDER_LINE)) (g_scale tpch_parallel) (g_children tpch_parallel) = (375000, 0)"
    unfolding b g by (simp add: split_rows_def sdiv_nonneg smod_nonneg)
  have "table_path (config.truncate tpch_parallel) (tpch_step_name ?d s LINE) = ''./lineitem.tbl.'' @ fmt_d s" for s
    by (simp add: tpch_step_name_def tpch_start_at tpch_start_nth table_path_def env_config_def tpch_parallel_def tpch_globals_def main_globals_def
      config.truncate_def)
  note p = this
  have f: "fmt_d 1 = ''1''" "fmt_d 2 = ''2''" "fmt_d 3 = ''3''" "fmt_d 4 = ''4''" by (simp_all add: fmt_d_def dec.simps digit_chars)
  have u: "LINE \<in> set (tables_of ORDER_LINE)" by (simp add: tables_of_def)
  have l: "375000 < int (tpch_limit ORDER_LINE)" by (simp add: tpch_limit_def)
  have up: "[1..4] = [1, 2, 3, 4 :: int]" by (simp add: upto.simps)
  obtain whole sw ends where w: "gen_rows (tpch_mk_row (tpch_builder_env tpch_parallel tpch_platform ?d (tpch_start ?d)) ORDER_LINE 0)
      (tpch_start ?d) ORDER_LINE 1 (nat (1500000 * 1)) rng_init = Some (whole, sw)"
    "\<forall>s \<in> {1..4}. tpch_partial tpch_parallel tpch_platform ?d ORDER_LINE s 0 tpch_run = Inr (ends s)"
    "\<forall>u \<in> set (tables_of ORDER_LINE). concat (map (\<lambda>s. file_at (table_path (config.truncate tpch_parallel) (tpch_step_name ?d s u)) (r_out (ends s)))
      [1..4]) = concat (map (tpch_text u False) whole)"
    using tpch_steps_join [where rs = "\<lambda>_. tpch_run" and st = rng_init, OF t ready _ e(2) e(1) rows _ l] unfolding b g by auto
  show ?thesis
    using w(1,2) bspec [OF w(3) u] unfolding p up by (intro exI [of _ whole] exI [of _ sw] exI [of _ ends]) (simp add: f)
qed

subsection \<open>Beyond 31 bits\<close>

lemma orders_skip:
  assumes "rng_inv s" "t \<in> {ORDER, ORDER_LINE}"
  shows "\<exists>s'. tpch_skip t (int n) s = Some s' \<and> rng_inv s' \<and> val s' 25 = (NextRand ^^ (945 * n mod 2 ^ 31)) (val s 25)"
proof -
  let ?c1 = "[(43, int n), (40, int n), (12, 216 * int n), (10, int n), (11, int n), (38, int n), (13, int n)]"
  let ?round = "map (\<lambda>i. (i, int n)) [14, 15, 16, 17, 18, 19, 20, 21, 22, 23, 24]"
  let ?c2 = "concat (replicate 7 ?round) @ [(25, 945 * int n)]"
  have up: "[14..24] = [14, 15, 16, 17, 18, 19, 20, 21, 22, 23, 24 :: int]" by (simp add: upto.simps)
  have "sd_order 0 (int n) s = advance_all ?c1 s"
    by (simp add: sd_order_def fake_v_str_calls [OF assms(1)] stream_facts_more del: advance_all.simps)
  moreover obtain s1 where s1: "advance_all ?c1 s = Some s1" "advanced (call_steps ?c1) s s1"
    using advance_all_advances [OF assms(1), of ?c1] by (auto simp: calls_ok_def)
  ultimately have 1: "sd_order 0 (int n) s = Some s1" "rng_inv s1" by (simp_all add: advanced_def)
  have "sd_line 0 (int n) s1 = advance_all ?c2 s1"
    by (simp add: sd_line_def fake_v_str_calls [OF 1(2)] stream_facts_more up del: advance_all.simps)
  moreover have "calls_ok ?c2" by (auto simp: calls_ok_def)
  then obtain s2 where s2: "advance_all ?c2 s1 = Some s2" "advanced (call_steps ?c2) s1 s2"
    using advance_all_advances [OF 1(2)] by blast
  ultimately have 2: "sd_line 0 (int n) s1 = Some s2" by simp
  have "call_steps ?c1 25 = 0" by (simp add: call_steps_def)
  moreover have "call_steps ?c2 25 = 945 * n mod 2 ^ 31"
    unfolding call_steps_append call_steps_rounds by (simp add: call_steps_def nat_mult_distrib)
  ultimately have "val s2 25 = (NextRand ^^ (945 * n mod 2 ^ 31)) (val s 25)"
    using s1(2) s2(2) unfolding advanced_def by simp
  moreover have "tpch_skip t (int n) s = Some s2" using assms(2) 1(1) 2 by (auto simp: tpch_skip_def)
  ultimately show ?thesis using s2(2) by (auto simp: advanced_def)
qed

lemma NextRand_periods: "seed_ok s \<Longrightarrow> (NextRand ^^ (m + q * period)) s = (NextRand ^^ m) s"
proof (induction q)
  case (Suc q)
  have "(NextRand ^^ (m + Suc q * period)) s = (NextRand ^^ (m + q * period)) ((NextRand ^^ period) s)"
    by (simp only: mult_Suc add.assoc [symmetric] add.commute [of period] funpow_add [of _ period] o_apply)
  then show ?case using Suc NextRand_period by simp
qed simp

text \<open>
  C36: the limit for orders is sharp.  \<open>set_state\<close> skips 945 draws of the stream of the line comments for each order, the
  count that the rows fill the stream up to, but \<open>NthElement\<close> looks at 31 bits of the product only.  For each \<open>2 ^ 31\<close> in it the
  stream is left two draws behind the place where the rows leave it (with less than \<open>2 ^ 50\<close> orders, so that the product fits
  into the 64 bits of a \<open>DSS_HUGE\<close>).  So it is left in the right place exactly if there are fewer than 2272470
  orders; from there on the comments of the next step are not those of the whole table.
\<close>

theorem line_comments_fall_behind:
  assumes "tpch_ok e" "t \<in> {ORDER, ORDER_LINE}" "tpch_childs (be_tdefs e)" "rng_inv s" "n < 2 ^ 50"
  shows "\<exists>rows s1 s2. gen_rows (tpch_mk_row e t upd) (be_tdefs e) t i n s = Some (rows, s1) \<and>
    skip_once tpch_gen_seed (be_tdefs e) t (int n) s = Inr s2 \<and>
    val s1 25 = (NextRand ^^ (2 * (945 * n div 2 ^ 31))) (val s2 25) \<and> (val s2 25 = val s1 25 \<longleftrightarrow> n < 2272470)"
proof -
  let ?q = "945 * n div 2 ^ 31" and ?m = "945 * n mod 2 ^ 31"
  have t: "t \<in> tpch_split" using assms(2) by (auto simp: tpch_split_def)
  have c: "td_child (be_tdefs e ! nat (base_table t)) = tpch_child (base_table t)"
    using assms(3) base_split(1) [OF t] by (simp add: tpch_childs_def)
  from row_generator.gen_rows_advances [OF seekable.axioms(1) [OF tpch_row_seekable [OF assms(1) t c]] assms(4)]
  obtain rows s1 where r: "gen_rows (tpch_mk_row e t upd) (be_tdefs e) t i n s = Some (rows, s1)" "advanced (\<lambda>j. n * tpch_rate t j) s s1"
    by blast
  have "tpch_rate t 25 = 945" using assms(2) by (auto simp: tpch_rate_def boundary_rate_def base_table_def tpch_child_def stream_facts_more)
  then have v1: "val s1 25 = (NextRand ^^ (n * 945)) (val s 25)" using r(2) by (simp add: advanced_def)
  obtain s2 where s2: "tpch_skip t (int n) s = Some s2" "val s2 25 = (NextRand ^^ ?m) (val s 25)"
    using orders_skip [OF assms(4,2)] by blast
  have sk: "skip_once tpch_gen_seed (be_tdefs e) t (int n) s = Inr s2"
    using tpch_skip_once [OF t] assms(3) t s2(1) by (simp add: tpch_childs_def)
  have ok: "seed_ok (val s 25)" by (rule rng_okD(2) [OF rng_inv_ok [OF assms(4)]]) simp
  then have ok2: "seed_ok (val s2 25)" unfolding s2(2) by (rule NextRand_iter_ok)
  have "n * 945 = 2 ^ 31 * ?q + ?m" by (simp only: mult.commute [of n] mult_div_mod_eq)
  then have "n * 945 = (2 * ?q + ?q * period) + ?m" by (simp add: period_def)
  then have "val s1 25 = (NextRand ^^ (2 * ?q + ?q * period)) (val s2 25)"
    unfolding v1 s2(2) by (simp only: funpow_add [of _ ?m] o_apply)
  then have v: "val s1 25 = (NextRand ^^ (2 * ?q)) (val s2 25)" by (simp only: NextRand_periods [OF ok2])
  have "2 * ?q < period" using div_le_mono [of "945 * n" "945 * 2 ^ 50" "2 ^ 31"] assms(5) by (simp add: period_def)
  moreover have "0 < ?q \<longleftrightarrow> \<not> n < 2272470" by (auto simp: div_greater_zero_iff)
  ultimately have "val s2 25 = val s1 25 \<longleftrightarrow> n < 2272470"
    using NextRand_returns_late [OF ok2, of "2 * ?q"] v by (cases "?q = 0") auto
  then show ?thesis using r(1) sk v by auto
qed

theorem line_comments_fall_behind_witness:
  "\<exists>rows s1 s2. gen_rows (tpch_mk_row (tpch_env 2 10) ORDER_LINE 0) tpch_tdefs ORDER_LINE 1 5000000 rng_init = Some (rows, s1) \<and>
    skip_once tpch_gen_seed tpch_tdefs ORDER_LINE 5000000 rng_init = Inr s2 \<and> val s1 25 = (NextRand ^^ 4) (val s2 25) \<and>
    val s2 25 \<noteq> val s1 25"
proof -
  have "dcount (colors ssb_dists) \<le> 1000000" by (simp add: ssb_dists_def entries_dist_def colors_entries_def)
  then have ok: "tpch_ok (tpch_env 2 10)" using tpch_env_ok [of 2 10] by (simp add: tpch_ok_def) (simp add: tpch_env_def)
  have c: "tpch_childs (be_tdefs (tpch_env 2 10))"
    by (auto simp: tpch_childs_def tpch_split_def tpch_child_def tpch_env_def tpch_tdefs_def mk_tdef_def)
  have t: "ORDER_LINE \<in> {ORDER, ORDER_LINE}" by simp
  have e: "be_tdefs (tpch_env 2 10) = tpch_tdefs" by (simp add: tpch_env_def)
  have n: "int 5000000 = 5000000" "(945 * 5000000 div 2 ^ 31 :: nat) = 2" by simp_all
  show ?thesis
    using line_comments_fall_behind [OF ok t c rng_init_inv, of 5000000 0 1] unfolding e n by auto
qed

end
