(* ===== verification/Text_Same.thy ===== *)
theory Text_Same
  imports Tied
begin

text \<open>
  Two runs of the text generator that differ in what their buffers hold at the start.  They make the same draws, write the same
  characters and end in the same way; the buffers agree on what was written, which is all that is read of them afterwards.
\<close>

subsection \<open>Buffers that agree on what was written\<close>

text \<open>The first \<open>p\<close> characters are the same, without the zero character.\<close>

definition same_text :: "nat \<Rightarrow> string \<Rightarrow> string \<Rightarrow> bool" where
  "same_text p a b \<longleftrightarrow> p \<le> length a \<and> length a = length b \<and> take p a = take p b \<and> NUL \<notin> set (take p a)"

text \<open>Both hold the same string of length \<open>n\<close>.\<close>

definition same_string :: "nat \<Rightarrow> string \<Rightarrow> string \<Rightarrow> bool" where
  "same_string n a b \<longleftrightarrow> same_text n a b \<and> c_string a = Some (take n a) \<and> c_string b = Some (take n a)"

lemma same_text_0: "same_text 0 a b \<longleftrightarrow> length a = length b"
  by (simp add: same_text_def)

lemma same_text_length: "same_text p a b \<Longrightarrow> length a = length b"
  by (simp add: same_text_def)

lemma same_text_less: "same_text p a b \<Longrightarrow> q \<le> p \<Longrightarrow> same_text q a b"
proof -
  assume a: "same_text p a b" "q \<le> p"
  then have "take q a = take q b" unfolding same_text_def by (metis min.absorb1 take_take)
  moreover have "set (take q a) \<subseteq> set (take p a)" by (rule set_take_subset_set_take [OF a(2)])
  ultimately show ?thesis using a by (auto simp: same_text_def)
qed

lemma rel_bind:
  "rel_option R x y \<Longrightarrow> (\<And>a b. R a b \<Longrightarrow> rel_option S (f a) (g b)) \<Longrightarrow> rel_option S (Option.bind x f) (Option.bind y g)"
  by (cases x; cases y) auto

lemma rel_map: "rel_option R x y \<Longrightarrow> (\<And>a b. R a b \<Longrightarrow> S (f a) (g b)) \<Longrightarrow> rel_option S (map_option f x) (map_option g y)"
  by (cases x; cases y) auto

lemma put_prefix:
  assumes "buf_put q t a = Some a'"
  shows "q + length t \<le> length a" "length a' = length a" "take (q + length t) a' = take q a @ t"
  using assms by (auto simp: buf_put_def split: if_splits)

lemma same_put:
  assumes "same_text p a b" "q \<le> p" "NUL \<notin> set t"
  shows "rel_option (same_text (q + length t)) (buf_put q t a) (buf_put q t b)"
proof -
  have s: "same_text q a b" by (rule same_text_less [OF assms(1,2)])
  show ?thesis
  proof (cases "buf_put q t a")
    case None
    then have "buf_put q t b = None" using s by (auto simp: buf_put_def same_text_def split: if_splits)
    then show ?thesis using None by simp
  next
    case (Some a')
    then obtain b' where b: "buf_put q t b = Some b'" using s by (auto simp: buf_put_def same_text_def split: if_splits)
    show ?thesis using put_prefix [OF Some] put_prefix [OF b] s assms(3) Some b by (auto simp: same_text_def)
  qed
qed

lemma same_put_end:
  assumes "same_text p a b" "q \<le> p" "NUL \<notin> set t"
  shows "rel_option (same_string (q + length t)) (buf_put q (t @ [NUL]) a) (buf_put q (t @ [NUL]) b)"
proof -
  have s: "same_text q a b" by (rule same_text_less [OF assms(1,2)])
  show ?thesis
  proof (cases "buf_put q (t @ [NUL]) a")
    case None
    then have "buf_put q (t @ [NUL]) b = None" using s by (auto simp: buf_put_def same_text_def split: if_splits)
    then show ?thesis using None by simp
  next
    case (Some a')
    then obtain b' where b: "buf_put q (t @ [NUL]) b = Some b'" using s by (auto simp: buf_put_def same_text_def split: if_splits)
    note pa = put_prefix [OF Some] and pb = put_prefix [OF b]
    have w: "wrote a 0 ((take q a @ t) @ [NUL]) a'" "wrote b 0 ((take q a @ t) @ [NUL]) b'"
      using pa pb s by (simp_all add: wrote_def same_text_def)
    have n: "NUL \<notin> set (take q a @ t)" using s assms(3) by (auto simp: same_text_def)
    have l: "length (take q a @ t) = q + length t" using s by (simp add: same_text_def)
    have tk: "take (q + length t) a' = take q a @ t" "take (q + length t) b' = take q a @ t"
      using w wrote_prefix [OF w(1)] wrote_prefix [OF w(2)] l by (simp_all add: wrote_def)
    have "same_text (q + length t) a' b'" using tk n pa pb s by (simp add: same_text_def)
    then show ?thesis using wrote_string [OF w(1) n] wrote_string [OF w(2) n] tk Some b by (simp add: same_string_def)
  qed
qed

lemma same_string_text: "same_string n a b \<Longrightarrow> same_text n a b"
  by (simp add: same_string_def)

subsection \<open>Words and phrases\<close>

text \<open>Results of two runs: the same length and streams, the buffers agree up to the end of what was written at \<open>p\<close>.\<close>

definition same_end :: "nat \<Rightarrow> nat \<times> string \<times> rng \<Rightarrow> nat \<times> string \<times> rng \<Rightarrow> bool" where
  "same_end p = (\<lambda>(n, a, s) (n', a', s'). n = n' \<and> s = s' \<and> same_text (p + n) a a')"

lemma pick_index_less: "pick_index ms j = Some i \<Longrightarrow> i < length ms"
  by (induction ms arbitrary: i) (auto split: if_splits)

lemma pick_str_word: "pick_str d sd s = Some (i, w, s') \<Longrightarrow> w \<in> words d"
  by (auto simp: pick_str_def words_def split: if_splits prod.splits dest: pick_index_less)

lemma word_nul_free: "word_list d \<Longrightarrow> w \<in> words d \<Longrightarrow> NUL \<notin> set w"
  by (auto simp: word_list_def words_def list_all_iff)

lemma same_pick:
  assumes "word_list d" "same_text p a b" "dest \<le> p"
  shows "rel_option (same_end dest) (pick_into (Some d) sd dest a s) (pick_into (Some d) sd dest b s)"
proof (cases "pick_str d sd s")
  case (Some r)
  then obtain i w s' where r: "pick_str d sd s = Some (i, w, s')" by (cases r) auto
  show ?thesis
    using same_put_end [OF assms(2,3) word_nul_free [OF assms(1) pick_str_word [OF r]]]
    by (auto simp: pick_into_def r same_end_def intro!: rel_bind dest: same_string_text)
qed (simp add: pick_into_def)

definition same_rest :: "nat \<Rightarrow> nat \<Rightarrow> nat \<times> string \<times> rng \<Rightarrow> nat \<times> string \<times> rng \<Rightarrow> bool" where
  "same_rest p r = (\<lambda>(n, a, s) (n', a', s'). n = n' \<and> s = s' \<and> r \<le> n \<and> same_text (p + (n - r)) a a')"

lemma same_rest_step: "same_rest (p + k + 1) (r + k + 1) x y \<Longrightarrow> same_rest p r x y"
proof -
  assume "same_rest (p + k + 1) (r + k + 1) x y"
  moreover have "p + k + 1 + (n - (r + k + 1)) = p + (n - r)" if "r + k + 1 \<le> n" for n using that by simp
  ultimately show ?thesis by (auto simp: same_rest_def)
qed

text \<open>The rest of a phrase, after a word of length \<open>i\<close>.\<close>

lemma same_word_end:
  assumes "rel_option (\<lambda>(k, a) (k', a'). k = k' \<and> same_text (p + k) a a') x y"
    and "\<And>k a b. same_text (p + k + 1) a b \<Longrightarrow> rel_option (same_rest (p + k + 1) (r + k + 1)) (f k a) (g k b)"
  shows "rel_option (same_rest p r) (do { (k, b) \<leftarrow> x; b \<leftarrow> buf_put (p + k) [blank] b; f k b })
     (do { (k, b) \<leftarrow> y; b \<leftarrow> buf_put (p + k) [blank] b; g k b })"
proof (rule rel_bind [OF assms(1)], clarify)
  fix k a b assume "same_text (p + k) a b"
  from same_put [OF this le_refl, of "[blank]"]
  have put: "rel_option (same_text (p + k + 1)) (buf_put (p + k) [blank] a) (buf_put (p + k) [blank] b)" by simp
  show "rel_option (same_rest p r) (do { b \<leftarrow> buf_put (p + k) [blank] a; f k b }) (do { b \<leftarrow> buf_put (p + k) [blank] b; g k b })"
    by (rule rel_bind [OF put]) (rule option.rel_mono_strong [OF assms(2)], auto intro: same_rest_step)
qed

lemma same_np_loop:
  assumes t: "text_ok t"
  shows "list_all (\<lambda>tok. hd tok \<in> set ''AJDN'' \<and> NUL \<notin> set tok) (tokens syn) \<Longrightarrow> same_text dest a b \<Longrightarrow>
    rel_option (same_rest dest res) (np_loop t sd syn dest res a s) (np_loop t sd syn dest res b s)"
proof (induction syn arbitrary: dest res a b s rule: tokens.induct)
  case (1 syn)
  show ?case
  proof (cases "strtok_blank syn")
    case None
    then show ?thesis using 1(3) by (subst (1 2) np_loop.simps) (simp add: same_rest_def)
  next
    case (Some p)
    then obtain tok rest where p: "strtok_blank syn = Some (tok, rest)" by (cases p) simp
    note tk = tokens_step(1) [OF p]
    obtain d where d: "np_source t (hd tok) = Some d" "word_list d"
      using np_word [OF t, of "hd tok"] 1(2) tk by auto
    have q: "NUL \<notin> set tok" "list_all (\<lambda>tok. hd tok \<in> set ''AJDN'' \<and> NUL \<notin> set tok) (tokens rest)" using 1(2) tk by auto
    let ?q = "\<lambda>i b. case tl tok of [] \<Rightarrow> Some (i, b) | c # _ \<Rightarrow> map_option (Pair (i + 1)) (buf_put (dest + i) [c] b)"
    have punct: "rel_option (\<lambda>(k, a) (k', a'). k = k' \<and> same_text (dest + k) a a') (?q i a) (?q i b)"
      if "same_text (dest + i) a b" for i a b
    proof (cases "tl tok")
      case (Cons c cs)
      then have "NUL \<notin> set [c]" using q(1) set_tl [of tok] by auto
      from same_put [OF that le_refl this] show ?thesis by (auto simp: Cons add.assoc intro!: rel_map)
    qed (use that in simp)
    have "rel_option (same_rest dest res)
      (do { (i, b, s) \<leftarrow> pick_into (Some d) sd dest a s; (k, b) \<leftarrow> ?q i b; b \<leftarrow> buf_put (dest + k) [blank] b;
            np_loop t sd rest (dest + k + 1) (res + k + 1) b s })
      (do { (i, b, s) \<leftarrow> pick_into (Some d) sd dest b s; (k, b) \<leftarrow> ?q i b; b \<leftarrow> buf_put (dest + k) [blank] b;
            np_loop t sd rest (dest + k + 1) (res + k + 1) b s })"
      by (rule rel_bind [OF same_pick [OF d(2) 1(3) le_refl]])
        (auto simp: same_end_def intro!: same_word_end punct 1(1) [OF p refl q(2)])
    then show ?thesis by (subst (1 2) np_loop.simps) (simp add: p d(1))
  qed
qed

lemma same_vp_loop:
  assumes t: "text_ok t"
  shows "list_all (\<lambda>tok. length tok = 1 \<and> hd tok \<in> set ''DVX'') (tokens syn) \<Longrightarrow> same_text dest a b \<Longrightarrow>
    rel_option (same_rest dest res) (vp_loop t sd syn dest res a s) (vp_loop t sd syn dest res b s)"
proof (induction syn arbitrary: dest res a b s rule: tokens.induct)
  case (1 syn)
  show ?case
  proof (cases "strtok_blank syn")
    case None
    then show ?thesis using 1(3) by (subst (1 2) vp_loop.simps) (simp add: same_rest_def)
  next
    case (Some p)
    then obtain tok rest where p: "strtok_blank syn = Some (tok, rest)" by (cases p) simp
    note tk = tokens_step(1) [OF p]
    obtain d where d: "vp_source t (hd tok) = Some d" "word_list d"
      using vp_word [OF t, of "hd tok"] 1(2) tk by auto
    have q: "tl tok = []" "list_all (\<lambda>tok. length tok = 1 \<and> hd tok \<in> set ''DVX'') (tokens rest)" using 1(2) tk by (cases tok; auto)+
    have "rel_option (same_rest dest res)
      (do { (i, b, s) \<leftarrow> pick_into (Some d) sd dest a s; (k, b) \<leftarrow> Some (i, b); b \<leftarrow> buf_put (dest + k) [blank] b;
            vp_loop t sd rest (dest + k + 1) (res + k + 1) b s })
      (do { (i, b, s) \<leftarrow> pick_into (Some d) sd dest b s; (k, b) \<leftarrow> Some (i, b); b \<leftarrow> buf_put (dest + k) [blank] b;
            vp_loop t sd rest (dest + k + 1) (res + k + 1) b s })"
      by (rule rel_bind [OF same_pick [OF d(2) 1(3) le_refl]])
        (auto simp: same_end_def simp del: bind.bind_lunit intro!: same_word_end 1(1) [OF p refl q(2)])
    then show ?thesis by (subst (1 2) vp_loop.simps) (simp add: p d(1) q(1))
  qed
qed

lemma same_rest_0: "same_rest p 0 = same_end p"
  by (simp add: same_rest_def same_end_def)

lemma pick_form_word: "pick_form d sd s = Some (f, s') \<Longrightarrow> f \<in> words d"
  by (auto simp: pick_form_def bind_eq_Some_conv split: if_splits dest: pick_str_word)

lemma same_txt_np:
  assumes "text_ok t" "same_text dest a b"
  shows "rel_option (same_end dest) (txt_np t sd dest a s) (txt_np t sd dest b s)"
proof (cases "pick_form (np t) sd s")
  case (Some r)
  obtain f s' where r: "pick_form (np t) sd s = Some (f, s')" using Some by (cases r) auto
  have "np_form t f" using assms(1) pick_form_word [OF r] by (auto simp: text_ok_def words_def list_all_iff)
  then show ?thesis using same_np_loop [OF assms(1) _ assms(2), of f 0 sd s'] by (simp add: txt_np_def r np_form_def same_rest_0)
qed (simp add: txt_np_def)

lemma same_txt_vp:
  assumes "text_ok t" "same_text dest a b"
  shows "rel_option (same_end dest) (txt_vp t sd dest a s) (txt_vp t sd dest b s)"
proof (cases "pick_form (vp t) sd s")
  case (Some r)
  obtain f s' where r: "pick_form (vp t) sd s = Some (f, s')" using Some by (cases r) auto
  have "vp_form t f" using assms(1) pick_form_word [OF r] by (auto simp: text_ok_def words_def list_all_iff)
  then show ?thesis using same_vp_loop [OF assms(1) _ assms(2), of f 0 sd s'] by (simp add: txt_vp_def r vp_form_def same_rest_0)
qed (simp add: txt_vp_def)

subsection \<open>Sentences\<close>

definition same_part :: "nat \<Rightarrow> nat \<times> nat \<times> string \<times> rng \<Rightarrow> nat \<times> nat \<times> string \<times> rng \<Rightarrow> bool" where
  "same_part p = (\<lambda>(d, n, a, s) (d', n', a', s'). d = p \<and> d' = p \<and> n = n' \<and> s = s' \<and> same_text (p + n) a a')"

lemma same_end_part: "rel_option (same_end p) x y \<Longrightarrow> rel_option (same_part p) (map_option (Pair p) x) (map_option (Pair p) y)"
  by (cases x; cases y) (auto simp: same_end_def same_part_def)

lemma same_preposition:
  assumes t: "text_ok t" and s: "same_text dest a b"
  shows "rel_option (same_part dest) (sent_part t sd CHR ''P'' dest len a r) (sent_part t sd CHR ''P'' dest len b r)"
proof -
  have w: "word_list (prepositions t)" using t by (simp add: text_ok_def)
  have "rel_option (same_part dest)
     (do { (i, b, s) \<leftarrow> pick_into (Some (prepositions t)) sd dest a r; b \<leftarrow> buf_put (dest + i) ('' the '' @ [NUL]) b;
        (k, b, s) \<leftarrow> txt_np t sd (dest + (i + 5)) b s; Some (dest, i + 5 + k, b, s) })
     (do { (i, b, s) \<leftarrow> pick_into (Some (prepositions t)) sd dest b r; b \<leftarrow> buf_put (dest + i) ('' the '' @ [NUL]) b;
        (k, b, s) \<leftarrow> txt_np t sd (dest + (i + 5)) b s; Some (dest, i + 5 + k, b, s) })"
  proof (rule rel_bind [OF same_pick [OF w s le_refl]], clarify)
    fix i a1 s1 i' b1 s1'
    assume "same_end dest (i, a1, s1) (i', b1, s1')"
    then have e: "i' = i" "s1' = s1" "same_text (dest + i) a1 b1" by (auto simp: same_end_def)
    have put: "rel_option (same_text (dest + (i + 5))) (buf_put (dest + i) ('' the '' @ [NUL]) a1) (buf_put (dest + i) ('' the '' @ [NUL]) b1)"
    proof (rule option.rel_mono_strong [OF same_put_end [OF e(3) le_refl]])
      have "dest + i + length '' the '' = dest + (i + 5)" by simp
      then show "same_string (dest + i + length '' the '') x y \<Longrightarrow> same_text (dest + (i + 5)) x y" for x y
        by (simp only: same_string_text)
    qed simp
    show "rel_option (same_part dest)
       (do { b \<leftarrow> buf_put (dest + i) ('' the '' @ [NUL]) a1; (k, b, s) \<leftarrow> txt_np t sd (dest + (i + 5)) b s1; Some (dest, i + 5 + k, b, s) })
       (do { b \<leftarrow> buf_put (dest + i') ('' the '' @ [NUL]) b1; (k, b, s) \<leftarrow> txt_np t sd (dest + (i' + 5)) b s1'; Some (dest, i' + 5 + k, b, s) })"
      unfolding e(1,2)
      by (rule rel_bind [OF put], rule rel_bind [OF same_txt_np [OF t]], assumption) (auto simp: same_end_def same_part_def algebra_simps)
  qed
  then show ?thesis by (simp add: sent_part_def)
qed

lemma same_sent_part:
  assumes "text_ok t" "same_text dest a b" "[c] \<in> {''V'', ''N'', ''P''}"
  shows "rel_option (same_part dest) (sent_part t sd c dest len a s) (sent_part t sd c dest len b s)"
proof -
  consider "c = CHR ''V''" | "c = CHR ''N''" | "c = CHR ''P''" using assms(3) by auto
  then show ?thesis
    by cases (use same_preposition [OF assms(1,2)] same_end_part [OF same_txt_vp [OF assms(1,2)]]
      same_end_part [OF same_txt_np [OF assms(1,2)]] in \<open>simp_all add: sent_part_def\<close>)
qed

definition same_sentence :: "int \<times> string \<times> rng \<Rightarrow> int \<times> string \<times> rng \<Rightarrow> bool" where
  "same_sentence = (\<lambda>(n, a, s) (n', a', s'). n = n' \<and> s = s' \<and> 0 \<le> n \<and> same_string (nat n) a a')"

lemma same_terminator:
  assumes t: "text_ok t" and s: "same_text dest a b" and syn: "tokens syn = [''T'']"
  shows "rel_option same_sentence (sent_loop t sd syn dest dest len a r) (sent_loop t sd syn dest dest len b r)"
proof -
  obtain rest where rest: "dropWhile (\<lambda>c. c = blank) syn = CHR ''T'' # rest" "rest = [] \<or> hd rest = blank" "tokens rest = []"
    by (rule letter_step [OF syn])
  have done0: "dropWhile (\<lambda>c. c = blank) rest = []" using rest(3)
    by (subst (asm) tokens.simps) (auto simp: strtok_blank_def split: list.splits option.splits)
  have w: "word_list (terminators t)" using t by (simp add: text_ok_def)
  have l: "sent_loop t sd syn dest dest len x r = (if dest = 0 then None else Option.bind (pick_into (Some (terminators t)) sd (dest - 1) x r)
      (\<lambda>(k, b, s). map_option (\<lambda>b. (int (dest + k) - 1, b, s)) (buf_put (dest - 1 + k) [NUL] b)))" for x
  proof -
    have "sent_punct rest d n c = Some (d, n, c)" for d n c using rest(2) by (auto simp: sent_punct_def)
    moreover have "sent_loop t sd rest d n k c s = map_option (\<lambda>b. (int n - 1, b, s)) (buf_put d [NUL] c)" for d n k c s
      by (subst sent_loop.simps) (simp add: done0)
    ultimately show ?thesis
      by (subst sent_loop.simps) (cases "pick_into (Some (terminators t)) sd (dest - 1) x r"; simp add: rest(1) sent_part_def split_beta)
  qed
  show ?thesis
  proof (cases "dest = 0")
    case False
    have fin: "rel_option same_sentence (map_option (\<lambda>b. (int (dest + k) - 1, b, s)) (buf_put (dest - 1 + k) [NUL] a))
        (map_option (\<lambda>b. (int (dest + k) - 1, b, s)) (buf_put (dest - 1 + k) [NUL] b))"
      if "same_text (dest - 1 + k) a b" for k a b s
    proof -
      have "rel_option (same_string (dest - 1 + k)) (buf_put (dest - 1 + k) [NUL] a) (buf_put (dest - 1 + k) [NUL] b)"
        using same_put_end [OF that le_refl, of "[]"] by simp
      moreover have "nat (int (dest + k) - 1) = dest - 1 + k" "0 \<le> int (dest + k) - 1" using False by auto
      ultimately show ?thesis by (auto simp: same_sentence_def intro!: rel_map)
    qed
    have "rel_option same_sentence (Option.bind (pick_into (Some (terminators t)) sd (dest - 1) a r)
        (\<lambda>(k, b, s). map_option (\<lambda>b. (int (dest + k) - 1, b, s)) (buf_put (dest - 1 + k) [NUL] b)))
      (Option.bind (pick_into (Some (terminators t)) sd (dest - 1) b r)
        (\<lambda>(k, b, s). map_option (\<lambda>b. (int (dest + k) - 1, b, s)) (buf_put (dest - 1 + k) [NUL] b)))"
      by (rule rel_bind [OF same_pick [OF w s]]) (simp, clarify, simp only: same_end_def prod.case, elim conjE, hypsubst, rule fin)
    then show ?thesis unfolding l using False by simp
  next
    case True
    show ?thesis unfolding l using True by simp
  qed
qed

lemma same_sent_loop:
  assumes t: "text_ok t"
  shows "tokens syn = body @ [''T''] \<Longrightarrow> list_all (\<lambda>tok. tok \<in> {''V'', ''N'', ''P''}) body \<Longrightarrow> same_text dest a b \<Longrightarrow>
    rel_option same_sentence (sent_loop t sd syn dest dest len a s) (sent_loop t sd syn dest dest len b s)"
proof (induction body arbitrary: syn dest len a b s)
  case Nil
  then show ?case using same_terminator [OF t] by simp
next
  case (Cons tok body)
  obtain c where c: "tok = [c]" "[c] \<in> {''V'', ''N'', ''P''}" using Cons.prems(2) by auto
  obtain rest where rest: "dropWhile (\<lambda>c. c = blank) syn = c # rest" "rest = [] \<or> hd rest = blank" "tokens rest = body @ [''T'']"
    by (rule letter_step [of syn c "body @ [''T'']"]) (use Cons.prems(1) c in simp)
  have p: "sent_punct rest d n x = Some (d, n, x)" for d n x using rest(2) by (auto simp: sent_punct_def)
  have "list_all (\<lambda>tok. tok \<in> {''V'', ''N'', ''P''}) body" using Cons.prems(2) by simp
  note IH = Cons.IH [OF rest(3) this]
  have "rel_option same_sentence
     (do { (dest', len, b, s) \<leftarrow> sent_part t sd c dest len a s; sent_loop t sd rest (dest' + len) (dest + len) len b s })
     (do { (dest', len, b, s) \<leftarrow> sent_part t sd c dest len b s; sent_loop t sd rest (dest' + len) (dest + len) len b s })"
    by (rule rel_bind [OF same_sent_part [OF t Cons.prems(3) c(2)]]) (auto simp: same_part_def intro!: IH)
  then show ?case by (subst (1 2) sent_loop.simps) (simp add: rest(1) p)
qed

lemma same_txt_sentence:
  assumes "text_ok t" "length a = length b"
  shows "rel_option same_sentence (txt_sentence t sd a s) (txt_sentence t sd b s)"
proof (cases "pick_form (grammar t) sd s")
  case (Some r)
  obtain f s' where r: "pick_form (grammar t) sd s = Some (f, s')" using Some by (cases r) auto
  have "sent_form t f" using assms(1) pick_form_word [OF r] by (auto simp: text_ok_def words_def list_all_iff)
  then have g: "tokens f = butlast (tokens f) @ [''T'']" "list_all (\<lambda>tok. tok \<in> {''V'', ''N'', ''P''}) (butlast (tokens f))"
    using append_butlast_last_id [of "tokens f"] by (auto simp: sent_form_def)
  show ?thesis using same_sent_loop [OF assms(1) g, of 0 a b] assms(2) by (simp add: txt_sentence_def r same_text_0)
qed (simp add: txt_sentence_def)

subsection \<open>Texts\<close>

definition same_step :: "nat \<Rightarrow> int \<times> string \<times> string \<times> rng \<Rightarrow> int \<times> string \<times> string \<times> rng \<Rightarrow> bool" where
  "same_step p = (\<lambda>(k, t, b, s) (k', t', b', s'). k = k' \<and> s = s' \<and> 0 \<le> k \<and> same_text (p + nat k) t t' \<and> length b = length b')"

lemma same_string_length: "same_string n a b \<Longrightarrow> length (take n a) = n \<and> NUL \<notin> set (take n a)"
  by (auto simp: same_string_def same_text_def)

lemma same_text_step:
  assumes t: "text_ok t" and n: "0 \<le> needed" and tgt: "same_text p x y" and b: "length a = length b"
  shows "rel_option (same_step p) (right (text_step t sd needed p x a s)) (right (text_step t sd needed p y b s))"
  unfolding text_step_right
proof (rule rel_bind [OF same_txt_sentence [OF t b]], clarify)
  fix n1 a1 s1 n2 b1 s2
  assume "same_sentence (n1, a1, s1) (n2, b1, s2)"
  then have e: "n2 = n1" "s2 = s1" "0 \<le> n1" "same_string (nat n1) a1 b1" by (auto simp: same_sentence_def)
  define w where "w = take (nat n1) a1"
  have w: "c_string a1 = Some w" "c_string b1 = Some w" "length w = nat n1" "NUL \<notin> set w"
    using e(4) same_string_length [OF e(4)] by (simp_all add: w_def same_string_def)
  show "rel_option (same_step p)
    (if n1 < 0 then None else if needed \<ge> n1 + 1 then do { z \<leftarrow> c_string a1; tgt \<leftarrow> buf_put p (z @ [NUL]) x; tgt \<leftarrow> buf_put (p + nat n1) [blank] tgt;
             Some (n1 + 1, tgt, a1, s1) }
           else do { b \<leftarrow> buf_put (nat needed) [NUL] a1; z \<leftarrow> c_string b; tgt \<leftarrow> buf_put p (z @ [NUL]) x; Some (needed, tgt, b, s1) })
    (if n2 < 0 then None else if needed \<ge> n2 + 1 then do { z \<leftarrow> c_string b1; tgt \<leftarrow> buf_put p (z @ [NUL]) y; tgt \<leftarrow> buf_put (p + nat n2) [blank] tgt;
             Some (n2 + 1, tgt, b1, s2) }
           else do { b \<leftarrow> buf_put (nat needed) [NUL] b1; z \<leftarrow> c_string b; tgt \<leftarrow> buf_put p (z @ [NUL]) y; Some (needed, tgt, b, s2) })"
  proof (cases "needed \<ge> n1 + 1")
    case True
    have "rel_option (same_step p)
      (do { tgt \<leftarrow> buf_put p (w @ [NUL]) x; tgt \<leftarrow> buf_put (p + nat n1) [blank] tgt; Some (n1 + 1, tgt, a1, s1) })
      (do { tgt \<leftarrow> buf_put p (w @ [NUL]) y; tgt \<leftarrow> buf_put (p + nat n1) [blank] tgt; Some (n1 + 1, tgt, b1, s1) })"
    proof (rule rel_bind [OF same_put_end [OF tgt le_refl w(4)]])
      fix x1 y1 assume "same_string (p + length w) x1 y1"
      from same_put [OF same_string_text [OF this], of "p + nat n1" "[blank]"] w(3)
      have "rel_option (same_text (p + nat n1 + 1)) (buf_put (p + nat n1) [blank] x1) (buf_put (p + nat n1) [blank] y1)" by simp
      moreover have "p + nat (n1 + 1) = p + nat n1 + 1" using e(3) by simp
      moreover have "length a1 = length b1" using same_text_length [OF same_string_text [OF e(4)]] .
      ultimately show "rel_option (same_step p) (do { tgt \<leftarrow> buf_put (p + nat n1) [blank] x1; Some (n1 + 1, tgt, a1, s1) })
          (do { tgt \<leftarrow> buf_put (p + nat n1) [blank] y1; Some (n1 + 1, tgt, b1, s1) })"
        using e(3) by (auto simp: same_step_def intro!: rel_bind)
    qed
    then show ?thesis using True e(1,2,3) w by simp
  next
    case False
    then have m: "nat needed \<le> nat n1" by simp
    have cut: "rel_option (same_string (nat needed)) (buf_put (nat needed) [NUL] a1) (buf_put (nat needed) [NUL] b1)"
      using same_put_end [OF same_string_text [OF e(4)] m, of "[]"] by simp
    have "rel_option (same_step p)
      (do { b \<leftarrow> buf_put (nat needed) [NUL] a1; z \<leftarrow> c_string b; tgt \<leftarrow> buf_put p (z @ [NUL]) x; Some (needed, tgt, b, s1) })
      (do { b \<leftarrow> buf_put (nat needed) [NUL] b1; z \<leftarrow> c_string b; tgt \<leftarrow> buf_put p (z @ [NUL]) y; Some (needed, tgt, b, s1) })"
    proof (rule rel_bind [OF cut])
      fix a2 b2 assume s: "same_string (nat needed) a2 b2"
      define v where "v = take (nat needed) a2"
      have v: "c_string a2 = Some v" "c_string b2 = Some v" "length v = nat needed" "NUL \<notin> set v"
        using s same_string_length [OF s] by (simp_all add: v_def same_string_def)
      show "rel_option (same_step p) (do { z \<leftarrow> c_string a2; tgt \<leftarrow> buf_put p (z @ [NUL]) x; Some (needed, tgt, a2, s1) })
          (do { z \<leftarrow> c_string b2; tgt \<leftarrow> buf_put p (z @ [NUL]) y; Some (needed, tgt, b2, s1) })"
        unfolding v(1,2) bind.bind_lunit
        by (rule rel_bind [OF same_put_end [OF tgt le_refl v(4)]])
          (use n v(3) same_text_length [OF same_string_text [OF s]] in \<open>auto simp: same_step_def dest: same_string_text\<close>)
    qed
    then show ?thesis using False e(1,2,3) by simp
  qed
qed

text \<open>Two texts of the same length that end at the same place, and the same streams after them.\<close>

lemma same_text_loop:
  assumes t: "text_ok t"
  shows "0 \<le> wordlen \<Longrightarrow> same_text (nat wordlen) x y \<Longrightarrow> length a = length b \<Longrightarrow>
    rel_option same_sentence (right (text_loop t sd len wordlen (nat wordlen) x a s)) (right (text_loop t sd len wordlen (nat wordlen) y b s))"
proof (induction "nat (len - wordlen)" arbitrary: wordlen x y a b s rule: less_induct)
  case less
  show ?case
  proof (cases "wordlen < len")
    case True
    show ?thesis
      unfolding text_loop_right [OF True]
    proof (rule rel_bind [OF same_text_step [OF t _ less.prems(2,3)]], use True in simp, clarify)
      fix k x1 a1 s1 k' y1 b1 s1'
      assume "same_step (nat wordlen) (k, x1, a1, s1) (k', y1, b1, s1')"
      then have e: "k' = k" "s1' = s1" "0 \<le> k" "same_text (nat wordlen + nat k) x1 y1" "length a1 = length b1" by (auto simp: same_step_def)
      have p: "nat wordlen + nat k = nat (wordlen + k)" using e(3) less.prems(1) by simp
      show "rel_option same_sentence (if 0 < k then right (text_loop t sd len (wordlen + k) (nat wordlen + nat k) x1 a1 s1) else None)
          (if 0 < k' then right (text_loop t sd len (wordlen + k') (nat wordlen + nat k') y1 b1 s1') else None)"
        using less.hyps [of "wordlen + k" x1 y1 a1 b1 s1] True less.prems(1) e unfolding e(1,2) p by simp
    qed
  next
    case False
    have l: "right (text_loop t sd len wordlen (nat wordlen) z c s) = map_option (\<lambda>z. (wordlen, z, s)) (buf_put (nat wordlen) [NUL] z)" for z c
      using False by (subst text_loop.simps) (cases "buf_put (nat wordlen) [NUL] z"; simp add: right_simps)
    show ?thesis unfolding l using same_put_end [OF less.prems(2) le_refl, of "[]"] less.prems(1)
      by (auto simp: same_sentence_def intro!: rel_map)
  qed
qed

lemma same_dbg_text:
  assumes "text_ok t" "length a = length b" "length x = length y"
  shows "rel_option same_sentence (right (dbg_text t a x mn mx sd s)) (right (dbg_text t b y mn mx sd s))"
  using same_text_loop [OF assms(1), of 0 x y a b] assms(2,3)
  by (cases "dss_random mn mx sd s") (simp add: dbg_text_def same_text_0)

end
