(* ===== verification/Tpch_Buffers.thy ===== *)
theory Tpch_Buffers
  imports Text_Same Tpch_Runs
begin

text \<open>
  The arrays the comments are composed in are not initialised.  What they hold at first reaches no row, no stream of random numbers
  and no file of TPC-H: the tables are the same whatever is left in memory.
\<close>

subsection \<open>Comments\<close>

lemma TEXT_right: "TEXT e m avg sd s = right (dbg_text (h_text e) (h_sentence e) (take (m + 1) (h_comment e))
    (fst (text_range avg)) (snd (text_range avg)) sd s)"
  by (simp add: TEXT_def text_range_def right_def)

lemma same_TEXT:
  assumes "text_ok (h_text e)" "length js = length (h_sentence e)" "length jc = length (h_comment e)"
  shows "rel_option same_sentence (TEXT e m avg sd s) (TEXT (e\<lparr>h_sentence := js, h_comment := jc\<rparr>) m avg sd s)"
  unfolding TEXT_right using same_dbg_text [OF assms(1)] assms(2,3) by simp

lemma same_comment:
  assumes "text_ok (h_text e)" "length js = length (h_sentence e)" "length jc = length (h_comment e)"
  shows "comment_of (e\<lparr>h_sentence := js, h_comment := jc\<rparr>) = comment_of e"
proof (intro ext)
  fix m avg sd s
  from same_TEXT [OF assms, of m avg sd s] show "comment_of (e\<lparr>h_sentence := js, h_comment := jc\<rparr>) m avg sd s = comment_of e m avg sd s"
    unfolding comment_of_def by cases (auto simp: same_sentence_def same_string_def)
qed

subsection \<open>Suppliers\<close>

text \<open>The note for a supplier is copied into the comment, inside the text that was written there.\<close>

lemma equal_address:
  assumes "rng_ok s" "0 \<le> c" "c \<le> 47" "\<And>len a s. rng_ok s \<Longrightarrow> f len a s = g len a s"
  shows "(let (len, a, s) = V_STR 25 c s in f len a s) = (let (len, a, s) = V_STR 25 c s in g len a s)"
proof -
  obtain len a s' where a: "a_rnd 10 40 c s = (len, a, s')"
    "moves (\<lambda>j. (1 + (nat len + 4) div 5) * one_at (nat c) j) (\<lambda>j. (1 + (nat len + 4) div 5) * one_at (nat c) j) s s'"
    by (rule a_rnd_props [OF assms(1-3), of 10 40]) simp_all
  show ?thesis using assms(4) [OF moves_ok [OF a(2) assms(1)]] by (simp add: V_STR_25 a(1))
qed

lemma equal_draw:
  assumes "rng_ok s" "lo \<le> hi" "hi - lo < 2 ^ 53 - 1" "0 \<le> c" "c \<le> 47"
    and "\<And>x s. rng_ok s \<Longrightarrow> lo \<le> x \<Longrightarrow> x \<le> hi \<Longrightarrow> f x s = g x s"
  shows "(let (x, s) = dss_random lo hi c s in f x s) = (let (x, s) = dss_random lo hi c s in g x s)"
  by (rule draw [OF assms(1,4,5,2,3)]) (simp add: assms(6))

lemma equal_phone:
  assumes "rng_ok s" "0 \<le> i" "0 \<le> c" "c \<le> 47" "\<And>ph s. rng_ok s \<Longrightarrow> f ph s = g ph s"
  shows "(let (ph, s) = gen_phone i c s in f ph s) = (let (ph, s) = gen_phone i c s in g ph s)"
  by (rule gen_phone_props [OF assms(1,3,4,2)]) (simp add: assms(5))

lemma henv_ok_buffers:
  "henv_ok e \<Longrightarrow> length js = length (h_sentence e) \<Longrightarrow> length jc = length (h_comment e) \<Longrightarrow>
   henv_ok (e\<lparr>h_sentence := js, h_comment := jc\<rparr>)"
  by (simp add: henv_ok_def)

lemma equal_text:
  assumes e: "henv_ok e" and l: "length js = length (h_sentence e)" "length jc = length (h_comment e)" and s: "rng_ok s"
    and f: "\<And>n x a b a0 b0 s. rng_ok s \<Longrightarrow> comment_ok e 63 (n, x) \<Longrightarrow> 25 \<le> n \<Longrightarrow> n \<le> 100 \<Longrightarrow> NUL \<notin> set x \<Longrightarrow>
      wrote a0 0 (x @ [NUL]) a \<Longrightarrow> wrote b0 0 (x @ [NUL]) b \<Longrightarrow> c_string a = Some x \<Longrightarrow> c_string b = Some x \<Longrightarrow> f n a s = g n b s"
  shows "Option.bind (TEXT e S_CMNT_MAX 63 S_CMNT_SD s) (\<lambda>(n, b, s). f n b s) =
    Option.bind (TEXT (e\<lparr>h_sentence := js, h_comment := jc\<rparr>) S_CMNT_MAX 63 S_CMNT_SD s) (\<lambda>(n, b, s). g n b s)"
proof -
  let ?e = "e\<lparr>h_sentence := js, h_comment := jc\<rparr>"
  obtain n x a s1 where a: "TEXT e S_CMNT_MAX 63 S_CMNT_SD s = Some (n, a, s1)" "comment_ok e 63 (n, x)" "NUL \<notin> set x"
    "wrote (take (S_CMNT_MAX + 1) (h_comment e)) 0 (x @ [NUL]) a" "c_string a = Some x" "rng_ok s1"
    by (rule TEXT_writes [OF e s _ _ text_ranges_long(1), of S_CMNT_SD S_CMNT_MAX]) simp_all
  obtain n' y b s2 where b: "TEXT ?e S_CMNT_MAX 63 S_CMNT_SD s = Some (n', b, s2)"
    "wrote (take (S_CMNT_MAX + 1) (h_comment ?e)) 0 (y @ [NUL]) b" "c_string b = Some y"
    by (rule TEXT_writes [OF henv_ok_buffers [OF e l] s _ _ text_ranges_long(1), of S_CMNT_SD S_CMNT_MAX]) simp_all
  have t: "text_ok (h_text e)" using e by (simp add: henv_ok_def)
  have "same_sentence (n, a, s1) (n', b, s2)" using same_TEXT [OF t l, of S_CMNT_MAX 63 S_CMNT_SD s] a(1) b(1) by simp
  then have same: "n' = n" "s2 = s1" "y = x" using a(5) b(3) by (auto simp: same_sentence_def same_string_def)
  have "25 \<le> n" "n \<le> 100" using a(2) by (simp_all add: comment_ok_def text_ranges)
  from f [OF a(6,2) this a(3,4) b(2) [unfolded same] a(5) b(3) [unfolded same]] show ?thesis
    by (simp only: a(1) b(1) same bind.bind_lunit prod.case)
qed

lemma equal_note:
  assumes "wrote a0 0 (x @ [NUL]) a" "wrote b0 0 (x @ [NUL]) b" "NUL \<notin> set x" "c_string a = Some x" "c_string b = Some x"
    and "comment_ok e 63 (n, x)" "0 \<le> noise" "0 \<le> offset" "offset \<le> n - (BBB_CMNT_LEN + noise)"
  shows "Option.bind (if c then note_supplier ty noise offset a else Some a) (\<lambda>b. Option.bind (c_string b) f) =
    Option.bind (if c then note_supplier ty noise offset b else Some b) (\<lambda>b. Option.bind (c_string b) f)"
proof -
  have fit: "offset + noise + 19 \<le> int (length x)" using assms(6,9) by (simp add: comment_ok_def)
  obtain a' b' where "note_supplier ty noise offset a = Some a'" "c_string a' = Some (note_text ty (nat noise) (nat offset) x)"
    "note_supplier ty noise offset b = Some b'" "c_string b' = Some (note_text ty (nat noise) (nat offset) x)"
    using note_supplier_writes [OF assms(1,3,7,8) fit] note_supplier_writes [OF assms(2,3,7,8) fit] by blast
  then show ?thesis using assms(4,5) by simp
qed

lemma equal_supp:
  assumes e: "henv_ok e" and l: "length js = length (h_sentence e)" "length jc = length (h_comment e)" and s: "rng_ok s"
  shows "tpch_mk_supp e n s = tpch_mk_supp (e\<lparr>h_sentence := js, h_comment := jc\<rparr>) n s"
proof -
  have d: "be_dists (e\<lparr>h_sentence := js, h_comment := jc\<rparr>) = be_dists e" by simp
  show ?thesis
    unfolding tpch_mk_supp_def tpch_S_ADDR_LEN_def S_CMNT_LEN_def d
    by (rule equal_address equal_draw equal_phone equal_text [OF e l] equal_note s | assumption | simp add: henv_facts [OF e])+
qed

subsection \<open>Rows\<close>

text \<open>The other rows take over a comment as a string, so that they are the same from every state of the streams.\<close>

lemma equal_rows:
  assumes "text_ok (h_text e)" "length js = length (h_sentence e)" "length jc = length (h_comment e)"
  shows "tpch_mk_cust (e\<lparr>h_sentence := js, h_comment := jc\<rparr>) = tpch_mk_cust e"
    "mk_nation (e\<lparr>h_sentence := js, h_comment := jc\<rparr>) = mk_nation e"
    "mk_region (e\<lparr>h_sentence := js, h_comment := jc\<rparr>) = mk_region e"
    "tpch_mk_part (e\<lparr>h_sentence := js, h_comment := jc\<rparr>) = tpch_mk_part e"
    "tpch_mk_order (e\<lparr>h_sentence := js, h_comment := jc\<rparr>) = tpch_mk_order e"
proof -
  let ?e = "e\<lparr>h_sentence := js, h_comment := jc\<rparr>"
  note C = same_comment [OF assms]
  have d: "be_dists ?e = be_dists e" "l_instruct_set ?e = l_instruct_set e" "l_rflag_set ?e = l_rflag_set e" "asc_date ?e = asc_date e"
    "be_scale ?e = be_scale e" "be_refresh ?e = be_refresh e" by simp_all
  have k: "PART_SUPP_BRIDGE ?e = PART_SUPP_BRIDGE e" "tpch_L_PKEY_MAX ?e = tpch_L_PKEY_MAX e" "tpch_O_CKEY_MAX ?e = tpch_O_CKEY_MAX e"
    by (simp_all add: fun_eq_iff PART_SUPP_BRIDGE_def tot_scnt_def tpch_L_PKEY_MAX_def tpch_O_CKEY_MAX_def)
  show "tpch_mk_cust ?e = tpch_mk_cust e" by (intro ext) (simp only: tpch_mk_cust_def C d)
  show "mk_nation ?e = mk_nation e" by (intro ext) (simp only: mk_nation_def C d)
  show "mk_region ?e = mk_region e" by (intro ext) (simp only: mk_region_def C d)
  have "mk_psupps n ?e i j s = mk_psupps n e i j s" for n i j s
    by (induction n arbitrary: j s) (simp_all only: mk_psupps.simps C k)
  then show "tpch_mk_part ?e = tpch_mk_part e" by (intro ext) (simp only: tpch_mk_part_def C d)
  have "return_flag ?e = return_flag e" by (intro ext) (simp only: return_flag_def d)
  then have "tpch_mk_line ?e = tpch_mk_line e" by (intro ext) (simp only: tpch_mk_line_def C d k)
  then have "tpch_mk_lines n ?e ok td l tp oc s = tpch_mk_lines n e ok td l tp oc s" for n ok td l tp oc s
    by (induction n arbitrary: l tp oc s) simp_all
  then show "tpch_mk_order ?e = tpch_mk_order e" by (intro ext) (simp only: tpch_mk_order_def C d k)
qed

lemma equal_row:
  assumes "henv_ok e" "length js = length (h_sentence e)" "length jc = length (h_comment e)" "rng_ok s"
  shows "tpch_mk_row (e\<lparr>h_sentence := js, h_comment := jc\<rparr>) t upd i s = tpch_mk_row e t upd i s"
proof -
  have t: "text_ok (h_text e)" using assms(1) by (simp add: henv_ok_def)
  show ?thesis unfolding tpch_mk_row_def equal_rows [OF t assms(2,3)] equal_supp [OF assms, symmetric] ..
qed

subsection \<open>The streams between the rows\<close>

lemma tied_either: "tied q A n f \<Longrightarrow> tied q A n g \<Longrightarrow> tied q A n (\<lambda>s. if P then f s else g s)"
  by (cases P) simp_all

lemma tied_any_row:
  assumes "dcount (colors (be_dists e)) \<le> 1000000"
  shows "tied tuple2 {..<48} 1200000 (\<lambda>s. tpch_mk_row e t upd n s)"
proof -
  have 1: "tied tuple2 {..<48} 1200000 (\<lambda>s. tpch_mk_cust e n s)" by (rule tied_le [OF tied_cust]) auto
  have 2: "tied tuple2 {..<48} 1200000 (\<lambda>s. tpch_mk_supp e n s)" by (rule tied_le [OF tied_supp]) auto
  have 3: "tied tuple2 {..<48} 1200000 (\<lambda>s. tpch_mk_part e n s)" by (rule tied_le [OF tied_part]) (use assms in auto)
  have 4: "tied tuple2 {..<48} 1200000 (\<lambda>s. tpch_mk_order e (upd smod 10000) n s)" by (rule tied_le [OF tied_order]) auto
  have 5: "tied tuple2 {..<48} 1200000 (\<lambda>s. mk_nation e n s)"
    unfolding mk_nation_def N_CMNT_LEN_def by (rule tied_le, (rule tied_steps tied_value | force)+)
  have 6: "tied tuple2 {..<48} 1200000 (\<lambda>s. mk_region e n s)"
    unfolding mk_region_def R_CMNT_LEN_def by (rule tied_le, (rule tied_steps tied_value | force)+)
  have 7: "tied tuple2 {..<48} 1200000 (\<lambda>s. Some (HNone, s))" by (rule tied_le [OF tied_Some(1)]) simp
  show ?thesis unfolding tpch_mk_row_def by (intro tied_either tied_map 1 2 3 4 5 6 7)
qed

text \<open>\<open>row_stop\<close> keeps the table of streams in order after any row.\<close>

lemma map_seeds_each: "map_seeds f xs = Some ys \<Longrightarrow> length ys = length xs \<and> (\<forall>i < length xs. f (xs ! i) = Some (ys ! i))"
proof (induction xs arbitrary: ys)
  case (Cons x xs)
  then show ?case by (auto simp: nth_Cons' split: option.splits)
qed simp

lemma row_stop_inv:
  assumes inv: "rng_inv s" and m: "spends A n (row_start t s) s1" and n: "n < 2 ^ 31 - 1" and stop: "row_stop False tds t s1 = Some s2"
  shows "rng_inv s2"
proof -
  obtain k where k: "moves k k (row_start t s) s1" "\<And>i. k i \<le> n" using m unfolding spends_def by blast
  note inv0 = row_start_inv [OF inv, of t]
  note inv1 = moves_inv [OF k(1) inv0]
  note ok0 = rng_inv_ok [OF inv0] and ok1 = rng_inv_ok [OF inv1] and ok = rng_inv_ok [OF inv]
  have l: "length (Seed s1) = 48" by (rule rng_okD(1) [OF ok1])
  obtain f where f: "map_seeds f (Seed s1) = Some (Seed s2)" "\<And>e. f e = stop_seed False (base_table t) (td_child (tds ! nat (base_table t))) e"
    using stop by (auto simp: row_stop_def base_table_def Let_def split: if_splits)
  have each: "length (Seed s2) = 48" "\<And>i. i < 48 \<Longrightarrow> f (Seed s1 ! i) = Some (Seed s2 ! i)" using map_seeds_each [OF f(1)] l by auto
  have s2: "Seed s2 ! i = Seed s1 ! i \<or> Seed s2 ! i = (Seed s1 ! i)\<lparr>sd_value := (NextRand ^^ stream_boundary i) (val s i)\<rparr>" if i: "i < 48" for i
  proof -
    have v: "val s1 i = (NextRand ^^ k i) (val s i)" "sd_usage (Seed s1 ! i) = int (k i)"
      using k(1) i rng_okD(1) [OF ok0] by (simp_all add: moves_def row_start_nth [OF inv i])
    have "k i < 2 ^ 31 - 1" using k(2) n le_less_trans by blast
    moreover have "stream_boundary i < 2 ^ 31" using rng_okD(5) [OF ok1 i] frame_nth(2) [OF inv1 i] by simp
    ultimately have "NthElement (int (stream_boundary i) - int (k i)) (val s1 i) = Some ((NextRand ^^ stream_boundary i) (val s i))"
      unfolding v(1) by (rule NthElement_fill [OF rng_okD(2) [OF ok i]])
    then show ?thesis using each(2) [OF i] by (auto simp: f(2) stop_seed_def frame_nth(2) [OF inv1 i] v(2) split: if_splits)
  qed
  have "rng_ok s2"
  proof (rule rng_okI)
    fix i :: nat assume i: "i < 48"
    show "seed_ok (val s2 i) \<and> 0 \<le> sd_usage (Seed s2 ! i) \<and> 0 \<le> sd_boundary (Seed s2 ! i) \<and> sd_boundary (Seed s2 ! i) < 2 ^ 31"
      using s2 [OF i] rng_okD [OF ok1] rng_okD(2) [OF ok] i by (auto simp: NextRand_iter_ok)
  qed (rule each(1))
  moreover have "sd_table (Seed s2 ! i) = sd_table (Seed s1 ! i) \<and> sd_boundary (Seed s2 ! i) = sd_boundary (Seed s1 ! i)" if "i < 48" for i
    using s2 [OF that] by auto
  then have "frame s2 = frame s1" unfolding frame_def by (intro nth_equalityI) (simp_all add: l each(1))
  ultimately show ?thesis using inv1 by (simp add: rng_inv_def)
qed

subsection \<open>Tables\<close>

text \<open>What a table description is needed for does not change while a table is built.\<close>

lemma alike_vrf:
  "alike td x \<Longrightarrow> alike (vrf_add t v td) x" "alike td x \<Longrightarrow> alike (VRF_INT t v td) x" "alike td x \<Longrightarrow> alike (VRF_STR t w td) x"
  "alike td x \<Longrightarrow> alike (VRF_HUGE t h td) x" "alike td x \<Longrightarrow> alike (VRF_CHR t c td) x" "alike td x \<Longrightarrow> alike (VRF_MONEY t v nxt td) x"
proof -
  have one: "alike (td[k := (td ! k)\<lparr>td_vtotal := v\<rparr>]) x" if "alike td x" for td k v
    using that by (cases "k < length td") (simp_all add: alike_def nth_list_update list_update_beyond)
  show add: "alike td x \<Longrightarrow> alike (vrf_add t v td) x" for td t v by (simp add: vrf_add_def one)
  then show "alike td x \<Longrightarrow> alike (VRF_INT t v td) x" "alike td x \<Longrightarrow> alike (VRF_HUGE t h td) x" "alike td x \<Longrightarrow> alike (VRF_CHR t c td) x"
    by (simp_all add: VRF_INT_def VRF_HUGE_def VRF_CHR_def)
  show "alike td x \<Longrightarrow> alike (VRF_MONEY t v nxt td) x" by (simp add: VRF_MONEY_def one)
  show "alike td x \<Longrightarrow> alike (VRF_STR t w td) x" unfolding VRF_STR_def by (induction w arbitrary: td) (simp_all add: add)
qed

lemma alike_foldl: "(\<And>td w. alike td x \<Longrightarrow> alike (f td w) x) \<Longrightarrow> alike td x \<Longrightarrow> alike (foldl f td ws) x"
  by (induction ws arbitrary: td) simp_all

lemma alike_lines:
  "alike td x \<Longrightarrow> alike (tpch_vrf_line nxt r td) x" "alike td x \<Longrightarrow> alike (vrf_order m r td) x"
  "alike td x \<Longrightarrow> alike (tpch_vrf_part m p td) x" "alike td x \<Longrightarrow> alike (vrf_psupp psnxt p td) x"
  unfolding tpch_vrf_line_def tpch_vrf_line1_def vrf_order_def tpch_vrf_part_def vrf_psupp_def vrf_psupp1_def Let_def
  by (intro alike_foldl alike_vrf; assumption)+

lemma verify_row_alike: "alike (tpch_verify_row pf t w td) td"
proof (cases w)
  case (HOrder x)
  then show ?thesis by (simp add: tpch_verify_row_def vrf_order_line_def alike_lines alike_refl)
next
  case (HPart x)
  then show ?thesis by (simp add: tpch_verify_row_def vrf_part_psupp_def alike_lines alike_refl)
qed (simp_all add: tpch_verify_row_def tpch_vrf_supp_def tpch_vrf_cust_def vrf_nation_def vrf_region_def Let_def alike_vrf alike_refl)

lemma emit_row_alike: "tpch_emit_row g pf t upd w r = Inr r' \<Longrightarrow> alike (r_tds r') (r_tds r) \<and> r_streams r' = r_streams r"
  by (auto simp: tpch_emit_row_def alike_refl verify_row_alike map_sum_def dest: print_row_alike split: if_splits sum.splits)

text \<open>A run between two rows.\<close>

definition between_rows :: "globals \<Rightarrow> hplatform \<Rightarrow> hdists \<Rightarrow> run \<Rightarrow> bool" where
  "between_rows g pf d r \<longleftrightarrow> \<not> g_set_seeds g \<and> tpch_ok (tpch_builder_env g pf d (r_tds r)) \<and> rng_inv (r_streams r)"

lemma between_say: "r_streams (say g x r) = r_streams r" "r_tds (say g x r) = r_tds r"
  by (simp_all add: say_def)

lemma gen_row_between:
  assumes "between_rows g pf d r" "tpch_gen_row g pf d t seg i su r = Inr (su', r')"
  shows "between_rows g pf d r'"
proof -
  have h: "\<not> g_set_seeds g" "tpch_ok (tpch_builder_env g pf d (r_tds r))" "rng_inv (r_streams r)" using assms(1) by (simp_all add: between_rows_def)
  let ?e = "tpch_builder_env g pf d (r_tds r)"
  obtain w s1 r1 s2 upd where w: "tpch_mk_row ?e t (snd su) i (row_start t (r_streams r)) = Some (w, s1)"
    "tpch_emit_row g pf t upd w ((say g [lnoise ! nat (i smod 4), CHR 0x08] r)\<lparr>r_streams := s1\<rparr>) = Inr r1"
    "row_stop False (r_tds r1) t (r_streams r1) = Some s2" "r' = r1\<lparr>r_streams := s2\<rparr>"
    using assms(2) h(1) by (auto simp: tpch_gen_row_def Let_def between_say show_seeds_def split: option.splits sum.splits if_splits)
  have a: "alike (r_tds r1) (r_tds r)" "r_streams r1 = s1" using emit_row_alike [OF w(2)] by (simp_all add: between_say)
  have c: "dcount (colors (be_dists ?e)) \<le> 1000000" using h(2) by (simp add: tpch_ok_def)
  have "spends {..<48} 1200000 (row_start t (r_streams r)) s1"
    using tied_spends [OF tied_any_row [OF c] rng_inv_ok [OF row_start_inv [OF h(3)]] w(1)] by (simp add: tuple2_def)
  from row_stop_inv [OF h(3) this _ w(3) [unfolded a(2)]] show ?thesis
    using h(1,2) tpch_ok_alike [OF a(1)] w(4) by (simp add: between_rows_def)
qed

lemma gen_row_buffers:
  assumes "between_rows g pf d r" "length js = length (junk_sentence pf)" "length jc = length (junk_comment pf)"
  shows "tpch_gen_row g (pf\<lparr>junk_sentence := js, junk_comment := jc\<rparr>) d t seg i su r = tpch_gen_row g pf d t seg i su r"
proof -
  let ?e = "tpch_builder_env g pf d (r_tds r)" and ?pf = "pf\<lparr>junk_sentence := js, junk_comment := jc\<rparr>"
  have e: "tpch_builder_env g ?pf d (r_tds r) = ?e\<lparr>h_sentence := js, h_comment := jc\<rparr>" by (simp add: tpch_builder_env_def)
  have "tpch_verify_row ?pf = tpch_verify_row pf" by (intro ext) (simp add: tpch_verify_row_def split: hrow.split)
  then have "tpch_emit_row g ?pf = tpch_emit_row g pf" by (intro ext) (simp only: tpch_emit_row_def)
  moreover have "tpch_mk_row (tpch_builder_env g ?pf d (r_tds r)) t (snd su) i (row_start t (r_streams r)) =
      tpch_mk_row ?e t (snd su) i (row_start t (r_streams r))"
    unfolding e by (rule equal_row) (use assms in \<open>simp_all add: between_rows_def tpch_ok_def tpch_builder_env_def rng_inv_ok row_start_inv\<close>)
  ultimately show ?thesis by (simp only: tpch_gen_row_def Let_def between_say)
qed

lemma gen_loop_buffers:
  assumes "length js = length (junk_sentence pf)" "length jc = length (junk_comment pf)"
  shows "between_rows g pf d r \<Longrightarrow>
    tpch_gen_loop n g (pf\<lparr>junk_sentence := js, junk_comment := jc\<rparr>) d t seg i su r = tpch_gen_loop n g pf d t seg i su r \<and>
    (\<forall>r'. tpch_gen_loop n g pf d t seg i su r = Inr r' \<longrightarrow> between_rows g pf d r')"
proof (induction n arbitrary: i su r)
  case (Suc n)
  show ?case
  proof (cases "tpch_gen_row g pf d t seg i su r")
    case (Inr p)
    then obtain su' r' where p: "tpch_gen_row g pf d t seg i su r = Inr (su', r')" by (cases p) simp
    from Suc.IH [OF gen_row_between [OF Suc.prems p]] show ?thesis using gen_row_buffers [OF Suc.prems assms] p by simp
  qed (use gen_row_buffers [OF Suc.prems assms] in simp)
qed simp

lemma gen_tbl_buffers:
  assumes "length js = length (junk_sentence pf)" "length jc = length (junk_comment pf)" "between_rows g pf d r"
  shows "tpch_gen_tbl g (pf\<lparr>junk_sentence := js, junk_comment := jc\<rparr>) d t i n upd r = tpch_gen_tbl g pf d t i n upd r"
    "tpch_gen_tbl g pf d t i n upd r = Inr r' \<Longrightarrow> between_rows g pf d r'"
  using gen_loop_buffers [OF assms(1,2) assms(3)] by (auto simp: tpch_gen_tbl_def split: if_splits)

lemma gen_one_buffers:
  assumes "length js = length (junk_sentence pf)" "length jc = length (junk_comment pf)" "between_rows g pf d r" "g_children g \<le> 1"
  shows "tpch_gen_one g (pf\<lparr>junk_sentence := js, junk_comment := jc\<rparr>) d i r = tpch_gen_one g pf d i r"
    "tpch_gen_one g pf d i r = Inr r' \<Longrightarrow> between_rows g pf d r'"
proof -
  have b: "between_rows g pf d (say g x r)" for x using assms(3) by (simp add: between_rows_def between_say)
  note gen = gen_tbl_buffers [OF assms(1,2) b]
  have k: "between_rows g pf d (on_world f (say g x r1)) = between_rows g pf d r1" "between_rows g pf d (say g x r1) = between_rows g pf d r1" for f x r1
    by (simp_all add: between_rows_def between_say on_world_def)
  show "tpch_gen_one g (pf\<lparr>junk_sentence := js, junk_comment := jc\<rparr>) d i r = tpch_gen_one g pf d i r"
    using assms(4) by (simp add: tpch_gen_one_def gen(1))
  show "tpch_gen_one g pf d i r = Inr r' \<Longrightarrow> between_rows g pf d r'"
    using assms(3,4) gen(2) by (auto simp: tpch_gen_one_def k map_sum_def split: if_splits sum.splits)
qed

text \<open>
  C10: whatever the uninitialised arrays for the sentence and the comments hold when the program starts, the run over the tables of
  TPC-H is the same: the same files, streams, checksums and messages, or the same failure.  Nothing of the old contents gets into a
  row, although a comment is put together from pieces with a zero character behind them and is cut off in the middle of a sentence.
\<close>

theorem tpch_buffers_irrelevant:
  assumes "tpch_ok (tpch_builder_env g pf d (r_tds r))" "rng_inv (r_streams r)" "\<not> g_set_seeds g" "g_children g \<le> 1"
    and "length js = length (junk_sentence pf)" "length jc = length (junk_comment pf)"
  shows "tpch_gen_all g (pf\<lparr>junk_sentence := js, junk_comment := jc\<rparr>) d ts r = tpch_gen_all g pf d ts r"
proof -
  have "between_rows g pf d r" using assms(1-3) by (simp add: between_rows_def)
  then show ?thesis
  proof (induction ts arbitrary: r)
    case (Cons t ts)
    show ?case using Cons.IH gen_one_buffers [OF assms(5,6) Cons.prems assms(4), of t] by (cases "tpch_gen_one g pf d t r") simp_all
  qed simp
qed

theorem tpch_buffers_irrelevant_witness:
  "tpch_gen_all tpch_globals (tpch_platform\<lparr>junk_sentence := replicate 257 CHR ''x'', junk_comment := replicate 200 CHR ''y''\<rparr>) ssb_hdists
     [PART..REGION] tpch_run = tpch_gen_all tpch_globals tpch_platform ssb_hdists [PART..REGION] tpch_run"
proof (rule tpch_buffers_irrelevant)
  show "tpch_ok (tpch_builder_env tpch_globals tpch_platform ssb_hdists (r_tds tpch_run))"
    unfolding tpch_run_def run.simps by (rule tpch_demo_ok) (simp_all add: tpch_globals_def main_globals_def)
qed (simp_all add: tpch_run_def rng_init_inv tpch_globals_def main_globals_def tpch_platform_def)

end
