(* ===== verification/Spec2Isabelle.thy ===== *)
theory Spec2Isabelle
  imports Mod_Mult Bcd2 Parallel Query_Runs Tpch_Steps Tpch_Buffers
begin

text \<open>
  A model of the benchmark data generator \<open>ssb-dbgen\<close>, the C program under
  \<open>src/modules/benchmetrics/files/ssb/ssb-gen/ssb-dbgen\<close>: the data generator \<open>dbgen\<close> and the query generator \<open>qgen\<close>.
  It is the only C code of the repository; the rest (Puppet modules, shell and Python scripts, a Java launcher, SQL texts)
  configures machines and starts programs and is not modelled.

  The program in the large.
  \<open>dbgen\<close> reads its options, loads the value distributions from the text file \<open>dists.dss\<close>, and builds the tables it was
  asked for row by row: a row starts the accounting of the random streams (\<open>row_start\<close>), draws its columns from streams of
  its own, is printed to the file of the table, and ends by moving every stream to a fixed distance
  (\<open>row_stop\<close>).  As every row moves the streams by fixed amounts, a table can be cut into steps: a process skips the rows of the
  other steps by jumping the streams ahead (\<open>set_state\<close>, \<open>NthElement\<close>) and builds its own.  \<open>pload\<close> starts one process per
  step.  \<open>qgen\<close> draws the parameters of the benchmark queries from the same kind of streams and substitutes them in query
  templates.

  How the model is built.
  The configuration is that of the makefile: \<open>WORKLOAD = SSBM\<close>, the Star Schema Benchmark, 64-bit longs,
  no \<open>SUPPORT_64BITS\<close>, no \<open>EOL_HANDLING\<close>.  The makefile's other value \<open>WORKLOAD = TPCH\<close> selects the other branches of \<open>build.c\<close>, \<open>print.c\<close> and
  \<open>driver.c\<close>; they are modelled beside the first in the theories \<open>Tpch_*\<close>, and where the two share a routine (\<open>process_options\<close>, \<open>tbl_open\<close>) the
  field \<open>tpch\<close> of the configuration tells them apart.  Integers are \<open>int\<close>, with every store into a C \<open>int\<close> that can overflow wrapped by
  \<open>c_int\<close>, C's truncating division \<open>sdiv\<close> and \<open>smod\<close>, and \<open>word\<close>-style bit operations; doubles are the rationals
  that IEEE double precision can hold, with rounding to even after each operation (\<open>IEEE_Double\<close>).
  State is passed explicitly: \<open>rng\<close> is the table \<open>Seed\<close>, \<open>outs\<close> the static variables of the output routines together with the
  \<open>world\<close> (files, their access rights, standard input and output), \<open>globals\<close> the global variables the options set, \<open>run\<close> a
  process, \<open>qrun\<close> a run of \<open>qgen\<close>.  A call that can fail returns \<open>option\<close> or a sum: \<open>None\<close> and \<open>Crash\<close> stand for
  undefined behaviour (a null pointer, an access out of bounds, a loop without end), \<open>Exit n\<close> and \<open>Aborted\<close> for \<open>exit(n)\<close> and
  \<open>abort()\<close>.  Loops are recursive functions with termination proofs; only the loop that draws until a choice differs
  (\<open>pick_other\<close>) is a partial function, whose end is a theorem.  No definition uses fuel.

  The theories, from the bottom up, and what their lemmas show.
  \<^item> \<open>Prelude\<close>: C arithmetic, decimal numerals, lists.  \<open>IEEE_Double\<close>: rounding is monotone and exact on small integers.
  \<^item> \<open>Lcg\<close> (\<open>NextRand\<close> of \<open>rnd.c\<close>): Schrage's evaluation is multiplication modulo \<open>2 ^ 31 - 1\<close> and has the full
    period.  \<open>Mod_Mult\<close> (\<open>RND_ModMult\<close>, \<open>RND_seed\<close>, \<open>NthElement\<close> of \<open>speed_seed.c\<close>): the multiplication in doubles is exact, so that
    \<open>NthElement\<close> is iteration of \<open>NextRand\<close>; the locale \<open>modular_powers\<close> carries the powering loop for both versions.
  \<^item> \<open>Dss\<close>: constants and records of \<open>dss.h\<close>, \<open>shared.h\<close> and \<open>dsstypes.h\<close>.  \<open>Rnd\<close>: streams, uniform draws, accounting per row.
    \<open>Speed_Seed\<close>: the seed routine of every table; the locales \<open>row_generator\<close> and \<open>seekable\<close> state what a
    row routine and a seed routine promise each other, and that skipping rows equals building them.
  \<^item> \<open>Permute\<close>, \<open>Bm_Utils\<close>: permutations, random strings, choices by weight.  \<open>Calendar\<close>: dates against the Gregorian
    calendar.  \<open>Bcd2\<close>: decimal arithmetic on nibbles, with the locale \<open>digit_store\<close>.  \<open>Sparse\<close>: sparse order keys.
  \<^item> \<open>Build\<close> (\<open>build.c\<close>): the row builders and what they rely on (\<open>benv_ok\<close>).  \<open>Seek\<close>: they are instances of \<open>seekable\<close>.
    \<open>Tables\<close>: whole tables, with the locale \<open>table_generator\<close> (every row well-formed).
  \<^item> \<open>Dist_File\<close>, \<open>Dist_Sections\<close> (\<open>read_dist\<close>, \<open>load_dists\<close>): a file of sections is read into exactly its entries.
    \<open>Ssb_Env\<close>: the shipped distributions and table definitions satisfy everything the builders rely on.
  \<^item> \<open>Print_Rows\<close>, \<open>Output\<close> (\<open>print.c\<close>, \<open>load_stub.c\<close>, \<open>tbl_open\<close>): the text of a row parses back into its fields; the locale
    \<open>static_file\<close> is the discipline of the static file pointers, interpreted for every table; the delete file of an update set
    names keys that \<open>mk_order\<close> gives to rows of the initial population or of earlier sets, not those of its own set.
  \<^item> \<open>Options\<close> (\<open>process_options\<close>, both versions of \<open>getopt\<close>), \<open>Driver\<close> (\<open>gen_tbl\<close> to \<open>main\<close>), \<open>Runs\<close>: a run of \<open>main\<close> end to
    end leaves the texts of the documented number of well-formed rows that the builders make (\<open>table_built\<close>), and the foreign keys
    of the orders built are keys of the rows built in the other tables.
    \<open>Chunks\<close>: steps, as \<open>prepare\<close> finds them, partition a table, and the file of a step agrees with its rows of the whole table.
    \<open>Parallel\<close>: the processes of \<open>pload\<close> as a step relation; no schedule is stuck, all end after the same number of steps, and each file
    is the one its process leaves alone.
  \<^item> \<open>Query_Params\<close>, \<open>Query_Gen\<close>, \<open>Query_Runs\<close> (\<open>varsub.c\<close>, \<open>qgen.c\<close>, \<open>tpcd.h\<close>, \<open>permute.h\<close>): the parameters of all
    22 queries are found and valid, the orders are permutations, a template is printed with every mark replaced, \<open>:n\<close> included, and
    without the comments that an independent reader (\<open>uncomment\<close>) finds, on lines where the stripper can read them (\<open>tidy\<close>).
  \<^item> \<open>Text_Gen\<close>, \<open>Text_Lang\<close> (\<open>text.c\<close>): the pseudo text on checked buffers; \<open>dbg_text\<close> ends, stays inside its buffers and
    prints the start of sentences of the grammar.  \<open>Text_Same\<close>: two runs whose buffers hold other things at the start write the same
    (\<open>same_text\<close>, carried through every routine).
  \<^item> \<open>Tpch_Rows\<close>, \<open>Tpch_Print\<close>, \<open>Tpch_Tables\<close>: the workload TPC-H.  Its builders return on every state of the streams and
    build well-formed rows (the rules for \<open>yields\<close> follow a builder step by step); a line item names a supplier of its part; the
    files read back; what the checksums cover.
  \<^item> \<open>Tied\<close>, \<open>Tpch_Seek\<close>: the value of a TPC-H builder depends on the streams of its table only, and the number of draws is bounded
    (\<open>tied\<close>, with a rule for each construct of a builder); hence \<open>row_stop\<close> gives every builder a fixed rate, however much its texts draw, and
    the builders are instances of \<open>seekable\<close> in all columns.  \<open>Tpch_Output\<close>: the \<open>pr_\<close> routines; the locale \<open>two_files\<close> extends \<open>static_file\<close>
    to masters and details printed to two files in turn.
  \<^item> \<open>Tpch_Driver\<close>, \<open>Tpch_Runs\<close>, \<open>Tpch_Steps\<close>: \<open>gen_tbl\<close> to \<open>main\<close> in the branches for TPC-H; \<open>gen_tbl\<close> leaves the texts of its rows in every
    file of a table; the files of the steps of a table, joined, are the table built at once, up to the number of rows where the
    31 bits of \<open>NthElement\<close> end, and no further.  \<open>Tpch_Buffers\<close>: the tables do not depend on what the uninitialised arrays for the
    comments hold.  The model starts every call of \<open>TEXT\<close> with the same old contents, where the program has those that the call before
    left; as each call is independent of them, this makes no difference.

  Interfaces.  Each locale above is interpreted on the definitions of the model, at the shipped configuration or for all of them,
  in the theory of the provider; clients (\<open>Runs\<close>, \<open>Chunks\<close>, \<open>Parallel\<close>, \<open>Tpch_Runs\<close>, \<open>Tpch_Steps\<close>) only use its laws.

  Bounds.  Scale factors run from 1 to 1000 (\<open>MAX_SCALE\<close>), where keys, prices and totals stay inside their C types
  (\<open>order_ok\<close>, \<open>part_ok\<close>); \<open>table_limit\<close> and \<open>tpch_limit\<close> bound the rows a seed routine skips in one call, as
  \<open>NthElement\<close> keeps 31 bits of its count.

  Not modelled, and why.
  The branches for other platforms are not part of this build.  The test programs in \<open>permute.c\<close> and
  \<open>text.c\<close> are compiled only with \<open>TEST\<close>.  \<open>stop_proc\<close> and \<open>kill_load\<close> send signals; a \<open>fork\<close> that fails is left out.
  \<open>malloc\<close> succeeds.  The line that \<open>getopt\<close> of the C library itself writes to standard error for an unknown option is left out.  The operating system's \<open>stat\<close>, \<open>open\<close> and file names are the functions of \<open>world\<close>; time zone, process numbers and
  the memory that the program reads without having set it are parameters (\<open>platform\<close>, \<open>hplatform\<close>).  \<open>qgen\<close> with an infinite scale factor,
  and reading behind the end of a line that ends with a mark, count as \<open>Crash\<close>.  The overlapping \<open>strcpy\<close> of
  \<open>strip_comments\<close> moves the text forward, as the libraries do in practice.
\<close>

end
